(* ===== verification/GC_Prelude.thy ===== *)
theory GC_Prelude
  imports Main "HOL-Library.Word" "HOL-Library.Monad_Syntax"
begin

unbundle bit_operations_syntax

text \<open>
  Shared vocabulary of the development: the machine types of the 64-bit build
  (\<open>OMR_ENV_DATA64\<close>), C's unsigned arithmetic on \<open>uintptr_t\<close> values written out
  over \<open>nat\<close>, the treatment of assertions and of \<open>NULL\<close> dereferences, and the
  generic lemmas on lists and options that the component theories use.

  Conventions.
  \<^item> An address or a byte count is a \<open>nat\<close> below \<open>2 ^ 64\<close>; \<open>NULL\<close> is \<open>0\<close>.
    Additions and subtractions that the C++ code performs on \<open>uintptr_t\<close> are \<open>uadd\<close> and
    \<open>usub\<close>, which wrap around at \<open>2 ^ 64\<close>.  Values whose bits matter are \<open>64 word\<close>.
  \<^item> Code that can abort (\<open>Assert_MM_true\<close>, which is compiled into every build, or a
    dereference of \<open>NULL\<close>) returns an \<open>option\<close>: \<open>None\<close> is "the process aborts, or the
    loop does not return".  \<open>assume0\<close> is a debug-build check and is not modelled.
\<close>

section \<open>Types and constants\<close>

type_synonym uword = "64 word"
type_synonym addr = nat

abbreviation (input) NULL :: addr where
  "NULL \<equiv> 0"

definition UMAX :: nat where
  "UMAX = 18446744073709551616"

text \<open>\<open>sizeof(uintptr_t)\<close> and \<open>sizeof(MM_HeapLinkedFreeHeader)\<close> of the 64-bit build.\<close>

abbreviation (input) sizeof_UDATA :: nat where
  "sizeof_UDATA \<equiv> 8"

abbreviation (input) sizeof_FreeHeader :: nat where
  "sizeof_FreeHeader \<equiv> 16"

named_theorems udata_simps \<open>evaluation of wrapping arithmetic when it does not wrap\<close>
named_theorems abort_simps \<open>evaluation of assertions and dereferences\<close>

section \<open>Unsigned arithmetic\<close>

definition uadd :: "nat \<Rightarrow> nat \<Rightarrow> nat" where
  "uadd a b = (a + b) mod UMAX"

definition usub :: "nat \<Rightarrow> nat \<Rightarrow> nat" where
  "usub a b = (a + (UMAX - b mod UMAX)) mod UMAX"

definition umul :: "nat \<Rightarrow> nat \<Rightarrow> nat" where
  "umul a b = (a * b) mod UMAX"

lemma UMAX_pos [simp]: "0 < UMAX"
  by (simp add: UMAX_def)

lemma UMAX_power: "UMAX = 2 ^ 64"
  by (simp add: UMAX_def)

lemma uadd_less [simp]: "uadd a b < UMAX"
  by (simp add: uadd_def)

lemma usub_less [simp]: "usub a b < UMAX"
  by (simp add: usub_def)

lemma umul_less [simp]: "umul a b < UMAX"
  by (simp add: umul_def)

lemma uadd_exact [udata_simps]: "a + b < UMAX \<Longrightarrow> uadd a b = a + b"
  by (simp add: uadd_def)

lemma usub_exact [udata_simps]: "b \<le> a \<Longrightarrow> a < UMAX \<Longrightarrow> usub a b = a - b"
proof -
  assume ba: "b \<le> a" and a: "a < UMAX"
  then have "a + (UMAX - b mod UMAX) = (a - b) + UMAX" by simp
  with a show ?thesis by (simp add: usub_def)
qed

lemma umul_exact [udata_simps]: "a * b < UMAX \<Longrightarrow> umul a b = a * b"
  by (simp add: umul_def)

lemma usub_wraps: "a < b \<Longrightarrow> b < UMAX \<Longrightarrow> usub a b = UMAX - (b - a)"
  by (simp add: usub_def)

lemma uadd_usub_cancel: "a < UMAX \<Longrightarrow> usub (uadd a b) b = a"
proof -
  assume a: "a < UMAX"
  have "usub (uadd a b) b = ((a + b) mod UMAX + (UMAX - b mod UMAX)) mod UMAX"
    by (simp only: usub_def uadd_def)
  also have "\<dots> = (a + b + (UMAX - b mod UMAX)) mod UMAX"
    by (simp only: mod_add_left_eq)
  also have "a + b + (UMAX - b mod UMAX) = a + (b div UMAX) * UMAX + UMAX"
    using div_mult_mod_eq [of b UMAX] mod_less_divisor [OF UMAX_pos, of b] by linarith
  finally show ?thesis using a by simp
qed

section \<open>Assertions and dereferences\<close>

definition assert_MM :: "bool \<Rightarrow> unit option" where
  "assert_MM P = (if P then Some () else None)"

definition deref :: "addr \<Rightarrow> unit option" where
  "deref p = (if p = NULL then None else Some ())"

lemma assert_MM_True [abort_simps, simp]: "P \<Longrightarrow> assert_MM P = Some ()"
  by (simp add: assert_MM_def)

lemma assert_MM_False [abort_simps]: "\<not> P \<Longrightarrow> assert_MM P = None"
  by (simp add: assert_MM_def)

lemma assert_MM_Some [simp]: "assert_MM P = Some u \<longleftrightarrow> P"
  by (simp add: assert_MM_def)

lemma deref_not_NULL [abort_simps, simp]: "p \<noteq> NULL \<Longrightarrow> deref p = Some ()"
  by (simp add: deref_def)

lemma deref_NULL [abort_simps, simp]: "deref NULL = None"
  by (simp add: deref_def)

lemma deref_Some [simp]: "deref p = Some u \<longleftrightarrow> p \<noteq> NULL"
  by (simp add: deref_def)

section \<open>Lists and sums\<close>

lemma sum_list_append_Cons: "sum_list (xs @ x # ys) = sum_list xs + x + sum_list (ys :: nat list)"
  by simp

lemma sorted_wrt_snoc_Cons:
  "sorted_wrt P (xs @ x # ys) \<longleftrightarrow>
     sorted_wrt P xs \<and> sorted_wrt P ys \<and> (\<forall>a \<in> set xs. P a x) \<and> (\<forall>b \<in> set ys. P x b) \<and>
     (\<forall>a \<in> set xs. \<forall>b \<in> set ys. P a b)"
  by (auto simp: sorted_wrt_append)

lemma aligned_gap:
  "(a::nat) mod 8 = 0 \<Longrightarrow> b mod 8 = 0 \<Longrightarrow> a < b \<Longrightarrow> a + 8 \<le> b"
  by presburger

end
