(* ===== verification/Ranking.thy ===== *)
theory Ranking
  imports GC_Prelude "HOL-Library.Multiset"
begin

text \<open>
  The frequency counters behind the large-object profile: the rank table of
  util/omrutil/ranking.c and the Space-Saving summary of util/omrutil/spacesaving.c.
  A ranking is an array of \<open>size\<close> entries of which the last \<open>curSize\<close> are occupied, in
  ascending order of count, and a hash table from each key to its index in the array.
  The hash table (util/hashtable) is used through find, add and remove only and is a map here.
\<close>

section \<open>Data and operations\<close>

record rankTableEntry =
  re_count :: nat
  re_data :: nat

record OMRRanking =
  rk_size :: nat
  rk_curSize :: nat
  rankTable :: "rankTableEntry list"
  hashTable :: "nat \<rightharpoonup> nat"

definition rankingNew :: "nat \<Rightarrow> OMRRanking" where
  "rankingNew sz = \<lparr> rk_size = sz, rk_curSize = 0,
     rankTable = replicate sz \<lparr> re_count = 0, re_data = 0 \<rparr>, hashTable = Map.empty \<rparr>"

definition rankingClear :: "OMRRanking \<Rightarrow> OMRRanking" where
  "rankingClear r = r \<lparr> rk_curSize := 0, hashTable := Map.empty \<rparr>"

definition rankingGetLowestCount :: "OMRRanking \<Rightarrow> nat" where
  "rankingGetLowestCount r =
     (if rk_curSize r = 0 then 0 else re_count (rankTable r ! (rk_size r - rk_curSize r)))"

text \<open>One turn of the loop of \<open>bubbleUp\<close>: the two hash table ranks and the two entries swap.\<close>

definition bubble_swap :: "OMRRanking \<Rightarrow> nat \<Rightarrow> OMRRanking" where
  "bubble_swap r rank =
     (let cur = rankTable r ! rank; nxt = rankTable r ! (rank + 1);
          h = (hashTable r)(re_data cur := map_option (\<lambda>i. i + 1) (hashTable r (re_data cur)));
          h = h(re_data nxt := map_option (\<lambda>i. i - 1) (h (re_data nxt)))
      in r \<lparr> hashTable := h, rankTable := (rankTable r)[rank + 1 := cur, rank := nxt] \<rparr>)"

function bubbleUp :: "OMRRanking \<Rightarrow> nat \<Rightarrow> OMRRanking" where
  "bubbleUp r rank =
     (if rank + 1 < rk_size r \<and> re_count (rankTable r ! (rank + 1)) < re_count (rankTable r ! rank)
      then bubbleUp (bubble_swap r rank) (rank + 1) else r)"
  by pat_completeness auto
termination
  by (relation "measure (\<lambda>(r, rank). rk_size r - rank)") (auto simp: bubble_swap_def Let_def)

declare bubbleUp.simps [simp del]

definition updateLowestNotFull :: "OMRRanking \<Rightarrow> nat \<Rightarrow> nat \<Rightarrow> OMRRanking" where
  "updateLowestNotFull r key cnt =
     (let lowestRank = (rk_size r - rk_curSize r) - 1
      in bubbleUp (r \<lparr> hashTable := (hashTable r)(key \<mapsto> lowestRank),
                       rankTable := (rankTable r)[lowestRank := \<lparr> re_count = cnt, re_data = key \<rparr>],
                       rk_curSize := rk_curSize r + 1 \<rparr>) lowestRank)"

definition rankingUpdateLowest :: "OMRRanking \<Rightarrow> nat \<Rightarrow> nat \<Rightarrow> OMRRanking" where
  "rankingUpdateLowest r key cnt =
     (if \<not> rk_curSize r < rk_size r then
        bubbleUp (r \<lparr> hashTable := ((hashTable r)(re_data (rankTable r ! 0) := None))(key \<mapsto> 0),
                      rankTable := (rankTable r)[0 := \<lparr> re_count = cnt, re_data = key \<rparr>] \<rparr>) 0
      else updateLowestNotFull r key cnt)"

text \<open>The new ranking, and whether the key was found.\<close>

definition rankingIncrementEntry :: "OMRRanking \<Rightarrow> nat \<Rightarrow> nat \<Rightarrow> OMRRanking \<times> bool" where
  "rankingIncrementEntry r key cnt =
     (case hashTable r key of
        Some rank \<Rightarrow>
          (bubbleUp (r \<lparr> rankTable := (rankTable r)[rank :=
             (rankTable r ! rank) \<lparr> re_count := uadd (re_count (rankTable r ! rank)) cnt \<rparr>] \<rparr>) rank, True)
      | None \<Rightarrow> (r, False))"

definition rankingGetKthHighest :: "OMRRanking \<Rightarrow> nat \<Rightarrow> nat" where
  "rankingGetKthHighest r k =
     (if k \<le> rk_curSize r then re_data (rankTable r ! (rk_size r - k)) else NULL)"

definition rankingGetKthHighestCount :: "OMRRanking \<Rightarrow> nat \<Rightarrow> nat" where
  "rankingGetKthHighestCount r k =
     (if k \<le> rk_curSize r then re_count (rankTable r ! (rk_size r - k)) else 0)"

text \<open>\<open>OMRSpaceSaving\<close> holds nothing but its ranking.\<close>

definition spaceSavingUpdate :: "OMRRanking \<Rightarrow> nat \<Rightarrow> nat \<Rightarrow> OMRRanking" where
  "spaceSavingUpdate r key cnt =
     (let (r', found) = rankingIncrementEntry r key cnt
      in if \<not> found then
           (if rk_curSize r' = rk_size r'
            then rankingUpdateLowest r' key (uadd (rankingGetLowestCount r') cnt)
            else rankingUpdateLowest r' key cnt)
         else r')"

section \<open>Well-formed rankings\<close>

text \<open>
  \<open>occ r\<close> is the occupied part of the table.  A ranking is well formed when the hash table
  knows exactly the occupied entries with their positions; it is ordered when the counts ascend.
\<close>

definition occ :: "OMRRanking \<Rightarrow> rankTableEntry list" where
  "occ r = drop (rk_size r - rk_curSize r) (rankTable r)"

definition ranking_wf :: "OMRRanking \<Rightarrow> bool" where
  "ranking_wf r \<longleftrightarrow> 0 < rk_size r \<and> rk_curSize r \<le> rk_size r \<and> length (rankTable r) = rk_size r \<and>
     (\<forall>k i. hashTable r k = Some i \<longleftrightarrow>
        (rk_size r - rk_curSize r \<le> i \<and> i < rk_size r \<and> re_data (rankTable r ! i) = k))"

definition ranking_ordered :: "OMRRanking \<Rightarrow> bool" where
  "ranking_ordered r \<longleftrightarrow> sorted (map re_count (occ r))"

fun bubble :: "rankTableEntry \<Rightarrow> rankTableEntry list \<Rightarrow> rankTableEntry list" where
  "bubble x [] = [x]"
| "bubble x (y # ys) = (if re_count y < re_count x then y # bubble x ys else x # y # ys)"

lemma mset_bubble [simp]: "mset (bubble x ys) = add_mset x (mset ys)"
  by (induction ys) auto

lemma length_bubble [simp]: "length (bubble x ys) = Suc (length ys)"
  by (induction ys) auto

lemma set_bubble [simp]: "set (bubble x ys) = insert x (set ys)"
  by (induction ys) auto

lemma sorted_bubble: "sorted (map re_count ys) \<Longrightarrow> sorted (map re_count (bubble x ys))"
  by (induction ys) force+

lemma bubble_swap_fields [simp]:
  "rk_size (bubble_swap r k) = rk_size r" "rk_curSize (bubble_swap r k) = rk_curSize r"
  "length (rankTable (bubble_swap r k)) = length (rankTable r)"
  by (simp_all add: bubble_swap_def Let_def)

lemma bubbleUp_fields [simp]:
  "rk_size (bubbleUp r k) = rk_size r" "rk_curSize (bubbleUp r k) = rk_curSize r"
  "length (rankTable (bubbleUp r k)) = length (rankTable r)"
  by (induction r k rule: bubbleUp.induct; subst bubbleUp.simps; simp)+

lemma bubble_swap_table:
  assumes "rankTable r = pre @ x # y # ys" "length pre = rank"
  shows "rankTable (bubble_swap r rank) = (pre @ [y]) @ x # ys"
  using assms by (auto simp: bubble_swap_def Let_def nth_append list_update_append)

text \<open>\<open>bubbleUp\<close> moves the entry at \<open>rank\<close> up past the smaller counts above it.\<close>

lemma bubbleUp_table:
  assumes "rankTable r = pre @ x # ys" "length pre = rank" "length (rankTable r) = rk_size r"
  shows "rankTable (bubbleUp r rank) = pre @ bubble x ys"
  using assms
proof (induction ys arbitrary: r pre rank)
  case Nil
  then show ?case by (subst bubbleUp.simps) (auto simp: nth_append)
next
  case (Cons y ys)
  show ?case
  proof (cases "re_count y < re_count x")
    case True
    have "rankTable (bubble_swap r rank) = (pre @ [y]) @ x # ys"
      using Cons.prems by (intro bubble_swap_table) auto
    then have "rankTable (bubbleUp (bubble_swap r rank) (rank + 1)) = (pre @ [y]) @ bubble x ys"
      using Cons.prems by (intro Cons.IH) auto
    with True Cons.prems show ?thesis by (subst bubbleUp.simps) (auto simp: nth_append)
  next
    case False
    with Cons.prems show ?thesis by (subst bubbleUp.simps) (auto simp: nth_append)
  qed
qed

lemma bubble_swap_wf:
  assumes "ranking_wf r" "rk_size r - rk_curSize r \<le> rank" "rank + 1 < rk_size r"
  shows "ranking_wf (bubble_swap r rank)"
proof -
  let ?t = "rankTable r"
  let ?a = "re_data (?t ! rank)" and ?b = "re_data (?t ! (rank + 1))"
  have h: "hashTable r k = Some i \<longleftrightarrow>
      (rk_size r - rk_curSize r \<le> i \<and> i < rk_size r \<and> re_data (?t ! i) = k)" for k i
    using assms(1) by (simp add: ranking_wf_def)
  have ha: "hashTable r ?a = Some rank" and hb: "hashTable r ?b = Some (rank + 1)"
    using assms h by auto
  then have ab: "?a \<noteq> ?b" by auto
  have t: "rankTable (bubble_swap r rank) = ?t[rank + 1 := ?t ! rank, rank := ?t ! (rank + 1)]"
    by (simp add: bubble_swap_def Let_def)
  have hash: "hashTable (bubble_swap r rank) k =
      (if k = ?a then Some (rank + 1) else if k = ?b then Some rank else hashTable r k)" for k
    using ha hb ab by (auto simp: bubble_swap_def Let_def)
  have len: "length ?t = rk_size r" using assms(1) by (simp add: ranking_wf_def)
  have nth: "rankTable (bubble_swap r rank) ! i =
      (if i = rank then ?t ! (rank + 1) else if i = rank + 1 then ?t ! rank else ?t ! i)"
    if "i < rk_size r" for i
    using that assms(3) len unfolding t by (simp add: nth_list_update)
  have "hashTable (bubble_swap r rank) k = Some i \<longleftrightarrow>
      (rk_size r - rk_curSize r \<le> i \<and> i < rk_size r \<and> re_data (rankTable (bubble_swap r rank) ! i) = k)"
    for k i
  proof (cases "i = rank \<or> i = rank + 1")
    case True
    with assms(2,3) ab h ha hb nth show ?thesis unfolding hash by auto
  next
    case False
    have "hashTable (bubble_swap r rank) k = Some i \<longleftrightarrow> hashTable r k = Some i"
      using False ha hb unfolding hash by auto
    also have "\<dots> \<longleftrightarrow> (rk_size r - rk_curSize r \<le> i \<and> i < rk_size r \<and>
        re_data (rankTable (bubble_swap r rank) ! i) = k)"
      unfolding h using False nth by auto
    finally show ?thesis .
  qed
  with assms(1) show ?thesis by (simp add: ranking_wf_def)
qed

lemma bubbleUp_wf:
  "ranking_wf r \<Longrightarrow> rk_size r - rk_curSize r \<le> rank \<Longrightarrow> ranking_wf (bubbleUp r rank)"
proof (induction r rank rule: bubbleUp.induct)
  case (1 r rank)
  show ?case
    using 1 by (subst bubbleUp.simps) (simp add: bubble_swap_wf)
qed

lemma occ_split:
  assumes "ranking_wf r" "rk_size r - rk_curSize r \<le> rank" "rank < rk_size r"
  shows "\<exists>pre x ys. rankTable r = take (rk_size r - rk_curSize r) (rankTable r) @ pre @ x # ys \<and>
    x = rankTable r ! rank \<and> occ r = pre @ x # ys \<and>
    rk_size r - rk_curSize r + length pre = rank"
proof -
  let ?d = "rk_size r - rk_curSize r"
  have len: "length (rankTable r) = rk_size r" using assms(1) by (simp add: ranking_wf_def)
  have "rank - ?d < length (occ r)" using assms len by (simp add: occ_def)
  from id_take_nth_drop [OF this] have o: "occ r = take (rank - ?d) (occ r) @ occ r ! (rank - ?d) #
      drop (Suc (rank - ?d)) (occ r)" .
  have "occ r ! (rank - ?d) = rankTable r ! rank" using assms len by (simp add: occ_def)
  moreover have "length (take (rank - ?d) (occ r)) = rank - ?d" using assms len by (simp add: occ_def)
  moreover have "rankTable r = take ?d (rankTable r) @ occ r" by (simp add: occ_def)
  ultimately show ?thesis using o assms(2)
    by (metis le_add_diff_inverse)
qed

section \<open>The summary as a list\<close>

text \<open>
  What an update does to the occupied entries, without positions or the hash table: the
  specification that the array code refines.
\<close>

definition ss_step :: "nat \<Rightarrow> rankTableEntry list \<Rightarrow> nat \<Rightarrow> nat \<Rightarrow> rankTableEntry list" where
  "ss_step sz xs key cnt =
     (if key \<in> re_data ` set xs then
        (let pre = takeWhile (\<lambda>e. re_data e \<noteq> key) xs; rest = dropWhile (\<lambda>e. re_data e \<noteq> key) xs
         in pre @ bubble ((hd rest) \<lparr> re_count := re_count (hd rest) + cnt \<rparr>) (tl rest))
      else if length xs = sz then bubble \<lparr> re_count = re_count (hd xs) + cnt, re_data = key \<rparr> (tl xs)
      else bubble \<lparr> re_count = cnt, re_data = key \<rparr> xs)"

lemma ss_step_present:
  assumes "xs = pre @ x # ys" "re_data x = key" "distinct (map re_data xs)"
  shows "ss_step sz xs key cnt = pre @ bubble (x \<lparr> re_count := re_count x + cnt \<rparr>) ys"
proof -
  have "key \<notin> re_data ` set pre" using assms by auto
  then have "\<And>e. e \<in> set pre \<Longrightarrow> re_data e \<noteq> key" by (metis imageI)
  then have "takeWhile (\<lambda>e. re_data e \<noteq> key) xs = pre" "dropWhile (\<lambda>e. re_data e \<noteq> key) xs = x # ys"
    using assms(1,2) by simp_all
  with assms show ?thesis by (simp add: ss_step_def)
qed

lemma occ_distinct: "ranking_wf r \<Longrightarrow> distinct (map re_data (occ r))"
proof -
  assume wf: "ranking_wf r"
  let ?d = "rk_size r - rk_curSize r"
  have len: "length (rankTable r) = rk_size r"
    and h: "\<And>k i. hashTable r k = Some i \<longleftrightarrow>
      (?d \<le> i \<and> i < rk_size r \<and> re_data (rankTable r ! i) = k)"
    using wf by (simp_all add: ranking_wf_def)
  show ?thesis
  proof (rule distinct_conv_nth [THEN iffD2], intro allI impI)
    fix i j
    assume ij: "i < length (map re_data (occ r))" "j < length (map re_data (occ r))" "i \<noteq> j"
    then have "?d + i < rk_size r" "?d + j < rk_size r" using len by (auto simp: occ_def)
    with h [of "re_data (rankTable r ! (?d + i))" "?d + i"] h [of "re_data (rankTable r ! (?d + i))" "?d + j"] ij
    show "map re_data (occ r) ! i \<noteq> map re_data (occ r) ! j"
      using len by (auto simp: occ_def)
  qed
qed

lemma occ_length: "ranking_wf r \<Longrightarrow> length (occ r) = rk_curSize r"
  by (simp add: occ_def ranking_wf_def)

lemma hashTable_None:
  assumes "ranking_wf r"
  shows "hashTable r k = None \<longleftrightarrow> k \<notin> re_data ` set (occ r)"
proof -
  let ?d = "rk_size r - rk_curSize r"
  have len: "length (rankTable r) = rk_size r" using assms by (simp add: ranking_wf_def)
  have "hashTable r k \<noteq> None \<longleftrightarrow> (\<exists>i. hashTable r k = Some i)" by auto
  also have "\<dots> \<longleftrightarrow> (\<exists>i. ?d \<le> i \<and> i < rk_size r \<and> re_data (rankTable r ! i) = k)"
    using assms by (simp add: ranking_wf_def)
  also have "\<dots> \<longleftrightarrow> (\<exists>j. j < length (occ r) \<and> re_data (occ r ! j) = k)"
  proof
    assume "\<exists>i. ?d \<le> i \<and> i < rk_size r \<and> re_data (rankTable r ! i) = k"
    then obtain i where "?d \<le> i" "i < rk_size r" "re_data (rankTable r ! i) = k" by auto
    then show "\<exists>j. j < length (occ r) \<and> re_data (occ r ! j) = k"
      using len by (intro exI [of _ "i - ?d"]) (auto simp: occ_def)
  next
    assume "\<exists>j. j < length (occ r) \<and> re_data (occ r ! j) = k"
    then obtain j where "j < length (occ r)" "re_data (occ r ! j) = k" by auto
    then show "\<exists>i. ?d \<le> i \<and> i < rk_size r \<and> re_data (rankTable r ! i) = k"
      using len by (intro exI [of _ "?d + j"]) (auto simp: occ_def)
  qed
  also have "\<dots> \<longleftrightarrow> k \<in> re_data ` set (occ r)" by (force simp: in_set_conv_nth)
  finally show ?thesis by auto
qed

text \<open>The three ways an update writes the table, each followed by \<open>bubbleUp\<close>.\<close>

lemma update_present:
  assumes wf: "ranking_wf r" and h: "hashTable r key = Some rank"
    and bnd: "re_count (rankTable r ! rank) + cnt < UMAX"
  shows "ranking_wf (fst (rankingIncrementEntry r key cnt))"
    and "occ (fst (rankingIncrementEntry r key cnt)) = ss_step (rk_size r) (occ r) key cnt"
proof -
  let ?d = "rk_size r - rk_curSize r"
  let ?x = "(rankTable r ! rank) \<lparr> re_count := re_count (rankTable r ! rank) + cnt \<rparr>"
  let ?r = "r \<lparr> rankTable := (rankTable r)[rank := ?x] \<rparr>"
  have rank: "?d \<le> rank" "rank < rk_size r" "re_data (rankTable r ! rank) = key"
    and len: "length (rankTable r) = rk_size r"
    using wf h by (auto simp: ranking_wf_def)
  from occ_split [OF wf rank(1,2)] obtain pre x ys where
    sp: "rankTable r = take ?d (rankTable r) @ pre @ x # ys" "x = rankTable r ! rank"
      "occ r = pre @ x # ys" "?d + length pre = rank" by auto
  have e: "fst (rankingIncrementEntry r key cnt) = bubbleUp ?r rank"
    using h bnd by (simp add: rankingIncrementEntry_def uadd_exact)
  have "re_data ((rankTable r)[rank := ?x] ! i) = re_data (rankTable r ! i)" if "i < rk_size r" for i
    using len rank that by (simp add: nth_list_update)
  then have wf': "ranking_wf ?r" using wf by (auto simp: ranking_wf_def)
  then show "ranking_wf (fst (rankingIncrementEntry r key cnt))"
    unfolding e using rank by (intro bubbleUp_wf) auto
  have lt: "length (take ?d (rankTable r)) = ?d" using len by simp
  have "rankTable ?r = (take ?d (rankTable r) @ pre) @ ?x # ys"
    using sp(4) lt by (subst sp(1)) (auto simp: list_update_append)
  from bubbleUp_table [OF this] have
    "rankTable (bubbleUp ?r rank) = (take ?d (rankTable r) @ pre) @ bubble ?x ys"
    using sp(4) lt len by simp
  then have "occ (bubbleUp ?r rank) = pre @ bubble ?x ys"
    using lt by (simp add: occ_def)
  with sp(2,3) rank(3) show "occ (fst (rankingIncrementEntry r key cnt)) = ss_step (rk_size r) (occ r) key cnt"
    unfolding e using ss_step_present [OF sp(3) _ occ_distinct [OF wf]] by simp
qed

lemma update_lowest_full:
  assumes wf: "ranking_wf r" and h: "hashTable r key = None" and full: "rk_curSize r = rk_size r"
    and bnd: "rankingGetLowestCount r + cnt < UMAX"
  defines "r' \<equiv> rankingUpdateLowest r key (uadd (rankingGetLowestCount r) cnt)"
  shows "ranking_wf r'" and "occ r' = ss_step (rk_size r) (occ r) key cnt"
proof -
  let ?n = "\<lparr> re_count = rankingGetLowestCount r + cnt, re_data = key \<rparr>"
  let ?h = "((hashTable r)(re_data (rankTable r ! 0) := None))(key \<mapsto> 0)"
  let ?r = "r \<lparr> hashTable := ?h, rankTable := (rankTable r)[0 := ?n] \<rparr>"
  have len: "length (rankTable r) = rk_size r" and pos: "0 < rk_size r"
    and hh: "\<And>k i. hashTable r k = Some i \<longleftrightarrow> (i < rk_size r \<and> re_data (rankTable r ! i) = k)"
    using wf full by (auto simp: ranking_wf_def)
  obtain x ys where t: "rankTable r = x # ys" using len pos by (cases "rankTable r") auto
  have occ: "occ r = rankTable r" using full by (simp add: occ_def)
  have low: "rankingGetLowestCount r = re_count x"
    using full pos t by (simp add: rankingGetLowestCount_def)
  have e: "r' = bubbleUp ?r 0"
    using full bnd by (simp add: r'_def rankingUpdateLowest_def uadd_exact)
  have "?h k = Some i \<longleftrightarrow> (i < rk_size r \<and> re_data ((rankTable r)[0 := ?n] ! i) = k)" for k i
  proof (cases i)
    case 0
    have "hashTable r k = Some 0 \<longleftrightarrow> re_data x = k" using hh [of k 0] pos t by simp
    then show ?thesis using 0 len pos t by auto
  next
    case (Suc j)
    have "re_data (rankTable r ! i) \<noteq> re_data x" if "i < rk_size r"
      using hh [of "re_data x" i] hh [of "re_data x" 0] that pos t Suc by auto
    moreover have "\<not> (i < rk_size r \<and> re_data (rankTable r ! i) = key)"
      using hh [of key i] h by simp
    ultimately show ?thesis using hh [of k i] Suc t by auto
  qed
  then have "ranking_wf ?r" using wf full by (simp add: ranking_wf_def)
  then show "ranking_wf r'" unfolding e by (rule bubbleUp_wf) (simp add: full)
  have "rankTable (bubbleUp ?r 0) = [] @ bubble ?n ys"
    using t len by (intro bubbleUp_table) auto
  then have "occ r' = bubble ?n ys" unfolding e by (simp add: occ_def full)
  then show "occ r' = ss_step (rk_size r) (occ r) key cnt"
    using hashTable_None [OF wf] h occ t len low by (simp add: ss_step_def)
qed

lemma update_lowest_not_full:
  assumes wf: "ranking_wf r" and h: "hashTable r key = None" and nf: "rk_curSize r < rk_size r"
  shows "ranking_wf (rankingUpdateLowest r key cnt)"
    and "occ (rankingUpdateLowest r key cnt) = ss_step (rk_size r) (occ r) key cnt"
proof -
  define l where "l = rk_size r - rk_curSize r - 1"
  let ?n = "\<lparr> re_count = cnt, re_data = key \<rparr>"
  let ?r = "r \<lparr> hashTable := (hashTable r)(key \<mapsto> l), rankTable := (rankTable r)[l := ?n],
    rk_curSize := rk_curSize r + 1 \<rparr>"
  have len: "length (rankTable r) = rk_size r"
    and hh: "\<And>k i. hashTable r k = Some i \<longleftrightarrow>
      (l + 1 \<le> i \<and> i < rk_size r \<and> re_data (rankTable r ! i) = k)"
    using wf nf by (auto simp: ranking_wf_def l_def)
  have l: "l < rk_size r" "rk_size r - Suc (rk_curSize r) = l" "rk_size r - rk_curSize r = Suc l"
    using nf by (auto simp: l_def)
  have e: "rankingUpdateLowest r key cnt = bubbleUp ?r l"
    using nf by (simp add: rankingUpdateLowest_def updateLowestNotFull_def l_def Let_def)
  have "((hashTable r)(key \<mapsto> l)) k = Some i \<longleftrightarrow>
      (l \<le> i \<and> i < rk_size r \<and> re_data ((rankTable r)[l := ?n] ! i) = k)" for k i
  proof (cases "i = l")
    case True
    then show ?thesis using hh [of k l] len l by auto
  next
    case False
    then show ?thesis using hh [of k i] hh [of key i] h by auto
  qed
  then have "ranking_wf ?r" using wf nf l(2) by (simp add: ranking_wf_def)
  then show "ranking_wf (rankingUpdateLowest r key cnt)"
    unfolding e by (rule bubbleUp_wf) (simp add: l(2))
  have "rankTable ?r = take l (rankTable r) @ ?n # occ r"
    using len l by (simp add: upd_conv_take_nth_drop occ_def)
  then have "rankTable (bubbleUp ?r l) = take l (rankTable r) @ bubble ?n (occ r)"
    using len l occ_length [OF wf] nf by (intro bubbleUp_table) auto
  then have "occ (bubbleUp ?r l) = bubble ?n (occ r)" using l len by (simp add: occ_def)
  then show "occ (rankingUpdateLowest r key cnt) = ss_step (rk_size r) (occ r) key cnt"
    unfolding e using hashTable_None [OF wf] h occ_length [OF wf] nf by (simp add: ss_step_def)
qed

lemma occ_count_bound:
  "ranking_wf r \<Longrightarrow> e \<in> set (occ r) \<Longrightarrow> re_count e \<le> sum_list (map re_count (occ r))"
  by (simp add: member_le_sum_list)

lemma spaceSavingUpdate_refines:
  assumes wf: "ranking_wf r" and bnd: "sum_list (map re_count (occ r)) + cnt < UMAX"
  shows "ranking_wf (spaceSavingUpdate r key cnt) \<and>
    occ (spaceSavingUpdate r key cnt) = ss_step (rk_size r) (occ r) key cnt"
proof (cases "hashTable r key")
  case (Some rank)
  then have rank: "rk_size r - rk_curSize r \<le> rank" "rank < rk_size r"
    using wf by (auto simp: ranking_wf_def)
  from occ_split [OF wf this] have "rankTable r ! rank \<in> set (occ r)" by auto
  from occ_count_bound [OF wf this] bnd have "re_count (rankTable r ! rank) + cnt < UMAX" by simp
  note u = update_present [OF wf Some this]
  have "spaceSavingUpdate r key cnt = fst (rankingIncrementEntry r key cnt)"
    using Some by (simp add: spaceSavingUpdate_def rankingIncrementEntry_def)
  with u show ?thesis by simp
next
  case None
  then have inc: "rankingIncrementEntry r key cnt = (r, False)" by (simp add: rankingIncrementEntry_def)
  show ?thesis
  proof (cases "rk_curSize r = rk_size r")
    case True
    have "rankingGetLowestCount r \<le> sum_list (map re_count (occ r))"
    proof -
      have "rankTable r ! 0 \<in> set (occ r)" using wf True by (simp add: occ_def ranking_wf_def)
      from occ_count_bound [OF wf this] wf True show ?thesis
        by (simp add: rankingGetLowestCount_def)
    qed
    with bnd have "rankingGetLowestCount r + cnt < UMAX" by simp
    from update_lowest_full [OF wf None True this] True show ?thesis
      by (simp add: spaceSavingUpdate_def inc)
  next
    case False
    then have "rk_curSize r < rk_size r" using wf by (simp add: ranking_wf_def)
    from update_lowest_not_full [OF wf None this] False show ?thesis
      by (simp add: spaceSavingUpdate_def inc)
  qed
qed

section \<open>The Space-Saving guarantee\<close>

text \<open>
  \<open>ss_inv f sz xs\<close>: the summary \<open>xs\<close> of at most \<open>sz\<close> entries over-estimates every true weight
  \<open>f k\<close>; a key that is not in the summary weighs no more than any entry, and nothing while
  there is room.
\<close>

definition ss_inv :: "(nat \<Rightarrow> nat) \<Rightarrow> nat \<Rightarrow> rankTableEntry list \<Rightarrow> bool" where
  "ss_inv f sz xs \<longleftrightarrow> 0 < sz \<and> length xs \<le> sz \<and> distinct (map re_data xs) \<and> sorted (map re_count xs) \<and>
     (\<forall>e \<in> set xs. f (re_data e) \<le> re_count e) \<and>
     (\<forall>k. k \<notin> re_data ` set xs \<longrightarrow> (if length xs = sz then \<forall>e \<in> set xs. f k \<le> re_count e else f k = 0))"

lemma ss_invI:
  assumes "0 < sz" "length xs \<le> sz" "distinct (map re_data xs)" "sorted (map re_count xs)"
    and "\<And>e. e \<in> set xs \<Longrightarrow> f (re_data e) \<le> re_count e"
    and "\<And>k e. k \<notin> re_data ` set xs \<Longrightarrow> length xs = sz \<Longrightarrow> e \<in> set xs \<Longrightarrow> f k \<le> re_count e"
    and "\<And>k. k \<notin> re_data ` set xs \<Longrightarrow> length xs \<noteq> sz \<Longrightarrow> f k = 0"
  shows "ss_inv f sz xs"
  using assms by (simp add: ss_inv_def)

lemma sorted_prefix_bubble:
  assumes "sorted (map re_count (pre @ x # ys))" "re_count x \<le> re_count x'"
  shows "sorted (map re_count (pre @ bubble x' ys))"
  using assms by (fastforce simp: sorted_append intro: sorted_bubble)

lemma ss_step_inv:
  assumes "ss_inv f sz xs"
  shows "ss_inv (f(key := f key + cnt)) sz (ss_step sz xs key cnt)"
proof (cases "key \<in> re_data ` set xs")
  case True
  then obtain x where "x \<in> set xs" "re_data x = key" by auto
  then obtain pre ys where xs: "xs = pre @ x # ys" by (meson split_list)
  let ?x = "x \<lparr> re_count := re_count x + cnt \<rparr>"
  have d: "distinct (map re_data xs)" using assms by (simp add: ss_inv_def)
  have step: "ss_step sz xs key cnt = pre @ bubble ?x ys"
    by (rule ss_step_present [OF xs _ d]) fact
  have so: "sorted (map re_count (pre @ bubble ?x ys))"
    using assms xs by (intro sorted_prefix_bubble [of _ x]) (auto simp: ss_inv_def)
  have keys: "re_data ` set (pre @ bubble ?x ys) = re_data ` set xs" using xs by auto
  have "mset (map re_data (pre @ bubble ?x ys)) = mset (map re_data xs)"
    using xs by simp
  then have di: "distinct (map re_data (pre @ bubble ?x ys))"
    using d mset_eq_imp_distinct_iff by blast
  have k: "re_data x = key" by fact
  have "key \<notin> re_data ` (set pre \<union> set ys)" using d xs k by auto
  then have ne: "\<And>e. e \<in> set pre \<union> set ys \<Longrightarrow> re_data e \<noteq> key" by (metis imageI)
  show ?thesis
    unfolding step using assms so di keys xs k ne by (auto simp: ss_inv_def split: if_splits)
next
  case new: False
  show ?thesis
  proof (cases "length xs = sz")
    case True
    then obtain x ys where xs: "xs = x # ys" using assms by (cases xs) (auto simp: ss_inv_def)
    let ?n = "\<lparr> re_count = re_count x + cnt, re_data = key \<rparr>"
    have step: "ss_step sz xs key cnt = bubble ?n ys"
      using new True xs by (simp add: ss_step_def)
    have so: "sorted (map re_count (bubble ?n ys))"
      using assms xs by (intro sorted_bubble) (auto simp: ss_inv_def)
    have "mset (map re_data (bubble ?n ys)) = mset (map re_data (?n # ys))"
      by simp
    then have di: "distinct (map re_data (bubble ?n ys))"
      using assms new xs mset_eq_imp_distinct_iff [of "map re_data (bubble ?n ys)" "map re_data (?n # ys)"]
      by (auto simp: ss_inv_def)
    have low: "\<And>e. e \<in> set ys \<Longrightarrow> re_count x \<le> re_count e" using assms xs by (auto simp: ss_inv_def)
    have out: "\<And>k. k \<notin> re_data ` set xs \<Longrightarrow> f k \<le> re_count x"
      and fx: "f (re_data x) \<le> re_count x" using assms xs True by (auto simp: ss_inv_def)
    have "f k \<le> re_count x" if "k \<notin> re_data ` set ys" for k
      using out fx that xs by (cases "k = re_data x") auto
    then have small: "f k \<le> re_count e" if "k \<notin> re_data ` set ys" "e \<in> set ys" for k e
      using low that le_trans by blast
    have keep: "f (re_data e) \<le> re_count e \<and> re_data e \<noteq> key" if "e \<in> set ys" for e
      using assms that xs new by (auto simp: ss_inv_def)
    show ?thesis
      unfolding step
    proof (rule ss_invI [OF _ _ di so])
      fix e assume "e \<in> set (bubble ?n ys)"
      then show "(f(key := f key + cnt)) (re_data e) \<le> re_count e"
        using keep out [OF new] by auto
    next
      fix k e assume k: "k \<notin> re_data ` set (bubble ?n ys)" and e: "e \<in> set (bubble ?n ys)"
      then have "f k \<le> re_count x" using out fx xs by (cases "k = re_data x") auto
      with k e small show "(f(key := f key + cnt)) k \<le> re_count e" by auto
    qed (use assms True xs in \<open>auto simp: ss_inv_def\<close>)
  next
    case False
    let ?n = "\<lparr> re_count = cnt, re_data = key \<rparr>"
    have step: "ss_step sz xs key cnt = bubble ?n xs" using new False by (simp add: ss_step_def)
    have so: "sorted (map re_count (bubble ?n xs))"
      using assms by (intro sorted_bubble) (auto simp: ss_inv_def)
    have "mset (map re_data (bubble ?n xs)) = mset (map re_data (?n # xs))"
      by simp
    then have di: "distinct (map re_data (bubble ?n xs))"
      using assms new mset_eq_imp_distinct_iff [of "map re_data (bubble ?n xs)" "map re_data (?n # xs)"]
      by (auto simp: ss_inv_def)
    show ?thesis unfolding step using assms so di new False by (auto simp: ss_inv_def)
  qed
qed

lemma ss_step_sum:
  assumes "xs \<noteq> [] \<or> sz \<noteq> 0" "length xs \<le> sz" "distinct (map re_data xs)"
  shows "sum_list (map re_count (ss_step sz xs key cnt)) = sum_list (map re_count xs) + cnt"
proof -
  have b: "sum_list (map re_count (bubble x ys)) = re_count x + sum_list (map re_count ys)" for x ys
    by (induction ys) auto
  show ?thesis
  proof (cases "key \<in> re_data ` set xs")
    case True
    then obtain x where "x \<in> set xs" "re_data x = key" by auto
    then obtain pre ys where xs: "xs = pre @ x # ys" by (meson split_list)
    from ss_step_present [OF this \<open>re_data x = key\<close> assms(3)] xs show ?thesis by (simp add: b)
  next
    case False
    then show ?thesis using assms(1,2) by (cases xs) (auto simp: ss_step_def b)
  qed
qed

text \<open>A stream of weighted keys, and the true weight of a key in it.\<close>

definition weight :: "(nat \<times> nat) list \<Rightarrow> nat \<Rightarrow> nat" where
  "weight stream k = sum_list (map snd (filter (\<lambda>(key, _). key = k) stream))"

definition spaceSavingRun :: "OMRRanking \<Rightarrow> (nat \<times> nat) list \<Rightarrow> OMRRanking" where
  "spaceSavingRun r stream = fold (\<lambda>(key, cnt) r. spaceSavingUpdate r key cnt) stream r"

lemma weight_snoc: "weight (stream @ [(key, cnt)]) = (weight stream)(key := weight stream key + cnt)"
  by (auto simp: weight_def)

lemma rankingNew_wf: "0 < sz \<Longrightarrow> ranking_wf (rankingNew sz)"
  by (auto simp: ranking_wf_def rankingNew_def)

lemma spaceSavingUpdate_size: "rk_size (spaceSavingUpdate r key cnt) = rk_size r"
  by (auto simp: spaceSavingUpdate_def rankingIncrementEntry_def rankingUpdateLowest_def
      updateLowestNotFull_def Let_def split: option.splits)

lemma spaceSavingRun_inv:
  assumes "0 < sz" "sum_list (map snd stream) < UMAX"
  defines "r \<equiv> spaceSavingRun (rankingNew sz) stream"
  shows "ranking_wf r \<and> rk_size r = sz \<and> ss_inv (weight stream) sz (occ r) \<and>
    sum_list (map re_count (occ r)) = sum_list (map snd stream)"
  unfolding r_def using assms(2)
proof (induction stream rule: rev_induct)
  case Nil
  then show ?case
    using assms(1) rankingNew_wf
    by (auto simp: spaceSavingRun_def weight_def ss_inv_def occ_def rankingNew_def)
next
  case (snoc x stream)
  obtain key cnt where x: "x = (key, cnt)" by force
  let ?r = "spaceSavingRun (rankingNew sz) stream"
  have IH: "ranking_wf ?r" "rk_size ?r = sz" "ss_inv (weight stream) sz (occ ?r)"
    "sum_list (map re_count (occ ?r)) = sum_list (map snd stream)"
    using snoc.IH snoc.prems by auto
  have bnd: "sum_list (map re_count (occ ?r)) + cnt < UMAX" using snoc.prems IH(4) x by simp
  have e: "spaceSavingRun (rankingNew sz) (stream @ [x]) = spaceSavingUpdate ?r key cnt"
    by (simp add: spaceSavingRun_def x)
  have "length (occ ?r) \<le> sz" "distinct (map re_data (occ ?r))"
    using IH(3) by (auto simp: ss_inv_def)
  from ss_step_sum [OF _ this, of key cnt] assms(1) spaceSavingUpdate_refines [OF IH(1) bnd, of key]
    ss_step_inv [OF IH(3), of key cnt] IH
  show ?case unfolding e by (simp add: x weight_snoc spaceSavingUpdate_size fun_upd_def)
qed

lemma sum_list_lower: "\<forall>e \<in> set xs. c \<le> g e \<Longrightarrow> length xs * c \<le> sum_list (map g xs)" for c :: nat
  by (induction xs) auto

text \<open>
  C9: Space-Saving finds every heavy hitter.  After any stream of weighted updates to a new
  summary of \<open>sz\<close> counters whose total fits the counter width, a key that weighs more than
  the \<open>sz\<close>-th part of the total is in the summary, with a count that is no less than its true
  weight.
\<close>

theorem spaceSaving_heavy_hitter:
  assumes "0 < sz" "sum_list (map snd stream) < UMAX"
    and "sum_list (map snd stream) < sz * weight stream k"
  shows "\<exists>i. hashTable (spaceSavingRun (rankingNew sz) stream) k = Some i \<and>
    weight stream k \<le> re_count (rankTable (spaceSavingRun (rankingNew sz) stream) ! i)"
proof -
  let ?r = "spaceSavingRun (rankingNew sz) stream"
  from spaceSavingRun_inv [OF assms(1,2)] have wf: "ranking_wf ?r" and sz: "rk_size ?r = sz"
    and inv: "ss_inv (weight stream) sz (occ ?r)"
    and sum: "sum_list (map re_count (occ ?r)) = sum_list (map snd stream)" by auto
  have "k \<in> re_data ` set (occ ?r)"
  proof (rule ccontr)
    assume out: "k \<notin> re_data ` set (occ ?r)"
    have "weight stream k \<noteq> 0" using assms(3) by (metis mult_0_right not_less_zero)
    with inv out have full: "length (occ ?r) = sz" and le: "\<forall>e \<in> set (occ ?r). weight stream k \<le> re_count e"
      by (auto simp: ss_inv_def split: if_splits)
    have "length (occ ?r) * weight stream k \<le> sum_list (map re_count (occ ?r))"
      using le by (rule sum_list_lower)
    with full sum assms(3) show False by simp
  qed
  with hashTable_None [OF wf] obtain i where h: "hashTable ?r k = Some i" by auto
  then have i: "rk_size ?r - rk_curSize ?r \<le> i" "i < rk_size ?r" "re_data (rankTable ?r ! i) = k"
    using wf by (auto simp: ranking_wf_def)
  from occ_split [OF wf i(1,2)] have "rankTable ?r ! i \<in> set (occ ?r)" by auto
  with inv i(3) have "weight stream k \<le> re_count (rankTable ?r ! i)" by (auto simp: ss_inv_def)
  with h show ?thesis by blast
qed

theorem spaceSaving_heavy_hitter_witness:
  "\<exists>i. hashTable (spaceSavingRun (rankingNew 2) [(7, 10), (8, 1), (9, 2), (7, 5)]) 7 = Some i \<and>
    15 \<le> re_count (rankTable (spaceSavingRun (rankingNew 2) [(7, 10), (8, 1), (9, 2), (7, 5)]) ! i)"
  using spaceSaving_heavy_hitter [of 2 "[(7, 10), (8, 1), (9, 2), (7, 5)]" 7]
  by (simp add: weight_def UMAX_def)

end
