(* ===== verification/Alloc_Stats.thy ===== *)
theory Alloc_Stats
  imports Ranking
begin

text \<open>
  The free-entry profile of a memory pool: \<open>MM_FreeEntrySizeClassStats\<close> and the parts of
  \<open>MM_LargeObjectAllocateStats\<close> that the pools drive (gc/stats/LargeObjectAllocateStats.cpp).
  Every size class has a counter and an ascending list of exact sizes with their own counters.
  Counters are \<open>uintptr_t\<close> values that the code reads as signed in one place, so they are words.

  The nodes of the lists are never shared, so a list of nodes is a HOL list; a \<open>NULL\<close>
  \<open>_frequentAllocationHead\<close> is the empty array of lists.  The walk to the position of a size
  (\<open>prev\<close>, \<open>curr\<close>) splits the list of its class into the nodes before and from that position.
  The size class of a size is computed in floating point by \<open>log\<close>; that function is a
  field of the statistics (\<open>logSizeClass\<close>, \<open>powSizeClass\<close>) about which nothing is assumed.
\<close>

section \<open>Data\<close>

record FrequentAllocation =
  fa_size :: nat
  fa_count :: uword

record FreeEntrySizeClassStats =
  fe_count :: "uword list"
  frequentAllocationHead :: "FrequentAllocation list list"
  maxSizeClasses :: nat
  freeHeadVeryLargeEntry :: "FrequentAllocation list"
  maxFrequentAllocateSizes :: nat
  maxVeryLargeEntrySizes :: nat
  fe_veryLargeEntrySizeClass :: nat
  frequentAllocateSizeCounters :: nat
  guarantyEnoughPoolSizeForVeryLargeEntry :: bool

record LargeObjectAllocateStats =
  spaceSavingSizes :: OMRRanking
  spaceSavingSizeClasses :: OMRRanking
  spaceSavingSizesAveragePercent :: OMRRanking
  spaceSavingSizeClassesAveragePercent :: OMRRanking
  largeObjectThreshold :: nat
  veryLargeEntrySizeClass :: nat
  freeEntrySizeClassStats :: FreeEntrySizeClassStats
  tlhAllocSizeClassStats :: FreeEntrySizeClassStats
  sizeClassSizes :: "nat list"
  maxHeapSize :: nat
  logSizeClass :: "nat \<Rightarrow> nat"
  powSizeClass :: "nat \<Rightarrow> nat"

text \<open>\<open>MAX_FREE_ENTRY_COUNTERS_PER_FREQ_ALLOC_SIZE\<close> and \<open>VERY_LARGE_ENTRY_POOL_SIZE_FOR_THREAD\<close>.\<close>

definition MAX_FREE_ENTRY_COUNTERS :: nat where
  "MAX_FREE_ENTRY_COUNTERS = 5"

definition VERY_LARGE_ENTRY_POOL_SIZE_FOR_THREAD :: nat where
  "VERY_LARGE_ENTRY_POOL_SIZE_FOR_THREAD = 3"

section \<open>Operations of \<open>MM_FreeEntrySizeClassStats\<close>\<close>

definition clear_node :: "FrequentAllocation \<Rightarrow> FrequentAllocation" where
  "clear_node f = f \<lparr> fa_count := 0 \<rparr>"

text \<open>
  \<open>resetCounts\<close>: one size class.  The nodes of a very large class go back, zeroed and in
  order, to the front of the free list.
\<close>

definition resetCounts_class :: "nat \<Rightarrow> FreeEntrySizeClassStats \<Rightarrow> FreeEntrySizeClassStats" where
  "resetCounts_class i s =
     (let s = s \<lparr> fe_count := (fe_count s)[i := 0] \<rparr>; l = frequentAllocationHead s ! i
      in if maxFrequentAllocateSizes s \<noteq> 0 then
           (if fe_veryLargeEntrySizeClass s \<le> i then
              (if l \<noteq> [] then
                 s \<lparr> freeHeadVeryLargeEntry := map clear_node l @ freeHeadVeryLargeEntry s,
                     frequentAllocationHead := (frequentAllocationHead s)[i := []] \<rparr>
               else s)
            else s \<lparr> frequentAllocationHead := (frequentAllocationHead s)[i := map clear_node l] \<rparr>)
         else s)"

definition resetCounts :: "FreeEntrySizeClassStats \<Rightarrow> FreeEntrySizeClassStats" where
  "resetCounts s = fold resetCounts_class [0..<maxSizeClasses s] s"

definition clearFrequentAllocation :: "FreeEntrySizeClassStats \<Rightarrow> FreeEntrySizeClassStats" where
  "clearFrequentAllocation s =
     (if maxFrequentAllocateSizes s \<noteq> 0 then
        s \<lparr> frequentAllocationHead :=
              map (\<lambda>(i, l). if i < maxSizeClasses s \<and> i < fe_veryLargeEntrySizeClass s then [] else l)
                (enumerate 0 (frequentAllocationHead s)),
            frequentAllocateSizeCounters := 0 \<rparr>
      else s)"

definition initializeVeryLargeEntryPool :: "FreeEntrySizeClassStats \<Rightarrow> FreeEntrySizeClassStats" where
  "initializeVeryLargeEntryPool s =
     (if maxFrequentAllocateSizes s \<noteq> 0 then
        s \<lparr> frequentAllocationHead :=
              map (\<lambda>(i, l). if fe_veryLargeEntrySizeClass s \<le> i \<and> i < maxSizeClasses s then [] else l)
                (enumerate 0 (frequentAllocationHead s)),
            freeHeadVeryLargeEntry :=
              replicate (maxVeryLargeEntrySizes s) \<lparr> fa_size = 0, fa_count = 0 \<rparr> \<rparr>
      else s)"

text \<open>
  \<open>initialize\<close>: \<open>ok n\<close> says whether the \<open>n\<close>-th request to the forge (1 to 5, in the order of the
  code) or the lock (6) succeeds; \<open>None\<close> is the result \<open>false\<close>.  \<open>memMax\<close> and \<open>vlClass\<close> are
  the extension fields \<open>memoryMax\<close> and \<open>largeObjectAllocationProfilingVeryLargeObjectSizeClass\<close>.
  The arrays hold whatever the forge returned (\<open>junkCount\<close>, \<open>junkHead\<close>).
\<close>

definition fe_initialize ::
  "(nat \<Rightarrow> bool) \<Rightarrow> nat \<Rightarrow> nat \<Rightarrow> uword list \<Rightarrow> FrequentAllocation list list \<Rightarrow> nat \<Rightarrow> nat \<Rightarrow> nat \<Rightarrow> nat \<Rightarrow> bool
    \<Rightarrow> FreeEntrySizeClassStats \<Rightarrow> FreeEntrySizeClassStats option" where
  "fe_initialize ok memMax vlClass junkCount junkHead maxAllocateSizes maxClasses
       veryLargeObjectThreshold factorVeryLargeEntryPool simulation s =
     (let s = s \<lparr> maxSizeClasses := maxClasses, maxFrequentAllocateSizes := maxAllocateSizes,
                  fe_veryLargeEntrySizeClass := vlClass, maxVeryLargeEntrySizes := 0 \<rparr>
      in if maxClasses = 0 then Some s
         else if \<not> ok 1 then None
         else do {
           s \<leftarrow> (let s = s \<lparr> fe_count := junkCount \<rparr>
                 in if maxAllocateSizes = 0 then Some s
                    else if \<not> ok 2 \<or> \<not> ok 3 \<or> (simulation \<and> \<not> ok 4) then None
                    else (let s = s \<lparr> frequentAllocationHead := junkHead \<rparr>
                          in if memMax < veryLargeObjectThreshold then Some s
                             else (let n = (if veryLargeObjectThreshold \<noteq> 0
                                            then umul (memMax div veryLargeObjectThreshold) factorVeryLargeEntryPool
                                            else VERY_LARGE_ENTRY_POOL_SIZE_FOR_THREAD);
                                       s = s \<lparr> guarantyEnoughPoolSizeForVeryLargeEntry :=
                                                 (veryLargeObjectThreshold \<noteq> 0) \<rparr>
                                   in if \<not> ok 5 then None
                                      else Some (s \<lparr> maxVeryLargeEntrySizes := n \<rparr>))));
           s \<leftarrow> Some (resetCounts (initializeVeryLargeEntryPool (clearFrequentAllocation s)));
           if ok 6 then Some s else None
         })"

text \<open>\<open>mergeCountForVeryLargeEntries\<close>: the walk over one class; the counter, the kept nodes, the free list.\<close>

fun mergeVL_list :: "FrequentAllocation list \<Rightarrow> uword \<Rightarrow> FrequentAllocation list
    \<Rightarrow> uword \<times> FrequentAllocation list \<times> FrequentAllocation list" where
  "mergeVL_list [] c free = (c, [], free)"
| "mergeVL_list (f # fs) c free =
     (let (c, f) = (if sint (fa_count f) < 0 then (c + fa_count f, clear_node f) else (c, f))
      in if fa_count f = 0 then mergeVL_list fs c (f # free)
         else (let (c, l, free) = mergeVL_list fs c free in (c, f # l, free)))"

definition mergeVL_class :: "nat \<Rightarrow> FreeEntrySizeClassStats \<Rightarrow> FreeEntrySizeClassStats option" where
  "mergeVL_class i s =
     (let (c, l, free) = mergeVL_list (frequentAllocationHead s ! i) (fe_count s ! i) (freeHeadVeryLargeEntry s)
      in do { assert_MM (0 \<le> sint c);
              Some (s \<lparr> fe_count := (fe_count s)[i := c],
                        frequentAllocationHead := (frequentAllocationHead s)[i := l],
                        freeHeadVeryLargeEntry := free \<rparr>) })"

text \<open>Running a partial step over a list of indices.\<close>

fun foldO :: "('i \<Rightarrow> 's \<Rightarrow> 's option) \<Rightarrow> 'i list \<Rightarrow> 's \<Rightarrow> 's option" where
  "foldO f [] s = Some s"
| "foldO f (i # is) s = Option.bind (f i s) (foldO f is)"

definition mergeCountForVeryLargeEntries :: "FreeEntrySizeClassStats \<Rightarrow> FreeEntrySizeClassStats option" where
  "mergeCountForVeryLargeEntries s =
     (if frequentAllocationHead s \<noteq> [] then
        foldO mergeVL_class [fe_veryLargeEntrySizeClass s..<maxSizeClasses s] s
      else Some s)"

text \<open>\<open>copyVeryLargeEntry\<close>: a node from the free list, or the assertion fails.\<close>

definition copyVeryLargeEntry ::
  "FrequentAllocation \<Rightarrow> FrequentAllocation list \<Rightarrow> (FrequentAllocation \<times> FrequentAllocation list) option" where
  "copyVeryLargeEntry entry free =
     (case free of [] \<Rightarrow> None
      | n # free' \<Rightarrow> Some (n \<lparr> fa_size := fa_size entry, fa_count := fa_count entry \<rparr>, free'))"

text \<open>\<open>merge\<close>, very large class: the source list is merged into the destination list.\<close>

function (sequential) merge_list :: "FrequentAllocation list \<Rightarrow> FrequentAllocation list \<Rightarrow> FrequentAllocation list
    \<Rightarrow> (FrequentAllocation list \<times> FrequentAllocation list) option" where
  "merge_list [] dest free = Some (dest, free)"
| "merge_list (s # src) dest free =
     (if fa_count s = 0 then merge_list src dest free
      else case dest of
        [] \<Rightarrow> do { (n, free) \<leftarrow> copyVeryLargeEntry s free;
                   (l, free) \<leftarrow> merge_list src [] free; Some (n # l, free) }
      | d # ds \<Rightarrow>
          (if fa_size s < fa_size d then
             do { (n, free) \<leftarrow> copyVeryLargeEntry s free;
                  (l, free) \<leftarrow> merge_list src (d # ds) free; Some (n # l, free) }
           else if fa_size d = fa_size s then
             (let d = d \<lparr> fa_count := fa_count d + fa_count s \<rparr>
              in if fa_count d = 0 then merge_list src ds (d # free)
                 else do { (l, free) \<leftarrow> merge_list src ds free; Some (d # l, free) })
           else do { (l, free) \<leftarrow> merge_list (s # src) ds free; Some (d # l, free) }))"
  by pat_completeness auto
termination
  by (relation "measure (\<lambda>(src, dest, free). length src + length dest)") auto

text \<open>\<open>merge\<close>, other classes: each exact size takes the count of the same size of the source.\<close>

definition merge_exact :: "FrequentAllocation list \<Rightarrow> FrequentAllocation \<Rightarrow> FrequentAllocation" where
  "merge_exact src cur =
     (case dropWhile (\<lambda>f. fa_size cur \<noteq> fa_size f) src of
        [] \<Rightarrow> cur
      | f # _ \<Rightarrow> cur \<lparr> fa_count := fa_count cur + fa_count f \<rparr>)"

definition merge_class ::
  "FreeEntrySizeClassStats \<Rightarrow> nat \<Rightarrow> FreeEntrySizeClassStats \<Rightarrow> FreeEntrySizeClassStats option" where
  "merge_class stats i s =
     (let s = s \<lparr> fe_count := (fe_count s)[i := fe_count s ! i + fe_count stats ! i] \<rparr>
      in if frequentAllocationHead s \<noteq> [] then
           (if fe_veryLargeEntrySizeClass s \<le> i then
              do { (l, free) \<leftarrow> merge_list (frequentAllocationHead stats ! i)
                                 (frequentAllocationHead s ! i) (freeHeadVeryLargeEntry s);
                   Some (s \<lparr> frequentAllocationHead := (frequentAllocationHead s)[i := l],
                             freeHeadVeryLargeEntry := free \<rparr>) }
            else Some (s \<lparr> frequentAllocationHead := (frequentAllocationHead s)
                             [i := map (merge_exact (frequentAllocationHead stats ! i))
                                     (frequentAllocationHead s ! i)] \<rparr>))
         else Some s)"

definition fe_merge ::
  "FreeEntrySizeClassStats \<Rightarrow> FreeEntrySizeClassStats \<Rightarrow> FreeEntrySizeClassStats option" where
  "fe_merge stats s =
     do { assert_MM (maxSizeClasses stats \<le> maxSizeClasses s);
          foldO (merge_class stats) [0..<maxSizeClasses stats] s }"

text \<open>\<open>mergeLocked\<close>: the merged statistics and the cleared source.\<close>

definition mergeLocked :: "FreeEntrySizeClassStats \<Rightarrow> FreeEntrySizeClassStats
    \<Rightarrow> (FreeEntrySizeClassStats \<times> FreeEntrySizeClassStats) option" where
  "mergeLocked stats s = do { s \<leftarrow> fe_merge stats s; Some (s, resetCounts stats) }"

definition node_bytes :: "FrequentAllocation \<Rightarrow> uword" where
  "node_bytes f = fa_count f * of_nat (fa_size f)"

definition class_freeMemory :: "FreeEntrySizeClassStats \<Rightarrow> nat list \<Rightarrow> nat \<Rightarrow> uword" where
  "class_freeMemory s sizes i =
     fe_count s ! i * of_nat (sizes ! i) +
     (if frequentAllocationHead s \<noteq> [] then sum_list (map node_bytes (frequentAllocationHead s ! i)) else 0)"

definition getFreeMemory :: "FreeEntrySizeClassStats \<Rightarrow> nat list \<Rightarrow> uword" where
  "getFreeMemory s sizes = (\<Sum>i \<leftarrow> [0..<maxSizeClasses s]. class_freeMemory s sizes i)"

definition getCount :: "FreeEntrySizeClassStats \<Rightarrow> nat \<Rightarrow> uword" where
  "getCount s i = fe_count s ! i"

definition getFrequentAllocCount :: "FreeEntrySizeClassStats \<Rightarrow> nat \<Rightarrow> uword" where
  "getFrequentAllocCount s i = sum_list (map fa_count (frequentAllocationHead s ! i))"

text \<open>
  \<open>copyTo\<close>: the snapshot of one class.  The nodes come from the free list of the very large
  entries or from the array of counters, each with its assertion.
\<close>

fun copy_nodes :: "bool \<Rightarrow> nat \<Rightarrow> FrequentAllocation list \<Rightarrow> FreeEntrySizeClassStats
    \<Rightarrow> (FrequentAllocation list \<times> FreeEntrySizeClassStats) option" where
  "copy_nodes vl maxCounters [] stats = Some ([], stats)"
| "copy_nodes vl maxCounters (f # fs) stats =
     do { (n, stats) \<leftarrow>
            (if vl then
               (case freeHeadVeryLargeEntry stats of [] \<Rightarrow> None
                | n # free \<Rightarrow> Some (n, stats \<lparr> freeHeadVeryLargeEntry := free \<rparr>))
             else if frequentAllocateSizeCounters stats < maxCounters then
               Some (\<lparr> fa_size = 0, fa_count = 0 \<rparr>,
                     stats \<lparr> frequentAllocateSizeCounters := frequentAllocateSizeCounters stats + 1 \<rparr>)
             else None);
          (l, stats) \<leftarrow> copy_nodes vl maxCounters fs stats;
          Some (n \<lparr> fa_size := fa_size f, fa_count := fa_count f \<rparr> # l, stats) }"

definition copyTo_class :: "FreeEntrySizeClassStats \<Rightarrow> nat \<Rightarrow> FreeEntrySizeClassStats
    \<Rightarrow> FreeEntrySizeClassStats option" where
  "copyTo_class s i stats =
     (let stats = stats \<lparr> fe_count := (fe_count stats)[i := fe_count s ! i] \<rparr>
      in if frequentAllocationHead s \<noteq> [] then
           do { assert_MM (frequentAllocationHead stats \<noteq> []);
                (l, stats) \<leftarrow> copy_nodes (fe_veryLargeEntrySizeClass s \<le> i)
                  (MAX_FREE_ENTRY_COUNTERS * maxFrequentAllocateSizes s) (frequentAllocationHead s ! i) stats;
                Some (stats \<lparr> frequentAllocationHead := (frequentAllocationHead stats)[i := l] \<rparr>) }
         else Some stats)"

definition copyTo :: "FreeEntrySizeClassStats \<Rightarrow> FreeEntrySizeClassStats \<Rightarrow> nat list
    \<Rightarrow> (FreeEntrySizeClassStats \<times> uword) option" where
  "copyTo s stats sizes =
     do { assert_MM (maxSizeClasses stats = maxSizeClasses s);
          stats \<leftarrow> foldO (copyTo_class s) [0..<maxSizeClasses s]
                    (resetCounts (stats \<lparr> frequentAllocateSizeCounters := 0,
                       fe_veryLargeEntrySizeClass := fe_veryLargeEntrySizeClass s \<rparr>));
          Some (stats, getFreeMemory s sizes) }"

section \<open>Operations of \<open>MM_LargeObjectAllocateStats\<close>\<close>

text \<open>
  \<open>getSizeClassIndex\<close>: the logarithm of \<open>0\<close> fails the first assertion, an index past the
  classes the last one.
\<close>

definition getSizeClassIndex :: "LargeObjectAllocateStats \<Rightarrow> nat \<Rightarrow> nat option" where
  "getSizeClassIndex los sz =
     (if sz = 0 then None
      else (let result = logSizeClass los sz; n = maxSizeClasses (freeEntrySizeClassStats los)
            in do { assert_MM (n = 0 \<or> result < n); Some result }))"

text \<open>
  \<open>updateFreeEntrySizeClassStats\<close>: \<open>pre\<close> are the nodes up to \<open>prev\<close>, \<open>post\<close> those from \<open>curr\<close>; the
  result is the new statistics and the size the entry was counted under.
\<close>

definition updateFreeEntrySizeClassStats ::
  "LargeObjectAllocateStats \<Rightarrow> nat \<Rightarrow> FreeEntrySizeClassStats \<Rightarrow> uword \<Rightarrow> nat
    \<Rightarrow> FrequentAllocation list \<Rightarrow> FrequentAllocation list \<Rightarrow> (FreeEntrySizeClassStats \<times> nat) option" where
  "updateFreeEntrySizeClassStats los freeEntrySize s cnt i pre post =
     (let set_list = (\<lambda>l. s \<lparr> frequentAllocationHead := (frequentAllocationHead s)[i := l] \<rparr>);
          count_class = Some (s \<lparr> fe_count := (fe_count s)[i := fe_count s ! i + cnt] \<rparr>, sizeClassSizes los ! i)
      in if veryLargeEntrySizeClass los \<le> i then
           (if post \<noteq> [] \<and> freeEntrySize = fa_size (hd post) then
              (let cur = (hd post) \<lparr> fa_count := fa_count (hd post) + cnt \<rparr>
               in if fa_count cur = 0
                  then Some ((set_list (pre @ tl post)) \<lparr> freeHeadVeryLargeEntry := cur # freeHeadVeryLargeEntry s \<rparr>,
                             freeEntrySize)
                  else Some (set_list (pre @ cur # tl post), freeEntrySize))
            else case freeHeadVeryLargeEntry s of
                n # free \<Rightarrow>
                  Some ((set_list (pre @ (n \<lparr> fa_size := freeEntrySize, fa_count := cnt \<rparr>) # post))
                          \<lparr> freeHeadVeryLargeEntry := free \<rparr>, freeEntrySize)
              | [] \<Rightarrow> (if guarantyEnoughPoolSizeForVeryLargeEntry s then None else count_class))
         else if post \<noteq> [] \<and> freeEntrySize = fa_size (hd post) then
           Some (set_list (pre @ (hd post) \<lparr> fa_count := fa_count (hd post) + cnt \<rparr> # tl post), fa_size (hd post))
         else if pre \<noteq> [] then
           Some (set_list (butlast pre @ [(last pre) \<lparr> fa_count := fa_count (last pre) + cnt \<rparr>] @ post),
                 fa_size (last pre))
         else count_class)"

text \<open>
  The shared walk of the increment and decrement; a class index past the array of heads (only
  possible when there are no classes at all) reads through \<open>NULL\<close>.
\<close>

definition countFreeEntry ::
  "LargeObjectAllocateStats \<Rightarrow> nat \<Rightarrow> FreeEntrySizeClassStats \<Rightarrow> uword \<Rightarrow> (FreeEntrySizeClassStats \<times> nat) option" where
  "countFreeEntry los freeEntrySize s cnt =
     do { i \<leftarrow> getSizeClassIndex los freeEntrySize;
          assert_MM (i < length (frequentAllocationHead s));
          updateFreeEntrySizeClassStats los freeEntrySize s cnt i
            (takeWhile (\<lambda>f. fa_size f < freeEntrySize) (frequentAllocationHead s ! i))
            (dropWhile (\<lambda>f. fa_size f < freeEntrySize) (frequentAllocationHead s ! i)) }"

definition incrementFreeEntrySizeClassStats ::
  "nat \<Rightarrow> LargeObjectAllocateStats \<Rightarrow> (LargeObjectAllocateStats \<times> nat) option" where
  "incrementFreeEntrySizeClassStats freeEntrySize los =
     do { (s, ret) \<leftarrow> countFreeEntry los freeEntrySize (freeEntrySizeClassStats los) 1;
          Some (los \<lparr> freeEntrySizeClassStats := s \<rparr>, ret) }"

definition decrementFreeEntrySizeClassStats ::
  "nat \<Rightarrow> LargeObjectAllocateStats \<Rightarrow> LargeObjectAllocateStats option" where
  "decrementFreeEntrySizeClassStats freeEntrySize los =
     do { (s, ret) \<leftarrow> countFreeEntry los freeEntrySize (freeEntrySizeClassStats los) (- 1);
          Some (los \<lparr> freeEntrySizeClassStats := s \<rparr>) }"

definition incrementTlhAllocSizeClassStats ::
  "nat \<Rightarrow> LargeObjectAllocateStats \<Rightarrow> LargeObjectAllocateStats option" where
  "incrementTlhAllocSizeClassStats freeEntrySize los =
     do { i \<leftarrow> getSizeClassIndex los freeEntrySize;
          (let t = tlhAllocSizeClassStats los
           in do { assert_MM (i < maxSizeClasses t);
                   Some (los \<lparr> tlhAllocSizeClassStats :=
                                 t \<lparr> fe_count := (fe_count t)[i := fe_count t ! i + 1] \<rparr> \<rparr>) }) }"

text \<open>\<open>allocateObject\<close>: large sizes enter both Space-Saving summaries.\<close>

definition los_allocateObject :: "nat \<Rightarrow> LargeObjectAllocateStats \<Rightarrow> LargeObjectAllocateStats" where
  "los_allocateObject allocateSize los =
     (if largeObjectThreshold los \<le> allocateSize then
        (let sizeClass = powSizeClass los allocateSize
         in los \<lparr> spaceSavingSizes := spaceSavingUpdate (spaceSavingSizes los) allocateSize allocateSize,
                  spaceSavingSizeClasses := spaceSavingUpdate (spaceSavingSizeClasses los) sizeClass sizeClass \<rparr>)
      else los)"

definition resetCurrent :: "LargeObjectAllocateStats \<Rightarrow> LargeObjectAllocateStats" where
  "resetCurrent los = los \<lparr> spaceSavingSizes := rankingClear (spaceSavingSizes los),
                            spaceSavingSizeClasses := rankingClear (spaceSavingSizeClasses los) \<rparr>"

definition resetAverage :: "LargeObjectAllocateStats \<Rightarrow> LargeObjectAllocateStats" where
  "resetAverage los =
     los \<lparr> spaceSavingSizesAveragePercent := rankingClear (spaceSavingSizesAveragePercent los),
           spaceSavingSizeClassesAveragePercent := rankingClear (spaceSavingSizeClassesAveragePercent los) \<rparr>"

text \<open>The loop of \<open>mergeCurrent\<close> and \<open>mergeAverage\<close>: every entry of the other summary, highest first.\<close>

definition mergeSpaceSaving :: "OMRRanking \<Rightarrow> OMRRanking \<Rightarrow> OMRRanking" where
  "mergeSpaceSaving toMerge r =
     fold (\<lambda>i r. spaceSavingUpdate r (rankingGetKthHighest toMerge (i + 1)) (rankingGetKthHighestCount toMerge (i + 1)))
       [0..<rk_curSize toMerge] r"

definition mergeCurrent :: "LargeObjectAllocateStats \<Rightarrow> LargeObjectAllocateStats \<Rightarrow> LargeObjectAllocateStats" where
  "mergeCurrent other los =
     los \<lparr> spaceSavingSizes := mergeSpaceSaving (spaceSavingSizes other) (spaceSavingSizes los),
           spaceSavingSizeClasses := mergeSpaceSaving (spaceSavingSizeClasses other) (spaceSavingSizeClasses los) \<rparr>"

definition mergeAverage :: "LargeObjectAllocateStats \<Rightarrow> LargeObjectAllocateStats \<Rightarrow> LargeObjectAllocateStats" where
  "mergeAverage other los =
     los \<lparr> spaceSavingSizesAveragePercent :=
             mergeSpaceSaving (spaceSavingSizesAveragePercent other) (spaceSavingSizesAveragePercent los),
           spaceSavingSizeClassesAveragePercent :=
             mergeSpaceSaving (spaceSavingSizeClassesAveragePercent other) (spaceSavingSizeClassesAveragePercent los) \<rparr>"

text \<open>
  \<open>initializeFrequentAllocation\<close>: the first multiples of every frequent size become exact
  sizes of their class.  A frequent size of \<open>0\<close> divides by zero.
\<close>

definition insertFrequentSize ::
  "LargeObjectAllocateStats \<Rightarrow> nat \<Rightarrow> FreeEntrySizeClassStats \<Rightarrow> FreeEntrySizeClassStats option" where
  "insertFrequentSize los sz s =
     do { i \<leftarrow> getSizeClassIndex los sz;
          (if fe_veryLargeEntrySizeClass s \<le> i then Some s
           else (let l = frequentAllocationHead s ! i;
                     pre = takeWhile (\<lambda>f. fa_size f < sz) l; post = dropWhile (\<lambda>f. fa_size f < sz) l
                 in if post = [] \<or> sz \<noteq> fa_size (hd post) then
                      do { assert_MM (frequentAllocateSizeCounters s
                                        < MAX_FREE_ENTRY_COUNTERS * maxFrequentAllocateSizes s);
                           Some (s \<lparr> frequentAllocationHead := (frequentAllocationHead s)
                                       [i := pre @ \<lparr> fa_size = sz, fa_count = 0 \<rparr> # post],
                                     frequentAllocateSizeCounters := frequentAllocateSizeCounters s + 1 \<rparr>) }
                    else Some s)) }"

definition initializeFrequentAllocation ::
  "LargeObjectAllocateStats \<Rightarrow> FreeEntrySizeClassStats \<Rightarrow> FreeEntrySizeClassStats option" where
  "initializeFrequentAllocation los s =
     (let s = clearFrequentAllocation s;
          n = min (maxFrequentAllocateSizes s) (rk_curSize (spaceSavingSizesAveragePercent los))
      in foldO (\<lambda>i s. let f = rankingGetKthHighest (spaceSavingSizesAveragePercent los) (i + 1)
                      in do { assert_MM (f \<noteq> 0);
                              foldO (\<lambda>factor s. insertFrequentSize los (factor * f) s)
                                [1..<min MAX_FREE_ENTRY_COUNTERS (maxHeapSize los div f) + 1] s })
           [0..<n] s)"

definition verify_class :: "FreeEntrySizeClassStats \<Rightarrow> nat \<Rightarrow> uword \<Rightarrow> uword option" where
  "verify_class s i totalCount =
     (let frequentAllocCount = getFrequentAllocCount s i; cnt = getCount s i + frequentAllocCount
      in if cnt \<noteq> 0 then do { assert_MM (frequentAllocCount \<le> cnt); Some (totalCount + cnt) }
         else Some totalCount)"

definition verifyFreeEntryCount :: "LargeObjectAllocateStats \<Rightarrow> nat \<Rightarrow> unit option" where
  "verifyFreeEntryCount los actualFreeEntryCount =
     (let s = freeEntrySizeClassStats los
      in do { totalCount \<leftarrow> foldO (verify_class s) [0..<maxSizeClasses s] 0;
              assert_MM (totalCount = of_nat actualFreeEntryCount) })"

section \<open>Invariant and totals\<close>

text \<open>
  Well-formed statistics: arrays of the right length, exact sizes strictly ascending, and no
  very large node with a zero count.
\<close>

definition fes_wf :: "nat \<Rightarrow> FreeEntrySizeClassStats \<Rightarrow> bool" where
  "fes_wf vl s \<longleftrightarrow> length (fe_count s) = maxSizeClasses s \<and>
     length (frequentAllocationHead s) = maxSizeClasses s \<and>
     fe_veryLargeEntrySizeClass s = vl \<and> maxFrequentAllocateSizes s \<noteq> 0 \<and>
     (\<forall>l \<in> set (frequentAllocationHead s). sorted_wrt (<) (map fa_size l)) \<and>
     (\<forall>i < maxSizeClasses s. vl \<le> i \<longrightarrow> 0 \<notin> fa_count ` set (frequentAllocationHead s ! i))"

definition class_count :: "FreeEntrySizeClassStats \<Rightarrow> nat \<Rightarrow> uword" where
  "class_count s i = getCount s i + getFrequentAllocCount s i"

definition total_count :: "FreeEntrySizeClassStats \<Rightarrow> uword" where
  "total_count s = (\<Sum>i \<leftarrow> [0..<maxSizeClasses s]. class_count s i)"

text \<open>The nodes of the very large pool: those in use and those on the free list.\<close>

definition vl_nodes :: "FreeEntrySizeClassStats \<Rightarrow> nat" where
  "vl_nodes s = length (freeHeadVeryLargeEntry s) +
     (\<Sum>i \<leftarrow> [fe_veryLargeEntrySizeClass s..<maxSizeClasses s]. length (frequentAllocationHead s ! i))"

lemma sum_list_change:
  fixes g g' :: "nat \<Rightarrow> 'a :: ab_group_add"
  assumes "i \<in> set js" "distinct js" "\<And>j. j \<in> set js \<Longrightarrow> j \<noteq> i \<Longrightarrow> g' j = g j"
  shows "(\<Sum>j \<leftarrow> js. g' j) = (\<Sum>j \<leftarrow> js. g j) - g i + g' i"
proof -
  from assms(1) obtain xs ys where js: "js = xs @ i # ys" by (meson split_list)
  with assms(2,3) have m: "map g' xs = map g xs" "map g' ys = map g ys" by auto
  show ?thesis unfolding js
    by (simp only: map_append list.map sum_list.append sum_list.Cons m) (simp add: algebra_simps)
qed

lemma sum_list_change_nat:
  fixes g g' :: "nat \<Rightarrow> nat"
  assumes "i \<in> set js" "distinct js" "\<And>j. j \<in> set js \<Longrightarrow> j \<noteq> i \<Longrightarrow> g' j = g j"
  shows "(\<Sum>j \<leftarrow> js. g' j) + g i = (\<Sum>j \<leftarrow> js. g j) + g' i"
proof -
  from assms(1) obtain xs ys where js: "js = xs @ i # ys" by (meson split_list)
  with assms(2,3) have m: "map g' xs = map g xs" "map g' ys = map g ys" by auto
  show ?thesis unfolding js
    by (simp only: map_append list.map sum_list.append sum_list.Cons m)
qed

text \<open>Statistics that agree outside one class.\<close>

definition same_except :: "nat \<Rightarrow> FreeEntrySizeClassStats \<Rightarrow> FreeEntrySizeClassStats \<Rightarrow> bool" where
  "same_except i s s' \<longleftrightarrow> maxSizeClasses s' = maxSizeClasses s \<and>
     fe_veryLargeEntrySizeClass s' = fe_veryLargeEntrySizeClass s \<and>
     maxFrequentAllocateSizes s' = maxFrequentAllocateSizes s \<and>
     guarantyEnoughPoolSizeForVeryLargeEntry s' = guarantyEnoughPoolSizeForVeryLargeEntry s \<and>
     length (fe_count s') = length (fe_count s) \<and>
     length (frequentAllocationHead s') = length (frequentAllocationHead s) \<and>
     (\<forall>j. j \<noteq> i \<longrightarrow> fe_count s' ! j = fe_count s ! j \<and>
                   frequentAllocationHead s' ! j = frequentAllocationHead s ! j)"

lemma total_count_change:
  assumes "same_except i s s'" "i < maxSizeClasses s"
  shows "total_count s' = total_count s - class_count s i + class_count s' i"
  using assms unfolding total_count_def same_except_def
  by (simp only:) (rule sum_list_change, auto simp: class_count_def getCount_def getFrequentAllocCount_def)

lemma getFreeMemory_change:
  assumes "same_except i s s'" "i < maxSizeClasses s" "frequentAllocationHead s \<noteq> []"
  shows "getFreeMemory s' sizes = getFreeMemory s sizes - class_freeMemory s sizes i + class_freeMemory s' sizes i"
proof -
  have "frequentAllocationHead s' \<noteq> []" using assms by (auto simp: same_except_def)
  with assms show ?thesis unfolding getFreeMemory_def same_except_def
    by (simp only:) (rule sum_list_change, auto simp: class_freeMemory_def)
qed

lemma sorted_wrt_size_split:
  fixes n :: nat
  assumes "sorted_wrt (<) (map fa_size l)"
  defines "pre \<equiv> takeWhile (\<lambda>f. fa_size f < n) l" and "post \<equiv> dropWhile (\<lambda>f. fa_size f < n) l"
  shows "l = pre @ post" "\<forall>f \<in> set pre. fa_size f < n" "\<forall>f \<in> set post. n \<le> fa_size f"
    "sorted_wrt (<) (map fa_size pre)" "sorted_wrt (<) (map fa_size post)"
proof -
  show l: "l = pre @ post" by (simp add: pre_def post_def)
  show "\<forall>f \<in> set pre. fa_size f < n" by (auto simp: pre_def dest: set_takeWhileD)
  show so: "sorted_wrt (<) (map fa_size pre)" "sorted_wrt (<) (map fa_size post)"
    using assms(1) unfolding l by (auto simp: sorted_wrt_append)
  show "\<forall>f \<in> set post. n \<le> fa_size f"
  proof (cases post)
    case (Cons f fs)
    then have "\<not> fa_size f < n" by (metis hd_dropWhile list.discI list.sel(1) post_def)
    with so(2) Cons show ?thesis by force
  qed simp
qed

text \<open>What one count does to its class: the counter it lands in and the size it stands for.\<close>

lemma countFreeEntry_class:
  assumes wf: "fes_wf (veryLargeEntrySizeClass los) s"
    and r: "countFreeEntry los n s cnt = Some (s', ret)" and cnt: "cnt \<noteq> 0"
  shows "\<exists>i < maxSizeClasses s. same_except i s s' \<and> class_count s' i = class_count s i + cnt \<and>
    class_freeMemory s' (sizeClassSizes los) i =
      class_freeMemory s (sizeClassSizes los) i + cnt * of_nat ret \<and>
    sorted_wrt (<) (map fa_size (frequentAllocationHead s' ! i)) \<and>
    (veryLargeEntrySizeClass los \<le> i \<longrightarrow> 0 \<notin> fa_count ` set (frequentAllocationHead s' ! i))"
proof -
  from r obtain i where i: "getSizeClassIndex los n = Some i" "i < length (frequentAllocationHead s)"
    by (auto simp: countFreeEntry_def bind_eq_Some_conv)
  define l where "l = frequentAllocationHead s ! i"
  define pre where "pre = takeWhile (\<lambda>f. fa_size f < n) l"
  define post where "post = dropWhile (\<lambda>f. fa_size f < n) l"
  have u: "updateFreeEntrySizeClassStats los n s cnt i pre post = Some (s', ret)"
    using r i by (simp add: countFreeEntry_def l_def pre_def post_def)
  have len: "i < maxSizeClasses s" "i < length (fe_count s)" using wf i by (auto simp: fes_wf_def)
  have so: "sorted_wrt (<) (map fa_size l)" using wf i by (auto simp: fes_wf_def l_def)
  note sp = sorted_wrt_size_split [OF so, of n, folded pre_def post_def]
  have nz: "veryLargeEntrySizeClass los \<le> i \<Longrightarrow> 0 \<notin> fa_count ` set l"
    using wf len by (auto simp: fes_wf_def l_def)
  have l': "frequentAllocationHead s ! i = pre @ post" using sp(1) l_def by simp
  have ne: "frequentAllocationHead s \<noteq> []" using i by auto
  note unf = class_count_def getCount_def getFrequentAllocCount_def class_freeMemory_def node_bytes_def
  have "same_except i s s' \<and> class_count s' i = class_count s i + cnt \<and>
    class_freeMemory s' (sizeClassSizes los) i =
      class_freeMemory s (sizeClassSizes los) i + cnt * of_nat ret \<and>
    sorted_wrt (<) (map fa_size (frequentAllocationHead s' ! i)) \<and>
    (veryLargeEntrySizeClass los \<le> i \<longrightarrow> 0 \<notin> fa_count ` set (frequentAllocationHead s' ! i))"
  proof (cases post)
    case post: Nil
    show ?thesis
    proof (cases "pre = []")
      case True
      with u post sp so nz i len l' ne show ?thesis
        by (auto simp: updateFreeEntrySizeClassStats_def same_except_def Let_def unf algebra_simps cnt
            split: if_splits list.splits)
    next
      case False
      then obtain p0 p where pre: "pre = p0 @ [p]" by (metis append_butlast_last_id)
      with u post sp so nz i len l' ne show ?thesis
        by (auto simp: updateFreeEntrySizeClassStats_def same_except_def Let_def unf algebra_simps cnt
            sorted_wrt_append split: if_splits list.splits)
    qed
  next
    case post: (Cons c rest)
    have str: "\<forall>f \<in> set rest. n < fa_size f" using sp(3,5) post by force
    have zz: "a * w + b * w = 0" if "a + b = 0" for a b w :: uword
      using that by (simp flip: distrib_right)
    show ?thesis
    proof (cases "pre = []")
      case True
      with u post sp so str nz i len l' ne show ?thesis
        by (auto simp: updateFreeEntrySizeClassStats_def same_except_def Let_def unf algebra_simps cnt zz
            split: if_splits list.splits)
    next
      case False
      then obtain p0 p where pre: "pre = p0 @ [p]" by (metis append_butlast_last_id)
      with u post sp so str nz i len l' ne show ?thesis
        by (auto simp: updateFreeEntrySizeClassStats_def same_except_def Let_def unf algebra_simps cnt zz
            sorted_wrt_append split: if_splits list.splits)
    qed
  qed
  with len show ?thesis by blast
qed

lemma fes_wf_same_except:
  assumes wf: "fes_wf vl s" and se: "same_except i s s'" and i: "i < maxSizeClasses s"
    and so: "sorted_wrt (<) (map fa_size (frequentAllocationHead s' ! i))"
    and nz: "vl \<le> i \<longrightarrow> 0 \<notin> fa_count ` set (frequentAllocationHead s' ! i)"
  shows "fes_wf vl s'"
proof -
  have len: "length (frequentAllocationHead s') = maxSizeClasses s'"
    using wf se by (simp add: fes_wf_def same_except_def)
  have "sorted_wrt (<) (map fa_size (frequentAllocationHead s' ! j))" if "j < maxSizeClasses s'" for j
    using wf se so that by (cases "j = i") (auto simp: fes_wf_def same_except_def)
  then have "\<forall>l \<in> set (frequentAllocationHead s'). sorted_wrt (<) (map fa_size l)"
    using len by (metis in_set_conv_nth)
  moreover have "0 \<notin> fa_count ` set (frequentAllocationHead s' ! j)"
    if "j < maxSizeClasses s'" "vl \<le> j" for j
    using wf se nz that by (cases "j = i") (auto simp: fes_wf_def same_except_def)
  ultimately show ?thesis using wf se by (simp add: fes_wf_def same_except_def)
qed

lemma countFreeEntry_totals:
  assumes wf: "fes_wf (veryLargeEntrySizeClass los) s"
    and r: "countFreeEntry los n s cnt = Some (s', ret)" and cnt: "cnt \<noteq> 0"
  shows "fes_wf (veryLargeEntrySizeClass los) s'" "total_count s' = total_count s + cnt"
    "getFreeMemory s' (sizeClassSizes los) = getFreeMemory s (sizeClassSizes los) + cnt * of_nat ret"
proof -
  from countFreeEntry_class [OF assms] obtain i where i: "i < maxSizeClasses s" "same_except i s s'"
    "class_count s' i = class_count s i + cnt"
    "class_freeMemory s' (sizeClassSizes los) i = class_freeMemory s (sizeClassSizes los) i + cnt * of_nat ret"
    "sorted_wrt (<) (map fa_size (frequentAllocationHead s' ! i))"
    "veryLargeEntrySizeClass los \<le> i \<longrightarrow> 0 \<notin> fa_count ` set (frequentAllocationHead s' ! i)" by auto
  show "fes_wf (veryLargeEntrySizeClass los) s'"
    using fes_wf_same_except [OF wf i(2,1,5,6)] .
  show "total_count s' = total_count s + cnt"
    using total_count_change [OF i(2,1)] i(3) by (simp add: algebra_simps)
  have "frequentAllocationHead s \<noteq> []" using wf i(1) by (auto simp: fes_wf_def)
  from getFreeMemory_change [OF i(2,1) this, of "sizeClassSizes los"] i(4)
  show "getFreeMemory s' (sizeClassSizes los) = getFreeMemory s (sizeClassSizes los) + cnt * of_nat ret"
    by (simp add: algebra_simps)
qed

text \<open>
  When counting an entry cannot abort: a positive size in range, and either an ordinary class,
  or a node for its size (in the list or free), or statistics that may run out of nodes.
\<close>

definition countable :: "LargeObjectAllocateStats \<Rightarrow> nat \<Rightarrow> bool" where
  "countable los n \<longleftrightarrow> 0 < n \<and> logSizeClass los n < maxSizeClasses (freeEntrySizeClassStats los) \<and>
     (logSizeClass los n < veryLargeEntrySizeClass los \<or>
      \<not> guarantyEnoughPoolSizeForVeryLargeEntry (freeEntrySizeClassStats los) \<or>
      freeHeadVeryLargeEntry (freeEntrySizeClassStats los) \<noteq> [])"

definition los_wf :: "LargeObjectAllocateStats \<Rightarrow> bool" where
  "los_wf los \<longleftrightarrow> fes_wf (veryLargeEntrySizeClass los) (freeEntrySizeClassStats los)"

abbreviation (input) inc_stats :: "nat \<Rightarrow> LargeObjectAllocateStats \<Rightarrow> LargeObjectAllocateStats option" where
  "inc_stats n los \<equiv> map_option fst (incrementFreeEntrySizeClassStats n los)"

lemma countFreeEntry_defined:
  assumes "los_wf los" "countable los n"
  shows "\<exists>s' ret. countFreeEntry los n (freeEntrySizeClassStats los) cnt = Some (s', ret)"
proof -
  let ?s = "freeEntrySizeClassStats los" and ?i = "logSizeClass los n"
  have "getSizeClassIndex los n = Some ?i"
    using assms(2) by (simp add: getSizeClassIndex_def countable_def)
  moreover have "?i < length (frequentAllocationHead ?s)"
    using assms by (simp add: los_wf_def fes_wf_def countable_def)
  ultimately show ?thesis
    using assms(2)
    by (auto simp: countFreeEntry_def updateFreeEntrySizeClassStats_def countable_def Let_def
        neq_Nil_conv split: list.splits)
qed

lemmas count_unfold = incrementFreeEntrySizeClassStats_def decrementFreeEntrySizeClassStats_def bind_eq_Some_conv

lemma increment_defined:
  "los_wf los \<Longrightarrow> countable los n \<Longrightarrow> \<exists>los' ret. incrementFreeEntrySizeClassStats n los = Some (los', ret)"
  using countFreeEntry_defined [of los n 1] by (auto simp: count_unfold)

lemma decrement_defined:
  "los_wf los \<Longrightarrow> countable los n \<Longrightarrow> \<exists>los'. decrementFreeEntrySizeClassStats n los = Some los'"
  using countFreeEntry_defined [of los n "- 1"] by (auto simp: count_unfold)

lemma increment_totals:
  assumes "los_wf los" "incrementFreeEntrySizeClassStats n los = Some (los', ret)"
  shows "los_wf los'" "total_count (freeEntrySizeClassStats los') = total_count (freeEntrySizeClassStats los) + 1"
    "getFreeMemory (freeEntrySizeClassStats los') (sizeClassSizes los') =
       getFreeMemory (freeEntrySizeClassStats los) (sizeClassSizes los) + of_nat ret"
proof -
  from assms(2) obtain s where c: "countFreeEntry los n (freeEntrySizeClassStats los) 1 = Some (s, ret)"
    and l: "los' = los \<lparr> freeEntrySizeClassStats := s \<rparr>" by (auto simp: count_unfold)
  note t = countFreeEntry_totals [OF assms(1) [unfolded los_wf_def] c]
  show "los_wf los'" "total_count (freeEntrySizeClassStats los') = total_count (freeEntrySizeClassStats los) + 1"
    "getFreeMemory (freeEntrySizeClassStats los') (sizeClassSizes los') =
       getFreeMemory (freeEntrySizeClassStats los) (sizeClassSizes los) + of_nat ret"
    using t by (simp_all add: l los_wf_def)
qed

lemma decrement_totals:
  assumes "los_wf los" "decrementFreeEntrySizeClassStats n los = Some los'"
  shows "los_wf los'" "total_count (freeEntrySizeClassStats los') = total_count (freeEntrySizeClassStats los) - 1"
proof -
  from assms(2) obtain s ret where c: "countFreeEntry los n (freeEntrySizeClassStats los) (- 1) = Some (s, ret)"
    and l: "los' = los \<lparr> freeEntrySizeClassStats := s \<rparr>" by (auto simp: count_unfold)
  note t = countFreeEntry_totals [OF assms(1) [unfolded los_wf_def] c]
  show "los_wf los'" "total_count (freeEntrySizeClassStats los') = total_count (freeEntrySizeClassStats los) - 1"
    using t by (simp_all add: l los_wf_def)
qed

lemma inc_stats_wf: "los_wf los \<Longrightarrow> inc_stats n los = Some los' \<Longrightarrow> los_wf los'"
  by (clarsimp simp: increment_totals(1))

lemma inc_stats_total:
  "los_wf los \<Longrightarrow> inc_stats n los = Some los' \<Longrightarrow>
    total_count (freeEntrySizeClassStats los') = total_count (freeEntrySizeClassStats los) + 1"
  by (clarsimp simp: increment_totals(2))

section \<open>The counting contract\<close>

text \<open>
  What a memory pool relies on: a count that follows the entries put on and taken off the free
  list, one at a time, wherever the statistics file them.
\<close>

locale entry_counter =
  fixes wf :: "'s \<Rightarrow> bool" and total :: "'s \<Rightarrow> uword"
    and inc :: "nat \<Rightarrow> 's \<Rightarrow> 's option" and dec :: "nat \<Rightarrow> 's \<Rightarrow> 's option"
  assumes inc_wf: "wf s \<Longrightarrow> inc n s = Some s' \<Longrightarrow> wf s'"
    and dec_wf: "wf s \<Longrightarrow> dec n s = Some s' \<Longrightarrow> wf s'"
    and inc_total: "wf s \<Longrightarrow> inc n s = Some s' \<Longrightarrow> total s' = total s + 1"
    and dec_total: "wf s \<Longrightarrow> dec n s = Some s' \<Longrightarrow> total s' = total s - 1"
begin

lemma inc_dec:
  "wf s \<Longrightarrow> dec n s = Some s1 \<Longrightarrow> inc m s1 = Some s2 \<Longrightarrow> wf s2 \<and> total s2 = total s"
  using inc_wf [OF dec_wf] inc_total [OF dec_wf] dec_total by simp

lemma inc_list:
  "wf s \<Longrightarrow> foldO inc ns s = Some s' \<Longrightarrow> wf s' \<and> total s' = total s + of_nat (length ns)"
proof (induction ns arbitrary: s)
  case (Cons n ns)
  from Cons.prems obtain s1 where 1: "inc n s = Some s1" "foldO inc ns s1 = Some s'"
    by (auto simp: bind_eq_Some_conv)
  from Cons.IH [OF inc_wf [OF Cons.prems(1) 1(1)] 1(2)] inc_total [OF Cons.prems(1) 1(1)]
  show ?case by (simp add: add.assoc)
qed simp

lemma dec_list:
  "wf s \<Longrightarrow> foldO dec ns s = Some s' \<Longrightarrow> wf s' \<and> total s' = total s - of_nat (length ns)"
proof (induction ns arbitrary: s)
  case (Cons n ns)
  from Cons.prems obtain s1 where 1: "dec n s = Some s1" "foldO dec ns s1 = Some s'"
    by (auto simp: bind_eq_Some_conv)
  from Cons.IH [OF dec_wf [OF Cons.prems(1) 1(1)] 1(2)] dec_total [OF Cons.prems(1) 1(1)]
  show ?case by (simp add: algebra_simps)
qed simp

end

interpretation los: entry_counter los_wf "\<lambda>los. total_count (freeEntrySizeClassStats los)"
  "\<lambda>n los. inc_stats n los" decrementFreeEntrySizeClassStats
  by unfold_locales (rule inc_stats_wf decrement_totals inc_stats_total; assumption)+

text \<open>
  Statistics that count every entry of the heap: each size has a class, and either there is no
  guarantee on the number of very large nodes or no size is very large.
\<close>

definition stats_ready :: "LargeObjectAllocateStats \<Rightarrow> bool" where
  "stats_ready los \<longleftrightarrow> los_wf los \<and>
     (\<forall>n. 0 < n \<and> n < UMAX \<longrightarrow> logSizeClass los n < maxSizeClasses (freeEntrySizeClassStats los)) \<and>
     (guarantyEnoughPoolSizeForVeryLargeEntry (freeEntrySizeClassStats los) \<longrightarrow>
        (\<forall>n. 0 < n \<and> n < UMAX \<longrightarrow> logSizeClass los n < veryLargeEntrySizeClass los))"

lemma stats_ready_countable: "stats_ready los \<Longrightarrow> 0 < n \<Longrightarrow> n < UMAX \<Longrightarrow> countable los n"
  by (auto simp: stats_ready_def countable_def)

lemma countFreeEntry_ready:
  assumes "stats_ready los" "countFreeEntry los n (freeEntrySizeClassStats los) cnt = Some (s', ret)" "cnt \<noteq> 0"
  shows "stats_ready (los \<lparr> freeEntrySizeClassStats := s' \<rparr>)"
proof -
  have wf: "fes_wf (veryLargeEntrySizeClass los) (freeEntrySizeClassStats los)"
    using assms(1) by (simp add: stats_ready_def los_wf_def)
  from countFreeEntry_class [OF wf assms(2,3)] obtain i where "same_except i (freeEntrySizeClassStats los) s'" by auto
  moreover from countFreeEntry_totals [OF wf assms(2,3)] have "fes_wf (veryLargeEntrySizeClass los) s'" by simp
  ultimately show ?thesis using assms(1) by (simp add: stats_ready_def los_wf_def same_except_def)
qed

lemma increment_ready:
  assumes "stats_ready los" "0 < n" "n < UMAX"
  shows "\<exists>los' ret. incrementFreeEntrySizeClassStats n los = Some (los', ret) \<and> stats_ready los' \<and>
    total_count (freeEntrySizeClassStats los') = total_count (freeEntrySizeClassStats los) + 1"
proof -
  have wf: "los_wf los" using assms(1) by (simp add: stats_ready_def)
  from countFreeEntry_defined [OF wf stats_ready_countable [OF assms], of 1] obtain s ret where
    c: "countFreeEntry los n (freeEntrySizeClassStats los) 1 = Some (s, ret)" by auto
  then have i: "incrementFreeEntrySizeClassStats n los = Some (los \<lparr> freeEntrySizeClassStats := s \<rparr>, ret)"
    by (simp add: incrementFreeEntrySizeClassStats_def)
  from increment_totals [OF wf i] countFreeEntry_ready [OF assms(1) c] i show ?thesis by auto
qed

lemma decrement_ready:
  assumes "stats_ready los" "0 < n" "n < UMAX"
  shows "\<exists>los'. decrementFreeEntrySizeClassStats n los = Some los' \<and> stats_ready los' \<and>
    total_count (freeEntrySizeClassStats los') = total_count (freeEntrySizeClassStats los) - 1"
proof -
  have wf: "los_wf los" using assms(1) by (simp add: stats_ready_def)
  from countFreeEntry_defined [OF wf stats_ready_countable [OF assms], of "- 1"] obtain s ret where
    c: "countFreeEntry los n (freeEntrySizeClassStats los) (- 1) = Some (s, ret)" by auto
  then have i: "decrementFreeEntrySizeClassStats n los = Some (los \<lparr> freeEntrySizeClassStats := s \<rparr>)"
    by (simp add: decrementFreeEntrySizeClassStats_def)
  from decrement_totals [OF wf i] countFreeEntry_ready [OF assms(1) c] i show ?thesis by auto
qed

lemma los_allocateObject_keeps:
  "freeEntrySizeClassStats (los_allocateObject n los) = freeEntrySizeClassStats los"
  "stats_ready (los_allocateObject n los) = stats_ready los"
  by (auto simp: los_allocateObject_def stats_ready_def los_wf_def Let_def)

section \<open>Verification of the count\<close>

lemma verify_fold:
  assumes "\<And>i. i \<in> set is' \<Longrightarrow> getFrequentAllocCount s i \<le> class_count s i \<or> class_count s i = 0"
  shows "foldO (verify_class s) is' t = Some (t + (\<Sum>i \<leftarrow> is'. class_count s i))"
  using assms
proof (induction is' arbitrary: t)
  case (Cons i is')
  have "verify_class s i t = Some (t + class_count s i)"
    using Cons.prems [of i] by (auto simp: verify_class_def class_count_def Let_def add.commute)
  with Cons show ?case by (simp add: add.assoc)
qed simp

lemma verifyFreeEntryCount_ok:
  assumes "\<And>i. i < maxSizeClasses (freeEntrySizeClassStats los) \<Longrightarrow>
      getFrequentAllocCount (freeEntrySizeClassStats los) i \<le> class_count (freeEntrySizeClassStats los) i \<or>
      class_count (freeEntrySizeClassStats los) i = 0"
  shows "verifyFreeEntryCount los n = Some () \<longleftrightarrow> total_count (freeEntrySizeClassStats los) = of_nat n"
  using verify_fold [of "[0..<maxSizeClasses (freeEntrySizeClassStats los)]" "freeEntrySizeClassStats los" 0] assms
  by (simp add: verifyFreeEntryCount_def total_count_def Let_def)


section \<open>Resetting and folding counts\<close>

lemma sum_list_zero_counts [simp]: "sum_list (map (fa_count \<circ> clear_node) l) = 0"
  by (induction l) (auto simp: clear_node_def)

lemma clear_node_size [simp]: "fa_size (clear_node f) = fa_size f" "fa_count (clear_node f) = 0"
  by (simp_all add: clear_node_def)

lemma resetCounts_class_step:
  assumes wf: "fes_wf vl s" and i: "i < maxSizeClasses s"
  shows "same_except i s (resetCounts_class i s) \<and> fes_wf vl (resetCounts_class i s) \<and>
    class_count (resetCounts_class i s) i = 0"
proof -
  have se: "same_except i s (resetCounts_class i s)"
    using wf by (auto simp: resetCounts_class_def same_except_def Let_def)
  have len: "i < length (frequentAllocationHead s)" "i < length (fe_count s)"
    using wf i by (auto simp: fes_wf_def)
  have l: "frequentAllocationHead (resetCounts_class i s) ! i =
      (if vl \<le> i then [] else map clear_node (frequentAllocationHead s ! i))"
    using wf len by (auto simp: resetCounts_class_def Let_def fes_wf_def)
  have "sorted_wrt (<) (map fa_size (frequentAllocationHead s ! i))"
    using wf len by (auto simp: fes_wf_def)
  then have "sorted_wrt (<) (map fa_size (frequentAllocationHead (resetCounts_class i s) ! i))"
    unfolding l by (simp add: comp_def)
  moreover have "fe_count (resetCounts_class i s) ! i = 0"
    using len by (simp add: resetCounts_class_def Let_def)
  ultimately show ?thesis
    using se fes_wf_same_except [OF wf se i] l
    by (auto simp: class_count_def getCount_def getFrequentAllocCount_def)
qed

lemma resetCounts_fold:
  assumes "fes_wf vl s" "set js \<subseteq> {..<maxSizeClasses s}"
  shows "fes_wf vl (fold resetCounts_class js s) \<and>
    maxSizeClasses (fold resetCounts_class js s) = maxSizeClasses s \<and>
    (\<forall>j. j \<in> set js \<or> class_count s j = 0 \<longrightarrow> class_count (fold resetCounts_class js s) j = 0)"
  using assms
proof (induction js arbitrary: s)
  case (Cons i js)
  from resetCounts_class_step [OF Cons.prems(1), of i] Cons.prems(2)
  have st: "same_except i s (resetCounts_class i s)" "fes_wf vl (resetCounts_class i s)"
    "class_count (resetCounts_class i s) i = 0" by auto
  have "class_count (resetCounts_class i s) j = 0" if "class_count s j = 0" for j
    using st that by (cases "j = i")
      (auto simp: same_except_def class_count_def getCount_def getFrequentAllocCount_def)
  with Cons.IH [OF st(2)] Cons.prems(2) st show ?case by (auto simp: same_except_def)
qed simp

lemma resetCounts_total:
  assumes "fes_wf vl s"
  shows "fes_wf vl (resetCounts s) \<and> maxSizeClasses (resetCounts s) = maxSizeClasses s \<and>
    total_count (resetCounts s) = 0"
proof -
  have "set [0..<maxSizeClasses s] \<subseteq> {..<maxSizeClasses s}" by auto
  from resetCounts_fold [OF assms this]
  have r: "fes_wf vl (resetCounts s)" "maxSizeClasses (resetCounts s) = maxSizeClasses s"
    "\<And>j. j < maxSizeClasses s \<Longrightarrow> class_count (resetCounts s) j = 0"
    by (auto simp: resetCounts_def)
  have "(\<Sum>i \<leftarrow> [0..<maxSizeClasses s]. class_count (resetCounts s) i) = (\<Sum>i \<leftarrow> [0..<maxSizeClasses s]. 0)"
    by (rule arg_cong [where f = sum_list], rule map_cong) (simp_all add: r(3))
  then show ?thesis using r by (simp add: total_count_def)
qed

text \<open>The fold of negative counts moves them to the class counter and drops the empty nodes.\<close>

lemma sint_cases: "(sint w < 0) \<or> w = 0 \<or> 0 < sint w" for w :: uword
  by (metis linorder_less_linear signed_eq_0_iff)

lemma mergeVL_list_eq:
  "mergeVL_list fs c free =
     (c + sum_list (map fa_count (filter (\<lambda>f. sint (fa_count f) < 0) fs)),
      filter (\<lambda>f. 0 < sint (fa_count f)) fs,
      rev (map clear_node (filter (\<lambda>f. \<not> 0 < sint (fa_count f)) fs)) @ free)"
proof (induction fs c free rule: mergeVL_list.induct)
  case (2 f fs c free)
  consider "sint (fa_count f) < 0" | "fa_count f = 0" | "0 < sint (fa_count f)"
    using sint_cases by blast
  then show ?case
  proof cases
    case 2
    then have "clear_node f = f" by (simp add: clear_node_def)
    with 2 "2.IH" show ?thesis by (simp add: add.assoc)
  qed (use "2.IH" in \<open>auto simp: add.assoc\<close>)
qed simp

lemma sum_list_sint_split:
  "sum_list (map fa_count (filter (\<lambda>f. sint (fa_count f) < 0) fs)) +
   sum_list (map fa_count (filter (\<lambda>f. 0 < sint (fa_count f)) fs)) = sum_list (map fa_count fs)"
proof (induction fs)
  case (Cons f fs)
  consider "sint (fa_count f) < 0" | "fa_count f = 0" | "0 < sint (fa_count f)"
    using sint_cases by blast
  then show ?case using Cons by cases (auto simp: algebra_simps)
qed simp

lemma mergeVL_class_step:
  assumes wf: "fes_wf vl s" and i: "i < maxSizeClasses s" and r: "mergeVL_class i s = Some s'"
  shows "fes_wf vl s' \<and> maxSizeClasses s' = maxSizeClasses s \<and> total_count s' = total_count s \<and>
    0 \<le> sint (getCount s' i)"
proof -
  let ?l = "frequentAllocationHead s ! i"
  have s': "s' = s \<lparr> fe_count := (fe_count s)
        [i := fe_count s ! i + sum_list (map fa_count (filter (\<lambda>f. sint (fa_count f) < 0) ?l))],
      frequentAllocationHead := (frequentAllocationHead s)[i := filter (\<lambda>f. 0 < sint (fa_count f)) ?l],
      freeHeadVeryLargeEntry := rev (map clear_node (filter (\<lambda>f. \<not> 0 < sint (fa_count f)) ?l))
        @ freeHeadVeryLargeEntry s \<rparr>"
    and c: "0 \<le> sint (fe_count s ! i + sum_list (map fa_count (filter (\<lambda>f. sint (fa_count f) < 0) ?l)))"
    using r by (auto simp: mergeVL_class_def mergeVL_list_eq bind_eq_Some_conv)
  have len: "i < length (frequentAllocationHead s)" "i < length (fe_count s)"
    using wf i by (auto simp: fes_wf_def)
  have se: "same_except i s s'" unfolding s' by (auto simp: same_except_def)
  have "sorted_wrt (<) (map fa_size ?l)" using wf len by (auto simp: fes_wf_def)
  then have so: "sorted_wrt (<) (map fa_size (frequentAllocationHead s' ! i))"
    using len by (simp add: s' sorted_wrt_map sorted_wrt_filter)
  have nz: "vl \<le> i \<longrightarrow> 0 \<notin> fa_count ` set (frequentAllocationHead s' ! i)"
    using len by (auto simp: s')
  have "class_count s' i = class_count s i"
    using len sum_list_sint_split [of ?l]
    by (simp add: s' class_count_def getCount_def getFrequentAllocCount_def add.assoc)
  then have "total_count s' = total_count s" using total_count_change [OF se i] by simp
  moreover have "0 \<le> sint (getCount s' i)" using c len by (simp add: s' getCount_def)
  ultimately show ?thesis using fes_wf_same_except [OF wf se i so nz] se by (simp add: same_except_def)
qed

lemma foldO_preserves:
  assumes "\<And>i s s'. i \<in> set js \<Longrightarrow> P s \<Longrightarrow> f i s = Some s' \<Longrightarrow> P s'"
    and "P s" "foldO f js s = Some s'"
  shows "P s'"
  using assms
proof (induction js arbitrary: s)
  case (Cons i js)
  from Cons.prems(3) obtain s1 where "f i s = Some s1" "foldO f js s1 = Some s'"
    by (auto simp: bind_eq_Some_conv)
  with Cons.prems Cons.IH [of s1] show ?case by (metis list.set_intros)
qed simp

lemma mergeCountForVeryLargeEntries_total:
  assumes wf: "fes_wf vl s" and r: "mergeCountForVeryLargeEntries s = Some s'"
  shows "fes_wf vl s' \<and> total_count s' = total_count s"
proof (cases "frequentAllocationHead s = []")
  case False
  let ?P = "\<lambda>t. fes_wf vl t \<and> maxSizeClasses t = maxSizeClasses s \<and> total_count t = total_count s"
  from r False have f: "foldO mergeVL_class [fe_veryLargeEntrySizeClass s..<maxSizeClasses s] s = Some s'"
    by (simp add: mergeCountForVeryLargeEntries_def)
  have "?P s'"
  proof (rule foldO_preserves [where P = ?P, OF _ _ f])
    fix i t t'
    assume "i \<in> set [fe_veryLargeEntrySizeClass s..<maxSizeClasses s]" "?P t" "mergeVL_class i t = Some t'"
    then show "?P t'" using mergeVL_class_step [of vl t i t'] by simp
  qed (use wf in simp)
  then show ?thesis by simp
next
  case True
  with r wf show ?thesis by (simp add: mergeCountForVeryLargeEntries_def)
qed

end
