(* ===== verification/GC_Math.thy ===== *)
theory GC_Math
  imports GC_Prelude
begin

text \<open>
  The arithmetic helpers \<open>MM_Math\<close> (gc/base/Math.hpp, Math.cpp) and \<open>MM_Bits\<close>
  (gc/base/Bits.hpp), in the 64-bit build and in the portable variant of the bit scans
  (the branch of Bits.hpp without inline assembler).
\<close>

section \<open>Rounding\<close>

definition saturatingSubtract :: "nat \<Rightarrow> nat \<Rightarrow> nat" where
  "saturatingSubtract minuend subtrahend =
     (if subtrahend < minuend then usub minuend subtrahend else 0)"

definition roundToCeiling :: "nat \<Rightarrow> nat \<Rightarrow> nat" where
  "roundToCeiling granularity number =
     uadd number
       (if number mod granularity \<noteq> 0 then usub granularity (number mod granularity) else 0)"

definition roundToFloor :: "nat \<Rightarrow> nat \<Rightarrow> nat" where
  "roundToFloor granularity number = usub number (number mod granularity)"

definition roundToSizeofUDATA :: "uword \<Rightarrow> uword" where
  "roundToSizeofUDATA number = (number + (8 - 1)) AND (NOT (8 - 1))"

definition roundToSizeofU32 :: "uword \<Rightarrow> uword" where
  "roundToSizeofU32 number = (number + (4 - 1)) AND (NOT (4 - 1))"

text \<open>\<open>MM_Math::abs\<close> on an \<open>intptr_t\<close>, the signed reading of a word.\<close>

definition math_abs :: "uword \<Rightarrow> uword" where
  "math_abs number = (if sint number < 0 then - number else number)"

section \<open>Binary logarithm\<close>

text \<open>
  One step of the unrolled binary searches in \<open>floorLog2\<close> and \<open>trailingZeroes\<close>: when
  bits at or above position \<open>k\<close> remain, shift them down and record the shift.
\<close>

definition log2_step :: "nat \<Rightarrow> nat \<times> nat \<Rightarrow> nat \<times> nat" where
  "log2_step k np = (case np of (n, pos) \<Rightarrow> if 2 ^ k \<le> n then (n div 2 ^ k, pos + k) else (n, pos))"

definition floorLog2 :: "nat \<Rightarrow> nat" where
  "floorLog2 number =
     (let (n, pos) = log2_step 2 (log2_step 4 (log2_step 8 (log2_step 16 (log2_step 32 (number, 0)))))
      in if 2 \<le> n then pos + 1 else pos)"

section \<open>Bit scans\<close>

definition convertBytesToSlots :: "nat \<Rightarrow> nat" where
  "convertBytesToSlots x = x div 2 ^ 3"

definition convertSlotsToBytes :: "nat \<Rightarrow> nat" where
  "convertSlotsToBytes x = umul x (2 ^ 3)"

text \<open>\<open>convertBytesToU32Slots\<close> shifts by \<open>conversionBitShift\<close>, as \<open>convertBytesToSlots\<close> does.\<close>

definition convertBytesToU32Slots :: "nat \<Rightarrow> nat" where
  "convertBytesToU32Slots x = x div 2 ^ 3"

definition isLowTagged :: "uword \<Rightarrow> bool" where
  "isLowTagged ob = (ob AND 1 = 1)"

definition untag :: "uword \<Rightarrow> uword" where
  "untag ob = ob AND NOT 3"

definition populationCount :: "uword \<Rightarrow> uword" where
  "populationCount input =
     (if input = 0 then 0 else
      (let work = input - (drop_bit 1 input AND 0x5555555555555555);
           temp = drop_bit 2 work AND 0x3333333333333333;
           work = (work AND 0x3333333333333333) + temp;
           work = (work + drop_bit 4 work) AND 0x0F0F0F0F0F0F0F0F;
           work = work + push_bit 8 work;
           work = work + push_bit 16 work;
           work = work + push_bit 32 work
       in drop_bit 56 work))"

definition leadingZeroes :: "uword \<Rightarrow> uword" where
  "leadingZeroes input = populationCount (NOT (input OR (0 - input)))"

definition trailingZeroes :: "uword \<Rightarrow> nat" where
  "trailingZeroes input =
     (let (work, result) =
            log2_step 2 (log2_step 4 (log2_step 8 (log2_step 16 (log2_step 32 (unat input, 0)))));
          result = result + work div 2
      in 64 - 1 - result)"

section \<open>Rounding and logarithm: correctness\<close>

lemma roundToFloor_eq [simp]: "n < UMAX \<Longrightarrow> roundToFloor g n = n - n mod g"
  by (simp add: roundToFloor_def usub_exact)

lemma roundToFloor_dvd: "n < UMAX \<Longrightarrow> g dvd roundToFloor g n"
  by (simp add: minus_mod_eq_mult_div)

lemma roundToFloor_bounds:
  assumes "0 < g" "n < UMAX"
  shows "roundToFloor g n \<le> n \<and> n < roundToFloor g n + g"
proof -
  have "n mod g \<le> n" "n mod g < g" using assms by simp_all
  then show ?thesis using assms(2) by simp
qed

lemma roundToCeiling_eq:
  assumes "0 < g" "g \<le> UMAX - 1" "n + g \<le> UMAX"
  shows "roundToCeiling g n = (n + g - 1) div g * g"
proof -
  define r where "r = n mod g"
  define q where "q = n div g"
  have n: "n = q * g + r" and r: "r < g"
    using assms(1) by (simp_all add: r_def q_def)
  show ?thesis
  proof (cases "r = 0")
    case True
    have "(n + g - 1) div g = q"
      using True n assms(1) by (intro div_nat_eqI) (auto simp: algebra_simps)
    with True n assms show ?thesis
      by (simp add: roundToCeiling_def uadd_exact flip: r_def)
  next
    case False
    have "(n + g - 1) div g = q + 1"
      using False n r by (intro div_nat_eqI) (auto simp: algebra_simps)
    with False n r assms show ?thesis
      by (simp add: roundToCeiling_def uadd_exact usub_exact algebra_simps flip: r_def)
  qed
qed

lemma log2_step_inv:
  assumes "log2_step k (n, pos) = (n', pos')" "n = x div 2 ^ pos" "0 < n" "n < 2 ^ (2 * k)"
  shows "n' = x div 2 ^ pos' \<and> 0 < n' \<and> n' < 2 ^ k"
proof (cases "2 ^ k \<le> n")
  case True
  with assms(1) have eq: "n' = n div 2 ^ k" "pos' = pos + k"
    by (simp_all add: log2_step_def)
  have "n div 2 ^ k < 2 ^ k"
    using assms(4) by (simp add: mult_2 power_add less_mult_imp_div_less)
  moreover have "0 < n div 2 ^ k"
    using True by (simp add: div_greater_zero_iff)
  ultimately show ?thesis
    using eq assms(2) by (simp add: power_add div_mult2_eq)
next
  case False
  with assms show ?thesis by (auto simp: log2_step_def)
qed

text \<open>The five steps leave a value of one or two bits: the position is the logarithm.\<close>

lemma log2_steps:
  assumes "0 < x" "x < UMAX"
    and "log2_step 2 (log2_step 4 (log2_step 8 (log2_step 16 (log2_step 32 (x, 0))))) = (n, pos)"
  shows "n = x div 2 ^ pos \<and> 0 < n \<and> n < 4"
proof -
  obtain n1 p1 where s1: "log2_step 32 (x, 0) = (n1, p1)" by fastforce
  obtain n2 p2 where s2: "log2_step 16 (n1, p1) = (n2, p2)" by fastforce
  obtain n3 p3 where s3: "log2_step 8 (n2, p2) = (n3, p3)" by fastforce
  obtain n4 p4 where s4: "log2_step 4 (n3, p3) = (n4, p4)" by fastforce
  have s5: "log2_step 2 (n4, p4) = (n, pos)"
    using assms(3) by (simp add: s1 s2 s3 s4)
  have i1: "n1 = x div 2 ^ p1 \<and> 0 < n1 \<and> n1 < 2 ^ 32"
    using log2_step_inv [OF s1, of x] assms(1,2) by (simp add: UMAX_def)
  have i2: "n2 = x div 2 ^ p2 \<and> 0 < n2 \<and> n2 < 2 ^ 16"
    using log2_step_inv [OF s2, of x] i1 by simp
  have i3: "n3 = x div 2 ^ p3 \<and> 0 < n3 \<and> n3 < 2 ^ 8"
    using log2_step_inv [OF s3, of x] i2 by simp
  have i4: "n4 = x div 2 ^ p4 \<and> 0 < n4 \<and> n4 < 2 ^ 4"
    using log2_step_inv [OF s4, of x] i3 by simp
  show ?thesis
    using log2_step_inv [OF s5, of x] i4 by simp
qed

lemma div_power_bounds:
  fixes x :: nat
  assumes "n = x div 2 ^ pos"
  shows "n * 2 ^ pos \<le> x \<and> x < (n + 1) * 2 ^ pos"
proof -
  have "x mod 2 ^ pos < 2 ^ pos" by simp
  then have "x < 2 ^ pos * (x div 2 ^ pos) + 2 ^ pos"
    using mult_div_mod_eq [of "2 ^ pos" x] by linarith
  then show ?thesis unfolding assms by (simp add: algebra_simps)
qed

lemma floorLog2_bounds:
  assumes "0 < x" "x < UMAX"
  shows "2 ^ floorLog2 x \<le> x \<and> x < 2 ^ (floorLog2 x + 1)"
proof -
  obtain n pos where
    st: "log2_step 2 (log2_step 4 (log2_step 8 (log2_step 16 (log2_step 32 (x, 0))))) = (n, pos)"
    by fastforce
  from log2_steps [OF assms st] have i: "n = x div 2 ^ pos" "0 < n" "n < 4" by auto
  note b = div_power_bounds [OF i(1)]
  consider "n = 1" | "n = 2" | "n = 3" using i(2,3) by linarith
  then show ?thesis
    by cases (use b in \<open>auto simp: floorLog2_def st\<close>)
qed

lemma trailingZeroes_floorLog2:
  assumes "w \<noteq> 0"
  shows "trailingZeroes w = 63 - floorLog2 (unat w)"
proof -
  obtain n pos where
    st: "log2_step 2 (log2_step 4 (log2_step 8 (log2_step 16 (log2_step 32 (unat w, 0))))) = (n, pos)"
    by fastforce
  have "0 < unat w" "unat w < UMAX"
    using assms unsigned_less [of w] by (simp_all add: unat_gt_0 UMAX_def)
  from log2_steps [OF this st] have "0 < n" "n < 4" by auto
  then consider "n = 1" | "n = 2" | "n = 3" by linarith
  then show ?thesis
    by cases (auto simp: trailingZeroes_def floorLog2_def st)
qed

section \<open>Population count\<close>

text \<open>
  The reference is \<open>digit_sum\<close>, the sum of the first \<open>n\<close> base \<open>2 ^ w\<close> digits: with \<open>w = 1\<close> it
  counts bits.  Each masking step of \<open>populationCount\<close> adds neighbouring digits of width \<open>w\<close>
  into one digit of width \<open>2 * w\<close> (\<open>digit_fold\<close>) and so keeps the digit sum.
\<close>

definition digit_sum :: "nat \<Rightarrow> nat \<Rightarrow> nat \<Rightarrow> nat" where
  "digit_sum w n x = (\<Sum>i<n. x div 2 ^ (w * i) mod 2 ^ w)"

fun digit_fold :: "nat \<Rightarrow> nat \<Rightarrow> nat \<Rightarrow> nat" where
  "digit_fold w 0 x = 0"
| "digit_fold w (Suc n) x =
     (x mod 2 ^ w + x div 2 ^ w mod 2 ^ w) + 2 ^ (2 * w) * digit_fold w n (x div 2 ^ (2 * w))"

fun half_mask :: "nat \<Rightarrow> nat \<Rightarrow> nat" where
  "half_mask w 0 = 0"
| "half_mask w (Suc n) = (2 ^ w - 1) + 2 ^ (2 * w) * half_mask w n"

lemma digit_sum_Suc: "digit_sum w (Suc n) x = x mod 2 ^ w + digit_sum w n (x div 2 ^ w)"
  unfolding digit_sum_def sum.lessThan_Suc_shift
  by (simp add: power_add div_mult2_eq)

lemma bit_split:
  fixes a x :: nat
  assumes "a < 2 ^ k"
  shows "bit (a + 2 ^ k * x) i = (if i < k then bit a i else bit x (i - k))"
proof (cases "i < k")
  case True
  then obtain j where k: "k = i + Suc j" using less_iff_Suc_add by auto
  have "2 ^ k * x = 2 ^ i * (2 * (2 ^ j * x))" by (simp add: k power_add)
  then have "(a + 2 ^ k * x) div 2 ^ i = 2 * (2 ^ j * x) + a div 2 ^ i"
    by (simp only: div_mult_self2 power_not_zero zero_neq_numeral not_False_eq_True)
  with True show ?thesis by (simp add: bit_iff_odd)
next
  case False
  then obtain j where i: "i = k + j" using le_Suc_ex not_less by blast
  have "(a + 2 ^ k * x) div 2 ^ k = x" using assms by simp
  then show ?thesis by (simp add: bit_iff_odd i power_add div_mult2_eq)
qed

lemma nat_and_le: "a AND b \<le> a" for a b :: nat
proof -
  have "int (a AND b) \<le> int a" by (simp add: of_nat_and_eq)
  then show ?thesis by simp
qed

lemma and_split:
  fixes a m x y :: nat
  assumes "a < 2 ^ k" "m < 2 ^ k"
  shows "(a + 2 ^ k * x) AND (m + 2 ^ k * y) = (a AND m) + 2 ^ k * (x AND y)"
proof (rule bit_eqI)
  fix i
  have "a AND m < 2 ^ k" using nat_and_le assms(1) le_less_trans by blast
  then show "bit ((a + 2 ^ k * x) AND (m + 2 ^ k * y)) i = bit ((a AND m) + 2 ^ k * (x AND y)) i"
    using assms by (simp add: bit_split bit_and_iff)
qed

lemma and_half_mask_Suc:
  "x AND half_mask w (Suc n) = x mod 2 ^ w + 2 ^ (2 * w) * ((x div 2 ^ (2 * w)) AND half_mask w n)"
proof -
  define a where "a = x mod 2 ^ (2 * w)"
  have x: "x = a + 2 ^ (2 * w) * (x div 2 ^ (2 * w))" by (simp add: a_def)
  have a: "a < 2 ^ (2 * w)" by (simp add: a_def)
  have m: "2 ^ w - 1 < (2::nat) ^ (2 * w)"
    by (rule less_le_trans [of _ "2 ^ w"]) simp_all
  have "a AND (2 ^ w - 1) = a mod 2 ^ w"
    by (simp add: take_bit_eq_mask mask_eq_exp_minus_1 flip: take_bit_eq_mod)
  also have "\<dots> = x mod 2 ^ w"
    by (simp add: a_def mod_mod_cancel le_imp_power_dvd)
  finally show ?thesis
    using and_split [OF a m, of "x div 2 ^ (2 * w)" "half_mask w n"] x by simp
qed

lemma digit_fold_masks:
  "(x AND half_mask w n) + ((x div 2 ^ w) AND half_mask w n) = digit_fold w n x"
proof (induction n arbitrary: x)
  case (Suc n)
  have "x div 2 ^ w div 2 ^ (2 * w) = x div 2 ^ (2 * w) div 2 ^ w"
    by (simp add: mult.commute flip: div_mult2_eq)
  then show ?case
    by (simp only: and_half_mask_Suc digit_fold.simps flip: Suc.IH)
      (simp add: algebra_simps)
qed simp

text \<open>Below \<open>4 ^ n\<close> the first step's subtraction is the same addition of neighbours.\<close>

lemma half_mask_1: "x < 4 ^ n \<Longrightarrow> (x AND half_mask 1 n) + 2 * ((x div 2) AND half_mask 1 n) = x"
proof (induction n arbitrary: x)
  case (Suc n)
  from Suc.prems have "x div 4 < 4 ^ n" by (simp add: less_mult_imp_div_less mult.commute)
  note IH = Suc.IH [OF this]
  have e: "y AND half_mask 1 (Suc n) = y mod 2 + 4 * ((y div 4) AND half_mask 1 n)" for y
    using and_half_mask_Suc [of y 1 n] by simp
  have c: "x div 2 div 4 = x div 4 div 2" by (simp flip: div_mult2_eq)
  have x: "x = x mod 2 + 2 * (x div 2 mod 2) + 4 * (x div 4)"
    by presburger
  have "m + 4 * p + 2 * (k + 4 * q) = x" if "x = m + 2 * k + 4 * d" "p + 2 * q = d" for m k p q d
    using that by auto
  from this [OF x IH] show ?case unfolding e c .
qed simp

text \<open>A pair of digits of width \<open>w \<ge> 1\<close> always fits into twice the width.\<close>

lemma two_digits_fit: "0 < w \<Longrightarrow> a < 2 ^ w \<Longrightarrow> b < 2 ^ w \<Longrightarrow> a + b < (2::nat) ^ (2 * w)"
proof -
  assume w: "0 < w" and ab: "a < 2 ^ w" "b < 2 ^ w"
  have "2 * 2 ^ w \<le> (2::nat) ^ w * 2 ^ w"
    using w by (intro mult_right_mono) (cases w; simp)+
  with ab show ?thesis by (simp add: mult_2 power_add)
qed

lemma digit_sum_fold:
  assumes "0 < w"
  shows "digit_sum (2 * w) n (digit_fold w n x) = digit_sum w (2 * n) x"
proof (induction n arbitrary: x)
  case (Suc n)
  let ?y = "x div 2 ^ (2 * w)"
  let ?d = "x mod 2 ^ w + x div 2 ^ w mod 2 ^ w"
  have d: "?d < 2 ^ (2 * w)" using assms by (simp add: two_digits_fit)
  have y: "x div 2 ^ w div 2 ^ w = ?y" by (simp add: mult_2 power_add flip: div_mult2_eq)
  have "digit_sum (2 * w) (Suc n) (digit_fold w (Suc n) x) = ?d + digit_sum w (2 * n) ?y"
    using d Suc.IH by (simp add: digit_sum_Suc)
  also have "\<dots> = digit_sum w (2 * Suc n) x"
    by (simp add: digit_sum_Suc y)
  finally show ?case .
qed (simp add: digit_sum_def)

text \<open>The second step leaves nibbles of at most four.\<close>

lemma digit_fold_2_nibbles:
  assumes "\<And>i. x div 4 ^ i mod 4 \<le> 2"
  shows "digit_fold 2 n x div 16 ^ i mod 16 \<le> 4"
  using assms
proof (induction n arbitrary: x i)
  case (Suc n)
  have d: "x mod 4 + x div 4 mod 4 \<le> 4" using Suc.prems [of 0] Suc.prems [of 1] by simp
  have "x div 16 div 4 ^ j mod 4 \<le> 2" for j
    using Suc.prems [of "j + 2"] by (simp add: power_add mult.commute flip: div_mult2_eq)
  then have IH: "digit_fold 2 n (x div 16) div 16 ^ j mod 16 \<le> 4" for j
    by (rule Suc.IH)
  have e: "digit_fold 2 (Suc n) x = (x mod 4 + x div 4 mod 4) + 16 * digit_fold 2 n (x div 16)"
    by simp
  show ?case
  proof (cases i)
    case 0
    with d show ?thesis unfolding e by simp
  next
    case (Suc j)
    have "digit_fold 2 (Suc n) x div 16 = digit_fold 2 n (x div 16)"
      using d unfolding e by simp
    with IH [of j] Suc show ?thesis by (simp add: div_mult2_eq del: digit_fold.simps)
  qed
qed simp

lemma digit_fold_1_pairs: "digit_fold 1 n x div 4 ^ i mod 4 \<le> 2"
proof (induction n arbitrary: x i)
  case (Suc n)
  have d: "x mod 2 + x div 2 mod 2 < 4" "x mod 2 + x div 2 mod 2 \<le> 2" by presburger+
  have e: "digit_fold 1 (Suc n) x = (x mod 2 + x div 2 mod 2) + 4 * digit_fold 1 n (x div 4)"
    by simp
  show ?case
  proof (cases i)
    case 0
    with d show ?thesis unfolding e by simp
  next
    case (Suc j)
    have "digit_fold 1 (Suc n) x div 4 = digit_fold 1 n (x div 4)"
      using d(1) unfolding e by simp
    with Suc.IH [of "x div 4" j] Suc show ?thesis by (simp add: div_mult2_eq del: digit_fold.simps)
  qed
qed simp

text \<open>With nibbles of at most four, adding before masking loses nothing.\<close>

lemma digit_fold_4_once:
  assumes "\<And>i. x div 16 ^ i mod 16 \<le> 4"
  shows "(x + x div 16) AND half_mask 4 n = digit_fold 4 n x"
  using assms
proof (induction n arbitrary: x)
  case (Suc n)
  let ?y = "x div 256"
  have d: "x mod 16 \<le> 4" "x div 16 mod 16 \<le> 4" "x div 256 mod 16 \<le> 4"
    using Suc.prems [of 0] Suc.prems [of 1] Suc.prems [of 2] by simp_all
  have "?y div 16 ^ j mod 16 \<le> 4" for j
    using Suc.prems [of "j + 2"] by (simp add: power_add mult.commute flip: div_mult2_eq)
  then have IH: "(?y + ?y div 16) AND half_mask 4 n = digit_fold 4 n ?y"
    by (rule Suc.IH)
  have x': "x = x mod 16 + 16 * (x div 16 mod 16) + 256 * (?y mod 16 + 16 * (?y div 16))"
  proof -
    have "x = p + 16 * q + 256 * z" if "p + 16 * u = x" "q + 16 * z = u" for p q u z
      using that by auto
    note this [OF mod_mult_div_eq mod_mult_div_eq]
    moreover have "x div 16 div 16 = ?y mod 16 + 16 * (?y div 16)"
      unfolding mod_mult_div_eq by (simp flip: div_mult2_eq)
    ultimately show ?thesis by (simp only:)
  qed
  obtain a b e f where x: "x = a + 16 * b + 256 * (e + 16 * f)" and abe: "a \<le> 4" "b \<le> 4" "e \<le> 4"
    and r: "a = x mod 16" "b = x div 16 mod 16" "e = ?y mod 16" "f = ?y div 16"
    using x' d by blast
  have s: "x + x div 16 = (a + b) + 16 * (b + e + 16 * f + 16 * (e + 16 * f))"
    "x + x div 16 = (a + b + 16 * (b + e)) + 256 * (e + 16 * f + f)"
    using x abe by simp_all
  have m: "(x + x div 16) mod 16 = x mod 16 + x div 16 mod 16"
  proof -
    have "(a + b + 16 * z) mod 16 = a + b" for z using abe by simp
    then show ?thesis unfolding s(1) r(1,2) .
  qed
  have "?y = e + 16 * f" unfolding r by simp
  then have q: "(x + x div 16) div 256 = ?y + ?y div 16"
    unfolding s(2) using abe by (simp flip: r(4))
  show ?case
    using and_half_mask_Suc [of "x + x div 16" 4 n] m q IH by simp
qed simp

text \<open>The three shifted additions put the sum of eight small bytes into the top byte.\<close>

lemma byte_sum_top:
  assumes "x < UMAX" "\<And>i. x div 256 ^ i mod 256 \<le> 8"
  shows "(x * 0x0101010101010101) mod UMAX div 2 ^ 56 = digit_sum 8 8 x"
proof -
  define c where "c i = x div 256 ^ i mod 256" for i
  have c: "c i \<le> 8" for i using assms(2) by (simp add: c_def)
  have ds: "digit_sum 8 8 x = c 0 + c 1 + c 2 + c 3 + c 4 + c 5 + c 6 + c 7"
  proof -
    have "{..<8::nat} = {0, 1, 2, 3, 4, 5, 6, 7}" by auto
    then show ?thesis by (simp add: digit_sum_def c_def)
  qed
  have split: "y = y mod 256 + 256 * (y div 256)" for y :: nat by simp
  have step: "x div 256 ^ i = c i + 256 * (x div 256 ^ (i + 1))" for i
    using split [of "x div 256 ^ i"] unfolding c_def power_add power_one_right div_mult2_eq .
  have "x div 256 ^ 8 = 0" using assms(1) by (simp add: UMAX_def)
  then have x: "x = c 0 + 256 * (c 1 + 256 * (c 2 + 256 * (c 3 + 256 * (c 4 + 256 * (c 5
      + 256 * (c 6 + 256 * c 7))))))"
    using step [of 0] step [of 1] step [of 2] step [of 3] step [of 4] step [of 5] step [of 6]
      step [of 7] by simp
  define S where "S = c 0 + 256 * (c 0 + c 1) + 256 ^ 2 * (c 0 + c 1 + c 2)
      + 256 ^ 3 * (c 0 + c 1 + c 2 + c 3) + 256 ^ 4 * (c 0 + c 1 + c 2 + c 3 + c 4)
      + 256 ^ 5 * (c 0 + c 1 + c 2 + c 3 + c 4 + c 5)
      + 256 ^ 6 * (c 0 + c 1 + c 2 + c 3 + c 4 + c 5 + c 6)"
  define T where "T = c 1 + c 2 + c 3 + c 4 + c 5 + c 6 + c 7
      + 256 * (c 2 + c 3 + c 4 + c 5 + c 6 + c 7) + 256 ^ 2 * (c 3 + c 4 + c 5 + c 6 + c 7)
      + 256 ^ 3 * (c 4 + c 5 + c 6 + c 7) + 256 ^ 4 * (c 5 + c 6 + c 7) + 256 ^ 5 * (c 6 + c 7)
      + 256 ^ 6 * c 7"
  have prod: "x * 0x0101010101010101 = S + 2 ^ 56 * digit_sum 8 8 x + UMAX * T"
    unfolding ds S_def T_def UMAX_def by (subst x) (simp add: algebra_simps)
  have S: "S < 2 ^ 56"
    unfolding S_def using c [of 0] c [of 1] c [of 2] c [of 3] c [of 4] c [of 5] c [of 6] by simp
  have D: "digit_sum 8 8 x < 256"
    unfolding ds using c [of 0] c [of 1] c [of 2] c [of 3] c [of 4] c [of 5] c [of 6] c [of 7]
    by simp
  have "S + 2 ^ 56 * digit_sum 8 8 x < UMAX" using S D by (simp add: UMAX_def)
  then have "(x * 0x0101010101010101) mod UMAX = S + 2 ^ 56 * digit_sum 8 8 x"
    unfolding prod by simp
  then show ?thesis using S by simp
qed

lemma digit_fold_4_bytes:
  assumes "\<And>i. x div 16 ^ i mod 16 \<le> 4"
  shows "digit_fold 4 n x div 256 ^ i mod 256 \<le> 8"
  using assms
proof (induction n arbitrary: x i)
  case (Suc n)
  have d: "x mod 16 + x div 16 mod 16 \<le> 8" using Suc.prems [of 0] Suc.prems [of 1] by simp
  have "x div 256 div 16 ^ j mod 16 \<le> 4" for j
    using Suc.prems [of "j + 2"] by (simp add: power_add mult.commute flip: div_mult2_eq)
  then have IH: "digit_fold 4 n (x div 256) div 256 ^ j mod 256 \<le> 8" for j
    by (rule Suc.IH)
  have e: "digit_fold 4 (Suc n) x = (x mod 16 + x div 16 mod 16) + 256 * digit_fold 4 n (x div 256)"
    by simp
  show ?case
  proof (cases i)
    case 0
    with d show ?thesis unfolding e by simp
  next
    case (Suc j)
    have "digit_fold 4 (Suc n) x div 256 = digit_fold 4 n (x div 256)"
      using d unfolding e by simp
    with IH [of j] Suc show ?thesis by (simp add: div_mult2_eq del: digit_fold.simps)
  qed
qed simp

lemma digit_fold_less: "digit_fold w n x < 2 ^ (2 * w * n)" if "0 < w"
proof (induction n arbitrary: x)
  case (Suc n)
  have d: "x mod 2 ^ w + x div 2 ^ w mod 2 ^ w < 2 ^ (2 * w)" using that by (simp add: two_digits_fit)
  have "digit_fold w n (x div 2 ^ (2 * w)) + 1 \<le> 2 ^ (2 * w * n)"
    using Suc.IH [of "x div 2 ^ (2 * w)"] by simp
  from mult_left_mono [OF this, of "2 ^ (2 * w)"] d show ?case
    by (simp add: power_add mult.commute)
qed simp

lemma digit_sum_bits: "digit_sum 1 n x = card {i. i < n \<and> bit x i}"
proof -
  have "digit_sum 1 n x = (\<Sum>i<n. if bit x i then 1 else 0)"
    by (auto simp: digit_sum_def bit_iff_odd mod2_eq_if intro!: sum.cong)
  also have "\<dots> = card {i \<in> {..<n}. bit x i}"
    by (simp flip: sum.inter_filter)
  finally show ?thesis by (simp add: Collect_conj_eq)
qed

lemma half_mask_closed: "half_mask w n * (2 ^ w + 1) + 1 = 2 ^ (2 * w * n)"
proof (induction n)
  case (Suc n)
  have "half_mask w (Suc n) * (2 ^ w + 1) + 1
      = ((2 ^ w - 1) * (2 ^ w + 1) + 1) + 2 ^ (2 * w) * (half_mask w n * (2 ^ w + 1))"
    by (simp add: algebra_simps)
  also have "(2 ^ w - 1) * (2 ^ w + 1) + 1 = (2::nat) ^ (2 * w)"
    by (simp add: algebra_simps flip: power_add)
  also have "2 ^ (2 * w) + 2 ^ (2 * w) * (half_mask w n * (2 ^ w + 1))
      = 2 ^ (2 * w) * (half_mask w n * (2 ^ w + 1) + 1)"
    by (simp add: algebra_simps)
  finally show ?case unfolding Suc.IH by (simp add: power_add)
qed simp

lemma half_mask_values:
  "half_mask 1 32 = 0x5555555555555555" "half_mask 2 16 = 0x3333333333333333"
  "half_mask 4 8 = 0x0F0F0F0F0F0F0F0F"
  using half_mask_closed [of 1 32] half_mask_closed [of 2 16] half_mask_closed [of 4 8]
  by simp_all

lemma unat_add_mod: "unat (v + w :: uword) = (unat v + unat w) mod UMAX"
  by (simp add: unat_word_ariths UMAX_def)

lemma unat_drop: "unat (drop_bit k w :: uword) = unat w div 2 ^ k"
  by (subst unat_drop_bit_eq) (rule drop_bit_eq_div)

text \<open>\<open>populationCount\<close> on the unsigned value, in the three folds and the byte sum.\<close>

lemma unat_populationCount: "unat (populationCount w) = digit_sum 1 64 (unat w)"
proof -
  let ?x = "unat w"
  define a where "a = digit_fold 1 32 ?x"
  define b where "b = digit_fold 2 16 a"
  define c where "c = digit_fold 4 8 b"
  have x: "?x < UMAX" using unsigned_less [of w] by (simp add: UMAX_def)
  have bnd: "a < UMAX" "b < UMAX" "c < UMAX"
    using digit_fold_less [of 1 32 ?x] digit_fold_less [of 2 16 a] digit_fold_less [of 4 8 b]
    by (simp_all add: a_def b_def c_def UMAX_def)
  have pairs: "a div 4 ^ i mod 4 \<le> 2" for i unfolding a_def by (rule digit_fold_1_pairs)
  have nib: "b div 16 ^ i mod 16 \<le> 4" for i unfolding b_def using pairs by (rule digit_fold_2_nibbles)
  have byt: "c div 256 ^ i mod 256 \<le> 8" for i unfolding c_def using nib by (rule digit_fold_4_bytes)
  have sum: "digit_sum 8 8 c = digit_sum 1 64 ?x"
    using digit_sum_fold [of 1 32 ?x] digit_sum_fold [of 2 16 a] digit_sum_fold [of 4 8 b]
    by (simp add: a_def b_def c_def)
  have w1: "unat (w - (drop_bit 1 w AND 0x5555555555555555)) = a"
  proof -
    have m: "unat (drop_bit 1 w AND 0x5555555555555555) = (?x div 2) AND half_mask 1 32"
      by (simp only: unsigned_and_eq unat_drop half_mask_values) simp
    have s: "(?x AND half_mask 1 32) + 2 * ((?x div 2) AND half_mask 1 32) = ?x"
      using half_mask_1 [of ?x 32] x by (simp add: UMAX_def)
    have f: "(?x AND half_mask 1 32) + ((?x div 2) AND half_mask 1 32) = a"
      using digit_fold_masks [of ?x 1 32] by (simp add: a_def)
    have "drop_bit 1 w AND 0x5555555555555555 \<le> w"
      unfolding word_le_nat_alt m using s by linarith
    from unat_sub [OF this] show ?thesis unfolding m using s f by linarith
  qed
  have w2: "unat ((v AND 0x3333333333333333) + (drop_bit 2 v AND 0x3333333333333333)) = b"
    if "unat v = a" for v :: uword
  proof -
    have "(a AND half_mask 2 16) + ((a div 4) AND half_mask 2 16) = b"
      using digit_fold_masks [of a 2 16] by (simp add: b_def)
    then show ?thesis
      by (simp only: unat_add_mod unsigned_and_eq unat_drop that half_mask_values)
        (simp add: bnd)
  qed
  have w3: "unat ((v + drop_bit 4 v) AND 0x0F0F0F0F0F0F0F0F) = c" if "unat v = b" for v :: uword
  proof -
    have "b div 16 ^ 15 < 16" using bnd(2) by (simp add: UMAX_def less_mult_imp_div_less)
    with nib [of 15] have "b div 16 ^ 15 \<le> 4" by simp
    then have "b + b div 16 < UMAX" by (simp add: UMAX_def)
    moreover have "(b + b div 16) AND half_mask 4 8 = c"
      unfolding c_def using nib by (rule digit_fold_4_once)
    ultimately show ?thesis
      by (simp only: unsigned_and_eq unat_add_mod unat_drop that half_mask_values)
        (simp add: half_mask_values)
  qed
  have w4: "unat (drop_bit 56 (let v = v + push_bit 8 v; v = v + push_bit 16 v in v + push_bit 32 v))
      = digit_sum 8 8 c" if "unat v = c" for v :: uword
  proof -
    have "(let v = v + push_bit 8 v; v = v + push_bit 16 v in v + push_bit 32 v)
        = v * 0x0101010101010101"
      by (simp add: Let_def push_bit_eq_mult algebra_simps)
    then have "unat (let v = v + push_bit 8 v; v = v + push_bit 16 v in v + push_bit 32 v)
        = (c * 0x0101010101010101) mod UMAX"
      using that by (simp add: unat_word_ariths UMAX_def)
    then show ?thesis
      unfolding unat_drop using byte_sum_top [OF bnd(3) byt] by simp
  qed
  show ?thesis
  proof (cases "w = 0")
    case True
    then show ?thesis by (simp add: populationCount_def digit_sum_def)
  next
    case False
    then show ?thesis
      using w4 [OF w3 [OF w2 [OF w1]]] by (simp add: populationCount_def Let_def sum)
  qed
qed

lemma populationCount_bits: "unat (populationCount w) = card {i. i < 64 \<and> bit w i}"
  unfolding unat_populationCount digit_sum_bits by (simp add: bit_unsigned_iff)

text \<open>
  C40: \<open>populationCount\<close>, which adds up the bits in parallel in fields of two, four and eight bits and sums the
  bytes by a multiplication, is the number of bits that are set.
\<close>

theorem populationCount_counts: "unat (populationCount w) = length (filter (bit w) [0..<64])"
proof -
  have "card {i. i < 64 \<and> bit w i} = length (filter (bit w) [0..<64])"
    by (subst distinct_card [symmetric]) (auto intro!: arg_cong [where f = card])
  then show ?thesis unfolding unat_populationCount digit_sum_bits by (simp add: bit_unsigned_iff)
qed

text \<open>The lowest set bit: \<open>NOT (w OR (0 - w))\<close> is the mask of the zero bits below it.\<close>

lemma low_zero_mask:
  fixes w :: uword
  assumes "bit w k" "\<And>i. i < k \<Longrightarrow> \<not> bit w i"
  shows "NOT (w OR (0 - w)) = mask k"
proof -
  define x where "x = unat w"
  have bx: "bit x i = bit w i" for i by (simp add: x_def bit_unsigned_iff)
  have k: "k < 64" using assms(1) bit_imp_le_length by fastforce
  have "take_bit k x = 0" using assms(2) by (intro bit_eqI) (simp add: bit_take_bit_iff bx)
  moreover have "odd (x div 2 ^ k)" using assms(1) bx by (simp add: bit_iff_odd)
  ultimately obtain q where q: "x = 2 ^ k * (1 + 2 * q)"
    by (metis add.commute div_mult_mod_eq add_0_right mult.commute oddE take_bit_eq_mod)
  have "0 < x" using q by (metis mult_is_0 power_not_zero zero_neq_numeral add_is_0 zero_neq_one neq0_conv)
  then have u1: "unat (w - 1) = x - 1" by (simp add: x_def unat_minus_one unat_gt_0)
  have x1: "x - 1 = (2 ^ k - 1) + 2 ^ k * (2 * q)" using q by simp
  have w1: "bit (w - 1) i = (if i < k then True else i \<noteq> k \<and> bit w i)" if "i < 64" for i
  proof -
    have "bit (2 * q) (i - k) = (k < i \<and> bit (1 + 2 * q) (i - k))"
      by (cases "i - k") (auto simp add: bit_iff_odd div_mult2_eq)
    moreover have "bit w i = (k \<le> i \<and> bit (1 + 2 * q) (i - k))"
      using bit_split [of 0 k "1 + 2 * q" i] by (simp add: q flip: bx)
    moreover have "bit (w - 1) i = bit (x - 1) i"
      unfolding u1 [symmetric] by (simp add: bit_unsigned_iff)
    moreover have "i < k \<Longrightarrow> bit (2 ^ k - 1 :: nat) i"
      unfolding mask_eq_exp_minus_1 [symmetric] by (simp add: bit_mask_iff)
    moreover have "bit (x - 1) i = (if i < k then bit (2 ^ k - 1 :: nat) i else bit (2 * q) (i - k))"
      unfolding x1 by (rule bit_split) simp
    ultimately show ?thesis by (metis linorder_not_less order_le_less)
  qed
  have "NOT (0 - w) = w - 1" by (simp add: not_eq_complement)
  then show ?thesis
    using w1 assms by (intro bit_word_eqI) (auto simp: bit_and_iff bit_not_iff bit_mask_iff)
qed

lemma leadingZeroes_lowest:
  assumes "bit w k" "\<And>i. i < k \<Longrightarrow> \<not> bit w i"
  shows "unat (leadingZeroes w) = k"
proof -
  have "k < 64" using assms(1) bit_imp_le_length by fastforce
  then have "{i. i < 64 \<and> bit (mask k :: uword) i} = {..<k}" by (auto simp: bit_mask_iff)
  then show ?thesis
    by (simp only: leadingZeroes_def low_zero_mask [OF assms] populationCount_bits card_lessThan)
qed

end
