(* ===== verification/Free_Header.thy ===== *)
theory Free_Header
  imports GC_Prelude
begin

text \<open>
  \<open>MM_HeapLinkedFreeHeader\<close> (gc/base/HeapLinkedFreeHeader.hpp): the two words at the start of a
  free chunk, a tagged pointer to the next free entry and the size of this one.

  Memory is a map from byte addresses to the 64-bit word stored there; only addresses that are
  multiples of 8 are used.  The header at \<open>p\<close> keeps \<open>_next\<close> at \<open>p\<close> and \<open>_size\<close> at \<open>p + 8\<close>.  The
  build with \<open>OMR_INTERP_COMPRESSED_OBJECT_HEADER\<close> splits \<open>_next\<close> into two 32-bit halves; both
  shapes are instances of one contract (\<open>next_field\<close>).
\<close>

section \<open>The encoded next pointer\<close>

definition J9_GC_MULTI_SLOT_HOLE :: uword where
  "J9_GC_MULTI_SLOT_HOLE = 1"

definition J9_GC_SINGLE_SLOT_HOLE :: uword where
  "J9_GC_SINGLE_SLOT_HOLE = 3"

definition J9_GC_OBJ_HEAP_HOLE_MASK :: uword where
  "J9_GC_OBJ_HEAP_HOLE_MASK = 3"

text \<open>What the public accessors do to the raw value of the field.\<close>

definition decodeNext :: "uword \<Rightarrow> addr" where
  "decodeNext raw = unat (raw AND NOT J9_GC_OBJ_HEAP_HOLE_MASK)"

definition encodeNext :: "addr \<Rightarrow> uword" where
  "encodeNext q = of_nat q OR J9_GC_MULTI_SLOT_HOLE"

definition reencodeNext :: "uword \<Rightarrow> addr \<Rightarrow> uword" where
  "reencodeNext raw q = of_nat q OR (raw AND J9_GC_OBJ_HEAP_HOLE_MASK)"

text \<open>The split shape: \<open>_next\<close> and \<open>_nextHighBits\<close>.\<close>

record split_header =
  sp_next :: "32 word"
  sp_nextHighBits :: "32 word"
  sp_size :: uword

definition split_getNextImpl :: "split_header \<Rightarrow> uword" where
  "split_getNextImpl h =
     (let lowBits = (ucast (sp_next h) :: uword); highBits = (ucast (sp_nextHighBits h) :: uword)
      in push_bit 32 highBits OR lowBits)"

definition split_setNextImpl :: "uword \<Rightarrow> split_header \<Rightarrow> split_header" where
  "split_setNextImpl v h = h \<lparr> sp_next := ucast v, sp_nextHighBits := ucast (drop_bit 32 v) \<rparr>"

section \<open>Headers in memory\<close>

type_synonym mem = "addr \<Rightarrow> uword"

definition getNextImpl :: "addr \<Rightarrow> mem \<Rightarrow> uword" where
  "getNextImpl p m = m p"

definition setNextImpl :: "addr \<Rightarrow> uword \<Rightarrow> mem \<Rightarrow> mem" where
  "setNextImpl p v m = m(p := v)"

definition getNext :: "mem \<Rightarrow> addr \<Rightarrow> addr" where
  "getNext m p = decodeNext (getNextImpl p m)"

definition setNext :: "addr \<Rightarrow> addr \<Rightarrow> mem \<Rightarrow> mem" where
  "setNext p q m = setNextImpl p (encodeNext q) m"

definition updateNext :: "addr \<Rightarrow> addr \<Rightarrow> mem \<Rightarrow> mem" where
  "updateNext p q m = setNextImpl p (reencodeNext (getNextImpl p m) q) m"

definition getSize :: "mem \<Rightarrow> addr \<Rightarrow> nat" where
  "getSize m p = unat (m (p + 8))"

definition setSize :: "addr \<Rightarrow> nat \<Rightarrow> mem \<Rightarrow> mem" where
  "setSize p n m = m(p + 8 := of_nat n)"

definition expandSize :: "addr \<Rightarrow> nat \<Rightarrow> mem \<Rightarrow> mem" where
  "expandSize p n m = m(p + 8 := m (p + 8) + of_nat n)"

definition afterEnd :: "mem \<Rightarrow> addr \<Rightarrow> addr" where
  "afterEnd m p = uadd p (getSize m p)"

text \<open>
  \<open>fillWithSingleSlotHoles\<close>.  The loop counts an unsigned size down by eight and stops at zero
  only; \<open>None\<close> is the loop that never stops.
\<close>

partial_function (option) fillWithSingleSlotHoles :: "addr \<Rightarrow> nat \<Rightarrow> mem \<Rightarrow> mem option" where
  "fillWithSingleSlotHoles freeSlot freeEntrySize m =
     (if freeEntrySize = 0 then Some m
      else fillWithSingleSlotHoles (uadd freeSlot 8) (usub freeEntrySize 8)
             (m(freeSlot := J9_GC_SINGLE_SLOT_HOLE)))"

text \<open>\<open>fillWithHoles\<close>: the header written, or \<open>NULL\<close> when the space is too small for one.\<close>

definition fillWithHoles :: "addr \<Rightarrow> nat \<Rightarrow> mem \<Rightarrow> (addr \<times> mem) option" where
  "fillWithHoles addrBase freeEntrySize m =
     (if freeEntrySize < sizeof_FreeHeader then
        do { m \<leftarrow> fillWithSingleSlotHoles addrBase freeEntrySize m; Some (NULL, m) }
      else Some (addrBase, setSize addrBase freeEntrySize (setNext addrBase NULL m)))"

text \<open>\<open>linkInAsHead\<close> when no other thread writes the head: the new head and the memory.\<close>

definition linkInAsHead :: "addr \<Rightarrow> addr \<Rightarrow> mem \<Rightarrow> addr \<times> mem" where
  "linkInAsHead currentHead nextHead m = (nextHead, setNext nextHead currentHead m)"

section \<open>The contract of the next field\<close>

lemma word_and_not_3:
  fixes w :: uword
  assumes "4 dvd unat w"
  shows "w AND NOT 3 = w"
proof -
  have "take_bit 2 w = 0"
  proof -
    have "unat (take_bit 2 w) = take_bit 2 (unat w)" by (rule unsigned_take_bit_eq)
    also have "\<dots> = 0" using assms by (simp add: take_bit_eq_mod)
    finally show ?thesis by (simp add: unat_eq_0)
  qed
  then have "w AND 3 = 0" by (simp add: take_bit_eq_mask mask_numeral)
  moreover have "w = (w AND 3) OR (w AND NOT 3)" by (simp flip: bit.conj_disj_distrib)
  ultimately show ?thesis by simp
qed

lemma tag_strip:
  fixes r :: uword
  assumes "4 dvd q" "q < UMAX" "r AND NOT 3 = 0"
  shows "unat ((of_nat q OR r) AND NOT 3) = q"
proof -
  have q: "unat (of_nat q :: uword) = q"
    using assms(2) by (simp add: unat_of_nat UMAX_def)
  have "(of_nat q OR r) AND NOT 3 = of_nat q"
    using word_and_not_3 [of "of_nat q"] assms(1,3) q by (simp add: bit.conj_disj_distrib2)
  then show ?thesis using q by simp
qed

lemma decode_encode [simp]: "4 dvd q \<Longrightarrow> q < UMAX \<Longrightarrow> decodeNext (encodeNext q) = q"
  unfolding decodeNext_def encodeNext_def J9_GC_OBJ_HEAP_HOLE_MASK_def J9_GC_MULTI_SLOT_HOLE_def
  by (rule tag_strip) simp_all

lemma decode_reencode [simp]: "4 dvd q \<Longrightarrow> q < UMAX \<Longrightarrow> decodeNext (reencodeNext raw q) = q"
  unfolding decodeNext_def reencodeNext_def J9_GC_OBJ_HEAP_HOLE_MASK_def
  by (rule tag_strip) (simp_all add: and.assoc)

locale next_field =
  fixes get :: "'h \<Rightarrow> uword" and put :: "uword \<Rightarrow> 'h \<Rightarrow> 'h"
  assumes get_put: "get (put v h) = v"
begin

lemma next_roundtrip: "4 dvd q \<Longrightarrow> q < UMAX \<Longrightarrow> decodeNext (get (put (encodeNext q) h)) = q"
  by (simp add: get_put)

lemma update_roundtrip: "4 dvd q \<Longrightarrow> q < UMAX \<Longrightarrow> decodeNext (get (put (reencodeNext (get h) q) h)) = q"
  by (simp add: get_put)

lemma update_keeps_tag:
  assumes "4 dvd q" "q < UMAX"
  shows "get (put (reencodeNext (get h) q) h) AND 3 = get h AND 3"
proof -
  have "unat (of_nat q :: uword) = q" using assms(2) by (simp add: unat_of_nat UMAX_def)
  then have "of_nat q AND 3 = (0 :: uword)"
    using assms(1) word_and_not_3 [of "of_nat q"] by (metis bit.conj_cancel_left and.assoc bit.conj_zero_right)
  then show ?thesis
    by (simp add: get_put reencodeNext_def J9_GC_OBJ_HEAP_HOLE_MASK_def bit.conj_disj_distrib2 and.assoc)
qed

end

interpretation whole: next_field "getNextImpl p" "setNextImpl p" for p
  by unfold_locales (simp add: getNextImpl_def setNextImpl_def)

lemma split_get_set: "split_getNextImpl (split_setNextImpl v h) = v"
  by (rule bit_word_eqI)
    (auto simp: split_getNextImpl_def split_setNextImpl_def Let_def bit_simps)

interpretation split: next_field split_getNextImpl split_setNextImpl
  by unfold_locales (rule split_get_set)

end
