(* ===== verification/Free_List.thy ===== *)
theory Free_List
  imports Free_Header
begin

text \<open>
  The address-ordered free list as a heap structure: when memory holds a given list of entries
  (\<open>lseg\<close>, \<open>chain\<close>), which lists are well formed (\<open>entries_wf\<close>), which writes leave a list alone,
  and the loop over the list that the pool operations are built from (\<open>walk\<close>).
\<close>

section \<open>Lists of entries in memory\<close>

text \<open>An entry is its address and its size in bytes.\<close>

type_synonym entry = "addr \<times> nat"

fun lseg :: "mem \<Rightarrow> addr \<Rightarrow> entry list \<Rightarrow> addr \<Rightarrow> bool" where
  "lseg m p [] q = (p = q)"
| "lseg m p (e # xs) q = (p = fst e \<and> p \<noteq> NULL \<and> getSize m p = snd e \<and> lseg m (getNext m p) xs q)"

abbreviation chain :: "mem \<Rightarrow> addr \<Rightarrow> entry list \<Rightarrow> bool" where
  "chain m p xs \<equiv> lseg m p xs NULL"

definition entry_ok :: "nat \<Rightarrow> entry \<Rightarrow> bool" where
  "entry_ok mn e \<longleftrightarrow> 0 < fst e \<and> 8 dvd fst e \<and> 8 dvd snd e \<and> 16 \<le> snd e \<and> mn \<le> snd e \<and> fst e + snd e < UMAX"

definition before :: "entry \<Rightarrow> entry \<Rightarrow> bool" where
  "before e f \<longleftrightarrow> fst e + snd e \<le> fst f"

text \<open>Entries of at least \<open>mn\<close> bytes, slot aligned, ascending and disjoint.\<close>

definition entries_wf :: "nat \<Rightarrow> entry list \<Rightarrow> bool" where
  "entries_wf mn xs \<longleftrightarrow> (\<forall>e \<in> set xs. entry_ok mn e) \<and> sorted_wrt before xs"

definition entries_size :: "entry list \<Rightarrow> nat" where
  "entries_size xs = sum_list (map snd xs)"

lemma entries_size_simps [simp]:
  "entries_size [] = 0" "entries_size (e # xs) = snd e + entries_size xs"
  "entries_size (xs @ ys) = entries_size xs + entries_size ys"
  by (simp_all add: entries_size_def)

lemma lseg_append: "lseg m p (xs @ ys) q \<longleftrightarrow> (\<exists>r. lseg m p xs r \<and> lseg m r ys q)"
  by (induction xs arbitrary: p) auto

lemma chain_NULL [simp]: "chain m NULL xs \<longleftrightarrow> xs = []"
  by (cases xs) auto

lemma chain_not_NULL: "p \<noteq> NULL \<Longrightarrow>
    chain m p xs \<longleftrightarrow> (\<exists>ys. xs = (p, getSize m p) # ys \<and> chain m (getNext m p) ys)"
  by (cases xs) auto

lemma lseg_head: "lseg m p xs q \<Longrightarrow> p = (if xs = [] then q else fst (hd xs))"
  by (cases xs) auto

lemma chain_unique: "chain m p xs \<Longrightarrow> chain m p ys \<Longrightarrow> xs = ys"
proof (induction xs arbitrary: p ys)
  case Nil
  then show ?case by simp
next
  case (Cons e xs)
  then show ?case by (cases ys) (auto simp: prod_eq_iff)
qed

lemma entries_wf_Nil [simp]: "entries_wf mn []"
  by (simp add: entries_wf_def)

lemma entries_wf_Cons:
  "entries_wf mn (e # xs) \<longleftrightarrow> entry_ok mn e \<and> (\<forall>f \<in> set xs. before e f) \<and> entries_wf mn xs"
  by (auto simp: entries_wf_def)

lemma entries_wf_append:
  "entries_wf mn (xs @ ys) \<longleftrightarrow> entries_wf mn xs \<and> entries_wf mn ys \<and> (\<forall>e \<in> set xs. \<forall>f \<in> set ys. before e f)"
  by (auto simp: entries_wf_def sorted_wrt_append)

lemmas entries_wf_simps = entries_wf_Cons entries_wf_append

lemma entry_okD:
  assumes "entry_ok mn e"
  shows "0 < fst e" "fst e \<noteq> 0" "8 dvd fst e" "4 dvd fst e" "8 dvd snd e" "16 \<le> snd e" "mn \<le> snd e"
    "fst e + snd e < UMAX" "fst e < UMAX" "snd e < UMAX"
  using assms dvd_trans [of 4 8 "fst e"] by (auto simp: entry_ok_def)

text \<open>\<open>before\<close> is a strict order on well-formed entries.\<close>

lemma before_less: "before e f \<Longrightarrow> entry_ok mn e \<Longrightarrow> fst e < fst f"
  by (auto simp: before_def entry_ok_def)

lemma before_trans: "before e f \<Longrightarrow> before f g \<Longrightarrow> before e g"
  by (auto simp: before_def)

section \<open>Writes outside a list\<close>

text \<open>\<open>outside w xs\<close>: address \<open>w\<close> lies in no entry of \<open>xs\<close>.\<close>

definition outside :: "addr \<Rightarrow> entry list \<Rightarrow> bool" where
  "outside w xs \<longleftrightarrow> (\<forall>e \<in> set xs. w < fst e \<or> fst e + snd e \<le> w)"

lemma outside_simps [simp]:
  "outside w []" "outside w (e # xs) \<longleftrightarrow> (w < fst e \<or> fst e + snd e \<le> w) \<and> outside w xs"
  "outside w (xs @ ys) \<longleftrightarrow> outside w xs \<and> outside w ys"
  by (auto simp: outside_def)

lemma lseg_frame:
  assumes "\<And>e. e \<in> set xs \<Longrightarrow> m' (fst e) = m (fst e) \<and> m' (fst e + 8) = m (fst e + 8)"
  shows "lseg m' p xs q = lseg m p xs q"
  using assms
proof (induction xs arbitrary: p)
  case (Cons e xs)
  have "m' (fst e) = m (fst e)" "m' (fst e + 8) = m (fst e + 8)" by (simp_all add: Cons.prems)
  moreover have "lseg m' p' xs q = lseg m p' xs q" for p'
    by (rule Cons.IH, rule Cons.prems) simp
  ultimately show ?case
    by (cases "p = fst e") (simp_all add: getSize_def getNext_def getNextImpl_def)
qed simp

lemma lseg_write:
  assumes "\<And>e. e \<in> set xs \<Longrightarrow> 16 \<le> snd e" "outside w xs"
  shows "lseg (m(w := v)) p xs q = lseg m p xs q"
proof (rule lseg_frame)
  fix e
  assume "e \<in> set xs"
  with assms have "16 \<le> snd e" "w < fst e \<or> fst e + snd e \<le> w" by (auto simp: outside_def)
  then have "fst e \<noteq> w" "fst e + 8 \<noteq> w" by auto
  then show "(m(w := v)) (fst e) = m (fst e) \<and> (m(w := v)) (fst e + 8) = m (fst e + 8)" by simp
qed

lemma wf_sizes: "entries_wf mn xs \<Longrightarrow> e \<in> set xs \<Longrightarrow> 16 \<le> snd e"
  by (auto simp: entries_wf_def entry_ok_def)

lemma lseg_setNext: "entries_wf mn xs \<Longrightarrow> outside a xs \<Longrightarrow> lseg (setNext a v m) p xs q = lseg m p xs q"
  unfolding setNext_def setNextImpl_def by (rule lseg_write) (auto dest: wf_sizes)

lemma lseg_setSize: "entries_wf mn xs \<Longrightarrow> outside (a + 8) xs \<Longrightarrow> lseg (setSize a v m) p xs q = lseg m p xs q"
  unfolding setSize_def by (rule lseg_write) (auto dest: wf_sizes)

text \<open>Reading back what was written.\<close>

lemma getNext_setNext [simp]: "4 dvd q \<Longrightarrow> q < UMAX \<Longrightarrow> getNext (setNext p q m) p = q"
  by (simp add: getNext_def setNext_def whole.next_roundtrip)

lemma getNext_setNext_other [simp]: "p' \<noteq> p \<Longrightarrow> getNext (setNext p q m) p' = getNext m p'"
  by (simp add: getNext_def setNext_def getNextImpl_def setNextImpl_def)

lemma getSize_setNext [simp]: "p' + 8 \<noteq> p \<Longrightarrow> getSize (setNext p q m) p' = getSize m p'"
  by (simp add: getSize_def setNext_def setNextImpl_def)

lemma getSize_setSize [simp]: "n < UMAX \<Longrightarrow> getSize (setSize p n m) p = n"
  by (simp add: getSize_def setSize_def unat_of_nat UMAX_def)

lemma getSize_setSize_other [simp]: "p' \<noteq> p \<Longrightarrow> getSize (setSize p n m) p' = getSize m p'"
  by (simp add: getSize_def setSize_def)

lemma getNext_setSize [simp]: "p' \<noteq> p + 8 \<Longrightarrow> getNext (setSize p n m) p' = getNext m p'"
  by (simp add: getNext_def getNextImpl_def setSize_def)

lemma getSize_expandSize:
  "getSize m p + n < UMAX \<Longrightarrow> getSize (expandSize p n m) p = getSize m p + n"
proof -
  assume b: "getSize m p + n < UMAX"
  then have "unat (of_nat n :: uword) = n" by (simp add: unat_of_nat UMAX_def)
  with b show ?thesis
    by (simp add: getSize_def expandSize_def unat_word_ariths UMAX_def)
qed

lemma getNext_expandSize [simp]: "p' \<noteq> p + 8 \<Longrightarrow> getNext (expandSize p n m) p' = getNext m p'"
  by (simp add: getNext_def getNextImpl_def expandSize_def)

lemma expandSize_as_setSize:
  "getSize m p + n < UMAX \<Longrightarrow> expandSize p n m = setSize p (getSize m p + n) m"
  by (auto simp: expandSize_def setSize_def getSize_def)

text \<open>Entries on either side of a given one do not contain its header.\<close>

lemma outside_later: "entries_wf mn (e # ys) \<Longrightarrow> w < fst e + snd e \<Longrightarrow> outside w ys"
  by (force simp: entries_wf_Cons outside_def before_def)

lemma outside_earlier: "entries_wf mn (xs @ [e]) \<Longrightarrow> fst e \<le> w \<Longrightarrow> outside w xs"
  by (force simp: entries_wf_append outside_def before_def)

lemma outside_around:
  assumes "entries_wf mn (xs @ e # ys)" "fst e \<le> w" "w < fst e + snd e"
  shows "outside w xs" "outside w ys"
proof -
  from assms(1) have "entries_wf mn (xs @ [e])" "entries_wf mn (e # ys)"
    by (auto simp: entries_wf_simps)
  with outside_earlier outside_later assms(2,3) show "outside w xs" "outside w ys" by blast+
qed

text \<open>Redirecting the last entry of a segment.\<close>

lemma lseg_setNext_last:
  assumes wf: "entries_wf mn (xs @ [e])" and l: "lseg m p (xs @ [e]) r"
    and q: "4 dvd q" "q < UMAX"
  shows "lseg (setNext (fst e) q m) p (xs @ [e]) q"
proof -
  have "entry_ok mn e" "entries_wf mn xs" using wf by (auto simp: entries_wf_simps)
  moreover have "outside (fst e) xs" using wf by (rule outside_earlier) simp
  ultimately show ?thesis
    using l q by (auto simp: lseg_append lseg_setNext)
qed

section \<open>Walking the list\<close>

text \<open>
  The loop \<open>while (NULL != p) { body; p = p->getNext(); }\<close>: the body continues with a new
  loop state (\<open>Inr\<close>), leaves the loop with a result (\<open>Inl\<close>), or aborts (\<open>None\<close>).  A cyclic list
  never ends and is \<open>None\<close> too.
\<close>

partial_function (option) walk ::
  "mem \<Rightarrow> (addr \<Rightarrow> 's \<Rightarrow> ('r + 's) option) \<Rightarrow> addr \<Rightarrow> 's \<Rightarrow> ('r + 's) option" where
  "walk m body p s =
     (if p = NULL then Some (Inr s)
      else Option.bind (body p s)
        (\<lambda>r. case r of Inl x \<Rightarrow> Some (Inl x) | Inr s' \<Rightarrow> walk m body (getNext m p) s'))"

fun walk_list :: "(addr \<Rightarrow> 's \<Rightarrow> ('r + 's) option) \<Rightarrow> entry list \<Rightarrow> 's \<Rightarrow> ('r + 's) option" where
  "walk_list body [] s = Some (Inr s)"
| "walk_list body (e # xs) s =
     Option.bind (body (fst e) s) (\<lambda>r. case r of Inl x \<Rightarrow> Some (Inl x) | Inr s' \<Rightarrow> walk_list body xs s')"

text \<open>On a list that ends, the walk visits its entries in order; in particular it ends.\<close>

lemma walk_chain: "chain m p xs \<Longrightarrow> walk m body p s = walk_list body xs s"
proof (induction xs arbitrary: p s)
  case Nil
  then show ?case by (simp add: walk.simps)
next
  case (Cons e xs)
  then have "walk m body (getNext m p) = walk_list body xs" by (metis ext lseg.simps(2))
  with Cons.prems show ?case by (subst walk.simps) auto
qed

text \<open>Skipping a prefix on which the body always continues.\<close>

lemma walk_list_append:
  "walk_list body xs s = Some (Inr s') \<Longrightarrow> walk_list body (xs @ ys) s = walk_list body ys s'"
proof (induction xs arbitrary: s)
  case (Cons e xs)
  then obtain r where "body (fst e) s = Some r" by (auto simp: bind_eq_Some_conv)
  with Cons show ?case by (cases r) auto
qed simp

end
