(* ===== verification/Pool_Base.thy ===== *)
theory Pool_Base
  imports Alloc_Stats GC_Math Free_List
begin

text \<open>
  The state of an address-ordered memory pool and the operations it inherits: the counters and
  resets of \<open>MM_MemoryPool\<close> (gc/base/MemoryPool.cpp) and the free-entry building blocks of
  \<open>MM_MemoryPoolAddressOrderedListBase\<close> (gc/base/MemoryPoolAddressOrderedListBase.cpp and .hpp).

  One record holds the fields of the class hierarchy together with the heap memory the pool
  writes.  The locks make every operation atomic and have no state of their own here; the lock
  calls are left out.  \<open>_largeObjectCollectorAllocateStats\<close> is \<open>NULL\<close> or an alias of
  \<open>_largeObjectAllocateStats\<close>, so a boolean says which.
\<close>

section \<open>State\<close>

record J9ModronAllocateHint =
  hint_size :: nat
  heapFreeHeader :: addr
  hint_lru :: nat

record pool =
  mem :: mem
  heapFreeList :: addr
  hintActive :: "J9ModronAllocateHint list"
  hintInactive :: "J9ModronAllocateHint list"
  hintLru :: nat
  minimumFreeEntrySize :: nat
  freeMemorySize :: nat
  freeEntryCount :: nat
  largestFreeEntry :: nat
  approximateFreeMemorySize :: nat
  allocCount :: nat
  allocBytes :: nat
  lastFreeBytes :: nat
  allocDiscardedBytes :: nat
  allocSearchCount :: nat
  darkMatterBytes :: nat
  darkMatterSamples :: nat
  lastFreeEntry :: addr
  largeObjectAllocateStats :: LargeObjectAllocateStats
  collectorStatsShared :: bool

section \<open>\<open>MM_MemoryPool\<close>\<close>

definition getActualFreeMemorySize :: "pool \<Rightarrow> nat" where
  "getActualFreeMemorySize p = freeMemorySize p"

definition getApproximateFreeMemorySize :: "pool \<Rightarrow> nat" where
  "getApproximateFreeMemorySize p = uadd (getActualFreeMemorySize p) (approximateFreeMemorySize p)"

definition memoryPool_reset :: "pool \<Rightarrow> pool" where
  "memoryPool_reset p = p \<lparr> freeMemorySize := 0, freeEntryCount := 0, approximateFreeMemorySize := 0,
                            darkMatterBytes := 0, darkMatterSamples := 0 \<rparr>"

definition resetHeapStatistics :: "bool \<Rightarrow> pool \<Rightarrow> pool" where
  "resetHeapStatistics memoryPoolCollected p =
     (if memoryPoolCollected then p \<lparr> lastFreeBytes := getApproximateFreeMemorySize p \<rparr> else p)
       \<lparr> allocCount := 0, allocBytes := 0, allocDiscardedBytes := 0, allocSearchCount := 0 \<rparr>"

record HeapStats =
  hs_allocCount :: nat
  hs_allocBytes :: nat
  hs_lastFreeBytes :: nat
  hs_allocDiscardedBytes :: nat
  hs_allocSearchCount :: nat
  hs_activeFreeEntryCount :: nat
  hs_inactiveFreeEntryCount :: nat

definition mergeHeapStats :: "pool \<Rightarrow> HeapStats \<Rightarrow> bool \<Rightarrow> HeapStats" where
  "mergeHeapStats p hs active =
     (let hs = hs \<lparr> hs_allocCount := uadd (hs_allocCount hs) (allocCount p),
                    hs_allocBytes := uadd (hs_allocBytes hs) (allocBytes p),
                    hs_lastFreeBytes := uadd (hs_lastFreeBytes hs) (lastFreeBytes p),
                    hs_allocDiscardedBytes := uadd (hs_allocDiscardedBytes hs) (allocDiscardedBytes p),
                    hs_allocSearchCount := uadd (hs_allocSearchCount hs) (allocSearchCount p) \<rparr>
      in if active
         then hs \<lparr> hs_activeFreeEntryCount := uadd (hs_activeFreeEntryCount hs) (freeEntryCount p) \<rparr>
         else hs \<lparr> hs_inactiveFreeEntryCount := uadd (hs_inactiveFreeEntryCount hs) (freeEntryCount p) \<rparr>)"

text \<open>
  \<open>resetFreeEntryAllocateStats\<close> of a pool that is its own top-level pool (\<open>_parent\<close> is \<open>NULL\<close>),
  and \<open>resetLargeObjectAllocateStats\<close>.
\<close>

definition resetFreeEntryAllocateStats :: "LargeObjectAllocateStats \<Rightarrow> LargeObjectAllocateStats option" where
  "resetFreeEntryAllocateStats los =
     do { s \<leftarrow> initializeFrequentAllocation los (freeEntrySizeClassStats los);
          Some (los \<lparr> freeEntrySizeClassStats := resetCounts s \<rparr>) }"

definition resetLargeObjectAllocateStats :: "LargeObjectAllocateStats \<Rightarrow> LargeObjectAllocateStats" where
  "resetLargeObjectAllocateStats los =
     (let los = resetCurrent los
      in los \<lparr> tlhAllocSizeClassStats := resetCounts (tlhAllocSizeClassStats los) \<rparr>)"

text \<open>The calls the pool makes on its statistics, with the pool as state.\<close>

definition decrementStats :: "nat \<Rightarrow> pool \<Rightarrow> pool option" where
  "decrementStats n p =
     do { los \<leftarrow> decrementFreeEntrySizeClassStats n (largeObjectAllocateStats p);
          Some (p \<lparr> largeObjectAllocateStats := los \<rparr>) }"

definition incrementStats :: "nat \<Rightarrow> pool \<Rightarrow> pool option" where
  "incrementStats n p =
     do { (los, _) \<leftarrow> incrementFreeEntrySizeClassStats n (largeObjectAllocateStats p);
          Some (p \<lparr> largeObjectAllocateStats := los \<rparr>) }"

section \<open>\<open>MM_MemoryPoolAddressOrderedListBase\<close>\<close>

definition updateMemoryPoolStatistics :: "nat \<Rightarrow> nat \<Rightarrow> nat \<Rightarrow> pool \<Rightarrow> pool" where
  "updateMemoryPoolStatistics freeBytes entryCount largest p =
     p \<lparr> freeMemorySize := freeBytes, freeEntryCount := entryCount, largestFreeEntry := largest \<rparr>"

definition internalRecycleHeapChunk :: "addr \<Rightarrow> addr \<Rightarrow> addr \<Rightarrow> pool \<Rightarrow> (bool \<times> pool) option" where
  "internalRecycleHeapChunk addrBase addrTop nxt p =
     (let freeEntrySize = usub addrTop addrBase
      in do { assert_MM (addrBase \<le> addrTop);
              (freeEntry, m) \<leftarrow> fillWithHoles addrBase freeEntrySize (mem p);
              (if freeEntry \<noteq> NULL \<and> minimumFreeEntrySize p \<le> freeEntrySize then
                 do { assert_MM (freeEntry = addrBase);
                      assert_MM (nxt = NULL \<or> freeEntry < nxt);
                      Some (True, p \<lparr> mem := setNext freeEntry nxt m \<rparr>) }
               else Some (False, p \<lparr> mem := m \<rparr>)) })"

text \<open>\<open>appendToList\<close> and \<open>insertToList\<close>: the list is given by its head and tail, both updated.\<close>

definition appendToList :: "addr \<Rightarrow> addr \<Rightarrow> nat \<Rightarrow> addr \<Rightarrow> addr \<Rightarrow> mem \<Rightarrow> (bool \<times> addr \<times> addr \<times> mem) option" where
  "appendToList addrBase addrTop minimumSize freeListHead freeListTail m =
     (let freeEntrySize = usub addrTop addrBase
      in do { (freeEntry, m) \<leftarrow> fillWithHoles addrBase freeEntrySize m;
              (if freeEntry \<noteq> NULL \<and> minimumSize \<le> freeEntrySize then
                 (if freeListHead \<noteq> NULL then
                    do { assert_MM (freeListTail < freeEntry);
                         deref freeListTail;
                         Some (True, freeListHead, freeEntry, setNext freeListTail freeEntry m) }
                  else Some (True, freeEntry, freeEntry, m))
               else Some (False, freeListHead, freeListTail, m)) })"

text \<open>The inner loop of \<open>insertToList\<close>; reading the next pointer of \<open>NULL\<close> aborts.\<close>

partial_function (option) insert_search :: "mem \<Rightarrow> addr \<Rightarrow> addr \<Rightarrow> addr option" where
  "insert_search m cur freeEntry =
     (if freeEntry < cur then insert_search m (getNext m cur) freeEntry else Some cur)"

definition insertToList :: "addr \<Rightarrow> addr \<Rightarrow> nat \<Rightarrow> addr \<Rightarrow> addr \<Rightarrow> mem \<Rightarrow> (bool \<times> addr \<times> addr \<times> mem) option" where
  "insertToList addrBase addrTop minimumSize freeListHead freeListTail m =
     (let freeEntrySize = usub addrTop addrBase
      in do { (freeEntry, m) \<leftarrow> fillWithHoles addrBase freeEntrySize m;
              (if freeEntry \<noteq> NULL \<and> minimumSize \<le> freeEntrySize then
                 (if freeListHead \<noteq> NULL then
                    (if freeListTail < freeEntry then
                       do { deref freeListTail;
                            Some (True, freeListHead, freeEntry, setNext freeListTail freeEntry m) }
                     else do { cur \<leftarrow> insert_search m freeListHead freeEntry;
                               deref cur;
                               Some (True, freeListHead, freeListTail,
                                     setNext cur freeEntry (setNext freeEntry (getNext m cur) m)) })
                  else Some (True, freeEntry, freeEntry, m))
               else Some (False, freeListHead, freeListTail, m)) })"

definition createFreeEntry :: "addr \<Rightarrow> addr \<Rightarrow> addr \<Rightarrow> addr \<Rightarrow> pool \<Rightarrow> (bool \<times> pool) option" where
  "createFreeEntry addrBase addrTop previousFreeEntry nextFreeEntry p =
     do { (recycled, p) \<leftarrow> internalRecycleHeapChunk addrBase addrTop nextFreeEntry p;
          (if recycled then
             Some (True, if previousFreeEntry \<noteq> NULL
                         then p \<lparr> mem := setNext previousFreeEntry addrBase (mem p) \<rparr> else p)
           else Some (False, if previousFreeEntry \<noteq> NULL
                             then p \<lparr> mem := setNext previousFreeEntry nextFreeEntry (mem p) \<rparr> else p)) }"

definition createFreeEntry_alone :: "addr \<Rightarrow> addr \<Rightarrow> pool \<Rightarrow> (bool \<times> pool) option" where
  "createFreeEntry_alone addrBase addrTop p = createFreeEntry addrBase addrTop NULL NULL p"

definition abandonHeapChunk :: "addr \<Rightarrow> addr \<Rightarrow> pool \<Rightarrow> (bool \<times> pool) option" where
  "abandonHeapChunk addrBase addrTop p =
     do { assert_MM (addrBase \<le> addrTop); internalRecycleHeapChunk addrBase addrTop NULL p }"

definition abandonTlhHeapChunk :: "addr \<Rightarrow> addr \<Rightarrow> pool \<Rightarrow> pool option" where
  "abandonTlhHeapChunk addrBase addrTop p =
     do { assert_MM (addrBase \<le> addrTop);
          (if addrBase < addrTop then map_option snd (abandonHeapChunk addrBase addrTop p) else Some p) }"

definition canMemoryBeConnectedToPool :: "nat \<Rightarrow> pool \<Rightarrow> bool" where
  "canMemoryBeConnectedToPool sz p \<longleftrightarrow> minimumFreeEntrySize p \<le> sz"

definition connectInnerMemoryToPool :: "addr \<Rightarrow> nat \<Rightarrow> addr \<Rightarrow> pool \<Rightarrow> (bool \<times> pool) option" where
  "connectInnerMemoryToPool address sz previousFreeEntry p =
     (if minimumFreeEntrySize p \<le> sz then
        do { (_, p) \<leftarrow> createFreeEntry address (uadd address sz) previousFreeEntry NULL p; Some (True, p) }
      else Some (False, p))"

definition connectOuterMemoryToPool :: "addr \<Rightarrow> nat \<Rightarrow> addr \<Rightarrow> pool \<Rightarrow> pool option" where
  "connectOuterMemoryToPool address sz nextFreeEntry p =
     do { assert_MM (nextFreeEntry = NULL \<or> address < nextFreeEntry);
          assert_MM (address = NULL \<or> minimumFreeEntrySize p \<le> sz);
          (_, p) \<leftarrow> createFreeEntry address (uadd address sz) NULL nextFreeEntry p;
          Some (if heapFreeList p = NULL then p \<lparr> heapFreeList := nextFreeEntry \<rparr> else p) }"

definition connectFinalMemoryToPool :: "addr \<Rightarrow> nat \<Rightarrow> pool \<Rightarrow> pool option" where
  "connectFinalMemoryToPool address sz p =
     do { assert_MM (address = NULL \<or> minimumFreeEntrySize p \<le> sz);
          (_, p) \<leftarrow> createFreeEntry_alone address (uadd address sz) p;
          Some p }"

definition abandonMemoryInPool :: "addr \<Rightarrow> nat \<Rightarrow> pool \<Rightarrow> pool option" where
  "abandonMemoryInPool address sz p = map_option snd (abandonHeapChunk address (uadd address sz) p)"

text \<open>
  \<open>releaseFreeEntryMemoryPages\<close>: \<open>decommit base size low high\<close> is the answer of
  \<open>MM_Heap::decommitMemory\<close>, \<open>idleMinimumFree\<close> the percentage of pages to keep.
\<close>

definition release_body ::
  "(addr \<Rightarrow> nat \<Rightarrow> addr \<Rightarrow> addr \<Rightarrow> bool) \<Rightarrow> nat \<Rightarrow> nat \<Rightarrow> mem \<Rightarrow> addr \<Rightarrow> nat \<Rightarrow> (nat + nat) option" where
  "release_body decommit pageSize idleMinimumFree m cur released =
     (if pageSize \<le> getSize m cur then
        (let addressBase = roundToCeiling pageSize (uadd cur sizeof_FreeHeader);
             totalFreePagesCount = usub (getSize m cur) (usub addressBase cur) div pageSize
         in if 0 < totalFreePagesCount then
              (let commitPagesCount = (if 0 < idleMinimumFree
                                       then umul totalFreePagesCount idleMinimumFree div 100 else 0);
                   decommitPagesCount = usub totalFreePagesCount commitPagesCount;
                   addressBase = uadd addressBase (umul commitPagesCount pageSize)
               in if 0 < decommitPagesCount \<and>
                     decommit addressBase (umul decommitPagesCount pageSize) NULL (afterEnd m cur)
                  then Some (Inr (uadd released (umul decommitPagesCount pageSize)))
                  else Some (Inr released))
            else Some (Inr released))
      else Some (Inr released))"

definition releaseFreeEntryMemoryPages ::
  "(addr \<Rightarrow> nat \<Rightarrow> addr \<Rightarrow> addr \<Rightarrow> bool) \<Rightarrow> nat \<Rightarrow> nat \<Rightarrow> mem \<Rightarrow> addr \<Rightarrow> nat option" where
  "releaseFreeEntryMemoryPages decommit pageSize idleMinimumFree m freeEntry =
     map_option (case_sum id id) (walk m (release_body decommit pageSize idleMinimumFree m) freeEntry 0)"

end
