(* ===== verification/Pool_Hints.thy ===== *)
theory Pool_Hints
  imports Pool_Base
begin

text \<open>
  The allocation hints of \<open>MM_MemoryPoolAddressOrderedList\<close> (gc/base/MemoryPoolAddressOrderedList.cpp,
  "Hint Functionality").  The eight hint nodes are on the active or the inactive list; nodes are
  never shared, so both lists are HOL lists and a hint is identified by its position.  A hint
  \<open>(size, header)\<close> says that no entry up to and including \<open>header\<close> is larger than \<open>size\<close>.
\<close>

section \<open>Operations\<close>

definition HINT_ELEMENT_COUNT :: nat where
  "HINT_ELEMENT_COUNT = 8"

definition clearHints :: "pool \<Rightarrow> pool" where
  "clearHints p = p \<lparr> hintInactive := rev (hintActive p) @ hintInactive p, hintActive := [], hintLru := 1 \<rparr>"

text \<open>
  \<open>addHint\<close>, the loop over the active hints: hints the new one overrides move to the inactive
  list; the walk stops when the new hint turns out to be redundant (third component).
\<close>

fun addHint_scan :: "addr \<Rightarrow> nat \<Rightarrow> J9ModronAllocateHint list \<Rightarrow> J9ModronAllocateHint list
    \<Rightarrow> J9ModronAllocateHint list \<times> J9ModronAllocateHint list \<times> bool" where
  "addHint_scan freeEntry lookupSize [] inactive = ([], inactive, False)"
| "addHint_scan freeEntry lookupSize (h # hs) inactive =
     (let remove = addHint_scan freeEntry lookupSize hs (h # inactive);
          keep = (let (a, i, r) = addHint_scan freeEntry lookupSize hs inactive in (h # a, i, r))
      in if freeEntry < heapFreeHeader h then
           (if hint_size h \<le> lookupSize then remove else keep)
         else if freeEntry = heapFreeHeader h then
           (if lookupSize < hint_size h then remove else (h # hs, inactive, True))
         else (if lookupSize \<le> hint_size h then remove else keep))"

text \<open>The first active hint with the smallest LRU value.\<close>

definition lru_pos :: "J9ModronAllocateHint list \<Rightarrow> nat" where
  "lru_pos hs = fold (\<lambda>i best. if hint_lru (hs ! i) < hint_lru (hs ! best) then i else best) [1..<length hs] 0"

definition addHint :: "addr \<Rightarrow> nat \<Rightarrow> pool \<Rightarrow> pool option" where
  "addHint freeEntry lookupSize p =
     (let (active, inactive, redundant) = addHint_scan freeEntry lookupSize (hintActive p) (hintInactive p);
          p = p \<lparr> hintActive := active, hintInactive := inactive \<rparr>;
          new = (\<lambda>h. h \<lparr> hint_lru := hintLru p, hint_size := lookupSize, heapFreeHeader := freeEntry \<rparr>)
      in if redundant then Some p
         else case inactive of
             h # hs \<Rightarrow> Some (p \<lparr> hintInactive := hs, hintActive := new h # active, hintLru := uadd (hintLru p) 1 \<rparr>)
           | [] \<Rightarrow>
               (if active = [] then None
                else (let i = lru_pos active
                      in Some (p \<lparr> hintActive := active[i := new (active ! i)], hintLru := uadd (hintLru p) 1 \<rparr>))))"

text \<open>\<open>findHint\<close>: stale hints (below the head of the list) are retired on the way.\<close>

definition stale_hint :: "addr \<Rightarrow> J9ModronAllocateHint \<Rightarrow> bool" where
  "stale_hint freeList h \<longleftrightarrow> freeList = NULL \<or> heapFreeHeader h < freeList"

definition best_hint :: "nat \<Rightarrow> J9ModronAllocateHint list \<Rightarrow> nat option" where
  "best_hint lookupSize hs =
     fold (\<lambda>i best. if hint_size (hs ! i) < lookupSize then
                      (case best of None \<Rightarrow> Some i
                       | Some j \<Rightarrow> if hint_size (hs ! j) < hint_size (hs ! i) then Some i else best)
                    else best) [0..<length hs] None"

definition findHint :: "nat \<Rightarrow> pool \<Rightarrow> J9ModronAllocateHint option \<times> pool" where
  "findHint lookupSize p =
     (let active = filter (\<lambda>h. \<not> stale_hint (heapFreeList p) h) (hintActive p);
          p = p \<lparr> hintInactive := rev (filter (stale_hint (heapFreeList p)) (hintActive p)) @ hintInactive p,
                  hintActive := active \<rparr>
      in case best_hint lookupSize active of
           None \<Rightarrow> (None, p)
         | Some i \<Rightarrow> (let h = (active ! i) \<lparr> hint_lru := hintLru p \<rparr>
                     in (Some h, p \<lparr> hintActive := active[i := h], hintLru := uadd (hintLru p) 1 \<rparr>)))"

definition removeHint :: "addr \<Rightarrow> pool \<Rightarrow> pool" where
  "removeHint freeEntry p =
     p \<lparr> hintInactive := rev (filter (\<lambda>h. heapFreeHeader h = freeEntry) (hintActive p)) @ hintInactive p,
         hintActive := filter (\<lambda>h. heapFreeHeader h \<noteq> freeEntry) (hintActive p) \<rparr>"

text \<open>
  \<open>updateHint\<close> stays on a hint after changing it and looks at it again; when the new entry is
  the old one it never leaves.
\<close>

partial_function (option) updateHint_loop ::
  "addr \<Rightarrow> addr \<Rightarrow> J9ModronAllocateHint list \<Rightarrow> J9ModronAllocateHint list option" where
  "updateHint_loop oldFreeEntry newFreeEntry hs =
     (case hs of [] \<Rightarrow> Some []
      | h # hs' \<Rightarrow>
          (if heapFreeHeader h = oldFreeEntry
           then updateHint_loop oldFreeEntry newFreeEntry (h \<lparr> heapFreeHeader := newFreeEntry \<rparr> # hs')
           else Option.bind (updateHint_loop oldFreeEntry newFreeEntry hs') (\<lambda>r. Some (h # r))))"

definition updateHint :: "addr \<Rightarrow> addr \<Rightarrow> pool \<Rightarrow> pool option" where
  "updateHint oldFreeEntry newFreeEntry p =
     do { hs \<leftarrow> updateHint_loop oldFreeEntry newFreeEntry (hintActive p); Some (p \<lparr> hintActive := hs \<rparr>) }"

definition updateHintsBeyondEntry :: "addr \<Rightarrow> pool \<Rightarrow> pool" where
  "updateHintsBeyondEntry freeEntry p =
     p \<lparr> hintActive := map (\<lambda>h. if freeEntry < heapFreeHeader h then h \<lparr> heapFreeHeader := freeEntry \<rparr> else h)
                         (hintActive p) \<rparr>"

section \<open>Facts about the operations\<close>

lemma updateHint_loop_map:
  assumes "oldE \<noteq> newE"
  shows "updateHint_loop oldE newE hs =
    Some (map (\<lambda>h. if heapFreeHeader h = oldE then h \<lparr> heapFreeHeader := newE \<rparr> else h) hs)"
proof (induction hs)
  case Nil
  then show ?case by (simp add: updateHint_loop.simps)
next
  case (Cons h hs)
  have other: "updateHint_loop oldE newE (g # hs) = Option.bind (updateHint_loop oldE newE hs) (\<lambda>r. Some (g # r))"
    if "heapFreeHeader g \<noteq> oldE" for g
    using that by (subst updateHint_loop.simps) simp
  show ?case
  proof (cases "heapFreeHeader h = oldE")
    case True
    have "updateHint_loop oldE newE (h # hs) = updateHint_loop oldE newE (h \<lparr> heapFreeHeader := newE \<rparr> # hs)"
      using True by (subst updateHint_loop.simps) simp
    with True assms other [of "h \<lparr> heapFreeHeader := newE \<rparr>"] Cons show ?thesis by simp
  qed (use other [of h] Cons in simp)
qed

lemma best_hint_Some:
  assumes "best_hint n hs = Some i"
  shows "i < length hs \<and> hint_size (hs ! i) < n"
proof -
  let ?f = "\<lambda>i best. if hint_size (hs ! i) < n then (case best of None \<Rightarrow> Some i
      | Some j \<Rightarrow> if hint_size (hs ! j) < hint_size (hs ! i) then Some i else best) else best"
  let ?Q = "\<lambda>best. \<forall>j. best = Some j \<longrightarrow> j < length hs \<and> hint_size (hs ! j) < n"
  have "?Q (fold ?f [0..<length hs] None)"
    by (rule fold_invariant [where Q = "\<lambda>i. i < length hs"]) (auto split: option.splits if_splits)
  with assms show ?thesis unfolding best_hint_def by blast
qed

lemma lru_pos_less: "hs \<noteq> [] \<Longrightarrow> lru_pos hs < length hs"
proof -
  assume "hs \<noteq> []"
  let ?f = "\<lambda>i best. if hint_lru (hs ! i) < hint_lru (hs ! best) then i else best"
  have "fold ?f [1..<length hs] 0 < length hs"
    by (rule fold_invariant [where Q = "\<lambda>i. i < length hs"]) (use \<open>hs \<noteq> []\<close> in auto)
  then show ?thesis unfolding lru_pos_def .
qed

lemma addHint_scan_active:
  "addHint_scan e n hs ia = (a, i, r) \<Longrightarrow> set a \<subseteq> set hs \<and> length a + length i = length hs + length ia"
proof (induction hs arbitrary: ia a i r)
  case (Cons h hs)
  obtain a1 i1 r1 where s1: "addHint_scan e n hs (h # ia) = (a1, i1, r1)" by (metis prod_cases3)
  obtain a2 i2 r2 where s2: "addHint_scan e n hs ia = (a2, i2, r2)" by (metis prod_cases3)
  from Cons.IH [OF s1] Cons.IH [OF s2] Cons.prems s1 s2 show ?case
    by (auto simp: Let_def split: if_splits)
qed simp

text \<open>The number of hint nodes never changes.\<close>

definition hint_nodes :: "pool \<Rightarrow> nat" where
  "hint_nodes p = length (hintActive p) + length (hintInactive p)"

lemma clearHints_nodes: "hint_nodes (clearHints p) = hint_nodes p"
  by (simp add: hint_nodes_def clearHints_def)

lemma findHint_nodes: "findHint n p = (h, p') \<Longrightarrow> hint_nodes p' = hint_nodes p"
  using sum_length_filter_compl [of "stale_hint (heapFreeList p)" "hintActive p"]
  by (auto simp: findHint_def hint_nodes_def Let_def split: option.splits)

lemma removeHint_nodes: "hint_nodes (removeHint e p) = hint_nodes p"
  using sum_length_filter_compl [of "\<lambda>h. heapFreeHeader h = e" "hintActive p"]
  by (simp add: removeHint_def hint_nodes_def)

lemma addHint_nodes: "addHint e n p = Some p' \<Longrightarrow> hint_nodes p' = hint_nodes p"
  by (auto simp: addHint_def hint_nodes_def Let_def split: prod.splits if_splits list.splits
      dest!: addHint_scan_active)

lemma addHint_defined: "0 < hint_nodes p \<Longrightarrow> \<exists>p'. addHint e n p = Some p'"
  by (auto simp: addHint_def hint_nodes_def Let_def split: prod.splits list.splits
      dest!: addHint_scan_active)

end
