(* ===== verification/Pool.thy ===== *)
theory Pool
  imports Pool_Hints
begin

text \<open>
  \<open>MM_MemoryPoolAddressOrderedList\<close> (gc/base/MemoryPoolAddressOrderedList.cpp): allocation of objects
  and thread-local heaps, construction of the free list, expansion, contraction, exchange of
  entries with the large object area, and the queries.  Built without \<open>OMR_GC_CONCURRENT_SWEEP\<close>
  (the default), with \<open>OMR_GC_LARGE_OBJECT_AREA\<close>, \<open>OMR_GC_THREAD_LOCAL_HEAP\<close> and
  \<open>OMR_GC_ALLOCATION_TAX\<close>.
\<close>

section \<open>Construction\<close>

text \<open>
  The constructors and \<open>initialize\<close>, for statistics that were created: an empty pool whose hint
  nodes are all inactive.  \<open>storage\<close> is the content of \<open>_hintStorage\<close>.
\<close>

definition pool_initialize :: "nat \<Rightarrow> mem \<Rightarrow> J9ModronAllocateHint list \<Rightarrow> LargeObjectAllocateStats \<Rightarrow> pool" where
  "pool_initialize minSize m storage los =
     \<lparr> mem = m, heapFreeList = NULL, hintActive = [], hintInactive = rev (take HINT_ELEMENT_COUNT storage),
       hintLru = 0, minimumFreeEntrySize = minSize, freeMemorySize = 0, freeEntryCount = 0,
       largestFreeEntry = 0, approximateFreeMemorySize = 0, allocCount = 0, allocBytes = 0,
       lastFreeBytes = 0, allocDiscardedBytes = 0, allocSearchCount = 0, darkMatterBytes = 0,
       darkMatterSamples = 0, lastFreeEntry = NULL, largeObjectAllocateStats = los,
       collectorStatsShared = False \<rparr>"

definition appendCollectorLargeAllocateStats :: "pool \<Rightarrow> pool" where
  "appendCollectorLargeAllocateStats p = p \<lparr> collectorStatsShared := True \<rparr>"

definition mergeFreeEntryAllocateStats :: "pool \<Rightarrow> pool option" where
  "mergeFreeEntryAllocateStats p =
     (let los = largeObjectAllocateStats p
      in do { s \<leftarrow> mergeCountForVeryLargeEntries (freeEntrySizeClassStats los);
              Some (p \<lparr> largeObjectAllocateStats := los \<lparr> freeEntrySizeClassStats := s \<rparr> \<rparr>) })"

section \<open>Recycling a chunk between two entries\<close>

definition recycleHeapChunk_between :: "addr \<Rightarrow> addr \<Rightarrow> addr \<Rightarrow> addr \<Rightarrow> pool \<Rightarrow> (bool \<times> pool) option" where
  "recycleHeapChunk_between addrBase addrTop previousFreeEntry nextFreeEntry p =
     do { assert_MM (addrBase \<le> addrTop);
          assert_MM (nextFreeEntry = NULL \<or> addrTop \<le> nextFreeEntry);
          (recycled, p) \<leftarrow> internalRecycleHeapChunk addrBase addrTop nextFreeEntry p;
          (if recycled then
             (if previousFreeEntry \<noteq> NULL then
                do { assert_MM (previousFreeEntry < addrBase);
                     Some (True, p \<lparr> mem := setNext previousFreeEntry addrBase (mem p) \<rparr>) }
              else Some (True, p \<lparr> heapFreeList := addrBase \<rparr>))
           else if previousFreeEntry \<noteq> NULL then
             do { assert_MM (nextFreeEntry = NULL \<or> previousFreeEntry < nextFreeEntry);
                  Some (False, p \<lparr> mem := setNext previousFreeEntry nextFreeEntry (mem p) \<rparr>) }
           else Some (False, p \<lparr> heapFreeList := nextFreeEntry \<rparr>)) }"

section \<open>Allocation\<close>

definition J9MODRON_ALLOCATION_MANAGER_HINT_MAX_WALK :: nat where
  "J9MODRON_ALLOCATION_MANAGER_HINT_MAX_WALK = 20"

text \<open>
  The search loop of \<open>internalAllocate\<close>.  The loop state is \<open>(largestFreeEntry, candidateHintSize,
  walkCount, previousFreeEntry)\<close>; the loop is left with the entry found in front of it.
\<close>

type_synonym search_state = "nat \<times> nat \<times> nat \<times> addr"

definition alloc_body :: "mem \<Rightarrow> nat \<Rightarrow> addr \<Rightarrow> search_state \<Rightarrow> ((addr \<times> search_state) + search_state) option" where
  "alloc_body m sizeInBytesRequired currentFreeEntry st =
     (let (largest, candidateHintSize, walkCount, previousFreeEntry) = st;
          currentFreeEntrySize = getSize m currentFreeEntry;
          largest = (if largest < currentFreeEntrySize then currentFreeEntrySize else largest)
      in if sizeInBytesRequired \<le> currentFreeEntrySize
         then Some (Inl (currentFreeEntry, largest, candidateHintSize, walkCount, previousFreeEntry))
         else (let candidateHintSize = (if candidateHintSize < currentFreeEntrySize then currentFreeEntrySize
                                        else candidateHintSize);
                   nextFreeEntry = getNext m currentFreeEntry
               in do { assert_MM (nextFreeEntry = NULL \<or> currentFreeEntry < nextFreeEntry);
                       Some (Inr (largest, candidateHintSize, walkCount + 1, currentFreeEntry)) }))"

text \<open>
  The part of \<open>internalAllocate\<close> after an entry was found: statistics, hints, and the
  recycling of what the request leaves of the entry.
\<close>

definition alloc_take :: "nat \<Rightarrow> bool \<Rightarrow> bool \<Rightarrow> addr \<Rightarrow> nat \<Rightarrow> nat \<Rightarrow> addr \<Rightarrow> pool \<Rightarrow> (addr \<times> pool) option" where
  "alloc_take sizeInBytesRequired withStats hintUsed currentFreeEntry candidateHintSize walkCount previousFreeEntry p =
     do { p \<leftarrow> decrementStats (getSize (mem p) currentFreeEntry) p;
          p \<leftarrow> (if J9MODRON_ALLOCATION_MANAGER_HINT_MAX_WALK \<le> walkCount \<or> (1 < walkCount \<and> hintUsed)
                then addHint previousFreeEntry candidateHintSize p else Some p);
          (let p = p \<lparr> freeMemorySize := usub (freeMemorySize p) sizeInBytesRequired,
                       allocCount := uadd (allocCount p) 1,
                       allocBytes := uadd (allocBytes p) sizeInBytesRequired,
                       allocSearchCount := uadd (allocSearchCount p) walkCount \<rparr>;
               recycleEntrySize = usub (getSize (mem p) currentFreeEntry) sizeInBytesRequired;
               recycleEntry = uadd currentFreeEntry sizeInBytesRequired
           in do { (recycled, p) \<leftarrow> recycleHeapChunk_between recycleEntry (uadd recycleEntry recycleEntrySize)
                                      previousFreeEntry (getNext (mem p) currentFreeEntry) p;
                   p \<leftarrow> (if recycled then
                           do { p \<leftarrow> updateHint currentFreeEntry recycleEntry p;
                                incrementStats recycleEntrySize p }
                         else Some (removeHint currentFreeEntry
                                (p \<lparr> freeMemorySize := usub (freeMemorySize p) recycleEntrySize,
                                     freeEntryCount := usub (freeEntryCount p) 1,
                                     allocDiscardedBytes := uadd (allocDiscardedBytes p) recycleEntrySize \<rparr>)));
                   p \<leftarrow> Some (if withStats
                         then p \<lparr> largeObjectAllocateStats :=
                                    los_allocateObject sizeInBytesRequired (largeObjectAllocateStats p) \<rparr>
                         else p);
                   assert_MM (currentFreeEntry \<noteq> NULL);
                   Some (currentFreeEntry, p) }) }"

definition internalAllocate :: "nat \<Rightarrow> bool \<Rightarrow> pool \<Rightarrow> (addr \<times> pool) option" where
  "internalAllocate sizeInBytesRequired withStats p =
     (let (hint, p) = findHint sizeInBytesRequired p;
          (start, candidateHintSize) =
            (case hint of Some h \<Rightarrow> (heapFreeHeader h, hint_size h) | None \<Rightarrow> (heapFreeList p, 0))
      in do { r \<leftarrow> walk (mem p) (alloc_body (mem p) sizeInBytesRequired) start (0, candidateHintSize, 0, NULL);
              (case r of
                 Inr (largest, _, _, _) \<Rightarrow> Some (NULL, p \<lparr> largestFreeEntry := largest \<rparr>)
               | Inl (currentFreeEntry, _, candidateHintSize, walkCount, previousFreeEntry) \<Rightarrow>
                   alloc_take sizeInBytesRequired withStats (hint \<noteq> None) currentFreeEntry candidateHintSize
                     walkCount previousFreeEntry p) })"

text \<open>
  The parts of \<open>MM_AllocateDescription\<close> the pool reads and writes; \<open>newSpace\<close> is the test of the
  subspace's type flags against \<open>MEMORY_TYPE_NEW\<close>.
\<close>

record AllocateDescription =
  contiguousBytes :: nat
  bytesRequested :: nat
  allocationTaxSize :: nat
  tlhAllocation :: bool
  nurseryAllocation :: bool
  poolIsSet :: bool

definition describe_allocation :: "bool \<Rightarrow> bool \<Rightarrow> AllocateDescription \<Rightarrow> AllocateDescription" where
  "describe_allocation tlh newSpace d =
     d \<lparr> tlhAllocation := tlh, nurseryAllocation := newSpace, poolIsSet := True \<rparr>"

definition pool_allocateObject ::
  "bool \<Rightarrow> bool \<Rightarrow> AllocateDescription \<Rightarrow> pool \<Rightarrow> (addr \<times> AllocateDescription \<times> pool) option" where
  "pool_allocateObject payAllocationTax newSpace d p =
     do { (addr, p) \<leftarrow> internalAllocate (contiguousBytes d) True p;
          Some (addr,
                if addr \<noteq> NULL then
                  describe_allocation False newSpace
                    (if payAllocationTax then d \<lparr> allocationTaxSize := bytesRequested d \<rparr> else d)
                else d, p) }"

definition pool_collectorAllocate ::
  "bool \<Rightarrow> AllocateDescription \<Rightarrow> pool \<Rightarrow> (addr \<times> AllocateDescription \<times> pool) option" where
  "pool_collectorAllocate newSpace d p =
     do { (addr, p) \<leftarrow> internalAllocate (contiguousBytes d) (collectorStatsShared p) p;
          Some (addr, if addr \<noteq> NULL then describe_allocation False newSpace d else d, p) }"

text \<open>\<open>internalAllocateTLH\<close>: the range handed out, or \<open>None\<close> inside when the pool is empty.\<close>

definition internalAllocateTLH :: "nat \<Rightarrow> bool \<Rightarrow> pool \<Rightarrow> ((addr \<times> addr) option \<times> pool) option" where
  "internalAllocateTLH maximumSizeInBytesRequired withStats p =
     (let freeEntry = heapFreeList p
      in if freeEntry = NULL then Some (None, p \<lparr> largestFreeEntry := 0 \<rparr>)
         else
           (let freeEntrySize = getSize (mem p) freeEntry
            in do { assert_MM (minimumFreeEntrySize p \<le> freeEntrySize);
                    p \<leftarrow> decrementStats freeEntrySize p;
                    (let consumedSize = (if freeEntrySize < maximumSizeInBytesRequired then freeEntrySize
                                         else maximumSizeInBytesRequired);
                         recycleEntrySize = usub freeEntrySize consumedSize;
                         (consumedSize, recycleEntrySize) =
                           (if recycleEntrySize \<noteq> 0 \<and> recycleEntrySize < minimumFreeEntrySize p
                            then (uadd consumedSize recycleEntrySize, 0) else (consumedSize, recycleEntrySize));
                         p = p \<lparr> freeMemorySize := usub (freeMemorySize p) consumedSize,
                                 allocCount := uadd (allocCount p) 1,
                                 allocBytes := uadd (allocBytes p) consumedSize \<rparr>
                     in do { p \<leftarrow> (if withStats then
                                      do { los \<leftarrow> incrementTlhAllocSizeClassStats consumedSize (largeObjectAllocateStats p);
                                           Some (p \<lparr> largeObjectAllocateStats := los \<rparr>) }
                                    else Some p);
                             (let addrBase = freeEntry; addrTop = uadd addrBase consumedSize;
                                  entryNext = getNext (mem p) freeEntry
                              in do { p \<leftarrow> (if 0 < recycleEntrySize then
                                        do { (recycled, p) \<leftarrow> recycleHeapChunk_between addrTop
                                               (uadd addrTop recycleEntrySize) NULL entryNext p;
                                             (if recycled then incrementStats recycleEntrySize p
                                              else Some (p \<lparr> freeMemorySize := usub (freeMemorySize p) recycleEntrySize,
                                                     freeEntryCount := usub (freeEntryCount p) 1,
                                                     allocDiscardedBytes := uadd (allocDiscardedBytes p) recycleEntrySize \<rparr>)) }
                                      else Some (p \<lparr> heapFreeList := entryNext,
                                                     freeEntryCount := usub (freeEntryCount p) 1 \<rparr>));
                                      Some (Some (addrBase, addrTop), p) }) }) }))"

definition pool_allocateTLH :: "bool \<Rightarrow> bool \<Rightarrow> nat \<Rightarrow> AllocateDescription \<Rightarrow> pool
    \<Rightarrow> ((addr \<times> addr) option \<times> AllocateDescription \<times> pool) option" where
  "pool_allocateTLH payAllocationTax newSpace maximumSizeInBytesRequired d p =
     do { (r, p) \<leftarrow> internalAllocateTLH maximumSizeInBytesRequired True p;
          Some (r, (case r of
                      Some (addrBase, addrTop) \<Rightarrow>
                        (if addrBase \<noteq> NULL then
                           describe_allocation True newSpace
                             (if payAllocationTax then d \<lparr> allocationTaxSize := usub addrTop addrBase \<rparr> else d)
                         else d)
                    | None \<Rightarrow> d), p) }"

definition pool_collectorAllocateTLH :: "bool \<Rightarrow> nat \<Rightarrow> AllocateDescription \<Rightarrow> pool
    \<Rightarrow> ((addr \<times> addr) option \<times> AllocateDescription \<times> pool) option" where
  "pool_collectorAllocateTLH newSpace maximumSizeInBytesRequired d p =
     do { (r, p) \<leftarrow> internalAllocateTLH maximumSizeInBytesRequired (collectorStatsShared p) p;
          Some (r, if r \<noteq> None then describe_allocation True newSpace d else d, p) }"

section \<open>Free list building\<close>

definition pool_reset :: "pool \<Rightarrow> pool option" where
  "pool_reset p =
     (let p = (clearHints (memoryPool_reset p)) \<lparr> heapFreeList := NULL, lastFreeEntry := NULL \<rparr>
      in do { los \<leftarrow> resetFreeEntryAllocateStats (largeObjectAllocateStats p);
              Some (p \<lparr> largeObjectAllocateStats := resetLargeObjectAllocateStats los \<rparr>) })"

text \<open>\<open>rebuildFreeListInRegion\<close>: the region is given by its bounds and its size.\<close>

definition rebuildFreeListInRegion :: "addr \<Rightarrow> addr \<Rightarrow> nat \<Rightarrow> addr \<Rightarrow> pool \<Rightarrow> (addr \<times> pool) option" where
  "rebuildFreeListInRegion rangeBase rangeTop rangeSize previousFreeEntry p =
     do { p \<leftarrow> pool_reset p;
          (created, p) \<leftarrow> createFreeEntry rangeBase rangeTop previousFreeEntry NULL p;
          (if created then
             do { p \<leftarrow> incrementStats rangeSize
                    (p \<lparr> freeMemorySize := rangeSize, freeEntryCount := 1, heapFreeList := rangeBase \<rparr>);
                  Some (rangeBase, p) }
           else Some (NULL, p)) }"

definition isValidListOrdering :: "pool \<Rightarrow> bool option" where
  "isValidListOrdering p =
     map_option (case_sum id (\<lambda>_. True))
       (walk (mem p) (\<lambda>w (_ :: unit). if getNext (mem p) w \<noteq> NULL \<and> getNext (mem p) w \<le> w
                                      then Some (Inl False) else Some (Inr ())) (heapFreeList p) ())"

text \<open>The entries before and after an address: \<open>(previousFreeEntry, nextFreeEntry)\<close>.\<close>

definition find_neighbours :: "mem \<Rightarrow> addr \<Rightarrow> addr \<Rightarrow> (addr \<times> addr) option" where
  "find_neighbours m lowAddress freeList =
     map_option (case_sum id (\<lambda>prev. (prev, NULL)))
       (walk m (\<lambda>e prev. if lowAddress < e then Some (Inl (prev, e)) else Some (Inr e)) freeList NULL)"

definition expandWithRange :: "nat \<Rightarrow> addr \<Rightarrow> addr \<Rightarrow> bool \<Rightarrow> pool \<Rightarrow> pool option" where
  "expandWithRange expSize lowAddress highAddress canCoalesce p =
     (if expSize = 0 then Some p
      else if expSize < minimumFreeEntrySize p then map_option snd (abandonHeapChunk lowAddress highAddress p)
      else do {
        (previousFreeEntry, nextFreeEntry) \<leftarrow> find_neighbours (mem p) lowAddress (heapFreeList p);
        (if canCoalesce \<and> previousFreeEntry \<noteq> NULL \<and> lowAddress = afterEnd (mem p) previousFreeEntry then
           do { p \<leftarrow> decrementStats (getSize (mem p) previousFreeEntry) p;
                p \<leftarrow> Some (p \<lparr> mem := expandSize previousFreeEntry expSize (mem p),
                               freeMemorySize := uadd (freeMemorySize p) expSize \<rparr>);
                incrementStats (getSize (mem p) previousFreeEntry) p }
         else if canCoalesce \<and> nextFreeEntry \<noteq> NULL \<and> highAddress = nextFreeEntry then
           do { p \<leftarrow> decrementStats (getSize (mem p) nextFreeEntry) p;
                m \<leftarrow> Some (setNext lowAddress (getNext (mem p) nextFreeEntry) (mem p));
                m \<leftarrow> Some (setSize lowAddress (uadd expSize (getSize m nextFreeEntry)) m);
                p \<leftarrow> Some (if previousFreeEntry \<noteq> NULL
                            then p \<lparr> mem := setNext previousFreeEntry lowAddress m \<rparr>
                            else p \<lparr> mem := m, heapFreeList := lowAddress \<rparr>);
                p \<leftarrow> Some (p \<lparr> freeMemorySize := uadd (freeMemorySize p) expSize \<rparr>);
                incrementStats (getSize (mem p) lowAddress) p }
         else
           do { m \<leftarrow> Some (setSize lowAddress expSize (setNext lowAddress nextFreeEntry (mem p)));
                p \<leftarrow> Some (if previousFreeEntry \<noteq> NULL
                            then p \<lparr> mem := setNext previousFreeEntry lowAddress m \<rparr>
                            else p \<lparr> mem := m, heapFreeList := lowAddress \<rparr>);
                p \<leftarrow> incrementStats expSize
                      (p \<lparr> freeMemorySize := uadd (freeMemorySize p) expSize,
                           freeEntryCount := uadd (freeEntryCount p) 1 \<rparr>);
                Some (if largestFreeEntry p < getSize (mem p) lowAddress
                      then p \<lparr> largestFreeEntry := getSize (mem p) lowAddress \<rparr> else p) }) })"

text \<open>Subtracting a signed count from an unsigned one.\<close>

definition usub_signed :: "nat \<Rightarrow> int \<Rightarrow> nat" where
  "usub_signed a b = nat ((int a - b) mod int UMAX)"

text \<open>
  \<open>contractWithRange\<close>; the loop ends at \<open>NULL\<close> when no entry encloses the range, and the next
  statement then reads through it.
\<close>

definition find_enclosing :: "mem \<Rightarrow> addr \<Rightarrow> addr \<Rightarrow> addr \<Rightarrow> (addr \<times> addr) option" where
  "find_enclosing m lowAddress highAddress freeList =
     map_option (case_sum id (\<lambda>prev. (prev, NULL)))
       (walk m (\<lambda>e prev. if e \<le> lowAddress \<and> highAddress \<le> afterEnd m e then Some (Inl (prev, e)) else Some (Inr e))
          freeList NULL)"

definition contractWithRange :: "nat \<Rightarrow> addr \<Rightarrow> addr \<Rightarrow> pool \<Rightarrow> (addr \<times> pool) option" where
  "contractWithRange contractSize lowAddress highAddress p =
     (if contractSize = 0 then Some (NULL, p)
      else do {
        (previousFreeEntry, currentFreeEntry) \<leftarrow> find_enclosing (mem p) lowAddress highAddress (heapFreeList p);
        deref currentFreeEntry;
        p \<leftarrow> decrementStats (getSize (mem p) currentFreeEntry) p;
        (let nextFreeEntry = getNext (mem p) currentFreeEntry;
             currentFreeEntryTop = afterEnd (mem p) currentFreeEntry
         in do {
           (nextFreeEntry, contractCount, totalContractSize, p) \<leftarrow>
             (if currentFreeEntryTop \<noteq> highAddress then
                do { (created, p) \<leftarrow> createFreeEntry highAddress currentFreeEntryTop NULL nextFreeEntry p;
                     (if created then
                        do { p \<leftarrow> incrementStats (getSize (mem p) highAddress) p;
                             Some (highAddress, 0 :: int, contractSize, p) }
                      else Some (nextFreeEntry, 1, uadd contractSize (usub currentFreeEntryTop highAddress), p)) }
              else Some (nextFreeEntry, 1, contractSize, p));
           (nextFreeEntry, contractCount, totalContractSize, p) \<leftarrow>
             (if currentFreeEntry \<noteq> lowAddress then
                do { (created, p) \<leftarrow> createFreeEntry currentFreeEntry lowAddress NULL nextFreeEntry p;
                     (if created then
                        do { p \<leftarrow> incrementStats (getSize (mem p) currentFreeEntry) p;
                             Some (currentFreeEntry, contractCount - 1, totalContractSize, p) }
                      else Some (nextFreeEntry, contractCount,
                                 uadd totalContractSize (usub lowAddress currentFreeEntry), p)) }
              else Some (nextFreeEntry, contractCount, totalContractSize, p));
           p \<leftarrow> Some (if previousFreeEntry \<noteq> NULL
                       then p \<lparr> mem := setNext previousFreeEntry nextFreeEntry (mem p) \<rparr>
                       else p \<lparr> heapFreeList := nextFreeEntry \<rparr>);
           Some (lowAddress, p \<lparr> freeMemorySize := usub (freeMemorySize p) totalContractSize,
                                 freeEntryCount := usub_signed (freeEntryCount p) contractCount \<rparr>) }) })"

text \<open>\<open>addFreeEntries\<close>: the list from \<open>freeListHead\<close> to \<open>freeListTail\<close> joins the pool.\<close>

definition addFreeEntries :: "addr \<Rightarrow> addr \<Rightarrow> nat \<Rightarrow> nat \<Rightarrow> pool \<Rightarrow> pool option" where
  "addFreeEntries freeListHead freeListTail freeListMemoryCount freeListMemorySize p =
     do { p \<leftarrow> map_option (case_sum id id)
                 (walk (mem p) (\<lambda>e q. map_option Inr (incrementStats (getSize (mem q) e) q)) freeListHead p);
          (previousFreeEntry, _) \<leftarrow> find_neighbours (mem p) freeListHead (heapFreeList p);
          (if previousFreeEntry = NULL then
             do { deref freeListTail;
                  (if afterEnd (mem p) freeListTail = heapFreeList p then
                     do { deref (heapFreeList p);
                          p \<leftarrow> decrementStats (getSize (mem p) (heapFreeList p)) p;
                          p \<leftarrow> decrementStats (getSize (mem p) freeListTail) p;
                          m \<leftarrow> Some (expandSize freeListTail (getSize (mem p) (heapFreeList p)) (mem p));
                          m \<leftarrow> Some (setNext freeListTail (getNext m (heapFreeList p)) m);
                          p \<leftarrow> incrementStats (getSize m freeListTail) (p \<lparr> mem := m \<rparr>);
                          Some (p \<lparr> heapFreeList := freeListHead,
                                    freeMemorySize := uadd (freeMemorySize p) freeListMemorySize,
                                    freeEntryCount := uadd (freeEntryCount p) (usub freeListMemoryCount 1) \<rparr>) }
                   else Some (p \<lparr> mem := setNext freeListTail (heapFreeList p) (mem p),
                                  heapFreeList := freeListHead,
                                  freeMemorySize := uadd (freeMemorySize p) freeListMemorySize,
                                  freeEntryCount := uadd (freeEntryCount p) freeListMemoryCount \<rparr>)) }
           else
             do { deref freeListTail;
                  p \<leftarrow> Some (p \<lparr> mem := setNext freeListTail (getNext (mem p) previousFreeEntry) (mem p) \<rparr>);
                  (if afterEnd (mem p) previousFreeEntry = freeListHead then
                     do { deref freeListHead;
                          p \<leftarrow> decrementStats (getSize (mem p) freeListHead) p;
                          p \<leftarrow> decrementStats (getSize (mem p) previousFreeEntry) p;
                          m \<leftarrow> Some (expandSize previousFreeEntry (getSize (mem p) freeListHead) (mem p));
                          m \<leftarrow> Some (setNext previousFreeEntry (getNext m freeListHead) m);
                          p \<leftarrow> incrementStats (getSize m previousFreeEntry) (p \<lparr> mem := m \<rparr>);
                          Some (p \<lparr> freeMemorySize := uadd (freeMemorySize p) freeListMemorySize,
                                    freeEntryCount := uadd (freeEntryCount p) (usub freeListMemoryCount 1) \<rparr>) }
                   else Some (p \<lparr> mem := setNext previousFreeEntry freeListHead (mem p),
                                  freeMemorySize := uadd (freeMemorySize p) freeListMemorySize,
                                  freeEntryCount := uadd (freeEntryCount p) freeListMemoryCount \<rparr>)) }) }"

text \<open>
  \<open>removeFreeEntriesWithinRange\<close>.  The list that is returned and the bytes and entries removed are
  kept in one record; \<open>appendReturned\<close> is the call of \<open>appendToList\<close> with its accounting.
\<close>

record removal =
  retListHead :: addr
  retListTail :: addr
  retListMemoryCount :: nat
  retListMemorySize :: nat
  removeSize :: nat
  removeCount :: int

definition appendReturned :: "addr \<Rightarrow> addr \<Rightarrow> nat \<Rightarrow> nat \<Rightarrow> removal \<Rightarrow> pool \<Rightarrow> (removal \<times> pool) option" where
  "appendReturned baseAddr topAddr minimumSize sz r p =
     do { (added, h, t, m) \<leftarrow> appendToList baseAddr topAddr minimumSize (retListHead r) (retListTail r) (mem p);
          Some ((if added
                 then r \<lparr> retListMemoryCount := uadd (retListMemoryCount r) 1,
                          retListMemorySize := uadd (retListMemorySize r) sz \<rparr> else r)
                  \<lparr> retListHead := h, retListTail := t \<rparr>, p \<lparr> mem := m \<rparr>) }"

text \<open>The loop over the whole entries inside the range: \<open>(currentFreeEntry, removal, pool)\<close> at its end.\<close>

partial_function (option) remove_whole ::
  "addr \<Rightarrow> nat \<Rightarrow> addr \<Rightarrow> removal \<Rightarrow> pool \<Rightarrow> (addr \<times> removal \<times> pool) option" where
  "remove_whole highAddress minimumSize cur r p =
     (if cur \<noteq> NULL \<and> afterEnd (mem p) cur \<le> highAddress then
        (let tailFreeEntry = getNext (mem p) cur
         in Option.bind (appendReturned cur (afterEnd (mem p) cur) minimumSize (getSize (mem p) cur) r p)
           (\<lambda>(r, p). Option.bind (decrementStats (getSize (mem p) cur) p)
              (\<lambda>p'. remove_whole highAddress minimumSize tailFreeEntry
                (r \<lparr> removeSize := uadd (removeSize r) (getSize (mem p) cur), removeCount := removeCount r + 1 \<rparr>) p')))
      else Some (cur, r, p))"

definition find_overlap :: "mem \<Rightarrow> addr \<Rightarrow> addr \<Rightarrow> (addr \<times> addr) option" where
  "find_overlap m lowAddress freeList =
     map_option (case_sum id (\<lambda>prev. (prev, NULL)))
       (walk m (\<lambda>e prev. if lowAddress \<le> e \<or> lowAddress < afterEnd m e then Some (Inl (prev, e)) else Some (Inr e))
          freeList NULL)"

text \<open>A piece of an entry that stays in the pool, after \<open>previousFreeEntry\<close>: \<open>(previousFreeEntry', removal, pool)\<close>.\<close>

definition keep_piece :: "addr \<Rightarrow> addr \<Rightarrow> addr \<Rightarrow> removal \<Rightarrow> pool \<Rightarrow> (addr \<times> removal \<times> pool) option" where
  "keep_piece base chunkTop previousFreeEntry r p =
     do { (created, p) \<leftarrow> createFreeEntry base chunkTop previousFreeEntry NULL p;
          (if created then
             (let sz = usub chunkTop base;
                  p = (if previousFreeEntry = NULL then p \<lparr> heapFreeList := base \<rparr>
                       else p \<lparr> mem := setNext previousFreeEntry base (mem p) \<rparr>)
              in do { p \<leftarrow> incrementStats sz p;
                      Some (base, r \<lparr> removeSize := usub (removeSize r) sz, removeCount := removeCount r - 1 \<rparr>, p) })
           else Some (previousFreeEntry, r, p)) }"

definition removeFreeEntriesWithinRange :: "addr \<Rightarrow> addr \<Rightarrow> nat \<Rightarrow> pool \<Rightarrow> (bool \<times> removal \<times> pool) option" where
  "removeFreeEntriesWithinRange lowAddress highAddress minimumSize p =
     (let r = \<lparr> retListHead = NULL, retListTail = NULL, retListMemoryCount = 0, retListMemorySize = 0,
                removeSize = 0, removeCount = 0 \<rparr>
      in do {
        (previousFreeEntry, currentFreeEntry) \<leftarrow> find_overlap (mem p) lowAddress (heapFreeList p);
        (if currentFreeEntry = NULL \<or> highAddress \<le> currentFreeEntry then Some (False, r, p)
         else
           (let nextFreeEntry = getNext (mem p) currentFreeEntry;
                currentFreeEntryTop = afterEnd (mem p) currentFreeEntry;
                r = r \<lparr> removeSize := getSize (mem p) currentFreeEntry, removeCount := 1 \<rparr>
            in do {
              p \<leftarrow> decrementStats (getSize (mem p) currentFreeEntry) p;
              (previousFreeEntry, r, p) \<leftarrow>
                (if currentFreeEntry < lowAddress then keep_piece currentFreeEntry lowAddress previousFreeEntry r p
                 else Some (previousFreeEntry, r, p));
              baseAddr \<leftarrow> Some (if currentFreeEntry < lowAddress then lowAddress else currentFreeEntry);
              (previousFreeEntry, r, p) \<leftarrow>
                (if highAddress < currentFreeEntryTop then keep_piece highAddress currentFreeEntryTop previousFreeEntry r p
                 else Some (previousFreeEntry, r, p));
              topAddr \<leftarrow> Some (if highAddress < currentFreeEntryTop then highAddress else currentFreeEntryTop);
              (r, p) \<leftarrow> appendReturned baseAddr topAddr minimumSize (usub topAddr baseAddr) r p;
              (cur, r, p) \<leftarrow> remove_whole highAddress minimumSize nextFreeEntry r p;
              (tailFreeEntry, r, p) \<leftarrow>
                (if cur \<noteq> NULL \<and> cur < highAddress then
                   (let r = r \<lparr> removeSize := uadd (removeSize r) (getSize (mem p) cur), removeCount := removeCount r + 1 \<rparr>;
                        tailFreeEntry = getNext (mem p) cur; chunkTop = afterEnd (mem p) cur
                    in do {
                      p \<leftarrow> decrementStats (getSize (mem p) cur) p;
                      (created, p) \<leftarrow> createFreeEntry highAddress chunkTop previousFreeEntry tailFreeEntry p;
                      (tailFreeEntry, r, p) \<leftarrow>
                        (if created then
                           (let sz = usub chunkTop highAddress;
                                p = (if previousFreeEntry = NULL then p \<lparr> heapFreeList := highAddress \<rparr> else p)
                            in do { p \<leftarrow> incrementStats sz p;
                                    Some (highAddress, r \<lparr> removeSize := usub (removeSize r) sz,
                                                           removeCount := removeCount r - 1 \<rparr>, p) })
                         else Some (tailFreeEntry, r, p));
                      (r, p) \<leftarrow> appendReturned cur highAddress minimumSize (usub highAddress cur) r p;
                      Some (tailFreeEntry, r, p) })
                 else Some (cur, r, p));
              p \<leftarrow> Some (if previousFreeEntry \<noteq> NULL
                          then p \<lparr> mem := setNext previousFreeEntry tailFreeEntry (mem p) \<rparr>
                          else p \<lparr> heapFreeList := tailFreeEntry \<rparr>);
              Some (True, r, p \<lparr> freeMemorySize := usub (freeMemorySize p) (removeSize r),
                                 freeEntryCount := usub_signed (freeEntryCount p) (removeCount r) \<rparr>) })) })"

section \<open>Queries and moves\<close>

text \<open>\<open>findAddressAfterFreeSize\<close>: the loop state is \<open>remainingBytesNeeded\<close>.\<close>

definition afterFreeSize_body :: "mem \<Rightarrow> nat \<Rightarrow> nat \<Rightarrow> addr \<Rightarrow> nat \<Rightarrow> (addr + nat) option" where
  "afterFreeSize_body m minEntry minimumSize cur needed =
     (let needed = (if needed < minimumSize then minimumSize else needed); sz = getSize m cur
      in if sz \<le> needed then
           (if minimumSize \<le> sz then
              (if needed - sz = 0 then Some (Inl (afterEnd m cur)) else Some (Inr (needed - sz)))
            else Some (Inr needed))
         else if sz - needed < minEntry then Some (Inl (afterEnd m cur))
         else Some (Inl (uadd cur needed)))"

definition findAddressAfterFreeSize :: "nat \<Rightarrow> nat \<Rightarrow> pool \<Rightarrow> addr option" where
  "findAddressAfterFreeSize sizeRequired minimumSize p =
     map_option (case_sum id (\<lambda>_. NULL))
       (walk (mem p) (afterFreeSize_body (mem p) (minimumFreeEntrySize p) minimumSize) (heapFreeList p) sizeRequired)"

definition findFreeEntryEndingAtAddr :: "addr \<Rightarrow> pool \<Rightarrow> addr option" where
  "findFreeEntryEndingAtAddr addr p =
     map_option (case_sum id (\<lambda>_. NULL))
       (walk (mem p) (\<lambda>e (_ :: unit). if afterEnd (mem p) e = addr then Some (Inl e) else Some (Inr ()))
          (heapFreeList p) ())"

text \<open>The allocation description is \<open>NULL\<close> (\<open>None\<close>) or gives the contiguous bytes of a request.\<close>

definition getAvailableContractionSizeForRangeEndingAt :: "nat option \<Rightarrow> addr \<Rightarrow> addr \<Rightarrow> pool \<Rightarrow> nat option" where
  "getAvailableContractionSizeForRangeEndingAt allocDescription lowAddr highAddr p =
     do { lastFree \<leftarrow> findFreeEntryEndingAtAddr highAddr p;
          (if lastFree = NULL then Some 0
           else (let availableContractSize = getSize (mem p) lastFree;
                     allocSize = (case allocDescription of Some n \<Rightarrow> n | None \<Rightarrow> 0)
                 in Some (if allocSize \<noteq> 0 \<and> allocSize \<le> availableContractSize
                          then availableContractSize - allocSize else availableContractSize))) }"

definition findFreeEntryTopStartingAtAddr :: "addr \<Rightarrow> pool \<Rightarrow> addr option" where
  "findFreeEntryTopStartingAtAddr addr p =
     map_option (case_sum id (\<lambda>_. NULL))
       (walk (mem p) (\<lambda>e (_ :: unit). if e = addr then Some (Inl (afterEnd (mem p) e))
                                     else if addr < e then Some (Inl NULL) else Some (Inr ()))
          (heapFreeList p) ())"

definition getFirstFreeStartingAddr :: "pool \<Rightarrow> addr" where
  "getFirstFreeStartingAddr p = heapFreeList p"

definition getNextFreeStartingAddr :: "addr \<Rightarrow> pool \<Rightarrow> addr option" where
  "getNextFreeStartingAddr currentFree p = do { deref currentFree; Some (getNext (mem p) currentFree) }"

text \<open>\<open>moveHeap\<close> rewrites the links to entries inside the moved range while it walks the list.\<close>

partial_function (option) moveHeap_loop :: "addr \<Rightarrow> addr \<Rightarrow> addr \<Rightarrow> addr \<Rightarrow> addr \<Rightarrow> pool \<Rightarrow> pool option" where
  "moveHeap_loop srcBase srcTop dstBase previousFreeEntry currentFreeEntry p =
     (if currentFreeEntry = NULL then Some p
      else
        (let newFreeEntry = uadd (usub currentFreeEntry srcBase) dstBase;
             p = (if srcBase \<le> currentFreeEntry \<and> currentFreeEntry < srcTop then
                    (if previousFreeEntry \<noteq> NULL
                     then p \<lparr> mem := setNext previousFreeEntry newFreeEntry (mem p) \<rparr>
                     else p \<lparr> heapFreeList := newFreeEntry \<rparr>)
                  else p)
         in moveHeap_loop srcBase srcTop dstBase currentFreeEntry (getNext (mem p) currentFreeEntry) p))"

definition moveHeap :: "addr \<Rightarrow> addr \<Rightarrow> addr \<Rightarrow> pool \<Rightarrow> pool option" where
  "moveHeap srcBase srcTop dstBase p = moveHeap_loop srcBase srcTop dstBase NULL (heapFreeList p) p"

text \<open>\<open>recycleHeapChunk\<close> of a chunk: the search for its place, and the accounting.\<close>

definition recycle_place :: "mem \<Rightarrow> addr \<Rightarrow> addr \<Rightarrow> (addr \<times> addr) option" where
  "recycle_place m chunkBase freeList =
     map_option (case_sum id (\<lambda>_. (NULL, NULL)))
       (walk m (\<lambda>cur (_ :: unit).
           let nxt = getNext m cur
           in if nxt = NULL then Some (Inl (cur, NULL))
              else if chunkBase < nxt then Some (Inl (cur, nxt))
              else Some (Inr ())) freeList ())"

definition recycleHeapChunk :: "addr \<Rightarrow> addr \<Rightarrow> pool \<Rightarrow> (bool \<times> pool) option" where
  "recycleHeapChunk chunkBase chunkTop p =
     do { (recycled, p) \<leftarrow>
            (if heapFreeList p = NULL \<or> chunkBase < heapFreeList p
             then recycleHeapChunk_between chunkBase chunkTop NULL (heapFreeList p) p
             else do { (cur, nxt) \<leftarrow> recycle_place (mem p) chunkBase (heapFreeList p);
                       recycleHeapChunk_between chunkBase chunkTop cur nxt p });
          (if recycled then
             (let chunkSize = usub chunkTop chunkBase
              in do { p \<leftarrow> incrementStats chunkSize
                        (p \<lparr> freeMemorySize := uadd (freeMemorySize p) chunkSize,
                             freeEntryCount := uadd (freeEntryCount p) 1 \<rparr>);
                      Some (True, p) })
           else Some (False, p)) }"

definition list_totals :: "mem \<Rightarrow> addr \<Rightarrow> (nat \<times> nat \<times> nat) option" where
  "list_totals m freeList =
     map_option (case_sum id id)
       (walk m (\<lambda>e (freeBytes, freeCount, largestFree).
           Some (Inr (uadd freeBytes (getSize m e), uadd freeCount 1, max largestFree (getSize m e))))
          freeList (0, 0, 0))"

definition isMemoryPoolValid :: "bool \<Rightarrow> pool \<Rightarrow> bool option" where
  "isMemoryPoolValid postCollect p =
     do { (freeBytes, freeCount, largestFree) \<leftarrow> list_totals (mem p) (heapFreeList p);
          Some (freeBytes = freeMemorySize p \<and> freeCount = freeEntryCount p \<and>
                (postCollect \<or> largestFree = largestFreeEntry p)) }"

definition getCurrentLargestFree :: "pool \<Rightarrow> nat option" where
  "getCurrentLargestFree p =
     map_option (case_sum id id)
       (walk (mem p) (\<lambda>e largestFree. Some (Inr (max largestFree (getSize (mem p) e)))) (heapFreeList p) 0)"

definition getCurrentFreeMemorySize :: "pool \<Rightarrow> nat option" where
  "getCurrentFreeMemorySize p =
     map_option (case_sum id id)
       (walk (mem p) (\<lambda>e currentFree. Some (Inr (uadd currentFree (getSize (mem p) e)))) (heapFreeList p) 0)"

text \<open>
  \<open>recalculateMemoryPoolStatistics\<close> advances to the next entry before it reads the size to
  count, so the size is read through the next pointer.
\<close>

definition recalculate_body :: "addr \<Rightarrow> (nat \<times> nat \<times> nat \<times> pool)
    \<Rightarrow> (unit + (nat \<times> nat \<times> nat \<times> pool)) option" where
  "recalculate_body freeHeader st =
     (let (largest, freeBytes, entries, p) = st; sz = getSize (mem p) freeHeader; nxt = getNext (mem p) freeHeader
      in do { deref nxt;
              p \<leftarrow> incrementStats (getSize (mem p) nxt) p;
              Some (Inr (if largest < sz then sz else largest, uadd freeBytes sz, uadd entries 1, p)) })"

definition recalculateMemoryPoolStatistics :: "pool \<Rightarrow> pool option" where
  "recalculateMemoryPoolStatistics p =
     (let los = largeObjectAllocateStats p;
          p = p \<lparr> largeObjectAllocateStats :=
                    los \<lparr> freeEntrySizeClassStats := resetCounts (freeEntrySizeClassStats los) \<rparr> \<rparr>
      in do { r \<leftarrow> walk (mem p) recalculate_body (getFirstFreeStartingAddr p) (0, 0, 0, p);
              (case r of Inl _ \<Rightarrow> None
               | Inr (largest, freeBytes, entries, p) \<Rightarrow> Some (updateMemoryPoolStatistics freeBytes entries largest p)) })"

definition releaseFreeMemoryPages ::
  "(addr \<Rightarrow> nat \<Rightarrow> addr \<Rightarrow> addr \<Rightarrow> bool) \<Rightarrow> nat \<Rightarrow> nat \<Rightarrow> pool \<Rightarrow> nat option" where
  "releaseFreeMemoryPages decommit pageSize idleMinimumFree p =
     releaseFreeEntryMemoryPages decommit pageSize idleMinimumFree (mem p) (heapFreeList p)"

end
