(* ===== verification/Pool_Alloc.thy ===== *)
theory Pool_Alloc
  imports Pool
begin

text \<open>
  The free list of \<open>Pool\<close> under recycling and allocation: an allocation that uses hints is
  first fit on the list of entries, keeps the list well formed, the counters exact and the hints
  sound, and hands out memory that no other free entry covers.
\<close>

section \<open>Recycling a chunk\<close>

text \<open>Two memories that differ inside \<open>[lo, hi)\<close> only.\<close>

definition agree_outside :: "addr \<Rightarrow> addr \<Rightarrow> mem \<Rightarrow> mem \<Rightarrow> bool" where
  "agree_outside lo hi m m' \<longleftrightarrow> (\<forall>w. w < lo \<or> hi \<le> w \<longrightarrow> m' w = m w)"

definition apart :: "addr \<Rightarrow> addr \<Rightarrow> entry list \<Rightarrow> bool" where
  "apart lo hi xs \<longleftrightarrow> (\<forall>e \<in> set xs. fst e + snd e \<le> lo \<or> hi \<le> fst e)"

lemma apart_simps [simp]:
  "apart lo hi []" "apart lo hi (e # xs) \<longleftrightarrow> (fst e + snd e \<le> lo \<or> hi \<le> fst e) \<and> apart lo hi xs"
  "apart lo hi (xs @ ys) \<longleftrightarrow> apart lo hi xs \<and> apart lo hi ys"
  by (auto simp: apart_def)

lemma lseg_agree:
  assumes "agree_outside lo hi m m'" "apart lo hi xs" "entries_wf mn xs"
  shows "lseg m' p xs q = lseg m p xs q"
proof (rule lseg_frame)
  fix e
  assume e: "e \<in> set xs"
  then have "16 \<le> snd e" using wf_sizes assms(3) by blast
  with e assms(1,2) show "m' (fst e) = m (fst e) \<and> m' (fst e + 8) = m (fst e + 8)"
    by (auto simp: agree_outside_def apart_def)
qed

lemma agree_refl [simp]: "agree_outside lo hi m m"
  by (simp add: agree_outside_def)

lemma fillWithHoles_spec:
  assumes "8 dvd r" "base + r < UMAX" "base \<noteq> 0"
  shows "\<exists>m'. fillWithHoles base r m = Some (if 16 \<le> r then base else NULL, m') \<and>
    agree_outside base (base + r) m m' \<and> (16 \<le> r \<longrightarrow> getSize m' base = r)"
proof (cases "16 \<le> r")
  case True
  then show ?thesis
    using assms by (auto simp: fillWithHoles_def agree_outside_def setSize_def setNext_def setNextImpl_def
        getSize_def unat_of_nat UMAX_def)
next
  case False
  with assms(1) have "r = 0 \<or> r = 8" by auto
  moreover have z: "fillWithSingleSlotHoles q 0 m'' = Some m''" for q m''
    by (subst fillWithSingleSlotHoles.simps) simp
  moreover have "fillWithSingleSlotHoles base 8 m = Some (m(base := J9_GC_SINGLE_SLOT_HOLE))"
    by (subst fillWithSingleSlotHoles.simps) (simp add: z usub_exact UMAX_def)
  ultimately show ?thesis
    using False by (auto simp: fillWithHoles_def agree_outside_def)
qed

lemma agree_setNext:
  "agree_outside lo hi m m' \<Longrightarrow> lo \<le> w \<Longrightarrow> w < hi \<Longrightarrow> agree_outside lo hi m (setNext w v m')"
  by (auto simp: agree_outside_def setNext_def setNextImpl_def)

lemma internalRecycleHeapChunk_spec:
  fixes p :: pool
  assumes r: "8 dvd r" "base + r < UMAX" "base \<noteq> 0"
    and nxt: "nxt = NULL \<or> base + r \<le> nxt" "4 dvd nxt" "nxt < UMAX"
  defines "b \<equiv> (16 \<le> r \<and> minimumFreeEntrySize p \<le> r)"
  shows "\<exists>m'. internalRecycleHeapChunk base (base + r) nxt p = Some (b, p \<lparr> mem := m' \<rparr>) \<and>
    agree_outside base (base + r) (mem p) m' \<and> (b \<longrightarrow> getSize m' base = r \<and> getNext m' base = nxt)"
proof -
  from fillWithHoles_spec [OF r, of "mem p"] obtain m1 where
    f: "fillWithHoles base r (mem p) = Some (if 16 \<le> r then base else NULL, m1)"
    and a: "agree_outside base (base + r) (mem p) m1" and s: "16 \<le> r \<longrightarrow> getSize m1 base = r" by auto
  have u: "usub (base + r) base = r" using r(2) by (simp add: usub_exact)
  show ?thesis
  proof (cases b)
    case True
    then have "internalRecycleHeapChunk base (base + r) nxt p = Some (True, p \<lparr> mem := setNext base nxt m1 \<rparr>)"
      using f u r nxt by (auto simp: internalRecycleHeapChunk_def b_def)
    with True a s nxt show ?thesis
      by (intro exI [of _ "setNext base nxt m1"]) (auto simp: b_def agree_setNext)
  next
    case False
    then show ?thesis
      using f u r a by (intro exI [of _ m1]) (auto simp: internalRecycleHeapChunk_def b_def)
  qed
qed

section \<open>Linking around a position\<close>

definition last_addr :: "entry list \<Rightarrow> addr" where
  "last_addr ys = (if ys = [] then NULL else fst (last ys))"

definition head_addr :: "entry list \<Rightarrow> addr" where
  "head_addr zs = (if zs = [] then NULL else fst (hd zs))"

lemma last_addr_simps [simp]: "last_addr [] = NULL" "last_addr (ys @ [e]) = fst e"
  by (simp_all add: last_addr_def)

lemma head_addr_simps [simp]: "head_addr [] = NULL" "head_addr (e # zs) = fst e"
  by (simp_all add: head_addr_def)

lemma chain_head_addr: "chain m q zs \<Longrightarrow> q = head_addr zs"
  by (cases zs) auto

lemma head_addr_ok:
  assumes "entries_wf mn zs"
  shows "4 dvd head_addr zs" "head_addr zs < UMAX"
  using assms by (cases zs; auto simp: entries_wf_Cons dest: entry_okD)+

lemma last_addr_NULL: "entries_wf mn ys \<Longrightarrow> last_addr ys = NULL \<longleftrightarrow> ys = []"
  by (cases ys rule: rev_cases) (auto simp: entries_wf_simps dest: entry_okD)

lemma last_addr_less:
  "entries_wf mn ys \<Longrightarrow> ys \<noteq> [] \<Longrightarrow> \<forall>e \<in> set ys. fst e + snd e \<le> w \<Longrightarrow> last_addr ys < w"
  by (cases ys rule: rev_cases) (auto simp: entries_wf_simps dest: entry_okD)

text \<open>
  \<open>relink ys q\<close>: the entry before the position, or the head of the list, now points to \<open>q\<close>.
\<close>

lemma relink_chain:
  assumes "entries_wf mn (ys @ zs)" "lseg m h ys q0" "chain m q zs" "ys \<noteq> []"
  shows "chain (setNext (last_addr ys) q m) h (ys @ zs)"
proof -
  from assms(4) obtain ys' e where ys: "ys = ys' @ [e]" by (cases ys rule: rev_cases) auto
  have q: "4 dvd q" "q < UMAX" using assms(1,3) chain_head_addr head_addr_ok
    by (metis entries_wf_append)+
  have "entries_wf mn (ys' @ [e])" using assms(1) ys by (simp add: entries_wf_simps)
  from lseg_setNext_last [OF this assms(2) [unfolded ys] q]
  have l: "lseg (setNext (last_addr ys) q m) h ys q" by (simp add: ys)
  have "outside (fst e) zs"
    using assms(1) outside_around(2) [of mn ys' e zs "fst e"] ys entry_okD(6) [of mn e]
    by (fastforce simp: entries_wf_simps)
  moreover have "entries_wf mn zs" using assms(1) by (simp add: entries_wf_append)
  ultimately have "lseg (setNext (last_addr ys) q m) q zs NULL"
    using assms(3) lseg_setNext [of mn zs "fst e" q m q NULL] by (simp add: ys)
  with l show ?thesis by (auto simp: lseg_append)
qed

definition linked :: "nat \<Rightarrow> entry list \<Rightarrow> addr \<Rightarrow> nat \<Rightarrow> entry list \<Rightarrow> entry list" where
  "linked mn ys base r zs = ys @ (if 16 \<le> r \<and> mn \<le> r then [(base, r)] else []) @ zs"

lemma linked_wf:
  assumes "entries_wf mn (ys @ zs)" "8 dvd base" "0 < base" "8 dvd r" "base + r < UMAX"
    "\<forall>e \<in> set ys. fst e + snd e \<le> base" "\<forall>e \<in> set zs. base + r \<le> fst e"
  shows "entries_wf mn (linked mn ys base r zs)"
  using assms by (auto simp: linked_def entries_wf_simps entry_ok_def before_def)

lemma recycle_between_spec:
  assumes wf: "entries_wf (minimumFreeEntrySize p) (ys @ zs)"
    and ch: "lseg (mem p) (heapFreeList p) ys q0" "chain (mem p) (head_addr zs) zs"
    and r: "8 dvd base" "0 < base" "8 dvd r" "base + r < UMAX"
    and pos: "\<forall>e \<in> set ys. fst e + snd e \<le> base" "\<forall>e \<in> set zs. base + r \<le> fst e"
  defines "b \<equiv> (16 \<le> r \<and> minimumFreeEntrySize p \<le> r)"
  shows "\<exists>m' h'. recycleHeapChunk_between base (base + r) (last_addr ys) (head_addr zs) p =
      Some (b, p \<lparr> mem := m', heapFreeList := h' \<rparr>) \<and>
    chain m' h' (linked (minimumFreeEntrySize p) ys base r zs) \<and>
    (\<forall>w. (w < base \<or> base + r \<le> w) \<and> w \<noteq> last_addr ys \<longrightarrow> m' w = mem p w)"
proof -
  let ?mn = "minimumFreeEntrySize p" and ?n = "head_addr zs"
  have wfs: "entries_wf ?mn ys" "entries_wf ?mn zs" using wf by (simp_all add: entries_wf_append)
  have n: "?n = NULL \<or> base + r \<le> ?n" "4 dvd ?n" "?n < UMAX"
    using pos(2) head_addr_ok [OF wfs(2)] by (cases zs; simp)+
  from internalRecycleHeapChunk_spec [OF r(3,4) _ n, of p] r(2) obtain m1 where
    i: "internalRecycleHeapChunk base (base + r) ?n p = Some (b, p \<lparr> mem := m1 \<rparr>)"
    and a: "agree_outside base (base + r) (mem p) m1"
    and e: "b \<longrightarrow> getSize m1 base = r \<and> getNext m1 base = ?n" unfolding b_def by auto
  have ap: "apart base (base + r) ys" "apart base (base + r) zs" using pos by (auto simp: apart_def)
  have ys1: "lseg m1 (heapFreeList p) ys q0" and zs1: "chain m1 ?n zs"
    using ch lseg_agree [OF a ap(1) wfs(1)] lseg_agree [OF a ap(2) wfs(2)] by auto
  define q where "q = (if b then base else ?n)"
  define ms where "ms = (if b then [(base, r)] else []) @ zs"
  have ms: "chain m1 q ms" using e zs1 r(2) by (simp add: q_def ms_def)
  have lk: "linked ?mn ys base r zs = ys @ ms" by (simp add: linked_def ms_def b_def)
  have wf': "entries_wf ?mn (ys @ ms)"
    using linked_wf [OF wf r pos] unfolding lk .
  show ?thesis
  proof (cases "ys = []")
    case True
    then have "recycleHeapChunk_between base (base + r) (last_addr ys) ?n p =
        Some (b, p \<lparr> mem := m1, heapFreeList := q \<rparr>)"
      using i n(1) by (simp add: recycleHeapChunk_between_def q_def)
    then show ?thesis using True ms lk a by (fastforce simp: agree_outside_def)
  next
    case False
    have l: "last_addr ys \<noteq> NULL" "last_addr ys < base"
      using False last_addr_NULL [OF wfs(1)] last_addr_less [OF wfs(1) False pos(1)] by auto
    have "?n = NULL \<or> last_addr ys < ?n" using n(1) l(2) by auto
    then have "recycleHeapChunk_between base (base + r) (last_addr ys) ?n p =
        Some (b, p \<lparr> mem := setNext (last_addr ys) q m1, heapFreeList := heapFreeList p \<rparr>)"
      using i n(1) l by (simp add: recycleHeapChunk_between_def q_def)
    moreover have "chain (setNext (last_addr ys) q m1) (heapFreeList p) (ys @ ms)"
      by (rule relink_chain [OF wf' ys1 ms False])
    ultimately show ?thesis
      using lk a by (fastforce simp: agree_outside_def setNext_def setNextImpl_def)
  qed
qed

section \<open>The invariant of a pool\<close>

text \<open>
  A hint is sound when its entry is on the list and nothing up to that entry exceeds its size.
\<close>

definition hint_ok :: "entry list \<Rightarrow> J9ModronAllocateHint \<Rightarrow> bool" where
  "hint_ok xs h \<longleftrightarrow> heapFreeHeader h \<in> fst ` set xs \<and>
     (\<forall>f \<in> set xs. fst f \<le> heapFreeHeader h \<longrightarrow> snd f \<le> hint_size h)"

definition hints_ok :: "pool \<Rightarrow> entry list \<Rightarrow> bool" where
  "hints_ok p xs \<longleftrightarrow> 0 < hint_nodes p \<and>
     (\<forall>h \<in> set (hintActive p). stale_hint (heapFreeList p) h \<or> hint_ok xs h)"

definition free_list :: "pool \<Rightarrow> entry list \<Rightarrow> bool" where
  "free_list p xs \<longleftrightarrow> chain (mem p) (heapFreeList p) xs \<and> entries_wf (minimumFreeEntrySize p) xs"

definition accounted :: "pool \<Rightarrow> entry list \<Rightarrow> bool" where
  "accounted p xs \<longleftrightarrow> freeMemorySize p = entries_size xs \<and> entries_size xs < UMAX \<and>
     freeEntryCount p = length xs \<and> length xs < UMAX \<and> stats_ready (largeObjectAllocateStats p) \<and>
     total_count (freeEntrySizeClassStats (largeObjectAllocateStats p)) = of_nat (length xs)"

definition pool_inv :: "pool \<Rightarrow> entry list \<Rightarrow> bool" where
  "pool_inv p xs \<longleftrightarrow> free_list p xs \<and> accounted p xs \<and> hints_ok p xs"

text \<open>First fit on the list of entries: the specification of allocation.\<close>

definition remainder :: "nat \<Rightarrow> nat \<Rightarrow> entry \<Rightarrow> entry list" where
  "remainder mn n e = (if 16 \<le> snd e - n \<and> mn \<le> snd e - n then [(fst e + n, snd e - n)] else [])"

definition first_fit :: "nat \<Rightarrow> nat \<Rightarrow> entry list \<Rightarrow> addr \<times> entry list" where
  "first_fit mn n xs =
     (case dropWhile (\<lambda>e. snd e < n) xs of
        [] \<Rightarrow> (NULL, xs)
      | e # zs \<Rightarrow> (fst e, takeWhile (\<lambda>e. snd e < n) xs @ remainder mn n e @ zs))"

lemma first_fit_split:
  assumes "\<forall>f \<in> set ys. snd f < n" "n \<le> snd e"
  shows "first_fit mn n (ys @ e # zs) = (fst e, ys @ remainder mn n e @ zs)"
  using assms by (simp add: first_fit_def dropWhile_append takeWhile_append)

lemma first_fit_none: "\<forall>f \<in> set xs. snd f < n \<Longrightarrow> first_fit mn n xs = (NULL, xs)"
  by (simp add: first_fit_def dropWhile_eq_Nil_conv [THEN iffD2])

section \<open>The search\<close>

definition search_size :: "nat \<Rightarrow> entry list \<Rightarrow> nat" where
  "search_size c ys = foldl max c (map snd ys)"

lemma search_size_bound: "c \<le> search_size c ys \<and> (\<forall>f \<in> set ys. snd f \<le> search_size c ys)"
proof (induction ys arbitrary: c)
  case (Cons y ys)
  from Cons [of "max c (snd y)"] show ?case by (auto simp: search_size_def)
qed (simp add: search_size_def)

lemma walk_search_hit:
  assumes "chain m p (ys @ e # zs)" "entries_wf mn (ys @ e # zs)"
    and "\<forall>f \<in> set ys. snd f < n" "n \<le> snd e"
  shows "\<exists>l'. walk_list (alloc_body m n) (ys @ e # zs) (l, c, w, prev) =
    Some (Inl (fst e, l', search_size c ys, w + length ys, if ys = [] then prev else last_addr ys))"
  using assms
proof (induction ys arbitrary: p l c w prev)
  case Nil
  then show ?case by (auto simp: alloc_body_def search_size_def Let_def)
next
  case (Cons y ys)
  have ch: "chain m (getNext m p) (ys @ e # zs)" "p = fst y" "getSize m p = snd y" using Cons.prems(1) by auto
  have wf: "entries_wf mn (ys @ e # zs)" "\<forall>f \<in> set (ys @ e # zs). before y f" "entry_ok mn y"
    using Cons.prems(2) by (auto simp: entries_wf_Cons)
  have "getNext m p = head_addr (ys @ e # zs)" using chain_head_addr ch(1) by blast
  then have "p < getNext m p"
    using wf(2,3) ch(2) before_less by (cases ys) fastforce+
  moreover from Cons.IH [OF ch(1) wf(1)] Cons.prems(3,4) obtain l' where
    "walk_list (alloc_body m n) (ys @ e # zs) (max l (snd y), max c (snd y), w + 1, p) =
      Some (Inl (fst e, l', search_size (max c (snd y)) ys, w + 1 + length ys,
        if ys = [] then p else last_addr ys))" by fastforce
  moreover have "alloc_body m n p (l, c, w, prev) = Some (Inr (max l (snd y), max c (snd y), w + 1, p))"
    using calculation(1) ch(3) Cons.prems(3) by (auto simp: alloc_body_def max_def Let_def)
  ultimately show ?case
    using ch(2) by (auto simp: search_size_def last_addr_def)
qed

lemma walk_search_miss:
  assumes "chain m p xs" "entries_wf mn xs" "\<forall>f \<in> set xs. snd f < n"
  shows "\<exists>s. walk_list (alloc_body m n) xs (l, c, w, prev) = Some (Inr (foldl max l (map snd xs), s))"
  using assms
proof (induction xs arbitrary: p l c w prev)
  case Nil
  then show ?case by auto
next
  case (Cons y ys)
  have ch: "chain m (getNext m p) ys" "p = fst y" "getSize m p = snd y" using Cons.prems(1) by auto
  have wf: "entries_wf mn ys" "\<forall>f \<in> set ys. before y f" "entry_ok mn y"
    using Cons.prems(2) by (auto simp: entries_wf_Cons)
  have "getNext m p = head_addr ys" using chain_head_addr ch(1) by blast
  then have "getNext m p = NULL \<or> p < getNext m p"
    using wf(2,3) ch(2) before_less by (cases ys) fastforce+
  moreover from Cons.IH [OF ch(1) wf(1)] Cons.prems(3) obtain s where
    "walk_list (alloc_body m n) ys (max l (snd y), max c (snd y), w + 1, p) =
      Some (Inr (foldl max (max l (snd y)) (map snd ys), s))" by fastforce
  moreover have "alloc_body m n p (l, c, w, prev) = Some (Inr (max l (snd y), max c (snd y), w + 1, p))"
    using calculation(1) ch(3) Cons.prems(3) by (auto simp: alloc_body_def max_def Let_def)
  ultimately show ?case using ch(2) by (cases s) auto
qed

section \<open>Hints and the list\<close>

text \<open>A pool that differs in its hints only, all of them sound.\<close>

definition rehinted :: "entry list \<Rightarrow> pool \<Rightarrow> pool \<Rightarrow> bool" where
  "rehinted xs p p' \<longleftrightarrow> (\<exists>a i l. p' = p \<lparr> hintActive := a, hintInactive := i, hintLru := l \<rparr> \<and>
     length a + length i = hint_nodes p \<and> (\<forall>h \<in> set a. hint_ok xs h))"

lemma hint_ok_lru [simp]: "hint_ok xs (h \<lparr> hint_lru := l \<rparr>) = hint_ok xs h"
  by (simp add: hint_ok_def)

lemma findHint_spec:
  assumes ok: "hints_ok p xs" and f: "findHint n p = (hint, p')"
  shows "rehinted xs p p'" "hint = Some h \<Longrightarrow> h \<in> set (hintActive p') \<and> hint_size h < n"
proof -
  let ?a = "filter (\<lambda>h. \<not> stale_hint (heapFreeList p) h) (hintActive p)"
  let ?i = "rev (filter (stale_hint (heapFreeList p)) (hintActive p)) @ hintInactive p"
  have a: "\<forall>h \<in> set ?a. hint_ok xs h" using ok by (auto simp: hints_ok_def)
  have len: "length ?a + length ?i = hint_nodes p"
    using sum_length_filter_compl [of "stale_hint (heapFreeList p)" "hintActive p"]
    by (simp add: hint_nodes_def)
  have "rehinted xs p p' \<and> (\<forall>h. hint = Some h \<longrightarrow> h \<in> set (hintActive p') \<and> hint_size h < n)"
  proof (cases "best_hint n ?a")
    case None
    with f have "p' = p \<lparr> hintActive := ?a, hintInactive := ?i, hintLru := hintLru p \<rparr>" "hint = None"
      by (auto simp: findHint_def Let_def)
    with a len show ?thesis unfolding rehinted_def by blast
  next
    case (Some j)
    from best_hint_Some [OF Some] have j: "j < length ?a" "hint_size (?a ! j) < n" by auto
    let ?h = "(?a ! j) \<lparr> hint_lru := hintLru p \<rparr>"
    from f Some have p': "p' = p \<lparr> hintActive := ?a[j := ?h], hintInactive := ?i, hintLru := uadd (hintLru p) 1 \<rparr>"
      and h: "hint = Some ?h" by (auto simp: findHint_def Let_def)
    have "hint_ok xs (?a ! j)" using a j(1) nth_mem by blast
    then have "\<forall>g \<in> set (?a[j := ?h]). hint_ok xs g" using a set_update_subset_insert [of ?a j ?h] by auto
    then have "rehinted xs p p'" unfolding rehinted_def p' using len by (metis length_list_update)
    moreover have "?h \<in> set (hintActive p')" using j(1) by (simp add: p' set_update_memI)
    ultimately show ?thesis using h j(2) by simp
  qed
  then show "rehinted xs p p'" "hint = Some h \<Longrightarrow> h \<in> set (hintActive p') \<and> hint_size h < n" by auto
qed

lemma addHint_spec:
  assumes "0 < hint_nodes p" "\<forall>h \<in> set (hintActive p). hint_ok xs h"
    and e: "e \<in> fst ` set xs" "\<forall>f \<in> set xs. fst f \<le> e \<longrightarrow> snd f \<le> c"
  shows "\<exists>p'. addHint e c p = Some p' \<and> rehinted xs p p'"
proof -
  obtain a i r where s: "addHint_scan e c (hintActive p) (hintInactive p) = (a, i, r)" by (metis prod_cases3)
  from addHint_scan_active [OF s] have a: "set a \<subseteq> set (hintActive p)" "length a + length i = hint_nodes p"
    by (auto simp: hint_nodes_def)
  have ok: "\<forall>h \<in> set a. hint_ok xs h" using a(1) assms(2) by blast
  have new: "hint_ok xs (h \<lparr> hint_lru := l, hint_size := c, heapFreeHeader := e \<rparr>)" for h l
    using e by (simp add: hint_ok_def)
  show ?thesis
  proof (cases r)
    case True
    with s have "addHint e c p = Some (p \<lparr> hintActive := a, hintInactive := i, hintLru := hintLru p \<rparr>)"
      by (simp add: addHint_def)
    with a ok show ?thesis unfolding rehinted_def by blast
  next
    case r: False
    show ?thesis
    proof (cases i)
      case (Cons h hs)
      with s r have "addHint e c p = Some (p \<lparr> hintActive :=
          h \<lparr> hint_lru := hintLru p, hint_size := c, heapFreeHeader := e \<rparr> # a,
          hintInactive := hs, hintLru := uadd (hintLru p) 1 \<rparr>)"
        by (simp add: addHint_def)
      moreover have "\<forall>g \<in> set (h \<lparr> hint_lru := hintLru p, hint_size := c, heapFreeHeader := e \<rparr> # a). hint_ok xs g"
        using ok new by auto
      ultimately show ?thesis using a(2) Cons unfolding rehinted_def by (metis add_Suc add_Suc_right length_Cons)
    next
      case Nil
      then have "a \<noteq> []" using a(2) assms(1) by auto
      let ?a = "a[lru_pos a := (a ! lru_pos a) \<lparr> hint_lru := hintLru p, hint_size := c, heapFreeHeader := e \<rparr>]"
      from s r Nil \<open>a \<noteq> []\<close> have "addHint e c p = Some (p \<lparr> hintActive := ?a, hintInactive := [],
          hintLru := uadd (hintLru p) 1 \<rparr>)"
        by (simp add: addHint_def Let_def)
      moreover have "\<forall>g \<in> set ?a. hint_ok xs g" using ok new set_update_subset_insert by fastforce
      ultimately show ?thesis using a(2) Nil unfolding rehinted_def by (metis length_list_update)
    qed
  qed
qed

text \<open>Hints when an entry shrinks from below or leaves the list.\<close>

lemma wf_position:
  assumes "entries_wf mn (ys @ e # zs)"
  shows "f \<in> set ys \<Longrightarrow> fst f < fst e" "f \<in> set zs \<Longrightarrow> fst e + snd e \<le> fst f"
    "f \<in> set ys \<Longrightarrow> fst f + snd f \<le> fst e" "f \<in> set (ys @ e # zs) \<Longrightarrow> entry_ok mn f"
proof -
  have "\<forall>f \<in> set ys. before f e" "\<forall>f \<in> set zs. before e f" "\<forall>f \<in> set (ys @ e # zs). entry_ok mn f"
    using assms by (auto simp: entries_wf_append entries_wf_Cons) (auto simp: entries_wf_def)
  then show "f \<in> set ys \<Longrightarrow> fst f < fst e" "f \<in> set zs \<Longrightarrow> fst e + snd e \<le> fst f"
    "f \<in> set ys \<Longrightarrow> fst f + snd f \<le> fst e" "f \<in> set (ys @ e # zs) \<Longrightarrow> entry_ok mn f"
    using before_less [of f e mn] by (auto simp: before_def)
qed

lemma hint_ok_shrink:
  assumes wf: "entries_wf mn (ys @ e # zs)" and n: "0 < n" "n < snd e" and h: "hint_ok (ys @ e # zs) h"
  shows "hint_ok (ys @ (fst e + n, snd e - n) # zs)
    (if heapFreeHeader h = fst e then h \<lparr> heapFreeHeader := fst e + n \<rparr> else h)"
proof -
  have lt: "fst f < fst e" if "f \<in> set ys" for f
    using wf_position(1) [OF wf that] .
  have gt: "fst e + n < fst f" if "f \<in> set zs" for f
    using wf_position(2) [OF wf that] n(2) by simp
  show ?thesis
  proof (cases "heapFreeHeader h = fst e")
    case True
    have "snd e \<le> hint_size h" using h True by (auto simp: hint_ok_def)
    moreover have "snd f \<le> hint_size h" if "f \<in> set ys" for f
      using h True lt [OF that] that by (auto simp: hint_ok_def)
    moreover have "\<not> fst f \<le> fst e + n" if "f \<in> set zs" for f using gt [OF that] by simp
    ultimately show ?thesis using True by (auto simp: hint_ok_def)
  next
    case False
    have "snd e - n \<le> hint_size h" if "fst e + n \<le> heapFreeHeader h"
      using h that by (auto simp: hint_ok_def)
    with False h show ?thesis by (auto simp: hint_ok_def)
  qed
qed

lemma hint_ok_remove:
  "hint_ok (ys @ e # zs) h \<Longrightarrow> heapFreeHeader h \<noteq> fst e \<Longrightarrow> hint_ok (ys @ zs) h"
  by (auto simp: hint_ok_def)

section \<open>Taking an entry\<close>

lemma decrementStats_spec:
  assumes "stats_ready (largeObjectAllocateStats p)" "0 < n" "n < UMAX"
  shows "\<exists>los. decrementStats n p = Some (p \<lparr> largeObjectAllocateStats := los \<rparr>) \<and> stats_ready los \<and>
    total_count (freeEntrySizeClassStats los) =
      total_count (freeEntrySizeClassStats (largeObjectAllocateStats p)) - 1"
  using decrement_ready [OF assms] by (auto simp: decrementStats_def)

lemma incrementStats_spec:
  assumes "stats_ready (largeObjectAllocateStats p)" "0 < n" "n < UMAX"
  shows "\<exists>los. incrementStats n p = Some (p \<lparr> largeObjectAllocateStats := los \<rparr>) \<and> stats_ready los \<and>
    total_count (freeEntrySizeClassStats los) =
      total_count (freeEntrySizeClassStats (largeObjectAllocateStats p)) + 1"
  using increment_ready [OF assms] by (auto simp: incrementStats_def)

text \<open>
  The state just before the remainder is recycled: the entry is off the statistics, the request
  is accounted, the hints are sound.
\<close>

definition taking :: "nat \<Rightarrow> entry list \<Rightarrow> entry \<Rightarrow> entry list \<Rightarrow> pool \<Rightarrow> bool" where
  "taking n ys e zs p \<longleftrightarrow> free_list p (ys @ e # zs) \<and> stats_ready (largeObjectAllocateStats p) \<and>
     freeMemorySize p = entries_size (ys @ e # zs) - n \<and> entries_size (ys @ e # zs) < UMAX \<and>
     freeEntryCount p = length (ys @ e # zs) \<and> length (ys @ e # zs) < UMAX \<and>
     total_count (freeEntrySizeClassStats (largeObjectAllocateStats p)) = of_nat (length (ys @ zs)) \<and>
     0 < hint_nodes p \<and> (\<forall>h \<in> set (hintActive p). hint_ok (ys @ e # zs) h)"

lemma take_recycled:
  assumes t: "taking n ys e zs p" and n: "8 dvd n" "0 < n" "n \<le> snd e"
    and big: "16 \<le> snd e - n" "minimumFreeEntrySize p \<le> snd e - n"
    and p1: "p1 = p \<lparr> mem := m', heapFreeList := h' \<rparr>"
    and ch: "chain m' h' (ys @ remainder (minimumFreeEntrySize p) n e @ zs)"
  shows "\<exists>p2 los. updateHint (fst e) (fst e + n) p1 = Some p2 \<and>
    incrementStats (snd e - n) p2 = Some (p2 \<lparr> largeObjectAllocateStats := los \<rparr>) \<and>
    pool_inv (p2 \<lparr> largeObjectAllocateStats := los \<rparr>) (ys @ remainder (minimumFreeEntrySize p) n e @ zs)"
proof -
  let ?mn = "minimumFreeEntrySize p"
  let ?u = "\<lambda>h. if heapFreeHeader h = fst e then h \<lparr> heapFreeHeader := fst e + n \<rparr> else h"
  let ?p2 = "p1 \<lparr> hintActive := map ?u (hintActive p1) \<rparr>"
  have wf: "entries_wf ?mn (ys @ e # zs)" using t by (simp add: taking_def free_list_def)
  have rem: "remainder ?mn n e = [(fst e + n, snd e - n)]" using big by (simp add: remainder_def)
  have e: "entry_ok ?mn e" using wf_position(4) [OF wf, of e] by simp
  have u: "updateHint (fst e) (fst e + n) p1 = Some ?p2"
    using n(2) by (simp add: updateHint_def updateHint_loop_map)
  have "stats_ready (largeObjectAllocateStats ?p2)" using t by (simp add: taking_def p1)
  moreover have "0 < snd e - n" "snd e - n < UMAX" using big(1) entry_okD(10) [OF e] by auto
  ultimately obtain los where i: "incrementStats (snd e - n) ?p2 = Some (?p2 \<lparr> largeObjectAllocateStats := los \<rparr>)"
    "stats_ready los" "total_count (freeEntrySizeClassStats los) =
      total_count (freeEntrySizeClassStats (largeObjectAllocateStats ?p2)) + 1"
    using incrementStats_spec by blast
  have "\<forall>f \<in> set ys. fst f + snd f \<le> fst e + n" "\<forall>f \<in> set zs. fst e + n + (snd e - n) \<le> fst f"
    using wf_position(2,3) [OF wf] n(3) by fastforce+
  then have "entries_wf ?mn (linked ?mn ys (fst e + n) (snd e - n) zs)"
    using wf n entry_okD [OF e] by (intro linked_wf) (auto simp: entries_wf_simps)
  moreover have "linked ?mn ys (fst e + n) (snd e - n) zs = ys @ remainder ?mn n e @ zs"
    by (simp add: linked_def remainder_def)
  ultimately have wf': "entries_wf ?mn (ys @ remainder ?mn n e @ zs)" by simp
  have "hint_ok (ys @ (fst e + n, snd e - n) # zs) (?u h)" if "h \<in> set (hintActive p)" for h
    using hint_ok_shrink [OF wf n(2)] big(1) t that by (simp add: taking_def split del: if_split)
  moreover have "hintActive p1 = hintActive p" by (simp add: p1)
  ultimately have "\<forall>h \<in> ?u ` set (hintActive p1). hint_ok (ys @ (fst e + n, snd e - n) # zs) h"
    by (metis (no_types, lifting) imageE)
  then have "\<forall>h \<in> set (map ?u (hintActive p1)). hint_ok (ys @ remainder ?mn n e @ zs) h"
    by (simp only: set_map rem append_Cons append_Nil)
  then have "pool_inv (?p2 \<lparr> largeObjectAllocateStats := los \<rparr>) (ys @ remainder ?mn n e @ zs)"
    using t ch wf' i n(3) unfolding pool_inv_def free_list_def accounted_def hints_ok_def taking_def
    by (simp add: rem p1 hint_nodes_def less_imp_diff_less)
  with u i(1) show ?thesis by blast
qed

lemma take_discarded:
  assumes t: "taking n ys e zs p" and n: "n \<le> snd e"
    and small: "\<not> (16 \<le> snd e - n \<and> minimumFreeEntrySize p \<le> snd e - n)"
    and ch: "chain m' h' (ys @ zs)"
  shows "pool_inv (removeHint (fst e) (p \<lparr> mem := m', heapFreeList := h',
      freeMemorySize := usub (freeMemorySize p) (snd e - n), freeEntryCount := usub (freeEntryCount p) 1,
      allocDiscardedBytes := d \<rparr>)) (ys @ zs)"
proof -
  have wf: "entries_wf (minimumFreeEntrySize p) (ys @ e # zs)" using t by (simp add: taking_def free_list_def)
  then have "entries_wf (minimumFreeEntrySize p) (ys @ zs)" by (auto simp: entries_wf_simps)
  moreover have "usub (freeMemorySize p) (snd e - n) = entries_size (ys @ zs)"
  proof -
    have "freeMemorySize p = entries_size (ys @ zs) + (snd e - n)" "freeMemorySize p < UMAX"
      using t n by (auto simp: taking_def)
    then show ?thesis by (simp add: usub_exact)
  qed
  moreover have "usub (freeEntryCount p) 1 = length (ys @ zs)"
    using t by (simp add: taking_def usub_exact)
  moreover have "\<forall>h \<in> set (hintActive p). heapFreeHeader h \<noteq> fst e \<longrightarrow> hint_ok (ys @ zs) h"
    using t unfolding taking_def by (blast intro: hint_ok_remove)
  ultimately show ?thesis
    using t ch removeHint_nodes [of "fst e" p]
    by (auto simp: pool_inv_def free_list_def accounted_def hints_ok_def taking_def removeHint_def hint_nodes_def)
qed

text \<open>The recycling step of an allocation, on either branch.\<close>

lemma take_finish:
  assumes t: "taking n ys e zs p" and n: "8 dvd n" "0 < n" "n \<le> snd e"
  defines "base \<equiv> fst e + n" and "r \<equiv> snd e - n"
  shows "\<exists>b p1 p2. recycleHeapChunk_between base (base + r) (last_addr ys) (head_addr zs) p = Some (b, p1) \<and>
    (if b then do { q \<leftarrow> updateHint (fst e) base p1; incrementStats r q }
     else Some (removeHint (fst e) (p1 \<lparr> freeMemorySize := usub (freeMemorySize p1) r,
            freeEntryCount := usub (freeEntryCount p1) 1,
            allocDiscardedBytes := uadd (allocDiscardedBytes p1) r \<rparr>))) = Some p2 \<and>
    pool_inv p2 (ys @ remainder (minimumFreeEntrySize p) n e @ zs) \<and>
    minimumFreeEntrySize p2 = minimumFreeEntrySize p \<and>
    (\<forall>w. (w < base \<or> fst e + snd e \<le> w) \<and> w \<noteq> last_addr ys \<longrightarrow> mem p2 w = mem p w)"
proof -
  let ?mn = "minimumFreeEntrySize p"
  have fl: "chain (mem p) (heapFreeList p) (ys @ e # zs)" and wf: "entries_wf ?mn (ys @ e # zs)"
    using t by (auto simp: taking_def free_list_def)
  have e: "entry_ok ?mn e" using wf_position(4) [OF wf, of e] by simp
  have ch: "lseg (mem p) (heapFreeList p) ys (fst e)" "chain (mem p) (getNext (mem p) (fst e)) zs"
    using fl by (auto simp: lseg_append)
  then have ch': "chain (mem p) (head_addr zs) zs" using chain_head_addr by metis
  have pos: "\<forall>f \<in> set ys. fst f + snd f \<le> base" "\<forall>f \<in> set zs. base + r \<le> fst f"
    using wf_position(2,3) [OF wf] n(3) by (fastforce simp: base_def r_def)+
  have br: "8 dvd base" "0 < base" "8 dvd r" "base + r < UMAX" "base + r = fst e + snd e"
    using entry_okD [OF e] n by (auto simp: base_def r_def)
  have "entries_wf ?mn (ys @ zs)" using wf by (auto simp: entries_wf_simps)
  from recycle_between_spec [OF this ch(1) ch' br(1-4) pos] obtain m' h' where
    rec: "recycleHeapChunk_between base (base + r) (last_addr ys) (head_addr zs) p =
      Some (16 \<le> r \<and> ?mn \<le> r, p \<lparr> mem := m', heapFreeList := h' \<rparr>)"
    and c: "chain m' h' (linked ?mn ys base r zs)"
    and fr: "\<forall>w. (w < base \<or> fst e + snd e \<le> w) \<and> w \<noteq> last_addr ys \<longrightarrow> m' w = mem p w"
    unfolding br(5) by blast
  have lk: "linked ?mn ys base r zs = ys @ remainder ?mn n e @ zs"
    by (simp add: linked_def remainder_def base_def r_def)
  show ?thesis
  proof (cases "16 \<le> r \<and> ?mn \<le> r")
    case True
    from take_recycled [OF t n _ _ refl c [unfolded lk]] True obtain p2 los where
      u: "updateHint (fst e) base (p \<lparr> mem := m', heapFreeList := h' \<rparr>) = Some p2"
      "incrementStats r p2 = Some (p2 \<lparr> largeObjectAllocateStats := los \<rparr>)"
      "pool_inv (p2 \<lparr> largeObjectAllocateStats := los \<rparr>) (ys @ remainder ?mn n e @ zs)"
      by (auto simp: base_def r_def)
    from u(1) have "mem p2 = m'" "minimumFreeEntrySize p2 = ?mn"
      by (auto simp: updateHint_def bind_eq_Some_conv)
    with rec True u fr show ?thesis by auto
  next
    case False
    then have rem: "remainder ?mn n e = []" by (auto simp: remainder_def r_def)
    from take_discarded [OF t n(3) _ c [unfolded lk rem, simplified]] False
    have "pool_inv (removeHint (fst e) (p \<lparr> mem := m', heapFreeList := h',
        freeMemorySize := usub (freeMemorySize p) r, freeEntryCount := usub (freeEntryCount p) 1,
        allocDiscardedBytes := uadd (allocDiscardedBytes p) r \<rparr>)) (ys @ zs)"
      by (auto simp: r_def)
    with rec False fr rem show ?thesis by (auto simp: removeHint_def)
  qed
qed

lemma alloc_take_spec:
  assumes fl: "free_list p (ys @ e # zs)" and acc: "accounted p (ys @ e # zs)"
    and h: "0 < hint_nodes p" "\<forall>h \<in> set (hintActive p). hint_ok (ys @ e # zs) h"
    and n: "8 dvd n" "0 < n" "n \<le> snd e"
    and w: "wc \<le> length ys" and c: "\<forall>f \<in> set ys. snd f \<le> c"
  shows "\<exists>p'. alloc_take n ws hu (fst e) c wc (last_addr ys) p = Some (fst e, p') \<and>
    pool_inv p' (ys @ remainder (minimumFreeEntrySize p) n e @ zs) \<and>
    minimumFreeEntrySize p' = minimumFreeEntrySize p \<and>
    (\<forall>w. (w < fst e + n \<or> fst e + snd e \<le> w) \<and> w \<noteq> last_addr ys \<longrightarrow> mem p' w = mem p w)"
proof -
  let ?xs = "ys @ e # zs" and ?mn = "minimumFreeEntrySize p"
  have ch: "chain (mem p) (heapFreeList p) ?xs" and wf: "entries_wf ?mn ?xs"
    using fl by (auto simp: free_list_def)
  have e: "entry_ok ?mn e" using wf_position(4) [OF wf, of e] by simp
  have sz: "getSize (mem p) (fst e) = snd e" "getNext (mem p) (fst e) = head_addr zs"
    using ch chain_head_addr by (auto simp: lseg_append)
  have sr: "stats_ready (largeObjectAllocateStats p)" using acc by (simp add: accounted_def)
  from decrementStats_spec [OF sr, of "snd e"] entry_okD [OF e] obtain los where
    d: "decrementStats (snd e) p = Some (p \<lparr> largeObjectAllocateStats := los \<rparr>)" "stats_ready los"
      "total_count (freeEntrySizeClassStats los) =
        total_count (freeEntrySizeClassStats (largeObjectAllocateStats p)) - 1" by auto
  let ?p1 = "p \<lparr> largeObjectAllocateStats := los \<rparr>"
  have "\<exists>p2. (if J9MODRON_ALLOCATION_MANAGER_HINT_MAX_WALK \<le> wc \<or> 1 < wc \<and> hu
      then addHint (last_addr ys) c ?p1 else Some ?p1) = Some p2 \<and> rehinted ?xs ?p1 p2"
  proof (cases "J9MODRON_ALLOCATION_MANAGER_HINT_MAX_WALK \<le> wc \<or> 1 < wc \<and> hu")
    case True
    then have "ys \<noteq> []" using w by (auto simp: J9MODRON_ALLOCATION_MANAGER_HINT_MAX_WALK_def)
    then have la: "last_addr ys = fst (last ys)" "last ys \<in> set ys" by (auto simp: last_addr_def)
    have "fst (last ys) < fst e" using wf_position(1) [OF wf la(2)] .
    then have "\<forall>f \<in> set (e # zs). \<not> fst f \<le> last_addr ys"
      using wf_position(2) [OF wf] la(1) by (metis le_add1 le_trans not_le set_ConsD)
    then have "\<forall>f \<in> set ?xs. fst f \<le> last_addr ys \<longrightarrow> snd f \<le> c" using c by auto
    moreover have "last_addr ys \<in> fst ` set ?xs" using la by auto
    ultimately show ?thesis using True addHint_spec [of ?p1 ?xs] h by (auto simp: hint_nodes_def)
  next
    case False
    moreover have "rehinted ?xs ?p1 (?p1 \<lparr> hintActive := hintActive p, hintInactive := hintInactive p, hintLru := hintLru p \<rparr>)"
      unfolding rehinted_def using h(2)
      by (intro exI [of _ "hintActive p"] exI [of _ "hintInactive p"] exI [of _ "hintLru p"])
        (simp add: hint_nodes_def)
    ultimately show ?thesis by auto
  qed
  then obtain p2 where ah: "(if J9MODRON_ALLOCATION_MANAGER_HINT_MAX_WALK \<le> wc \<or> 1 < wc \<and> hu
      then addHint (last_addr ys) c ?p1 else Some ?p1) = Some p2" and rh: "rehinted ?xs ?p1 p2" by auto
  define p3 where "p3 = p2 \<lparr> freeMemorySize := usub (freeMemorySize p2) n, allocCount := uadd (allocCount p2) 1,
      allocBytes := uadd (allocBytes p2) n, allocSearchCount := uadd (allocSearchCount p2) wc \<rparr>"
  from rh obtain a i l where p2: "p2 = ?p1 \<lparr> hintActive := a, hintInactive := i, hintLru := l \<rparr>"
    and ai: "length a + length i = hint_nodes p" "\<forall>h \<in> set a. hint_ok ?xs h"
    by (auto simp: rehinted_def hint_nodes_def)
  have "usub (freeMemorySize p) n = entries_size ?xs - n"
    using acc n(3) by (simp add: accounted_def usub_exact)
  then have t: "taking n ys e zs p3"
    using ch wf acc d ai h by (simp add: taking_def p3_def p2 free_list_def accounted_def hint_nodes_def)
  have "usub (snd e) n = snd e - n" "uadd (fst e) n = fst e + n"
    "uadd (fst e + n) (snd e - n) = fst e + n + (snd e - n)"
    using n(3) entry_okD(8-10) [OF e] by (simp_all add: usub_exact uadd_exact)
  note ar = this
  from take_finish [OF t n] obtain b p4 p5 where
    rec: "recycleHeapChunk_between (fst e + n) (fst e + n + (snd e - n)) (last_addr ys) (head_addr zs) p3 = Some (b, p4)"
    and f: "(if b then do { q \<leftarrow> updateHint (fst e) (fst e + n) p4; incrementStats (snd e - n) q }
     else Some (removeHint (fst e) (p4 \<lparr> freeMemorySize := usub (freeMemorySize p4) (snd e - n),
            freeEntryCount := usub (freeEntryCount p4) 1,
            allocDiscardedBytes := uadd (allocDiscardedBytes p4) (snd e - n) \<rparr>))) = Some p5"
    and inv: "pool_inv p5 (ys @ remainder (minimumFreeEntrySize p3) n e @ zs)"
      "minimumFreeEntrySize p5 = minimumFreeEntrySize p3"
    and fr: "\<forall>w. (w < fst e + n \<or> fst e + snd e \<le> w) \<and> w \<noteq> last_addr ys \<longrightarrow> mem p5 w = mem p3 w"
    by blast
  let ?p6 = "if ws then p5 \<lparr> largeObjectAllocateStats := los_allocateObject n (largeObjectAllocateStats p5) \<rparr> else p5"
  have p3: "getSize (mem p3) (fst e) = snd e" "getNext (mem p3) (fst e) = head_addr zs" "mem p3 = mem p"
    "minimumFreeEntrySize p3 = ?mn" "getSize (mem p2) (fst e) = snd e"
    "getNext (mem p2) (fst e) = head_addr zs" using sz by (simp_all add: p3_def p2)
  have "alloc_take n ws hu (fst e) c wc (last_addr ys) p = Some (fst e, ?p6)"
    unfolding alloc_take_def sz(1) d(1)
    using ah rec f ar p3(1,2,5,6) entry_okD(2) [OF e]
    by (simp add: Let_def p3_def [symmetric] cong: if_cong del: One_nat_def split del: if_split)
  moreover have "pool_inv ?p6 (ys @ remainder ?mn n e @ zs)"
    using inv p3(4) by (simp add: pool_inv_def free_list_def accounted_def hints_ok_def hint_nodes_def
        los_allocateObject_keeps)
  ultimately show ?thesis using inv fr p3 by auto
qed

section \<open>Allocation is first fit\<close>

lemma split_at_fit:
  fixes n :: nat
  obtains "\<forall>f \<in> set xs. snd f < n"
    | ys e zs where "xs = ys @ e # zs" "\<forall>f \<in> set ys. snd f < n" "n \<le> snd e"
proof (cases "\<forall>f \<in> set xs. snd f < n")
  case False
  then have "\<exists>e \<in> set xs. n \<le> snd e" by (metis not_le)
  from split_list_first_prop [OF this] obtain ys e zs where
    "xs = ys @ e # zs" "n \<le> snd e" "\<forall>f \<in> set ys. \<not> n \<le> snd f" by blast
  then show ?thesis using that(2) [of ys e zs] by (simp add: not_le)
qed (rule that(1))

text \<open>The list as the search sees it: what a hint skips, and the rest from the hint on.\<close>

lemma hinted_start:
  assumes fl: "free_list p xs" and h: "hint_ok xs h" "hint_size h < n"
  obtains ys0 zs0 where "xs = ys0 @ zs0" "chain (mem p) (heapFreeHeader h) zs0"
    "\<forall>f \<in> set ys0. snd f \<le> hint_size h" "zs0 \<noteq> []" "snd (hd zs0) \<le> hint_size h"
proof -
  from h(1) obtain e where "e \<in> set xs" "fst e = heapFreeHeader h" by (auto simp: hint_ok_def)
  then obtain ys0 zs1 where xs: "xs = ys0 @ e # zs1" by (meson split_list)
  have "chain (mem p) (heapFreeHeader h) (e # zs1)"
    using fl \<open>fst e = heapFreeHeader h\<close> by (auto simp: xs free_list_def lseg_append)
  moreover have "snd f \<le> hint_size h" if "f \<in> set ys0" for f
    using wf_position(1) [of "minimumFreeEntrySize p" ys0 e zs1 f] fl h(1) that \<open>fst e = heapFreeHeader h\<close>
    by (auto simp: xs free_list_def hint_ok_def)
  moreover have "snd e \<le> hint_size h" using h(1) \<open>fst e = heapFreeHeader h\<close> by (auto simp: xs hint_ok_def)
  ultimately show ?thesis using that [of ys0 "e # zs1"] xs by auto
qed

lemma rehinted_inv:
  assumes "pool_inv p xs" "rehinted xs p p'"
  shows "pool_inv p' xs" "free_list p' xs" "accounted p' xs" "0 < hint_nodes p'"
    "\<forall>h \<in> set (hintActive p'). hint_ok xs h" "mem p' = mem p" "heapFreeList p' = heapFreeList p"
    "minimumFreeEntrySize p' = minimumFreeEntrySize p"
  using assms by (auto simp: pool_inv_def rehinted_def hints_ok_def free_list_def accounted_def hint_nodes_def)

lemma internalAllocate_spec:
  assumes inv: "pool_inv p xs" and n: "8 dvd n" "0 < n"
  shows "\<exists>p'. internalAllocate n ws p = Some (fst (first_fit (minimumFreeEntrySize p) n xs), p') \<and>
    pool_inv p' (snd (first_fit (minimumFreeEntrySize p) n xs)) \<and>
    minimumFreeEntrySize p' = minimumFreeEntrySize p"
proof -
  let ?mn = "minimumFreeEntrySize p"
  obtain hint p1 where fh: "findHint n p = (hint, p1)" by fastforce
  have ok: "hints_ok p xs" using inv by (simp add: pool_inv_def)
  note rh = findHint_spec(1) [OF ok fh]
  note i1 = rehinted_inv [OF inv rh]
  define start where "start = (case hint of Some h \<Rightarrow> heapFreeHeader h | None \<Rightarrow> heapFreeList p1)"
  define c0 where "c0 = (case hint of Some h \<Rightarrow> hint_size h | None \<Rightarrow> 0)"
  have "\<exists>ys0 zs0. xs = ys0 @ zs0 \<and> chain (mem p1) start zs0 \<and> (\<forall>f \<in> set ys0. snd f \<le> c0) \<and>
      (\<forall>f \<in> set ys0. snd f < n) \<and> (ys0 \<noteq> [] \<longrightarrow> zs0 \<noteq> [] \<and> snd (hd zs0) < n)"
  proof (cases hint)
    case None
    then show ?thesis using i1(2) by (intro exI [of _ "[]"] exI [of _ xs]) (simp add: start_def free_list_def)
  next
    case (Some h)
    have h: "hint_ok xs h" "hint_size h < n" using findHint_spec(2) [OF ok fh Some] i1(5) by auto
    obtain ys0 zs0 where "xs = ys0 @ zs0" "chain (mem p1) (heapFreeHeader h) zs0"
      "\<forall>f \<in> set ys0. snd f \<le> hint_size h" "zs0 \<noteq> []" "snd (hd zs0) \<le> hint_size h"
      using hinted_start [OF i1(2) h] by blast
    moreover have "\<forall>f \<in> set ys0. snd f < n" using calculation(3) h(2) le_less_trans by blast
    moreover have "snd (hd zs0) < n" using calculation(5) h(2) by simp
    moreover have "start = heapFreeHeader h" "c0 = hint_size h" using Some by (simp_all add: start_def c0_def)
    ultimately show ?thesis by blast
  qed
  then obtain ys0 zs0 where z: "xs = ys0 @ zs0" "chain (mem p1) start zs0" "\<forall>f \<in> set ys0. snd f \<le> c0"
    "\<forall>f \<in> set ys0. snd f < n" "ys0 \<noteq> [] \<longrightarrow> zs0 \<noteq> [] \<and> snd (hd zs0) < n" by auto
  have wf: "entries_wf ?mn xs" using i1(2,8) by (simp add: free_list_def)
  then have wfz: "entries_wf ?mn zs0" using z(1) by (simp add: entries_wf_append)
  have run: "internalAllocate n ws p = Option.bind (walk_list (alloc_body (mem p1) n) zs0 (0, c0, 0, NULL))
      (case_sum (\<lambda>(cur, _, c, wc, prev). alloc_take n ws (hint \<noteq> None) cur c wc prev p1)
        (\<lambda>(largest, _, _, _). Some (NULL, p1 \<lparr> largestFreeEntry := largest \<rparr>)))"
    unfolding internalAllocate_def fh walk_chain [OF z(2), symmetric] start_def c0_def
    by (cases hint) simp_all
  show ?thesis
  proof (cases rule: split_at_fit [of zs0 n])
    case 1
    from walk_search_miss [OF z(2) wfz 1, of 0 c0 0 NULL] obtain s where
      "walk_list (alloc_body (mem p1) n) zs0 (0, c0, 0, NULL) = Some (Inr (foldl max 0 (map snd zs0), s))" by blast
    then have "internalAllocate n ws p = Some (NULL, p1 \<lparr> largestFreeEntry := foldl max 0 (map snd zs0) \<rparr>)"
      unfolding run by (cases s) simp
    moreover have "first_fit ?mn n xs = (NULL, xs)" using 1 z(1,4) by (intro first_fit_none) auto
    ultimately show ?thesis using i1
      by (simp add: pool_inv_def free_list_def accounted_def hints_ok_def hint_nodes_def)
  next
    case (2 ys1 e zs)
    have xs: "xs = (ys0 @ ys1) @ e # zs" using z(1) 2(1) by simp
    have lt: "\<forall>f \<in> set (ys0 @ ys1). snd f < n" using z(4) 2(2) by auto
    have "ys0 \<noteq> [] \<longrightarrow> ys1 \<noteq> []" using z(5) 2 by (cases ys1) auto
    then have la: "(if ys1 = [] then NULL else last_addr ys1) = last_addr (ys0 @ ys1)"
      by (auto simp: last_addr_def)
    from walk_search_hit [of "mem p1" start ys1 e zs ?mn n 0 c0 0 NULL] z(2) wfz 2 la obtain l where
      "walk_list (alloc_body (mem p1) n) zs0 (0, c0, 0, NULL) =
        Some (Inl (fst e, l, search_size c0 ys1, length ys1, last_addr (ys0 @ ys1)))" by auto
    then have r: "internalAllocate n ws p =
        alloc_take n ws (hint \<noteq> None) (fst e) (search_size c0 ys1) (length ys1) (last_addr (ys0 @ ys1)) p1"
      unfolding run by simp
    have "\<forall>f \<in> set (ys0 @ ys1). snd f \<le> search_size c0 ys1"
      using z(3) search_size_bound [of c0 ys1] by auto
    from alloc_take_spec [OF i1(2,3) [unfolded xs] i1(4) i1(5) [unfolded xs] n 2(3) _ this, of "length ys1" ws "hint \<noteq> None"]
    show ?thesis
      unfolding r using first_fit_split [OF lt 2(3), of ?mn zs] i1(8) by (auto simp: xs)
  qed
qed

text \<open>What first fit hands out lies in one free entry and in none that is left.\<close>

lemma first_fit_block:
  assumes wf: "entries_wf mn xs" and f: "first_fit mn n xs = (a, ys)" and a: "a \<noteq> NULL"
  shows "\<exists>e \<in> set xs. fst e = a \<and> n \<le> snd e" "apart a (a + n) ys" "entries_size ys + n \<le> entries_size xs"
    "\<forall>f \<in> set ys. \<exists>e \<in> set xs. fst e \<le> fst f \<and> fst f + snd f \<le> fst e + snd e"
proof -
  have "\<not> (\<forall>f \<in> set xs. snd f < n)" using f a first_fit_none by fastforce
  then obtain ys1 e zs where x: "xs = ys1 @ e # zs" "\<forall>f \<in> set ys1. snd f < n" "n \<le> snd e"
    by (cases rule: split_at_fit [of xs n]) auto
  from first_fit_split [OF x(2,3), of mn zs] f have y: "a = fst e" "ys = ys1 @ remainder mn n e @ zs"
    by (auto simp: x(1))
  note pos = wf_position(2,3) [OF wf [unfolded x(1)]]
  show "\<exists>e \<in> set xs. fst e = a \<and> n \<le> snd e" using x y by auto
  have "\<forall>f \<in> set ys1. fst f + snd f \<le> a" "\<forall>f \<in> set zs. a + n \<le> fst f"
    using pos x(3) y(1) by fastforce+
  then show "apart a (a + n) ys" by (auto simp: y remainder_def apart_def)
  show "entries_size ys + n \<le> entries_size xs" using x(3) by (auto simp: y x(1) remainder_def)
  show "\<forall>f \<in> set ys. \<exists>e \<in> set xs. fst e \<le> fst f \<and> fst f + snd f \<le> fst e + snd e"
    using x(3) by (auto simp: y x(1) remainder_def split: if_splits)
qed

section \<open>Thread-local heaps\<close>

text \<open>
  A thread-local heap takes the head of the list: the requested size, the whole entry when it
  is smaller, and also what would be left below the minimum size.
\<close>

definition tlh_consumed :: "nat \<Rightarrow> nat \<Rightarrow> entry \<Rightarrow> nat" where
  "tlh_consumed mn mx e =
     (let c = min mx (snd e) in if snd e - c \<noteq> 0 \<and> snd e - c < mn then snd e else c)"

definition tlh_take :: "nat \<Rightarrow> nat \<Rightarrow> entry list \<Rightarrow> (addr \<times> addr) option \<times> entry list" where
  "tlh_take mn mx xs =
     (case xs of [] \<Rightarrow> (None, [])
      | e # zs \<Rightarrow> (let c = tlh_consumed mn mx e in (Some (fst e, fst e + c), remainder mn c e @ zs)))"

definition tlh_ready :: "nat \<Rightarrow> pool \<Rightarrow> bool" where
  "tlh_ready mx p \<longleftrightarrow> (\<forall>k. 0 < k \<and> k \<le> mx + minimumFreeEntrySize p \<longrightarrow>
     logSizeClass (largeObjectAllocateStats p) k < maxSizeClasses (tlhAllocSizeClassStats (largeObjectAllocateStats p)))"

lemma tlh_consumed_bounds:
  assumes "0 < mx" "8 dvd mx" "entry_ok mn e"
  shows "0 < tlh_consumed mn mx e" "tlh_consumed mn mx e \<le> snd e" "8 dvd tlh_consumed mn mx e"
    "tlh_consumed mn mx e \<le> mx + mn"
    "snd e - tlh_consumed mn mx e = 0 \<or> mn \<le> snd e - tlh_consumed mn mx e"
  using assms entry_okD(5,6) [OF assms(3)]
  by (auto simp: tlh_consumed_def Let_def min_def)

lemma incrementTlh_keeps:
  assumes "incrementTlhAllocSizeClassStats k los = Some los'"
  shows "freeEntrySizeClassStats los' = freeEntrySizeClassStats los" "stats_ready los' = stats_ready los"
  using assms by (auto simp: incrementTlhAllocSizeClassStats_def bind_eq_Some_conv Let_def stats_ready_def los_wf_def)

lemma incrementTlh_defined:
  assumes "stats_ready los" "0 < k" "k < UMAX" "logSizeClass los k < maxSizeClasses (tlhAllocSizeClassStats los)"
  shows "\<exists>los'. incrementTlhAllocSizeClassStats k los = Some los'"
  using assms by (auto simp: incrementTlhAllocSizeClassStats_def getSizeClassIndex_def stats_ready_def Let_def)

text \<open>Hints after the head of the list moved up: those on the old head are stale now.\<close>

lemma hints_ok_head:
  assumes wf: "entries_wf mn (e # zs)" and c: "0 < c" "c \<le> snd e"
    and h: "hints_ok p (e # zs)" and p: "heapFreeList p = fst e"
    and p': "hintActive p' = hintActive p" "hintInactive p' = hintInactive p"
      "heapFreeList p' = head_addr (remainder mn c e @ zs)"
  shows "hints_ok p' (remainder mn c e @ zs)"
proof -
  let ?xs = "remainder mn c e @ zs"
  have gt: "fst e + snd e \<le> fst f" if "f \<in> set zs" for f
    using wf_position(2) [of mn "[]" e zs f] wf that by simp
  have "0 < snd e" using c by simp
  then have hd: "head_addr ?xs = NULL \<or> fst e < head_addr ?xs"
    using c gt [of "hd zs"] by (cases "zs = []") (auto simp: remainder_def head_addr_def)
  have "stale_hint (head_addr ?xs) h \<or> hint_ok ?xs h" if "h \<in> set (hintActive p)" for h
  proof (cases "stale_hint (heapFreeList p) h \<or> heapFreeHeader h = fst e")
    case True
    moreover have "0 < fst e" using wf entry_okD(2) [of mn e] by (simp add: entries_wf_Cons)
    ultimately show ?thesis using p hd by (auto simp: stale_hint_def)
  next
    case False
    then have ok: "hint_ok ([] @ e # zs) h" using h that by (auto simp: hints_ok_def)
    show ?thesis
    proof (cases "remainder mn c e = []")
      case True
      with hint_ok_remove [OF ok] False show ?thesis by simp
    next
      case ne: False
      then have "remainder mn c e = [(fst e + c, snd e - c)]" "c < snd e"
        by (auto simp: remainder_def split: if_splits)
      with hint_ok_shrink [OF _ c(1) _ ok, of mn] wf False show ?thesis by simp
    qed
  qed
  with h p' show ?thesis by (auto simp: hints_ok_def hint_nodes_def)
qed

lemma internalAllocateTLH_empty:
  "pool_inv p [] \<Longrightarrow> internalAllocateTLH mx ws p = Some (None, p \<lparr> largestFreeEntry := 0 \<rparr>)"
  by (simp add: internalAllocateTLH_def pool_inv_def free_list_def)

text \<open>The statistics part of a TLH allocation.\<close>

lemma tlh_stats:
  assumes sr: "stats_ready (largeObjectAllocateStats p)" and c: "0 < c" "c < UMAX"
    and t: "ws \<longrightarrow> logSizeClass (largeObjectAllocateStats p) c
              < maxSizeClasses (tlhAllocSizeClassStats (largeObjectAllocateStats p))"
  shows "\<exists>los. (if ws then do { los \<leftarrow> incrementTlhAllocSizeClassStats c (largeObjectAllocateStats p);
                               Some (p \<lparr> largeObjectAllocateStats := los \<rparr>) } else Some p)
      = Some (p \<lparr> largeObjectAllocateStats := los \<rparr>) \<and> stats_ready los \<and>
    freeEntrySizeClassStats los = freeEntrySizeClassStats (largeObjectAllocateStats p)"
proof (cases ws)
  case True
  with incrementTlh_defined [OF sr c] t obtain los where
    "incrementTlhAllocSizeClassStats c (largeObjectAllocateStats p) = Some los" by auto
  with True sr incrementTlh_keeps [OF this] show ?thesis by auto
next
  case False
  with sr show ?thesis by (intro exI [of _ "largeObjectAllocateStats p"]) simp
qed

lemma decrement_field:
  "decrementStats n p = Some p' \<Longrightarrow>
    logSizeClass (largeObjectAllocateStats p') = logSizeClass (largeObjectAllocateStats p) \<and>
    tlhAllocSizeClassStats (largeObjectAllocateStats p') = tlhAllocSizeClassStats (largeObjectAllocateStats p)"
  by (auto simp: decrementStats_def decrementFreeEntrySizeClassStats_def bind_eq_Some_conv)

text \<open>The list after the head was consumed, on either branch.\<close>

lemma tlh_relink:
  assumes wf: "entries_wf (minimumFreeEntrySize p) (e # zs)" and ch: "chain (mem p) (head_addr zs) zs"
    and c: "0 < c" "c \<le> snd e" "8 dvd c" "c < snd e \<longrightarrow> minimumFreeEntrySize p \<le> snd e - c"
    and sr: "stats_ready (largeObjectAllocateStats p)"
      "total_count (freeEntrySizeClassStats (largeObjectAllocateStats p)) = of_nat (length zs)"
    and acc: "freeMemorySize p = snd e - c + entries_size zs" "entries_size (e # zs) < UMAX"
      "freeEntryCount p = Suc (length zs)" "Suc (length zs) < UMAX"
    and top: "top1 = fst e + c"
  defines "zs' \<equiv> remainder (minimumFreeEntrySize p) c e @ zs" and "r \<equiv> snd e - c"
  shows "\<exists>p'. (if 0 < r then
        do { (recycled, p) \<leftarrow> recycleHeapChunk_between top1 (uadd top1 r) NULL (head_addr zs) p;
             (if recycled then incrementStats r p
              else Some (p \<lparr> freeMemorySize := usub (freeMemorySize p) r,
                     freeEntryCount := usub (freeEntryCount p) 1,
                     allocDiscardedBytes := uadd (allocDiscardedBytes p) r \<rparr>)) }
      else Some (p \<lparr> heapFreeList := head_addr zs, freeEntryCount := usub (freeEntryCount p) 1 \<rparr>)) = Some p' \<and>
    free_list p' zs' \<and> accounted p' zs' \<and> hintActive p' = hintActive p \<and> hintInactive p' = hintInactive p \<and>
    minimumFreeEntrySize p' = minimumFreeEntrySize p"
proof -
  let ?mn = "minimumFreeEntrySize p"
  have e: "entry_ok ?mn e" "entries_wf ?mn zs" using wf by (simp_all add: entries_wf_Cons)
  have bd: "fst e + snd e < UMAX" "0 < fst e" "8 dvd fst e" "8 dvd snd e" using entry_okD [OF e(1)] by auto
  show ?thesis
  proof (cases "0 < r")
    case True
    have u: "uadd top1 r = top1 + r" using bd c(2) by (simp add: top r_def uadd_exact)
    have pos: "\<forall>f \<in> set zs. top1 + r \<le> fst f"
      using wf_position(2) [of ?mn "[]" e zs] wf c(2) by (simp add: top r_def)
    have r: "8 dvd top1" "0 < top1" "8 dvd r" "top1 + r < UMAX"
      using bd c by (auto simp: top r_def)
    from recycle_between_spec [of p "[]" zs "heapFreeList p" top1 r] e(2) ch r pos obtain m' h' where
      rec: "recycleHeapChunk_between top1 (top1 + r) NULL (head_addr zs) p =
        Some (16 \<le> r \<and> ?mn \<le> r, p \<lparr> mem := m', heapFreeList := h' \<rparr>)"
      and ch': "chain m' h' (linked ?mn [] top1 r zs)" by auto
    have zs': "linked ?mn [] top1 r zs = zs'" by (simp add: linked_def zs'_def remainder_def top r_def)
    have wf': "entries_wf ?mn zs'"
      using linked_wf [of ?mn "[]" zs top1 r] e(2) r pos by (simp add: zs')
    let ?p = "p \<lparr> mem := m', heapFreeList := h' \<rparr>"
    show ?thesis
    proof (cases "16 \<le> r")
      case big: True
      have mn: "?mn \<le> r" using True c(4) by (simp add: r_def)
      from incrementStats_spec [of ?p r] sr True r obtain los where
        i: "incrementStats r ?p = Some (?p \<lparr> largeObjectAllocateStats := los \<rparr>)" "stats_ready los"
          "total_count (freeEntrySizeClassStats los) = of_nat (length zs) + 1" by auto
      have "zs' = (top1, r) # zs" using big mn by (simp add: zs'_def remainder_def r_def top)
      then show ?thesis using rec True big mn i u ch' wf' zs' acc sr c(2)
        by (auto simp: free_list_def accounted_def r_def)
    next
      case small: False
      have "zs' = zs" using small by (simp add: zs'_def remainder_def r_def)
      then show ?thesis using rec True small u ch' wf' zs' acc sr c(2)
        by (simp add: free_list_def accounted_def r_def usub_exact)
    qed
  next
    case False
    then have "zs' = zs" by (simp add: zs'_def remainder_def r_def)
    then show ?thesis using False e(2) ch acc sr
      by (simp add: free_list_def accounted_def r_def usub_exact)
  qed
qed

lemma internalAllocateTLH_spec:
  assumes inv: "pool_inv p (e # zs)" and mx: "8 dvd mx" "0 < mx" and t: "ws \<longrightarrow> tlh_ready mx p"
  defines "c \<equiv> tlh_consumed (minimumFreeEntrySize p) mx e"
  shows "\<exists>p'. internalAllocateTLH mx ws p = Some (Some (fst e, fst e + c), p') \<and>
    pool_inv p' (remainder (minimumFreeEntrySize p) c e @ zs) \<and>
    minimumFreeEntrySize p' = minimumFreeEntrySize p"
proof -
  let ?mn = "minimumFreeEntrySize p" and ?e = "fst e"
  have ch: "chain (mem p) (heapFreeList p) (e # zs)" and wf: "entries_wf ?mn (e # zs)"
    and ac: "accounted p (e # zs)" and ho: "hints_ok p (e # zs)"
    using inv by (auto simp: pool_inv_def free_list_def)
  have e: "entry_ok ?mn e" using wf by (simp add: entries_wf_Cons)
  note eo = entry_okD [OF e]
  have hd: "heapFreeList p = ?e" "getSize (mem p) ?e = snd e" "getNext (mem p) ?e = head_addr zs"
    "chain (mem p) (head_addr zs) zs" using ch chain_head_addr by auto
  note cb = tlh_consumed_bounds [OF mx(2,1) e, folded c_def]
  have sr: "stats_ready (largeObjectAllocateStats p)" using ac by (simp add: accounted_def)
  from decrementStats_spec [OF sr, of "snd e"] eo ac obtain l1 where
    d: "decrementStats (snd e) p = Some (p \<lparr> largeObjectAllocateStats := l1 \<rparr>)" "stats_ready l1"
      "total_count (freeEntrySizeClassStats l1) = of_nat (length zs)" by (auto simp: accounted_def)
  let ?q = "p \<lparr> largeObjectAllocateStats := l1 \<rparr>"
  define p1 where "p1 = ?q \<lparr> freeMemorySize := usub (freeMemorySize ?q) c,
      allocCount := uadd (allocCount ?q) 1, allocBytes := uadd (allocBytes ?q) c \<rparr>"
  have "ws \<longrightarrow> logSizeClass l1 c < maxSizeClasses (tlhAllocSizeClassStats l1)"
    using t cb(1,4) decrement_field [OF d(1)] by (simp add: tlh_ready_def)
  from tlh_stats [of p1 c ws] this d cb eo obtain l2 where
    s: "(if ws then do { los \<leftarrow> incrementTlhAllocSizeClassStats c (largeObjectAllocateStats p1);
                               Some (p1 \<lparr> largeObjectAllocateStats := los \<rparr>) } else Some p1)
      = Some (p1 \<lparr> largeObjectAllocateStats := l2 \<rparr>)" "stats_ready l2"
      "freeEntrySizeClassStats l2 = freeEntrySizeClassStats l1" by (auto simp: p1_def)
  let ?p2 = "p1 \<lparr> largeObjectAllocateStats := l2 \<rparr>"
  have cz: "c < snd e \<longrightarrow> ?mn \<le> snd e - c" using cb(5) by auto
  have ar: "usub (snd e) (min mx (snd e)) = snd e - min mx (snd e)"
    "uadd ?e c = ?e + c" using eo cb(2) by (simp_all add: usub_exact uadd_exact)
  have fm: "usub (freeMemorySize p) c = snd e - c + entries_size zs"
    using ac cb(2) by (simp add: accounted_def usub_exact)
  from tlh_relink [of ?p2 e zs c "?e + c"] wf hd(4) cb(1-3) cz d s(2,3) ac fm obtain p' where
    r: "(if 0 < snd e - c then
        do { (recycled, p) \<leftarrow> recycleHeapChunk_between (?e + c) (uadd (?e + c) (snd e - c)) NULL (head_addr zs) ?p2;
             (if recycled then incrementStats (snd e - c) p
              else Some (p \<lparr> freeMemorySize := usub (freeMemorySize p) (snd e - c),
                     freeEntryCount := usub (freeEntryCount p) 1,
                     allocDiscardedBytes := uadd (allocDiscardedBytes p) (snd e - c) \<rparr>)) }
      else Some (?p2 \<lparr> heapFreeList := head_addr zs, freeEntryCount := usub (freeEntryCount ?p2) 1 \<rparr>)) = Some p'"
    and i: "free_list p' (remainder ?mn c e @ zs)" "accounted p' (remainder ?mn c e @ zs)"
      "hintActive p' = hintActive p" "hintInactive p' = hintInactive p" "minimumFreeEntrySize p' = ?mn"
    by (auto simp: p1_def accounted_def)
  have split: "(if snd e - min mx (snd e) \<noteq> 0 \<and> snd e - min mx (snd e) < ?mn
      then (uadd (min mx (snd e)) (snd e - min mx (snd e)), 0)
      else (min mx (snd e), snd e - min mx (snd e))) = (c, snd e - c)"
    using eo by (auto simp: c_def tlh_consumed_def Let_def uadd_exact)
  have mn: "minimumFreeEntrySize ?q = ?mn" by simp
  have emn: "?mn \<le> snd e" using e by (simp add: entry_ok_def)
  have mi: "(if snd e < mx then snd e else mx) = min mx (snd e)" by simp
  have m1: "getNext (mem p1) ?e = head_addr zs" using hd(3) by (simp add: p1_def)
  have "internalAllocateTLH mx ws p = Some (Some (?e, ?e + c), p')"
    unfolding internalAllocateTLH_def hd(1,2) Let_def d(1) Option.bind.simps mi ar(1) mn split prod.case
      p1_def [symmetric] s(1)
    using eo(2) emn r by (simp add: ar m1 cong: if_cong del: One_nat_def split del: if_split)
  moreover have "hints_ok p' (remainder ?mn c e @ zs)"
    using hints_ok_head [OF wf cb(1,2) ho hd(1) i(3,4)] i(1) chain_head_addr by (auto simp: free_list_def)
  ultimately show ?thesis using i by (simp add: pool_inv_def)
qed

end
