(* ===== verification/Pool_Contract.thy ===== *)
theory Pool_Contract
  imports Pool_Alloc
begin

text \<open>
  The contract of an allocator over a free list, and what follows from it for any sequence of
  requests.  The address-ordered pool provides the contract with its object and thread-local
  heap allocations in any order.
\<close>

section \<open>The contract\<close>

type_synonym block = "addr \<times> addr"

text \<open>What one request may do to the free entries \<open>xs\<close>: nothing, or hand out one block.\<close>

definition within :: "block \<Rightarrow> entry list \<Rightarrow> bool" where
  "within b xs \<longleftrightarrow> (\<exists>e \<in> set xs. fst e \<le> fst b \<and> snd b \<le> fst e + snd e)"

definition granted :: "entry list \<Rightarrow> block option \<Rightarrow> entry list \<Rightarrow> bool" where
  "granted xs r ys \<longleftrightarrow>
     (case r of None \<Rightarrow> ys = xs
      | Some b \<Rightarrow> fst b < snd b \<and> within b xs \<and> apart (fst b) (snd b) ys \<and>
          entries_size ys + (snd b - fst b) \<le> entries_size xs \<and>
          (\<forall>f \<in> set ys. within (fst f, fst f + snd f) xs))"

definition disjoint_blocks :: "block \<Rightarrow> block \<Rightarrow> bool" where
  "disjoint_blocks a b \<longleftrightarrow> snd a \<le> fst b \<or> snd b \<le> fst a"

definition blocks_size :: "block list \<Rightarrow> nat" where
  "blocks_size bs = sum_list (map (\<lambda>b. snd b - fst b) bs)"

lemma blocks_size_simps [simp]:
  "blocks_size [] = 0" "blocks_size (b # bs) = snd b - fst b + blocks_size bs"
  by (simp_all add: blocks_size_def)

text \<open>A sequence of requests: the blocks handed out, oldest first, and the final state.\<close>

fun serve_all :: "('r \<Rightarrow> 's \<Rightarrow> (block option \<times> 's) option) \<Rightarrow> 'r list \<Rightarrow> 's \<Rightarrow> (block list \<times> 's) option" where
  "serve_all serve [] s = Some ([], s)"
| "serve_all serve (r # rs) s =
     do { (b, s) \<leftarrow> serve r s; (bs, s) \<leftarrow> serve_all serve rs s;
          Some ((case b of None \<Rightarrow> bs | Some b \<Rightarrow> b # bs), s) }"

lemma within_trans:
  assumes "within b ys" "\<forall>f \<in> set ys. within (fst f, fst f + snd f) xs"
  shows "within b xs"
proof -
  from assms(1) obtain e where e: "e \<in> set ys" "fst e \<le> fst b" "snd b \<le> fst e + snd e" by (auto simp: within_def)
  with assms(2) obtain f where "f \<in> set xs" "fst f \<le> fst e" "fst e + snd e \<le> fst f + snd f"
    by (auto simp: within_def)
  with e show ?thesis unfolding within_def by (meson order_trans)
qed

lemma apart_within:
  assumes "apart lo hi ys" "within b ys"
  shows "disjoint_blocks (lo, hi) b"
  using assms by (fastforce simp: apart_def within_def disjoint_blocks_def)

locale free_store =
  fixes inv :: "'s \<Rightarrow> entry list \<Rightarrow> bool"
    and serve :: "'r \<Rightarrow> 's \<Rightarrow> (block option \<times> 's) option"
    and valid :: "'r \<Rightarrow> bool"
  assumes serve_step: "inv s xs \<Longrightarrow> valid r \<Longrightarrow> \<exists>b s' ys. serve r s = Some (b, s') \<and> inv s' ys \<and> granted xs b ys"
begin

lemma serve_all_step:
  assumes "inv s xs" "\<forall>r \<in> set rs. valid r"
  shows "\<exists>bs s' ys. serve_all serve rs s = Some (bs, s') \<and> inv s' ys \<and>
    (\<forall>b \<in> set bs. fst b < snd b \<and> within b xs) \<and> sorted_wrt disjoint_blocks bs \<and>
    (\<forall>b \<in> set bs. apart (fst b) (snd b) ys) \<and> (\<forall>f \<in> set ys. within (fst f, fst f + snd f) xs) \<and>
    entries_size ys + blocks_size bs \<le> entries_size xs"
  using assms
proof (induction rs arbitrary: s xs)
  case Nil
  then show ?case by (auto simp: within_def)
next
  case (Cons r rs)
  from serve_step [of s xs r] Cons.prems obtain b s1 xs1 where
    1: "serve r s = Some (b, s1)" "inv s1 xs1" "granted xs b xs1" by auto
  from Cons.IH [OF 1(2)] Cons.prems(2) obtain bs s' ys where
    2: "serve_all serve rs s1 = Some (bs, s')" "inv s' ys" "\<forall>b \<in> set bs. fst b < snd b \<and> within b xs1"
      "sorted_wrt disjoint_blocks bs" "\<forall>b \<in> set bs. apart (fst b) (snd b) ys"
      "\<forall>f \<in> set ys. within (fst f, fst f + snd f) xs1" "entries_size ys + blocks_size bs \<le> entries_size xs1" by auto
  show ?case
  proof (cases b)
    case None
    with 1 2 show ?thesis by (auto simp: granted_def)
  next
    case (Some c)
    with 1(3) have c: "fst c < snd c" "within c xs" "apart (fst c) (snd c) xs1"
      "entries_size xs1 + (snd c - fst c) \<le> entries_size xs"
      "\<forall>f \<in> set xs1. within (fst f, fst f + snd f) xs" by (auto simp: granted_def)
    have "\<forall>d \<in> set bs. disjoint_blocks c d"
      using apart_within [OF c(3)] 2(3) by (metis prod.collapse)
    moreover have "apart (fst c) (snd c) ys"
      using apart_within [OF c(3)] 2(6) by (fastforce simp: apart_def disjoint_blocks_def)
    moreover have "\<forall>d \<in> set bs. within d xs" "\<forall>f \<in> set ys. within (fst f, fst f + snd f) xs"
      using within_trans [OF _ c(5)] 2(3,6) by blast+
    ultimately show ?thesis using 1 2 c Some by auto
  qed
qed

end

section \<open>The pool provides it\<close>

datatype request = Object nat | TLH nat

text \<open>
  One request of the mutators on a pool: an object of \<open>n\<close> bytes or a thread-local heap of at
  most \<open>n\<close> bytes.
\<close>

fun pool_serve :: "bool \<Rightarrow> request \<Rightarrow> pool \<Rightarrow> (block option \<times> pool) option" where
  "pool_serve ws (Object n) p =
     do { (a, p) \<leftarrow> internalAllocate n ws p; Some (if a = NULL then None else Some (a, a + n), p) }"
| "pool_serve ws (TLH n) p = internalAllocateTLH n ws p"

definition pool_request :: "nat \<Rightarrow> request \<Rightarrow> bool" where
  "pool_request mx r \<longleftrightarrow> (case r of Object n \<Rightarrow> 8 dvd n \<and> 0 < n | TLH n \<Rightarrow> 8 dvd n \<and> 0 < n \<and> n \<le> mx)"

text \<open>The parameters a pool keeps for its whole life, as far as the requests depend on them.\<close>

definition same_geometry :: "pool \<Rightarrow> pool \<Rightarrow> bool" where
  "same_geometry p p' \<longleftrightarrow> minimumFreeEntrySize p' = minimumFreeEntrySize p \<and>
     logSizeClass (largeObjectAllocateStats p') = logSizeClass (largeObjectAllocateStats p) \<and>
     maxSizeClasses (tlhAllocSizeClassStats (largeObjectAllocateStats p')) =
       maxSizeClasses (tlhAllocSizeClassStats (largeObjectAllocateStats p))"

lemma same_geometry_trans: "same_geometry p q \<Longrightarrow> same_geometry q r \<Longrightarrow> same_geometry p r"
  by (simp add: same_geometry_def)

lemma same_geometry_ready: "same_geometry p p' \<Longrightarrow> tlh_ready mx p' = tlh_ready mx p"
  by (simp add: same_geometry_def tlh_ready_def)

lemma geometry_stats:
  "decrementStats n p = Some p' \<Longrightarrow> same_geometry p p'" "incrementStats n p = Some p' \<Longrightarrow> same_geometry p p'"
  by (auto simp: decrementStats_def incrementStats_def decrementFreeEntrySizeClassStats_def
      incrementFreeEntrySizeClassStats_def bind_eq_Some_conv same_geometry_def split: prod.splits)

lemma geometry_hints:
  "addHint e c p = Some p' \<Longrightarrow> same_geometry p p'" "updateHint a b p = Some p' \<Longrightarrow> same_geometry p p'"
  "same_geometry p (removeHint e p)" "same_geometry p (snd (findHint n p))"
  by (auto simp: addHint_def updateHint_def removeHint_def findHint_def bind_eq_Some_conv same_geometry_def Let_def
      split: prod.splits if_splits list.splits option.splits)

lemma geometry_recycle:
  "recycleHeapChunk_between a b c d p = Some (r, p') \<Longrightarrow> same_geometry p p'"
  by (auto simp: recycleHeapChunk_between_def internalRecycleHeapChunk_def bind_eq_Some_conv same_geometry_def Let_def
      split: prod.splits if_splits)

lemma geometry_fields [simp]:
  "same_geometry p (p \<lparr> freeMemorySize := a, allocCount := b, allocBytes := c, allocSearchCount := d \<rparr>)"
  "same_geometry p (p \<lparr> freeMemorySize := a, freeEntryCount := b, allocDiscardedBytes := c \<rparr>)"
  "same_geometry p (p \<lparr> freeMemorySize := a, allocCount := b, allocBytes := c \<rparr>)"
  "same_geometry p (p \<lparr> heapFreeList := h, freeEntryCount := b \<rparr>)"
  "same_geometry p (p \<lparr> largestFreeEntry := h \<rparr>)" "same_geometry p p"
  by (simp_all add: same_geometry_def)

lemma geometry_take:
  assumes "alloc_take n ws hu cur c wc prev p = Some (a, p')"
  shows "same_geometry p p'"
proof -
  let ?f = "\<lambda>q. q \<lparr> freeMemorySize := usub (freeMemorySize q) n, allocCount := uadd (allocCount q) 1,
      allocBytes := uadd (allocBytes q) n, allocSearchCount := uadd (allocSearchCount q) wc \<rparr>"
  let ?g = "\<lambda>q r. q \<lparr> freeMemorySize := usub (freeMemorySize q) r, freeEntryCount := usub (freeEntryCount q) 1,
      allocDiscardedBytes := uadd (allocDiscardedBytes q) r \<rparr>"
  from assms obtain p1 p2 b p3 p4 e s r x y z v where
    1: "decrementStats z p = Some p1" and
    2: "(if x then addHint prev c p1 else Some p1) = Some p2" and
    3: "recycleHeapChunk_between e s prev v (?f p2) = Some (b, p3)" and
    4: "(if b then do { q \<leftarrow> updateHint cur e p3; incrementStats r q } else Some (removeHint cur (?g p3 r))) = Some p4" and
    5: "p' = (if ws then p4 \<lparr> largeObjectAllocateStats := y \<rparr> else p4)" "y = los_allocateObject n (largeObjectAllocateStats p4)"
    by (auto simp: alloc_take_def bind_eq_Some_conv Let_def simp del: One_nat_def split del: if_split)
  have g2: "same_geometry p1 p2" using 2 geometry_hints(1) by (auto split: if_splits)
  have g3: "same_geometry p2 p3" using geometry_recycle [OF 3] same_geometry_trans geometry_fields(1) by blast
  have g4: "same_geometry p3 p4"
  proof (cases b)
    case True
    with 4 obtain q where "updateHint cur e p3 = Some q" "incrementStats r q = Some p4"
      by (auto simp: bind_eq_Some_conv)
    then show ?thesis using geometry_hints(2) geometry_stats(2) same_geometry_trans by blast
  next
    case False
    with 4 have "p4 = removeHint cur (?g p3 r)" by simp
    then show ?thesis using geometry_hints(3) same_geometry_trans geometry_fields(2) by blast
  qed
  have "same_geometry p4 p'" using 5 by (auto simp: same_geometry_def los_allocateObject_def Let_def)
  with geometry_stats(1) [OF 1] g2 g3 g4 same_geometry_trans show ?thesis by blast
qed

lemma geometry_allocate:
  assumes "internalAllocate n ws p = Some (a, p')"
  shows "same_geometry p p'"
proof -
  obtain h q where f: "findHint n p = (h, q)" by fastforce
  have q: "same_geometry p q" using geometry_hints(4) [of p n] f by simp
  from assms f obtain r :: "addr \<times> search_state + search_state" where
    r: "(case r of Inr s \<Rightarrow> Some (NULL, q \<lparr> largestFreeEntry := fst s \<rparr>)
       | Inl s \<Rightarrow> alloc_take n ws (\<exists>y. h = Some y) (fst s) (fst (snd (snd s))) (fst (snd (snd (snd s))))
           (snd (snd (snd (snd s)))) q) = Some (a, p')"
    by (auto simp: internalAllocate_def bind_eq_Some_conv case_prod_unfold Let_def)
  then have "same_geometry q p'" by (cases r) (auto dest: geometry_take)
  with q same_geometry_trans show ?thesis by blast
qed

lemma geometry_tlh_stats:
  assumes "(if ws then do { los \<leftarrow> incrementTlhAllocSizeClassStats c (largeObjectAllocateStats p);
              Some (p \<lparr> largeObjectAllocateStats := los \<rparr>) } else Some p) = Some p'"
  shows "same_geometry p p'"
  using assms by (auto simp: incrementTlhAllocSizeClassStats_def bind_eq_Some_conv Let_def same_geometry_def split: if_splits)

lemma geometry_allocateTLH:
  assumes "internalAllocateTLH n ws p = Some (b, p')"
  shows "same_geometry p p'"
proof (cases "heapFreeList p = NULL")
  case True
  with assms show ?thesis by (auto simp: internalAllocateTLH_def)
next
  case False
  let ?f = "\<lambda>q c. q \<lparr> freeMemorySize := usub (freeMemorySize q) c, allocCount := uadd (allocCount q) 1,
      allocBytes := uadd (allocBytes q) c \<rparr>"
  let ?g = "\<lambda>q r. q \<lparr> freeMemorySize := usub (freeMemorySize q) r, freeEntryCount := usub (freeEntryCount q) 1,
      allocDiscardedBytes := uadd (allocDiscardedBytes q) r \<rparr>"
  from assms False obtain p1 p2 z c r s where
    1: "decrementStats z p = Some p1" and
    2: "(if ws then do { los \<leftarrow> incrementTlhAllocSizeClassStats c (largeObjectAllocateStats (?f p1 c));
              Some (?f p1 c \<lparr> largeObjectAllocateStats := los \<rparr>) } else Some (?f p1 c)) = Some p2" and
    3: "(if 0 < r then do { (recycled, q) \<leftarrow> recycleHeapChunk_between s (uadd s r) NULL
            (getNext (mem p2) (heapFreeList p)) p2;
          (if recycled then incrementStats r q else Some (?g q r)) }
        else Some (p2 \<lparr> heapFreeList := getNext (mem p2) (heapFreeList p), freeEntryCount := usub (freeEntryCount p2) 1 \<rparr>))
        = Some p'"
    unfolding internalAllocateTLH_def Let_def
    by (auto simp: bind_eq_Some_conv prod.case_eq_if simp del: One_nat_def split del: if_split)
  have "same_geometry p2 p'"
  proof (cases "0 < r")
    case True
    with 3 obtain t q where q: "recycleHeapChunk_between s (uadd s r) NULL (getNext (mem p2) (heapFreeList p)) p2 = Some (t, q)"
      "(if t then incrementStats r q else Some (?g q r)) = Some p'"
      by (auto simp: bind_eq_Some_conv simp del: One_nat_def split del: if_split)
    have "same_geometry q p'" using q(2) geometry_stats(2) by (auto split: if_splits)
    with geometry_recycle [OF q(1)] same_geometry_trans show ?thesis by blast
  next
    case False
    with 3 show ?thesis by auto
  qed
  with geometry_stats(1) [OF 1] geometry_tlh_stats [OF 2] same_geometry_trans geometry_fields(3) show ?thesis by blast
qed

section \<open>Interpretation\<close>

lemma remainder_entry:
  assumes wf: "entries_wf mn (e # zs)" and c: "0 < c" "c \<le> snd e"
  shows "granted (e # zs) (Some (fst e, fst e + c)) (remainder mn c e @ zs)"
proof -
  have gt: "fst e + snd e \<le> fst f" if "f \<in> set zs" for f
    using wf_position(2) [of mn "[]" e zs f] wf that by simp
  have "apart (fst e) (fst e + c) zs" using gt c by (fastforce simp: apart_def)
  then show ?thesis using c by (auto simp: granted_def within_def remainder_def)
qed

lemma first_fit_granted:
  assumes wf: "entries_wf mn xs" and n: "0 < n" and f: "first_fit mn n xs = (a, ys)"
  shows "granted xs (if a = NULL then None else Some (a, a + n)) ys"
proof (cases "a = NULL")
  case False
  note b = first_fit_block [OF wf f False]
  from b(1) obtain e where "e \<in> set xs" "fst e = a" "n \<le> snd e" by blast
  then have "within (a, a + n) xs" unfolding within_def by (intro bexI [of _ e]) auto
  moreover have "\<forall>f \<in> set ys. within (fst f, fst f + snd f) xs" using b(4) unfolding within_def by simp
  ultimately show ?thesis using b(2,3) n False by (simp add: granted_def)
next
  case True
  have "ys = xs"
  proof (cases rule: split_at_fit [of xs n])
    case 1
    with f show ?thesis using first_fit_none by fastforce
  next
    case (2 us e vs)
    with f True have "fst e = NULL" using first_fit_split [OF 2(2,3)] by auto
    moreover have "entry_ok mn e" using wf wf_position(4) [of mn us e vs e] 2(1) by simp
    ultimately show ?thesis using entry_okD(2) by fastforce
  qed
  with True show ?thesis by (simp add: granted_def)
qed

lemma pool_serve_step:
  assumes "pool_inv p xs \<and> tlh_ready mx p" "pool_request mx r"
  shows "\<exists>b p' ys. pool_serve ws r p = Some (b, p') \<and> (pool_inv p' ys \<and> tlh_ready mx p') \<and> granted xs b ys"
proof (cases r)
  case (Object n)
  then have n: "8 dvd n" "0 < n" using assms(2) by (auto simp: pool_request_def)
  obtain a ys where f: "first_fit (minimumFreeEntrySize p) n xs = (a, ys)" by fastforce
  from internalAllocate_spec [OF _ n, of p xs ws] assms(1) f obtain p' where
    i: "internalAllocate n ws p = Some (a, p')" "pool_inv p' ys" by auto
  have "entries_wf (minimumFreeEntrySize p) xs" using assms(1) by (simp add: pool_inv_def free_list_def)
  from first_fit_granted [OF this n(2) f] i geometry_allocate [OF i(1)] assms(1) Object
  show ?thesis using same_geometry_ready by auto
next
  case (TLH n)
  then have n: "8 dvd n" "0 < n" "n \<le> mx" using assms(2) by (auto simp: pool_request_def)
  show ?thesis
  proof (cases xs)
    case Nil
    then show ?thesis using assms(1) TLH internalAllocateTLH_empty [of p n ws]
      by (auto simp: granted_def tlh_ready_def pool_inv_def free_list_def accounted_def hints_ok_def hint_nodes_def)
  next
    case (Cons e zs)
    let ?c = "tlh_consumed (minimumFreeEntrySize p) n e"
    have t: "ws \<longrightarrow> tlh_ready n p" using assms(1) n(3) by (auto simp: tlh_ready_def)
    from internalAllocateTLH_spec [OF _ n(1,2) t, of e zs] assms(1) Cons obtain p' where
      i: "internalAllocateTLH n ws p = Some (Some (fst e, fst e + ?c), p')"
        "pool_inv p' (remainder (minimumFreeEntrySize p) ?c e @ zs)" by auto
    have wf: "entries_wf (minimumFreeEntrySize p) (e # zs)"
      using assms(1) Cons by (simp add: pool_inv_def free_list_def)
    then have "0 < ?c" "?c \<le> snd e" using tlh_consumed_bounds [OF n(2,1)] by (auto simp: entries_wf_Cons)
    from remainder_entry [OF wf this] i geometry_allocateTLH [OF i(1)] assms(1) TLH Cons
    show ?thesis using same_geometry_ready by auto
  qed
qed

interpretation aol: free_store "\<lambda>p xs. pool_inv p xs \<and> tlh_ready mx p" "pool_serve ws" "pool_request mx"
  for mx ws
  by unfold_locales (rule pool_serve_step)

section \<open>A concrete pool\<close>

text \<open>
  Two free entries of 64 and 128 bytes at 1024 and 2048, one size class, no hints yet: the state
  the examples below start from.
\<close>

definition stats_example :: "uword \<Rightarrow> LargeObjectAllocateStats" where
  "stats_example n =
     (let s = \<lparr> fe_count = [n], frequentAllocationHead = [[]], maxSizeClasses = 1, freeHeadVeryLargeEntry = [],
                maxFrequentAllocateSizes = 1, maxVeryLargeEntrySizes = 0, fe_veryLargeEntrySizeClass = 1,
                frequentAllocateSizeCounters = 0, guarantyEnoughPoolSizeForVeryLargeEntry = False \<rparr>
      in \<lparr> spaceSavingSizes = rankingNew 2, spaceSavingSizeClasses = rankingNew 2,
           spaceSavingSizesAveragePercent = rankingNew 2, spaceSavingSizeClassesAveragePercent = rankingNew 2,
           largeObjectThreshold = 1024, veryLargeEntrySizeClass = 1, freeEntrySizeClassStats = s,
           tlhAllocSizeClassStats = s, sizeClassSizes = [16], maxHeapSize = 65536,
           logSizeClass = (\<lambda>_. 0), powSizeClass = (\<lambda>n. n) \<rparr>)"

definition pool_example :: pool where
  "pool_example =
     (pool_initialize 32 ((\<lambda>_. 0)(1024 := 2049, 1032 := 64, 2048 := 1, 2056 := 128))
        (replicate 8 \<lparr> hint_size = 0, heapFreeHeader = 0, hint_lru = 0 \<rparr>) (stats_example 2))
       \<lparr> heapFreeList := 1024, freeMemorySize := 192, freeEntryCount := 2 \<rparr>"

lemma stats_example_ready: "stats_ready (stats_example n)" "total_count (freeEntrySizeClassStats (stats_example n)) = n"
  by (simp_all add: stats_ready_def los_wf_def fes_wf_def stats_example_def Let_def total_count_def class_count_def
      getCount_def getFrequentAllocCount_def)

lemma pool_example_inv: "pool_inv pool_example [(1024, 64), (2048, 128)]"
proof -
  have "free_list pool_example [(1024, 64), (2048, 128)]"
    by (simp add: free_list_def pool_example_def pool_initialize_def getSize_def getNext_def getNextImpl_def
        decodeNext_def J9_GC_OBJ_HEAP_HOLE_MASK_def entries_wf_def entry_ok_def before_def UMAX_def)
  moreover have "accounted pool_example [(1024, 64), (2048, 128)]"
    by (simp add: accounted_def pool_example_def pool_initialize_def stats_example_ready UMAX_def)
  moreover have "hints_ok pool_example [(1024, 64), (2048, 128)]"
    by (simp add: hints_ok_def pool_example_def pool_initialize_def hint_nodes_def HINT_ELEMENT_COUNT_def)
  ultimately show ?thesis by (simp add: pool_inv_def)
qed

lemma pool_example_parameters: "minimumFreeEntrySize pool_example = 32" "tlh_ready mx pool_example"
  by (simp_all add: pool_example_def pool_initialize_def tlh_ready_def stats_example_def Let_def)

section \<open>Properties\<close>




definition description_example :: AllocateDescription where
  "description_example = \<lparr> contiguousBytes = 0, bytesRequested = 0, allocationTaxSize = 0, tlhAllocation = False,
     nurseryAllocation = False, poolIsSet = False \<rparr>"




end
