(* ===== verification/Heap_Map.thy ===== *)
theory Heap_Map
  imports GC_Math
begin

text \<open>
  The heap map (gc/base/HeapMap.hpp, HeapMap.cpp) and its iterators (gc/base/HeapMapIterator.cpp,
  HeapMapWordIterator.hpp): one bit per 8-byte heap slot, in 64-bit words.  The bit array is a
  function from slot index to word; \<open>_heapMapBits\<close> as an address only matters for the commit
  calls.  Uncompressed maps of the 64-bit build: index shift 9, bit mask 511, bit shift 3, one
  heap slot per bit.  The heap offset of an address is its distance from the heap base, and the
  glue's object size is the parameter \<open>sizeOf\<close> of the iterator.
\<close>

section \<open>Data\<close>

record HeapMap =
  heapBase :: addr
  heapTop :: addr
  heapMapBaseDelta :: addr
  heapMapBits :: "nat \<Rightarrow> uword"
  heapMapBitsAddr :: addr
  hm_maxHeapSize :: nat

definition heapMapIndexShift :: nat where
  "heapMapIndexShift = 9"

definition heapMapBitMask :: nat where
  "heapMapBitMask = 511"

definition heapMapBitShift :: nat where
  "heapMapBitShift = 3"

definition SLOTS_PER_HEAPMAP_SLOT :: nat where
  "SLOTS_PER_HEAPMAP_SLOT = 64"

section \<open>Single bits\<close>

definition getBitIndex :: "HeapMap \<Rightarrow> addr \<Rightarrow> nat" where
  "getBitIndex hm objectPtr =
     (let heapOffsetInBytes = usub objectPtr (heapMapBaseDelta hm)
      in drop_bit heapMapBitShift (heapOffsetInBytes AND heapMapBitMask))"

definition getSlotIndex :: "HeapMap \<Rightarrow> addr \<Rightarrow> nat" where
  "getSlotIndex hm objectPtr = drop_bit heapMapIndexShift (usub objectPtr (heapMapBaseDelta hm))"

definition getSlotIndexAndMask :: "HeapMap \<Rightarrow> addr \<Rightarrow> nat \<times> uword" where
  "getSlotIndexAndMask hm objectPtr =
     (let slot = usub objectPtr (heapMapBaseDelta hm);
          bitIndex = drop_bit heapMapBitShift (slot AND heapMapBitMask)
      in (drop_bit heapMapIndexShift slot, push_bit bitIndex 1))"

definition getObjectGrain :: nat where
  "getObjectGrain = push_bit heapMapBitShift 1"

definition getSlot :: "HeapMap \<Rightarrow> nat \<Rightarrow> uword" where
  "getSlot hm slotIndex = heapMapBits hm slotIndex"

definition setSlot :: "nat \<Rightarrow> uword \<Rightarrow> HeapMap \<Rightarrow> HeapMap" where
  "setSlot slotIndex slotValue hm = hm \<lparr> heapMapBits := (heapMapBits hm)(slotIndex := slotValue) \<rparr>"

text \<open>\<open>atomicSetSlot\<close> when no other thread writes the word; \<open>atomicSetBit\<close> is in \<open>Atomic_Mark\<close>.\<close>

definition atomicSetSlot :: "nat \<Rightarrow> uword \<Rightarrow> HeapMap \<Rightarrow> HeapMap" where
  "atomicSetSlot slotIndex slotValue hm =
     hm \<lparr> heapMapBits := (heapMapBits hm)(slotIndex := heapMapBits hm slotIndex OR slotValue) \<rparr>"

definition isBitSet :: "HeapMap \<Rightarrow> addr \<Rightarrow> bool" where
  "isBitSet hm objectPtr =
     (let (slotIndex, bitMask) = getSlotIndexAndMask hm objectPtr
      in heapMapBits hm slotIndex AND bitMask \<noteq> 0)"

definition setBit_hm :: "addr \<Rightarrow> HeapMap \<Rightarrow> bool \<times> HeapMap" where
  "setBit_hm objectPtr hm =
     (let (slotIndex, bitMask) = getSlotIndexAndMask hm objectPtr
      in if heapMapBits hm slotIndex AND bitMask \<noteq> 0 then (False, hm)
         else (True, hm \<lparr> heapMapBits := (heapMapBits hm)(slotIndex := heapMapBits hm slotIndex OR bitMask) \<rparr>))"

definition clearBit :: "addr \<Rightarrow> HeapMap \<Rightarrow> bool \<times> HeapMap" where
  "clearBit objectPtr hm =
     (let (slotIndex, bitMask) = getSlotIndexAndMask hm objectPtr
      in if heapMapBits hm slotIndex AND bitMask \<noteq> 0
         then (True, hm \<lparr> heapMapBits := (heapMapBits hm)(slotIndex := heapMapBits hm slotIndex AND NOT bitMask) \<rparr>)
         else (False, hm))"

section \<open>Ranges\<close>

definition calculateOffsetFromHeapBase :: "HeapMap \<Rightarrow> addr \<Rightarrow> nat" where
  "calculateOffsetFromHeapBase hm a = usub a (heapBase hm)"

definition convertHeapIndexToHeapMapIndex :: "nat \<Rightarrow> nat \<Rightarrow> nat" where
  "convertHeapIndexToHeapMapIndex offset roundTo =
     roundToCeiling roundTo (roundToCeiling SLOTS_PER_HEAPMAP_SLOT offset div SLOTS_PER_HEAPMAP_SLOT)"

definition getMaximumHeapMapSize :: "nat \<Rightarrow> HeapMap \<Rightarrow> nat" where
  "getMaximumHeapMapSize heapAlignment hm = convertHeapIndexToHeapMapIndex (hm_maxHeapSize hm) heapAlignment"

text \<open>
  \<open>heapAddRange\<close> and \<open>heapRemoveRange\<close>: \<open>base\<close> and \<open>top\<close> are the heap's bounds now, \<open>commit\<close> and
  \<open>decommit\<close> the answers of the memory manager for a range of the map's memory, \<open>forceFailure\<close>
  the test option.
\<close>

definition heapAddRange ::
  "(addr \<Rightarrow> nat \<Rightarrow> bool) \<Rightarrow> bool \<Rightarrow> addr \<Rightarrow> addr \<Rightarrow> addr \<Rightarrow> addr \<Rightarrow> HeapMap \<Rightarrow> (bool \<times> HeapMap) option" where
  "heapAddRange commit forceFailure base top1 lowAddress highAddress hm =
     (if forceFailure then Some (False, hm)
      else (let hm = hm \<lparr> heapBase := base, heapTop := top1 \<rparr>
            in do { assert_MM (heapMapBaseDelta hm = heapBase hm);
                    (let commitOffset = convertHeapIndexToHeapMapIndex (calculateOffsetFromHeapBase hm lowAddress) 8;
                         commitSize = usub (convertHeapIndexToHeapMapIndex (calculateOffsetFromHeapBase hm highAddress) 8)
                                        commitOffset
                     in Some (commit (uadd (heapMapBitsAddr hm) commitOffset) commitSize, hm)) }))"

definition heapRemoveRange ::
  "(addr \<Rightarrow> nat \<Rightarrow> addr \<Rightarrow> addr \<Rightarrow> bool) \<Rightarrow> bool \<Rightarrow> addr \<Rightarrow> addr \<Rightarrow> addr \<Rightarrow> addr \<Rightarrow> addr \<Rightarrow> addr
    \<Rightarrow> HeapMap \<Rightarrow> (bool \<times> HeapMap) option" where
  "heapRemoveRange decommit forceFailure base top1 lowAddress highAddress lowValidAddress highValidAddress hm =
     (if forceFailure then Some (False, hm)
      else (let hm = hm \<lparr> heapBase := base, heapTop := top1 \<rparr>
            in do { assert_MM (heapMapBaseDelta hm = heapBase hm);
                    (let commitOffset = convertHeapIndexToHeapMapIndex (calculateOffsetFromHeapBase hm lowAddress) 8;
                         commitEnd = convertHeapIndexToHeapMapIndex (calculateOffsetFromHeapBase hm highAddress) 8;
                         commitSize = usub commitEnd commitOffset;
                         validLow = (if lowValidAddress \<noteq> NULL then uadd (heapMapBitsAddr hm) commitOffset else NULL);
                         validHigh = (if highValidAddress \<noteq> NULL then uadd (heapMapBitsAddr hm) commitEnd else NULL)
                     in Some (decommit (uadd (heapMapBitsAddr hm) commitOffset) commitSize validLow validHigh, hm)) }))"

definition numberBitsInRange :: "nat \<Rightarrow> HeapMap \<Rightarrow> addr \<Rightarrow> addr \<Rightarrow> nat option" where
  "numberBitsInRange heapAlignment hm lowAddress highAddress =
     do { assert_MM (lowAddress < highAddress);
          assert_MM (lowAddress = roundToCeiling heapAlignment lowAddress);
          (let baseIndex = drop_bit heapMapIndexShift (usub lowAddress (heapMapBaseDelta hm));
               topIndex = drop_bit heapMapIndexShift (usub highAddress (heapMapBaseDelta hm))
           in Some (umul (usub topIndex baseIndex) 8)) }"

definition range_indices :: "nat \<Rightarrow> HeapMap \<Rightarrow> addr \<Rightarrow> addr \<Rightarrow> (nat \<times> nat) option" where
  "range_indices heapAlignment hm lowAddress highAddress =
     do { assert_MM (lowAddress < heapTop hm);
          assert_MM (heapBase hm \<le> lowAddress);
          assert_MM (lowAddress = roundToCeiling heapAlignment lowAddress);
          assert_MM (highAddress \<le> heapTop hm);
          Some (drop_bit heapMapIndexShift (calculateOffsetFromHeapBase hm lowAddress),
                drop_bit heapMapIndexShift (calculateOffsetFromHeapBase hm highAddress)) }"

text \<open>
  \<open>setBitsInRange\<close>: the words from the base index on, as many as the byte count says, become all
  zeroes or all ones.  \<open>checkBitsForRegion\<close> looks at the bytes of the same words.
\<close>

definition setBitsInRange :: "nat \<Rightarrow> addr \<Rightarrow> addr \<Rightarrow> bool \<Rightarrow> HeapMap \<Rightarrow> (nat \<times> HeapMap) option" where
  "setBitsInRange heapAlignment lowAddress highAddress clear hm =
     do { (baseIndex, topIndex) \<leftarrow> range_indices heapAlignment hm lowAddress highAddress;
          (let bytesToSet = umul (usub topIndex baseIndex) 8
           in Some (bytesToSet,
                hm \<lparr> heapMapBits := (\<lambda>i. if baseIndex \<le> i \<and> i < baseIndex + bytesToSet div 8
                                       then (if clear then 0 else - 1) else heapMapBits hm i) \<rparr>)) }"

definition setBitsForRegion :: "nat \<Rightarrow> addr \<times> addr \<Rightarrow> bool \<Rightarrow> HeapMap \<Rightarrow> (nat \<times> HeapMap) option" where
  "setBitsForRegion heapAlignment region clear hm = setBitsInRange heapAlignment (fst region) (snd region) clear hm"

definition checkBitsForRegion :: "nat \<Rightarrow> addr \<times> addr \<Rightarrow> HeapMap \<Rightarrow> bool option" where
  "checkBitsForRegion heapAlignment region hm =
     do { (baseIndex, topIndex) \<leftarrow> range_indices heapAlignment hm (fst region) (snd region);
          (let bytesToCheck = umul (usub topIndex baseIndex) 8
           in Some (list_all (\<lambda>i. take_bit 8 (drop_bit (8 * (i mod 8)) (heapMapBits hm (baseIndex + i div 8))) = 0)
                 [0..<bytesToCheck])) }"

section \<open>Iterators\<close>

record HeapMapWordIterator =
  wi_cache :: uword
  wi_heapSlotCurrent :: addr

definition wordIterator :: "uword \<Rightarrow> addr \<Rightarrow> HeapMapWordIterator" where
  "wordIterator heapMapWord heapCardAddress = \<lparr> wi_cache = heapMapWord, wi_heapSlotCurrent = heapCardAddress \<rparr>"

definition wordIterator_at :: "HeapMap \<Rightarrow> addr \<Rightarrow> HeapMapWordIterator option" where
  "wordIterator_at hm heapCardAddress =
     (let mapPointer = uadd (heapMapBitsAddr hm) (usub heapCardAddress (heapBase hm) div SLOTS_PER_HEAPMAP_SLOT)
      in do { assert_MM (mapPointer AND (8 - 1) = 0);
              Some (wordIterator (heapMapBits hm (usub mapPointer (heapMapBitsAddr hm) div 8)) heapCardAddress) })"

definition wi_nextObject :: "HeapMapWordIterator \<Rightarrow> addr \<times> HeapMapWordIterator" where
  "wi_nextObject it =
     (if wi_cache it \<noteq> 0 then
        (let lz = unat (leadingZeroes (wi_cache it));
             cur = uadd (wi_heapSlotCurrent it) (8 * lz)
         in (cur, \<lparr> wi_cache = drop_bit 1 (drop_bit lz (wi_cache it)), wi_heapSlotCurrent = uadd cur 8 \<rparr>))
      else (NULL, it))"

record HeapMapIterator =
  heapSlotCurrent :: addr
  heapChunkTop :: addr
  heapMapSlotCurrent :: nat
  bitIndexHead :: nat
  heapMapSlotValue :: uword
  useLargeObjectOptimization :: bool

definition J9MODRON_HMI_HEAPMAP_ALIGNMENT :: nat where
  "J9MODRON_HMI_HEAPMAP_ALIGNMENT = SLOTS_PER_HEAPMAP_SLOT * 8"

definition setHeapMap :: "HeapMap \<Rightarrow> HeapMapIterator \<Rightarrow> HeapMapIterator" where
  "setHeapMap hm it =
     (let heapOffsetInBytes = usub (heapSlotCurrent it) (heapBase hm);
          slot = roundToFloor J9MODRON_HMI_HEAPMAP_ALIGNMENT heapOffsetInBytes div SLOTS_PER_HEAPMAP_SLOT div 8;
          it = it \<lparr> bitIndexHead := getBitIndex hm (heapSlotCurrent it), heapMapSlotCurrent := slot \<rparr>
      in if heapSlotCurrent it < heapChunkTop it
         then it \<lparr> heapMapSlotValue := drop_bit (bitIndexHead it) (heapMapBits hm slot) \<rparr> else it)"

definition hmi_reset :: "HeapMap \<Rightarrow> addr \<Rightarrow> addr \<Rightarrow> HeapMapIterator \<Rightarrow> HeapMapIterator" where
  "hmi_reset hm heapChunkBase chunkTop it =
     (let heapOffsetInBytes = usub heapChunkBase (heapBase hm);
          slot = roundToFloor J9MODRON_HMI_HEAPMAP_ALIGNMENT heapOffsetInBytes div SLOTS_PER_HEAPMAP_SLOT div 8;
          it = it \<lparr> heapChunkTop := chunkTop, heapSlotCurrent := heapChunkBase,
                    bitIndexHead := getBitIndex hm heapChunkBase, heapMapSlotCurrent := slot \<rparr>
      in if heapSlotCurrent it < heapChunkTop it
         then it \<lparr> heapMapSlotValue := drop_bit (bitIndexHead it) (heapMapBits hm slot) \<rparr> else it)"

text \<open>
  The branch of \<open>nextObject\<close> that has found a set bit: step to it (\<open>hmi_seek\<close>), take the object,
  jump over it and refresh the cached word when the jump left it (\<open>hmi_jump\<close>).
\<close>

definition hmi_seek :: "HeapMapIterator \<Rightarrow> HeapMapIterator" where
  "hmi_seek it =
     (let lz = unat (leadingZeroes (heapMapSlotValue it))
      in if lz \<noteq> 0
         then it \<lparr> heapSlotCurrent := uadd (heapSlotCurrent it) (8 * lz),
                   heapMapSlotValue := drop_bit lz (heapMapSlotValue it),
                   bitIndexHead := bitIndexHead it + lz \<rparr>
         else it)"

definition hmi_jump :: "HeapMap \<Rightarrow> nat \<Rightarrow> HeapMapIterator \<Rightarrow> HeapMapIterator" where
  "hmi_jump hm sizeInHeapMapBits it =
     (let heapMapAdvance = (bitIndexHead it + sizeInHeapMapBits) div 64;
          it = it \<lparr> heapSlotCurrent := uadd (heapSlotCurrent it) (8 * sizeInHeapMapBits),
                    heapMapSlotCurrent := heapMapSlotCurrent it + heapMapAdvance,
                    bitIndexHead := (bitIndexHead it + sizeInHeapMapBits) mod 64 \<rparr>
      in if heapMapAdvance \<noteq> 0 then
           (if heapSlotCurrent it < heapChunkTop it
            then it \<lparr> heapMapSlotValue := drop_bit (bitIndexHead it) (heapMapBits hm (heapMapSlotCurrent it)) \<rparr>
            else it)
         else it \<lparr> heapMapSlotValue := drop_bit (sizeInHeapMapBits mod 64) (heapMapSlotValue it) \<rparr>)"

definition hmi_take :: "(addr \<Rightarrow> nat) \<Rightarrow> HeapMap \<Rightarrow> HeapMapIterator \<Rightarrow> addr \<times> HeapMapIterator" where
  "hmi_take sizeOf hm it =
     (let it = hmi_seek it;
          nextObject = heapSlotCurrent it;
          sizeInHeapMapBits = (if useLargeObjectOptimization it then convertBytesToSlots (sizeOf nextObject) else 1);
          it = hmi_jump hm sizeInHeapMapBits it
      in (if nextObject < heapChunkTop it then nextObject else NULL, it))"

definition hmi_skip :: "HeapMap \<Rightarrow> HeapMapIterator \<Rightarrow> HeapMapIterator" where
  "hmi_skip hm it =
     (let it = it \<lparr> heapSlotCurrent := uadd (heapSlotCurrent it) (8 * (64 - bitIndexHead it)),
                    heapMapSlotCurrent := heapMapSlotCurrent it + 1, bitIndexHead := 0 \<rparr>
      in if heapSlotCurrent it < heapChunkTop it
         then it \<lparr> heapMapSlotValue := heapMapBits hm (heapMapSlotCurrent it) \<rparr> else it)"

partial_function (option) hmi_nextObject ::
  "(addr \<Rightarrow> nat) \<Rightarrow> HeapMap \<Rightarrow> HeapMapIterator \<Rightarrow> (addr \<times> HeapMapIterator) option" where
  "hmi_nextObject sizeOf hm it =
     (if heapSlotCurrent it < heapChunkTop it then
        (if heapMapSlotValue it \<noteq> 0 then Some (hmi_take sizeOf hm it)
         else hmi_nextObject sizeOf hm (hmi_skip hm it))
      else Some (NULL, it))"

section \<open>Bits and addresses\<close>

text \<open>The heap offset of an address the map covers.\<close>

definition covers :: "HeapMap \<Rightarrow> addr \<Rightarrow> bool" where
  "covers hm a \<longleftrightarrow> heapMapBaseDelta hm \<le> a \<and> a < UMAX"

abbreviation off :: "HeapMap \<Rightarrow> addr \<Rightarrow> nat" where
  "off hm a \<equiv> a - heapMapBaseDelta hm"

lemma bit_index_arith: "drop_bit heapMapBitShift (x AND heapMapBitMask) = x div 8 mod (64 :: nat)"
proof -
  have m: "heapMapBitMask = mask 9" by (simp add: heapMapBitMask_def mask_eq_exp_minus_1)
  have "x AND heapMapBitMask = x mod (8 * 64)"
    unfolding m take_bit_eq_mask [symmetric] take_bit_eq_mod by simp
  also have "\<dots> = 8 * (x div 8 mod 64) + x mod 8" by (rule mod_mult2_eq)
  finally have e: "x AND heapMapBitMask = 8 * (x div 8 mod 64) + x mod 8" .
  show ?thesis unfolding e by (simp add: heapMapBitShift_def drop_bit_eq_div)
qed

lemma index_arith: "drop_bit heapMapIndexShift (x :: nat) = x div 512"
  by (simp add: heapMapIndexShift_def drop_bit_eq_div)

lemma usub_covers: "covers hm a \<Longrightarrow> usub a (heapMapBaseDelta hm) = off hm a"
  by (simp add: usub_exact covers_def)

lemma bit_index: "covers hm a \<Longrightarrow> getBitIndex hm a = off hm a div 8 mod 64"
  unfolding getBitIndex_def Let_def bit_index_arith by (simp add: usub_covers)

lemma slot_index: "covers hm a \<Longrightarrow> getSlotIndex hm a = off hm a div 512"
  unfolding getSlotIndex_def index_arith by (simp add: usub_covers)

lemma slot_and_mask:
  "covers hm a \<Longrightarrow> getSlotIndexAndMask hm a = (off hm a div 512, 2 ^ (off hm a div 8 mod 64))"
  unfolding getSlotIndexAndMask_def Let_def index_arith bit_index_arith by (simp add: usub_covers)

lemma and_single_bit:
  fixes w :: uword
  assumes "k < 64"
  shows "w AND 2 ^ k \<noteq> 0 \<longleftrightarrow> bit w k"
proof
  assume "w AND 2 ^ k \<noteq> 0"
  then obtain i where "bit (w AND 2 ^ k) i" by (metis bit_eq_iff bit_0_eq bot_apply bot_bool_def)
  then show "bit w k" by (auto simp: bit_and_iff bit_exp_iff)
next
  assume "bit w k"
  then have "bit (w AND 2 ^ k) k" using assms by (simp add: bit_and_iff bit_exp_iff)
  then show "w AND 2 ^ k \<noteq> 0" by auto
qed

lemma isBitSet_bit:
  "covers hm a \<Longrightarrow> isBitSet hm a \<longleftrightarrow> bit (heapMapBits hm (off hm a div 512)) (off hm a div 8 mod 64)"
  by (simp only: isBitSet_def slot_and_mask and_single_bit mod_less_divisor zero_less_numeral Let_def prod.case)

lemma same_bit_iff:
  fixes x y :: nat
  assumes "8 dvd x" "8 dvd y"
  shows "x div 512 = y div 512 \<and> x div 8 mod 64 = y div 8 mod 64 \<longleftrightarrow> x = y"
proof
  assume e: "x div 512 = y div 512 \<and> x div 8 mod 64 = y div 8 mod 64"
  have "z div 512 = z div 8 div 64" for z :: nat by (simp add: div_mult2_eq [symmetric])
  with e have "x div 8 = y div 8" using div_mult_mod_eq [of _ 64] by metis
  with assms show "x = y" by auto
qed simp

text \<open>Two slot addresses of the heap have the same bit only when they are equal.\<close>

definition slot_addr :: "HeapMap \<Rightarrow> addr \<Rightarrow> bool" where
  "slot_addr hm a \<longleftrightarrow> covers hm a \<and> 8 dvd off hm a"

lemma slot_addr_inj:
  "slot_addr hm a \<Longrightarrow> slot_addr hm b \<Longrightarrow>
    off hm a div 512 = off hm b div 512 \<and> off hm a div 8 mod 64 = off hm b div 8 mod 64 \<longleftrightarrow> a = b"
  using same_bit_iff [of "off hm a" "off hm b"] by (auto simp: slot_addr_def covers_def)

lemma covers_update [simp]: "covers (hm \<lparr> heapMapBits := bs \<rparr>) a = covers hm a"
  by (simp add: covers_def)

lemma setBit_result:
  assumes "slot_addr hm a"
  shows "fst (setBit_hm a hm) = (\<not> isBitSet hm a)"
    and "slot_addr hm b \<Longrightarrow> isBitSet (snd (setBit_hm a hm)) b = (isBitSet hm b \<or> b = a)"
proof -
  have a: "covers hm a" using assms by (simp add: slot_addr_def)
  show "fst (setBit_hm a hm) = (\<not> isBitSet hm a)"
    by (simp add: setBit_hm_def isBitSet_def split: prod.split)
  assume b: "slot_addr hm b"
  then have cb: "covers hm b" by (simp add: slot_addr_def)
  show "isBitSet (snd (setBit_hm a hm)) b = (isBitSet hm b \<or> b = a)"
    using slot_addr_inj [OF assms b]
    by (auto simp: setBit_hm_def slot_and_mask [OF a] isBitSet_bit cb a and_single_bit bit_and_iff bit_or_iff bit_not_iff bit_exp_iff)
qed

lemma clearBit_result:
  assumes "slot_addr hm a"
  shows "fst (clearBit a hm) = isBitSet hm a"
    and "slot_addr hm b \<Longrightarrow> isBitSet (snd (clearBit a hm)) b = (isBitSet hm b \<and> b \<noteq> a)"
proof -
  have a: "covers hm a" using assms by (simp add: slot_addr_def)
  show "fst (clearBit a hm) = isBitSet hm a"
    by (simp add: clearBit_def isBitSet_def split: prod.split)
  assume b: "slot_addr hm b"
  then have cb: "covers hm b" by (simp add: slot_addr_def)
  show "isBitSet (snd (clearBit a hm)) b = (isBitSet hm b \<and> b \<noteq> a)"
    using slot_addr_inj [OF assms b]
    by (auto simp: clearBit_def slot_and_mask [OF a] isBitSet_bit cb a and_single_bit bit_and_iff bit_or_iff bit_not_iff bit_exp_iff)
qed

section \<open>Ranges of bits\<close>

text \<open>A range of whole map words inside the heap, as regions are.\<close>

definition word_range :: "nat \<Rightarrow> HeapMap \<Rightarrow> addr \<Rightarrow> addr \<Rightarrow> bool" where
  "word_range al hm lo hi \<longleftrightarrow> heapMapBaseDelta hm = heapBase hm \<and> heapBase hm \<le> lo \<and> lo < hi \<and>
     hi \<le> heapTop hm \<and> heapTop hm < UMAX \<and> roundToCeiling al lo = lo \<and> 512 dvd off hm lo \<and> 512 dvd off hm hi"

lemma word_range_indices:
  assumes "word_range al hm lo hi"
  shows "range_indices al hm lo hi = Some (off hm lo div 512, off hm hi div 512)"
    "usub (off hm hi div 512) (off hm lo div 512) = (hi - lo) div 512" "umul ((hi - lo) div 512) 8 = (hi - lo) div 64"
    "off hm hi div 512 = off hm lo div 512 + (hi - lo) div 512"
proof -
  have b: "heapBase hm \<le> lo" "lo < hi" "hi < UMAX" "heapMapBaseDelta hm = heapBase hm" using assms by (auto simp: word_range_def)
  show "range_indices al hm lo hi = Some (off hm lo div 512, off hm hi div 512)"
    using assms b by (simp add: range_indices_def calculateOffsetFromHeapBase_def usub_exact index_arith word_range_def)
  obtain k l where kl: "off hm lo = 512 * k" "off hm hi = 512 * l"
    using assms by (auto simp: word_range_def dvd_def)
  then have d: "hi - lo = 512 * (l - k)" "k \<le> l" "512 * l < UMAX" using b by auto
  then show "usub (off hm hi div 512) (off hm lo div 512) = (hi - lo) div 512"
    "umul ((hi - lo) div 512) 8 = (hi - lo) div 64" "off hm hi div 512 = off hm lo div 512 + (hi - lo) div 512"
    using kl by (auto simp: usub_exact umul_exact)
qed

lemma index_in_range:
  assumes "word_range al hm lo hi" "covers hm b"
  shows "off hm lo div 512 \<le> off hm b div 512 \<and> off hm b div 512 < off hm hi div 512 \<longleftrightarrow> lo \<le> b \<and> b < hi"
proof -
  obtain k l where kl: "off hm lo = 512 * k" "off hm hi = 512 * l"
    using assms by (auto simp: word_range_def dvd_def)
  have b: "heapMapBaseDelta hm \<le> lo" "lo < hi" "heapMapBaseDelta hm \<le> b"
    using assms by (auto simp: word_range_def covers_def)
  have "k \<le> off hm b div 512 \<longleftrightarrow> 512 * k \<le> off hm b" "off hm b div 512 < l \<longleftrightarrow> off hm b < 512 * l" by auto
  then show ?thesis using kl b by auto
qed

lemma setBitsInRange_result:
  assumes r: "word_range al hm lo hi"
  shows "\<exists>hm'. setBitsInRange al lo hi clear hm = Some ((hi - lo) div 64, hm') \<and>
    (\<forall>b. slot_addr hm b \<longrightarrow> isBitSet hm' b = (if lo \<le> b \<and> b < hi then \<not> clear else isBitSet hm b))"
proof -
  let ?i = "off hm lo div 512"
  let ?f = "\<lambda>i. if ?i \<le> i \<and> i < off hm hi div 512 then (if clear then 0 else - 1) else heapMapBits hm i"
  have "(hi - lo) div 64 div 8 = (hi - lo) div 512" by (simp add: div_mult2_eq [symmetric])
  then have "setBitsInRange al lo hi clear hm = Some ((hi - lo) div 64, hm \<lparr> heapMapBits := ?f \<rparr>)"
    unfolding setBitsInRange_def word_range_indices(1) [OF r] Option.bind.simps prod.case Let_def
      word_range_indices(2) [OF r] word_range_indices(3) [OF r] by (simp only: word_range_indices(4) [OF r])
  moreover have "isBitSet (hm \<lparr> heapMapBits := ?f \<rparr>) b = (if lo \<le> b \<and> b < hi then \<not> clear else isBitSet hm b)"
    if "slot_addr hm b" for b
  proof -
    have cb: "covers hm b" using that by (simp add: slot_addr_def)
    show ?thesis using index_in_range [OF r cb] cb by (auto simp: isBitSet_bit)
  qed
  ultimately show ?thesis by blast
qed

section \<open>The iterator\<close>

lemma step_index:
  fixes x j :: nat
  assumes "8 dvd x"
  shows "(x + 8 * j) div 512 = x div 512 + (x div 8 mod 64 + j) div 64"
    "(x + 8 * j) div 8 mod 64 = (x div 8 mod 64 + j) mod 64"
proof -
  have d: "z div 512 = z div 8 div 64" for z :: nat by (simp add: div_mult2_eq [symmetric])
  have e: "(x + 8 * j) div 8 = x div 8 + j" by simp
  have y: "x div 8 + j = (x div 8 mod 64 + j) + (x div 8 div 64) * 64"
    using div_mult_mod_eq [of "x div 8" 64] by linarith
  show "(x + 8 * j) div 512 = x div 512 + (x div 8 mod 64 + j) div 64"
    unfolding d e y by (subst div_mult_self1) simp_all
  show "(x + 8 * j) div 8 mod 64 = (x div 8 mod 64 + j) mod 64"
    unfolding e y by (subst mod_mult_self1) simp
qed

text \<open>The iterator stands on a slot and its cached word is the map from there on.\<close>

definition hmi_inv :: "HeapMap \<Rightarrow> HeapMapIterator \<Rightarrow> bool" where
  "hmi_inv hm it \<longleftrightarrow> slot_addr hm (heapSlotCurrent it) \<and> heapChunkTop it + 512 \<le> UMAX \<and>
     (heapSlotCurrent it < heapChunkTop it \<longrightarrow>
        bitIndexHead it = off hm (heapSlotCurrent it) div 8 mod 64 \<and>
        heapMapSlotCurrent it = off hm (heapSlotCurrent it) div 512 \<and>
        heapMapSlotValue it = drop_bit (bitIndexHead it) (heapMapBits hm (heapMapSlotCurrent it)))"

lemma slot_addr_step:
  assumes "slot_addr hm a" "a + 8 * j < UMAX"
  shows "slot_addr hm (a + 8 * j)" "off hm (a + 8 * j) = off hm a + 8 * j"
proof -
  show o: "off hm (a + 8 * j) = off hm a + 8 * j" using assms(1) by (simp add: slot_addr_def covers_def)
  show "slot_addr hm (a + 8 * j)"
    using assms unfolding slot_addr_def o covers_def by (simp only: dvd_add dvd_triv_left trans_le_add1 simp_thms)
qed

lemma hmi_inv_bit:
  assumes "hmi_inv hm it" "heapSlotCurrent it < heapChunkTop it" "bitIndexHead it + j < 64"
  shows "isBitSet hm (heapSlotCurrent it + 8 * j) = bit (heapMapSlotValue it) j"
proof -
  let ?c = "heapSlotCurrent it"
  have i: "slot_addr hm ?c" "bitIndexHead it = off hm ?c div 8 mod 64" "heapMapSlotCurrent it = off hm ?c div 512"
    "heapMapSlotValue it = drop_bit (bitIndexHead it) (heapMapBits hm (heapMapSlotCurrent it))"
    "heapChunkTop it + 512 \<le> UMAX" using assms by (auto simp: hmi_inv_def)
  have lt: "?c + 8 * j < UMAX" using assms(2,3) i(5) by linarith
  note s = slot_addr_step [OF i(1) lt]
  have d: "8 dvd off hm ?c" using i(1) by (simp add: slot_addr_def)
  have "covers hm (?c + 8 * j)" using s by (simp add: slot_addr_def)
  then show ?thesis
    using s step_index [OF d, of j] i assms(3) by (simp add: isBitSet_bit bit_drop_bit_eq)
qed

lemma hmi_inv_step:
  assumes inv: "hmi_inv hm it" and lt: "heapSlotCurrent it < heapChunkTop it"
    and u: "heapSlotCurrent it + 8 * j < UMAX"
    and it': "heapSlotCurrent it' = heapSlotCurrent it + 8 * j" "heapChunkTop it' = heapChunkTop it"
      "heapMapSlotCurrent it' = heapMapSlotCurrent it + (bitIndexHead it + j) div 64"
      "bitIndexHead it' = (bitIndexHead it + j) mod 64"
      "heapSlotCurrent it' < heapChunkTop it' \<longrightarrow>
        heapMapSlotValue it' = drop_bit (bitIndexHead it') (heapMapBits hm (heapMapSlotCurrent it'))"
  shows "hmi_inv hm it'"
proof -
  have i: "slot_addr hm (heapSlotCurrent it)" "heapChunkTop it + 512 \<le> UMAX"
    "bitIndexHead it = off hm (heapSlotCurrent it) div 8 mod 64" "heapMapSlotCurrent it = off hm (heapSlotCurrent it) div 512"
    using inv lt by (auto simp: hmi_inv_def)
  have d: "8 dvd off hm (heapSlotCurrent it)" using i(1) by (simp add: slot_addr_def)
  note s = slot_addr_step [OF i(1) u, folded it'(1)]
  have "bitIndexHead it' = off hm (heapSlotCurrent it') div 8 mod 64"
    "heapMapSlotCurrent it' = off hm (heapSlotCurrent it') div 512"
    unfolding s(2) it'(3,4) i(3,4) step_index [OF d] by (rule refl)+
  with s(1) i(2) it'(2,5) show ?thesis unfolding hmi_inv_def by simp
qed

lemma lowest_bit:
  fixes w :: uword
  assumes "w \<noteq> 0"
  obtains k where "bit w k" "\<And>i. i < k \<Longrightarrow> \<not> bit w i" "unat (leadingZeroes w) = k" "k < 64"
proof -
  have "\<exists>k. bit w k" using assms by (metis bit_eq_iff bit_0_eq bot_apply bot_bool_def)
  then have k: "bit w (LEAST k. bit w k)" "\<And>i. i < (LEAST k. bit w k) \<Longrightarrow> \<not> bit w i"
    using LeastI_ex not_less_Least by blast+
  show ?thesis
    by (rule that [OF k leadingZeroes_lowest [OF k]]) (use bit_imp_le_length [OF k(1)] in simp_all)
qed

text \<open>How far the iterator jumps over the object at a set bit, in slots.\<close>

definition jump :: "(addr \<Rightarrow> nat) \<Rightarrow> HeapMapIterator \<Rightarrow> addr \<Rightarrow> nat" where
  "jump sizeOf it a = (if useLargeObjectOptimization it then sizeOf a div 8 else 1)"

definition none_marked :: "HeapMap \<Rightarrow> addr \<Rightarrow> addr \<Rightarrow> bool" where
  "none_marked hm lo hi \<longleftrightarrow> (\<forall>b. slot_addr hm b \<and> lo \<le> b \<and> b < hi \<longrightarrow> \<not> isBitSet hm b)"

text \<open>Slot addresses from \<open>c\<close> on are \<open>c\<close> plus a multiple of eight.\<close>

lemma slot_addr_between:
  assumes "slot_addr hm c" "slot_addr hm b" "c \<le> b" "b < c + 8 * k"
  shows "\<exists>j < k. b = c + 8 * j"
proof -
  have "8 dvd (off hm b - off hm c)" using assms(1,2) dvd_diff_nat unfolding slot_addr_def by blast
  moreover have "off hm b - off hm c = b - c" using assms(1-3) by (simp add: slot_addr_def covers_def)
  ultimately obtain j where "b - c = 8 * j" by (auto simp: dvd_def)
  with assms(3,4) have "b = c + 8 * j" "j < k" by auto
  then show ?thesis by blast
qed

lemma hmi_none_before:
  assumes inv: "hmi_inv hm it" "heapSlotCurrent it < heapChunkTop it" "bitIndexHead it + k \<le> 64"
    and z: "\<And>i. i < k \<Longrightarrow> \<not> bit (heapMapSlotValue it) i"
  shows "none_marked hm (heapSlotCurrent it) (heapSlotCurrent it + 8 * k)"
proof -
  have c: "slot_addr hm (heapSlotCurrent it)" using inv by (simp add: hmi_inv_def)
  have "\<not> isBitSet hm (heapSlotCurrent it + 8 * j)" if "j < k" for j
    using hmi_inv_bit [OF inv(1,2), of j] z [OF that] that inv(3) by simp
  then show ?thesis using slot_addr_between [OF c] unfolding none_marked_def by blast
qed

lemma hmi_refresh:
  assumes "x = (if q \<noteq> 0 then
      (if heapSlotCurrent it < heapChunkTop it
       then it \<lparr> heapMapSlotValue := drop_bit (bitIndexHead it) (heapMapBits hm (heapMapSlotCurrent it)) \<rparr> else it)
      else w)" "q \<noteq> (0 :: nat)" "heapSlotCurrent x < heapChunkTop x"
  shows "heapMapSlotValue x = drop_bit (bitIndexHead x) (heapMapBits hm (heapMapSlotCurrent x))"
  using assms by (auto split: if_splits)

lemma hmi_jump_far:
  assumes "(bitIndexHead it + n) div 64 \<noteq> 0" "heapSlotCurrent (hmi_jump hm n it) < heapChunkTop (hmi_jump hm n it)"
  shows "heapMapSlotValue (hmi_jump hm n it) =
    drop_bit (bitIndexHead (hmi_jump hm n it)) (heapMapBits hm (heapMapSlotCurrent (hmi_jump hm n it)))"
  by (rule hmi_refresh [OF hmi_jump_def [of hm n it, unfolded Let_def] assms])

lemma hmi_jump_spec:
  assumes inv: "hmi_inv hm it" and lt: "heapSlotCurrent it < heapChunkTop it" and hk: "bitIndexHead it + k < 64"
    and un: "heapSlotCurrent it + 8 * k + 8 * n < UMAX"
    and it1: "it1 = it \<lparr> heapSlotCurrent := heapSlotCurrent it + 8 * k,
      heapMapSlotValue := drop_bit k (heapMapSlotValue it), bitIndexHead := bitIndexHead it + k \<rparr>"
  shows "hmi_inv hm (hmi_jump hm n it1)" "heapSlotCurrent (hmi_jump hm n it1) = heapSlotCurrent it + 8 * k + 8 * n"
    "heapChunkTop (hmi_jump hm n it1) = heapChunkTop it"
    "useLargeObjectOptimization (hmi_jump hm n it1) = useLargeObjectOptimization it"
proof -
  let ?h = "bitIndexHead it" and ?it3 = "hmi_jump hm n it1"
  have u: "uadd (heapSlotCurrent it + 8 * k) (8 * n) = heapSlotCurrent it + 8 * k + 8 * n" using un by (simp add: uadd_exact)
  have f3: "heapSlotCurrent ?it3 = heapSlotCurrent it + 8 * k + 8 * n" "heapChunkTop ?it3 = heapChunkTop it"
    "useLargeObjectOptimization ?it3 = useLargeObjectOptimization it"
    "heapMapSlotCurrent ?it3 = heapMapSlotCurrent it + (?h + k + n) div 64" "bitIndexHead ?it3 = (?h + k + n) mod 64"
    by (simp_all add: hmi_jump_def it1 u Let_def)
  have v: "heapMapSlotValue it = drop_bit ?h (heapMapBits hm (heapMapSlotCurrent it))"
    using inv lt by (simp add: hmi_inv_def)
  have val: "heapSlotCurrent ?it3 < heapChunkTop ?it3 \<longrightarrow>
      heapMapSlotValue ?it3 = drop_bit (bitIndexHead ?it3) (heapMapBits hm (heapMapSlotCurrent ?it3))"
  proof (cases "(?h + k + n) div 64 = 0")
    case True
    then have s: "?h + k + n < 64" "n < 64" by (simp_all add: div_eq_0_iff)
    then have "heapMapSlotValue ?it3 = drop_bit n (drop_bit k (drop_bit ?h (heapMapBits hm (heapMapSlotCurrent it))))"
      using True v by (simp add: hmi_jump_def it1 Let_def)
    then show ?thesis using s True by (simp add: f3 ac_simps)
  next
    case False
    then show ?thesis using hmi_jump_far [of it1 n hm] by (simp add: it1)
  qed
  show "hmi_inv hm ?it3"
    by (rule hmi_inv_step [OF inv lt _ _ _ _ _ val, of "k + n"]) (use un in \<open>simp_all add: f3 distrib_left add.assoc\<close>)
  show "heapSlotCurrent ?it3 = heapSlotCurrent it + 8 * k + 8 * n" "heapChunkTop ?it3 = heapChunkTop it"
    "useLargeObjectOptimization ?it3 = useLargeObjectOptimization it" by (simp_all add: f3)
qed

lemma hmi_take_spec:
  assumes inv: "hmi_inv hm it" and lt: "heapSlotCurrent it < heapChunkTop it" and v: "heapMapSlotValue it \<noteq> 0"
    and sz: "\<And>a. slot_addr hm a \<Longrightarrow> isBitSet hm a \<Longrightarrow> a < heapChunkTop it + 504 \<Longrightarrow> a + 8 * jump sizeOf it a < UMAX"
  shows "\<exists>a it'. hmi_take sizeOf hm it = (if a < heapChunkTop it then a else NULL, it') \<and>
    slot_addr hm a \<and> heapSlotCurrent it \<le> a \<and> isBitSet hm a \<and> none_marked hm (heapSlotCurrent it) a \<and>
    hmi_inv hm it' \<and> heapSlotCurrent it' = a + 8 * jump sizeOf it a \<and> heapChunkTop it' = heapChunkTop it \<and>
    useLargeObjectOptimization it' = useLargeObjectOptimization it"
proof -
  let ?c = "heapSlotCurrent it" and ?h = "bitIndexHead it"
  from lowest_bit [OF v] obtain k where k: "bit (heapMapSlotValue it) k" "\<And>i. i < k \<Longrightarrow> \<not> bit (heapMapSlotValue it) i"
    "unat (leadingZeroes (heapMapSlotValue it)) = k" "k < 64" by metis
  have i: "slot_addr hm ?c" "heapChunkTop it + 512 \<le> UMAX"
    "heapMapSlotValue it = drop_bit ?h (heapMapBits hm (heapMapSlotCurrent it))" using inv lt by (auto simp: hmi_inv_def)
  have hk: "?h + k < 64" using k(1) bit_imp_le_length [of "heapMapBits hm (heapMapSlotCurrent it)" "?h + k"]
    by (simp add: i(3) bit_drop_bit_eq)
  let ?a = "?c + 8 * k"
  have ua: "?a < UMAX" using lt i(2) k(4) by linarith
  have sa: "slot_addr hm ?a" using slot_addr_step [OF i(1) ua] by simp
  have m: "isBitSet hm ?a" using hmi_inv_bit [OF inv lt hk] k(1) by simp
  let ?n = "jump sizeOf it ?a" and ?it1 = "hmi_seek it"
  have un: "?a + 8 * ?n < UMAX" using lt k(4) by (intro sz [OF sa m]) linarith
  have it1: "?it1 = it \<lparr> heapSlotCurrent := ?a, heapMapSlotValue := drop_bit k (heapMapSlotValue it), bitIndexHead := ?h + k \<rparr>"
    using ua by (simp add: hmi_seek_def k(3) uadd_exact)
  note j = hmi_jump_spec [OF inv lt hk un it1]
  have "hmi_take sizeOf hm it = (if ?a < heapChunkTop it then ?a else NULL, hmi_jump hm ?n ?it1)"
    using j(3) by (simp add: hmi_take_def it1 jump_def convertBytesToSlots_def Let_def cong: if_cong)
  moreover have "none_marked hm ?c ?a" using hmi_none_before [OF inv lt _ k(2)] hk by simp
  ultimately show ?thesis
    using sa m j by (intro exI [of _ ?a] exI [of _ "hmi_jump hm ?n ?it1"]) simp
qed

lemma hmi_skip_spec:
  assumes inv: "hmi_inv hm it" and lt: "heapSlotCurrent it < heapChunkTop it" and z: "heapMapSlotValue it = 0"
  shows "hmi_inv hm (hmi_skip hm it)" "heapSlotCurrent it < heapSlotCurrent (hmi_skip hm it)"
    "none_marked hm (heapSlotCurrent it) (heapSlotCurrent (hmi_skip hm it))"
    "heapChunkTop (hmi_skip hm it) = heapChunkTop it"
    "useLargeObjectOptimization (hmi_skip hm it) = useLargeObjectOptimization it"
proof -
  let ?j = "64 - bitIndexHead it"
  have i: "heapChunkTop it + 512 \<le> UMAX" "bitIndexHead it < 64" using inv lt by (auto simp: hmi_inv_def)
  have u: "heapSlotCurrent it + 8 * ?j < UMAX" using lt i by linarith
  have f: "heapSlotCurrent (hmi_skip hm it) = heapSlotCurrent it + 8 * ?j"
    "heapChunkTop (hmi_skip hm it) = heapChunkTop it" "bitIndexHead (hmi_skip hm it) = 0"
    "heapMapSlotCurrent (hmi_skip hm it) = heapMapSlotCurrent it + 1"
    "useLargeObjectOptimization (hmi_skip hm it) = useLargeObjectOptimization it"
    "heapSlotCurrent (hmi_skip hm it) < heapChunkTop (hmi_skip hm it) \<longrightarrow>
      heapMapSlotValue (hmi_skip hm it) = heapMapBits hm (heapMapSlotCurrent (hmi_skip hm it))"
    using u by (simp_all add: hmi_skip_def Let_def uadd_exact)
  have h: "bitIndexHead it + ?j = 64" using i(2) by simp
  show "hmi_inv hm (hmi_skip hm it)"
    by (rule hmi_inv_step [OF inv lt u]) (use f h in simp_all)
  show "heapSlotCurrent it < heapSlotCurrent (hmi_skip hm it)" using f(1) i(2) by simp
  show "none_marked hm (heapSlotCurrent it) (heapSlotCurrent (hmi_skip hm it))"
    unfolding f(1) by (rule hmi_none_before [OF inv lt]) (use h z in simp_all)
qed (simp_all add: hmi_skip_def Let_def)

lemma none_marked_trans: "none_marked hm a b \<Longrightarrow> none_marked hm b c \<Longrightarrow> none_marked hm a c"
  unfolding none_marked_def using not_le by blast

lemma none_marked_mono: "none_marked hm a c \<Longrightarrow> b \<le> c \<Longrightarrow> none_marked hm a b"
  unfolding none_marked_def by (meson less_le_trans)

text \<open>What one call returns: the first marked slot from the current one on, or \<open>NULL\<close>.\<close>

definition returns_next :: "(addr \<Rightarrow> nat) \<Rightarrow> HeapMap \<Rightarrow> HeapMapIterator \<Rightarrow> addr \<Rightarrow> HeapMapIterator \<Rightarrow> bool" where
  "returns_next sizeOf hm it r it' \<longleftrightarrow>
     (if none_marked hm (heapSlotCurrent it) (heapChunkTop it) then r = NULL \<and> heapChunkTop it \<le> heapSlotCurrent it'
      else slot_addr hm r \<and> isBitSet hm r \<and> heapSlotCurrent it \<le> r \<and> r < heapChunkTop it \<and>
        none_marked hm (heapSlotCurrent it) r \<and> heapSlotCurrent it' = r + 8 * jump sizeOf it r)"

lemma hmi_nextObject_spec:
  assumes "hmi_inv hm it"
    and "\<And>a. slot_addr hm a \<Longrightarrow> isBitSet hm a \<Longrightarrow> a < heapChunkTop it + 504 \<Longrightarrow> a + 8 * jump sizeOf it a < UMAX"
  shows "\<exists>r it'. hmi_nextObject sizeOf hm it = Some (r, it') \<and> hmi_inv hm it' \<and> heapChunkTop it' = heapChunkTop it \<and>
    useLargeObjectOptimization it' = useLargeObjectOptimization it \<and> returns_next sizeOf hm it r it'"
  using assms
proof (induction "heapChunkTop it - heapSlotCurrent it" arbitrary: it rule: less_induct)
  case less
  let ?c = "heapSlotCurrent it" and ?t = "heapChunkTop it"
  consider "\<not> ?c < ?t" | "?c < ?t" "heapMapSlotValue it \<noteq> 0" | "?c < ?t" "heapMapSlotValue it = 0" by blast
  then show ?case
  proof cases
    case 1
    then have "none_marked hm ?c ?t" by (auto simp: none_marked_def)
    with 1 less.prems(1) show ?thesis by (subst hmi_nextObject.simps) (simp add: returns_next_def)
  next
    case 2
    from hmi_take_spec [OF less.prems(1) 2 less.prems(2)] obtain a it' where
      t: "hmi_take sizeOf hm it = (if a < ?t then a else NULL, it')" "slot_addr hm a" "?c \<le> a" "isBitSet hm a"
        "none_marked hm ?c a" "hmi_inv hm it'" "heapSlotCurrent it' = a + 8 * jump sizeOf it a" "heapChunkTop it' = ?t"
        "useLargeObjectOptimization it' = useLargeObjectOptimization it" by blast
    have "a < ?t \<Longrightarrow> \<not> none_marked hm ?c ?t" using t(2-4) by (auto simp: none_marked_def)
    moreover have "\<not> a < ?t \<Longrightarrow> none_marked hm ?c ?t" using none_marked_mono [OF t(5)] by simp
    ultimately show ?thesis using t 2 by (subst hmi_nextObject.simps) (simp add: returns_next_def)
  next
    case 3
    note s = hmi_skip_spec [OF less.prems(1) 3]
    let ?it1 = "hmi_skip hm it"
    have j: "jump sizeOf ?it1 = jump sizeOf it" by (rule ext) (simp add: jump_def s(5))
    have "?t - heapSlotCurrent ?it1 < ?t - ?c" using s(2) 3(1) by (rule diff_less_mono2)
    with less.hyps [of ?it1] s 3(1) less.prems(2) j obtain r it' where
      r: "hmi_nextObject sizeOf hm ?it1 = Some (r, it')" "hmi_inv hm it'" "heapChunkTop it' = ?t"
        "useLargeObjectOptimization it' = useLargeObjectOptimization it" "returns_next sizeOf hm ?it1 r it'" by auto
    have n: "none_marked hm (heapSlotCurrent ?it1) b \<longleftrightarrow> none_marked hm ?c b" for b
      using none_marked_trans [OF s(3)] s(2) unfolding none_marked_def by (meson le_trans less_imp_le)
    have "hmi_nextObject sizeOf hm it = Some (r, it')" using 3 r(1) by (subst hmi_nextObject.simps) simp
    moreover have "returns_next sizeOf hm it r it'" using r(5) s(2,4) by (auto simp: returns_next_def n j)
    ultimately show ?thesis using r by blast
  qed
qed

section \<open>The whole iteration\<close>

text \<open>The client's loop: call \<open>nextObject\<close> until it returns \<open>NULL\<close>.\<close>

partial_function (option) hmi_collect :: "(addr \<Rightarrow> nat) \<Rightarrow> HeapMap \<Rightarrow> HeapMapIterator \<Rightarrow> addr list option" where
  "hmi_collect sizeOf hm it =
     Option.bind (hmi_nextObject sizeOf hm it) (\<lambda>(a, it).
       if a = NULL then Some [] else Option.bind (hmi_collect sizeOf hm it) (\<lambda>as. Some (a # as)))"

text \<open>The marked slots of a range, from the map alone.\<close>

function slots :: "addr \<Rightarrow> addr \<Rightarrow> addr list" where
  "slots lo hi = (if lo < hi then lo # slots (lo + 8) hi else [])"
  by auto
termination by (relation "measure (\<lambda>(lo, hi). hi - lo)") auto

declare slots.simps [simp del]

definition marked_slots :: "HeapMap \<Rightarrow> addr \<Rightarrow> addr \<Rightarrow> addr list" where
  "marked_slots hm lo hi = filter (isBitSet hm) (slots lo hi)"

lemma marked_slots_empty: "hi \<le> lo \<Longrightarrow> marked_slots hm lo hi = []"
  by (simp add: marked_slots_def slots.simps)

lemma marked_slots_step:
  "lo < hi \<Longrightarrow> marked_slots hm lo hi = (if isBitSet hm lo then [lo] else []) @ marked_slots hm (lo + 8) hi"
  by (subst marked_slots_def, subst slots.simps) (simp add: marked_slots_def)

lemma marked_slots_skip:
  assumes "slot_addr hm lo" "lo + 8 * k < UMAX" "none_marked hm lo (min (lo + 8 * k) hi)"
  shows "marked_slots hm lo hi = marked_slots hm (lo + 8 * k) hi"
  using assms
proof (induction k arbitrary: lo)
  case (Suc k)
  show ?case
  proof (cases "lo < hi")
    case True
    then have "\<not> isBitSet hm lo" using Suc.prems(1,3) by (auto simp: none_marked_def)
    moreover have "slot_addr hm (lo + 8)" using slot_addr_step(1) [OF Suc.prems(1), of 1] Suc.prems(2) by simp
    moreover have "none_marked hm (lo + 8) (min (lo + 8 + 8 * k) hi)" using Suc.prems(3) by (auto simp: none_marked_def)
    ultimately have "marked_slots hm (lo + 8) hi = marked_slots hm (lo + 8 + 8 * k) hi"
      using Suc.IH [of "lo + 8"] Suc.prems(2) by simp
    with marked_slots_step [OF True, of hm] \<open>\<not> isBitSet hm lo\<close> show ?thesis by (simp add: algebra_simps)
  qed (simp add: marked_slots_empty)
qed simp

lemma marked_slots_none:
  assumes "slot_addr hm lo" "hi + 8 \<le> UMAX" "none_marked hm lo hi"
  shows "marked_slots hm lo hi = []"
proof (cases "lo < hi")
  case True
  define k where "k = (hi - lo + 7) div 8"
  have "hi \<le> lo + 8 * k" "lo + 8 * k < hi + 8" using True by (auto simp: k_def)
  with marked_slots_skip [OF assms(1), of k hi] assms(2,3) show ?thesis
    by (simp add: min_def marked_slots_empty)
qed (simp add: marked_slots_empty)

text \<open>Objects as the large object optimisation sees them: no mark inside a marked object.\<close>

definition objects_ok :: "(addr \<Rightarrow> nat) \<Rightarrow> HeapMap \<Rightarrow> addr \<Rightarrow> bool" where
  "objects_ok sizeOf hm top1 \<longleftrightarrow> (\<forall>a. slot_addr hm a \<and> isBitSet hm a \<and> a < top1 + 504 \<longrightarrow>
     8 \<le> sizeOf a \<and> a + sizeOf a < UMAX \<and> none_marked hm (a + 8) (a + sizeOf a))"

lemma objects_ok_jump:
  assumes "hmi_inv hm it" "useLargeObjectOptimization it \<longrightarrow> objects_ok sizeOf hm (heapChunkTop it)"
    and a: "slot_addr hm a" "isBitSet hm a" "a < heapChunkTop it + 504"
  shows "0 < jump sizeOf it a" "a + 8 * jump sizeOf it a < UMAX" "none_marked hm (a + 8) (a + 8 * jump sizeOf it a)"
proof -
  have u: "heapChunkTop it + 512 \<le> UMAX" using assms(1) by (simp add: hmi_inv_def)
  have "0 < jump sizeOf it a \<and> a + 8 * jump sizeOf it a < UMAX \<and> none_marked hm (a + 8) (a + 8 * jump sizeOf it a)"
  proof (cases "useLargeObjectOptimization it")
    case True
    then have s: "8 \<le> sizeOf a" "a + sizeOf a < UMAX" "none_marked hm (a + 8) (a + sizeOf a)"
      using assms(2) a by (auto simp: objects_ok_def)
    have le: "8 * (sizeOf a div 8) \<le> sizeOf a" by simp
    have "0 < sizeOf a div 8" using s(1) by (simp add: div_greater_zero_iff)
    moreover have "a + 8 * (sizeOf a div 8) < UMAX" using s(2) le by linarith
    moreover have "none_marked hm (a + 8) (a + 8 * (sizeOf a div 8))" using none_marked_mono [OF s(3)] le by simp
    ultimately show ?thesis using True by (simp add: jump_def)
  next
    case False
    then show ?thesis using a(3) u by (auto simp: jump_def none_marked_def)
  qed
  then show "0 < jump sizeOf it a" "a + 8 * jump sizeOf it a < UMAX" "none_marked hm (a + 8) (a + 8 * jump sizeOf it a)" by auto
qed

lemma hmi_collect_spec:
  assumes "hmi_inv hm it" "0 < heapMapBaseDelta hm"
    and "useLargeObjectOptimization it \<longrightarrow> objects_ok sizeOf hm (heapChunkTop it)"
  shows "hmi_collect sizeOf hm it = Some (marked_slots hm (heapSlotCurrent it) (heapChunkTop it))"
  using assms
proof (induction "heapChunkTop it - heapSlotCurrent it" arbitrary: it rule: less_induct)
  case less
  let ?c = "heapSlotCurrent it" and ?t = "heapChunkTop it"
  note ok = objects_ok_jump [OF less.prems(1,3)]
  have i: "slot_addr hm ?c" "?t + 512 \<le> UMAX" using less.prems(1) by (auto simp: hmi_inv_def)
  from hmi_nextObject_spec [OF less.prems(1) ok(2)] obtain r it' where
    r: "hmi_nextObject sizeOf hm it = Some (r, it')" "hmi_inv hm it'" "heapChunkTop it' = ?t"
      "useLargeObjectOptimization it' = useLargeObjectOptimization it" "returns_next sizeOf hm it r it'" by blast
  show ?case
  proof (cases "none_marked hm ?c ?t")
    case True
    then show ?thesis using r marked_slots_none [OF i(1) _ True] i(2)
      by (subst hmi_collect.simps) (simp add: returns_next_def)
  next
    case False
    let ?n = "jump sizeOf it r"
    have n: "slot_addr hm r" "isBitSet hm r" "?c \<le> r" "r < ?t" "none_marked hm ?c r" "heapSlotCurrent it' = r + 8 * ?n"
      using r(5) False by (auto simp: returns_next_def)
    have "r \<noteq> NULL" using n(1) less.prems(2) by (auto simp: slot_addr_def covers_def)
    have o: "0 < ?n" "r + 8 * ?n < UMAX" "none_marked hm (r + 8) (r + 8 * ?n)" using ok [OF n(1,2)] n(4) by auto
    have "r < ?c + 8 * Suc (r - ?c)" using n(3) by simp
    from slot_addr_between [OF i(1) n(1,3) this] obtain k where k: "r = ?c + 8 * k" by auto
    have r8: "slot_addr hm (r + 8)" using slot_addr_step(1) [OF n(1), of 1] o(1,2) by simp
    have e: "r + 8 + 8 * (?n - 1) = r + 8 * ?n" using o(1) by (simp add: algebra_simps)
    have "marked_slots hm ?c ?t = marked_slots hm r ?t"
      using marked_slots_skip [OF i(1), of k ?t] n(4,5) i(2) by (simp add: k min_def)
    also have "\<dots> = r # marked_slots hm (r + 8) ?t" using marked_slots_step [OF n(4), of hm] n(2) by simp
    also have "marked_slots hm (r + 8) ?t = marked_slots hm (r + 8 * ?n) ?t"
      using marked_slots_skip [OF r8, of "?n - 1" ?t] o(2) none_marked_mono [OF o(3)] unfolding e by simp
    finally have m: "marked_slots hm ?c ?t = r # marked_slots hm (heapSlotCurrent it') (heapChunkTop it')"
      using n(6) r(3) by simp
    have "heapChunkTop it' - heapSlotCurrent it' < ?t - ?c" unfolding r(3) n(6) using n(3,4) o(1) by linarith
    from less.hyps [OF this r(2) less.prems(2)] less.prems(3) r(3,4)
    have "hmi_collect sizeOf hm it' = Some (marked_slots hm (heapSlotCurrent it') (heapChunkTop it'))" by simp
    with r(1) m \<open>r \<noteq> NULL\<close> show ?thesis by (subst hmi_collect.simps) simp
  qed
qed

lemma hmi_reset_spec:
  assumes "slot_addr hm base" "top1 + 512 \<le> UMAX" "heapBase hm = heapMapBaseDelta hm"
  shows "hmi_inv hm (hmi_reset hm base top1 it)" "heapSlotCurrent (hmi_reset hm base top1 it) = base"
    "heapChunkTop (hmi_reset hm base top1 it) = top1"
    "useLargeObjectOptimization (hmi_reset hm base top1 it) = useLargeObjectOptimization it"
proof -
  have c: "covers hm base" using assms(1) by (simp add: slot_addr_def)
  then have lt: "off hm base < UMAX" unfolding covers_def by linarith
  have "(off hm base - off hm base mod 512) div 64 div 8 = (off hm base - off hm base mod 512) div 512"
    by (simp add: div_mult2_eq [symmetric])
  also have "\<dots> = off hm base div 512" by (simp add: minus_mod_eq_mult_div)
  finally have i: "roundToFloor J9MODRON_HMI_HEAPMAP_ALIGNMENT (off hm base) div SLOTS_PER_HEAPMAP_SLOT div 8 = off hm base div 512"
    using lt by (simp add: J9MODRON_HMI_HEAPMAP_ALIGNMENT_def SLOTS_PER_HEAPMAP_SLOT_def)
  show f: "heapSlotCurrent (hmi_reset hm base top1 it) = base" "heapChunkTop (hmi_reset hm base top1 it) = top1"
    "useLargeObjectOptimization (hmi_reset hm base top1 it) = useLargeObjectOptimization it"
    by (simp_all add: hmi_reset_def Let_def)
  have "bitIndexHead (hmi_reset hm base top1 it) = off hm base div 8 mod 64"
    "heapMapSlotCurrent (hmi_reset hm base top1 it) = off hm base div 512"
    using bit_index [OF c] i usub_covers [OF c] assms(3) by (simp_all add: hmi_reset_def Let_def)
  moreover have "base < top1 \<Longrightarrow> heapMapSlotValue (hmi_reset hm base top1 it) =
      drop_bit (bitIndexHead (hmi_reset hm base top1 it)) (heapMapBits hm (heapMapSlotCurrent (hmi_reset hm base top1 it)))"
    by (simp add: hmi_reset_def Let_def)
  ultimately show "hmi_inv hm (hmi_reset hm base top1 it)"
    using assms(1,2) unfolding hmi_inv_def f by simp
qed

section \<open>A map is a set of marked addresses\<close>

text \<open>A list of addresses is marked; the result lists those whose bit the caller set.\<close>

primrec ins_all :: "('a \<Rightarrow> 's \<Rightarrow> bool \<times> 's) \<Rightarrow> 'a list \<Rightarrow> 's \<Rightarrow> 'a list \<times> 's" where
  "ins_all ins [] s = ([], s)"
| "ins_all ins (a # as) s =
     (let (new, s1) = ins a s; (won, s2) = ins_all ins as s1 in (if new then a # won else won, s2))"

text \<open>
  What marking relies on: each mutator learns whether it was the one to set the bit, and setting
  or clearing one address affects no other.
\<close>

locale mark_set =
  fixes valid :: "'s \<Rightarrow> 'a \<Rightarrow> bool" and isin :: "'s \<Rightarrow> 'a \<Rightarrow> bool"
    and ins :: "'a \<Rightarrow> 's \<Rightarrow> bool \<times> 's" and del :: "'a \<Rightarrow> 's \<Rightarrow> bool \<times> 's"
  assumes ins_valid: "valid (snd (ins a s)) b = valid s b"
    and del_valid: "valid (snd (del a s)) b = valid s b"
    and ins_result: "valid s a \<Longrightarrow> fst (ins a s) = (\<not> isin s a)"
    and ins_isin: "valid s a \<Longrightarrow> valid s b \<Longrightarrow> isin (snd (ins a s)) b = (isin s b \<or> b = a)"
    and del_result: "valid s a \<Longrightarrow> fst (del a s) = isin s a"
    and del_isin: "valid s a \<Longrightarrow> valid s b \<Longrightarrow> isin (snd (del a s)) b = (isin s b \<and> b \<noteq> a)"
begin

lemma ins_del:
  "valid s a \<Longrightarrow> valid s b \<Longrightarrow> \<not> isin s a \<Longrightarrow> isin (snd (del a (snd (ins a s)))) b = isin s b"
  by (auto simp: del_isin ins_isin ins_valid)

lemma ins_all_spec:
  assumes "\<forall>a \<in> set as. valid s a"
  shows "distinct (fst (ins_all ins as s))" "set (fst (ins_all ins as s)) = {a \<in> set as. \<not> isin s a}"
    "valid (snd (ins_all ins as s)) b = valid s b" "valid s b \<Longrightarrow> isin (snd (ins_all ins as s)) b = (isin s b \<or> b \<in> set as)"
proof -
  have "distinct (fst (ins_all ins as s)) \<and> set (fst (ins_all ins as s)) = {a \<in> set as. \<not> isin s a} \<and>
    (\<forall>b. valid (snd (ins_all ins as s)) b = valid s b) \<and>
    (\<forall>b. valid s b \<longrightarrow> isin (snd (ins_all ins as s)) b = (isin s b \<or> b \<in> set as))"
    using assms
  proof (induction as arbitrary: s)
    case (Cons a as)
    obtain new s1 where i: "ins a s = (new, s1)" by fastforce
    obtain won s2 where r: "ins_all ins as s1 = (won, s2)" by fastforce
    have v: "valid s1 b = valid s b" for b using ins_valid [of a s b] i by simp
    have a: "valid s a" using Cons.prems by simp
    have n: "new = (\<not> isin s a)" "\<And>b. valid s b \<Longrightarrow> isin s1 b = (isin s b \<or> b = a)"
      using ins_result [OF a] ins_isin [OF a] i by auto
    from Cons.IH [of s1] Cons.prems v r
    have "distinct won" "set won = {b \<in> set as. \<not> isin s1 b}" "\<And>b. valid s2 b = valid s b"
      "\<And>b. valid s b \<Longrightarrow> isin s2 b = (isin s1 b \<or> b \<in> set as)" by auto
    with n a Cons.prems i r show ?case by auto
  qed simp
  then show "distinct (fst (ins_all ins as s))" "set (fst (ins_all ins as s)) = {a \<in> set as. \<not> isin s a}"
    "valid (snd (ins_all ins as s)) b = valid s b" "valid s b \<Longrightarrow> isin (snd (ins_all ins as s)) b = (isin s b \<or> b \<in> set as)"
    by auto
qed

end

lemma slot_addr_marks: "slot_addr (snd (setBit_hm a hm)) b = slot_addr hm b" "slot_addr (snd (clearBit a hm)) b = slot_addr hm b"
  by (simp_all add: setBit_hm_def clearBit_def slot_addr_def covers_def split: prod.split)

interpretation hm: mark_set slot_addr isBitSet setBit_hm clearBit
  by unfold_locales (simp_all add: slot_addr_marks setBit_result clearBit_result)

section \<open>Properties\<close>

text \<open>An example map: heap from 4096 to 8192, words 0 to 7.\<close>

definition hm_example :: HeapMap where
  "hm_example = \<lparr> heapBase = 4096, heapTop = 8192, heapMapBaseDelta = 4096,
     heapMapBits = (\<lambda>_. 0)(0 := 1, 1 := 2 ^ 63), heapMapBitsAddr = 65536, hm_maxHeapSize = 4096 \<rparr>"

definition it_example :: HeapMapIterator where
  "it_example = \<lparr> heapSlotCurrent = 0, heapChunkTop = 0, heapMapSlotCurrent = 0, bitIndexHead = 0, heapMapSlotValue = 0,
     useLargeObjectOptimization = True \<rparr>"

text \<open>
  C13: the iterator over a chunk, called until it returns \<open>NULL\<close>, returns exactly the marked slots
  of the chunk in ascending order.  With the large object optimisation this needs that a marked
  object has no mark inside it; without it nothing is assumed about objects.
\<close>

theorem hmi_iterates_marked:
  assumes "slot_addr hm base" "top1 + 512 \<le> UMAX" "heapBase hm = heapMapBaseDelta hm" "0 < heapMapBaseDelta hm"
    and "useLargeObjectOptimization it \<longrightarrow> objects_ok sizeOf hm top1"
  shows "hmi_collect sizeOf hm (hmi_reset hm base top1 it) = Some (marked_slots hm base top1)"
proof -
  note r = hmi_reset_spec [OF assms(1-3), of it]
  from hmi_collect_spec [OF r(1) assms(4), of sizeOf] assms(5) show ?thesis by (simp add: r)
qed

lemma word_position: "k div 64 = 0 \<and> k mod 64 = 0 \<or> k div 64 = 1 \<and> k mod 64 = 63 \<longleftrightarrow> k = 0 \<or> k = (127 :: nat)"
proof
  assume a: "k div 64 = 0 \<and> k mod 64 = 0 \<or> k div 64 = 1 \<and> k mod 64 = 63"
  have e: "k div 64 * 64 + k mod 64 = k" by (rule div_mult_mod_eq)
  from a show "k = 0 \<or> k = 127"
  proof
    assume "k div 64 = 0 \<and> k mod 64 = 0"
    then have "k div 64 * 64 + k mod 64 = 0" by (simp only: mult_0 add_0)
    with e have "k = 0" by (simp only:)
    then show ?thesis ..
  next
    assume b: "k div 64 = 1 \<and> k mod 64 = 63"
    then have "k div 64 * 64 + k mod 64 = 127" by simp
    with e have "k = 127" by (simp only:)
    then show ?thesis ..
  qed
qed auto

lemma hm_example_marks:
  "slot_addr hm_example 4096" "slot_addr hm_example a \<Longrightarrow> isBitSet hm_example a \<longleftrightarrow> a = 4096 \<or> a = 5112"
proof -
  show "slot_addr hm_example 4096" by (simp add: slot_addr_def covers_def hm_example_def UMAX_def)
  assume a: "slot_addr hm_example a"
  then obtain k where k: "a = 4096 + 8 * k" by (auto simp: slot_addr_def covers_def hm_example_def dvd_def le_iff_add)
  have i: "off hm_example a div 512 = k div 64" "off hm_example a div 8 mod 64 = k mod 64"
    by (simp_all add: k hm_example_def div_mult2_eq [of "8 * k" 8 64, simplified])
  have b: "bit (9223372036854775808 :: uword) i \<longleftrightarrow> i = 63" for i
    using bit_exp_iff [of 63 i, where 'a = uword] by auto
  have "covers hm_example a" using a by (simp add: slot_addr_def)
  then have "isBitSet hm_example a \<longleftrightarrow> k div 64 = 0 \<and> k mod 64 = 0 \<or> k div 64 = 1 \<and> k mod 64 = 63"
    unfolding isBitSet_bit [OF \<open>covers hm_example a\<close>] i using b [of "k mod 64"]
    by (auto simp: hm_example_def bit_1_iff)
  also have "\<dots> \<longleftrightarrow> k = 0 \<or> k = 127"
    by (rule word_position)
  finally show "isBitSet hm_example a \<longleftrightarrow> a = 4096 \<or> a = 5112" by (auto simp: k)
qed

lemma hm_example_objects: "objects_ok (\<lambda>_. 24) hm_example 8192"
  unfolding objects_ok_def none_marked_def by (auto simp: hm_example_marks(2) UMAX_def)

theorem hmi_iterates_marked_witness:
  "hmi_collect (\<lambda>_. 24) hm_example (hmi_reset hm_example 4096 8192 it_example) = Some (marked_slots hm_example 4096 8192)"
  by (rule hmi_iterates_marked)
    (simp_all add: hm_example_marks(1) hm_example_objects, simp_all add: UMAX_def hm_example_def)

text \<open>
  C23: setting the bits of a list of heap slots marks exactly those in addition to what was marked,
  and \<open>setBit\<close> reports success exactly once for every address that was not marked before,
  however often it occurs in the list.
\<close>

theorem setBit_claims_once:
  assumes "\<forall>a \<in> set as. slot_addr hm a"
  shows "distinct (fst (ins_all setBit_hm as hm)) \<and> set (fst (ins_all setBit_hm as hm)) = {a \<in> set as. \<not> isBitSet hm a} \<and>
    (\<forall>b. slot_addr hm b \<longrightarrow> isBitSet (snd (ins_all setBit_hm as hm)) b = (isBitSet hm b \<or> b \<in> set as))"
  using hm.ins_all_spec [OF assms] by auto

theorem setBit_claims_once_witness:
  "set (fst (ins_all setBit_hm [4096, 4104, 4104] hm_example)) = {4104}"
proof -
  have v: "slot_addr hm_example 4104" using slot_addr_step(1) [OF hm_example_marks(1), of 1] by (simp add: UMAX_def)
  then have "\<forall>a \<in> set [4096, 4104, 4104]. slot_addr hm_example a" using hm_example_marks(1) by simp
  from setBit_claims_once [OF this] show ?thesis
    using hm_example_marks(2) [OF hm_example_marks(1)] hm_example_marks(2) [OF v] by auto
qed

text \<open>
  C24: \<open>setBitsInRange\<close> on a range of whole map words returns the number of map bytes and sets or
  clears the bits of exactly the slots of the range.
\<close>

theorem setBitsInRange_exact:
  assumes "word_range heapAlignment hm lo hi"
  shows "\<exists>hm'. setBitsInRange heapAlignment lo hi clear hm = Some ((hi - lo) div 64, hm') \<and>
    (\<forall>b. slot_addr hm b \<longrightarrow> isBitSet hm' b = (if lo \<le> b \<and> b < hi then \<not> clear else isBitSet hm b))"
  using setBitsInRange_result [OF assms] .

theorem setBitsInRange_exact_witness:
  "\<exists>hm'. setBitsInRange 1024 4096 5120 True hm_example = Some (16, hm') \<and>
    (\<forall>b. slot_addr hm_example b \<longrightarrow> isBitSet hm' b = (isBitSet hm_example b \<and> \<not> (4096 \<le> b \<and> b < 5120)))"
proof -
  have "word_range 1024 hm_example 4096 5120"
    by (simp add: word_range_def hm_example_def roundToCeiling_def uadd_def usub_def UMAX_def)
  from setBitsInRange_exact [OF this, of True] obtain hm' where
    "setBitsInRange 1024 4096 5120 True hm_example = Some ((5120 - 4096) div 64, hm')"
    "\<forall>b. slot_addr hm_example b \<longrightarrow> isBitSet hm' b = (if 4096 \<le> b \<and> b < 5120 then \<not> True else isBitSet hm_example b)"
    by blast
  then show ?thesis by auto
qed

end
