(* ===== verification/Atomic_Mark.thy ===== *)
theory Atomic_Mark
  imports Heap_Map
begin

text \<open>
  \<open>MM_HeapMap::atomicSetBit\<close> and \<open>atomicSetSlot\<close> (gc/base/HeapMap.hpp) run by several threads on
  one word of the map.  A thread reads the word, and tries to replace it by a compare and
  exchange; each read and each exchange is one atomic step, and the threads interleave freely.
\<close>

section \<open>Threads on one word\<close>

text \<open>
  A thread has not started its next turn of the loop (\<open>Ready\<close>), has read \<open>oldValue\<close>
  (\<open>Loaded\<close>), or has returned.
\<close>

datatype pc = Ready | Loaded uword | Done bool

type_synonym cas_state = "uword \<times> pc list"

text \<open>
  \<open>atomicSetBit\<close>: thread \<open>t\<close> works on the bit \<open>ks ! t\<close>.  The exchange compares with the value the
  thread read and fails when another thread has changed the word since.
\<close>

inductive setBit_step :: "nat list \<Rightarrow> cas_state \<Rightarrow> cas_state \<Rightarrow> bool" for ks where
  read_set: "t < length pcs \<Longrightarrow> pcs ! t = Ready \<Longrightarrow> w AND push_bit (ks ! t) 1 \<noteq> 0 \<Longrightarrow>
    setBit_step ks (w, pcs) (w, pcs[t := Done False])"
| read_clear: "t < length pcs \<Longrightarrow> pcs ! t = Ready \<Longrightarrow> w AND push_bit (ks ! t) 1 = 0 \<Longrightarrow>
    setBit_step ks (w, pcs) (w, pcs[t := Loaded w])"
| exchange: "t < length pcs \<Longrightarrow> pcs ! t = Loaded old \<Longrightarrow> w = old \<Longrightarrow>
    setBit_step ks (w, pcs) (old OR push_bit (ks ! t) 1, pcs[t := Done True])"
| exchange_fails: "t < length pcs \<Longrightarrow> pcs ! t = Loaded old \<Longrightarrow> w \<noteq> old \<Longrightarrow>
    setBit_step ks (w, pcs) (w, pcs[t := Ready])"

inductive setBit_run :: "nat list \<Rightarrow> cas_state \<Rightarrow> cas_state \<Rightarrow> bool" for ks where
  start: "setBit_run ks s s"
| step: "setBit_run ks s s' \<Longrightarrow> setBit_step ks s' s'' \<Longrightarrow> setBit_run ks s s''"

inductive_cases setBit_stepE: "setBit_step ks (w, pcs) (w', pcs')"

text \<open>The threads that were told they set their bit.\<close>

definition winners :: "pc list \<Rightarrow> nat set" where
  "winners pcs = {t. t < length pcs \<and> pcs ! t = Done True}"

lemma winners_update [simp]:
  "t < length pcs \<Longrightarrow> pcs ! t \<noteq> Done True \<Longrightarrow>
    winners (pcs[t := x]) = (if x = Done True then insert t (winners pcs) else winners pcs)"
  by (auto simp: winners_def nth_list_update)

lemma not_winner: "pcs ! t \<noteq> Done True \<Longrightarrow> t \<notin> winners pcs"
  by (simp add: winners_def)

text \<open>
  The invariant, relative to the word \<open>w0\<close> at the start: the bits are those of \<open>w0\<close> and of the
  winners, winners have different bits that were clear in \<open>w0\<close>, and no thread holds a value in
  which its bit is set or lost on a bit that is clear.
\<close>

definition bits_inv :: "nat list \<Rightarrow> uword \<Rightarrow> uword \<Rightarrow> nat set \<Rightarrow> bool" where
  "bits_inv ks w0 w W \<longleftrightarrow> (\<forall>i < 64. bit w i \<longleftrightarrow> bit w0 i \<or> i \<in> (!) ks ` W) \<and> inj_on ((!) ks) W \<and>
     (\<forall>t \<in> W. \<not> bit w0 (ks ! t))"

definition pc_inv :: "nat list \<Rightarrow> uword \<Rightarrow> nat \<Rightarrow> pc \<Rightarrow> bool" where
  "pc_inv ks w t p \<longleftrightarrow> (case p of Ready \<Rightarrow> True | Loaded old \<Rightarrow> \<not> bit old (ks ! t) | Done b \<Rightarrow> bit w (ks ! t))"

definition cas_inv :: "nat list \<Rightarrow> uword \<Rightarrow> cas_state \<Rightarrow> bool" where
  "cas_inv ks w0 = (\<lambda>(w, pcs). length pcs = length ks \<and> bits_inv ks w0 w (winners pcs) \<and>
     (\<forall>t < length ks. pc_inv ks w t (pcs ! t)))"

lemma and_push_bit: "k < 64 \<Longrightarrow> (w :: uword) AND push_bit k 1 \<noteq> 0 \<longleftrightarrow> bit w k"
  using and_single_bit [of k w] by simp

lemma bit_or_push: "k < 64 \<Longrightarrow> bit ((w :: uword) OR push_bit k 1) i \<longleftrightarrow> bit w i \<or> i = k"
  by (auto simp: bit_or_iff bit_exp_iff)

lemma bits_inv_win:
  assumes "bits_inv ks w0 w W" "ks ! t < 64" "\<not> bit w (ks ! t)"
  shows "bits_inv ks w0 (w OR push_bit (ks ! t) 1) (insert t W)"
proof -
  have "\<not> bit w0 (ks ! t)" "ks ! t \<notin> (!) ks ` W" using assms by (auto simp: bits_inv_def)
  then show ?thesis using assms(1) by (auto simp: bits_inv_def bit_or_push [OF assms(2)] simp del: push_bit_of_1)
qed

lemma cas_inv_step:
  assumes inv: "cas_inv ks w0 s" and st: "setBit_step ks s s'" and ks: "\<forall>k \<in> set ks. k < 64"
  shows "cas_inv ks w0 s'"
  using st
proof cases
  case (read_set t pcs w)
  then have k: "ks ! t < 64" using inv ks by (auto simp: cas_inv_def)
  have "pc_inv ks w t (Done False)" using read_set(5) and_push_bit [OF k] by (simp add: pc_inv_def)
  then show ?thesis using read_set inv by (auto simp: cas_inv_def nth_list_update)
next
  case (read_clear t pcs w)
  then have k: "ks ! t < 64" using inv ks by (auto simp: cas_inv_def)
  have "pc_inv ks w t (Loaded w)" using read_clear(5) and_push_bit [OF k] by (auto simp: pc_inv_def)
  then show ?thesis using read_clear inv by (auto simp: cas_inv_def nth_list_update)
next
  case (exchange t pcs old w)
  then have k: "ks ! t < 64" "t < length ks" using inv ks by (auto simp: cas_inv_def)
  have "\<not> bit old (ks ! t)" using exchange inv k(2) by (auto simp: cas_inv_def pc_inv_def)
  then have b: "bits_inv ks w0 (old OR push_bit (ks ! t) 1) (insert t (winners pcs))"
    using exchange inv bits_inv_win [OF _ k(1)] by (auto simp: cas_inv_def)
  have "pc_inv ks (old OR push_bit (ks ! t) 1) u p" if "pc_inv ks old u p" for u p
    using that by (auto simp: pc_inv_def bit_or_push [OF k(1)] simp del: push_bit_of_1 split: pc.splits)
  moreover have "pc_inv ks (old OR push_bit (ks ! t) 1) t (Done True)"
    by (simp add: pc_inv_def bit_or_push [OF k(1)] del: push_bit_of_1)
  ultimately show ?thesis using exchange inv b k(2)
    by (auto simp: cas_inv_def nth_list_update simp del: push_bit_of_1)
next
  case (exchange_fails t pcs old w)
  have "pc_inv ks w t Ready" by (simp add: pc_inv_def)
  then show ?thesis using exchange_fails inv by (auto simp: cas_inv_def nth_list_update)
qed

lemma winners_start [simp]: "winners (replicate n Ready) = {}"
  by (auto simp: winners_def)

lemma cas_inv_start: "cas_inv ks w (w, replicate (length ks) Ready)"
  by (auto simp: cas_inv_def bits_inv_def pc_inv_def)

lemma cas_inv_run:
  assumes "setBit_run ks s s'" "cas_inv ks w0 s" "\<forall>k \<in> set ks. k < 64"
  shows "cas_inv ks w0 s'"
  using assms by (induction rule: setBit_run.induct) (blast intro: cas_inv_step)+

section \<open>Every schedule ends\<close>

text \<open>
  A thread that holds a stale value has three steps to go before another exchange, a ready one
  two, one with the current value one: an exchange that fails is paid for by the thread that
  changed the word and is done.
\<close>

definition pc_weight :: "uword \<Rightarrow> pc \<Rightarrow> nat" where
  "pc_weight w p = (case p of Ready \<Rightarrow> 2 | Loaded old \<Rightarrow> (if old = w then 1 else 3) | Done _ \<Rightarrow> 0)"

definition cas_rank :: "cas_state \<Rightarrow> nat \<times> nat" where
  "cas_rank = (\<lambda>(w, pcs). (length (filter (\<lambda>p. \<forall>b. p \<noteq> Done b) pcs), sum_list (map (pc_weight w) pcs)))"

lemma update_split: "t < length xs \<Longrightarrow> xs = take t xs @ xs ! t # drop (Suc t) xs \<and> xs[t := x] = take t xs @ x # drop (Suc t) xs"
  by (simp add: id_take_nth_drop [symmetric] upd_conv_take_nth_drop)

lemma rank_done:
  assumes "t < length pcs" "\<forall>b. pcs ! t \<noteq> Done b"
  shows "fst (cas_rank (w', pcs[t := Done c])) < fst (cas_rank (w, pcs))"
proof -
  have e: "pcs = take t pcs @ pcs ! t # drop (Suc t) pcs" "pcs[t := Done c] = take t pcs @ Done c # drop (Suc t) pcs"
    using update_split [OF assms(1)] by auto
  show ?thesis unfolding cas_rank_def by (subst e(2), subst (3) e(1)) (simp add: assms(2))
qed

lemma rank_loop:
  assumes "t < length pcs" "\<forall>b. pcs ! t \<noteq> Done b" "\<forall>b. x \<noteq> Done b" "pc_weight w x < pc_weight w (pcs ! t)"
  shows "fst (cas_rank (w, pcs[t := x])) = fst (cas_rank (w, pcs))" "snd (cas_rank (w, pcs[t := x])) < snd (cas_rank (w, pcs))"
proof -
  have e: "pcs = take t pcs @ pcs ! t # drop (Suc t) pcs" "pcs[t := x] = take t pcs @ x # drop (Suc t) pcs"
    using update_split [OF assms(1)] by auto
  show "fst (cas_rank (w, pcs[t := x])) = fst (cas_rank (w, pcs))"
    unfolding cas_rank_def by (subst e(2), subst (3) e(1)) (simp add: assms(2,3))
  show "snd (cas_rank (w, pcs[t := x])) < snd (cas_rank (w, pcs))"
    unfolding cas_rank_def by (subst e(2), subst (3) e(1)) (simp add: assms(4))
qed

lemma setBit_step_rank:
  assumes "setBit_step ks s s'"
  shows "(cas_rank s', cas_rank s) \<in> less_than <*lex*> less_than"
  using assms
proof cases
  case (read_set t pcs w)
  then show ?thesis using rank_done [of t pcs w False w] by (cases "cas_rank s"; cases "cas_rank s'") simp
next
  case (read_clear t pcs w)
  then show ?thesis using rank_loop [of t pcs "Loaded w" w] by (cases "cas_rank s"; cases "cas_rank s'") (simp add: pc_weight_def)
next
  case (exchange t pcs old w)
  then show ?thesis using rank_done [of t pcs "old OR push_bit (ks ! t) 1" True w]
    by (cases "cas_rank s"; cases "cas_rank s'") (simp del: push_bit_of_1)
next
  case (exchange_fails t pcs old w)
  then show ?thesis using rank_loop [of t pcs Ready w] by (cases "cas_rank s"; cases "cas_rank s'") (simp add: pc_weight_def)
qed

lemma setBit_step_wf: "wf {(s', s). setBit_step ks s s'}"
  by (rule wf_subset [OF wf_inv_image [where f = cas_rank, OF wf_lex_prod [OF wf_less_than wf_less_than]]])
    (auto simp: inv_image_def setBit_step_rank)

lemma setBit_not_stuck:
  assumes "t < length pcs" "\<forall>b. pcs ! t \<noteq> Done b"
  shows "\<exists>s'. setBit_step ks (w, pcs) s'"
proof (cases "pcs ! t")
  case Ready
  then show ?thesis using assms(1) setBit_step.read_set [of t pcs w ks] setBit_step.read_clear [of t pcs w ks] by blast
next
  case (Loaded old)
  then show ?thesis using assms(1) setBit_step.exchange [of t pcs old w ks] setBit_step.exchange_fails [of t pcs old w ks] by blast
qed (use assms(2) in auto)

section \<open>Properties\<close>

text \<open>
  C14: when threads set bits of one map word concurrently, in any interleaving, then once all of
  them have returned the word holds the old bits and the requested ones, and for every requested
  bit that was clear exactly one of the threads that asked for it was told it set the bit; for a
  bit that was set already nobody was.
\<close>

theorem atomicSetBit_one_winner:
  assumes "setBit_run ks (w0, replicate (length ks) Ready) (w, pcs)" "\<forall>k \<in> set ks. k < 64"
    and "\<forall>p \<in> set pcs. \<exists>b. p = Done b"
  shows "(\<forall>i < 64. bit w i \<longleftrightarrow> bit w0 i \<or> i \<in> set ks) \<and>
    (\<forall>i \<in> set ks. if bit w0 i then \<not> (\<exists>t < length ks. ks ! t = i \<and> pcs ! t = Done True)
                  else \<exists>!t. t < length ks \<and> ks ! t = i \<and> pcs ! t = Done True)"
proof -
  have inv: "length pcs = length ks" "bits_inv ks w0 w (winners pcs)" "\<forall>t < length ks. pc_inv ks w t (pcs ! t)"
    using cas_inv_run [OF assms(1) cas_inv_start assms(2)] by (auto simp: cas_inv_def)
  have all: "bit w (ks ! t)" if "t < length ks" for t
    using assms(3) inv(1,3) that by (metis nth_mem pc_inv_def pc.simps(11))
  have b: "bit w i \<longleftrightarrow> bit w0 i \<or> i \<in> set ks" if "i < 64" for i
    using inv(1,2) all that by (fastforce simp: bits_inv_def winners_def in_set_conv_nth)
  have "if bit w0 i then \<not> (\<exists>t < length ks. ks ! t = i \<and> pcs ! t = Done True)
      else \<exists>!t. t < length ks \<and> ks ! t = i \<and> pcs ! t = Done True" if i: "i \<in> set ks" for i
  proof (cases "bit w0 i")
    case True
    then show ?thesis using inv by (auto simp: bits_inv_def winners_def)
  next
    case False
    have "bit w i" "i < 64" using i all assms(2) by (auto simp: in_set_conv_nth)
    with False inv(2) have "i \<in> (!) ks ` winners pcs" by (auto simp: bits_inv_def)
    then obtain t where t: "t \<in> winners pcs" "ks ! t = i" by auto
    moreover have "u = t" if "u \<in> winners pcs" "ks ! u = i" for u
      using inv(2) t that by (auto simp: bits_inv_def inj_on_def)
    ultimately show ?thesis using False inv(1) by (auto simp: winners_def)
  qed
  with b show ?thesis by blast
qed

text \<open>A schedule in which the second thread loses: both read, the first exchanges, the second fails and reads again.\<close>

lemma schedule_example:
  "setBit_run [3, 3] (0, [Ready, Ready]) (8, [Done True, Done False])"
proof -
  note s = setBit_run.step
  have "setBit_run [3, 3] (0, [Ready, Ready]) (0, [Loaded 0, Ready])"
    using s [OF setBit_run.start setBit_step.read_clear [of 0 "[Ready, Ready]" 0 "[3, 3]"]] by simp
  from s [OF this setBit_step.read_clear [of 1 "[Loaded 0, Ready]" 0 "[3, 3]"]]
  have "setBit_run [3, 3] (0, [Ready, Ready]) (0, [Loaded 0, Loaded 0])" by simp
  from s [OF this setBit_step.exchange [of 0 "[Loaded 0, Loaded 0]" 0 0 "[3, 3]"]]
  have "setBit_run [3, 3] (0, [Ready, Ready]) (8, [Done True, Loaded 0])" by simp
  from s [OF this setBit_step.exchange_fails [of 1 "[Done True, Loaded 0]" 0 8 "[3, 3]"]]
  have "setBit_run [3, 3] (0, [Ready, Ready]) (8, [Done True, Ready])" by simp
  from s [OF this setBit_step.read_set [of 1 "[Done True, Ready]" 8 "[3, 3]"]]
  show ?thesis by simp
qed

theorem atomicSetBit_one_winner_witness:
  "\<exists>!t. t < length [3, 3 :: nat] \<and> [3, 3 :: nat] ! t = 3 \<and> [Done True, Done False] ! t = Done True"
proof -
  have r: "setBit_run [3, 3] (0, replicate (length [3, 3 :: nat]) Ready) (8, [Done True, Done False])"
    using schedule_example by (simp add: numeral_2_eq_2)
  have "\<forall>k \<in> set [3, 3 :: nat]. k < 64" "\<forall>p \<in> set [Done True, Done False]. \<exists>b. p = Done b" by auto
  from atomicSetBit_one_winner [OF r this] show ?thesis by simp
qed

text \<open>
  C15: \<open>atomicSetBit\<close> is lock free: no interleaving of the threads goes on for ever, and a state in
  which nobody can move is one in which every thread has returned.
\<close>

theorem atomicSetBit_terminates:
  "wf {(s', s). setBit_step ks s s'} \<and>
    (\<forall>w pcs. (\<forall>s'. \<not> setBit_step ks (w, pcs) s') \<longrightarrow> (\<forall>p \<in> set pcs. \<exists>b. p = Done b))"
  using setBit_step_wf setBit_not_stuck by (metis in_set_conv_nth)

theorem atomicSetBit_terminates_witness: "\<exists>s'. setBit_step [3] (0, [Ready]) s'"
proof (rule ccontr)
  assume "\<not> (\<exists>s'. setBit_step [3] (0, [Ready]) s')"
  then have "\<forall>p \<in> set [Ready]. \<exists>b. p = Done b" using atomicSetBit_terminates [of "[3]"] by blast
  then show False by simp
qed

end
