(* ===== verification/Packet.thy ===== *)
theory Packet
  imports GC_Prelude "HOL-Library.Multiset"
begin

text \<open>
  Work packets and lists of packets: \<open>MM_Packet\<close> (gc/base/Packet.hpp, Packet.cpp) and
  \<open>MM_PacketList\<close> (gc/base/PacketList.hpp, PacketList.cpp).

  Packets are objects in a store, a function from packet address to packet.  The packet's slots
  are addressed by the number of the slot, so \<open>++\<close> on a slot pointer is \<open>+ 1\<close>.  A packet list is
  an array of sublists, each a doubly linked list threaded through the packets.  The locks are
  left out: every operation holds the locks of the sublists it touches.
\<close>

section \<open>Packets\<close>

record Packet =
  baseAddress :: nat
  basePtr :: nat
  topPtr :: nat
  currentPtr :: nat
  pk_slots :: "nat \<Rightarrow> addr"
  sublistIndex :: nat
  pk_owner :: addr
  pk_next :: addr
  pk_previous :: addr

definition PACKET_RETURNED :: nat where
  "PACKET_RETURNED = 1"

definition freeSlots :: "Packet \<Rightarrow> nat" where
  "freeSlots pk = usub (topPtr pk) (currentPtr pk)"

definition setOwner :: "addr \<Rightarrow> Packet \<Rightarrow> Packet" where
  "setOwner env pk = pk \<lparr> pk_owner := env \<rparr>"

definition clearOwner :: "Packet \<Rightarrow> Packet" where
  "clearOwner pk = pk \<lparr> pk_owner := NULL \<rparr>"

definition resetOwner :: "Packet \<Rightarrow> Packet" where
  "resetOwner pk = pk \<lparr> pk_owner := pk_owner pk OR PACKET_RETURNED \<rparr>"

definition packet_peek :: "Packet \<Rightarrow> addr" where
  "packet_peek pk = (if basePtr pk < currentPtr pk then pk_slots pk (currentPtr pk - 1) else NULL)"

definition setFull :: "Packet \<Rightarrow> Packet" where
  "setFull pk = pk \<lparr> currentPtr := topPtr pk \<rparr>"

definition packet_isFull :: "Packet \<Rightarrow> bool" where
  "packet_isFull pk \<longleftrightarrow> currentPtr pk = topPtr pk"

definition packet_pop :: "Packet \<Rightarrow> addr \<times> Packet" where
  "packet_pop pk =
     (if basePtr pk < currentPtr pk
      then (pk_slots pk (currentPtr pk - 1), pk \<lparr> currentPtr := currentPtr pk - 1 \<rparr>)
      else (NULL, pk))"

definition packet_push :: "addr \<Rightarrow> Packet \<Rightarrow> bool \<times> Packet" where
  "packet_push element pk =
     (if currentPtr pk < topPtr pk
      then (True, pk \<lparr> pk_slots := (pk_slots pk)(currentPtr pk := element), currentPtr := currentPtr pk + 1 \<rparr>)
      else (False, pk))"

definition packet_push2 :: "addr \<Rightarrow> addr \<Rightarrow> Packet \<Rightarrow> bool \<times> Packet" where
  "packet_push2 element1 element2 pk =
     (if currentPtr pk + 1 < topPtr pk
      then (True, pk \<lparr> pk_slots := (pk_slots pk)(currentPtr pk := element2, currentPtr pk + 1 := element1),
                       currentPtr := currentPtr pk + 2 \<rparr>)
      else (False, pk))"

definition packet_isEmpty :: "Packet \<Rightarrow> bool" where
  "packet_isEmpty pk \<longleftrightarrow> currentPtr pk = basePtr pk"

definition packet_clear :: "Packet \<Rightarrow> Packet" where
  "packet_clear pk =
     pk \<lparr> pk_slots := (\<lambda>i. if basePtr pk \<le> i \<and> i < topPtr pk then 0 else pk_slots pk i) \<rparr>"

definition packet_initialize :: "addr \<Rightarrow> addr \<Rightarrow> nat \<Rightarrow> nat \<Rightarrow> Packet \<Rightarrow> Packet" where
  "packet_initialize nxt previous base sz pk =
     pk \<lparr> pk_next := nxt, pk_previous := previous, baseAddress := base, basePtr := base, topPtr := base + sz,
          currentPtr := base, pk_owner := NULL \<rparr>"

definition resetData :: "Packet \<Rightarrow> Packet" where
  "resetData pk = pk \<lparr> currentPtr := baseAddress pk \<rparr>"

section \<open>Packet lists\<close>

type_synonym store = "addr \<Rightarrow> Packet"

record PacketSublist =
  sl_head :: addr
  sl_tail :: addr

record PacketList =
  sublists :: "PacketSublist list"
  pl_count :: nat

text \<open>The parts of the environment a packet list and the work packets read.\<close>

record Environment =
  env_address :: addr
  environmentId :: nat

definition pl_initialize :: "nat \<Rightarrow> PacketList option" where
  "pl_initialize packetListSplit =
     do { assert_MM (0 < packetListSplit);
          Some \<lparr> sublists = replicate packetListSplit \<lparr> sl_head = NULL, sl_tail = NULL \<rparr>, pl_count = 0 \<rparr> }"

definition getSublistIndex :: "Environment \<Rightarrow> PacketList \<Rightarrow> nat" where
  "getSublistIndex env pl = environmentId env mod length (sublists pl)"

definition upd_packet :: "addr \<Rightarrow> (Packet \<Rightarrow> Packet) \<Rightarrow> store \<Rightarrow> store" where
  "upd_packet p f st = st(p := f (st p))"

definition pl_push :: "Environment \<Rightarrow> addr \<Rightarrow> PacketList \<times> store \<Rightarrow> PacketList \<times> store" where
  "pl_push env packet = (\<lambda>(pl, st).
     (let index = getSublistIndex env pl; list = sublists pl ! index;
          st = upd_packet packet (\<lambda>pk. pk \<lparr> pk_next := sl_head list, pk_previous := NULL, sublistIndex := index \<rparr>) st;
          (list, st) = (if sl_head list = NULL then (list \<lparr> sl_tail := packet \<rparr>, st)
                        else (list, upd_packet (sl_head list) (\<lambda>pk. pk \<lparr> pk_previous := packet \<rparr>) st));
          list = list \<lparr> sl_head := packet \<rparr>
      in (\<lparr> sublists = (sublists pl)[index := list], pl_count = uadd (pl_count pl) 1 \<rparr>, st)))"

text \<open>\<open>pop\<close>: the sublists from the environment's own on, \<open>n\<close> still to try.\<close>

fun pop_loop :: "nat \<Rightarrow> nat \<Rightarrow> PacketList \<times> store \<Rightarrow> addr \<times> PacketList \<times> store" where
  "pop_loop 0 index (pl, st) = (NULL, pl, st)"
| "pop_loop (Suc n) index (pl, st) =
     (let list = sublists pl ! index
      in if sl_head list \<noteq> NULL then
           (let packet = sl_head list; list = list \<lparr> sl_head := pk_next (st packet) \<rparr>;
                (list, st) = (if sl_head list = NULL then (list \<lparr> sl_tail := NULL \<rparr>, st)
                              else (list, upd_packet (sl_head list) (\<lambda>pk. pk \<lparr> pk_previous := NULL \<rparr>) st))
            in (packet, \<lparr> sublists = (sublists pl)[index := list], pl_count = usub (pl_count pl) 1 \<rparr>, st))
         else pop_loop n ((index + 1) mod length (sublists pl)) (pl, st))"

definition pl_pop :: "Environment \<Rightarrow> PacketList \<times> store \<Rightarrow> addr \<times> PacketList \<times> store" where
  "pl_pop env = (\<lambda>(pl, st). pop_loop (length (sublists pl)) (getSublistIndex env pl) (pl, st))"

definition pl_isEmpty :: "PacketList \<Rightarrow> bool" where
  "pl_isEmpty pl \<longleftrightarrow> pl_count pl = 0"

definition pl_getCount :: "PacketList \<Rightarrow> nat" where
  "pl_getCount pl = pl_count pl"

fun reindex :: "nat \<Rightarrow> addr \<Rightarrow> store \<Rightarrow> store option" where
  "reindex 0 current st = Some st"
| "reindex (Suc n) current st =
     do { deref current;
          reindex n (pk_next (st current)) (upd_packet current (\<lambda>pk. pk \<lparr> sublistIndex := 0 \<rparr>) st) }"

definition pl_pushList :: "addr \<Rightarrow> addr \<Rightarrow> nat \<Rightarrow> PacketList \<times> store \<Rightarrow> (PacketList \<times> store) option" where
  "pl_pushList head tail n = (\<lambda>(pl, st).
     (let list = sublists pl ! 0;
          (list, st) = (if sl_head list = NULL then (list \<lparr> sl_tail := tail \<rparr>, st)
                        else (list, upd_packet (sl_head list) (\<lambda>pk. pk \<lparr> pk_previous := tail \<rparr>) st))
      in do { deref tail;
              (let st = upd_packet tail (\<lambda>pk. pk \<lparr> pk_next := sl_head list \<rparr>) st;
                   pl = \<lparr> sublists = (sublists pl)[0 := list \<lparr> sl_head := head \<rparr>], pl_count = uadd (pl_count pl) n \<rparr>
               in do { st \<leftarrow> reindex n head st; Some (pl, st) }) }))"

text \<open>
  \<open>popList\<close>: the sublists are chained in order; the result is whether there was a packet, the
  chain's head and tail and the count.
\<close>

fun gather :: "PacketSublist list \<Rightarrow> bool \<times> addr \<times> addr \<Rightarrow> store \<Rightarrow> ((bool \<times> addr \<times> addr) \<times> store) option" where
  "gather [] acc st = Some (acc, st)"
| "gather (list # rest) (didPop, head, tail) st =
     (if sl_head list \<noteq> NULL then
        do { (head, st) \<leftarrow> (if head = NULL then Some (sl_head list, st)
                            else do { deref tail;
                                      Some (head, upd_packet tail (\<lambda>pk. pk \<lparr> pk_next := sl_head list \<rparr>) st) });
             assert_MM (sl_tail list \<noteq> NULL);
             gather rest (True, head, sl_tail list) st }
      else gather rest (didPop, head, tail) st)"

definition pl_popList :: "PacketList \<times> store \<Rightarrow> ((bool \<times> addr \<times> addr \<times> nat) \<times> PacketList \<times> store) option" where
  "pl_popList = (\<lambda>(pl, st).
     do { ((didPop, head, tail), st) \<leftarrow> gather (sublists pl) (False, NULL, NULL) st;
          Some ((didPop, head, tail, pl_count pl),
                \<lparr> sublists = map (\<lambda>list. if sl_head list \<noteq> NULL then \<lparr> sl_head = NULL, sl_tail = NULL \<rparr> else list) (sublists pl),
                  pl_count = 0 \<rparr>, st) })"

definition pl_remove :: "addr \<Rightarrow> PacketList \<times> store \<Rightarrow> PacketList \<times> store" where
  "pl_remove packetToRemove = (\<lambda>(pl, st).
     (let index = sublistIndex (st packetToRemove); list = sublists pl ! index;
          previous = pk_previous (st packetToRemove); nxt = pk_next (st packetToRemove);
          (list, st) = (if previous = NULL then (list \<lparr> sl_head := nxt \<rparr>, st)
                        else (list, upd_packet previous (\<lambda>pk. pk \<lparr> pk_next := nxt \<rparr>) st));
          (list, st) = (if nxt = NULL then (list \<lparr> sl_tail := previous \<rparr>, st)
                        else (list, upd_packet nxt (\<lambda>pk. pk \<lparr> pk_previous := previous \<rparr>) st))
      in (\<lparr> sublists = (sublists pl)[index := list], pl_count = usub (pl_count pl) 1 \<rparr>, st)))"

definition pl_getHead :: "PacketList \<times> store \<Rightarrow> (addr \<times> PacketList \<times> store) option" where
  "pl_getHead s =
     do { ((didPop, head, tail, n), s) \<leftarrow> pl_popList s;
          (if didPop then do { (pl, st) \<leftarrow> pl_pushList head tail n s; Some (sl_head (sublists pl ! 0), pl, st) }
           else Some (NULL, s)) }"

section \<open>Packet contents\<close>

definition SLOTS_IN_PACKET :: nat where
  "SLOTS_IN_PACKET = 512"

definition pk_wf :: "Packet \<Rightarrow> bool" where
  "pk_wf pk \<longleftrightarrow> basePtr pk = baseAddress pk \<and> basePtr pk \<le> currentPtr pk \<and> currentPtr pk \<le> topPtr pk \<and>
     topPtr pk = basePtr pk + SLOTS_IN_PACKET \<and> topPtr pk < UMAX"

definition pk_elems :: "Packet \<Rightarrow> addr list" where
  "pk_elems pk = map (pk_slots pk) [basePtr pk..<currentPtr pk]"

lemma pk_elems_length: "pk_wf pk \<Longrightarrow> length (pk_elems pk) = SLOTS_IN_PACKET - freeSlots pk \<and> freeSlots pk \<le> SLOTS_IN_PACKET"
  by (auto simp: pk_wf_def pk_elems_def freeSlots_def usub_exact)

lemma packet_push_spec:
  assumes "pk_wf pk"
  shows "packet_push x pk = (if length (pk_elems pk) < SLOTS_IN_PACKET
      then (True, pk \<lparr> pk_slots := (pk_slots pk)(currentPtr pk := x), currentPtr := currentPtr pk + 1 \<rparr>) else (False, pk))"
    "pk_wf (snd (packet_push x pk))"
    "pk_elems (snd (packet_push x pk)) = pk_elems pk @ (if fst (packet_push x pk) then [x] else [])"
  using assms by (auto simp: packet_push_def pk_wf_def pk_elems_def)

lemma packet_push2_spec:
  assumes "pk_wf pk"
  shows "fst (packet_push2 x y pk) \<longleftrightarrow> length (pk_elems pk) + 2 \<le> SLOTS_IN_PACKET"
    "pk_wf (snd (packet_push2 x y pk))"
    "pk_elems (snd (packet_push2 x y pk)) = pk_elems pk @ (if fst (packet_push2 x y pk) then [y, x] else [])"
  using assms by (auto simp: packet_push2_def pk_wf_def pk_elems_def)

lemma packet_pop_spec:
  assumes "pk_wf pk"
  shows "fst (packet_pop pk) = (if pk_elems pk = [] then NULL else last (pk_elems pk))"
    "pk_wf (snd (packet_pop pk))" "pk_elems (snd (packet_pop pk)) = butlast (pk_elems pk)"
proof -
  have "pk_elems pk = [] \<longleftrightarrow> \<not> basePtr pk < currentPtr pk" by (auto simp: pk_elems_def)
  moreover have "pk_elems pk = map (pk_slots pk) [basePtr pk..<currentPtr pk - 1] @ [pk_slots pk (currentPtr pk - 1)]"
    if "basePtr pk < currentPtr pk"
    using that upt_Suc_append [of "basePtr pk" "currentPtr pk - 1"] by (simp add: pk_elems_def)
  ultimately show "fst (packet_pop pk) = (if pk_elems pk = [] then NULL else last (pk_elems pk))"
    "pk_elems (snd (packet_pop pk)) = butlast (pk_elems pk)"
    by (auto simp: packet_pop_def pk_elems_def)
  show "pk_wf (snd (packet_pop pk))" using assms by (auto simp: packet_pop_def pk_wf_def)
qed

end
