(* ===== verification/Packet_List.thy ===== *)
theory Packet_List
  imports Packet
begin

text \<open>
  A packet list is a list of lists of packets: the doubly linked sublists of \<open>Packet\<close> as heap
  structures, the effect of every operation on the abstract lists, and the operation that breaks
  the structure (\<open>popList\<close> leaves stale back pointers).
\<close>

section \<open>Doubly linked lists in the store\<close>

definition hd_or :: "addr list \<Rightarrow> addr \<Rightarrow> addr" where
  "hd_or xs q = (if xs = [] then q else hd xs)"

definition last_or :: "addr list \<Rightarrow> addr \<Rightarrow> addr" where
  "last_or xs q = (if xs = [] then q else last xs)"

lemma hd_or_simps [simp]: "hd_or [] q = q" "hd_or (x # xs) q = x" "hd_or (xs @ ys) q = hd_or xs (hd_or ys q)"
  by (simp_all add: hd_or_def)

lemma last_or_simps [simp]: "last_or [] q = q" "last_or (xs @ [x]) q = x" "last_or (x # xs) q = last_or xs x"
  by (simp_all add: last_or_def)

text \<open>\<open>dls st a xs b\<close>: the packets \<open>xs\<close> in order, the first pointing back to \<open>a\<close>, the last on to \<open>b\<close>.\<close>

fun dls :: "store \<Rightarrow> addr \<Rightarrow> addr list \<Rightarrow> addr \<Rightarrow> bool" where
  "dls st a [] b = True"
| "dls st a (x # xs) b = (x \<noteq> NULL \<and> pk_previous (st x) = a \<and> pk_next (st x) = hd_or xs b \<and> dls st x xs b)"

lemma dls_append: "dls st a (xs @ ys) b \<longleftrightarrow> dls st a xs (hd_or ys b) \<and> dls st (last_or xs a) ys b"
  by (induction xs arbitrary: a) auto

lemma dls_frame:
  "(\<And>x. x \<in> set xs \<Longrightarrow> pk_next (st' x) = pk_next (st x) \<and> pk_previous (st' x) = pk_previous (st x)) \<Longrightarrow>
    dls st' a xs b = dls st a xs b"
  by (induction xs arbitrary: a) auto

lemma dls_not_NULL: "dls st a xs b \<Longrightarrow> NULL \<notin> set xs"
  by (induction xs arbitrary: a) auto

lemma dls_hd: "dls st a xs b \<Longrightarrow> hd_or xs NULL = NULL \<longleftrightarrow> xs = []"
  by (cases xs) auto

lemma dls_last: "dls st a xs b \<Longrightarrow> last_or xs NULL = NULL \<longleftrightarrow> xs = []"
  using dls_not_NULL [of st a xs b] by (cases xs rule: rev_cases) auto

lemma dls_set_previous:
  assumes "dls st a xs b" "x = hd_or xs NULL" "x \<noteq> NULL" "distinct xs"
  shows "dls (upd_packet x (\<lambda>pk. pk \<lparr> pk_previous := c \<rparr>) st) c xs b"
proof (cases xs)
  case (Cons y ys)
  then have "dls (upd_packet x (\<lambda>pk. pk \<lparr> pk_previous := c \<rparr>) st) y ys b = dls st y ys b"
    using assms by (intro dls_frame) (auto simp: upd_packet_def)
  with Cons assms show ?thesis by (simp add: upd_packet_def)
qed simp

lemma dls_set_next:
  assumes "dls st a xs b" "x = last_or xs NULL" "x \<noteq> NULL" "distinct xs"
  shows "dls (upd_packet x (\<lambda>pk. pk \<lparr> pk_next := c \<rparr>) st) a xs c"
proof (cases xs rule: rev_cases)
  case (snoc ys y)
  then have "dls (upd_packet x (\<lambda>pk. pk \<lparr> pk_next := c \<rparr>) st) a ys y = dls st a ys y"
    using assms by (intro dls_frame) (auto simp: upd_packet_def)
  with snoc assms show ?thesis by (auto simp: dls_append upd_packet_def)
qed (use assms in simp)

lemma upd_other [simp]: "x \<noteq> y \<Longrightarrow> upd_packet x f st y = st y" "upd_packet x f st x = f (st x)"
  by (simp_all add: upd_packet_def)

section \<open>The invariant of a packet list\<close>

definition sublist_ok :: "store \<Rightarrow> PacketSublist \<Rightarrow> nat \<Rightarrow> addr list \<Rightarrow> bool" where
  "sublist_ok st sl i xs \<longleftrightarrow> sl_head sl = hd_or xs NULL \<and> sl_tail sl = last_or xs NULL \<and> dls st NULL xs NULL \<and>
     (\<forall>x \<in> set xs. sublistIndex (st x) = i)"

definition pl_inv :: "PacketList \<times> store \<Rightarrow> addr list list \<Rightarrow> bool" where
  "pl_inv = (\<lambda>(pl, st) xss. length xss = length (sublists pl) \<and> xss \<noteq> [] \<and> distinct (concat xss) \<and>
     (\<forall>i < length xss. sublist_ok st (sublists pl ! i) i (xss ! i)) \<and>
     pl_count pl = length (concat xss) \<and> length (concat xss) < UMAX)"

lemma sublist_ok_frame:
  assumes "\<And>x. x \<in> set xs \<Longrightarrow> pk_next (st' x) = pk_next (st x) \<and> pk_previous (st' x) = pk_previous (st x) \<and>
      sublistIndex (st' x) = sublistIndex (st x)"
  shows "sublist_ok st' sl i xs = sublist_ok st sl i xs"
  using assms dls_frame [of xs st' st NULL NULL] by (auto simp: sublist_ok_def)

lemma concat_split: "i < length xss \<Longrightarrow> concat xss = concat (take i xss) @ xss ! i @ concat (drop (Suc i) xss)"
  using id_take_nth_drop [of i xss] by (metis concat.simps(2) concat_append)

lemma concat_update: "i < length xss \<Longrightarrow> concat (xss[i := ys]) = concat (take i xss) @ ys @ concat (drop (Suc i) xss)"
  by (simp add: upd_conv_take_nth_drop)

text \<open>Two positions of a list of lists without repetition share no element.\<close>

lemma distinct_concat_disjoint:
  assumes "distinct (concat xss)" "i < length xss" "j < length xss" "i \<noteq> j"
  shows "set (xss ! i) \<inter> set (xss ! j) = {}"
proof -
  have "xss ! j \<in> set (take i xss) \<or> xss ! j \<in> set (drop (Suc i) xss)"
  proof (cases "j < i")
    case True
    then show ?thesis using assms(3) in_set_conv_nth [of "xss ! j" "take i xss"] by auto
  next
    case False
    then have "drop (Suc i) xss ! (j - Suc i) = xss ! j" "j - Suc i < length (drop (Suc i) xss)" using assms(3,4) by auto
    then show ?thesis using nth_mem by metis
  qed
  then have "set (xss ! j) \<subseteq> set (concat (take i xss)) \<union> set (concat (drop (Suc i) xss))" by auto
  moreover have "set (xss ! i) \<inter> (set (concat (take i xss)) \<union> set (concat (drop (Suc i) xss))) = {}"
    using assms(1) by (subst (asm) concat_split [OF assms(2)]) auto
  ultimately show ?thesis by blast
qed

lemma mset_concat_update:
  "i < length xss \<Longrightarrow> mset (concat (xss[i := ys])) + mset (xss ! i) = mset (concat xss) + mset ys"
  by (subst (2) concat_split, assumption) (simp add: concat_update)

text \<open>
  Replacing one sublist: the store may change at packets of that sublist, old or new, only.
\<close>

lemma pl_inv_update:
  assumes inv: "pl_inv (pl, st) xss" and i: "i < length xss"
    and ok: "sublist_ok st' sl i ys"
    and fr: "\<And>x. x \<notin> set ys \<union> set (xss ! i) \<Longrightarrow> pk_next (st' x) = pk_next (st x) \<and>
      pk_previous (st' x) = pk_previous (st x) \<and> sublistIndex (st' x) = sublistIndex (st x)"
    and d: "distinct (concat (xss[i := ys]))" and c: "c = length (concat (xss[i := ys]))" "c < UMAX"
  shows "pl_inv (\<lparr> sublists = (sublists pl)[i := sl], pl_count = c \<rparr>, st') (xss[i := ys])"
proof -
  have "sublist_ok st' ((sublists pl)[i := sl] ! j) j (xss[i := ys] ! j)" if j: "j < length xss" for j
  proof (cases "j = i")
    case True
    then show ?thesis using ok i inv by (simp add: pl_inv_def)
  next
    case False
    have "set (xss[i := ys] ! i) \<inter> set (xss[i := ys] ! j) = {}"
      using distinct_concat_disjoint [OF d, of i j] i j False by simp
    moreover have "set (xss ! i) \<inter> set (xss ! j) = {}"
      using distinct_concat_disjoint [of xss i j] inv i j False by (simp add: pl_inv_def)
    ultimately have "\<And>x. x \<in> set (xss ! j) \<Longrightarrow> x \<notin> set ys \<union> set (xss ! i)" using i False by auto
    then have "sublist_ok st' (sublists pl ! j) j (xss ! j) = sublist_ok st (sublists pl ! j) j (xss ! j)"
      using fr by (intro sublist_ok_frame) blast
    then show ?thesis using inv j False by (simp add: pl_inv_def)
  qed
  then show ?thesis using inv d c by (simp add: pl_inv_def)
qed

section \<open>Push and pop\<close>

lemma sublistIndex_less:
  assumes "pl_inv (pl, st) xss"
  shows "getSublistIndex env pl < length xss"
proof -
  have "length (sublists pl) = length xss" "0 < length xss" using assms by (auto simp: pl_inv_def)
  then show ?thesis by (simp add: getSublistIndex_def)
qed

lemma pl_push_spec:
  fixes env :: Environment
  assumes inv: "pl_inv (pl, st) xss" and p: "p \<noteq> NULL" "p \<notin> set (concat xss)" "Suc (length (concat xss)) < UMAX"
  defines "i \<equiv> getSublistIndex env pl"
  shows "i < length xss" "pl_inv (pl_push env p (pl, st)) (xss[i := p # xss ! i])"
    "\<And>x. x \<notin> set (concat xss) \<Longrightarrow> x \<noteq> p \<Longrightarrow> snd (pl_push env p (pl, st)) x = st x"
proof -
  show i: "i < length xss" using sublistIndex_less [OF inv] by (simp add: i_def)
  let ?xs = "xss ! i" and ?sl = "sublists pl ! i"
  have ok: "sublist_ok st ?sl i ?xs" and dx: "distinct (concat xss)" using inv i by (auto simp: pl_inv_def)
  have px: "p \<notin> set ?xs" "distinct ?xs" "set ?xs \<subseteq> set (concat xss)"
    using p(2) dx concat_split [OF i] by auto
  define st1 where "st1 = upd_packet p (\<lambda>pk. pk \<lparr> pk_next := sl_head ?sl, pk_previous := NULL, sublistIndex := i \<rparr>) st"
  define st2 where "st2 = (if sl_head ?sl = NULL then st1 else upd_packet (sl_head ?sl) (\<lambda>pk. pk \<lparr> pk_previous := p \<rparr>) st1)"
  define sl where "sl = (if sl_head ?sl = NULL then ?sl \<lparr> sl_tail := p, sl_head := p \<rparr> else ?sl \<lparr> sl_head := p \<rparr>)"
  have run: "pl_push env p (pl, st) = (\<lparr> sublists = (sublists pl)[i := sl], pl_count = uadd (pl_count pl) 1 \<rparr>, st2)"
    by (simp add: pl_push_def i_def [symmetric] st1_def st2_def sl_def Let_def)
  have h: "sl_head ?sl = hd_or ?xs NULL" "dls st NULL ?xs NULL" "sl_tail ?sl = last_or ?xs NULL" using ok by (auto simp: sublist_ok_def)
  have "dls st1 NULL ?xs NULL = dls st NULL ?xs NULL"
    by (rule dls_frame) (use px(1) in \<open>auto simp: st1_def upd_packet_def\<close>)
  with h(2) have d2: "dls st2 p ?xs NULL"
    using dls_set_previous [of st1 NULL ?xs NULL "sl_head ?sl" p] h(1) px(2) dls_hd [OF h(2)] by (auto simp: st2_def)
  have hp: "sl_head ?sl \<noteq> p" using h(1) px(1) p(1) by (cases ?xs) auto
  have "pk_next (st2 p) = hd_or ?xs NULL" "pk_previous (st2 p) = NULL" "\<forall>x \<in> set (p # ?xs). sublistIndex (st2 x) = i"
    using hp h(1) ok by (auto simp: st2_def st1_def upd_packet_def sublist_ok_def)
  with d2 have ok2: "sublist_ok st2 sl i (p # ?xs)"
    using p(1) h(1,3) dls_hd [OF h(2)] by (auto simp: sublist_ok_def sl_def last_or_def)
  have hs: "sl_head ?sl \<noteq> NULL \<Longrightarrow> sl_head ?sl \<in> set ?xs" using h(1) by (cases ?xs) auto
  have len: "length (concat (xss[i := p # ?xs])) = Suc (length (concat xss))"
    using concat_split [OF i] by (simp add: concat_update [OF i])
  have c: "uadd (pl_count pl) 1 = Suc (length (concat xss))" using inv p(3) by (simp add: pl_inv_def uadd_exact)
  have "distinct (concat (xss[i := p # ?xs]))"
    using dx p(2) concat_split [OF i] by (auto simp: concat_update [OF i])
  then show "pl_inv (pl_push env p (pl, st)) (xss[i := p # ?xs])"
    unfolding run c using p(3) hs by (intro pl_inv_update [OF inv i ok2]) (auto simp: len st2_def st1_def upd_packet_def)
  show "\<And>x. x \<notin> set (concat xss) \<Longrightarrow> x \<noteq> p \<Longrightarrow> snd (pl_push env p (pl, st)) x = st x"
    unfolding run using hs px(3) by (auto simp: st2_def st1_def upd_packet_def)
qed

text \<open>Popping one sublist that is not empty.\<close>

lemma pop_sublist:
  fixes n :: nat
  assumes inv: "pl_inv (pl, st) xss" and i: "i < length xss" and xs: "xss ! i = p # ys"
  defines "r \<equiv> pop_loop (Suc n) i (pl, st)"
  shows "fst r = p" "pl_inv (snd r) (xss[i := ys])" "\<forall>x. x \<notin> set ys \<longrightarrow> snd (snd r) x = st x"
proof -
  let ?sl = "sublists pl ! i"
  have ok: "sublist_ok st ?sl i (p # ys)" and dx: "distinct (concat xss)" using inv i xs by (auto simp: pl_inv_def)
  have "xss ! i \<in> set xss" using i by simp
  then have px: "p \<notin> set ys" "distinct ys" using dx xs by (auto simp: distinct_concat_iff)
  have h: "sl_head ?sl = p" "p \<noteq> NULL" "pk_next (st p) = hd_or ys NULL" "dls st p ys NULL"
    "sl_tail ?sl = last_or ys p" "\<forall>x \<in> set ys. sublistIndex (st x) = i" using ok by (auto simp: sublist_ok_def)
  define q where "q = hd_or ys NULL"
  define st1 where "st1 = (if q = NULL then st else upd_packet q (\<lambda>pk. pk \<lparr> pk_previous := NULL \<rparr>) st)"
  define sl where "sl = (if q = NULL then ?sl \<lparr> sl_head := q, sl_tail := NULL \<rparr> else ?sl \<lparr> sl_head := q \<rparr>)"
  have r: "r = (p, \<lparr> sublists = (sublists pl)[i := sl], pl_count = usub (pl_count pl) 1 \<rparr>, st1)"
    using h by (simp add: r_def st1_def sl_def q_def Let_def)
  then show "fst r = p" by simp
  have q: "q = NULL \<longleftrightarrow> ys = []" using dls_hd [OF h(4)] by (simp add: q_def)
  have d1: "dls st1 NULL ys NULL"
    using dls_set_previous [OF h(4), of q NULL] px(2) h(4) q by (auto simp: st1_def q_def)
  have "sl_tail sl = last_or ys NULL" using q h(5) by (auto simp: sl_def last_or_def)
  moreover have "\<forall>x \<in> set ys. sublistIndex (st1 x) = i" using h(6) by (auto simp: st1_def upd_packet_def)
  ultimately have ok1: "sublist_ok st1 sl i ys" using d1 by (simp add: sublist_ok_def sl_def q_def)
  have qs: "q \<noteq> NULL \<Longrightarrow> q \<in> set ys" by (cases ys) (auto simp: q_def)
  have len: "length (concat xss) = Suc (length (concat (xss[i := ys])))"
    using concat_split [OF i] by (simp add: concat_update [OF i] xs)
  have c: "usub (pl_count pl) 1 = length (concat (xss[i := ys]))" "length (concat (xss[i := ys])) < UMAX"
    using inv by (auto simp: pl_inv_def len usub_exact)
  have "distinct (concat (xss[i := ys]))"
    using dx concat_split [OF i] by (auto simp: concat_update [OF i] xs)
  then show "pl_inv (snd r) (xss[i := ys])"
    unfolding r using c qs by (simp, intro pl_inv_update [OF inv i ok1]) (auto simp: st1_def upd_packet_def)
  show "\<forall>x. x \<notin> set ys \<longrightarrow> snd (snd r) x = st x" unfolding r using qs by (auto simp: st1_def upd_packet_def)
qed

text \<open>The sublists tried, in order, are a rotation of all of them.\<close>

lemma pop_loop_spec:
  assumes inv: "pl_inv (pl, st) xss" and i: "i < length xss"
  shows "(\<exists>k < n. \<exists>p ys. xss ! ((i + k) mod length xss) = p # ys \<and>
      (let r = pop_loop n i (pl, st) in fst r = p \<and> pl_inv (snd r) (xss[(i + k) mod length xss := ys]) \<and>
        (\<forall>x. x \<notin> set ys \<longrightarrow> snd (snd r) x = st x))) \<or>
    pop_loop n i (pl, st) = (NULL, pl, st) \<and> (\<forall>k < n. xss ! ((i + k) mod length xss) = [])"
  using i
proof (induction n arbitrary: i)
  case (Suc n)
  have ok: "sl_head (sublists pl ! i) = hd_or (xss ! i) NULL" "dls st NULL (xss ! i) NULL" "length (sublists pl) = length xss"
    using inv Suc.prems by (auto simp: pl_inv_def sublist_ok_def)
  show ?case
  proof (cases "xss ! i")
    case (Cons p ys)
    note r = pop_sublist [OF inv Suc.prems Cons, of n]
    have m: "(i + 0) mod length xss = i" using Suc.prems by simp
    show ?thesis
      by (rule disjI1, rule exI [of _ 0], unfold m Let_def) (use Cons r in \<open>auto simp del: pop_loop.simps\<close>)
  next
    case Nil
    let ?j = "(i + 1) mod length xss"
    have j: "?j < length xss" using Suc.prems by (intro mod_less_divisor) auto
    have st: "pop_loop (Suc n) i (pl, st) = pop_loop n ?j (pl, st)" using Nil ok by simp
    have m: "(?j + k) mod length xss = (i + Suc k) mod length xss" for k
      by (metis Suc_eq_plus1_left add.assoc mod_add_left_eq)
    show ?thesis
    proof (cases "pop_loop n ?j (pl, st) = (NULL, pl, st) \<and> (\<forall>k < n. xss ! ((i + Suc k) mod length xss) = [])")
      case True
      have "xss ! ((i + k) mod length xss) = []" if "k < Suc n" for k
        using that True Nil Suc.prems by (cases k) auto
      with True st show ?thesis by simp
    next
      case False
      with Suc.IH [OF j] m obtain k where "k < n" "\<exists>p ys. xss ! ((i + Suc k) mod length xss) = p # ys \<and>
        (let r = pop_loop n ?j (pl, st) in fst r = p \<and> pl_inv (snd r) (xss[(i + Suc k) mod length xss := ys]) \<and>
          (\<forall>x. x \<notin> set ys \<longrightarrow> snd (snd r) x = st x))" by auto
      then show ?thesis unfolding st by (intro disjI1 exI [of _ "Suc k"]) auto
    qed
  qed
qed simp

lemma rotation_covers:
  assumes "\<forall>k < length xss. xss ! ((i + k) mod length xss) = []" "i < length xss"
  shows "concat xss = []"
proof -
  let ?n = "length xss"
  have "xss ! j = []" if "j < ?n" for j
  proof -
    let ?k = "(j + (?n - i)) mod ?n"
    have n: "0 < ?n" using that by (rule le_less_trans [OF le0])
    have "(i + ?k) mod ?n = (i + (j + (?n - i))) mod ?n" by (simp add: mod_add_right_eq)
    also have "i + (j + (?n - i)) = j + ?n" using assms(2) by simp
    finally have "(i + ?k) mod ?n = j" using that by simp
    moreover have "?k < ?n" using n by simp
    ultimately show ?thesis using assms(1) by metis
  qed
  then show ?thesis by (auto simp: in_set_conv_nth)
qed

lemma pl_pop_cases:
  assumes inv: "pl_inv (pl, st) xss"
  obtains (packet) i p ys pl' st' where "pl_pop env (pl, st) = (p, pl', st')" "i < length xss" "xss ! i = p # ys" "p \<noteq> NULL"
      "pl_inv (pl', st') (xss[i := ys])" "\<And>x. x \<notin> set ys \<Longrightarrow> st' x = st x"
    | (none) "pl_pop env (pl, st) = (NULL, pl, st)" "concat xss = []"
proof -
  let ?i = "getSublistIndex env pl" and ?n = "length xss"
  have i: "?i < ?n" using sublistIndex_less [OF inv] .
  have n: "length (sublists pl) = ?n" using inv by (simp add: pl_inv_def)
  obtain p pl' st' where r: "pop_loop ?n ?i (pl, st) = (p, pl', st')" by (metis prod_cases3)
  then have pop: "pl_pop env (pl, st) = (p, pl', st')" by (simp add: pl_pop_def n)
  from pop_loop_spec [OF inv i, of ?n]
  consider k ys where "xss ! ((?i + k) mod ?n) = p # ys" "pl_inv (pl', st') (xss[(?i + k) mod ?n := ys])"
      "\<forall>x. x \<notin> set ys \<longrightarrow> st' x = st x"
    | "(p, pl', st') = (NULL, pl, st)" "\<forall>k < ?n. xss ! ((?i + k) mod ?n) = []"
    unfolding r by auto
  then show ?thesis
  proof cases
    case (1 k ys)
    have j: "(?i + k) mod ?n < ?n" using i by (intro mod_less_divisor) auto
    have "NULL \<notin> set (xss ! ((?i + k) mod ?n))"
      using inv j dls_not_NULL by (auto simp: pl_inv_def sublist_ok_def)
    then show ?thesis using packet [OF pop j 1(1) _ 1(2)] 1 by simp
  next
    case 2
    then show ?thesis using none pop rotation_covers [OF 2(2) i] by simp
  qed
qed

section \<open>Removing a packet\<close>

lemma pl_remove_spec:
  assumes inv: "pl_inv (pl, st) xss" and i: "i < length xss" and xs: "xss ! i = ys @ p # zs"
  shows "pl_inv (pl_remove p (pl, st)) (xss[i := ys @ zs])"
proof -
  let ?sl = "sublists pl ! i"
  have ok: "sublist_ok st ?sl i (ys @ p # zs)" and dx: "distinct (concat xss)" using inv i xs by (auto simp: pl_inv_def)
  have px: "distinct (ys @ p # zs)" using dx concat_split [OF i] xs by auto
  have d: "dls st NULL ys p" "p \<noteq> NULL" "pk_previous (st p) = last_or ys NULL" "pk_next (st p) = hd_or zs NULL" "dls st p zs NULL"
    and si: "\<forall>x \<in> set (ys @ p # zs). sublistIndex (st x) = i" "sl_head ?sl = hd_or ys p" "sl_tail ?sl = last_or zs p"
    using ok by (auto simp: sublist_ok_def dls_append last_or_def)
  let ?a = "last_or ys NULL" and ?b = "hd_or zs NULL"
  define st1 where "st1 = (if ?a = NULL then st else upd_packet ?a (\<lambda>pk. pk \<lparr> pk_next := ?b \<rparr>) st)"
  define st2 where "st2 = (if ?b = NULL then st1 else upd_packet ?b (\<lambda>pk. pk \<lparr> pk_previous := ?a \<rparr>) st1)"
  define l1 where "l1 = (if ?a = NULL then ?sl \<lparr> sl_head := ?b \<rparr> else ?sl)"
  define l2 where "l2 = (if ?b = NULL then l1 \<lparr> sl_tail := ?a \<rparr> else l1)"
  have run: "pl_remove p (pl, st) = (\<lparr> sublists = (sublists pl)[i := l2], pl_count = usub (pl_count pl) 1 \<rparr>, st2)"
    using d si(1) by (simp add: pl_remove_def st1_def st2_def l1_def l2_def Let_def)
  have a: "?a = NULL \<longleftrightarrow> ys = []" "?a \<noteq> NULL \<Longrightarrow> ?a \<in> set ys" using dls_last [OF d(1)] by (auto simp: last_or_def)
  have b: "?b = NULL \<longleftrightarrow> zs = []" "?b \<noteq> NULL \<Longrightarrow> ?b \<in> set zs" using dls_hd [OF d(5)] by (auto simp: hd_or_def)
  have "dls st1 NULL ys ?b" using dls_set_next [OF d(1), of ?a ?b] px a d(1) by (auto simp: st1_def)
  moreover have "dls st2 NULL ys ?b = dls st1 NULL ys ?b"
    by (rule dls_frame) (use b(2) px in \<open>auto simp: st2_def upd_packet_def\<close>)
  moreover have "dls st1 p zs NULL = dls st p zs NULL"
    by (rule dls_frame) (use a(2) px in \<open>auto simp: st1_def upd_packet_def\<close>)
  then have "dls st2 ?a zs NULL" using dls_set_previous [of st1 p zs NULL ?b ?a] d(5) px b by (auto simp: st2_def)
  ultimately have "dls st2 NULL (ys @ zs) NULL" by (simp add: dls_append)
  moreover have "sl_head l2 = hd_or (ys @ zs) NULL" "sl_tail l2 = last_or (ys @ zs) NULL"
    using a b si by (auto simp: l2_def l1_def hd_or_def last_or_def)
  moreover have "\<forall>x \<in> set (ys @ zs). sublistIndex (st2 x) = i" using si(1) by (auto simp: st2_def st1_def upd_packet_def)
  ultimately have ok2: "sublist_ok st2 l2 i (ys @ zs)" by (simp add: sublist_ok_def)
  have len: "length (concat xss) = Suc (length (concat (xss[i := ys @ zs])))"
    using concat_split [OF i] by (simp add: concat_update [OF i] xs)
  have c: "usub (pl_count pl) 1 = length (concat (xss[i := ys @ zs]))" "length (concat (xss[i := ys @ zs])) < UMAX"
    using inv by (auto simp: pl_inv_def len usub_exact)
  have "distinct (concat (xss[i := ys @ zs]))"
    using dx concat_split [OF i] by (auto simp: concat_update [OF i] xs)
  then show ?thesis
    unfolding run using c a(2) b(2) xs by (intro pl_inv_update [OF inv i ok2]) (auto simp: st1_def st2_def upd_packet_def)
qed

section \<open>Taking all packets\<close>

text \<open>A chain of packets by their forward pointers only.\<close>

fun nls :: "store \<Rightarrow> addr list \<Rightarrow> addr \<Rightarrow> bool" where
  "nls st [] b = True"
| "nls st (x # xs) b = (x \<noteq> NULL \<and> pk_next (st x) = hd_or xs b \<and> nls st xs b)"

lemma nls_append: "nls st (xs @ ys) b \<longleftrightarrow> nls st xs (hd_or ys b) \<and> nls st ys b"
  by (induction xs) auto

lemma dls_nls: "dls st a xs b \<Longrightarrow> nls st xs b"
  by (induction xs arbitrary: a) auto

lemma nls_frame: "(\<And>x. x \<in> set xs \<Longrightarrow> pk_next (st' x) = pk_next (st x)) \<Longrightarrow> nls st' xs b = nls st xs b"
  by (induction xs) auto

lemma nls_set_next:
  assumes "nls st xs b" "xs \<noteq> []" "distinct xs"
  shows "nls (upd_packet (last xs) (\<lambda>pk. pk \<lparr> pk_next := c \<rparr>) st) xs c"
proof (cases xs rule: rev_cases)
  case (snoc ys y)
  then have "nls (upd_packet y (\<lambda>pk. pk \<lparr> pk_next := c \<rparr>) st) ys y = nls st ys y"
    using assms by (intro nls_frame) (auto simp: upd_packet_def)
  with snoc assms show ?thesis by (auto simp: nls_append)
qed (use assms in simp)

lemma ends_NULL: "NULL \<notin> set xs \<Longrightarrow> hd_or xs NULL = NULL \<longleftrightarrow> xs = []" "NULL \<notin> set xs \<Longrightarrow> last_or xs NULL = NULL \<longleftrightarrow> xs = []"
  by (cases xs; simp) (cases xs rule: rev_cases; simp)

lemma gather_spec:
  assumes "list_all2 (\<lambda>sl xs. sl_head sl = hd_or xs NULL \<and> sl_tail sl = last_or xs NULL \<and> nls st xs NULL) sls xss"
    and "nls st ys NULL" "distinct (ys @ concat xss)"
  shows "\<exists>st'. gather sls (ys \<noteq> [], hd_or ys NULL, last_or ys NULL) st =
      Some ((ys @ concat xss \<noteq> [], hd_or (ys @ concat xss) NULL, last_or (ys @ concat xss) NULL), st') \<and>
    nls st' (ys @ concat xss) NULL"
  using assms
proof (induction sls arbitrary: xss ys st)
  case (Cons sl sls)
  then obtain xs xss' where x: "xss = xs # xss'" "sl_head sl = hd_or xs NULL" "sl_tail sl = last_or xs NULL" "nls st xs NULL"
    "list_all2 (\<lambda>sl xs. sl_head sl = hd_or xs NULL \<and> sl_tail sl = last_or xs NULL \<and> nls st xs NULL) sls xss'"
    by (auto simp: list_all2_Cons1)
  have nn: "NULL \<notin> set zs" if "nls st zs b" for zs b using that by (induction zs) auto
  have hx: "hd_or xs NULL = NULL \<longleftrightarrow> xs = []" "last_or xs NULL = NULL \<longleftrightarrow> xs = []" "hd_or ys NULL = NULL \<longleftrightarrow> ys = []"
    "last_or ys NULL = NULL \<longleftrightarrow> ys = []"
    using ends_NULL [OF nn [OF x(4)]] ends_NULL [OF nn [OF Cons.prems(2)]] by auto
  show ?case
  proof (cases "xs = []")
    case True
    with Cons.IH [OF x(5) Cons.prems(2)] Cons.prems(3) x show ?thesis by simp
  next
    case ne: False
    define st1 where "st1 = (if ys = [] then st else upd_packet (last ys) (\<lambda>pk. pk \<lparr> pk_next := hd xs \<rparr>) st)"
    have ls: "ys \<noteq> [] \<Longrightarrow> last ys \<in> set ys" by simp
    have fr: "nls st1 zs b = nls st zs b" if "set ys \<inter> set zs = {}" for zs b
      by (rule nls_frame) (use that ls in \<open>auto simp: st1_def upd_packet_def disjoint_iff\<close>)
    have "nls st1 ys (hd xs)" using nls_set_next [OF Cons.prems(2), of "hd xs"] Cons.prems(3) by (auto simp: st1_def)
    moreover have "nls st1 xs NULL" using fr [of xs] x Cons.prems(3) by auto
    ultimately have n1: "nls st1 (ys @ xs) NULL" using ne by (simp add: nls_append hd_or_def)
    have "list_all2 (\<lambda>sl xs. sl_head sl = hd_or xs NULL \<and> sl_tail sl = last_or xs NULL \<and> nls st1 xs NULL) sls xss'"
    proof (rule list.rel_mono_strong [OF x(5)])
      fix sl' zs
      assume "zs \<in> set xss'" and z: "sl_head sl' = hd_or zs NULL \<and> sl_tail sl' = last_or zs NULL \<and> nls st zs NULL"
      then have "set ys \<inter> set zs = {}" using Cons.prems(3) x(1) by auto
      from fr [OF this] z show "sl_head sl' = hd_or zs NULL \<and> sl_tail sl' = last_or zs NULL \<and> nls st1 zs NULL" by simp
    qed
    from Cons.IH [OF this n1] Cons.prems(3) x(1)
    obtain st' where "gather sls (ys @ xs \<noteq> [], hd_or (ys @ xs) NULL, last_or (ys @ xs) NULL) st1 =
        Some ((ys @ concat xss \<noteq> [], hd_or (ys @ concat xss) NULL, last_or (ys @ concat xss) NULL), st')"
      "nls st' (ys @ concat xss) NULL" by auto
    moreover have "gather (sl # sls) (ys \<noteq> [], hd_or ys NULL, last_or ys NULL) st =
        gather sls (ys @ xs \<noteq> [], hd_or (ys @ xs) NULL, last_or (ys @ xs) NULL) st1"
      using ne hx x(2,3) by (auto simp: st1_def hd_or_def last_or_def)
    ultimately show ?thesis by auto
  qed
qed (auto simp: nls_append)

lemma pl_popList_spec:
  assumes inv: "pl_inv (pl, st) xss"
  shows "\<exists>pl' st'. pl_popList (pl, st) =
      Some ((concat xss \<noteq> [], hd_or (concat xss) NULL, last_or (concat xss) NULL, length (concat xss)), pl', st') \<and>
    nls st' (concat xss) NULL \<and> pl_inv (pl', st') (replicate (length xss) [])"
proof -
  have n: "length (sublists pl) = length xss" "\<forall>i < length xss. sublist_ok st (sublists pl ! i) i (xss ! i)"
    "distinct (concat xss)" "pl_count pl = length (concat xss)" "xss \<noteq> []" using inv by (auto simp: pl_inv_def)
  have "list_all2 (\<lambda>sl xs. sl_head sl = hd_or xs NULL \<and> sl_tail sl = last_or xs NULL \<and> nls st xs NULL) (sublists pl) xss"
    using n(1,2) dls_nls by (auto simp: list_all2_conv_all_nth sublist_ok_def)
  from gather_spec [OF this, of "[]"] n(3) obtain st' where
    g: "gather (sublists pl) (False, NULL, NULL) st =
      Some ((concat xss \<noteq> [], hd_or (concat xss) NULL, last_or (concat xss) NULL), st')" "nls st' (concat xss) NULL" by auto
  let ?f = "\<lambda>list. if sl_head list \<noteq> NULL then \<lparr> sl_head = NULL, sl_tail = NULL \<rparr> else list"
  have e: "?f (sublists pl ! i) = \<lparr> sl_head = NULL, sl_tail = NULL \<rparr>" if "i < length xss" for i
  proof -
    have ok: "sublist_ok st (sublists pl ! i) i (xss ! i)" using n(2) that by simp
    then have "sl_head (sublists pl ! i) = NULL \<Longrightarrow> sl_tail (sublists pl ! i) = NULL"
      using dls_hd [of st NULL "xss ! i" NULL] by (auto simp: sublist_ok_def)
    then show ?thesis by (cases "sublists pl ! i") auto
  qed
  have "pl_inv (\<lparr> sublists = map ?f (sublists pl), pl_count = 0 \<rparr>, st') (replicate (length xss) [])"
    using n(1,5) e by (auto simp: pl_inv_def sublist_ok_def)
  with g n(4) show ?thesis by (simp add: pl_popList_def)
qed

section \<open>Properties\<close>

text \<open>Two sublists with one packet each: the state of the examples.\<close>

definition packet_example :: "nat \<Rightarrow> nat \<Rightarrow> Packet" where
  "packet_example base i = \<lparr> baseAddress = base, basePtr = base, topPtr = base + 512, currentPtr = base,
     pk_slots = (\<lambda>_. 0), sublistIndex = i, pk_owner = 0, pk_next = 0, pk_previous = 0 \<rparr>"

definition store_example :: store where
  "store_example = (\<lambda>_. packet_example 0 0)(8 := packet_example 1000 0, 16 := packet_example 2000 1)"

definition list_example :: PacketList where
  "list_example = \<lparr> sublists = [\<lparr> sl_head = 8, sl_tail = 8 \<rparr>, \<lparr> sl_head = 16, sl_tail = 16 \<rparr>], pl_count = 2 \<rparr>"

definition env_example :: Environment where
  "env_example = \<lparr> env_address = 4096, environmentId = 0 \<rparr>"

lemma list_example_inv: "pl_inv (list_example, store_example) [[8], [16]]"
  by (auto simp: pl_inv_def sublist_ok_def list_example_def store_example_def packet_example_def nth_Cons UMAX_def split: nat.splits)



text \<open>
  C18: \<open>popList\<close> hands over all packets of all sublists as one chain by their forward pointers, with
  the right head, tail and count, and leaves every sublist empty.
\<close>

theorem popList_takes_all:
  assumes "pl_inv (pl, st) xss"
  shows "\<exists>pl' st'. pl_popList (pl, st) =
      Some ((concat xss \<noteq> [], hd_or (concat xss) NULL, last_or (concat xss) NULL, length (concat xss)), pl', st') \<and>
    nls st' (concat xss) NULL \<and> pl_inv (pl', st') (replicate (length xss) [])"
  using pl_popList_spec [OF assms] .

theorem popList_takes_all_witness:
  "\<exists>pl' st'. pl_popList (list_example, store_example) = Some ((True, 8, 16, 2), pl', st') \<and> nls st' [8, 16] NULL"
  using popList_takes_all [OF list_example_inv] by (auto simp: last_or_def)


end
