(* ===== verification/Overflow.thy ===== *)
theory Overflow
  imports Heap_Map Packet
begin

text \<open>
  Work packet overflow: the interface \<open>MM_WorkPacketOverflow\<close> (gc/base/WorkPacketOverflow.hpp,
  WorkPacketOverflow.cpp) and the handler of the standard collector, \<open>MM_OverflowStandard\<close>
  (gc/base/standard/OverflowStandard.cpp).

  The virtual functions of a handler are a record of functions over the handler's state; those
  that change a packet return it.  \<open>None\<close> is an assertion that fails.  The standard handler keeps
  an overflowed object by marking the slot after its first one (a double mark), and hands the
  object to the language's marking delegate, whose calls are recorded in order.
\<close>

datatype OverflowType = OVERFLOW_TYPE_WORKSTACK | OVERFLOW_TYPE_BARRIER

record 'o OverflowHandler =
  oh_isEmpty :: "'o \<Rightarrow> bool"
  oh_emptyToOverflow :: "nat \<Rightarrow> OverflowType \<Rightarrow> Packet \<Rightarrow> 'o \<Rightarrow> (Packet \<times> 'o) option"
  oh_fillFromOverflow :: "Packet \<Rightarrow> 'o \<Rightarrow> (Packet \<times> 'o) option"
  oh_overflowItem :: "nat \<Rightarrow> OverflowType \<Rightarrow> addr \<Rightarrow> 'o \<Rightarrow> 'o option"
  oh_reset :: "'o \<Rightarrow> 'o"
  oh_getFlag :: "'o \<Rightarrow> bool"
  oh_clearFlag :: "'o \<Rightarrow> 'o"

section \<open>The base class\<close>

record WorkPacketOverflow =
  wo_overflow :: bool

definition baseOverflow :: "WorkPacketOverflow OverflowHandler" where
  "baseOverflow = \<lparr> oh_isEmpty = (\<lambda>_. True), oh_emptyToOverflow = (\<lambda>_ _ _ _. None), oh_fillFromOverflow = (\<lambda>_ _. None),
     oh_overflowItem = (\<lambda>_ _ _ _. None), oh_reset = (\<lambda>wo. wo), oh_getFlag = wo_overflow,
     oh_clearFlag = (\<lambda>wo. wo \<lparr> wo_overflow := False \<rparr>) \<rparr>"

section \<open>The standard collector's handler\<close>

definition PACKET_ARRAY_SPLIT_TAG :: nat where
  "PACKET_ARRAY_SPLIT_TAG = 1"

record OverflowStandard =
  os_overflow :: bool
  os_markMap :: HeapMap
  STWWorkStackOverflowOccured :: bool
  STWWorkStackOverflowCount :: nat
  STWWorkpacketCountAtOverflow :: nat
  os_delegated :: "addr list"

definition note_overflow :: "nat \<Rightarrow> OverflowStandard \<Rightarrow> OverflowStandard" where
  "note_overflow activePackets os =
     os \<lparr> os_overflow := True, STWWorkStackOverflowOccured := True,
          STWWorkStackOverflowCount := uadd (STWWorkStackOverflowCount os) 1, STWWorkpacketCountAtOverflow := activePackets \<rparr>"

definition heap_item :: "addr \<Rightarrow> OverflowStandard \<Rightarrow> bool" where
  "heap_item item os \<longleftrightarrow> PACKET_ARRAY_SPLIT_TAG \<noteq> item AND PACKET_ARRAY_SPLIT_TAG \<and>
     heapBase (os_markMap os) \<le> item \<and> item < heapTop (os_markMap os)"

definition overflowItemInternal :: "addr \<Rightarrow> OverflowStandard \<Rightarrow> OverflowStandard option" where
  "overflowItemInternal item os =
     (if heap_item item os then
        do { assert_MM (isBitSet (os_markMap os) item);
             assert_MM (\<not> isBitSet (os_markMap os) (uadd item getObjectGrain));
             Some (os \<lparr> os_markMap := snd (setBit_hm (uadd item getObjectGrain) (os_markMap os)),
                        os_delegated := os_delegated os @ [item] \<rparr>) }
      else Some os)"

text \<open>The loop of \<open>emptyToOverflow\<close> runs until \<open>pop\<close> returns \<open>NULL\<close>; it ends because every round pops a slot.\<close>

function empty_loop :: "Packet \<Rightarrow> OverflowStandard \<Rightarrow> (Packet \<times> OverflowStandard) option" where
  "empty_loop pk os =
     (case packet_pop pk of (objectPtr, pk') \<Rightarrow>
        if objectPtr = NULL then Some (pk', os)
        else do { os \<leftarrow> overflowItemInternal objectPtr os; empty_loop pk' os })"
  by pat_completeness auto
termination
  by (relation "measure (\<lambda>(pk, os). currentPtr pk)") (auto simp: packet_pop_def split: if_splits)

declare empty_loop.simps [simp del]

definition os_emptyToOverflow :: "nat \<Rightarrow> OverflowType \<Rightarrow> Packet \<Rightarrow> OverflowStandard \<Rightarrow> (Packet \<times> OverflowStandard) option" where
  "os_emptyToOverflow activePackets type pk os =
     do { (pk, os) \<leftarrow> empty_loop pk (note_overflow activePackets os);
          assert_MM (packet_isEmpty pk);
          Some (pk, os) }"

definition os_overflowItem :: "nat \<Rightarrow> OverflowType \<Rightarrow> addr \<Rightarrow> OverflowStandard \<Rightarrow> OverflowStandard option" where
  "os_overflowItem activePackets type item os = overflowItemInternal item (note_overflow activePackets os)"

definition standardOverflow :: "OverflowStandard OverflowHandler" where
  "standardOverflow = \<lparr> oh_isEmpty = (\<lambda>_. True), oh_emptyToOverflow = os_emptyToOverflow, oh_fillFromOverflow = (\<lambda>_ _. None),
     oh_overflowItem = os_overflowItem, oh_reset = (\<lambda>os. os), oh_getFlag = os_overflow,
     oh_clearFlag = (\<lambda>os. os \<lparr> os_overflow := False \<rparr>) \<rparr>"

text \<open>
  \<open>handleOverflow\<close> on the thread that is released: every object of the heap that is marked twice
  loses the second mark and is scanned.  \<open>objects\<close> is what the object iterators of the regions
  return.  \<open>scanObject\<close> is the marking scheme's, a function on the handler's state (it marks and may
  overflow again) and on the rest \<open>'w\<close> of the collector's state.
\<close>

fun rescan :: "(addr \<Rightarrow> OverflowStandard \<times> 'w \<Rightarrow> OverflowStandard \<times> 'w) \<Rightarrow> addr list \<Rightarrow> OverflowStandard \<times> 'w \<Rightarrow> OverflowStandard \<times> 'w"
where
  "rescan scanObject [] s = s"
| "rescan scanObject (obj # objects) (os, w) =
     (if isBitSet (os_markMap os) obj \<and> isBitSet (os_markMap os) (uadd obj getObjectGrain) then
        rescan scanObject objects
          (scanObject obj (os \<lparr> os_markMap := snd (clearBit (uadd obj getObjectGrain) (os_markMap os)) \<rparr>, w))
      else rescan scanObject objects (os, w))"

definition handleOverflow ::
    "(addr \<Rightarrow> OverflowStandard \<times> 'w \<Rightarrow> OverflowStandard \<times> 'w) \<Rightarrow> addr list \<Rightarrow> OverflowStandard \<times> 'w \<Rightarrow> OverflowStandard \<times> 'w" where
  "handleOverflow scanObject objects = (\<lambda>(os, w). rescan scanObject objects (os \<lparr> os_overflow := False \<rparr>, w))"

section \<open>The contract of a handler\<close>

text \<open>
  What the work packets rely on, for handlers that keep overflowed work outside the packets
  (\<open>isEmpty\<close> is always true): emptying a packet and overflowing an item succeed on work that the
  handler accepts (\<open>accepts\<close>), and the handler then stores exactly the items it is responsible for
  (\<open>keeps\<close>).
\<close>

locale overflow_handler =
  fixes h :: "'o OverflowHandler" and accepts :: "'o \<Rightarrow> addr multiset \<Rightarrow> bool" and keeps :: "'o \<Rightarrow> addr \<Rightarrow> bool"
    and stored :: "'o \<Rightarrow> addr multiset"
  assumes always_empty: "oh_isEmpty h ov"
    and empty_packet: "pk_wf pk \<Longrightarrow> NULL \<notin> set (pk_elems pk) \<Longrightarrow> accepts ov (mset (pk_elems pk) + W) \<Longrightarrow>
      \<exists>ov'. oh_emptyToOverflow h n ty pk ov = Some (pk \<lparr> currentPtr := basePtr pk \<rparr>, ov') \<and> accepts ov' W \<and>
        stored ov' = stored ov + filter_mset (keeps ov) (mset (pk_elems pk)) \<and> keeps ov' = keeps ov \<and> oh_getFlag h ov'"
    and one_item: "accepts ov (add_mset x W) \<Longrightarrow> \<exists>ov'. oh_overflowItem h n ty x ov = Some ov' \<and> accepts ov' W \<and>
        stored ov' = stored ov + filter_mset (keeps ov) {#x#} \<and> keeps ov' = keeps ov \<and> oh_getFlag h ov'"
    and clear_flag: "accepts (oh_clearFlag h ov) W = accepts ov W" "stored (oh_clearFlag h ov) = stored ov"
      "keeps (oh_clearFlag h ov) = keeps ov"
    and accepts_less: "accepts ov (U + W) \<Longrightarrow> accepts ov W"

text \<open>The work the standard handler accepts: its heap objects are marked once and occur once.\<close>

definition os_accepts :: "OverflowStandard \<Rightarrow> addr multiset \<Rightarrow> bool" where
  "os_accepts os W \<longleftrightarrow> (\<forall>x \<in># W. heap_item x os \<longrightarrow> slot_addr (os_markMap os) x \<and> x + 8 < UMAX \<and>
     isBitSet (os_markMap os) x \<and> \<not> isBitSet (os_markMap os) (x + 8) \<and> count W x \<le> 1)"

lemma getObjectGrain_8: "getObjectGrain = 8"
  by (simp add: getObjectGrain_def heapMapBitShift_def)

lemma setBit_hm_frame [simp]:
  "heapBase (snd (setBit_hm a hm)) = heapBase hm" "heapTop (snd (setBit_hm a hm)) = heapTop hm"
  by (simp_all add: setBit_hm_def split: prod.split)

lemma slot_addr_setBit [simp]: "slot_addr (snd (setBit_hm a hm)) b = slot_addr hm b"
  by (rule hm.ins_valid)

lemma slot_addr_next: "slot_addr hm x \<Longrightarrow> x + 8 < UMAX \<Longrightarrow> slot_addr hm (x + 8)"
  using slot_addr_step(1) [of hm x 1] by simp

lemma os_accepts_less: "os_accepts os (A + B) \<Longrightarrow> os_accepts os B"
  by (fastforce simp: os_accepts_def)

lemma overflowItemInternal_spec:
  assumes "os_accepts os (add_mset x W)"
  shows "\<exists>os'. overflowItemInternal x os = Some os' \<and> os_accepts os' W \<and>
    mset (os_delegated os') = mset (os_delegated os) + filter_mset (\<lambda>y. heap_item y os) {#x#} \<and>
    (\<forall>y. heap_item y os' = heap_item y os) \<and> os_overflow os' = os_overflow os"
proof (cases "heap_item x os")
  case False
  then show ?thesis using os_accepts_less [of os "{#x#}" W] assms by (simp add: overflowItemInternal_def)
next
  case True
  let ?hm = "os_markMap os"
  have x: "slot_addr ?hm x" "x + 8 < UMAX" "isBitSet ?hm x" "\<not> isBitSet ?hm (x + 8)" "x \<notin># W"
    using assms True by (auto simp: os_accepts_def not_in_iff)
  have u: "uadd x getObjectGrain = x + 8" using x(2) by (simp add: getObjectGrain_8 uadd_exact)
  let ?os = "os \<lparr> os_markMap := snd (setBit_hm (x + 8) ?hm), os_delegated := os_delegated os @ [x] \<rparr>"
  have run: "overflowItemInternal x os = Some ?os" using True x by (simp add: overflowItemInternal_def u)
  have h: "heap_item y ?os = heap_item y os" for y by (simp add: heap_item_def)
  note sx = slot_addr_next [OF x(1,2)]
  have "os_accepts ?os W" unfolding os_accepts_def h
  proof (intro ballI impI)
    fix y assume y: "y \<in># W" "heap_item y os"
    then have y': "slot_addr ?hm y" "y + 8 < UMAX" "isBitSet ?hm y" "\<not> isBitSet ?hm (y + 8)" "count W y \<le> 1" "y \<noteq> x"
      using os_accepts_less [of os "{#x#}" W] assms x(5) by (auto simp: os_accepts_def)
    then show "slot_addr (os_markMap ?os) y \<and> y + 8 < UMAX \<and> isBitSet (os_markMap ?os) y \<and>
        \<not> isBitSet (os_markMap ?os) (y + 8) \<and> count W y \<le> 1"
      using setBit_result(2) [OF sx y'(1)] setBit_result(2) [OF sx slot_addr_next [OF y'(1,2)]] by simp
  qed
  with run h True show ?thesis by simp
qed

lemma note_overflow_frame:
  "os_accepts (note_overflow n os) W = os_accepts os W" "os_delegated (note_overflow n os) = os_delegated os"
  "heap_item x (note_overflow n os) = heap_item x os" "os_overflow (note_overflow n os)"
  by (simp_all add: note_overflow_def os_accepts_def heap_item_def)

lemma empty_loop_spec:
  assumes "pk_wf pk" "NULL \<notin> set (pk_elems pk)" "os_accepts os (mset (pk_elems pk) + W)"
  shows "\<exists>os'. empty_loop pk os = Some (pk \<lparr> currentPtr := basePtr pk \<rparr>, os') \<and> os_accepts os' W \<and>
    mset (os_delegated os') = mset (os_delegated os) + filter_mset (\<lambda>y. heap_item y os) (mset (pk_elems pk)) \<and>
    (\<forall>y. heap_item y os' = heap_item y os) \<and> os_overflow os' = os_overflow os"
  using assms
proof (induction pk os rule: empty_loop.induct)
  case (1 pk os)
  note pop = packet_pop_spec [OF "1.prems"(1)]
  show ?case
  proof (cases "pk_elems pk = []")
    case True
    then have "currentPtr pk = basePtr pk" using "1.prems"(1) by (auto simp: pk_elems_def pk_wf_def)
    then have "empty_loop pk os = Some (pk \<lparr> currentPtr := basePtr pk \<rparr>, os)"
      by (subst empty_loop.simps) (cases pk, simp add: packet_pop_def)
    then show ?thesis using True "1.prems"(3) by simp
  next
    case False
    let ?x = "last (pk_elems pk)"
    obtain pk1 where p: "packet_pop pk = (?x, pk1)" using pop(1) False by (metis prod.collapse)
    note pop = pop [unfolded p snd_conv]
    have e: "pk_elems pk = butlast (pk_elems pk) @ [?x]" using False by simp
    have x: "?x \<noteq> NULL" using False "1.prems"(2) last_in_set by metis
    have "mset (pk_elems pk) + W = add_mset ?x (mset (butlast (pk_elems pk)) + W)" by (subst e) simp
    with "1.prems"(3) obtain os1 where o1: "overflowItemInternal ?x os = Some os1" "os_accepts os1 (mset (pk_elems pk1) + W)"
      "mset (os_delegated os1) = mset (os_delegated os) + filter_mset (\<lambda>y. heap_item y os) {#?x#}"
      "\<And>y. heap_item y os1 = heap_item y os" "os_overflow os1 = os_overflow os"
      using overflowItemInternal_spec [of os ?x "mset (butlast (pk_elems pk)) + W"] unfolding pop(3) by auto
    have n: "NULL \<notin> set (pk_elems pk1)" using "1.prems"(2) pop(3) by (auto dest: in_set_butlastD)
    from "1.IH" [OF p [symmetric] x o1(1) pop(2) n o1(2)] obtain os2 where o2:
      "empty_loop pk1 os1 = Some (pk1 \<lparr> currentPtr := basePtr pk1 \<rparr>, os2)" "os_accepts os2 W"
      "mset (os_delegated os2) = mset (os_delegated os1) + filter_mset (\<lambda>y. heap_item y os1) (mset (pk_elems pk1))"
      "\<forall>y. heap_item y os2 = heap_item y os1" "os_overflow os2 = os_overflow os1" by blast
    have "pk1 \<lparr> currentPtr := basePtr pk1 \<rparr> = pk \<lparr> currentPtr := basePtr pk \<rparr>" using p False by (auto simp: packet_pop_def pk_elems_def split: if_splits)
    then have "empty_loop pk os = Some (pk \<lparr> currentPtr := basePtr pk \<rparr>, os2)"
      by (subst empty_loop.simps) (simp add: p x o1(1) o2(1))
    moreover have "mset (os_delegated os2) = mset (os_delegated os) + filter_mset (\<lambda>y. heap_item y os) (mset (pk_elems pk))"
    proof -
      have "mset (pk_elems pk) = add_mset ?x (mset (pk_elems pk1))" unfolding pop(3) by (subst e) simp
      then show ?thesis unfolding o2(3) o1(3,4) by simp
    qed
    ultimately show ?thesis using o2(2,4,5) o1(4,5) by (intro exI [of _ os2]) simp
  qed
qed

interpretation std: overflow_handler standardOverflow os_accepts "\<lambda>os x. heap_item x os" "\<lambda>os. mset (os_delegated os)"
proof unfold_locales
  fix pk :: Packet and os W n ty
  assume "pk_wf pk" "NULL \<notin> set (pk_elems pk)" "os_accepts os (mset (pk_elems pk) + W)"
  then show "\<exists>ov'. oh_emptyToOverflow standardOverflow n ty pk os = Some (pk \<lparr> currentPtr := basePtr pk \<rparr>, ov') \<and> os_accepts ov' W \<and>
      mset (os_delegated ov') = mset (os_delegated os) + filter_mset (\<lambda>x. heap_item x os) (mset (pk_elems pk)) \<and>
      (\<lambda>x. heap_item x ov') = (\<lambda>x. heap_item x os) \<and> oh_getFlag standardOverflow ov'"
    using empty_loop_spec [of pk "note_overflow n os" W]
    by (auto simp: standardOverflow_def os_emptyToOverflow_def note_overflow_frame packet_isEmpty_def)
next
  fix x os W n ty
  assume "os_accepts os (add_mset x W)"
  then show "\<exists>ov'. oh_overflowItem standardOverflow n ty x os = Some ov' \<and> os_accepts ov' W \<and>
      mset (os_delegated ov') = mset (os_delegated os) + filter_mset (\<lambda>x. heap_item x os) {#x#} \<and>
      (\<lambda>x. heap_item x ov') = (\<lambda>x. heap_item x os) \<and> oh_getFlag standardOverflow ov'"
    using overflowItemInternal_spec [of "note_overflow n os" x W]
    by (auto simp: standardOverflow_def os_overflowItem_def note_overflow_frame)
next
  show "\<And>ov U W. os_accepts ov (U + W) \<Longrightarrow> os_accepts ov W" by (rule os_accepts_less)
qed (simp_all add: standardOverflow_def os_accepts_def heap_item_def)

section \<open>Handling an overflow\<close>

text \<open>\<open>scanObject\<close> with a record of the objects it was called on, and the calls keeping every mark.\<close>

definition traced :: "(addr \<Rightarrow> OverflowStandard \<times> 'w \<Rightarrow> OverflowStandard \<times> 'w) \<Rightarrow>
    addr \<Rightarrow> OverflowStandard \<times> 'w \<times> addr list \<Rightarrow> OverflowStandard \<times> 'w \<times> addr list" where
  "traced scanObject obj = (\<lambda>(os, w, tr). let (os, w) = scanObject obj (os, w) in (os, w, tr @ [obj]))"

definition keeps_marks :: "(addr \<Rightarrow> OverflowStandard \<times> 'w \<Rightarrow> OverflowStandard \<times> 'w) \<Rightarrow> bool" where
  "keeps_marks scanObject \<longleftrightarrow> (\<forall>obj os w b. slot_addr (os_markMap os) b \<longrightarrow>
     slot_addr (os_markMap (fst (scanObject obj (os, w)))) b \<and>
     (isBitSet (os_markMap os) b \<longrightarrow> isBitSet (os_markMap (fst (scanObject obj (os, w)))) b))"

definition double_marked :: "HeapMap \<Rightarrow> addr \<Rightarrow> bool" where
  "double_marked hm obj \<longleftrightarrow> isBitSet hm obj \<and> isBitSet hm (obj + 8)"

definition heap_objects :: "addr list \<Rightarrow> HeapMap \<Rightarrow> bool" where
  "heap_objects objects hm \<longleftrightarrow> (\<forall>a \<in> set objects. slot_addr hm a \<and> a + 8 < UMAX \<and> a + 8 \<notin> set objects)"

lemma rescan_traced:
  assumes "keeps_marks scanObject" "heap_objects objects (os_markMap os)" "distinct objects"
  shows "set tr \<union> {obj \<in> set objects. double_marked (os_markMap os) obj} \<subseteq> set (snd (snd (rescan (traced scanObject) objects (os, w, tr))))"
  using assms(2,3)
proof (induction objects arbitrary: os w tr)
  case (Cons a objects)
  let ?hm = "os_markMap os"
  have a: "slot_addr ?hm a" "a + 8 < UMAX" "uadd a getObjectGrain = a + 8"
    using Cons.prems(1) by (auto simp: heap_objects_def getObjectGrain_8 uadd_exact)
  note a8 = slot_addr_next [OF a(1,2)]
  show ?case
  proof (cases "double_marked ?hm a")
    case False
    then have "rescan (traced scanObject) (a # objects) (os, w, tr) = rescan (traced scanObject) objects (os, w, tr)"
      using a(3) by (auto simp: double_marked_def)
    then show ?thesis using Cons.IH [of os tr w] Cons.prems False by (auto simp: heap_objects_def)
  next
    case True
    let ?os = "os \<lparr> os_markMap := snd (clearBit (a + 8) ?hm) \<rparr>"
    obtain os1 w1 where s: "scanObject a (?os, w) = (os1, w1)" by fastforce
    have run: "rescan (traced scanObject) (a # objects) (os, w, tr) = rescan (traced scanObject) objects (os1, w1, tr @ [a])"
      using True a(3) s by (simp add: double_marked_def traced_def)
    have keep: "slot_addr (os_markMap os1) b" "isBitSet ?hm b \<Longrightarrow> b \<noteq> a + 8 \<Longrightarrow> isBitSet (os_markMap os1) b"
      if "slot_addr ?hm b" for b
    proof -
      have "slot_addr (os_markMap ?os) b" using that hm.del_valid by simp
      then show "slot_addr (os_markMap os1) b" "isBitSet ?hm b \<Longrightarrow> b \<noteq> a + 8 \<Longrightarrow> isBitSet (os_markMap os1) b"
        using assms(1) s clearBit_result(2) [OF a8 that] unfolding keeps_marks_def
        by (metis OverflowStandard.select_convs(2) OverflowStandard.surjective OverflowStandard.update_convs(2) fst_conv)+
    qed
    have o: "heap_objects objects (os_markMap os1)" "distinct objects"
      using Cons.prems keep(1) by (auto simp: heap_objects_def)
    have "double_marked (os_markMap os1) b" if "b \<in> set objects" "double_marked ?hm b" for b
    proof -
      have "slot_addr ?hm b" "b + 8 < UMAX" "b \<noteq> a + 8" "b \<noteq> a" using that Cons.prems by (auto simp: heap_objects_def)
      with that show ?thesis using keep slot_addr_next [of ?hm b] by (auto simp: double_marked_def)
    qed
    then show ?thesis unfolding run using Cons.IH [OF o, of "tr @ [a]" w1] by auto
  qed
qed simp

text \<open>
  C16: \<open>handleOverflow\<close> loses no overflowed object: every object of the heap that was marked twice
  when the handling started is scanned, whatever the scanning marks or overflows on the way, as
  long as it clears no mark and no object starts at the second slot of another.
\<close>

theorem handleOverflow_rescans:
  assumes "keeps_marks scanObject" "heap_objects objects (os_markMap os)" "distinct objects"
    and "obj \<in> set objects" "double_marked (os_markMap os) obj"
  shows "obj \<in> set (snd (snd (handleOverflow (traced scanObject) objects (os, w, []))))"
  using rescan_traced [OF assms(1) _ assms(3), of "os \<lparr> os_overflow := False \<rparr>" "[]" w] assms(2,4,5)
  by (auto simp: handleOverflow_def)

definition os_example :: OverflowStandard where
  "os_example = \<lparr> os_overflow = True, os_markMap = snd (setBit_hm 4104 hm_example), STWWorkStackOverflowOccured = True,
     STWWorkStackOverflowCount = 1, STWWorkpacketCountAtOverflow = 20, os_delegated = [4096] \<rparr>"

theorem handleOverflow_rescans_witness:
  "4096 \<in> set (snd (snd (handleOverflow (traced (\<lambda>_ s. s)) [4096, 4160] (os_example, (), []))))"
proof (rule handleOverflow_rescans)
  have s: "slot_addr hm_example (4096 + 8 * j)" if "j < 100" for j
    using slot_addr_step(1) [OF hm_example_marks(1), of j] that by (simp add: UMAX_def)
  have s8: "slot_addr hm_example 4104" "slot_addr hm_example 4160" using s [of 1] s [of 8] by simp_all
  show "keeps_marks (\<lambda>_ s :: OverflowStandard \<times> unit. s)" by (simp add: keeps_marks_def)
  show "heap_objects [4096, 4160] (os_markMap os_example)"
    using hm_example_marks(1) s8 by (simp add: heap_objects_def os_example_def UMAX_def)
  show "double_marked (os_markMap os_example) 4096"
    using setBit_result(2) [OF s8(1) s8(1)] setBit_result(2) [OF s8(1) hm_example_marks(1)] hm_example_marks
    by (simp add: double_marked_def os_example_def)
qed simp_all

end
