(* ===== verification/Work_Packets.thy ===== *)
theory Work_Packets
  imports Packet_List Overflow GC_Math
begin

text \<open>
  The pool of work packets \<open>MM_WorkPackets\<close> (gc/base/WorkPackets.hpp, WorkPackets.cpp) of the
  tracing collectors.  Six packet lists share one store of packets; a packet moves between them
  according to how full it is.  The overflow handler is a parameter (the virtual functions of
  \<open>MM_WorkPacketOverflow\<close>), and the collector's memory allocator (the forge) is a supply of
  blocks: the results of its next calls, \<open>NULL\<close> (or an exhausted supply) when it fails.

  The operations are those of one thread that runs alone between the steps of others.  Waiting for
  packets on the input list monitor is not modelled; the notifications of the monitor are counted.
\<close>

section \<open>State\<close>

datatype packetListKind = emptyPacketList | fullPacketList | relativelyFullPacketList | nonEmptyPacketList
  | deferredPacketList | deferredFullPacketList

instance packetListKind :: finite
proof
  have "(UNIV :: packetListKind set) \<subseteq> set [emptyPacketList, fullPacketList, relativelyFullPacketList, nonEmptyPacketList,
      deferredPacketList, deferredFullPacketList]"
    by (rule subsetI, rename_tac k, case_tac k) simp_all
  then show "finite (UNIV :: packetListKind set)" by (rule finite_subset) simp
qed

record 'o WorkPackets =
  wp_store :: store
  wp_lists :: "packetListKind \<Rightarrow> PacketList"
  packetsPerBlock :: nat
  maxPackets :: nat
  activePackets :: nat
  packetsBlocksTop :: nat
  packetsStart :: "addr list"
  inputListWaitCount :: nat
  inputListDoneIndex :: nat
  wp_notified :: nat
  overflowState :: 'o
  wp_forge :: "addr list"

definition minPacketsInBlock :: nat where "minPacketsInBlock = 4"
definition initialBlocks :: nat where "initialBlocks = 5"
definition increaseFactor :: nat where "increaseFactor = 5"
definition maxPacketsBlocks :: nat where "maxPacketsBlocks = initialBlocks * increaseFactor"
definition fullPacketThreshold :: nat where "fullPacketThreshold = SLOTS_IN_PACKET div 2 ^ 4"
definition satisfactoryCapacity :: nat where "satisfactoryCapacity = SLOTS_IN_PACKET div 2"
definition maxPacketSearch :: nat where "maxPacketSearch = 20"

text \<open>The header of a packet: nine pointer-sized fields.\<close>

definition sizeof_Packet :: nat where
  "sizeof_Packet = 9 * sizeof_UDATA"

definition packetSize :: nat where
  "packetSize = SLOTS_IN_PACKET * sizeof_UDATA"

definition isAllPacketsEmpty :: "'o WorkPackets \<Rightarrow> bool" where
  "isAllPacketsEmpty wp \<longleftrightarrow> pl_getCount (wp_lists wp emptyPacketList) = activePackets wp"

definition tracingExhausted :: "'o WorkPackets \<Rightarrow> bool" where
  "tracingExhausted wp \<longleftrightarrow>
     uadd (uadd (pl_getCount (wp_lists wp emptyPacketList)) (pl_getCount (wp_lists wp deferredPacketList)))
       (pl_getCount (wp_lists wp deferredFullPacketList)) = activePackets wp"

definition getNonEmptyPacketCount :: "'o WorkPackets \<Rightarrow> nat" where
  "getNonEmptyPacketCount wp = usub (activePackets wp) (pl_getCount (wp_lists wp emptyPacketList))"

definition getDeferredPacketCount :: "'o WorkPackets \<Rightarrow> nat" where
  "getDeferredPacketCount wp = uadd (pl_getCount (wp_lists wp deferredPacketList)) (pl_getCount (wp_lists wp deferredFullPacketList))"

section \<open>Moving packets\<close>

definition getPacket :: "Environment \<Rightarrow> packetListKind \<Rightarrow> 'o WorkPackets \<Rightarrow> addr \<times> 'o WorkPackets" where
  "getPacket env list wp =
     (let (packet, pl, st) = pl_pop env (wp_lists wp list, wp_store wp);
          wp = wp \<lparr> wp_lists := (wp_lists wp)(list := pl), wp_store := st \<rparr>
      in if packet = NULL then (NULL, wp)
         else (packet, wp \<lparr> wp_store := upd_packet packet (setOwner (env_address env)) (wp_store wp) \<rparr>))"

definition notifyWaitingThreads :: "'o WorkPackets \<Rightarrow> 'o WorkPackets" where
  "notifyWaitingThreads wp = (if 0 < inputListWaitCount wp then wp \<lparr> wp_notified := wp_notified wp + 1 \<rparr> else wp)"

text \<open>Where \<open>putPacket\<close> files a packet with the given number of free slots.\<close>

definition packet_class :: "nat \<Rightarrow> packetListKind" where
  "packet_class free =
     (if free = SLOTS_IN_PACKET then emptyPacketList
      else if free = 0 then fullPacketList
      else if free < fullPacketThreshold then relativelyFullPacketList
      else nonEmptyPacketList)"

definition push_on :: "Environment \<Rightarrow> packetListKind \<Rightarrow> addr \<Rightarrow> 'o WorkPackets \<Rightarrow> 'o WorkPackets" where
  "push_on env list packet wp =
     (let (pl, st) = pl_push env packet (wp_lists wp list, wp_store wp)
      in wp \<lparr> wp_lists := (wp_lists wp)(list := pl), wp_store := st \<rparr>)"

definition putPacket :: "Environment \<Rightarrow> addr \<Rightarrow> 'o WorkPackets \<Rightarrow> 'o WorkPackets" where
  "putPacket env packet wp =
     (let list = packet_class (freeSlots (wp_store wp packet));
          mustNotifyWaitingThreads = (list \<noteq> emptyPacketList \<and> pl_isEmpty (wp_lists wp list));
          reown = (if list = emptyPacketList then clearOwner else resetOwner);
          wp = push_on env list packet (wp \<lparr> wp_store := upd_packet packet reown (wp_store wp) \<rparr>)
      in if mustNotifyWaitingThreads \<and> 0 < inputListWaitCount wp then notifyWaitingThreads wp else wp)"

definition putOutputPacket :: "Environment \<Rightarrow> addr \<Rightarrow> 'o WorkPackets \<Rightarrow> 'o WorkPackets" where
  "putOutputPacket env packet wp = putPacket env packet wp"

definition getDeferredPacket :: "Environment \<Rightarrow> 'o WorkPackets \<Rightarrow> addr \<times> 'o WorkPackets" where
  "getDeferredPacket env wp =
     (let (packet, wp) = getPacket env deferredPacketList wp
      in if packet = NULL then getPacket env emptyPacketList wp else (packet, wp))"

definition putDeferredPacket :: "Environment \<Rightarrow> addr \<Rightarrow> 'o WorkPackets \<Rightarrow> 'o WorkPackets" where
  "putDeferredPacket env packet wp =
     (let free = freeSlots (wp_store wp packet);
          list = (if free = 0 then deferredFullPacketList else deferredPacketList)
      in push_on env list packet (wp \<lparr> wp_store := upd_packet packet resetOwner (wp_store wp) \<rparr>))"

section \<open>Allocating packets\<close>

definition memset_packet :: "Packet \<Rightarrow> Packet" where
  "memset_packet pk = pk \<lparr> baseAddress := 0, basePtr := 0, topPtr := 0, currentPtr := 0, sublistIndex := 0, pk_owner := 0,
     pk_next := 0, pk_previous := 0 \<rparr>"

fun zero_headers :: "nat \<Rightarrow> addr \<Rightarrow> store \<Rightarrow> store" where
  "zero_headers 0 p st = st"
| "zero_headers (Suc n) p st = zero_headers n (p + sizeof_Packet) (upd_packet p memset_packet st)"

fun init_packets :: "nat \<Rightarrow> nat \<Rightarrow> addr \<Rightarrow> addr \<Rightarrow> addr \<Rightarrow> addr \<Rightarrow> nat \<Rightarrow> store \<Rightarrow> store" where
  "init_packets 0 i current nxt previous tail dataStart st = st"
| "init_packets (Suc n) i current nxt previous tail dataStart st =
     (let st = upd_packet current
            (packet_initialize nxt previous ((dataStart + i * packetSize) div sizeof_UDATA) SLOTS_IN_PACKET) st;
          previous = current; current = current + sizeof_Packet; nxt = current + sizeof_Packet;
          nxt = (if current = tail then NULL else nxt)
      in init_packets n (i + 1) current nxt previous tail dataStart st)"

definition initWorkPacketsBlock :: "'o WorkPackets \<Rightarrow> (bool \<times> 'o WorkPackets) option" where
  "initWorkPacketsBlock wp =
     (let totalHeaderSize = sizeof_Packet * packetsPerBlock wp
      in if maxPackets wp \<le> activePackets wp then Some (False, wp)
         else do {
           assert_MM (packetsBlocksTop wp < maxPacketsBlocks);
           (let block = (case wp_forge wp of [] \<Rightarrow> NULL | b # _ \<Rightarrow> b);
                wp = wp \<lparr> wp_forge := tl (wp_forge wp), packetsStart := (packetsStart wp)[packetsBlocksTop wp := block] \<rparr>
            in if block = NULL then Some (False, wp)
               else
                 (let tail = block + totalHeaderSize - sizeof_Packet;
                      st = zero_headers (packetsPerBlock wp) block (wp_store wp);
                      st = init_packets (packetsPerBlock wp) 0 block (block + sizeof_Packet) NULL tail (block + totalHeaderSize) st
                  in do { (pl, st) \<leftarrow> pl_pushList block tail (packetsPerBlock wp) (wp_lists wp emptyPacketList, st);
                          Some (True, wp \<lparr> wp_lists := (wp_lists wp)(emptyPacketList := pl), wp_store := st,
                                           packetsBlocksTop := packetsBlocksTop wp + 1,
                                           activePackets := uadd (activePackets wp) (packetsPerBlock wp) \<rparr>) })) })"

text \<open>
  \<open>initialize\<close>.  \<open>heuristicCount\<close> is the packet count computed from the heap size in floating
  point, \<open>workpacketCount\<close> and \<open>gcThreadCount\<close> are the extensions' options.
\<close>

definition initialPacketCount :: "nat \<Rightarrow> nat \<Rightarrow> nat \<Rightarrow> nat" where
  "initialPacketCount workpacketCount heuristicCount gcThreadCount =
     (let initial = (if workpacketCount \<noteq> 0 then workpacketCount else heuristicCount);
          initial = roundToFloor initialBlocks initial;
          initial = max initial (initialBlocks * minPacketsInBlock);
          minimumPacketsForForwardProgress = roundToCeiling initialBlocks (umul gcThreadCount 2)
      in max initial minimumPacketsForForwardProgress)"

fun allocate_initial :: "nat \<Rightarrow> nat \<Rightarrow> 'o WorkPackets \<Rightarrow> (bool \<times> 'o WorkPackets) option" where
  "allocate_initial 0 wanted wp = None"
| "allocate_initial (Suc fuel) wanted wp =
     (if activePackets wp < wanted then
        do { (ok, wp) \<leftarrow> initWorkPacketsBlock wp;
             if ok then allocate_initial fuel wanted wp else Some (False, wp) }
      else Some (True, wp))"

definition wp_initialize :: "nat \<Rightarrow> nat \<Rightarrow> nat \<Rightarrow> nat \<Rightarrow> 'o \<Rightarrow> addr list \<Rightarrow> store \<Rightarrow> (bool \<times> 'o WorkPackets) option" where
  "wp_initialize packetListSplit workpacketCount heuristicCount gcThreadCount ov forge st =
     do { pl \<leftarrow> pl_initialize packetListSplit;
          (let initial = initialPacketCount workpacketCount heuristicCount gcThreadCount;
               wp = \<lparr> wp_store = st, wp_lists = (\<lambda>_. pl), packetsPerBlock = initial div initialBlocks,
                      maxPackets = (if workpacketCount \<noteq> 0 then initial else umul initial increaseFactor),
                      activePackets = 0, packetsBlocksTop = 0, packetsStart = replicate maxPacketsBlocks NULL,
                      inputListWaitCount = 0, inputListDoneIndex = 0, wp_notified = 0, overflowState = ov, wp_forge = forge \<rparr>
           in allocate_initial (Suc maxPacketsBlocks) initial wp) }"

section \<open>Input packets\<close>

definition inputPacketAvailable :: "'o OverflowHandler \<Rightarrow> 'o WorkPackets \<Rightarrow> bool" where
  "inputPacketAvailable h wp \<longleftrightarrow> \<not> pl_isEmpty (wp_lists wp fullPacketList) \<or>
     \<not> pl_isEmpty (wp_lists wp relativelyFullPacketList) \<or> \<not> pl_isEmpty (wp_lists wp nonEmptyPacketList) \<or>
     \<not> oh_isEmpty h (overflowState wp)"

partial_function (option) getInputPacketFromOverflow ::
    "'o OverflowHandler \<Rightarrow> Environment \<Rightarrow> 'o WorkPackets \<Rightarrow> (addr \<times> 'o WorkPackets) option" where
  "getInputPacketFromOverflow h env wp =
     (if oh_isEmpty h (overflowState wp) then Some (NULL, wp)
      else
        (let (overflowPacket, wp) = getPacket env emptyPacketList wp
         in if overflowPacket = NULL then getInputPacketFromOverflow h env wp
            else
              Option.bind (oh_fillFromOverflow h (wp_store wp overflowPacket) (overflowState wp)) (\<lambda>(pk, ov).
                (let wp = wp \<lparr> wp_store := (wp_store wp)(overflowPacket := pk), overflowState := ov \<rparr>
                 in if packet_isEmpty pk then getInputPacketFromOverflow h env (putPacket env overflowPacket wp)
                    else Some (overflowPacket, wp)))))"

text \<open>Trying lists in order.\<close>

fun getPacket_from :: "Environment \<Rightarrow> packetListKind list \<Rightarrow> 'o WorkPackets \<Rightarrow> addr \<times> 'o WorkPackets" where
  "getPacket_from env [] wp = (NULL, wp)"
| "getPacket_from env (list # lists') wp =
     (let (packet, wp) = getPacket env list wp in if packet = NULL then getPacket_from env lists' wp else (packet, wp))"

definition input_order :: "'o WorkPackets \<Rightarrow> packetListKind list" where
  "input_order wp =
     (if \<not> pl_isEmpty (wp_lists wp nonEmptyPacketList) \<and> pl_getCount (wp_lists wp emptyPacketList) < activePackets wp div 2 ^ 2
      then [nonEmptyPacketList, relativelyFullPacketList, fullPacketList]
      else [fullPacketList, relativelyFullPacketList, nonEmptyPacketList])"

definition getInputPacketNoWait ::
    "'o OverflowHandler \<Rightarrow> Environment \<Rightarrow> 'o WorkPackets \<Rightarrow> (addr \<times> 'o WorkPackets) option" where
  "getInputPacketNoWait h env wp =
     (if \<not> inputPacketAvailable h wp then Some (NULL, wp)
      else
        (let (packet, wp) = getPacket_from env (input_order wp) wp
         in do { (packet, wp) \<leftarrow> (if packet = NULL then getInputPacketFromOverflow h env wp else Some (packet, wp));
                 Some (packet, if packet \<noteq> NULL \<and> 0 < inputListWaitCount wp \<and> inputPacketAvailable h wp
                               then notifyWaitingThreads wp else wp) }))"

text \<open>
  \<open>getInputPacket\<close> for a thread that runs alone: \<open>None\<close> is that the thread waits on the input list
  monitor (or that a handler aborts).  \<open>task\<close> is the environment's current task, if it has one.
\<close>

record Task =
  task_threadCount :: nat
  task_shouldYield :: bool

definition mustSyncThreadsAndExit :: "Task option \<Rightarrow> bool" where
  "mustSyncThreadsAndExit task \<longleftrightarrow> (case task of None \<Rightarrow> False | Some t \<Rightarrow> task_shouldYield t)"

definition last_to_wait :: "Task option \<Rightarrow> 'o WorkPackets \<Rightarrow> bool" where
  "last_to_wait task wp \<longleftrightarrow> (case task of None \<Rightarrow> True | Some t \<Rightarrow> inputListWaitCount wp = task_threadCount t)"

partial_function (option) getInputPacket_loop ::
    "'o OverflowHandler \<Rightarrow> Environment \<Rightarrow> Task option \<Rightarrow> nat \<Rightarrow> 'o WorkPackets \<Rightarrow> (addr \<times> 'o WorkPackets) option" where
  "getInputPacket_loop h env task doneIndex wp =
     (if \<not> mustSyncThreadsAndExit task \<and> inputPacketAvailable h wp then
        Option.bind (getInputPacketNoWait h env wp) (\<lambda>(packet, wp).
          if packet \<noteq> NULL then Some (packet, wp) else getInputPacket_loop h env task doneIndex wp)
      else if doneIndex \<noteq> inputListDoneIndex wp then Some (NULL, wp)
      else
        (let wp = wp \<lparr> inputListWaitCount := uadd (inputListWaitCount wp) 1 \<rparr>
         in if last_to_wait task wp \<and> (mustSyncThreadsAndExit task \<or> \<not> inputPacketAvailable h wp) then
              Some (NULL, wp \<lparr> inputListDoneIndex := uadd (inputListDoneIndex wp) 1, inputListWaitCount := 0,
                                wp_notified := wp_notified wp + 1 \<rparr>)
            else if mustSyncThreadsAndExit task \<or> \<not> inputPacketAvailable h wp then None
            else getInputPacket_loop h env task doneIndex (wp \<lparr> inputListWaitCount := usub (inputListWaitCount wp) 1 \<rparr>)))"

definition getInputPacket ::
    "'o OverflowHandler \<Rightarrow> Environment \<Rightarrow> Task option \<Rightarrow> 'o WorkPackets \<Rightarrow> (addr \<times> 'o WorkPackets) option" where
  "getInputPacket h env task wp = getInputPacket_loop h env task (inputListDoneIndex wp) wp"

section \<open>Output packets\<close>

text \<open>
  The search of \<open>getLeastFullPacket\<close>: \<open>n\<close> searches left, the packets taken so far, the largest
  capacity seen and the position of the selected packet (\<open>None\<close> for -1).
\<close>

fun leastFull_loop :: "nat \<Rightarrow> Environment \<Rightarrow> nat \<Rightarrow> addr list \<Rightarrow> int \<Rightarrow> nat option \<Rightarrow> 'o WorkPackets \<Rightarrow>
    addr list \<times> nat option \<times> 'o WorkPackets" where
  "leastFull_loop 0 env satisfactory temps maxCapacity selected wp = (temps, selected, wp)"
| "leastFull_loop (Suc n) env satisfactory temps maxCapacity selected wp =
     (let (packet, wp) = getPacket_from env [nonEmptyPacketList, relativelyFullPacketList] wp
      in if packet = NULL then (temps, selected, wp)
         else
           (let i = length temps; temps = temps @ [packet]; curCapacity = int (freeSlots (wp_store wp packet))
            in if maxCapacity < curCapacity then
                 (if int satisfactory \<le> curCapacity then (temps, Some i, wp)
                  else leastFull_loop n env satisfactory temps curCapacity (Some i) wp)
               else if int fullPacketThreshold \<le> maxCapacity \<and> curCapacity < int fullPacketThreshold
                 then (temps, selected, wp)
               else leastFull_loop n env satisfactory temps maxCapacity selected wp))"

fun put_back :: "nat \<Rightarrow> Environment \<Rightarrow> addr list \<Rightarrow> nat option \<Rightarrow> 'o WorkPackets \<Rightarrow> 'o WorkPackets" where
  "put_back 0 env temps selected wp = wp"
| "put_back (Suc j) env temps selected wp =
     put_back j env temps selected (if Some j \<noteq> selected then putPacket env (temps ! j) wp else wp)"

definition getLeastFullPacket :: "Environment \<Rightarrow> nat \<Rightarrow> 'o WorkPackets \<Rightarrow> addr \<times> 'o WorkPackets" where
  "getLeastFullPacket env requiredSlots wp =
     (let (temps, selected, wp) =
            leastFull_loop maxPacketSearch env (max satisfactoryCapacity requiredSlots) [] (int requiredSlots - 1) None wp;
          wp = put_back (length temps) env temps selected wp
      in (case selected of None \<Rightarrow> NULL | Some i \<Rightarrow> temps ! i, wp))"

definition getPacketByAdddingWorkPacketBlock :: "Environment \<Rightarrow> 'o WorkPackets \<Rightarrow> (addr \<times> 'o WorkPackets) option" where
  "getPacketByAdddingWorkPacketBlock env wp =
     (let (packet, wp) = getPacket env emptyPacketList wp
      in if packet = NULL then
           do { (ok, wp) \<leftarrow> initWorkPacketsBlock wp;
                Some (if ok then getPacket env emptyPacketList wp else (NULL, wp)) }
         else Some (packet, wp))"

definition wp_emptyToOverflow :: "'o OverflowHandler \<Rightarrow> addr \<Rightarrow> OverflowType \<Rightarrow> 'o WorkPackets \<Rightarrow> 'o WorkPackets option" where
  "wp_emptyToOverflow h packet type wp =
     do { (pk, ov) \<leftarrow> oh_emptyToOverflow h (activePackets wp) type (wp_store wp packet) (overflowState wp);
          Some (wp \<lparr> wp_store := (wp_store wp)(packet := pk), overflowState := ov \<rparr>) }"

definition getPacketByOverflowing :: "'o OverflowHandler \<Rightarrow> Environment \<Rightarrow> 'o WorkPackets \<Rightarrow> (addr \<times> 'o WorkPackets) option" where
  "getPacketByOverflowing h env wp =
     (let (packet, wp) = getPacket env fullPacketList wp
      in if packet \<noteq> NULL then
           do { wp \<leftarrow> wp_emptyToOverflow h packet OVERFLOW_TYPE_WORKSTACK wp;
                Some (packet, notifyWaitingThreads wp) }
         else
           (let (packet, wp) = getPacket env emptyPacketList wp
            in Some (if packet = NULL then getLeastFullPacket env 2 wp else (packet, wp))))"

definition getOutputPacket :: "'o OverflowHandler \<Rightarrow> Environment \<Rightarrow> 'o WorkPackets \<Rightarrow> (addr \<times> 'o WorkPackets) option" where
  "getOutputPacket h env wp =
     (let (outputPacket, wp) = getPacket env emptyPacketList wp
      in if outputPacket \<noteq> NULL then Some (outputPacket, wp)
         else
           (let (outputPacket, wp) = getLeastFullPacket env 2 wp
            in if outputPacket \<noteq> NULL then Some (outputPacket, wp)
               else do {
                 (outputPacket, wp) \<leftarrow> getPacketByAdddingWorkPacketBlock env wp;
                 (if outputPacket \<noteq> NULL then Some (outputPacket, wp)
                  else
                    (let (outputPacket, wp) = getLeastFullPacket env 2 wp
                     in if outputPacket \<noteq> NULL then Some (outputPacket, wp) else getPacketByOverflowing h env wp)) }))"

section \<open>Overflow and whole-pool operations\<close>

definition wp_overflowItem :: "'o OverflowHandler \<Rightarrow> addr \<Rightarrow> OverflowType \<Rightarrow> 'o WorkPackets \<Rightarrow> 'o WorkPackets option" where
  "wp_overflowItem h item type wp =
     do { ov \<leftarrow> oh_overflowItem h (activePackets wp) type item (overflowState wp); Some (wp \<lparr> overflowState := ov \<rparr>) }"

definition getOverflowFlag :: "'o OverflowHandler \<Rightarrow> 'o WorkPackets \<Rightarrow> bool" where
  "getOverflowFlag h wp \<longleftrightarrow> oh_getFlag h (overflowState wp)"

definition clearOverflowFlag :: "'o OverflowHandler \<Rightarrow> 'o WorkPackets \<Rightarrow> 'o WorkPackets" where
  "clearOverflowFlag h wp = wp \<lparr> overflowState := oh_clearFlag h (overflowState wp) \<rparr>"

text \<open>\<open>handle\<close> is the handler's virtual \<open>handleOverflow\<close> on the pool.\<close>

definition handleWorkPacketOverflow ::
    "'o OverflowHandler \<Rightarrow> ('o WorkPackets \<Rightarrow> 'o WorkPackets) \<Rightarrow> 'o WorkPackets \<Rightarrow> bool \<times> 'o WorkPackets" where
  "handleWorkPacketOverflow h handle wp = (if getOverflowFlag h wp then (True, handle wp) else (False, wp))"

definition wp_reset :: "'o OverflowHandler \<Rightarrow> 'o WorkPackets \<Rightarrow> 'o WorkPackets" where
  "wp_reset h wp = wp \<lparr> overflowState := oh_reset h (overflowState wp) \<rparr>"

text \<open>\<open>while (NULL != (packet = getPacket(list))) { f(packet); putPacket(packet); }\<close>\<close>

partial_function (option) drain_list ::
    "Environment \<Rightarrow> (Packet \<Rightarrow> Packet) \<Rightarrow> packetListKind \<Rightarrow> 'o WorkPackets \<Rightarrow> 'o WorkPackets option" where
  "drain_list env f list wp =
     (let (packet, wp) = getPacket env list wp
      in if packet = NULL then Some wp
         else drain_list env f list (putPacket env packet (wp \<lparr> wp_store := upd_packet packet f (wp_store wp) \<rparr>)))"

definition resetAllPackets :: "'o OverflowHandler \<Rightarrow> Environment \<Rightarrow> 'o WorkPackets \<Rightarrow> 'o WorkPackets option" where
  "resetAllPackets h env wp =
     do { wp \<leftarrow> drain_list env resetData fullPacketList wp;
          wp \<leftarrow> drain_list env resetData relativelyFullPacketList wp;
          wp \<leftarrow> drain_list env resetData nonEmptyPacketList wp;
          wp \<leftarrow> drain_list env resetData deferredPacketList wp;
          wp \<leftarrow> drain_list env resetData deferredFullPacketList wp;
          Some (clearOverflowFlag h wp) }"

definition reuseDeferredPackets :: "Environment \<Rightarrow> 'o WorkPackets \<Rightarrow> 'o WorkPackets option" where
  "reuseDeferredPackets env wp =
     (if pl_isEmpty (wp_lists wp deferredPacketList) \<and> pl_isEmpty (wp_lists wp deferredFullPacketList) then Some wp
      else do {
        wp \<leftarrow> (if pl_isEmpty (wp_lists wp deferredPacketList) then Some wp else drain_list env (\<lambda>pk. pk) deferredPacketList wp);
        (if pl_isEmpty (wp_lists wp deferredFullPacketList) then Some wp else drain_list env (\<lambda>pk. pk) deferredFullPacketList wp) })"

end
