(* ===== verification/Packet_Set.thy ===== *)
theory Packet_Set
  imports Work_Packets
begin

text \<open>
  Packet lists as finite sets of packets: the view of \<open>MM_PacketList\<close> that the pool of work packets
  relies on.  Which sublist holds a packet and in which order does not matter to the pool; moving
  packets changes links, sublist indices and owners only, never the data of a packet.
\<close>

section \<open>The data of a packet\<close>

definition pk_data :: "Packet \<Rightarrow> nat \<times> nat \<times> nat \<times> nat \<times> (nat \<Rightarrow> addr)" where
  "pk_data pk = (baseAddress pk, basePtr pk, topPtr pk, currentPtr pk, pk_slots pk)"

lemma pk_data_eqD:
  assumes "pk_data pk = pk_data pk'"
  shows "pk_wf pk = pk_wf pk'" "pk_elems pk = pk_elems pk'" "freeSlots pk = freeSlots pk'"
  using assms by (simp_all add: pk_data_def pk_wf_def pk_elems_def freeSlots_def)

lemma pk_data_update [simp]:
  "pk_data (pk \<lparr> pk_next := a \<rparr>) = pk_data pk" "pk_data (pk \<lparr> pk_previous := a \<rparr>) = pk_data pk"
  "pk_data (pk \<lparr> sublistIndex := i \<rparr>) = pk_data pk" "pk_data (pk \<lparr> pk_owner := a \<rparr>) = pk_data pk"
  "pk_data (setOwner a pk) = pk_data pk" "pk_data (clearOwner pk) = pk_data pk" "pk_data (resetOwner pk) = pk_data pk"
  by (simp_all add: pk_data_def setOwner_def clearOwner_def resetOwner_def)

lemma upd_packet_data: "(\<And>pk. pk_data (f pk) = pk_data pk) \<Longrightarrow> pk_data (upd_packet p f st x) = pk_data (st x)"
  by (simp add: upd_packet_def)

lemma pop_loop_data: "pk_data (snd (snd (pop_loop n i (pl, st))) x) = pk_data (st x)"
  by (induction n i "(pl, st)" rule: pop_loop.induct) (simp_all add: Let_def upd_packet_data)

lemma pl_pop_data: "pl_pop env (pl, st) = (p, pl', st') \<Longrightarrow> pk_data (st' x) = pk_data (st x)"
  using pop_loop_data [of "length (sublists pl)" "getSublistIndex env pl" pl st x] by (simp add: pl_pop_def)

lemma pl_push_data: "pl_push env p (pl, st) = (pl', st') \<Longrightarrow> pk_data (st' x) = pk_data (st x)"
  by (auto simp: pl_push_def Let_def upd_packet_data split: if_splits)

section \<open>Lists as sets\<close>

definition pl_set :: "PacketList \<Rightarrow> store \<Rightarrow> addr set \<Rightarrow> bool" where
  "pl_set pl st S \<longleftrightarrow> (\<exists>xss. pl_inv (pl, st) xss \<and> set (concat xss) = S)"

lemma pl_set_facts:
  assumes "pl_set pl st S"
  shows "finite S" "pl_count pl = card S" "card S < UMAX" "NULL \<notin> S"
proof -
  obtain xss where x: "pl_inv (pl, st) xss" "set (concat xss) = S" using assms by (auto simp: pl_set_def)
  then have "distinct (concat xss)" "pl_count pl = length (concat xss)" "length (concat xss) < UMAX" by (auto simp: pl_inv_def)
  with x(2) show "finite S" "pl_count pl = card S" "card S < UMAX" using distinct_card by fastforce+
  have "NULL \<notin> set xs" if "xs \<in> set xss" for xs
    using x(1) that dls_not_NULL by (fastforce simp: pl_inv_def sublist_ok_def in_set_conv_nth)
  with x(2) show "NULL \<notin> S" by auto
qed

lemma pl_set_isEmpty: "pl_set pl st S \<Longrightarrow> pl_isEmpty pl \<longleftrightarrow> S = {}"
  using pl_set_facts(1,2) [of pl st S] by (auto simp: pl_isEmpty_def)

lemma pl_set_frame:
  assumes "pl_set pl st S" "\<And>x. x \<in> S \<Longrightarrow> pk_next (st' x) = pk_next (st x) \<and> pk_previous (st' x) = pk_previous (st x) \<and>
      sublistIndex (st' x) = sublistIndex (st x)"
  shows "pl_set pl st' S"
proof -
  obtain xss where x: "pl_inv (pl, st) xss" "set (concat xss) = S" using assms(1) by (auto simp: pl_set_def)
  have "sublist_ok st' (sublists pl ! i) i (xss ! i) = sublist_ok st (sublists pl ! i) i (xss ! i)" if "i < length xss" for i
    by (rule sublist_ok_frame, rule assms(2)) (use x(2) that nth_mem in fastforce)
  with x show ?thesis unfolding pl_set_def by (intro exI [of _ xss]) (simp add: pl_inv_def)
qed

lemma set_concat_update:
  assumes "distinct (concat xss)" "i < length xss"
  shows "set (concat (xss[i := p # xss ! i])) = insert p (set (concat xss))"
    "xss ! i = q # ys \<Longrightarrow> set (concat (xss[i := ys])) = set (concat xss) - {q}"
  using assms(1) concat_split [OF assms(2)] by (auto simp: concat_update [OF assms(2)])

lemma pl_set_pop:
  assumes "pl_set pl st S"
  obtains (none) "S = {}" "pl_pop env (pl, st) = (NULL, pl, st)"
    | (packet) p pl' st' where "pl_pop env (pl, st) = (p, pl', st')" "p \<in> S" "p \<noteq> NULL" "pl_set pl' st' (S - {p})"
      "\<And>x. x \<notin> S \<Longrightarrow> st' x = st x" "\<And>x. pk_data (st' x) = pk_data (st x)"
proof -
  obtain xss where x: "pl_inv (pl, st) xss" "set (concat xss) = S" using assms by (auto simp: pl_set_def)
  then have d: "distinct (concat xss)" by (simp add: pl_inv_def)
  from x(1) show thesis
  proof (cases rule: pl_pop_cases [where env = env])
    case (packet i p ys pl' st')
    have "set (xss ! i) \<subseteq> S" using packet(2) x(2) by auto
    then have "p \<in> S" "set ys \<subseteq> S" using packet(3) by auto
    moreover have "pl_set pl' st' (S - {p})"
      using packet(5) set_concat_update(2) [OF d packet(2,3)] x(2) by (auto simp: pl_set_def)
    ultimately show thesis using that(2) [OF packet(1)] packet(4,6) pl_pop_data [OF packet(1)] by blast
  next
    case none
    have "S = {}" using none(2) x(2) by (metis empty_set)
    then show thesis using that(1) none(1) by blast
  qed
qed

lemma pl_set_push:
  fixes env :: Environment
  assumes "pl_set pl st S" "p \<noteq> NULL" "p \<notin> S" "Suc (card S) < UMAX"
  obtains pl' st' where "pl_push env p (pl, st) = (pl', st')" "pl_set pl' st' (insert p S)"
    "\<And>x. x \<notin> insert p S \<Longrightarrow> st' x = st x" "\<And>x. pk_data (st' x) = pk_data (st x)"
proof -
  obtain xss where x: "pl_inv (pl, st) xss" "set (concat xss) = S" using assms(1) by (auto simp: pl_set_def)
  then have d: "distinct (concat xss)" by (simp add: pl_inv_def)
  then have "Suc (length (concat xss)) < UMAX" using assms(4) x(2) distinct_card [OF d] by simp
  note s = pl_push_spec [OF x(1) assms(2) _ this, where env = env, unfolded x(2), OF assms(3)]
  obtain pl' st' where r: "pl_push env p (pl, st) = (pl', st')" by fastforce
  have "pl_set pl' st' (insert p S)"
    unfolding pl_set_def using s(2) r set_concat_update(1) [OF d s(1), of p] x(2) by (metis (no_types))
  then show thesis using that [OF r] s(3) r pl_push_data [OF r] by auto
qed

section \<open>Pushing a chain of packets\<close>

lemma reindex_spec:
  assumes "nls st xs b" "distinct xs" "NULL \<notin> set xs" "n = length xs"
  shows "\<exists>st'. reindex n (hd_or xs b) st = Some st' \<and>
    (\<forall>x. st' x = (if x \<in> set xs then (st x) \<lparr> sublistIndex := 0 \<rparr> else st x))"
  using assms
proof (induction xs arbitrary: st n)
  case (Cons a xs)
  let ?st = "upd_packet a (\<lambda>pk. pk \<lparr> sublistIndex := 0 \<rparr>) st"
  have "nls ?st xs b = nls st xs b" using Cons.prems(2) by (intro nls_frame) (auto simp: upd_packet_def)
  then obtain st' where "reindex (length xs) (hd_or xs b) ?st = Some st'"
    "\<forall>x. st' x = (if x \<in> set xs then (?st x) \<lparr> sublistIndex := 0 \<rparr> else ?st x)"
    using Cons.IH [of ?st "length xs"] Cons.prems by auto
  then show ?case using Cons.prems by (auto simp: upd_packet_def)
qed simp

lemma pl_pushList_spec:
  assumes inv: "pl_inv (pl, st) xss" and ch: "dls st NULL xs b" and d: "distinct xs" "xs \<noteq> []"
    and fr: "set xs \<inter> set (concat xss) = {}" and n: "n = length xs" "length (concat xss) + n < UMAX"
  shows "\<exists>pl' st'. pl_pushList (hd xs) (last xs) n (pl, st) = Some (pl', st') \<and> pl_inv (pl', st') (xss[0 := xs @ xss ! 0]) \<and>
    (\<forall>x. x \<notin> set xs \<union> set (concat xss) \<longrightarrow> st' x = st x) \<and> (\<forall>x. pk_data (st' x) = pk_data (st x))"
proof -
  have i: "0 < length xss" and ok: "sublist_ok st (sublists pl ! 0) 0 (xss ! 0)" and dx: "distinct (concat xss)"
    using inv by (auto simp: pl_inv_def)
  let ?ys = "xss ! 0" and ?sl = "sublists pl ! 0" and ?t = "last xs"
  have h: "sl_head ?sl = hd_or ?ys NULL" "sl_tail ?sl = last_or ?ys NULL" "dls st NULL ?ys NULL" "\<forall>x \<in> set ?ys. sublistIndex (st x) = 0"
    using ok by (auto simp: sublist_ok_def)
  have ys: "set ?ys \<subseteq> set (concat xss)" "distinct ?ys" using i dx concat_split [OF i] by auto
  have N: "NULL \<notin> set xs" using dls_not_NULL [OF ch] .
  have t: "?t \<in> set xs" "?t \<noteq> NULL" using N last_in_set [OF d(2)] by metis+
  have hn: "sl_head ?sl = NULL \<longleftrightarrow> ?ys = []" "sl_head ?sl \<noteq> NULL \<Longrightarrow> sl_head ?sl \<in> set ?ys"
    using h(1) dls_hd [OF h(3)] by (auto simp: hd_or_def)
  define st1 where "st1 = (if sl_head ?sl = NULL then st else upd_packet (sl_head ?sl) (\<lambda>pk. pk \<lparr> pk_previous := ?t \<rparr>) st)"
  define st2 where "st2 = upd_packet ?t (\<lambda>pk. pk \<lparr> pk_next := sl_head ?sl \<rparr>) st1"
  define sl where "sl = (if sl_head ?sl = NULL then ?sl \<lparr> sl_tail := ?t, sl_head := hd xs \<rparr> else ?sl \<lparr> sl_head := hd xs \<rparr>)"
  have dis: "set xs \<inter> set ?ys = {}" using fr ys(1) by auto
  have "dls st1 NULL xs b = dls st NULL xs b"
    using hn(2) dis by (intro dls_frame) (auto simp: st1_def upd_packet_def)
  moreover have lt: "?t = last_or xs NULL" using d(2) by (simp add: last_or_def)
  ultimately have c2: "dls st2 NULL xs (sl_head ?sl)" unfolding st2_def using ch t d(1) by (intro dls_set_next) auto
  have "dls st1 ?t ?ys NULL"
    using dls_set_previous [OF h(3) h(1) _ ys(2), of ?t] hn(1) by (auto simp: st1_def)
  then have "dls st2 ?t ?ys NULL" using t(1) dis by (subst dls_frame [of _ _ st1]) (auto simp: st2_def upd_packet_def)
  with c2 have dl: "dls st2 NULL (xs @ ?ys) NULL" using h(1) lt d(2) by (simp add: dls_append)
  have "nls st2 xs (sl_head ?sl)" using dls_nls [OF c2] .
  from reindex_spec [OF this d(1) N n(1)] obtain st3 where r: "reindex n (hd_or xs (sl_head ?sl)) st2 = Some st3"
    "\<And>x. st3 x = (if x \<in> set xs then (st2 x) \<lparr> sublistIndex := 0 \<rparr> else st2 x)" by auto
  have hx: "hd_or xs (sl_head ?sl) = hd xs" using d(2) by (cases xs) auto
  let ?pl = "\<lparr> sublists = (sublists pl)[0 := sl], pl_count = uadd (pl_count pl) n \<rparr>"
  have run: "pl_pushList (hd xs) ?t n (pl, st) = Some (?pl, st3)"
    using t(2) r(1) [unfolded hx] by (cases "sl_head ?sl = NULL") (simp_all add: pl_pushList_def Let_def st1_def st2_def sl_def)
  have "dls st3 NULL (xs @ ?ys) NULL" using dl by (subst dls_frame [of _ _ st2]) (auto simp: r(2))
  moreover have "\<forall>x \<in> set (xs @ ?ys). sublistIndex (st3 x) = 0"
    using h(4) by (auto simp: r(2) st2_def st1_def upd_packet_def)
  ultimately have ok3: "sublist_ok st3 sl 0 (xs @ ?ys)"
    using hn(1) h(1,2) d(2) by (auto simp: sublist_ok_def sl_def hd_or_def last_or_def)
  have len: "length (concat (xss[0 := xs @ ?ys])) = length (concat xss) + n"
    using concat_split [OF i] n(1) by (simp add: concat_update [OF i])
  have c: "uadd (pl_count pl) n = length (concat xss) + n" using inv n(2) by (simp add: pl_inv_def uadd_exact)
  have fr3: "st3 x = st x" if "x \<notin> set xs" "x \<notin> set ?ys" for x
    using that t(1) hn(2) by (auto simp: r(2) st2_def st1_def upd_packet_def)
  have "distinct (concat (xss[0 := xs @ ?ys]))"
    using dx d(1) fr concat_split [OF i] by (auto simp: concat_update [OF i])
  then have "pl_inv (?pl, st3) (xss[0 := xs @ ?ys])"
    unfolding c using n(2) fr3 by (intro pl_inv_update [OF inv i ok3]) (auto simp: len)
  moreover have "pk_data (st3 x) = pk_data (st x)" for x by (simp add: r(2) st2_def st1_def upd_packet_data)
  ultimately show ?thesis using run fr3 ys(1) by (intro exI [of _ ?pl]) blast
qed

lemma pl_set_pushList:
  assumes "pl_set pl st S" "dls st NULL xs b" "distinct xs" "xs \<noteq> []" "set xs \<inter> S = {}" "n = length xs" "card S + n < UMAX"
  shows "\<exists>pl' st'. pl_pushList (hd xs) (last xs) n (pl, st) = Some (pl', st') \<and> pl_set pl' st' (set xs \<union> S) \<and>
    (\<forall>x. x \<notin> set xs \<union> S \<longrightarrow> st' x = st x) \<and> (\<forall>x. pk_data (st' x) = pk_data (st x))"
proof -
  obtain xss where x: "pl_inv (pl, st) xss" "set (concat xss) = S" using assms(1) by (auto simp: pl_set_def)
  have d: "distinct (concat xss)" "0 < length xss" using x(1) by (auto simp: pl_inv_def)
  have l: "length (concat xss) + n < UMAX" "set xs \<inter> set (concat xss) = {}"
    using assms(5,7) x(2) distinct_card [OF d(1)] by simp_all
  have "set (concat (xss[0 := xs @ xss ! 0])) = set xs \<union> S"
    using concat_split [OF d(2)] x(2) by (auto simp: concat_update [OF d(2)])
  with pl_pushList_spec [OF x(1) assms(2,3,4) l(2) assms(6) l(1)] show ?thesis
    unfolding pl_set_def x(2) by (metis (no_types))
qed

end
