(* ===== verification/Work_Pool.thy ===== *)
theory Work_Pool
  imports Packet_Set
begin

text \<open>
  The invariant of the pool of work packets and the behaviour of its operations on it.

  Every packet is in exactly one of the six lists or held by a thread; the packets of a list are
  as full as the list says; the counts are right.  No operation loses or duplicates a packet or
  an element: what leaves the packets is stored by the overflow handler.
\<close>

section \<open>The invariant\<close>

definition in_class :: "packetListKind \<Rightarrow> Packet \<Rightarrow> bool" where
  "in_class k pk \<longleftrightarrow>
     (if k = deferredPacketList then freeSlots pk \<noteq> 0
      else if k = deferredFullPacketList then freeSlots pk = 0
      else packet_class (freeSlots pk) = k)"

definition block_headers :: "addr \<Rightarrow> nat \<Rightarrow> addr list" where
  "block_headers b n = map (\<lambda>i. b + sizeof_Packet * i) [0..<n]"

definition block_ok :: "nat \<Rightarrow> addr set \<Rightarrow> addr \<Rightarrow> bool" where
  "block_ok n A b \<longleftrightarrow> 8 dvd b \<and> b + (sizeof_Packet + packetSize) * n < UMAX \<and> set (block_headers b n) \<inter> A = {}"

text \<open>What is relied on of the forge: a block is aligned and apart from all packets there are.\<close>

fun forge_ok :: "nat \<Rightarrow> addr set \<Rightarrow> addr list \<Rightarrow> bool" where
  "forge_ok n A [] = True"
| "forge_ok n A (b # bs) = (if b = NULL then forge_ok n A bs else block_ok n A b \<and> forge_ok n (A \<union> set (block_headers b n)) bs)"

definition blocks_ok :: "addr set \<Rightarrow> 'o WorkPackets \<Rightarrow> bool" where
  "blocks_ok A wp \<longleftrightarrow> 0 < packetsPerBlock wp \<and> activePackets wp = packetsBlocksTop wp * packetsPerBlock wp \<and>
     maxPackets wp \<le> maxPacketsBlocks * packetsPerBlock wp \<and> maxPacketsBlocks * packetsPerBlock wp < UMAX \<and>
     activePackets wp \<le> maxPacketsBlocks * packetsPerBlock wp \<and>
     length (packetsStart wp) = maxPacketsBlocks \<and> card A = activePackets wp \<and> forge_ok (packetsPerBlock wp) A (wp_forge wp)"

definition all_packets :: "(packetListKind \<Rightarrow> addr set) \<Rightarrow> addr set \<Rightarrow> addr set" where
  "all_packets K H = H \<union> (\<Union>k. K k)"

text \<open>\<open>K\<close>: the packets of each list; \<open>H\<close>: the packets held by threads.\<close>

definition wp_inv :: "(packetListKind \<Rightarrow> addr set) \<Rightarrow> addr set \<Rightarrow> 'o WorkPackets \<Rightarrow> bool" where
  "wp_inv K H wp \<longleftrightarrow> (\<forall>k. pl_set (wp_lists wp k) (wp_store wp) (K k)) \<and>
     (\<forall>k l. k \<noteq> l \<longrightarrow> K k \<inter> K l = {}) \<and> (\<forall>k. K k \<inter> H = {}) \<and> NULL \<notin> H \<and> finite H \<and>
     (\<forall>k. \<forall>p \<in> K k. in_class k (wp_store wp p)) \<and> (\<forall>p \<in> all_packets K H. pk_wf (wp_store wp p)) \<and>
     blocks_ok (all_packets K H) wp"

definition wp_ok :: "addr set \<Rightarrow> addr set \<Rightarrow> 'o WorkPackets \<Rightarrow> bool" where
  "wp_ok A H wp \<longleftrightarrow> (\<exists>K. wp_inv K H wp \<and> A = all_packets K H)"

text \<open>A move: links, owners and notifications change, nothing else.\<close>

definition moved :: "'o WorkPackets \<Rightarrow> 'o WorkPackets \<Rightarrow> bool" where
  "moved wp wp' \<longleftrightarrow> (\<forall>x. pk_data (wp_store wp' x) = pk_data (wp_store wp x)) \<and>
     wp' = wp \<lparr> wp_store := wp_store wp', wp_lists := wp_lists wp', wp_notified := wp_notified wp' \<rparr>"

lemma moved_refl [simp]: "moved wp wp"
  by (simp add: moved_def)

lemma moved_trans [trans]: "moved wp wp1 \<Longrightarrow> moved wp1 wp2 \<Longrightarrow> moved wp wp2"
  by (cases wp, cases wp1, cases wp2) (simp add: moved_def)

lemma moved_fields:
  assumes "moved wp wp'"
  shows "blocks_ok A wp' = blocks_ok A wp" "activePackets wp' = activePackets wp" "overflowState wp' = overflowState wp"
    "inputListWaitCount wp' = inputListWaitCount wp" "inputListDoneIndex wp' = inputListDoneIndex wp"
    "pk_wf (wp_store wp' p) = pk_wf (wp_store wp p)" "pk_elems (wp_store wp' p) = pk_elems (wp_store wp p)"
    "freeSlots (wp_store wp' p) = freeSlots (wp_store wp p)" "in_class k (wp_store wp' p) = in_class k (wp_store wp p)"
proof -
  have d: "pk_data (wp_store wp' p) = pk_data (wp_store wp p)" using assms by (simp add: moved_def)
  show "pk_wf (wp_store wp' p) = pk_wf (wp_store wp p)" "pk_elems (wp_store wp' p) = pk_elems (wp_store wp p)"
    "freeSlots (wp_store wp' p) = freeSlots (wp_store wp p)" "in_class k (wp_store wp' p) = in_class k (wp_store wp p)"
    using pk_data_eqD [OF d] by (simp_all add: in_class_def)
  have e: "wp' = wp \<lparr> wp_store := wp_store wp', wp_lists := wp_lists wp', wp_notified := wp_notified wp' \<rparr>"
    using assms by (simp add: moved_def)
  show "blocks_ok A wp' = blocks_ok A wp" "activePackets wp' = activePackets wp" "overflowState wp' = overflowState wp"
    "inputListWaitCount wp' = inputListWaitCount wp" "inputListDoneIndex wp' = inputListDoneIndex wp"
    by (subst e, simp add: blocks_ok_def)+
qed

lemma all_packets_move:
  "p \<in> K k \<Longrightarrow> all_packets (K(k := K k - {p})) (insert p H) = all_packets K H"
  "p \<in> H \<Longrightarrow> all_packets (K(k := insert p (K k))) (H - {p}) = all_packets K H"
  by (auto simp: all_packets_def split: if_splits)

lemma wp_inv_card:
  assumes inv: "wp_inv K H wp"
  shows "finite (all_packets K H)" "card (all_packets K H) = activePackets wp" "activePackets wp < UMAX"
    "p \<in> H \<Longrightarrow> Suc (card (K k)) < UMAX"
proof -
  show c: "card (all_packets K H) = activePackets wp" and m: "activePackets wp < UMAX"
    using assms by (auto simp: wp_inv_def blocks_ok_def)
  have "\<And>k. finite (K k)" "finite H" using inv pl_set_facts(1) unfolding wp_inv_def by blast+
  then show f: "finite (all_packets K H)" by (simp add: all_packets_def)
  assume "p \<in> H"
  then have s: "insert p (K k) \<subseteq> all_packets K H" "p \<notin> K k" using inv by (auto simp: wp_inv_def all_packets_def)
  then have "finite (K k)" using finite_subset [OF s(1) f] by simp
  then have "Suc (card (K k)) = card (insert p (K k))" using s(2) by simp
  also have "\<dots> \<le> activePackets wp" using card_mono [OF f s(1)] c by simp
  finally show "Suc (card (K k)) < UMAX" using m by linarith
qed

text \<open>The invariant after a move, from what the move changes.\<close>

lemma wp_inv_move:
  assumes inv: "wp_inv K H wp" and m: "moved wp wp'" and a: "all_packets K' H' = all_packets K H"
    and "\<And>k. pl_set (wp_lists wp' k) (wp_store wp') (K' k)" "\<And>k l. k \<noteq> l \<Longrightarrow> K' k \<inter> K' l = {}" "\<And>k. K' k \<inter> H' = {}"
    and "NULL \<notin> H'" "finite H'" "\<And>k p. p \<in> K' k \<Longrightarrow> in_class k (wp_store wp p)"
  shows "wp_inv K' H' wp'"
proof -
  have "\<forall>p \<in> all_packets K' H'. pk_wf (wp_store wp' p)" "blocks_ok (all_packets K' H') wp'"
    using inv unfolding a moved_fields [OF m] wp_inv_def by blast+
  moreover have "\<forall>k. \<forall>p \<in> K' k. in_class k (wp_store wp' p)" using assms(9) by (simp add: moved_fields [OF m])
  ultimately show ?thesis using assms(4-8) unfolding wp_inv_def by blast
qed

lemma disjoint_move:
  assumes "\<And>l l'. l \<noteq> l' \<Longrightarrow> K l \<inter> K l' = {}" "\<And>l. K l \<inter> H = {}"
  shows "p \<in> K k \<Longrightarrow> l \<noteq> l' \<Longrightarrow> (K(k := K k - {p})) l \<inter> (K(k := K k - {p})) l' = {}"
    "p \<in> K k \<Longrightarrow> (K(k := K k - {p})) l \<inter> insert p H = {}"
    "p \<in> H \<Longrightarrow> l \<noteq> l' \<Longrightarrow> (K(k := insert p (K k))) l \<inter> (K(k := insert p (K k))) l' = {}"
    "p \<in> H \<Longrightarrow> (K(k := insert p (K k))) l \<inter> (H - {p}) = {}"
proof -
  have "x \<in> K l \<Longrightarrow> x \<in> K l' \<Longrightarrow> l = l'" "x \<in> K l \<Longrightarrow> x \<notin> H" for x l l' using assms by blast+
  then show "p \<in> K k \<Longrightarrow> l \<noteq> l' \<Longrightarrow> (K(k := K k - {p})) l \<inter> (K(k := K k - {p})) l' = {}"
    "p \<in> K k \<Longrightarrow> (K(k := K k - {p})) l \<inter> insert p H = {}"
    "p \<in> H \<Longrightarrow> l \<noteq> l' \<Longrightarrow> (K(k := insert p (K k))) l \<inter> (K(k := insert p (K k))) l' = {}"
    "p \<in> H \<Longrightarrow> (K(k := insert p (K k))) l \<inter> (H - {p}) = {}"
    by (auto split: if_splits)
qed

section \<open>Getting and putting\<close>

lemma getPacket_cases:
  assumes inv: "wp_inv K H wp"
  obtains (none) "K k = {}" "getPacket env k wp = (NULL, wp)"
    | (packet) p wp' where "getPacket env k wp = (p, wp')" "p \<in> K k" "p \<noteq> NULL" "moved wp wp'"
      "wp_inv (K(k := K k - {p})) (insert p H) wp'"
proof -
  have s: "pl_set (wp_lists wp l) (wp_store wp) (K l)" "l \<noteq> l' \<Longrightarrow> K l \<inter> K l' = {}" "K l \<inter> H = {}" for l l'
    using inv by (auto simp: wp_inv_def)
  from s(1) [of k] show thesis
  proof (cases rule: pl_set_pop [where env = env])
    case none
    then show thesis using that(1) by (simp add: getPacket_def)
  next
    case (packet p pl' st')
    let ?st = "upd_packet p (setOwner (env_address env)) st'"
    let ?wp = "wp \<lparr> wp_lists := (wp_lists wp)(k := pl'), wp_store := ?st \<rparr>"
    have run: "getPacket env k wp = (p, ?wp)" using packet(1,3) by (simp add: getPacket_def)
    have m: "moved wp ?wp" using packet(6) by (simp add: moved_def upd_packet_data)
    have "pl_set (wp_lists ?wp l) ?st ((K(k := K k - {p})) l)" for l
    proof (cases "l = k")
      case True
      have "pl_set pl' ?st (K k - {p})" using packet(4) by (rule pl_set_frame) (auto simp: upd_packet_def)
      with True show ?thesis by simp
    next
      case False
      have "pl_set (wp_lists wp l) ?st (K l)"
      proof (rule pl_set_frame [OF s(1)])
        fix x assume "x \<in> K l"
        then have "x \<notin> K k" "x \<noteq> p" using s(2) [OF False] packet(2) by auto
        then show "pk_next (?st x) = pk_next (wp_store wp x) \<and> pk_previous (?st x) = pk_previous (wp_store wp x) \<and>
            sublistIndex (?st x) = sublistIndex (wp_store wp x)" using packet(5) by simp
      qed
      with False show ?thesis by simp
    qed
    moreover have "finite H" "NULL \<notin> H" "\<And>l q. q \<in> K l \<Longrightarrow> in_class l (wp_store wp q)" using inv by (auto simp: wp_inv_def)
    moreover have "\<And>l l'. l \<noteq> l' \<Longrightarrow> (K(k := K k - {p})) l \<inter> (K(k := K k - {p})) l' = {}"
      "\<And>l. (K(k := K k - {p})) l \<inter> insert p H = {}"
      by (rule disjoint_move(1,2) [of K H]; use s(2,3) packet(2) in blast)+
    ultimately have "wp_inv (K(k := K k - {p})) (insert p H) ?wp"
      using packet(3)
      by (intro wp_inv_move [OF inv m all_packets_move(1) [of p K k, OF packet(2)]]) (simp_all split: if_splits)
    then show thesis using that(2) [OF run packet(2,3) m] by blast
  qed
qed

lemma push_on_spec:
  fixes env :: Environment
  assumes inv: "wp_inv K H wp" and p: "p \<in> H" and c: "in_class k (wp_store wp p)"
    and f: "\<And>pk. pk_data (f pk) = pk_data pk"
      "\<And>pk. pk_next (f pk) = pk_next pk \<and> pk_previous (f pk) = pk_previous pk \<and> sublistIndex (f pk) = sublistIndex pk"
  defines "wp' \<equiv> push_on env k p (wp \<lparr> wp_store := upd_packet p f (wp_store wp) \<rparr>)"
  shows "moved wp wp'" "wp_inv (K(k := insert p (K k))) (H - {p}) wp'" "wp_notified wp' = wp_notified wp"
proof -
  have s: "pl_set (wp_lists wp l) (wp_store wp) (K l)" "l \<noteq> l' \<Longrightarrow> K l \<inter> K l' = {}" "K l \<inter> H = {}" for l l'
    using inv by (auto simp: wp_inv_def)
  let ?st = "upd_packet p f (wp_store wp)"
  have pn: "p \<noteq> NULL" "p \<notin> K l" for l using inv p s(3) [of l] by (auto simp: wp_inv_def)
  have sf: "pl_set (wp_lists wp l) ?st (K l)" for l
    by (rule pl_set_frame [OF s(1)]) (simp add: upd_packet_def f(2))
  obtain pl' st' where r: "pl_push env p (wp_lists wp k, ?st) = (pl', st')" "pl_set pl' st' (insert p (K k))"
    "\<And>x. x \<notin> insert p (K k) \<Longrightarrow> st' x = ?st x" "\<And>x. pk_data (st' x) = pk_data (?st x)"
    using pl_set_push [OF sf pn wp_inv_card(4) [OF inv p], where env = env] by metis
  have w: "wp' = wp \<lparr> wp_lists := (wp_lists wp)(k := pl'), wp_store := st' \<rparr>"
    by (simp add: wp'_def push_on_def r(1))
  then show "wp_notified wp' = wp_notified wp" by simp
  show m: "moved wp wp'" using r(4) by (simp add: w moved_def upd_packet_data f(1))
  have "pl_set (wp_lists wp' l) (wp_store wp') ((K(k := insert p (K k))) l)" for l
  proof (cases "l = k")
    case True
    with r(2) show ?thesis by (simp add: w)
  next
    case False
    have "pl_set (wp_lists wp l) st' (K l)"
    proof (rule pl_set_frame [OF sf])
      fix x assume "x \<in> K l"
      then have "x \<notin> insert p (K k)" using s(2) [OF False] pn(2) [of l] by auto
      then show "pk_next (st' x) = pk_next (?st x) \<and> pk_previous (st' x) = pk_previous (?st x) \<and>
          sublistIndex (st' x) = sublistIndex (?st x)" using r(3) by simp
    qed
    with False show ?thesis by (simp add: w)
  qed
  moreover have "finite H" "NULL \<notin> H" "\<And>l q. q \<in> K l \<Longrightarrow> in_class l (wp_store wp q)" using inv by (auto simp: wp_inv_def)
  moreover have "\<And>l l'. l \<noteq> l' \<Longrightarrow> (K(k := insert p (K k))) l \<inter> (K(k := insert p (K k))) l' = {}"
    "\<And>l. (K(k := insert p (K k))) l \<inter> (H - {p}) = {}"
    by (rule disjoint_move(3,4) [of K H]; use s(2,3) p in blast)+
  ultimately show "wp_inv (K(k := insert p (K k))) (H - {p}) wp'"
    using c
    by (intro wp_inv_move [OF inv m all_packets_move(2) [of p H K k, OF p]]) (simp_all, auto split: if_splits)
qed

lemma wp_inv_notified [simp]: "wp_inv K H (wp \<lparr> wp_notified := n \<rparr>) = wp_inv K H wp"
  by (simp add: wp_inv_def blocks_ok_def)

lemma notifyWaitingThreads_spec: "moved wp (notifyWaitingThreads wp)" "wp_inv K H (notifyWaitingThreads wp) = wp_inv K H wp"
  by (simp_all add: notifyWaitingThreads_def moved_def)

lemma putPacket_spec:
  assumes inv: "wp_inv K H wp" and p: "p \<in> H"
  defines "k \<equiv> packet_class (freeSlots (wp_store wp p))"
  shows "moved wp (putPacket env p wp)" "wp_inv (K(k := insert p (K k))) (H - {p}) (putPacket env p wp)"
    "wp_notified (putPacket env p wp) = wp_notified wp +
       (if k \<noteq> emptyPacketList \<and> K k = {} \<and> 0 < inputListWaitCount wp then 1 else 0)"
proof -
  let ?f = "if k = emptyPacketList then clearOwner else resetOwner"
  let ?wp = "push_on env k p (wp \<lparr> wp_store := upd_packet p ?f (wp_store wp) \<rparr>)"
  have "in_class k (wp_store wp p)" by (auto simp: in_class_def k_def packet_class_def split: if_splits)
  moreover have "pk_data (?f pk) = pk_data pk"
    "pk_next (?f pk) = pk_next pk \<and> pk_previous (?f pk) = pk_previous pk \<and> sublistIndex (?f pk) = sublistIndex pk" for pk
    by (simp_all add: pk_data_def clearOwner_def resetOwner_def)
  ultimately have s: "moved wp ?wp" "wp_inv (K(k := insert p (K k))) (H - {p}) ?wp" "wp_notified ?wp = wp_notified wp"
    by (rule push_on_spec [OF inv p])+
  have e: "pl_isEmpty (wp_lists wp k) \<longleftrightarrow> K k = {}" using inv pl_set_isEmpty by (auto simp: wp_inv_def)
  define c where "c \<longleftrightarrow> k \<noteq> emptyPacketList \<and> K k = {} \<and> 0 < inputListWaitCount wp"
  have run: "putPacket env p wp = (if c then notifyWaitingThreads ?wp else ?wp)"
    unfolding putPacket_def k_def [symmetric] Let_def e by (simp add: moved_fields(4) [OF s(1)] c_def)
  show "moved wp (putPacket env p wp)"
    using s(1) moved_trans [OF s(1) notifyWaitingThreads_spec(1)] by (simp only: run split: if_split) simp
  show "wp_inv (K(k := insert p (K k))) (H - {p}) (putPacket env p wp)"
    using s(2) by (simp only: run notifyWaitingThreads_spec(2) split: if_split) simp
  have "wp_notified (notifyWaitingThreads ?wp) = wp_notified ?wp + (if 0 < inputListWaitCount wp then 1 else 0)"
    using moved_fields(4) [OF s(1)] by (simp add: notifyWaitingThreads_def)
  then have "wp_notified (putPacket env p wp) = wp_notified wp + (if c then 1 else 0)"
    unfolding run s(3) using c_def s(3) by (cases c) simp_all
  then show "wp_notified (putPacket env p wp) = wp_notified wp +
      (if k \<noteq> emptyPacketList \<and> K k = {} \<and> 0 < inputListWaitCount wp then 1 else 0)"
    by (simp only: c_def)
qed

lemma putDeferredPacket_spec:
  assumes inv: "wp_inv K H wp" and p: "p \<in> H"
  defines "k \<equiv> if freeSlots (wp_store wp p) = 0 then deferredFullPacketList else deferredPacketList"
  shows "moved wp (putDeferredPacket env p wp)" "wp_inv (K(k := insert p (K k))) (H - {p}) (putDeferredPacket env p wp)"
proof -
  have "in_class k (wp_store wp p)" by (simp add: in_class_def k_def)
  then show "moved wp (putDeferredPacket env p wp)" "wp_inv (K(k := insert p (K k))) (H - {p}) (putDeferredPacket env p wp)"
    using push_on_spec(1,2) [OF inv p, of k resetOwner env]
    by (simp_all add: putDeferredPacket_def k_def [symmetric] Let_def resetOwner_def pk_data_def)
qed

section \<open>Packets held, abstractly\<close>

lemma wp_okD:
  assumes "wp_ok A H wp"
  shows "H \<subseteq> A" "finite A" "NULL \<notin> A" "\<And>p. p \<in> A \<Longrightarrow> pk_wf (wp_store wp p)" "card A = activePackets wp"
proof -
  obtain K where K: "wp_inv K H wp" "A = all_packets K H" using assms by (auto simp: wp_ok_def)
  then show "H \<subseteq> A" "finite A" "card A = activePackets wp" using wp_inv_card [OF K(1)] by (auto simp: all_packets_def)
  show "NULL \<notin> A" "\<And>p. p \<in> A \<Longrightarrow> pk_wf (wp_store wp p)"
    using K pl_set_facts(4) unfolding wp_inv_def all_packets_def by blast+
qed

lemma getPacket_ok:
  assumes "wp_ok A H wp" "getPacket env k wp = (p, wp')"
  shows "moved wp wp'" "p = NULL \<Longrightarrow> wp' = wp \<and> pl_isEmpty (wp_lists wp k)"
    "p \<noteq> NULL \<Longrightarrow> p \<in> A - H \<and> wp_ok A (insert p H) wp' \<and> in_class k (wp_store wp' p)"
proof -
  obtain K where K: "wp_inv K H wp" "A = all_packets K H" using assms(1) by (auto simp: wp_ok_def)
  have e: "pl_isEmpty (wp_lists wp k) \<longleftrightarrow> K k = {}" using K(1) pl_set_isEmpty by (auto simp: wp_inv_def)
  show "moved wp wp'" "p = NULL \<Longrightarrow> wp' = wp \<and> pl_isEmpty (wp_lists wp k)"
    "p \<noteq> NULL \<Longrightarrow> p \<in> A - H \<and> wp_ok A (insert p H) wp' \<and> in_class k (wp_store wp' p)"
  proof (atomize (full), cases rule: getPacket_cases [OF K(1), of k env, case_names none packet])
    case none
    then show "moved wp wp' \<and> (p = NULL \<longrightarrow> wp' = wp \<and> pl_isEmpty (wp_lists wp k)) \<and>
        (p \<noteq> NULL \<longrightarrow> p \<in> A - H \<and> wp_ok A (insert p H) wp' \<and> in_class k (wp_store wp' p))"
      using assms(2) e by simp
  next
    case (packet q wq)
    then have q: "q = p" "wq = wp'" using assms(2) by auto
    have "in_class k (wp_store wp p)" "p \<in> A - H" using K packet(2) q(1) by (auto simp: wp_inv_def all_packets_def)
    moreover have "wp_ok A (insert p H) wp'"
      unfolding wp_ok_def using packet(5) all_packets_move(1) [of p K k H] packet(2) K(2) q by auto
    ultimately show "moved wp wp' \<and> (p = NULL \<longrightarrow> wp' = wp \<and> pl_isEmpty (wp_lists wp k)) \<and>
        (p \<noteq> NULL \<longrightarrow> p \<in> A - H \<and> wp_ok A (insert p H) wp' \<and> in_class k (wp_store wp' p))"
      using packet(3,4) moved_fields(9) [of wp wp' k p] q by simp
  qed
qed

lemma putPacket_ok:
  assumes "wp_ok A H wp" "p \<in> H"
  shows "moved wp (putPacket env p wp)" "wp_ok A (H - {p}) (putPacket env p wp)"
proof -
  obtain K where K: "wp_inv K H wp" "A = all_packets K H" using assms(1) by (auto simp: wp_ok_def)
  show "moved wp (putPacket env p wp)" "wp_ok A (H - {p}) (putPacket env p wp)"
    using putPacket_spec(1,2) [OF K(1) assms(2), of env] all_packets_move(2) [OF assms(2), of K] K(2) by (auto simp: wp_ok_def)
qed

lemma putDeferredPacket_ok:
  assumes "wp_ok A H wp" "p \<in> H"
  shows "moved wp (putDeferredPacket env p wp)" "wp_ok A (H - {p}) (putDeferredPacket env p wp)"
proof -
  obtain K where K: "wp_inv K H wp" "A = all_packets K H" using assms(1) by (auto simp: wp_ok_def)
  show "moved wp (putDeferredPacket env p wp)" "wp_ok A (H - {p}) (putDeferredPacket env p wp)"
    using putDeferredPacket_spec(1,2) [OF K(1) assms(2), of env] all_packets_move(2) [OF assms(2), of K] K(2) by (auto simp: wp_ok_def)
qed

end
