(* ===== verification/Work_Output.thy ===== *)
theory Work_Output
  imports Work_Pool
begin

text \<open>
  The operations of the pool that search, allocate and overflow, on the pool's invariant: what
  \<open>getLeastFullPacket\<close> selects, that a new block keeps the invariant, and that \<open>getOutputPacket\<close>
  returns a packet with room for two elements whenever the pool can provide one.
\<close>

section \<open>Searching the lists\<close>

lemma getPacket_from_ok:
  assumes "wp_ok A H wp" "getPacket_from env ks wp = (p, wp')"
  shows "moved wp wp' \<and> (p = NULL \<longrightarrow> wp' = wp \<and> (\<forall>k \<in> set ks. pl_isEmpty (wp_lists wp k))) \<and>
    (p \<noteq> NULL \<longrightarrow> p \<in> A - H \<and> wp_ok A (insert p H) wp' \<and> (\<exists>k \<in> set ks. in_class k (wp_store wp' p)))"
  using assms
proof (induction ks arbitrary: wp)
  case (Cons k ks)
  obtain q wq where g: "getPacket env k wp = (q, wq)" by fastforce
  note ok = getPacket_ok [OF Cons.prems(1) g]
  show ?case
  proof (cases "q = NULL")
    case True
    then show ?thesis using Cons.IH [of wp] Cons.prems g ok(2) by auto
  next
    case False
    then show ?thesis using Cons.prems(2) g ok(1,3) by auto
  qed
qed simp

declare getPacket_from.simps [simp del]

text \<open>The packets taken so far are held; the selected one has the largest capacity of them.\<close>

definition search_inv :: "nat \<Rightarrow> addr list \<Rightarrow> int \<Rightarrow> nat option \<Rightarrow> 'o WorkPackets \<Rightarrow> bool" where
  "search_inv required temps maxCapacity selected wp \<longleftrightarrow>
     (case selected of None \<Rightarrow> maxCapacity = int required - 1
      | Some i \<Rightarrow> i < length temps \<and> int required \<le> maxCapacity \<and> maxCapacity = int (freeSlots (wp_store wp (temps ! i)))) \<and>
     (\<forall>t \<in> set temps. int (freeSlots (wp_store wp t)) \<le> maxCapacity)"

lemma search_inv_moved: "moved wp wp' \<Longrightarrow> search_inv r temps m selected wp' = search_inv r temps m selected wp"
  by (simp add: search_inv_def moved_fields split: option.split)

lemma search_inv_step:
  assumes "search_inv r temps m selected wp"
  shows "int (freeSlots (wp_store wp p)) \<le> m \<Longrightarrow> search_inv r (temps @ [p]) m selected wp"
    "m < int (freeSlots (wp_store wp p)) \<Longrightarrow>
      search_inv r (temps @ [p]) (int (freeSlots (wp_store wp p))) (Some (length temps)) wp"
  using assms by (auto simp: search_inv_def nth_append split: option.splits)

lemma leastFull_loop_spec:
  assumes "wp_ok A (H \<union> set temps) wp" "distinct temps" "set temps \<inter> H = {}" "search_inv r temps m selected wp"
    and "leastFull_loop n env satisfactory temps m selected wp = (temps', selected', wp')"
  shows "moved wp wp' \<and> wp_ok A (H \<union> set temps') wp' \<and> distinct temps' \<and> set temps' \<inter> H = {} \<and>
    (\<exists>m'. search_inv r temps' m' selected' wp')"
  using assms
proof (induction n arbitrary: temps m selected wp)
  case 0
  then show ?case by auto
next
  case (Suc n)
  obtain p wq where g: "getPacket_from env [nonEmptyPacketList, relativelyFullPacketList] wp = (p, wq)" by fastforce
  note ok = getPacket_from_ok [OF Suc.prems(1) g]
  show ?case
  proof (cases "p = NULL")
    case True
    then show ?thesis using Suc.prems g ok by auto
  next
    case False
    let ?c = "int (freeSlots (wp_store wq p))" and ?ts = "temps @ [p]"
    have m1: "moved wp wq" and p: "p \<in> A - (H \<union> set temps)" and w1: "wp_ok A (H \<union> set ?ts) wq" using ok False by auto
    have d: "distinct ?ts" "set ?ts \<inter> H = {}" using p Suc.prems(2,3) by auto
    have s: "search_inv r temps m selected wq" using search_inv_moved [OF m1] Suc.prems(4) by simp
    note s1 = search_inv_step [OF s, of p]
    note IH = Suc.IH [OF w1 d]
    consider "m < ?c" "int satisfactory \<le> ?c" | "m < ?c" "\<not> int satisfactory \<le> ?c"
      | "\<not> m < ?c" "int fullPacketThreshold \<le> m \<and> ?c < int fullPacketThreshold"
      | "\<not> m < ?c" "\<not> (int fullPacketThreshold \<le> m \<and> ?c < int fullPacketThreshold)" by blast
    then show ?thesis
    proof cases
      case 1
      then show ?thesis using Suc.prems(5) g False m1 w1 d s1(2) by auto
    next
      case 2
      then have "leastFull_loop n env satisfactory ?ts ?c (Some (length temps)) wq = (temps', selected', wp')"
        using Suc.prems(5) g False by simp
      then show ?thesis using IH [OF s1(2)] 2(1) moved_trans [OF m1] by blast
    next
      case 3
      then show ?thesis using Suc.prems(5) g False m1 w1 d s1(1) by auto
    next
      case 4
      then have "leastFull_loop n env satisfactory ?ts m selected wq = (temps', selected', wp')"
        using Suc.prems(5) g False by (auto split: if_splits)
      then show ?thesis using IH [OF s1(1)] 4(1) moved_trans [OF m1] by (meson not_less)
    qed
  qed
qed

lemma put_back_spec:
  assumes "wp_ok A (H \<union> (!) temps ` ({..<j} \<union> set_option selected)) wp" "distinct temps" "set temps \<inter> H = {}"
    "j \<le> length temps" "set_option selected \<subseteq> {..<length temps}"
  shows "moved wp (put_back j env temps selected wp) \<and>
    wp_ok A (H \<union> (!) temps ` set_option selected) (put_back j env temps selected wp)"
  using assms
proof (induction j arbitrary: wp)
  case (Suc j)
  let ?G = "\<lambda>j. H \<union> (!) temps ` ({..<j} \<union> set_option selected)"
  have e: "?G (Suc j) = insert (temps ! j) (?G j)" by (auto simp: lessThan_Suc)
  show ?case
  proof (cases "Some j = selected")
    case True
    then have "?G (Suc j) = ?G j" by (auto simp: lessThan_Suc)
    then show ?thesis using Suc True by simp
  next
    case False
    have t: "temps ! j \<in> ?G (Suc j)" using e by blast
    have "temps ! j \<noteq> temps ! k" if "k < j \<or> selected = Some k" for k
      using that Suc.prems(2,4,5) False by (subst nth_eq_iff_index_eq) auto
    moreover have "temps ! j \<in> set temps" using Suc.prems(4) by simp
    ultimately have "temps ! j \<notin> ?G j" using Suc.prems(3) by auto
    then have "?G (Suc j) - {temps ! j} = ?G j" using e by blast
    note p = putPacket_ok [OF Suc.prems(1) t, where env = env, unfolded this]
    from Suc.IH [OF p(2) Suc.prems(2,3) _ Suc.prems(5)] Suc.prems(4)
    show ?thesis using False moved_trans [OF p(1)] by simp
  qed
qed simp

lemma getLeastFullPacket_ok:
  assumes "wp_ok A H wp" "getLeastFullPacket env r wp = (p, wp')"
  shows "moved wp wp'" "p = NULL \<Longrightarrow> wp_ok A H wp'"
    "p \<noteq> NULL \<Longrightarrow> p \<in> A - H \<and> wp_ok A (insert p H) wp' \<and> r \<le> freeSlots (wp_store wp' p)"
proof -
  obtain temps sel w1 where l: "leastFull_loop maxPacketSearch env (max satisfactoryCapacity r) [] (int r - 1) None wp = (temps, sel, w1)"
    by (metis prod_cases3)
  let ?w2 = "put_back (length temps) env temps sel w1"
  have r: "p = (case sel of None \<Rightarrow> NULL | Some i \<Rightarrow> temps ! i)" "wp' = ?w2"
    using assms(2) l by (auto simp: getLeastFullPacket_def)
  have "search_inv r [] (int r - 1) None wp" by (simp add: search_inv_def)
  with leastFull_loop_spec [OF _ _ _ _ l, of A H r] assms(1) obtain m where
    s: "moved wp w1" "wp_ok A (H \<union> set temps) w1" "distinct temps" "set temps \<inter> H = {}" "search_inv r temps m sel w1" by auto
  have i: "set_option sel \<subseteq> {..<length temps}" using s(5) by (auto simp: search_inv_def split: option.splits)
  have e: "(!) temps ` ({..<length temps} \<union> set_option sel) = set temps"
    using i by (auto simp: set_conv_nth)
  note b = put_back_spec [of A H temps "length temps" sel w1 env, unfolded e, OF s(2-4) le_refl i]
  show m: "moved wp wp'" using b moved_trans [OF s(1)] r(2) by blast
  show "p = NULL \<Longrightarrow> wp_ok A H wp'"
  proof (cases sel)
    case (Some k)
    then have "p \<in> A" using r(1) i wp_okD(1) [OF s(2)] by auto
    then show "p = NULL \<Longrightarrow> wp_ok A H wp'" using wp_okD(3) [OF assms(1)] by auto
  qed (use b r in simp)
  assume n: "p \<noteq> NULL"
  then obtain k where k: "sel = Some k" "p = temps ! k" using r(1) by (cases sel) auto
  then have p: "p \<in> set temps" using i by simp
  have "int r \<le> int (freeSlots (wp_store w1 p))" using s(5) k by (simp add: search_inv_def)
  then have "r \<le> freeSlots (wp_store wp' p)" using b r(2) moved_fields(8) [of w1 wp' p] by simp
  moreover have "p \<in> A - H" using p s(4) wp_okD(1) [OF s(2)] by auto
  ultimately show "p \<in> A - H \<and> wp_ok A (insert p H) wp' \<and> r \<le> freeSlots (wp_store wp' p)" using b r(2) k by simp
qed

section \<open>A new block of packets\<close>

lemma block_headers_simps: "block_headers b 0 = []" "block_headers b (Suc n) = b # block_headers (b + sizeof_Packet) n"
proof -
  show "block_headers b 0 = []" by (simp add: block_headers_def)
  have "[0..<Suc n] = 0 # map Suc [0..<n]" by (simp add: map_Suc_upt upt_conv_Cons)
  then show "block_headers b (Suc n) = b # block_headers (b + sizeof_Packet) n"
    by (simp add: block_headers_def algebra_simps)
qed

lemma block_headers_facts:
  "length (block_headers b n) = n" "distinct (block_headers b n)" "j < n \<Longrightarrow> block_headers b n ! j = b + sizeof_Packet * j"
  "0 < n \<Longrightarrow> hd (block_headers b n) = b \<and> last (block_headers b n) = b + sizeof_Packet * n - sizeof_Packet"
  "x \<in> set (block_headers b n) \<Longrightarrow> b \<le> x"
proof -
  show "length (block_headers b n) = n" "x \<in> set (block_headers b n) \<Longrightarrow> b \<le> x"
    "j < n \<Longrightarrow> block_headers b n ! j = b + sizeof_Packet * j" by (auto simp: block_headers_def)
  show "distinct (block_headers b n)" by (auto simp: block_headers_def distinct_map inj_on_def sizeof_Packet_def)
  assume "0 < n"
  then obtain m where m: "n = Suc m" by (cases n) auto
  show "hd (block_headers b n) = b \<and> last (block_headers b n) = b + sizeof_Packet * n - sizeof_Packet"
  proof
    show "hd (block_headers b n) = b" using block_headers_simps(2) [of b m] m by simp
    show "last (block_headers b n) = b + sizeof_Packet * n - sizeof_Packet" by (simp add: m block_headers_def)
  qed
qed

definition slots_of :: "nat \<Rightarrow> nat \<Rightarrow> nat" where
  "slots_of dataStart i = (dataStart + i * packetSize) div sizeof_UDATA"

definition fresh_packet :: "nat \<Rightarrow> Packet \<Rightarrow> bool" where
  "fresh_packet base pk \<longleftrightarrow> baseAddress pk = base \<and> basePtr pk = base \<and> topPtr pk = base + SLOTS_IN_PACKET \<and> currentPtr pk = base"

lemma zero_headers_frame: "x \<notin> set (block_headers b n) \<Longrightarrow> zero_headers n b st x = st x"
  by (induction n b st rule: zero_headers.induct) (auto simp: block_headers_simps)

lemma init_packets_spec:
  fixes st :: store
  assumes "0 < n" "0 < cur" "n = 1 \<or> nxt = cur + sizeof_Packet" "tail = cur + sizeof_Packet * (n - 1)"
  shows "(\<exists>b. dls (init_packets n i cur nxt prev tail ds st) prev (block_headers cur n) b) \<and>
    (\<forall>x. x \<notin> set (block_headers cur n) \<longrightarrow> init_packets n i cur nxt prev tail ds st x = st x) \<and>
    (\<forall>j < n. fresh_packet (slots_of ds (i + j)) (init_packets n i cur nxt prev tail ds st (cur + sizeof_Packet * j)))"
  using assms
proof (induction n arbitrary: i cur nxt prev st)
  case (Suc n)
  let ?st = "upd_packet cur (packet_initialize nxt prev (slots_of ds i) SLOTS_IN_PACKET) st"
  have pos: "0 < sizeof_Packet" by (simp add: sizeof_Packet_def)
  show ?case
  proof (cases "n = 0")
    case True
    then show ?thesis using Suc.prems(2)
      by (auto simp: block_headers_simps slots_of_def packet_initialize_def fresh_packet_def upd_packet_def Let_def)
  next
    case False
    let ?cur = "cur + sizeof_Packet"
    let ?nxt = "if ?cur = tail then NULL else ?cur + sizeof_Packet"
    let ?st' = "init_packets n (Suc i) ?cur ?nxt cur tail ds ?st"
    have run: "init_packets (Suc n) i cur nxt prev tail ds st = ?st'"
      by (simp add: slots_of_def Let_def)
    have t: "tail = ?cur + sizeof_Packet * (n - 1)" using Suc.prems(4) False by (cases n) auto
    have nx: "n = 1 \<or> ?nxt = ?cur + sizeof_Packet" using t pos False by auto
    have "0 < n" "0 < ?cur" using False Suc.prems(2) by auto
    from Suc.IH [of ?cur ?nxt "Suc i" cur ?st, OF this nx t] obtain b where
      d: "dls ?st' cur (block_headers ?cur n) b" and f: "\<And>x. x \<notin> set (block_headers ?cur n) \<Longrightarrow> ?st' x = ?st x"
      and p: "\<And>j. j < n \<Longrightarrow> fresh_packet (slots_of ds (Suc i + j)) (?st' (?cur + sizeof_Packet * j))" by auto
    have "cur \<notin> set (block_headers ?cur n)" using block_headers_facts(5) [of cur ?cur n] pos by auto
    then have c: "?st' cur = packet_initialize nxt prev (slots_of ds i) SLOTS_IN_PACKET (st cur)"
      using f [of cur] by (simp only: upd_other simp_thms)
    have "dls ?st' prev (block_headers cur (Suc n)) b"
      using d c False Suc.prems(2,3) by (cases n) (auto simp: block_headers_simps packet_initialize_def)
    moreover have "?st' x = st x" if "x \<notin> set (block_headers cur (Suc n))" for x
      using that f [of x] by (simp add: block_headers_simps)
    moreover have "fresh_packet (slots_of ds (i + j)) (?st' (cur + sizeof_Packet * j))" if "j < Suc n" for j
    proof (cases j)
      case 0
      with c show ?thesis by (simp add: fresh_packet_def packet_initialize_def)
    next
      case (Suc k)
      with p [of k] that show ?thesis by (simp add: algebra_simps)
    qed
    ultimately show ?thesis unfolding run by blast
  qed
qed simp

text \<open>
  The pool may have grown: the data of the old packets is as it was, the new packets are empty,
  and overflow and waiting threads are untouched.
\<close>

definition grown :: "addr set \<Rightarrow> 'o WorkPackets \<Rightarrow> addr set \<Rightarrow> 'o WorkPackets \<Rightarrow> bool" where
  "grown A wp A' wp' \<longleftrightarrow> A \<subseteq> A' \<and> (\<forall>p \<in> A. pk_data (wp_store wp' p) = pk_data (wp_store wp p)) \<and>
     (\<forall>p \<in> A' - A. pk_elems (wp_store wp' p) = []) \<and> overflowState wp' = overflowState wp \<and>
     inputListWaitCount wp' = inputListWaitCount wp \<and> inputListDoneIndex wp' = inputListDoneIndex wp"

lemma moved_grown: "moved wp wp' \<Longrightarrow> grown A wp A wp'"
  using moved_fields(3-5) [of wp wp'] by (auto simp: grown_def moved_def)

lemma grown_trans: "grown A wp A1 wp1 \<Longrightarrow> grown A1 wp1 A2 wp2 \<Longrightarrow> grown A wp A2 wp2"
proof -
  assume g: "grown A wp A1 wp1" "grown A1 wp1 A2 wp2"
  have "pk_elems (wp_store wp2 p) = []" if "p \<in> A2 - A" for p
  proof (cases "p \<in> A1")
    case True
    then have "pk_data (wp_store wp2 p) = pk_data (wp_store wp1 p)" using g by (simp add: grown_def)
    from pk_data_eqD(2) [OF this] True that g show ?thesis by (simp add: grown_def)
  qed (use that g in \<open>simp add: grown_def\<close>)
  with g show ?thesis unfolding grown_def by auto
qed

lemma fresh_packet_facts:
  "fresh_packet b pk \<Longrightarrow> b + SLOTS_IN_PACKET < UMAX \<Longrightarrow> pk_wf pk \<and> pk_elems pk = [] \<and> in_class emptyPacketList pk"
  by (simp add: fresh_packet_def pk_wf_def pk_elems_def in_class_def packet_class_def freeSlots_def usub_exact)

lemma slots_of_bound:
  assumes "b + (sizeof_Packet + packetSize) * n < UMAX" "j < n"
  shows "slots_of (b + sizeof_Packet * n) j + SLOTS_IN_PACKET < UMAX"
proof -
  have "j * packetSize + packetSize \<le> n * packetSize" using assms(2) mult_le_mono1 [of "Suc j" n packetSize] by simp
  then have l: "b + sizeof_Packet * n + j * packetSize + packetSize < UMAX" using assms(1) by (simp add: algebra_simps)
  have "slots_of (b + sizeof_Packet * n) j \<le> b + sizeof_Packet * n + j * packetSize" by (simp add: slots_of_def)
  moreover have "SLOTS_IN_PACKET \<le> packetSize" by (simp add: packetSize_def)
  ultimately show ?thesis using l by linarith
qed

lemma block_memory:
  fixes st :: store
  assumes "0 < n" "0 < b" "b + (sizeof_Packet + packetSize) * n < UMAX"
  defines "st' \<equiv> init_packets n 0 b (b + sizeof_Packet) NULL (b + sizeof_Packet * n - sizeof_Packet) (b + sizeof_Packet * n) (zero_headers n b st)"
  shows "\<exists>c. dls st' NULL (block_headers b n) c" "x \<notin> set (block_headers b n) \<Longrightarrow> st' x = st x"
    "x \<in> set (block_headers b n) \<Longrightarrow> pk_wf (st' x) \<and> pk_elems (st' x) = [] \<and> in_class emptyPacketList (st' x)"
proof -
  have "b + sizeof_Packet * n - sizeof_Packet = b + sizeof_Packet * (n - 1)" using assms(1) by (cases n) auto
  note i = init_packets_spec [OF assms(1,2) disjI2 [OF refl] this, of 0 NULL "b + sizeof_Packet * n" "zero_headers n b st",
      folded st'_def]
  show "\<exists>c. dls st' NULL (block_headers b n) c" "x \<notin> set (block_headers b n) \<Longrightarrow> st' x = st x"
    using i zero_headers_frame by auto
  assume "x \<in> set (block_headers b n)"
  then obtain j where "j < n" "x = b + sizeof_Packet * j" by (auto simp: block_headers_def)
  then show "pk_wf (st' x) \<and> pk_elems (st' x) = [] \<and> in_class emptyPacketList (st' x)"
    using i fresh_packet_facts slots_of_bound [OF assms(3), of j] by auto
qed

lemma initWorkPacketsBlock_run:
  assumes "activePackets wp < maxPackets wp" "packetsBlocksTop wp < maxPacketsBlocks" "wp_forge wp = b # bs" "b \<noteq> NULL"
    and "pl_pushList b (b + sizeof_Packet * packetsPerBlock wp - sizeof_Packet) (packetsPerBlock wp) (wp_lists wp emptyPacketList,
        init_packets (packetsPerBlock wp) 0 b (b + sizeof_Packet) NULL (b + sizeof_Packet * packetsPerBlock wp - sizeof_Packet)
          (b + sizeof_Packet * packetsPerBlock wp) (zero_headers (packetsPerBlock wp) b (wp_store wp))) = Some (pl, st)"
  shows "initWorkPacketsBlock wp = Some (True, wp \<lparr> wp_lists := (wp_lists wp)(emptyPacketList := pl), wp_store := st,
      packetsBlocksTop := packetsBlocksTop wp + 1, activePackets := uadd (activePackets wp) (packetsPerBlock wp),
      wp_forge := bs, packetsStart := (packetsStart wp)[packetsBlocksTop wp := b] \<rparr>)"
  using assms by (simp add: initWorkPacketsBlock_def Let_def)

lemma initWorkPacketsBlock_refuses:
  assumes "wp_ok A H wp" "maxPackets wp \<le> activePackets wp \<or> wp_forge wp = [] \<or> hd (wp_forge wp) = NULL"
  shows "\<exists>wp'. initWorkPacketsBlock wp = Some (False, wp') \<and> wp_ok A H wp' \<and> grown A wp A wp'"
proof (cases "maxPackets wp \<le> activePackets wp")
  case True
  then show ?thesis using assms(1) moved_grown [OF moved_refl] by (simp add: initWorkPacketsBlock_def)
next
  case False
  obtain K where K: "wp_inv K H wp" "A = all_packets K H" using assms(1) by (auto simp: wp_ok_def)
  have b: "blocks_ok A wp" using K by (simp add: wp_inv_def)
  then have "packetsBlocksTop wp * packetsPerBlock wp < maxPacketsBlocks * packetsPerBlock wp"
    using False unfolding blocks_ok_def by linarith
  then have t: "packetsBlocksTop wp < maxPacketsBlocks" by simp
  let ?wp = "wp \<lparr> wp_forge := tl (wp_forge wp), packetsStart := (packetsStart wp)[packetsBlocksTop wp := NULL] \<rparr>"
  have run: "initWorkPacketsBlock wp = Some (False, ?wp)"
    using False t assms(2) by (auto simp: initWorkPacketsBlock_def Let_def split: list.split)
  have "forge_ok (packetsPerBlock wp) A (tl (wp_forge wp))"
    using b assms(2) False by (cases "wp_forge wp") (auto simp: blocks_ok_def)
  then have "blocks_ok A ?wp" using b t by (simp add: blocks_ok_def)
  then have "wp_inv K H ?wp" using K by (simp add: wp_inv_def)
  then have "wp_ok A H ?wp" using K(2) by (auto simp: wp_ok_def)
  moreover have "grown A wp A ?wp" by (simp add: grown_def)
  ultimately show ?thesis using run by blast
qed

text \<open>Empty packets \<open>X\<close> joining the empty list.\<close>

lemma wp_inv_grow:
  assumes K: "wp_inv K H wp" "A = all_packets K H" and X: "X \<inter> A = {}"
    and sets: "\<And>k. pl_set (wp_lists wp' k) (wp_store wp') ((K(emptyPacketList := X \<union> K emptyPacketList)) k)"
    and data: "\<And>p. p \<in> A \<Longrightarrow> pk_data (wp_store wp' p) = pk_data (wp_store wp p)"
    and new: "\<And>p. p \<in> X \<Longrightarrow> pk_wf (wp_store wp' p) \<and> in_class emptyPacketList (wp_store wp' p)"
    and blocks: "blocks_ok (A \<union> X) wp'"
  shows "wp_ok (A \<union> X) H wp'"
proof -
  let ?K = "K(emptyPacketList := X \<union> K emptyPacketList)"
  have eA: "K k \<subseteq> A" "H \<subseteq> A" for k using K(2) by (auto simp: all_packets_def)
  have all: "all_packets ?K H = A \<union> X" by (auto simp: K(2) all_packets_def split: if_splits) metis
  have "in_class k (wp_store wp' p)" if "p \<in> ?K k" for k p
  proof (cases "p \<in> X")
    case True
    then have "k = emptyPacketList" using that X eA(1) [of k] by (auto split: if_splits)
    with new True show ?thesis by simp
  next
    case False
    then have p: "p \<in> K k" using that by (auto split: if_splits)
    then have "in_class k (wp_store wp p)" "p \<in> A" using K(1) eA by (auto simp: wp_inv_def)
    then show ?thesis using pk_data_eqD(3) [OF data] by (simp add: in_class_def)
  qed
  moreover have "pk_wf (wp_store wp' p)" if "p \<in> A \<union> X" for p
    using that new pk_data_eqD(1) [OF data] K by (auto simp: wp_inv_def)
  moreover have "?K k \<inter> ?K l = {}" if "k \<noteq> l" for k l
  proof -
    have "K k \<inter> K l = {}" "X \<inter> K k = {}" "X \<inter> K l = {}" using that K(1) X eA unfolding wp_inv_def by blast+
    then show ?thesis using that by auto
  qed
  moreover have "?K k \<inter> H = {}" "finite H" "NULL \<notin> H" for k
    using K X eA(2) unfolding wp_inv_def by auto
  ultimately have "wp_inv ?K H wp'" using sets blocks unfolding wp_inv_def all by blast
  then show ?thesis using all by (auto simp: wp_ok_def)
qed

lemma blocks_ok_step:
  assumes "blocks_ok A wp" "activePackets wp < maxPackets wp" "wp_forge wp = b # bs" "b \<noteq> NULL" "finite A"
  defines "n \<equiv> packetsPerBlock wp"
  defines "X \<equiv> set (block_headers b n)"
  shows "packetsBlocksTop wp < maxPacketsBlocks" "activePackets wp + n < UMAX" "X \<inter> A = {}" "0 < n" "X \<noteq> {}"
    "b + (sizeof_Packet + packetSize) * n < UMAX"
    "blocks_ok (A \<union> X) (wp \<lparr> wp_lists := ls, wp_store := st, packetsBlocksTop := packetsBlocksTop wp + 1,
      activePackets := uadd (activePackets wp) n, wp_forge := bs, packetsStart := (packetsStart wp)[packetsBlocksTop wp := c] \<rparr>)"
proof -
  have n: "0 < n" "activePackets wp = packetsBlocksTop wp * n" "card A = activePackets wp" "maxPackets wp \<le> maxPacketsBlocks * n"
    "maxPacketsBlocks * n < UMAX" "length (packetsStart wp) = maxPacketsBlocks"
    and fo: "block_ok n A b" "forge_ok n (A \<union> X) bs" using assms(1,3,4) by (auto simp: blocks_ok_def n_def X_def)
  have "packetsBlocksTop wp * n < maxPacketsBlocks * n" using assms(2) n by linarith
  then show t: "packetsBlocksTop wp < maxPacketsBlocks" by simp
  then have "Suc (packetsBlocksTop wp) * n \<le> maxPacketsBlocks * n" by (intro mult_le_mono1) simp
  then have tn: "activePackets wp + n \<le> maxPacketsBlocks * n" using n by auto
  then show u: "activePackets wp + n < UMAX" using n(5) by linarith
  show "0 < n" by (rule n(1))
  show d: "X \<inter> A = {}" and "b + (sizeof_Packet + packetSize) * n < UMAX" using fo(1) by (auto simp: block_ok_def X_def)
  have c: "card X = n" using distinct_card [OF block_headers_facts(2)] block_headers_facts(1) by (simp add: X_def)
  then show "X \<noteq> {}" using n(1) by auto
  have "card (A \<union> X) = activePackets wp + n" using d assms(5) n(3) c by (subst card_Un_disjoint) (auto simp: X_def)
  then show "blocks_ok (A \<union> X) (wp \<lparr> wp_lists := ls, wp_store := st, packetsBlocksTop := packetsBlocksTop wp + 1,
      activePackets := uadd (activePackets wp) n, wp_forge := bs, packetsStart := (packetsStart wp)[packetsBlocksTop wp := c] \<rparr>)"
    using n fo(2) tn t u by (simp add: blocks_ok_def uadd_exact n_def)
qed

lemma initWorkPacketsBlock_grows:
  fixes wp :: "'o WorkPackets"
  assumes ok: "wp_ok A H wp" and lt: "activePackets wp < maxPackets wp" and f: "wp_forge wp = b # bs" "b \<noteq> NULL"
  defines "X \<equiv> set (block_headers b (packetsPerBlock wp))"
  shows "\<exists>wp'. initWorkPacketsBlock wp = Some (True, wp') \<and> wp_ok (A \<union> X) H wp' \<and> grown A wp (A \<union> X) wp' \<and>
    \<not> pl_isEmpty (wp_lists wp' emptyPacketList) \<and> activePackets wp' = activePackets wp + packetsPerBlock wp \<and>
    packetsPerBlock wp' = packetsPerBlock wp \<and> maxPackets wp' = maxPackets wp \<and> wp_forge wp' = bs"
proof -
  obtain K where K: "wp_inv K H wp" "A = all_packets K H" using ok by (auto simp: wp_ok_def)
  let ?n = "packetsPerBlock wp" and ?xs = "block_headers b (packetsPerBlock wp)" and ?E = "K emptyPacketList"
  have bl: "blocks_ok A wp" and fin: "finite A" and n3: "card A = activePackets wp"
    using K wp_okD(2,5) [OF ok] by (auto simp: wp_inv_def)
  note st = blocks_ok_step [OF bl lt f fin, folded X_def]
  define st1 where "st1 = init_packets ?n 0 b (b + sizeof_Packet) NULL (b + sizeof_Packet * ?n - sizeof_Packet)
    (b + sizeof_Packet * ?n) (zero_headers ?n b (wp_store wp))"
  have "0 < b" using f(2) by simp
  note mem = block_memory [OF st(4) this st(6), where st = "wp_store wp", folded st1_def X_def]
  obtain c where d: "dls st1 NULL ?xs c" using mem(1) by blast
  have eA: "K k \<subseteq> A" for k using K(2) by (auto simp: all_packets_def)
  have s1: "pl_set (wp_lists wp k) st1 (K k)" for k
  proof (rule pl_set_frame)
    show "pl_set (wp_lists wp k) (wp_store wp) (K k)" using K(1) by (simp add: wp_inv_def)
    fix x assume "x \<in> K k"
    then have "x \<notin> X" using st(3) eA by blast
    then show "pk_next (st1 x) = pk_next (wp_store wp x) \<and> pk_previous (st1 x) = pk_previous (wp_store wp x) \<and>
      sublistIndex (st1 x) = sublistIndex (wp_store wp x)" using mem(2) by simp
  qed
  have "card ?E + ?n < UMAX" using card_mono [OF fin eA, of emptyPacketList] n3 st(2) by linarith
  moreover have "?xs \<noteq> []" "set ?xs \<inter> ?E = {}" "?n = length ?xs"
    using block_headers_facts(1) [of b ?n] st(3,5) eA by (auto simp: X_def)
  moreover have "hd ?xs = b" "last ?xs = b + sizeof_Packet * ?n - sizeof_Packet" using block_headers_facts(4) [OF st(4)] by simp_all
  ultimately obtain pl st' where push: "pl_pushList b (b + sizeof_Packet * ?n - sizeof_Packet) ?n (wp_lists wp emptyPacketList, st1) = Some (pl, st')"
    "pl_set pl st' (X \<union> ?E)" "\<And>x. x \<notin> X \<union> ?E \<Longrightarrow> st' x = st1 x" "\<And>x. pk_data (st' x) = pk_data (st1 x)"
    using pl_set_pushList [OF s1 [of emptyPacketList] d block_headers_facts(2), of ?n] by (auto simp: X_def)
  define wp' where "wp' = wp \<lparr> wp_lists := (wp_lists wp)(emptyPacketList := pl), wp_store := st',
      packetsBlocksTop := packetsBlocksTop wp + 1, activePackets := uadd (activePackets wp) ?n,
      wp_forge := bs, packetsStart := (packetsStart wp)[packetsBlocksTop wp := b] \<rparr>"
  have run: "initWorkPacketsBlock wp = Some (True, wp')"
    unfolding wp'_def using initWorkPacketsBlock_run [OF lt st(1) f] push(1) st1_def by blast
  have data: "pk_data (wp_store wp' p) = pk_data (wp_store wp p)" if "p \<in> A" for p
    using that push(4) mem(2) st(3) by (simp add: wp'_def) (metis disjoint_iff)
  have new: "pk_wf (wp_store wp' p) \<and> in_class emptyPacketList (wp_store wp' p)" "pk_elems (wp_store wp' p) = []" if "p \<in> X" for p
    using mem(3) [OF that] pk_data_eqD [OF push(4) [of p]] by (simp_all add: in_class_def wp'_def)
  have sets: "pl_set (wp_lists wp' k) (wp_store wp') ((K(emptyPacketList := X \<union> ?E)) k)" for k
  proof (cases "k = emptyPacketList")
    case True
    with push(2) show ?thesis by (simp add: wp'_def)
  next
    case False
    have "pl_set (wp_lists wp k) st' (K k)"
    proof (rule pl_set_frame [OF s1])
      fix x assume "x \<in> K k"
      then have "x \<notin> X \<union> ?E" using st(3) eA K(1) False unfolding wp_inv_def by blast
      then show "pk_next (st' x) = pk_next (st1 x) \<and> pk_previous (st' x) = pk_previous (st1 x) \<and> sublistIndex (st' x) = sublistIndex (st1 x)"
        using push(3) by simp
    qed
    with False show ?thesis by (simp add: wp'_def)
  qed
  have "blocks_ok (A \<union> X) wp'" unfolding wp'_def by (rule st(7))
  note ok' = wp_inv_grow [OF K st(3) sets data new(1) this]
  moreover have "grown A wp (A \<union> X) wp'" using data new by (auto simp: grown_def wp'_def)
  moreover have "\<not> pl_isEmpty (wp_lists wp' emptyPacketList)"
    using pl_set_isEmpty [OF sets [of emptyPacketList]] st(5) by simp
  ultimately show ?thesis using run st(2) by (intro exI [of _ wp']) (simp add: wp'_def uadd_exact)
qed

end
