(* ===== verification/Work_Conserve.thy ===== *)
theory Work_Conserve
  imports Work_Output
begin

text \<open>
  Conservation of work: the elements in the packets, and what the overflow handler has stored.
  No operation of the pool loses an element; what leaves the packets has been handed to the
  overflow handler.  The lemmas are proved once for every handler that fulfils the contract
  \<open>overflow_handler\<close>.
\<close>

section \<open>The work in the packets\<close>

definition work :: "addr set \<Rightarrow> 'o WorkPackets \<Rightarrow> addr multiset" where
  "work A wp = (\<Sum>p \<in> A. mset (pk_elems (wp_store wp p)))"

lemma grown_work:
  assumes "grown A wp A' wp'" "finite A'"
  shows "work A' wp' = work A wp"
proof -
  have "work A' wp' = (\<Sum>p \<in> A. mset (pk_elems (wp_store wp' p)))"
    unfolding work_def using assms by (intro sum.mono_neutral_right) (auto simp: grown_def)
  also have "\<dots> = work A wp" unfolding work_def
  proof (rule sum.cong)
    fix p assume "p \<in> A"
    then have "pk_data (wp_store wp' p) = pk_data (wp_store wp p)" using assms(1) by (simp add: grown_def)
    from pk_data_eqD(2) [OF this] show "mset (pk_elems (wp_store wp' p)) = mset (pk_elems (wp_store wp p))" by simp
  qed simp
  finally show ?thesis .
qed

lemma work_update:
  assumes "finite A" "p \<in> A"
  shows "\<exists>R. work A wp = mset (pk_elems (wp_store wp p)) + R \<and>
    (\<forall>st'. (\<forall>q. q \<noteq> p \<longrightarrow> st' q = wp_store wp q) \<longrightarrow> work A (wp \<lparr> wp_store := st' \<rparr>) = mset (pk_elems (st' p)) + R)"
proof (intro exI conjI allI impI)
  let ?R = "\<Sum>q \<in> A - {p}. mset (pk_elems (wp_store wp q))"
  show "work A wp = mset (pk_elems (wp_store wp p)) + ?R" unfolding work_def using assms by (simp add: sum.remove)
  fix st' :: store
  assume "\<forall>q. q \<noteq> p \<longrightarrow> st' q = wp_store wp q"
  then have "(\<Sum>q \<in> A - {p}. mset (pk_elems (st' q))) = ?R" by (intro sum.cong) auto
  then show "work A (wp \<lparr> wp_store := st' \<rparr>) = mset (pk_elems (st' p)) + ?R"
    unfolding work_def using assms by (simp add: sum.remove)
qed

lemma work_fields [simp]: "work A (wp \<lparr> overflowState := ov \<rparr>) = work A wp" "work A (wp \<lparr> wp_notified := n \<rparr>) = work A wp"
  "work A (wp \<lparr> inputListWaitCount := n \<rparr>) = work A wp" "work A (wp \<lparr> inputListDoneIndex := n \<rparr>) = work A wp"
  by (simp_all add: work_def)

lemma moved_work: "moved wp wp' \<Longrightarrow> work A wp' = work A wp"
  by (simp add: work_def moved_fields)

text \<open>A packet that is held may be changed freely; overflow and wait counters are not part of the invariant.\<close>

lemma blocks_ok_store [simp]: "blocks_ok A (wp \<lparr> wp_store := st \<rparr>) = blocks_ok A wp"
  by (simp add: blocks_ok_def)

lemma wp_ok_held:
  assumes "wp_ok A H wp" "p \<in> H" "pk_wf pk"
  shows "wp_ok A H (wp \<lparr> wp_store := (wp_store wp)(p := pk) \<rparr>)"
proof -
  obtain K where K: "wp_inv K H wp" "A = all_packets K H" using assms(1) by (auto simp: wp_ok_def)
  have n: "p \<notin> K k" for k using K(1) assms(2) unfolding wp_inv_def by blast
  let ?st = "(wp_store wp)(p := pk)"
  have "pl_set (wp_lists wp k) ?st (K k)" for k
  proof (rule pl_set_frame)
    show "pl_set (wp_lists wp k) (wp_store wp) (K k)" using K(1) by (simp add: wp_inv_def)
  qed (use n [of k] in auto)
  moreover have "in_class k (?st q)" if "q \<in> K k" for k q using that n [of k] K(1) by (auto simp: wp_inv_def)
  moreover have "pk_wf (?st q)" if "q \<in> all_packets K H" for q using that assms(3) K(1) by (simp add: wp_inv_def)
  ultimately have "wp_inv K H (wp \<lparr> wp_store := ?st \<rparr>)" using K(1) by (simp add: wp_inv_def)
  with K(2) show ?thesis by (auto simp: wp_ok_def)
qed

lemma wp_ok_fields [simp]:
  "wp_ok A H (wp \<lparr> overflowState := ov \<rparr>) = wp_ok A H wp" "wp_ok A H (wp \<lparr> wp_notified := n \<rparr>) = wp_ok A H wp"
  "wp_ok A H (wp \<lparr> inputListWaitCount := n \<rparr>) = wp_ok A H wp" "wp_ok A H (wp \<lparr> inputListDoneIndex := n \<rparr>) = wp_ok A H wp"
  by (simp_all add: wp_ok_def wp_inv_def blocks_ok_def)

section \<open>Steps that carry the work along\<close>

definition carried :: "('o \<Rightarrow> addr multiset \<Rightarrow> bool) \<Rightarrow> ('o \<Rightarrow> addr \<Rightarrow> bool) \<Rightarrow> ('o \<Rightarrow> addr multiset) \<Rightarrow>
    addr set \<Rightarrow> 'o WorkPackets \<Rightarrow> addr set \<Rightarrow> 'o WorkPackets \<Rightarrow> bool" where
  "carried accepts keeps stored A wp A' wp' \<longleftrightarrow> A \<subseteq> A' \<and> keeps (overflowState wp') = keeps (overflowState wp) \<and>
     (\<exists>Ov. work A wp = work A' wp' + Ov \<and>
        stored (overflowState wp') = stored (overflowState wp) + filter_mset (keeps (overflowState wp)) Ov) \<and>
     (\<forall>W. accepts (overflowState wp) (work A wp + W) \<longrightarrow> accepts (overflowState wp') (work A' wp' + W))"

lemma carried_trans:
  assumes "carried acc ke sto A wp A1 wp1" "carried acc ke sto A1 wp1 A2 wp2"
  shows "carried acc ke sto A wp A2 wp2"
proof -
  obtain O1 O2 where "work A wp = work A1 wp1 + O1" "sto (overflowState wp1) = sto (overflowState wp) + filter_mset (ke (overflowState wp)) O1"
    "work A1 wp1 = work A2 wp2 + O2" "sto (overflowState wp2) = sto (overflowState wp1) + filter_mset (ke (overflowState wp1)) O2"
    using assms by (auto simp: carried_def)
  moreover have k: "ke (overflowState wp1) = ke (overflowState wp)" "ke (overflowState wp2) = ke (overflowState wp1)" "A \<subseteq> A2"
    using assms by (auto simp: carried_def)
  ultimately have "work A wp = work A2 wp2 + (O2 + O1)"
    "sto (overflowState wp2) = sto (overflowState wp) + filter_mset (ke (overflowState wp)) (O2 + O1)" by simp_all
  then show ?thesis using assms k unfolding carried_def by auto
qed

lemma grown_carried: "grown A wp A' wp' \<Longrightarrow> finite A' \<Longrightarrow> carried acc ke sto A wp A' wp'"
  using grown_work [of A wp A' wp'] by (auto simp: carried_def grown_def)

lemma moved_carried: "moved wp wp' \<Longrightarrow> carried acc ke sto A wp A wp'"
  using moved_work [of wp wp' A] moved_fields(3) [of wp wp'] by (simp add: carried_def)

lemma carried_refl: "carried acc ke sto A wp A wp"
  by (simp add: carried_def)

lemma carried_work: "carried acc ke sto A wp A' wp' \<Longrightarrow> work A' wp' \<subseteq># work A wp"
  by (auto simp: carried_def)

text \<open>What the result of an operation that gets a packet for output must be.\<close>

definition got :: "addr set \<Rightarrow> addr set \<Rightarrow> addr \<Rightarrow> 'o WorkPackets \<Rightarrow> bool" where
  "got A H p wp \<longleftrightarrow> (if p = NULL then wp_ok A H wp
     else p \<in> A - H \<and> wp_ok A (insert p H) wp \<and> 2 \<le> freeSlots (wp_store wp p))"

lemma empty_class_room: "in_class emptyPacketList pk \<Longrightarrow> freeSlots pk = SLOTS_IN_PACKET"
  by (simp add: in_class_def packet_class_def split: if_splits)

lemma getPacket_got:
  assumes "wp_ok A H wp" "getPacket env emptyPacketList wp = (p, wp')"
  shows "moved wp wp'" "got A H p wp'"
proof -
  note g = getPacket_ok [OF assms]
  show "moved wp wp'" by (rule g(1))
  have "2 \<le> SLOTS_IN_PACKET" by (simp add: SLOTS_IN_PACKET_def)
  then show "got A H p wp'" using g(2,3) assms(1) empty_class_room [of "wp_store wp' p"] by (auto simp: got_def)
qed

lemma getLeastFullPacket_got:
  assumes "wp_ok A H wp" "getLeastFullPacket env 2 wp = (p, wp')"
  shows "moved wp wp'" "got A H p wp'"
  using getLeastFullPacket_ok [OF assms] by (auto simp: got_def)

lemma getPacketByAdddingWorkPacketBlock_got:
  assumes "wp_ok A H wp"
  shows "\<exists>p wp' A'. getPacketByAdddingWorkPacketBlock env wp = Some (p, wp') \<and> grown A wp A' wp' \<and> finite A' \<and> got A' H p wp' \<and>
    (activePackets wp < maxPackets wp \<and> wp_forge wp \<noteq> [] \<and> hd (wp_forge wp) \<noteq> NULL \<longrightarrow> p \<noteq> NULL)"
proof -
  obtain q w1 where g: "getPacket env emptyPacketList wp = (q, w1)" by fastforce
  note k = getPacket_got [OF assms g]
  show ?thesis
  proof (cases "q = NULL")
    case False
    then show ?thesis using g k moved_grown [OF k(1)] wp_okD(2) [OF assms]
      by (intro exI [of _ q] exI [of _ w1] exI [of _ A]) (simp add: getPacketByAdddingWorkPacketBlock_def)
  next
    case True
    then have w: "w1 = wp" using getPacket_ok(2) [OF assms g] by simp
    show ?thesis
    proof (cases "maxPackets wp \<le> activePackets wp \<or> wp_forge wp = [] \<or> hd (wp_forge wp) = NULL")
      case c: True
      obtain w2 where "initWorkPacketsBlock wp = Some (False, w2)" "wp_ok A H w2" "grown A wp A w2"
        using initWorkPacketsBlock_refuses [OF assms c] by blast
      then show ?thesis using g True w c wp_okD(2) [OF assms]
        by (intro exI [of _ "0 :: nat"] exI [of _ w2] exI [of _ A]) (auto simp: getPacketByAdddingWorkPacketBlock_def got_def)
    next
      case c: False
      then obtain b bs where "wp_forge wp = b # bs" "b \<noteq> NULL" "activePackets wp < maxPackets wp" by (cases "wp_forge wp") auto
      then obtain w2 A' where i: "initWorkPacketsBlock wp = Some (True, w2)" "wp_ok A' H w2" "grown A wp A' w2"
        "\<not> pl_isEmpty (wp_lists w2 emptyPacketList)"
        using initWorkPacketsBlock_grows [OF assms] by metis
      obtain p w3 where g3: "getPacket env emptyPacketList w2 = (p, w3)" by fastforce
      note k3 = getPacket_got [OF i(2) g3]
      have "p \<noteq> NULL" using getPacket_ok(2) [OF i(2) g3] i(4) by blast
      then show ?thesis using g True w i g3 k3 grown_trans [OF i(3) moved_grown [OF k3(1)]] wp_okD(2) [OF i(2)]
        by (intro exI [of _ p] exI [of _ w3] exI [of _ A']) (simp add: getPacketByAdddingWorkPacketBlock_def)
    qed
  qed
qed

context overflow_handler
begin

lemma emptyToOverflow_step:
  assumes ok: "wp_ok A H wp" "p \<in> H" and n: "NULL \<notin># work A wp" and a: "accepts (overflowState wp) (work A wp + W)"
  shows "\<exists>wp'. wp_emptyToOverflow h p ty wp = Some wp' \<and> carried accepts keeps stored A wp A wp' \<and> wp_ok A H wp' \<and>
    freeSlots (wp_store wp' p) = SLOTS_IN_PACKET"
proof -
  let ?pk = "wp_store wp p" and ?ov = "overflowState wp" and ?n = "activePackets wp"
  let ?pk' = "?pk \<lparr> currentPtr := basePtr ?pk \<rparr>"
  let ?w = "\<lambda>ov. wp \<lparr> wp_store := (wp_store wp)(p := ?pk'), overflowState := ov \<rparr>"
  have p: "p \<in> A" "finite A" "pk_wf ?pk" using ok wp_okD [OF ok(1)] by auto
  obtain R where R: "work A wp = mset (pk_elems ?pk) + R"
    "\<And>st'. (\<forall>q. q \<noteq> p \<longrightarrow> st' q = wp_store wp q) \<Longrightarrow> work A (wp \<lparr> wp_store := st' \<rparr>) = mset (pk_elems (st' p)) + R"
    using work_update [OF p(2,1), of wp] by blast
  have w: "work A (?w ov) = R" for ov using R(2) [of "(wp_store wp)(p := ?pk')"] by (simp add: pk_elems_def)
  have nn: "NULL \<notin> set (pk_elems ?pk)" using n R(1) by auto
  have e: "\<exists>ov'. oh_emptyToOverflow h ?n ty ?pk ?ov = Some (?pk', ov') \<and> accepts ov' (R + V) \<and>
      stored ov' = stored ?ov + filter_mset (keeps ?ov) (mset (pk_elems ?pk)) \<and> keeps ov' = keeps ?ov"
    if "accepts ?ov (work A wp + V)" for V
    using empty_packet [OF p(3) nn, of ?ov "R + V" ?n ty] that R(1) by (auto simp: add.assoc)
  obtain ov' where o: "oh_emptyToOverflow h ?n ty ?pk ?ov = Some (?pk', ov')"
    "stored ov' = stored ?ov + filter_mset (keeps ?ov) (mset (pk_elems ?pk))" "keeps ov' = keeps ?ov" using e [OF a] by auto
  have "accepts ov' (R + V)" if "accepts ?ov (work A wp + V)" for V using e [OF that] o(1) by auto
  then have "carried accepts keeps stored A wp A (?w ov')"
    unfolding carried_def w using o(2,3) R(1) by (auto intro!: exI [of _ "mset (pk_elems ?pk)"])
  moreover have "pk_wf ?pk'" using p(3) by (simp add: pk_wf_def)
  then have "wp_ok A H (?w ov')" using wp_ok_held [OF ok] by simp
  moreover have "freeSlots ?pk' = SLOTS_IN_PACKET" using p(3) by (simp add: freeSlots_def pk_wf_def usub_exact)
  ultimately show ?thesis using o(1) by (simp add: wp_emptyToOverflow_def)
qed

lemma getPacketByOverflowing_got:
  assumes ok: "wp_ok A H wp" and n: "NULL \<notin># work A wp" and a: "accepts (overflowState wp) (work A wp + W)"
  shows "\<exists>p wp'. getPacketByOverflowing h env wp = Some (p, wp') \<and> carried accepts keeps stored A wp A wp' \<and> got A H p wp'"
proof -
  obtain q w1 where g: "getPacket env fullPacketList wp = (q, w1)" by fastforce
  note k = getPacket_ok [OF ok g]
  show ?thesis
  proof (cases "q = NULL")
    case False
    have w: "work A w1 = work A wp" "overflowState w1 = overflowState wp" using moved_work [OF k(1)] moved_fields(3) [OF k(1)] by auto
    obtain w2 where e: "wp_emptyToOverflow h q OVERFLOW_TYPE_WORKSTACK w1 = Some w2" "carried accepts keeps stored A w1 A w2"
      "wp_ok A (insert q H) w2" "freeSlots (wp_store w2 q) = SLOTS_IN_PACKET"
      using emptyToOverflow_step [of A "insert q H" w1 q W OVERFLOW_TYPE_WORKSTACK] k(3) False n a w by auto
    let ?w3 = "notifyWaitingThreads w2"
    have m: "moved w2 ?w3" by (rule notifyWaitingThreads_spec(1))
    have "carried accepts keeps stored A wp A ?w3"
      using carried_trans [OF moved_carried [OF k(1)] carried_trans [OF e(2) moved_carried [OF m]]] .
    moreover have "got A H q ?w3"
      using k(3) False e(3,4) moved_fields(8) [OF m] notifyWaitingThreads_spec(2) [of _ _ w2]
      by (auto simp: got_def wp_ok_def SLOTS_IN_PACKET_def)
    ultimately show ?thesis using g False e(1) by (auto simp: getPacketByOverflowing_def)
  next
    case True
    then have w: "w1 = wp" using k(2) by simp
    obtain p w2 where g2: "getPacket env emptyPacketList wp = (p, w2)" by fastforce
    note k2 = getPacket_got [OF ok g2]
    show ?thesis
    proof (cases "p = NULL")
      case False
      then show ?thesis using g g2 k2 True w moved_carried [OF k2(1)] by (simp add: getPacketByOverflowing_def)
    next
      case p: True
      then have w2: "w2 = wp" using getPacket_ok(2) [OF ok g2] by simp
      obtain r w3 where g3: "getLeastFullPacket env 2 wp = (r, w3)" by fastforce
      note k3 = getLeastFullPacket_got [OF ok g3]
      then show ?thesis using g g2 g3 p True w w2 moved_carried [OF k3(1)] by (simp add: getPacketByOverflowing_def)
    qed
  qed
qed

text \<open>\<open>getOutputPacket\<close> always returns; work is carried, and the packet has room for two elements.\<close>

lemma getOutputPacket_got:
  assumes ok: "wp_ok A H wp" and n: "NULL \<notin># work A wp" and a: "accepts (overflowState wp) (work A wp + W)"
  shows "\<exists>p wp' A'. getOutputPacket h env wp = Some (p, wp') \<and> carried accepts keeps stored A wp A' wp' \<and> got A' H p wp'"
proof -
  obtain p1 w1 where g1: "getPacket env emptyPacketList wp = (p1, w1)" by fastforce
  obtain p2 w2 where g2: "getLeastFullPacket env 2 wp = (p2, w2)" by fastforce
  note k1 = getPacket_got [OF ok g1] and k2 = getLeastFullPacket_got [OF ok g2]
  consider "p1 \<noteq> NULL" | "p1 = NULL" "p2 \<noteq> NULL" | "p1 = NULL" "p2 = NULL" by blast
  then show ?thesis
  proof cases
    case 1
    then have "getOutputPacket h env wp = Some (p1, w1)" using g1 by (simp add: getOutputPacket_def)
    then show ?thesis using k1(2) moved_carried [OF k1(1)] by blast
  next
    case 2
    then have "w1 = wp" using getPacket_ok(2) [OF ok g1] by simp
    then have "getOutputPacket h env wp = Some (p2, w2)" using 2 g1 g2 by (simp add: getOutputPacket_def)
    then show ?thesis using k2(2) moved_carried [OF k2(1)] by blast
  next
    case 3
    then have w1: "w1 = wp" using getPacket_ok(2) [OF ok g1] by simp
    have ok2: "wp_ok A H w2" using k2(2) 3 by (simp add: got_def)
    obtain p3 w3 A3 where g3: "getPacketByAdddingWorkPacketBlock env w2 = Some (p3, w3)" "grown A w2 A3 w3" "finite A3" "got A3 H p3 w3"
      using getPacketByAdddingWorkPacketBlock_got [OF ok2, of env] by blast
    have c3: "carried accepts keeps stored A wp A3 w3"
      using carried_trans [OF moved_carried [OF k2(1)] grown_carried [OF g3(2,3)]] .
    show ?thesis
    proof (cases "p3 = NULL")
      case False
      then have "getOutputPacket h env wp = Some (p3, w3)" using 3 g1 g2 g3(1) w1 by (simp add: getOutputPacket_def)
      then show ?thesis using g3(4) c3 by blast
    next
      case p3: True
      then have ok3: "wp_ok A3 H w3" using g3(4) by (simp add: got_def)
      obtain p4 w4 where g4: "getLeastFullPacket env 2 w3 = (p4, w4)" by fastforce
      note k4 = getLeastFullPacket_got [OF ok3 g4]
      have c4: "carried accepts keeps stored A wp A3 w4" using carried_trans [OF c3 moved_carried [OF k4(1)]] .
      show ?thesis
      proof (cases "p4 = NULL")
        case False
        then have "getOutputPacket h env wp = Some (p4, w4)" using 3 g1 g2 g3(1) g4 w1 p3 by (simp add: getOutputPacket_def)
        then show ?thesis using k4(2) c4 by blast
      next
        case p4: True
        then have ok4: "wp_ok A3 H w4" using k4(2) by (simp add: got_def)
        have "NULL \<notin># work A3 w4" "accepts (overflowState w4) (work A3 w4 + W)"
          using c4 n a carried_work [OF c4] unfolding carried_def by (auto dest: mset_subset_eqD)
        from getPacketByOverflowing_got [OF ok4 this, of env] obtain p wp' where
          o: "getPacketByOverflowing h env w4 = Some (p, wp')" "carried accepts keeps stored A3 w4 A3 wp'" "got A3 H p wp'" by blast
        have "getOutputPacket h env wp = Some (p, wp')" using 3 g1 g2 g3(1) g4 w1 p3 p4 o(1) by (simp add: getOutputPacket_def)
        then show ?thesis using o(3) carried_trans [OF c4 o(2)] by blast
      qed
    qed
  qed
qed

end

end
