(* ===== verification/Work_Stack.thy ===== *)
theory Work_Stack
  imports Work_Conserve
begin

text \<open>
  The work stack of a thread, \<open>MM_WorkStack\<close> (gc/base/WorkStack.hpp, WorkStack.cpp): an input packet
  that \<open>pop\<close> takes from, an output packet that \<open>push\<close> fills and a deferred packet, all from the
  shared pool.  Operations act on the stack and the pool; \<open>None\<close> is a failed assertion or a thread
  that waits.  \<open>workPacketsExchanged\<close> is the environment's statistics counter.
\<close>

record WorkStack =
  ws_workPackets :: addr
  inputPacket :: addr
  outputPacket :: addr
  deferredPacket :: addr
  pushCount :: nat
  workPacketsExchanged :: nat

type_synonym 'o stack = "WorkStack \<times> 'o WorkPackets"

definition ws_reset :: "addr \<Rightarrow> WorkStack \<Rightarrow> WorkStack option" where
  "ws_reset workPackets ws =
     (let ws = ws \<lparr> ws_workPackets := workPackets \<rparr>
      in do { assert_MM (inputPacket ws = NULL); assert_MM (outputPacket ws = NULL); assert_MM (deferredPacket ws = NULL);
              Some ws })"

definition prepareForWork :: "addr \<Rightarrow> WorkStack \<Rightarrow> WorkStack option" where
  "prepareForWork workPackets ws =
     (if ws_workPackets ws = NULL then
        (let ws = ws \<lparr> ws_workPackets := workPackets \<rparr>
         in do { assert_MM (inputPacket ws = NULL); assert_MM (outputPacket ws = NULL); assert_MM (deferredPacket ws = NULL);
                 Some ws })
      else do { assert_MM (ws_workPackets ws = workPackets); Some ws })"

definition ws_flush :: "Environment \<Rightarrow> 'o stack \<Rightarrow> 'o stack" where
  "ws_flush env = (\<lambda>(ws, wp).
     (let (ws, wp) = (if inputPacket ws \<noteq> NULL then (ws \<lparr> inputPacket := NULL \<rparr>, putPacket env (inputPacket ws) wp) else (ws, wp));
          (ws, wp) = (if outputPacket ws \<noteq> NULL then (ws \<lparr> outputPacket := NULL \<rparr>, putPacket env (outputPacket ws) wp) else (ws, wp));
          (ws, wp) = (if deferredPacket ws \<noteq> NULL then (ws \<lparr> deferredPacket := NULL \<rparr>, putDeferredPacket env (deferredPacket ws) wp)
                      else (ws, wp))
      in (ws \<lparr> ws_workPackets := NULL \<rparr>, wp)))"

definition flushOutputPacket :: "Environment \<Rightarrow> 'o stack \<Rightarrow> 'o stack" where
  "flushOutputPacket env = (\<lambda>(ws, wp).
     if outputPacket ws \<noteq> NULL then (ws \<lparr> outputPacket := NULL \<rparr>, putOutputPacket env (outputPacket ws) wp) else (ws, wp))"

text \<open>Pushing on a packet of the pool; the result is whether it had room.\<close>

definition push_packet :: "addr \<Rightarrow> addr \<Rightarrow> 'o WorkPackets \<Rightarrow> bool \<times> 'o WorkPackets" where
  "push_packet packet element wp =
     (let (ok, pk) = packet_push element (wp_store wp packet) in (ok, wp \<lparr> wp_store := (wp_store wp)(packet := pk) \<rparr>))"

definition push2_packet :: "addr \<Rightarrow> addr \<Rightarrow> addr \<Rightarrow> 'o WorkPackets \<Rightarrow> bool \<times> 'o WorkPackets" where
  "push2_packet packet element1 element2 wp =
     (let (ok, pk) = packet_push2 element1 element2 (wp_store wp packet) in (ok, wp \<lparr> wp_store := (wp_store wp)(packet := pk) \<rparr>))"

definition pop_packet :: "addr \<Rightarrow> 'o WorkPackets \<Rightarrow> addr \<times> 'o WorkPackets" where
  "pop_packet packet wp =
     (let (x, pk) = packet_pop (wp_store wp packet) in (x, wp \<lparr> wp_store := (wp_store wp)(packet := pk) \<rparr>))"

section \<open>Pushing\<close>

definition pushFailed :: "'o OverflowHandler \<Rightarrow> Environment \<Rightarrow> addr \<Rightarrow> 'o stack \<Rightarrow> 'o stack option" where
  "pushFailed h env element = (\<lambda>(ws, wp).
     (let wp = (if outputPacket ws \<noteq> NULL then putOutputPacket env (outputPacket ws) wp else wp)
      in do { (packet, wp) \<leftarrow> getOutputPacket h env wp;
              (let ws = ws \<lparr> outputPacket := packet \<rparr>
               in if packet = NULL then do { wp \<leftarrow> wp_overflowItem h element OVERFLOW_TYPE_WORKSTACK wp; Some (ws, wp) }
                  else Some (ws \<lparr> pushCount := uadd (pushCount ws) 1 \<rparr>, snd (push_packet packet element wp))) }))"

definition pushFailed2 :: "'o OverflowHandler \<Rightarrow> Environment \<Rightarrow> addr \<Rightarrow> addr \<Rightarrow> 'o stack \<Rightarrow> 'o stack option" where
  "pushFailed2 h env element1 element2 = (\<lambda>(ws, wp).
     (let wp = (if outputPacket ws \<noteq> NULL then putOutputPacket env (outputPacket ws) wp else wp)
      in do { (packet, wp) \<leftarrow> getOutputPacket h env wp;
              (let ws = ws \<lparr> outputPacket := packet \<rparr>
               in if packet = NULL then
                    do { wp \<leftarrow> wp_overflowItem h element1 OVERFLOW_TYPE_WORKSTACK wp;
                         wp \<leftarrow> wp_overflowItem h element2 OVERFLOW_TYPE_WORKSTACK wp;
                         Some (ws, wp) }
                  else Some (ws \<lparr> pushCount := uadd (pushCount ws) 2 \<rparr>, snd (push2_packet packet element1 element2 wp))) }))"

definition ws_push :: "'o OverflowHandler \<Rightarrow> Environment \<Rightarrow> addr \<Rightarrow> 'o stack \<Rightarrow> 'o stack option" where
  "ws_push h env element = (\<lambda>(ws, wp).
     if outputPacket ws \<noteq> NULL \<and> fst (push_packet (outputPacket ws) element wp)
     then Some (ws \<lparr> pushCount := uadd (pushCount ws) 1 \<rparr>, snd (push_packet (outputPacket ws) element wp))
     else pushFailed h env element (ws, wp))"

definition ws_push2 :: "'o OverflowHandler \<Rightarrow> Environment \<Rightarrow> addr \<Rightarrow> addr \<Rightarrow> 'o stack \<Rightarrow> 'o stack option" where
  "ws_push2 h env element1 element2 = (\<lambda>(ws, wp).
     if outputPacket ws \<noteq> NULL \<and> fst (push2_packet (outputPacket ws) element1 element2 wp)
     then Some (ws \<lparr> pushCount := uadd (pushCount ws) 2 \<rparr>, snd (push2_packet (outputPacket ws) element1 element2 wp))
     else pushFailed2 h env element1 element2 (ws, wp))"

definition pushDefer :: "'o OverflowHandler \<Rightarrow> Environment \<Rightarrow> addr \<Rightarrow> 'o stack \<Rightarrow> 'o stack option" where
  "pushDefer h env element = (\<lambda>(ws, wp).
     if deferredPacket ws \<noteq> NULL \<and> fst (push_packet (deferredPacket ws) element wp)
     then Some (ws, snd (push_packet (deferredPacket ws) element wp))
     else
       (let wp = (if deferredPacket ws \<noteq> NULL then putDeferredPacket env (deferredPacket ws) wp else wp);
            (packet, wp) = getDeferredPacket env wp;
            ws = ws \<lparr> deferredPacket := packet \<rparr>
        in if packet \<noteq> NULL then Some (ws, snd (push_packet packet element wp)) else ws_push h env element (ws, wp)))"

section \<open>Popping\<close>

definition retrieveInputPacket :: "'o OverflowHandler \<Rightarrow> Environment \<Rightarrow> 'o stack \<Rightarrow> (bool \<times> 'o stack) option" where
  "retrieveInputPacket h env = (\<lambda>(ws, wp).
     do { (packet, wp) \<leftarrow> getInputPacketNoWait h env wp;
          (let ws = ws \<lparr> inputPacket := packet \<rparr>;
               ws = (if packet = NULL \<and> outputPacket ws \<noteq> NULL \<and> \<not> packet_isEmpty (wp_store wp (outputPacket ws))
                     then ws \<lparr> inputPacket := outputPacket ws, outputPacket := NULL,
                               workPacketsExchanged := uadd (workPacketsExchanged ws) 1 \<rparr>
                     else ws)
           in Some (inputPacket ws \<noteq> NULL, (ws, wp))) })"

text \<open>Returning the used up input packet.\<close>

definition return_input :: "Environment \<Rightarrow> 'o stack \<Rightarrow> 'o stack" where
  "return_input env = (\<lambda>(ws, wp).
     if inputPacket ws \<noteq> NULL then (ws \<lparr> inputPacket := NULL \<rparr>, putPacket env (inputPacket ws) wp) else (ws, wp))"

definition pop_input :: "'o stack \<Rightarrow> addr \<times> 'o stack" where
  "pop_input = (\<lambda>(ws, wp). let (x, wp) = pop_packet (inputPacket ws) wp in (x, (ws, wp)))"

definition popNoWaitFailed :: "'o OverflowHandler \<Rightarrow> Environment \<Rightarrow> 'o stack \<Rightarrow> (addr \<times> 'o stack) option" where
  "popNoWaitFailed h env s =
     do { (found, s) \<leftarrow> retrieveInputPacket h env (return_input env s);
          Some (if found then pop_input s else (NULL, s)) }"

definition popFailed :: "'o OverflowHandler \<Rightarrow> Environment \<Rightarrow> Task option \<Rightarrow> 'o stack \<Rightarrow> (addr \<times> 'o stack) option" where
  "popFailed h env task s =
     do { (found, (ws, wp)) \<leftarrow> retrieveInputPacket h env (return_input env s);
          (if found then Some (pop_input (ws, wp))
           else do { (packet, wp) \<leftarrow> getInputPacket h env task wp;
                     (let ws = ws \<lparr> inputPacket := packet \<rparr>
                      in Some (if packet \<noteq> NULL then pop_input (ws, wp) else (NULL, (ws, wp)))) }) }"

definition ws_pop :: "'o OverflowHandler \<Rightarrow> Environment \<Rightarrow> Task option \<Rightarrow> 'o stack \<Rightarrow> (addr \<times> 'o stack) option" where
  "ws_pop h env task = (\<lambda>(ws, wp).
     if inputPacket ws \<noteq> NULL \<and> fst (pop_packet (inputPacket ws) wp) \<noteq> NULL then Some (pop_input (ws, wp))
     else popFailed h env task (ws, if inputPacket ws \<noteq> NULL then snd (pop_packet (inputPacket ws) wp) else wp))"

definition popNoWait :: "'o OverflowHandler \<Rightarrow> Environment \<Rightarrow> 'o stack \<Rightarrow> (addr \<times> 'o stack) option" where
  "popNoWait h env = (\<lambda>(ws, wp).
     if inputPacket ws \<noteq> NULL \<and> fst (pop_packet (inputPacket ws) wp) \<noteq> NULL then Some (pop_input (ws, wp))
     else popNoWaitFailed h env (ws, if inputPacket ws \<noteq> NULL then snd (pop_packet (inputPacket ws) wp) else wp))"

definition popNoWaitFromCurrentInputPacket :: "Environment \<Rightarrow> 'o stack \<Rightarrow> addr \<times> 'o stack" where
  "popNoWaitFromCurrentInputPacket env = (\<lambda>(ws, wp).
     if inputPacket ws \<noteq> NULL then
       (let (x, s) = pop_input (ws, wp) in if x = NULL then (NULL, return_input env s) else (x, s))
     else (NULL, (ws, wp)))"

definition ws_peek :: "'o stack \<Rightarrow> addr" where
  "ws_peek = (\<lambda>(ws, wp). if inputPacket ws \<noteq> NULL then packet_peek (wp_store wp (inputPacket ws)) else NULL)"

end
