(* ===== verification/Stack_Correct.thy ===== *)
theory Stack_Correct
  imports Work_Stack
begin

text \<open>
  Correctness of the work stack over the pool: \<open>push\<close> adds exactly its element to the work and
  \<open>pop\<close> takes exactly one element out, whatever packets move in between; \<open>pop\<close> reports the end of
  work only when no packet outside the deferred lists holds an element that is not held by
  another thread.
\<close>

section \<open>The invariant of a stack\<close>

definition ws_held :: "WorkStack \<Rightarrow> addr set" where
  "ws_held ws = {inputPacket ws, outputPacket ws, deferredPacket ws} - {NULL}"

definition ws_distinct :: "WorkStack \<Rightarrow> bool" where
  "ws_distinct ws \<longleftrightarrow> (inputPacket ws \<noteq> NULL \<longrightarrow> inputPacket ws \<noteq> outputPacket ws \<and> inputPacket ws \<noteq> deferredPacket ws) \<and>
     (outputPacket ws \<noteq> NULL \<longrightarrow> outputPacket ws \<noteq> deferredPacket ws)"

text \<open>\<open>Oth\<close>: the packets held by other threads.\<close>

definition stack_ok :: "addr set \<Rightarrow> addr set \<Rightarrow> 'o stack \<Rightarrow> bool" where
  "stack_ok A Oth = (\<lambda>(ws, wp). wp_ok A (ws_held ws \<union> Oth) wp \<and> ws_held ws \<inter> Oth = {} \<and> ws_distinct ws)"

lemma stack_okD:
  assumes "stack_ok A Oth (ws, wp)"
  shows "wp_ok A (ws_held ws \<union> Oth) wp" "ws_held ws \<inter> Oth = {}" "NULL \<notin> ws_held ws" "ws_held ws \<subseteq> A" "NULL \<notin> Oth" "finite A"
  using assms wp_okD(1-3) [of A "ws_held ws \<union> Oth" wp] by (auto simp: stack_ok_def ws_held_def)

text \<open>Replacing one of the three packets.\<close>

lemma drop_one:
  fixes a b c n :: 'a
  assumes "a \<noteq> n \<longrightarrow> a \<noteq> b \<and> a \<noteq> c" "n \<notin> Oth" "({a, b, c} - {n}) \<inter> Oth = {}"
  shows "({a, b, c} - {n}) \<union> Oth - {a} = ({n, b, c} - {n}) \<union> Oth"
proof (cases "a = n")
  case True
  then show ?thesis using assms(2) by auto
next
  case False
  then have "a \<noteq> b" "a \<noteq> c" "a \<notin> Oth" using assms by auto
  then show ?thesis using False by auto
qed

lemma ws_held_release:
  assumes "ws_distinct ws" "NULL \<notin> Oth" "ws_held ws \<inter> Oth = {}"
  shows "ws_held ws \<union> Oth - {inputPacket ws} = ws_held (ws \<lparr> inputPacket := NULL \<rparr>) \<union> Oth"
    "ws_held ws \<union> Oth - {outputPacket ws} = ws_held (ws \<lparr> outputPacket := NULL \<rparr>) \<union> Oth"
    "ws_held ws \<union> Oth - {deferredPacket ws} = ws_held (ws \<lparr> deferredPacket := NULL \<rparr>) \<union> Oth"
proof -
  let ?i = "inputPacket ws" and ?o = "outputPacket ws" and ?d = "deferredPacket ws"
  have s: "{?i, ?o, ?d} = {?o, ?i, ?d}" "{?i, ?o, ?d} = {?d, ?i, ?o}" "{?i, NULL, ?d} = {NULL, ?i, ?d}" "{?i, ?o, NULL} = {NULL, ?i, ?o}"
    by blast+
  have d: "?i \<noteq> NULL \<longrightarrow> ?i \<noteq> ?o \<and> ?i \<noteq> ?d" "?o \<noteq> NULL \<longrightarrow> ?o \<noteq> ?i \<and> ?o \<noteq> ?d" "?d \<noteq> NULL \<longrightarrow> ?d \<noteq> ?i \<and> ?d \<noteq> ?o"
    using assms(1) unfolding ws_distinct_def by metis+
  note a = assms(3) [unfolded ws_held_def]
  show "ws_held ws \<union> Oth - {?i} = ws_held (ws \<lparr> inputPacket := NULL \<rparr>) \<union> Oth"
    using drop_one [OF d(1) assms(2) a] by (simp add: ws_held_def)
  show "ws_held ws \<union> Oth - {?o} = ws_held (ws \<lparr> outputPacket := NULL \<rparr>) \<union> Oth"
    using drop_one [OF d(2) assms(2) a [unfolded s(1)]] unfolding s(1,3) [symmetric] by (simp add: ws_held_def)
  show "ws_held ws \<union> Oth - {?d} = ws_held (ws \<lparr> deferredPacket := NULL \<rparr>) \<union> Oth"
    using drop_one [OF d(3) assms(2) a [unfolded s(2)]] unfolding s(2,4) [symmetric] by (simp add: ws_held_def)
qed

lemma ws_distinct_release:
  "ws_distinct ws \<Longrightarrow> ws_distinct (ws \<lparr> inputPacket := NULL \<rparr>)" "ws_distinct ws \<Longrightarrow> ws_distinct (ws \<lparr> outputPacket := NULL \<rparr>)"
  "ws_distinct ws \<Longrightarrow> ws_distinct (ws \<lparr> deferredPacket := NULL \<rparr>)"
  "ws_held (ws \<lparr> inputPacket := NULL \<rparr>) \<subseteq> ws_held ws" "ws_held (ws \<lparr> outputPacket := NULL \<rparr>) \<subseteq> ws_held ws"
  "ws_held (ws \<lparr> deferredPacket := NULL \<rparr>) \<subseteq> ws_held ws"
  by (auto simp: ws_distinct_def ws_held_def)

lemma ws_held_acquire:
  assumes "p \<noteq> NULL"
  shows "inputPacket ws = NULL \<Longrightarrow> ws_held (ws \<lparr> inputPacket := p \<rparr>) = insert p (ws_held ws)"
    "outputPacket ws = NULL \<Longrightarrow> ws_held (ws \<lparr> outputPacket := p \<rparr>) = insert p (ws_held ws)"
    "deferredPacket ws = NULL \<Longrightarrow> ws_held (ws \<lparr> deferredPacket := p \<rparr>) = insert p (ws_held ws)"
  using assms by (auto simp: ws_held_def)

lemma ws_distinct_acquire:
  assumes "p \<noteq> NULL" "p \<notin> ws_held ws" "ws_distinct ws"
  shows "inputPacket ws = NULL \<Longrightarrow> ws_distinct (ws \<lparr> inputPacket := p \<rparr>)"
    "outputPacket ws = NULL \<Longrightarrow> ws_distinct (ws \<lparr> outputPacket := p \<rparr>)"
    "deferredPacket ws = NULL \<Longrightarrow> ws_distinct (ws \<lparr> deferredPacket := p \<rparr>)"
  using assms by (simp_all add: ws_held_def ws_distinct_def)

lemma stack_ok_release:
  assumes "stack_ok A Oth (ws, wp)"
  shows "wp_ok A (ws_held ws \<union> Oth - {inputPacket ws}) wp' \<Longrightarrow> stack_ok A Oth (ws \<lparr> inputPacket := NULL \<rparr>, wp')"
    "wp_ok A (ws_held ws \<union> Oth - {outputPacket ws}) wp' \<Longrightarrow> stack_ok A Oth (ws \<lparr> outputPacket := NULL \<rparr>, wp')"
    "wp_ok A (ws_held ws \<union> Oth - {deferredPacket ws}) wp' \<Longrightarrow> stack_ok A Oth (ws \<lparr> deferredPacket := NULL \<rparr>, wp')"
proof -
  have d: "ws_distinct ws" "ws_held ws \<inter> Oth = {}" using assms by (auto simp: stack_ok_def)
  note r = ws_held_release [OF d(1) stack_okD(5) [OF assms] d(2)]
  show "wp_ok A (ws_held ws \<union> Oth - {inputPacket ws}) wp' \<Longrightarrow> stack_ok A Oth (ws \<lparr> inputPacket := NULL \<rparr>, wp')"
    "wp_ok A (ws_held ws \<union> Oth - {outputPacket ws}) wp' \<Longrightarrow> stack_ok A Oth (ws \<lparr> outputPacket := NULL \<rparr>, wp')"
    "wp_ok A (ws_held ws \<union> Oth - {deferredPacket ws}) wp' \<Longrightarrow> stack_ok A Oth (ws \<lparr> deferredPacket := NULL \<rparr>, wp')"
    unfolding r stack_ok_def prod.case using ws_distinct_release [of ws] d by blast+
qed

lemma stack_ok_acquire:
  assumes "stack_ok A Oth (ws, wp)" "p \<noteq> NULL" "p \<notin> ws_held ws \<union> Oth" "wp_ok A' (insert p (ws_held ws \<union> Oth)) wp'"
  shows "inputPacket ws = NULL \<Longrightarrow> stack_ok A' Oth (ws \<lparr> inputPacket := p \<rparr>, wp')"
    "outputPacket ws = NULL \<Longrightarrow> stack_ok A' Oth (ws \<lparr> outputPacket := p \<rparr>, wp')"
    "deferredPacket ws = NULL \<Longrightarrow> stack_ok A' Oth (ws \<lparr> deferredPacket := p \<rparr>, wp')"
proof -
  have d: "ws_held ws \<inter> Oth = {}" "ws_distinct ws" "p \<notin> ws_held ws" using assms by (auto simp: stack_ok_def)
  note a = ws_held_acquire [OF assms(2), of ws] ws_distinct_acquire [OF assms(2) d(3,2)]
  show "inputPacket ws = NULL \<Longrightarrow> stack_ok A' Oth (ws \<lparr> inputPacket := p \<rparr>, wp')"
    "outputPacket ws = NULL \<Longrightarrow> stack_ok A' Oth (ws \<lparr> outputPacket := p \<rparr>, wp')"
    "deferredPacket ws = NULL \<Longrightarrow> stack_ok A' Oth (ws \<lparr> deferredPacket := p \<rparr>, wp')"
    using a assms(3,4) d(1) by (simp_all add: stack_ok_def)
qed

lemma stack_ok_counts [simp]:
  "stack_ok A Oth (ws \<lparr> pushCount := n \<rparr>, wp) = stack_ok A Oth (ws, wp)"
  "stack_ok A Oth (ws \<lparr> workPacketsExchanged := n \<rparr>, wp) = stack_ok A Oth (ws, wp)"
  "stack_ok A Oth (ws \<lparr> ws_workPackets := a \<rparr>, wp) = stack_ok A Oth (ws, wp)"
  by (simp_all add: stack_ok_def ws_held_def ws_distinct_def)

section \<open>Adding work\<close>

text \<open>A step that adds the elements \<open>X\<close>: all of them are in packets or with the overflow handler afterwards.\<close>

definition added :: "('o \<Rightarrow> addr multiset \<Rightarrow> bool) \<Rightarrow> ('o \<Rightarrow> addr \<Rightarrow> bool) \<Rightarrow> ('o \<Rightarrow> addr multiset) \<Rightarrow> addr multiset \<Rightarrow>
    addr set \<Rightarrow> 'o WorkPackets \<Rightarrow> addr set \<Rightarrow> 'o WorkPackets \<Rightarrow> bool" where
  "added accepts keeps stored X A wp A' wp' \<longleftrightarrow> A \<subseteq> A' \<and> keeps (overflowState wp') = keeps (overflowState wp) \<and>
     (\<exists>Ov. work A wp + X = work A' wp' + Ov \<and>
        stored (overflowState wp') = stored (overflowState wp) + filter_mset (keeps (overflowState wp)) Ov) \<and>
     (\<forall>W. accepts (overflowState wp) (work A wp + X + W) \<longrightarrow> accepts (overflowState wp') (work A' wp' + W))"

lemma carried_added:
  assumes "carried acc ke sto A wp A1 wp1" "added acc ke sto X A1 wp1 A2 wp2"
  shows "added acc ke sto X A wp A2 wp2"
proof -
  obtain O1 O2 where o: "work A wp = work A1 wp1 + O1" "sto (overflowState wp1) = sto (overflowState wp) + filter_mset (ke (overflowState wp)) O1"
    "work A1 wp1 + X = work A2 wp2 + O2" "sto (overflowState wp2) = sto (overflowState wp1) + filter_mset (ke (overflowState wp1)) O2"
    using assms by (auto simp: carried_def added_def)
  have k: "ke (overflowState wp1) = ke (overflowState wp)" "ke (overflowState wp2) = ke (overflowState wp1)" "A \<subseteq> A2"
    and a: "acc (overflowState wp) (work A wp + (X + W)) \<Longrightarrow> acc (overflowState wp1) (work A1 wp1 + (X + W))"
      "acc (overflowState wp1) (work A1 wp1 + X + W) \<Longrightarrow> acc (overflowState wp2) (work A2 wp2 + W)" for W
    using assms unfolding carried_def added_def by blast+
  have "work A wp + X = (work A1 wp1 + X) + O1" unfolding o(1) by simp
  then have "work A wp + X = work A2 wp2 + (O2 + O1)" unfolding o(3) by simp
  moreover have "sto (overflowState wp2) = sto (overflowState wp) + filter_mset (ke (overflowState wp)) (O2 + O1)"
    using o(2,4) k(1) by simp
  moreover have "acc (overflowState wp2) (work A2 wp2 + W)" if "acc (overflowState wp) (work A wp + X + W)" for W
    using a(1) [of W] a(2) [of W] that by (simp only: add.assoc)
  ultimately show ?thesis using k unfolding added_def by auto
qed

lemma added_trans:
  assumes "added acc ke sto X A wp A1 wp1" "added acc ke sto Y A1 wp1 A2 wp2"
  shows "added acc ke sto (X + Y) A wp A2 wp2"
proof -
  obtain O1 O2 where o: "work A wp + X = work A1 wp1 + O1" "sto (overflowState wp1) = sto (overflowState wp) + filter_mset (ke (overflowState wp)) O1"
    "work A1 wp1 + Y = work A2 wp2 + O2" "sto (overflowState wp2) = sto (overflowState wp1) + filter_mset (ke (overflowState wp1)) O2"
    using assms by (auto simp: added_def)
  have k: "ke (overflowState wp1) = ke (overflowState wp)" "ke (overflowState wp2) = ke (overflowState wp1)" "A \<subseteq> A2"
    and a: "acc (overflowState wp) (work A wp + X + (Y + W)) \<Longrightarrow> acc (overflowState wp1) (work A1 wp1 + (Y + W))"
      "acc (overflowState wp1) (work A1 wp1 + Y + W) \<Longrightarrow> acc (overflowState wp2) (work A2 wp2 + W)" for W
    using assms unfolding added_def by blast+
  have "work A wp + (X + Y) = (work A wp + X) + Y" by simp
  also have "\<dots> = (work A1 wp1 + Y) + O1" unfolding o(1) by simp
  finally have "work A wp + (X + Y) = work A2 wp2 + (O2 + O1)" unfolding o(3) by simp
  moreover have "sto (overflowState wp2) = sto (overflowState wp) + filter_mset (ke (overflowState wp)) (O2 + O1)"
    using o(2,4) k(1) by simp
  moreover have "acc (overflowState wp2) (work A2 wp2 + W)" if "acc (overflowState wp) (work A wp + (X + Y) + W)" for W
    using a(1) [of W] a(2) [of W] that by (simp only: add.assoc)
  ultimately show ?thesis using k unfolding added_def by auto
qed

lemma packet_added:
  assumes "finite A" "p \<in> A" "mset (pk_elems pk) = mset (pk_elems (wp_store wp p)) + X"
  shows "added acc ke sto X A wp A (wp \<lparr> wp_store := (wp_store wp)(p := pk) \<rparr>)"
proof -
  obtain R where "work A wp = mset (pk_elems (wp_store wp p)) + R"
    "work A (wp \<lparr> wp_store := (wp_store wp)(p := pk) \<rparr>) = mset (pk_elems pk) + R"
    using work_update [OF assms(1,2), of wp] by fastforce
  then have "work A (wp \<lparr> wp_store := (wp_store wp)(p := pk) \<rparr>) = work A wp + X" using assms(3) by simp
  then show ?thesis by (simp add: added_def)
qed

lemma held_push:
  assumes ok: "wp_ok A H wp" "p \<in> H" "push_packet p x wp = (b, wp')"
  shows "wp_ok A H wp'" "b \<longleftrightarrow> freeSlots (wp_store wp p) \<noteq> 0" "b \<Longrightarrow> added acc ke sto {#x#} A wp A wp'"
proof -
  let ?pk = "wp_store wp p"
  have w: "pk_wf ?pk" "p \<in> A" "finite A" using ok wp_okD [OF ok(1)] by auto
  note s = packet_push_spec [OF w(1), of x]
  have r: "b = fst (packet_push x ?pk)" "wp' = wp \<lparr> wp_store := (wp_store wp)(p := snd (packet_push x ?pk)) \<rparr>"
    using ok(3) by (auto simp: push_packet_def split: prod.splits)
  show "wp_ok A H wp'" unfolding r(2) by (rule wp_ok_held [OF ok(1,2) s(2)])
  show "b \<longleftrightarrow> freeSlots ?pk \<noteq> 0" using s(1) r(1) pk_elems_length [OF w(1)] by auto
  assume b
  then have "mset (pk_elems (snd (packet_push x ?pk))) = mset (pk_elems ?pk) + {#x#}" using s(3) r(1) by simp
  then show "added acc ke sto {#x#} A wp A wp'" unfolding r(2) by (rule packet_added [OF w(3,2)])
qed

lemma held_push2:
  assumes ok: "wp_ok A H wp" "p \<in> H" "push2_packet p x y wp = (b, wp')"
  shows "wp_ok A H wp'" "b \<longleftrightarrow> 2 \<le> freeSlots (wp_store wp p)" "b \<Longrightarrow> added acc ke sto {#x, y#} A wp A wp'"
proof -
  let ?pk = "wp_store wp p"
  have w: "pk_wf ?pk" "p \<in> A" "finite A" using ok wp_okD [OF ok(1)] by auto
  note s = packet_push2_spec [OF w(1), of x y]
  have r: "b = fst (packet_push2 x y ?pk)" "wp' = wp \<lparr> wp_store := (wp_store wp)(p := snd (packet_push2 x y ?pk)) \<rparr>"
    using ok(3) by (auto simp: push2_packet_def split: prod.splits)
  show "wp_ok A H wp'" unfolding r(2) by (rule wp_ok_held [OF ok(1,2) s(2)])
  show "b \<longleftrightarrow> 2 \<le> freeSlots ?pk" using s(1) r(1) pk_elems_length [OF w(1)] by auto
  assume b
  then have "mset (pk_elems (snd (packet_push2 x y ?pk))) = mset (pk_elems ?pk) + {#x, y#}" using s(3) r(1) by simp
  then show "added acc ke sto {#x, y#} A wp A wp'" unfolding r(2) by (rule packet_added [OF w(3,2)])
qed

lemma release_output:
  fixes env :: Environment
  assumes "stack_ok A Oth (ws, wp)"
  defines "wp' \<equiv> if outputPacket ws \<noteq> NULL then putOutputPacket env (outputPacket ws) wp else wp"
  shows "moved wp wp'" "stack_ok A Oth (ws \<lparr> outputPacket := NULL \<rparr>, wp')"
proof -
  have "moved wp wp' \<and> stack_ok A Oth (ws \<lparr> outputPacket := NULL \<rparr>, wp')"
  proof (cases "outputPacket ws = NULL")
    case True
    then have "ws \<lparr> outputPacket := NULL \<rparr> = ws" by (cases ws) simp
    then show ?thesis using assms(1) True by (simp only: wp'_def) simp
  next
    case False
    then have "outputPacket ws \<in> ws_held ws \<union> Oth" by (simp add: ws_held_def)
    note p = putPacket_ok [OF stack_okD(1) [OF assms(1)] this, where env = env]
    then show ?thesis using False stack_ok_release(2) [OF assms(1) p(2)] by (simp add: wp'_def putOutputPacket_def)
  qed
  then show "moved wp wp'" "stack_ok A Oth (ws \<lparr> outputPacket := NULL \<rparr>, wp')" by simp_all
qed

context overflow_handler
begin

lemma overflowItem_step:
  assumes ok: "wp_ok A H wp" and a: "accepts (overflowState wp) (work A wp + {#x#} + W)"
  shows "\<exists>wp'. wp_overflowItem h x ty wp = Some wp' \<and> wp_ok A H wp' \<and> added accepts keeps stored {#x#} A wp A wp'"
proof -
  let ?ov = "overflowState wp" and ?n = "activePackets wp"
  have e: "\<exists>ov'. oh_overflowItem h ?n ty x ?ov = Some ov' \<and> accepts ov' (work A wp + V) \<and>
      stored ov' = stored ?ov + filter_mset (keeps ?ov) {#x#} \<and> keeps ov' = keeps ?ov"
    if "accepts ?ov (work A wp + {#x#} + V)" for V
    using one_item [of ?ov x "work A wp + V" ?n ty] that by auto
  obtain ov' where o: "oh_overflowItem h ?n ty x ?ov = Some ov'" "stored ov' = stored ?ov + filter_mset (keeps ?ov) {#x#}"
    "keeps ov' = keeps ?ov" using e [OF a] by auto
  have "accepts ov' (work A wp + V)" if "accepts ?ov (work A wp + {#x#} + V)" for V using e [OF that] o(1) by auto
  then have "added accepts keeps stored {#x#} A wp A (wp \<lparr> overflowState := ov' \<rparr>)"
    unfolding added_def using o(2,3) by (auto intro!: exI [of _ "{#x#}"])
  then show ?thesis using o(1) ok by (simp add: wp_overflowItem_def)
qed

lemma pushFailed_step:
  assumes s: "stack_ok A Oth (ws, wp)" and n: "NULL \<notin># work A wp" and a: "accepts (overflowState wp) (work A wp + {#x#} + W)"
  shows "\<exists>ws' wp' A'. pushFailed h env x (ws, wp) = Some (ws', wp') \<and> stack_ok A' Oth (ws', wp') \<and>
    added accepts keeps stored {#x#} A wp A' wp'"
proof -
  define w1 where "w1 = (if outputPacket ws \<noteq> NULL then putOutputPacket env (outputPacket ws) wp else wp)"
  note r = release_output [OF s, where env = env, folded w1_def]
  let ?ws = "ws \<lparr> outputPacket := NULL \<rparr>" and ?H = "ws_held (ws \<lparr> outputPacket := NULL \<rparr>) \<union> Oth"
  have w: "work A w1 = work A wp" "overflowState w1 = overflowState wp" using moved_work [OF r(1)] moved_fields(3) [OF r(1)] by auto
  have "NULL \<notin># work A w1" "accepts (overflowState w1) (work A w1 + ({#x#} + W))" using n a by (simp_all add: w)
  from getOutputPacket_got [OF stack_okD(1) [OF r(2)] this, of env] obtain p w2 A' where
    g: "getOutputPacket h env w1 = Some (p, w2)" "carried accepts keeps stored A w1 A' w2" "got A' ?H p w2" by blast
  have c: "carried accepts keeps stored A wp A' w2" using carried_trans [OF moved_carried [OF r(1)] g(2)] .
  show ?thesis
  proof (cases "p = NULL")
    case True
    then have ok2: "wp_ok A' ?H w2" using g(3) by (simp add: got_def)
    have "accepts (overflowState w2) (work A' w2 + {#x#} + W)" using c a unfolding carried_def by (simp only: add.assoc)
    from overflowItem_step [OF ok2 this, of OVERFLOW_TYPE_WORKSTACK] obtain w3 where
      o: "wp_overflowItem h x OVERFLOW_TYPE_WORKSTACK w2 = Some w3" "wp_ok A' ?H w3" "added accepts keeps stored {#x#} A' w2 A' w3" by blast
    have "pushFailed h env x (ws, wp) = Some (?ws, w3)" 
      using True g(1) o(1) unfolding pushFailed_def prod.case w1_def [symmetric] Let_def by simp
    moreover have "stack_ok A' Oth (?ws, w3)" using o(2) r(2) by (simp add: stack_ok_def)
    ultimately show ?thesis using carried_added [OF c o(3)] by blast
  next
    case False
    let ?ws' = "ws \<lparr> outputPacket := p, pushCount := uadd (pushCount ws) 1 \<rparr>"
    have ok2: "p \<notin> ?H" "wp_ok A' (insert p ?H) w2" "2 \<le> freeSlots (wp_store w2 p)" using g(3) False by (auto simp: got_def)
    obtain b w3 where q: "push_packet p x w2 = (b, w3)" by fastforce
    note hp = held_push [OF ok2(2) insertI1 q]
    have b using hp(2) ok2(3) by simp
    have "pushFailed h env x (ws, wp) = Some (?ws', w3)" 
      using False g(1) q unfolding pushFailed_def prod.case w1_def [symmetric] Let_def by simp
    moreover have "stack_ok A' Oth (?ws', w3)"
      using stack_ok_acquire(2) [OF r(2) False ok2(1) hp(1)] by simp
    ultimately show ?thesis using carried_added [OF c hp(3) [OF \<open>b\<close>]] by blast
  qed
qed

lemma push_step:
  assumes s: "stack_ok A Oth (ws, wp)" and n: "NULL \<notin># work A wp" and a: "accepts (overflowState wp) (work A wp + {#x#} + W)"
  shows "\<exists>ws' wp' A'. ws_push h env x (ws, wp) = Some (ws', wp') \<and> stack_ok A' Oth (ws', wp') \<and>
    added accepts keeps stored {#x#} A wp A' wp'"
proof (cases "outputPacket ws \<noteq> NULL \<and> fst (push_packet (outputPacket ws) x wp)")
  case True
  then obtain w1 where q: "push_packet (outputPacket ws) x wp = (True, w1)" by (cases "push_packet (outputPacket ws) x wp") auto
  have "outputPacket ws \<in> ws_held ws \<union> Oth" using True by (simp add: ws_held_def)
  note hp = held_push [OF stack_okD(1) [OF s] this q]
  have "ws_push h env x (ws, wp) = Some (ws \<lparr> pushCount := uadd (pushCount ws) 1 \<rparr>, w1)" using True q by (simp add: ws_push_def)
  moreover have "stack_ok A Oth (ws \<lparr> pushCount := uadd (pushCount ws) 1 \<rparr>, w1)" using hp(1) s unfolding stack_ok_counts by (simp add: stack_ok_def)
  ultimately show ?thesis using hp(3) by blast
next
  case False
  then have "ws_push h env x (ws, wp) = pushFailed h env x (ws, wp)" by (auto simp: ws_push_def)
  then show ?thesis using pushFailed_step [OF assms, of env] by metis
qed

lemma pushFailed2_step:
  assumes s: "stack_ok A Oth (ws, wp)" and n: "NULL \<notin># work A wp"
    and a: "accepts (overflowState wp) (work A wp + {#x, y#} + W)"
  shows "\<exists>ws' wp' A'. pushFailed2 h env x y (ws, wp) = Some (ws', wp') \<and> stack_ok A' Oth (ws', wp') \<and>
    added accepts keeps stored {#x, y#} A wp A' wp'"
proof -
  define w1 where "w1 = (if outputPacket ws \<noteq> NULL then putOutputPacket env (outputPacket ws) wp else wp)"
  note r = release_output [OF s, where env = env, folded w1_def]
  let ?ws = "ws \<lparr> outputPacket := NULL \<rparr>" and ?H = "ws_held (ws \<lparr> outputPacket := NULL \<rparr>) \<union> Oth"
  have w: "work A w1 = work A wp" "overflowState w1 = overflowState wp" using moved_work [OF r(1)] moved_fields(3) [OF r(1)] by auto
  have "NULL \<notin># work A w1" "accepts (overflowState w1) (work A w1 + ({#x, y#} + W))" using n a by (simp_all add: w)
  from getOutputPacket_got [OF stack_okD(1) [OF r(2)] this, of env] obtain p w2 A' where
    g: "getOutputPacket h env w1 = Some (p, w2)" "carried accepts keeps stored A w1 A' w2" "got A' ?H p w2" by blast
  have c: "carried accepts keeps stored A wp A' w2" using carried_trans [OF moved_carried [OF r(1)] g(2)] .
  show ?thesis
  proof (cases "p = NULL")
    case True
    then have ok2: "wp_ok A' ?H w2" using g(3) by (simp add: got_def)
    have e: "{#x, y#} = {#x#} + {#y#}" by simp
    have "accepts (overflowState w2) (work A' w2 + {#x#} + ({#y#} + W))"
      using c a unfolding carried_def e by (simp only: add.assoc)
    from overflowItem_step [OF ok2 this, of OVERFLOW_TYPE_WORKSTACK] obtain w3 where
      o: "wp_overflowItem h x OVERFLOW_TYPE_WORKSTACK w2 = Some w3" "wp_ok A' ?H w3" "added accepts keeps stored {#x#} A' w2 A' w3" by blast
    have "accepts (overflowState w3) (work A' w3 + {#y#} + W)"
      using o(3) \<open>accepts (overflowState w2) (work A' w2 + {#x#} + ({#y#} + W))\<close> unfolding added_def by (simp only: add.assoc)
    from overflowItem_step [OF o(2) this, of OVERFLOW_TYPE_WORKSTACK] obtain w4 where
      q: "wp_overflowItem h y OVERFLOW_TYPE_WORKSTACK w3 = Some w4" "wp_ok A' ?H w4" "added accepts keeps stored {#y#} A' w3 A' w4" by blast
    have "pushFailed2 h env x y (ws, wp) = Some (?ws, w4)"
      using True g(1) o(1) q(1) unfolding pushFailed2_def prod.case w1_def [symmetric] Let_def by simp
    moreover have "stack_ok A' Oth (?ws, w4)" using q(2) r(2) by (simp add: stack_ok_def)
    ultimately show ?thesis using carried_added [OF c added_trans [OF o(3) q(3)]] unfolding e by blast
  next
    case False
    let ?ws' = "ws \<lparr> outputPacket := p, pushCount := uadd (pushCount ws) 2 \<rparr>"
    have ok2: "p \<notin> ?H" "wp_ok A' (insert p ?H) w2" "2 \<le> freeSlots (wp_store w2 p)" using g(3) False by (auto simp: got_def)
    obtain b w3 where q: "push2_packet p x y w2 = (b, w3)" by fastforce
    note hp = held_push2 [OF ok2(2) insertI1 q]
    have b using hp(2) ok2(3) by simp
    have "pushFailed2 h env x y (ws, wp) = Some (?ws', w3)"
      using False g(1) q unfolding pushFailed2_def prod.case w1_def [symmetric] Let_def by simp
    moreover have "stack_ok A' Oth (?ws', w3)"
      using stack_ok_acquire(2) [OF r(2) False ok2(1) hp(1)] by simp
    ultimately show ?thesis using carried_added [OF c hp(3) [OF \<open>b\<close>]] by blast
  qed
qed

lemma push2_step:
  assumes s: "stack_ok A Oth (ws, wp)" and n: "NULL \<notin># work A wp"
    and a: "accepts (overflowState wp) (work A wp + {#x, y#} + W)"
  shows "\<exists>ws' wp' A'. ws_push2 h env x y (ws, wp) = Some (ws', wp') \<and> stack_ok A' Oth (ws', wp') \<and>
    added accepts keeps stored {#x, y#} A wp A' wp'"
proof (cases "outputPacket ws \<noteq> NULL \<and> fst (push2_packet (outputPacket ws) x y wp)")
  case True
  then obtain w1 where q: "push2_packet (outputPacket ws) x y wp = (True, w1)" by (cases "push2_packet (outputPacket ws) x y wp") auto
  have "outputPacket ws \<in> ws_held ws \<union> Oth" using True by (simp add: ws_held_def)
  note hp = held_push2 [OF stack_okD(1) [OF s] this q]
  have "ws_push2 h env x y (ws, wp) = Some (ws \<lparr> pushCount := uadd (pushCount ws) 2 \<rparr>, w1)" using True q by (simp add: ws_push2_def)
  moreover have "stack_ok A Oth (ws \<lparr> pushCount := uadd (pushCount ws) 2 \<rparr>, w1)"
    using hp(1) s unfolding stack_ok_counts by (simp add: stack_ok_def)
  ultimately show ?thesis using hp(3) by blast
next
  case False
  then have "ws_push2 h env x y (ws, wp) = pushFailed2 h env x y (ws, wp)" by (auto simp: ws_push2_def)
  then show ?thesis using pushFailed2_step [OF assms, of env] by metis
qed

end

lemma release_deferred:
  fixes env :: Environment
  assumes "stack_ok A Oth (ws, wp)"
  defines "wp' \<equiv> if deferredPacket ws \<noteq> NULL then putDeferredPacket env (deferredPacket ws) wp else wp"
  shows "moved wp wp'" "stack_ok A Oth (ws \<lparr> deferredPacket := NULL \<rparr>, wp')"
proof -
  have "moved wp wp' \<and> stack_ok A Oth (ws \<lparr> deferredPacket := NULL \<rparr>, wp')"
  proof (cases "deferredPacket ws = NULL")
    case True
    then have "ws \<lparr> deferredPacket := NULL \<rparr> = ws" by (cases ws) simp
    then show ?thesis using assms(1) True by (simp only: wp'_def) simp
  next
    case False
    then have "deferredPacket ws \<in> ws_held ws \<union> Oth" by (simp add: ws_held_def)
    note p = putDeferredPacket_ok [OF stack_okD(1) [OF assms(1)] this, where env = env]
    then show ?thesis using False stack_ok_release(3) [OF assms(1) p(2)] by (simp add: wp'_def)
  qed
  then show "moved wp wp'" "stack_ok A Oth (ws \<lparr> deferredPacket := NULL \<rparr>, wp')" by simp_all
qed

lemma getDeferredPacket_ok:
  assumes "wp_ok A H wp" "getDeferredPacket env wp = (p, wp')"
  shows "moved wp wp' \<and> (if p = NULL then wp_ok A H wp' else p \<in> A - H \<and> wp_ok A (insert p H) wp' \<and> freeSlots (wp_store wp' p) \<noteq> 0)"
proof -
  obtain q w1 where g: "getPacket env deferredPacketList wp = (q, w1)" by fastforce
  note k = getPacket_ok [OF assms(1) g]
  show ?thesis
  proof (cases "q = NULL")
    case False
    then have "p = q" "wp' = w1" using assms(2) g by (simp_all add: getDeferredPacket_def)
    then show ?thesis using False k(1,3) by (auto simp: in_class_def)
  next
    case True
    then have "getPacket env emptyPacketList wp = (p, wp')" using assms(2) g k(2) by (simp add: getDeferredPacket_def)
    from getPacket_got [OF assms(1) this] show ?thesis by (auto simp: got_def split: if_splits)
  qed
qed

context overflow_handler
begin

lemma pushDefer_step:
  assumes s: "stack_ok A Oth (ws, wp)" and n: "NULL \<notin># work A wp" and a: "accepts (overflowState wp) (work A wp + {#x#} + W)"
  shows "\<exists>ws' wp' A'. pushDefer h env x (ws, wp) = Some (ws', wp') \<and> stack_ok A' Oth (ws', wp') \<and>
    added accepts keeps stored {#x#} A wp A' wp'"
proof (cases "deferredPacket ws \<noteq> NULL \<and> fst (push_packet (deferredPacket ws) x wp)")
  case True
  then obtain w1 where q: "push_packet (deferredPacket ws) x wp = (True, w1)" by (cases "push_packet (deferredPacket ws) x wp") auto
  have "deferredPacket ws \<in> ws_held ws \<union> Oth" using True by (simp add: ws_held_def)
  note hp = held_push [OF stack_okD(1) [OF s] this q]
  have "pushDefer h env x (ws, wp) = Some (ws, w1)" using True q by (simp add: pushDefer_def)
  moreover have "stack_ok A Oth (ws, w1)" using hp(1) s by (simp add: stack_ok_def)
  ultimately show ?thesis using hp(3) by blast
next
  case no: False
  define w1 where "w1 = (if deferredPacket ws \<noteq> NULL then putDeferredPacket env (deferredPacket ws) wp else wp)"
  note r = release_deferred [OF s, where env = env, folded w1_def]
  let ?ws = "ws \<lparr> deferredPacket := NULL \<rparr>" and ?H = "ws_held (ws \<lparr> deferredPacket := NULL \<rparr>) \<union> Oth"
  obtain p w2 where g: "getDeferredPacket env w1 = (p, w2)" by fastforce
  note k = getDeferredPacket_ok [OF stack_okD(1) [OF r(2)] g]
  then have m: "moved wp w2" using moved_trans [OF r(1)] by blast
  note c = moved_carried [OF m, of accepts keeps stored A]
  have run: "pushDefer h env x (ws, wp) = (if p \<noteq> NULL then Some (ws \<lparr> deferredPacket := p \<rparr>, snd (push_packet p x w2))
      else ws_push h env x (?ws, w2))"
    using no g unfolding pushDefer_def prod.case w1_def [symmetric] Let_def by auto
  show ?thesis
  proof (cases "p = NULL")
    case False
    then have p: "p \<notin> ?H" "wp_ok A (insert p ?H) w2" "freeSlots (wp_store w2 p) \<noteq> 0" using k by auto
    obtain b w3 where q: "push_packet p x w2 = (b, w3)" by fastforce
    note hp = held_push [OF p(2) insertI1 q]
    have b using hp(2) p(3) by simp
    have "stack_ok A Oth (ws \<lparr> deferredPacket := p \<rparr>, w3)" using stack_ok_acquire(3) [OF r(2) False p(1) hp(1)] by simp
    then show ?thesis using run False q carried_added [OF c hp(3) [OF \<open>b\<close>]] by auto
  next
    case True
    then have s2: "stack_ok A Oth (?ws, w2)" using k r(2) by (simp add: stack_ok_def)
    have "NULL \<notin># work A w2" "accepts (overflowState w2) (work A w2 + {#x#} + W)"
      using n a moved_work [OF m, of A] moved_fields(3) [OF m] by simp_all
    from push_step [OF s2 this, of env] True run carried_added [OF c] show ?thesis by metis
  qed
qed

end

end
