(* ===== verification/Stack_Pop.thy ===== *)
theory Stack_Pop
  imports Stack_Correct
begin

text \<open>
  Taking work: input packets, \<open>pop\<close> and the end of work.
\<close>

section \<open>Input packets\<close>

abbreviation (input) input_kinds :: "packetListKind set" where
  "input_kinds \<equiv> {fullPacketList, relativelyFullPacketList, nonEmptyPacketList}"

lemma input_class_elems: "in_class k pk \<Longrightarrow> k \<in> input_kinds \<Longrightarrow> pk_wf pk \<Longrightarrow> pk_elems pk \<noteq> []"
  using pk_elems_length [of pk] by (auto simp: in_class_def packet_class_def SLOTS_IN_PACKET_def split: if_splits)

lemma empty_class_elems: "in_class emptyPacketList pk \<Longrightarrow> pk_wf pk \<Longrightarrow> pk_elems pk = []"
  using pk_elems_length [of pk] by (auto simp: in_class_def packet_class_def split: if_splits)

lemma input_order_set: "set (input_order wp) = input_kinds"
  by (auto simp: input_order_def)

text \<open>What getting an input packet results in; \<open>NULL\<close> exactly when no input packet is available.\<close>

definition got_input :: "addr set \<Rightarrow> addr set \<Rightarrow> addr \<Rightarrow> 'o WorkPackets \<Rightarrow> bool" where
  "got_input A H p wp \<longleftrightarrow> p \<in> A - H \<and> wp_ok A (insert p H) wp \<and> pk_elems (wp_store wp p) \<noteq> []"

context overflow_handler
begin

lemma available_iff: "inputPacketAvailable h wp \<longleftrightarrow> (\<exists>k \<in> input_kinds. \<not> pl_isEmpty (wp_lists wp k))"
  by (auto simp: inputPacketAvailable_def always_empty)

lemma getInputPacketNoWait_step:
  assumes ok: "wp_ok A H wp"
  shows "\<exists>p wp'. getInputPacketNoWait h env wp = Some (p, wp') \<and> moved wp wp' \<and>
    (if inputPacketAvailable h wp then p \<noteq> NULL \<and> got_input A H p wp' else p = NULL \<and> wp' = wp)"
proof (cases "inputPacketAvailable h wp")
  case False
  then show ?thesis by (simp add: getInputPacketNoWait_def)
next
  case av: True
  obtain p w1 where g: "getPacket_from env (input_order wp) wp = (p, w1)" by fastforce
  note k = getPacket_from_ok [OF ok g, unfolded input_order_set]
  have p: "p \<noteq> NULL" using k av unfolding available_iff by blast
  let ?w = "if 0 < inputListWaitCount w1 \<and> inputPacketAvailable h w1 then notifyWaitingThreads w1 else w1"
  have run: "getInputPacketNoWait h env wp = Some (p, ?w)" using av g p by (simp add: getInputPacketNoWait_def)
  have m: "moved w1 ?w" using notifyWaitingThreads_spec(1) [of w1] by simp
  have ok1: "wp_ok A (insert p H) w1" and pA: "p \<in> A - H" using k p by auto
  then have ok2: "wp_ok A (insert p H) ?w" by (auto simp: wp_ok_def notifyWaitingThreads_spec(2))
  have "pk_wf (wp_store w1 p)" using wp_okD(4) [OF ok1] pA by simp
  then have "pk_elems (wp_store w1 p) \<noteq> []" using k p input_class_elems by blast
  then have "got_input A H p ?w" using pA ok2 moved_fields(7) [OF m] by (simp add: got_input_def)
  then show ?thesis using run p av k moved_trans [OF _ m] by (intro exI [of _ p] exI [of _ ?w]) simp
qed

lemma getInputPacket_alone:
  assumes "\<not> inputPacketAvailable h wp" "\<not> mustSyncThreadsAndExit task"
  defines "wp1 \<equiv> wp \<lparr> inputListWaitCount := uadd (inputListWaitCount wp) 1 \<rparr>"
  shows "getInputPacket h env task wp = (if last_to_wait task wp1 then
      Some (NULL, wp1 \<lparr> inputListDoneIndex := uadd (inputListDoneIndex wp) 1, inputListWaitCount := 0,
        wp_notified := wp_notified wp + 1 \<rparr>) else None)"
proof -
  have "\<not> inputPacketAvailable h wp1" using assms(1) by (simp add: inputPacketAvailable_def wp1_def)
  then show ?thesis using assms
    by (simp add: getInputPacket_def getInputPacket_loop.simps [of h env task "inputListDoneIndex wp" wp] Let_def)
qed

end

section \<open>Popping from a held packet\<close>

lemma held_pop:
  assumes ok: "wp_ok A H wp" "p \<in> H" "pop_packet p wp = (x, wp')"
  shows "wp_ok A H wp'" "overflowState wp' = overflowState wp" "wp_lists wp' = wp_lists wp"
    "pk_elems (wp_store wp p) = [] \<Longrightarrow> x = NULL \<and> wp' = wp"
    "pk_elems (wp_store wp p) \<noteq> [] \<Longrightarrow> work A wp = add_mset x (work A wp')"
proof -
  let ?pk = "wp_store wp p"
  have w: "pk_wf ?pk" "p \<in> A" "finite A" using ok wp_okD [OF ok(1)] by auto
  note s = packet_pop_spec [OF w(1)]
  have r: "x = fst (packet_pop ?pk)" "wp' = wp \<lparr> wp_store := (wp_store wp)(p := snd (packet_pop ?pk)) \<rparr>"
    using ok(3) by (auto simp: pop_packet_def split: prod.splits)
  show "wp_ok A H wp'" unfolding r(2) by (rule wp_ok_held [OF ok(1,2) s(2)])
  show "overflowState wp' = overflowState wp" "wp_lists wp' = wp_lists wp" by (simp_all add: r(2))
  { assume "pk_elems ?pk = []"
    then have "\<not> basePtr ?pk < currentPtr ?pk" by (auto simp: pk_elems_def)
    then have "packet_pop ?pk = (NULL, ?pk)" by (simp add: packet_pop_def)
    then show "x = NULL \<and> wp' = wp" using r by simp }
  assume ne: "pk_elems ?pk \<noteq> []"
  obtain R where R: "work A wp = mset (pk_elems ?pk) + R" "work A wp' = mset (pk_elems (snd (packet_pop ?pk))) + R"
    using work_update [OF w(3,2), of wp] r(2) by fastforce
  have e: "pk_elems ?pk = butlast (pk_elems ?pk) @ [x]" using ne s(1) r(1) by simp
  have "mset (pk_elems ?pk) = add_mset x (mset (butlast (pk_elems ?pk)))" by (subst (1) e) simp
  then show "work A wp = add_mset x (work A wp')" using R s(3) by simp
qed

lemma release_input:
  assumes "stack_ok A Oth (ws, wp)"
  shows "moved wp (snd (return_input env (ws, wp)))" "stack_ok A Oth (return_input env (ws, wp))"
    "fst (return_input env (ws, wp)) = ws \<lparr> inputPacket := NULL \<rparr>"
proof -
  have "moved wp (snd (return_input env (ws, wp))) \<and> stack_ok A Oth (return_input env (ws, wp)) \<and>
    fst (return_input env (ws, wp)) = ws \<lparr> inputPacket := NULL \<rparr>"
  proof (cases "inputPacket ws = NULL")
    case True
    then have "ws \<lparr> inputPacket := NULL \<rparr> = ws" by (cases ws) simp
    then show ?thesis using assms True by (simp add: return_input_def)
  next
    case False
    then have "inputPacket ws \<in> ws_held ws \<union> Oth" by (simp add: ws_held_def)
    note p = putPacket_ok [OF stack_okD(1) [OF assms] this, where env = env]
    then show ?thesis using False stack_ok_release(1) [OF assms p(2)] by (simp add: return_input_def)
  qed
  then show "moved wp (snd (return_input env (ws, wp)))" "stack_ok A Oth (return_input env (ws, wp))"
    "fst (return_input env (ws, wp)) = ws \<lparr> inputPacket := NULL \<rparr>" by simp_all
qed

text \<open>Exchanging an empty hand for the output packet.\<close>

lemma stack_ok_exchange:
  assumes "stack_ok A Oth (ws, wp)" "inputPacket ws = NULL" "outputPacket ws \<noteq> NULL"
  shows "stack_ok A Oth (ws \<lparr> inputPacket := outputPacket ws, outputPacket := NULL, workPacketsExchanged := n \<rparr>, wp)"
proof -
  have "ws_held (ws \<lparr> inputPacket := outputPacket ws, outputPacket := NULL, workPacketsExchanged := n \<rparr>) = ws_held ws"
    using assms(2) by (auto simp: ws_held_def)
  moreover have "ws_distinct (ws \<lparr> inputPacket := outputPacket ws, outputPacket := NULL, workPacketsExchanged := n \<rparr>)"
    using assms by (simp add: stack_ok_def ws_distinct_def)
  ultimately show ?thesis using assms(1) by (simp add: stack_ok_def)
qed

section \<open>Pop\<close>

text \<open>
  The outcome of a pop: an element leaves the work, or (\<open>NULL\<close>) no input packet is available and
  the stack's input and output packets are used up.
\<close>

definition popped :: "addr set \<Rightarrow> addr set \<Rightarrow> 'o OverflowHandler \<Rightarrow> 'o WorkPackets \<Rightarrow> addr \<Rightarrow> 'o stack \<Rightarrow> bool" where
  "popped A Oth h wp x = (\<lambda>(ws', wp'). stack_ok A Oth (ws', wp') \<and> overflowState wp' = overflowState wp \<and>
     (if x \<noteq> NULL then work A wp = add_mset x (work A wp')
      else work A wp' = work A wp \<and> \<not> inputPacketAvailable h wp' \<and> inputPacket ws' = NULL \<and>
        (outputPacket ws' \<noteq> NULL \<longrightarrow> pk_elems (wp_store wp' (outputPacket ws')) = [])))"

lemma pop_input_step:
  assumes s: "stack_ok A Oth (ws, wp)" and i: "inputPacket ws \<noteq> NULL" "pk_elems (wp_store wp (inputPacket ws)) \<noteq> []"
    and n: "NULL \<notin># work A wp" and w: "work A wp = work A wp0" "overflowState wp = overflowState wp0"
  shows "\<exists>x s'. pop_input (ws, wp) = (x, s') \<and> x \<noteq> NULL \<and> popped A Oth h wp0 x s'"
proof -
  obtain x wp' where p: "pop_packet (inputPacket ws) wp = (x, wp')" by fastforce
  have "inputPacket ws \<in> ws_held ws \<union> Oth" using i(1) by (simp add: ws_held_def)
  note h = held_pop [OF stack_okD(1) [OF s] this p]
  have "x \<noteq> NULL" using h(5) [OF i(2)] n by auto
  moreover have "stack_ok A Oth (ws, wp')" using s h(1) by (simp add: stack_ok_def)
  ultimately show ?thesis using p h(2,5) i(2) w by (simp add: pop_input_def popped_def)
qed

context overflow_handler
begin

lemma retrieveInputPacket_step:
  assumes s: "stack_ok A Oth (ws, wp)" and i: "inputPacket ws = NULL"
  shows "\<exists>ws' wp'. retrieveInputPacket h env (ws, wp) = Some (inputPacket ws' \<noteq> NULL, (ws', wp')) \<and> moved wp wp' \<and>
    stack_ok A Oth (ws', wp') \<and>
    (if inputPacket ws' \<noteq> NULL then pk_elems (wp_store wp' (inputPacket ws')) \<noteq> []
     else \<not> inputPacketAvailable h wp' \<and> (outputPacket ws' \<noteq> NULL \<longrightarrow> pk_elems (wp_store wp' (outputPacket ws')) = []))"
proof -
  obtain p w1 where g: "getInputPacketNoWait h env wp = Some (p, w1)" "moved wp w1"
    "if inputPacketAvailable h wp then p \<noteq> NULL \<and> got_input A (ws_held ws \<union> Oth) p w1 else p = NULL \<and> w1 = wp"
    using getInputPacketNoWait_step [OF stack_okD(1) [OF s], of env] by blast
  have same: "ws \<lparr> inputPacket := NULL \<rparr> = ws" using i by (cases ws) simp
  consider (input) "p \<noteq> NULL" | (swap) "p = NULL" "outputPacket ws \<noteq> NULL" "\<not> packet_isEmpty (wp_store w1 (outputPacket ws))"
    | (none) "p = NULL" "outputPacket ws = NULL \<or> packet_isEmpty (wp_store w1 (outputPacket ws))" by metis
  then show ?thesis
  proof cases
    case input
    let ?ws = "ws \<lparr> inputPacket := p \<rparr>"
    have q: "p \<in> A - (ws_held ws \<union> Oth)" "wp_ok A (insert p (ws_held ws \<union> Oth)) w1" "pk_elems (wp_store w1 p) \<noteq> []"
      using g(3) input by (auto simp: got_input_def split: if_splits)
    have "stack_ok A Oth (?ws, w1)" using stack_ok_acquire(1) [OF s input _ q(2) i] q(1) by blast
    then show ?thesis using g(1,2) input q(3)
      by (intro exI [of _ ?ws] exI [of _ w1]) (simp add: retrieveInputPacket_def Let_def)
  next
    case swap
    let ?ws = "ws \<lparr> inputPacket := outputPacket ws, outputPacket := NULL, workPacketsExchanged := uadd (workPacketsExchanged ws) 1 \<rparr>"
    have w: "w1 = wp" using g(3) swap(1) by (auto split: if_splits)
    have "stack_ok A Oth (?ws, w1)" using stack_ok_exchange [OF s i swap(2)] w by simp
    moreover have "pk_wf (wp_store wp (outputPacket ws))"
      using wp_okD(4) [OF stack_okD(1) [OF s]] stack_okD(4) [OF s] swap(2) by (auto simp: ws_held_def)
    then have "pk_elems (wp_store w1 (outputPacket ws)) \<noteq> []"
      using swap(3) w by (auto simp: packet_isEmpty_def pk_elems_def pk_wf_def)
    ultimately show ?thesis using g(1,2) swap
      by (intro exI [of _ ?ws] exI [of _ w1]) (simp add: retrieveInputPacket_def Let_def)
  next
    case none
    have w: "w1 = wp" "\<not> inputPacketAvailable h wp" using g(3) none(1) by (auto split: if_splits)
    have run: "retrieveInputPacket h env (ws, wp) = Some (inputPacket ws \<noteq> NULL, (ws, wp))"
      using g(1) none w same i by (auto simp: retrieveInputPacket_def Let_def)
    have "outputPacket ws \<noteq> NULL \<longrightarrow> pk_elems (wp_store wp (outputPacket ws)) = []"
      using none(2) w by (auto simp: packet_isEmpty_def pk_elems_def)
    then show ?thesis using run s w i by (intro exI [of _ ws] exI [of _ wp]) simp
  qed
qed

lemma popNoWaitFailed_step:
  assumes s: "stack_ok A Oth (ws, wp)" and n: "NULL \<notin># work A wp"
  shows "\<exists>x s'. popNoWaitFailed h env (ws, wp) = Some (x, s') \<and> popped A Oth h wp x s'"
proof -
  obtain ws1 w1 where r: "return_input env (ws, wp) = (ws1, w1)" by fastforce
  note ri = release_input [OF s, of env, unfolded r fst_conv snd_conv]
  obtain ws2 w2 where q: "retrieveInputPacket h env (ws1, w1) = Some (inputPacket ws2 \<noteq> NULL, (ws2, w2))" "moved w1 w2"
    "stack_ok A Oth (ws2, w2)" "if inputPacket ws2 \<noteq> NULL then pk_elems (wp_store w2 (inputPacket ws2)) \<noteq> []
     else \<not> inputPacketAvailable h w2 \<and> (outputPacket ws2 \<noteq> NULL \<longrightarrow> pk_elems (wp_store w2 (outputPacket ws2)) = [])"
    using retrieveInputPacket_step [OF ri(2), of env] ri(3) by auto
  have m: "moved wp w2" using moved_trans [OF ri(1) q(2)] .
  note w = moved_work [OF m, of A] moved_fields(3) [OF m]
  show ?thesis
  proof (cases "inputPacket ws2 = NULL")
    case True
    then show ?thesis using r q w by (simp add: popNoWaitFailed_def popped_def)
  next
    case False
    then obtain x s' where "pop_input (ws2, w2) = (x, s')" "popped A Oth h wp x s'"
      using pop_input_step [OF q(3), of wp h] q(4) n w by auto
    then show ?thesis using r q(1) False by (simp add: popNoWaitFailed_def)
  qed
qed

lemma popFailed_step:
  assumes s: "stack_ok A Oth (ws, wp)" and n: "NULL \<notin># work A wp" and y: "\<not> mustSyncThreadsAndExit task"
    and l: "last_to_wait task (wp \<lparr> inputListWaitCount := uadd (inputListWaitCount wp) 1 \<rparr>)"
  shows "\<exists>x s'. popFailed h env task (ws, wp) = Some (x, s') \<and> popped A Oth h wp x s'"
proof -
  obtain ws1 w1 where r: "return_input env (ws, wp) = (ws1, w1)" by fastforce
  note ri = release_input [OF s, of env, unfolded r fst_conv snd_conv]
  obtain ws2 w2 where q: "retrieveInputPacket h env (ws1, w1) = Some (inputPacket ws2 \<noteq> NULL, (ws2, w2))" "moved w1 w2"
    "stack_ok A Oth (ws2, w2)" "if inputPacket ws2 \<noteq> NULL then pk_elems (wp_store w2 (inputPacket ws2)) \<noteq> []
     else \<not> inputPacketAvailable h w2 \<and> (outputPacket ws2 \<noteq> NULL \<longrightarrow> pk_elems (wp_store w2 (outputPacket ws2)) = [])"
    using retrieveInputPacket_step [OF ri(2), of env] ri(3) by auto
  have m: "moved wp w2" using moved_trans [OF ri(1) q(2)] .
  note w = moved_work [OF m, of A] moved_fields(3-5) [OF m]
  show ?thesis
  proof (cases "inputPacket ws2 = NULL")
    case True
    let ?w3 = "w2 \<lparr> inputListWaitCount := 0, inputListDoneIndex := uadd (inputListDoneIndex w2) 1, wp_notified := wp_notified w2 + 1 \<rparr>"
    have "\<not> inputPacketAvailable h w2" "ws2 \<lparr> inputPacket := NULL \<rparr> = ws2" using q(4) True by (simp, cases ws2) simp
    moreover have "last_to_wait task (w2 \<lparr> inputListWaitCount := uadd (inputListWaitCount w2) 1 \<rparr>)"
      using l w(3) by (simp add: last_to_wait_def split: option.splits)
    ultimately have "getInputPacket h env task w2 = Some (NULL, ?w3)" using getInputPacket_alone [OF _ y, of w2 env] by simp
    then have "popFailed h env task (ws, wp) = Some (NULL, (ws2, ?w3))"
      using r q(1) True \<open>ws2 \<lparr> inputPacket := NULL \<rparr> = ws2\<close> by (simp add: popFailed_def Let_def)
    moreover have "\<not> inputPacketAvailable h ?w3" using q(4) True by (simp add: inputPacketAvailable_def)
    moreover have "stack_ok A Oth (ws2, ?w3)" using q(3) by (simp add: stack_ok_def)
    ultimately show ?thesis using q(4) True w(1,2) by (simp add: popped_def)
  next
    case False
    then obtain x s' where "pop_input (ws2, w2) = (x, s')" "popped A Oth h wp x s'"
      using pop_input_step [OF q(3), of wp h] q(4) n w by auto
    then show ?thesis using r q(1) False by (simp add: popFailed_def)
  qed
qed

text \<open>The inlined first part, shared by \<open>pop\<close> and \<open>popNoWait\<close>.\<close>

lemma pop_first:
  assumes s: "stack_ok A Oth (ws, wp)" and n: "NULL \<notin># work A wp"
  shows "(inputPacket ws \<noteq> NULL \<and> fst (pop_packet (inputPacket ws) wp) \<noteq> NULL \<longrightarrow>
      (\<exists>x s'. pop_input (ws, wp) = (x, s') \<and> popped A Oth h wp x s')) \<and>
    (\<not> (inputPacket ws \<noteq> NULL \<and> fst (pop_packet (inputPacket ws) wp) \<noteq> NULL) \<longrightarrow>
      (if inputPacket ws \<noteq> NULL then snd (pop_packet (inputPacket ws) wp) else wp) = wp)"
proof (cases "inputPacket ws = NULL")
  case False
  obtain x w1 where p: "pop_packet (inputPacket ws) wp = (x, w1)" by fastforce
  have "inputPacket ws \<in> ws_held ws \<union> Oth" using False by (simp add: ws_held_def)
  note hp = held_pop [OF stack_okD(1) [OF s] this p]
  show ?thesis
  proof (cases "pk_elems (wp_store wp (inputPacket ws)) = []")
    case True
    then show ?thesis using p hp(4) by simp
  next
    case ne: False
    then have "x \<noteq> NULL" using hp(5) n by auto
    then show ?thesis using pop_input_step [OF s False ne n refl refl, of h] p by auto
  qed
qed simp

lemma pop_step:
  assumes s: "stack_ok A Oth (ws, wp)" and n: "NULL \<notin># work A wp" and y: "\<not> mustSyncThreadsAndExit task"
    and l: "last_to_wait task (wp \<lparr> inputListWaitCount := uadd (inputListWaitCount wp) 1 \<rparr>)"
  shows "\<exists>x s'. ws_pop h env task (ws, wp) = Some (x, s') \<and> popped A Oth h wp x s'"
proof (cases "inputPacket ws \<noteq> NULL \<and> fst (pop_packet (inputPacket ws) wp) \<noteq> NULL")
  case True
  then have "ws_pop h env task (ws, wp) = Some (pop_input (ws, wp))" by (simp add: ws_pop_def)
  then show ?thesis using pop_first [OF s n] True by auto
next
  case False
  then have "ws_pop h env task (ws, wp) = popFailed h env task (ws, wp)" using pop_first [OF s n] by (auto simp: ws_pop_def)
  then show ?thesis using popFailed_step [OF assms, of env] by simp
qed

lemma popNoWait_step:
  assumes s: "stack_ok A Oth (ws, wp)" and n: "NULL \<notin># work A wp"
  shows "\<exists>x s'. popNoWait h env (ws, wp) = Some (x, s') \<and> popped A Oth h wp x s'"
proof (cases "inputPacket ws \<noteq> NULL \<and> fst (pop_packet (inputPacket ws) wp) \<noteq> NULL")
  case True
  then have "popNoWait h env (ws, wp) = Some (pop_input (ws, wp))" by (simp add: popNoWait_def)
  then show ?thesis using pop_first [OF s n] True by auto
next
  case False
  then have "popNoWait h env (ws, wp) = popNoWaitFailed h env (ws, wp)" using pop_first [OF s n] by (auto simp: popNoWait_def)
  then show ?thesis using popNoWaitFailed_step [OF assms, of env] by simp
qed

end

text \<open>When nothing is deferred and no other thread holds a packet, the end of work means no work at all.\<close>

lemma no_work_left:
  assumes "stack_ok A {} (ws, wp)" "\<forall>k. k \<noteq> emptyPacketList \<longrightarrow> pl_isEmpty (wp_lists wp k)"
    and "inputPacket ws = NULL" "deferredPacket ws = NULL" "outputPacket ws \<noteq> NULL \<longrightarrow> pk_elems (wp_store wp (outputPacket ws)) = []"
  shows "work A wp = {#}"
proof -
  let ?H = "ws_held ws"
  obtain K where K: "wp_inv K ?H wp" "A = all_packets K ?H" using assms(1) by (auto simp: stack_ok_def wp_ok_def)
  have e: "K k = {}" if "k \<noteq> emptyPacketList" for k
  proof -
    have "pl_set (wp_lists wp k) (wp_store wp) (K k)" using K(1) by (simp add: wp_inv_def)
    then show ?thesis using assms(2) that pl_set_isEmpty by blast
  qed
  have "pk_elems (wp_store wp p) = []" if pA: "p \<in> A" for p
  proof (cases "p \<in> ?H")
    case True
    then show ?thesis using assms(3-5) by (auto simp: ws_held_def)
  next
    case False
    then obtain k where "p \<in> K k" using pA K(2) by (auto simp: all_packets_def)
    then have "p \<in> K emptyPacketList" using e by (cases "k = emptyPacketList") auto
    then have "in_class emptyPacketList (wp_store wp p)" "pk_wf (wp_store wp p)" using K pA by (auto simp: wp_inv_def)
    then show ?thesis by (rule empty_class_elems)
  qed
  then show ?thesis by (simp add: work_def)
qed

section \<open>Flushing\<close>

lemma ws_flush_step:
  assumes s: "stack_ok A Oth (ws, wp)"
  shows "moved wp (snd (ws_flush env (ws, wp)))" "stack_ok A Oth (ws_flush env (ws, wp))" "ws_held (fst (ws_flush env (ws, wp))) = {}"
proof -
  obtain ws1 w1 where i: "return_input env (ws, wp) = (ws1, w1)" by fastforce
  note ri = release_input [OF s, of env, unfolded i fst_conv snd_conv]
  define w2 where "w2 = (if outputPacket ws1 \<noteq> NULL then putOutputPacket env (outputPacket ws1) w1 else w1)"
  note ro = release_output [OF ri(2), where env = env, folded w2_def]
  let ?ws2 = "ws1 \<lparr> outputPacket := NULL \<rparr>"
  define w3 where "w3 = (if deferredPacket ?ws2 \<noteq> NULL then putDeferredPacket env (deferredPacket ?ws2) w2 else w2)"
  note rd = release_deferred [OF ro(2), where env = env, folded w3_def]
  let ?ws3 = "?ws2 \<lparr> deferredPacket := NULL \<rparr>"
  have same: "outputPacket ws1 = NULL \<Longrightarrow> ?ws2 = ws1" "deferredPacket ?ws2 = NULL \<Longrightarrow> ?ws3 = ?ws2" by (cases ws1, simp)+
  have "ws_flush env (ws, wp) = (?ws3 \<lparr> ws_workPackets := NULL \<rparr>, w3)"
    using i same unfolding ws_flush_def return_input_def w3_def w2_def putOutputPacket_def Let_def prod.case
    by (auto split: if_splits)
  then show "moved wp (snd (ws_flush env (ws, wp)))" "stack_ok A Oth (ws_flush env (ws, wp))"
    "ws_held (fst (ws_flush env (ws, wp))) = {}"
    using moved_trans [OF ri(1) moved_trans [OF ro(1) rd(1)]] rd(2) ri(3) by (simp_all add: ws_held_def)
qed

end
