(* ===== verification/Work_Init.thy ===== *)
theory Work_Init
  imports Work_Conserve
begin

text \<open>
  Initialisation of the pool: the packet count, the blocks, and the failure when the forge does
  not provide them.
\<close>

section \<open>The number of packets\<close>

lemma roundToFloor_mult: "0 < g \<Longrightarrow> x < UMAX \<Longrightarrow> g dvd roundToFloor g x \<and> roundToFloor g x \<le> x"
proof -
  assume g: "0 < g" and x: "x < UMAX"
  have "roundToFloor g x = x - x mod g" using x by (simp add: roundToFloor_def usub_exact)
  then show ?thesis by simp
qed

lemma roundToCeiling_mult:
  assumes "0 < g" "x + g < UMAX"
  shows "g dvd roundToCeiling g x" "x \<le> roundToCeiling g x" "roundToCeiling g x < x + g"
proof -
  let ?r = "x mod g"
  have r: "?r < g" using assms(1) by simp
  have "roundToCeiling g x = (if ?r = 0 then x else x + (g - ?r))"
    using assms r by (simp add: roundToCeiling_def uadd_exact usub_exact)
  moreover have "g dvd x + (g - ?r)"
  proof -
    have "x + (g - ?r) = x div g * g + g" using r div_mult_mod_eq [of x g] by linarith
    then show ?thesis by simp
  qed
  moreover have "?r \<noteq> 0 \<Longrightarrow> x + (g - ?r) < x + g" "x \<le> x + (g - ?r)" using r by linarith+
  moreover have "?r = 0 \<Longrightarrow> g dvd x" by (simp add: mod_eq_0_iff_dvd)
  ultimately show "g dvd roundToCeiling g x" "x \<le> roundToCeiling g x" "roundToCeiling g x < x + g"
    using assms(1) by (cases "?r = 0"; simp only: if_True if_False simp_thms; simp)+
qed

lemma initialPacketCount_facts:
  assumes "workpacketCount < UMAX" "heuristicCount < UMAX" "2 * gcThreadCount + initialBlocks < UMAX"
  shows "initialBlocks dvd initialPacketCount workpacketCount heuristicCount gcThreadCount"
    "2 * gcThreadCount \<le> initialPacketCount workpacketCount heuristicCount gcThreadCount"
    "initialBlocks * minPacketsInBlock \<le> initialPacketCount workpacketCount heuristicCount gcThreadCount"
proof -
  let ?x = "if workpacketCount \<noteq> 0 then workpacketCount else heuristicCount"
  have b: "0 < initialBlocks" by (simp add: initialBlocks_def)
  have f: "initialBlocks dvd roundToFloor initialBlocks ?x" using roundToFloor_mult [OF b, of ?x] assms(1,2) by simp
  have u: "umul gcThreadCount 2 = 2 * gcThreadCount" using assms(3) by (simp add: umul_exact mult.commute)
  note c = roundToCeiling_mult [OF b assms(3)]
  have e: "initialPacketCount workpacketCount heuristicCount gcThreadCount =
      max (max (roundToFloor initialBlocks ?x) (initialBlocks * minPacketsInBlock)) (roundToCeiling initialBlocks (2 * gcThreadCount))"
    by (simp add: initialPacketCount_def u Let_def)
  show "initialBlocks dvd initialPacketCount workpacketCount heuristicCount gcThreadCount"
    unfolding e using f c(1) by (simp add: max_def)
  show "2 * gcThreadCount \<le> initialPacketCount workpacketCount heuristicCount gcThreadCount"
    "initialBlocks * minPacketsInBlock \<le> initialPacketCount workpacketCount heuristicCount gcThreadCount"
    unfolding e using c(2) by simp_all
qed

section \<open>Allocating the blocks\<close>

abbreviation blocks_given :: "addr list \<Rightarrow> nat" where
  "blocks_given forge \<equiv> length (takeWhile (\<lambda>b. b \<noteq> NULL) forge)"

lemma allocate_initial_ok:
  assumes "wp_ok A H wp" "wanted = activePackets wp + k * packetsPerBlock wp" "wanted \<le> maxPackets wp" "k < fuel"
  shows "\<exists>ok wp' A'. allocate_initial fuel wanted wp = Some (ok, wp') \<and> wp_ok A' H wp' \<and> grown A wp A' wp' \<and>
    (ok \<longleftrightarrow> k \<le> blocks_given (wp_forge wp)) \<and> (ok \<longrightarrow> activePackets wp' = wanted) \<and>
    (ok \<and> (0 < k \<or> \<not> pl_isEmpty (wp_lists wp emptyPacketList)) \<longrightarrow> \<not> pl_isEmpty (wp_lists wp' emptyPacketList))"
  using assms
proof (induction k arbitrary: fuel A wp)
  case 0
  then show ?case using moved_grown [OF moved_refl] by (cases fuel) auto
next
  case (Suc k)
  obtain fu where fu: "fuel = Suc fu" using Suc.prems(4) by (cases fuel) auto
  have n: "0 < packetsPerBlock wp" using Suc.prems(1) by (auto simp: wp_ok_def wp_inv_def blocks_ok_def)
  then have lt: "activePackets wp < wanted" "activePackets wp < maxPackets wp" using Suc.prems(2,3) by auto
  show ?case
  proof (cases "wp_forge wp = [] \<or> hd (wp_forge wp) = NULL")
    case True
    then obtain w1 where "initWorkPacketsBlock wp = Some (False, w1)" "wp_ok A H w1" "grown A wp A w1"
      using initWorkPacketsBlock_refuses [OF Suc.prems(1)] by blast
    moreover have "blocks_given (wp_forge wp) = 0" using True by (cases "wp_forge wp") auto
    ultimately show ?thesis using fu lt(1) by auto
  next
    case False
    then obtain b bs where b: "wp_forge wp = b # bs" "b \<noteq> NULL" by (cases "wp_forge wp") auto
    let ?A = "A \<union> set (block_headers b (packetsPerBlock wp))"
    obtain w1 where w1: "initWorkPacketsBlock wp = Some (True, w1)" "wp_ok ?A H w1" "grown A wp ?A w1"
      "\<not> pl_isEmpty (wp_lists w1 emptyPacketList)" "activePackets w1 = activePackets wp + packetsPerBlock wp" "packetsPerBlock w1 = packetsPerBlock wp"
      "maxPackets w1 = maxPackets wp" "wp_forge w1 = bs"
      using initWorkPacketsBlock_grows [OF Suc.prems(1) lt(2) b] by blast
    have "wanted = activePackets w1 + k * packetsPerBlock w1" using Suc.prems(2) w1(5,6) by simp
    moreover have "wanted \<le> maxPackets w1" "k < fu" using Suc.prems(3,4) w1(7) fu by simp_all
    ultimately obtain ok wp' A' where r: "allocate_initial fu wanted w1 = Some (ok, wp')" "wp_ok A' H wp'" "grown ?A w1 A' wp'"
      "ok \<longleftrightarrow> k \<le> blocks_given (wp_forge w1)" "ok \<longrightarrow> activePackets wp' = wanted" "ok \<longrightarrow> \<not> pl_isEmpty (wp_lists wp' emptyPacketList)"
      using Suc.IH [OF w1(2)] w1(4) by blast
    have "allocate_initial fuel wanted wp = Some (ok, wp')" using fu lt(1) w1(1) r(1) by simp
    moreover have "ok \<longleftrightarrow> Suc k \<le> blocks_given (wp_forge wp)" using r(4) w1(8) b by simp
    ultimately show ?thesis using r(2,5,6) grown_trans [OF w1(3) r(3)] by blast
  qed
qed

lemma empty_pool:
  assumes "0 < split" "pl_initialize split = Some pl" "initialBlocks dvd n" "0 < n" "increaseFactor * n < UMAX"
    and "forge_ok (n div initialBlocks) {} forge" "m \<le> increaseFactor * n"
  shows "wp_ok {} {} \<lparr> wp_store = st, wp_lists = (\<lambda>_. pl), packetsPerBlock = n div initialBlocks, maxPackets = m, activePackets = 0,
    packetsBlocksTop = 0, packetsStart = replicate maxPacketsBlocks NULL, inputListWaitCount = 0, inputListDoneIndex = 0,
    wp_notified = 0, overflowState = ov, wp_forge = forge \<rparr>" (is "wp_ok {} {} ?wp")
proof -
  obtain q where q: "n = initialBlocks * q" using assms(3) by (auto simp: dvd_def)
  have d: "n div initialBlocks = q" "0 < q" using q assms(4) by (auto simp: initialBlocks_def)
  have "pl_inv (pl, st) (replicate split [])"
    using assms(1,2) by (auto simp: pl_initialize_def pl_inv_def sublist_ok_def)
  then have "pl_set pl st {}" by (auto simp: pl_set_def)
  moreover have "blocks_ok {} ?wp"
    using assms(5-7) d q by (simp add: blocks_ok_def maxPacketsBlocks_def algebra_simps)
  ultimately have "wp_inv (\<lambda>_. {}) {} ?wp" by (simp add: wp_inv_def all_packets_def)
  moreover have "all_packets (\<lambda>_. {}) {} = {}" by (simp add: all_packets_def)
  ultimately show ?thesis unfolding wp_ok_def by metis
qed

lemma wp_initialize_step:
  fixes split workpacketCount heuristicCount gcThreadCount :: nat
  defines "n \<equiv> initialPacketCount workpacketCount heuristicCount gcThreadCount"
  assumes "0 < split" "workpacketCount < UMAX" "heuristicCount < UMAX" "2 * gcThreadCount + initialBlocks < UMAX"
    and "increaseFactor * n < UMAX" "forge_ok (n div initialBlocks) {} forge"
  shows "\<exists>ok wp A. wp_initialize split workpacketCount heuristicCount gcThreadCount ov forge st = Some (ok, wp) \<and>
    wp_ok A {} wp \<and> work A wp = {#} \<and> overflowState wp = ov \<and> (ok \<longleftrightarrow> initialBlocks \<le> blocks_given forge) \<and>
    (ok \<longrightarrow> activePackets wp = n \<and> 2 * gcThreadCount \<le> activePackets wp \<and> \<not> pl_isEmpty (wp_lists wp emptyPacketList))"
proof -
  note f = initialPacketCount_facts [OF assms(3-5), folded n_def]
  have n: "0 < n" using f(3) by (simp add: initialBlocks_def minPacketsInBlock_def)
  obtain pl where pl: "pl_initialize split = Some pl" using assms(2) by (simp add: pl_initialize_def)
  let ?m = "if workpacketCount \<noteq> 0 then n else umul n increaseFactor"
  let ?wp = "\<lparr> wp_store = st, wp_lists = (\<lambda>_. pl), packetsPerBlock = n div initialBlocks, maxPackets = ?m, activePackets = 0,
    packetsBlocksTop = 0, packetsStart = replicate maxPacketsBlocks NULL, inputListWaitCount = 0, inputListDoneIndex = 0,
    wp_notified = 0, overflowState = ov, wp_forge = forge \<rparr>"
  have m: "?m \<le> increaseFactor * n" "n \<le> ?m"
    using assms(6) by (simp_all add: umul_exact mult.commute increaseFactor_def)
  note ok = empty_pool [OF assms(2) pl f(1) n assms(6,7) m(1), of st ov]
  have "n = activePackets ?wp + initialBlocks * packetsPerBlock ?wp" using f(1) by simp
  moreover have "initialBlocks < Suc maxPacketsBlocks" by (simp add: initialBlocks_def maxPacketsBlocks_def increaseFactor_def)
  ultimately obtain b wp A where r: "allocate_initial (Suc maxPacketsBlocks) n ?wp = Some (b, wp)" "wp_ok A {} wp" "grown {} ?wp A wp"
    "b \<longleftrightarrow> initialBlocks \<le> blocks_given forge" "b \<longrightarrow> activePackets wp = n" "b \<longrightarrow> \<not> pl_isEmpty (wp_lists wp emptyPacketList)"
    using allocate_initial_ok [OF ok, of n initialBlocks "Suc maxPacketsBlocks"] m(2) by (auto simp: initialBlocks_def)
  have "wp_initialize split workpacketCount heuristicCount gcThreadCount ov forge st = Some (b, wp)"
    using pl r(1) by (simp add: wp_initialize_def n_def [symmetric] Let_def)
  moreover have "work A wp = {#}" using grown_work [OF r(3) wp_okD(2) [OF r(2)]] by (simp add: work_def)
  moreover have "overflowState wp = ov" using r(3) by (simp add: grown_def)
  ultimately show ?thesis using r f(2) by auto
qed

end
