(* ===== verification/Work_Drain.thy ===== *)
theory Work_Drain
  imports Work_Conserve
begin

text \<open>
  Draining lists: \<open>resetAllPackets\<close> (abandon all work) and \<open>reuseDeferredPackets\<close> (make deferred work
  available).  Both loops end because every round takes a packet out of the list for good.
\<close>

text \<open>What is done to a packet between \<open>getPacket\<close> and \<open>putPacket\<close> depends on and changes its data only.\<close>

definition data_fun :: "(Packet \<Rightarrow> Packet) \<Rightarrow> bool" where
  "data_fun f \<longleftrightarrow> (\<forall>pk. pk_wf pk \<longrightarrow> pk_wf (f pk)) \<and> (\<forall>pk pk'. pk_data pk = pk_data pk' \<longrightarrow> pk_data (f pk) = pk_data (f pk'))"

lemma data_funD:
  assumes "data_fun f"
  shows "pk_wf pk \<Longrightarrow> pk_wf (f pk)" "pk_data pk = pk_data pk' \<Longrightarrow> pk_data (f pk) = pk_data (f pk')"
  using assms unfolding data_fun_def by blast+

definition drained :: "(Packet \<Rightarrow> Packet) \<Rightarrow> packetListKind \<Rightarrow> (packetListKind \<Rightarrow> addr set) \<Rightarrow> 'o WorkPackets \<Rightarrow>
    (packetListKind \<Rightarrow> addr set) \<Rightarrow> 'o WorkPackets \<Rightarrow> bool" where
  "drained f k K wp K' wp' \<longleftrightarrow> K' k = {} \<and> (\<forall>l. l \<noteq> k \<longrightarrow> K' l = K l \<union> {p \<in> K k. packet_class (freeSlots (f (wp_store wp p))) = l}) \<and>
     (\<forall>p. pk_data (wp_store wp' p) = pk_data (if p \<in> K k then f (wp_store wp p) else wp_store wp p)) \<and>
     wp' = wp \<lparr> wp_store := wp_store wp', wp_lists := wp_lists wp', wp_notified := wp_notified wp' \<rparr>"

lemma drain_round:
  assumes inv: "wp_inv K H wp" and f: "data_fun f" and g: "getPacket env k wp = (p, w1)" "p \<noteq> NULL"
    and c: "packet_class (freeSlots (f (wp_store wp p))) = l" "l \<noteq> k"
  defines "w2 \<equiv> putPacket env p (w1 \<lparr> wp_store := upd_packet p f (wp_store w1) \<rparr>)"
  shows "p \<in> K k" "wp_inv (K(k := K k - {p}, l := insert p (K l))) H w2"
    "pk_data (wp_store w2 q) = pk_data (if q = p then f (wp_store wp p) else wp_store wp q)"
    "w2 = wp \<lparr> wp_store := wp_store w2, wp_lists := wp_lists w2, wp_notified := wp_notified w2 \<rparr>"
proof -
  have *: "p \<in> K k \<and> moved wp w1 \<and> wp_inv (K(k := K k - {p})) (insert p H) w1 \<and> p \<notin> H"
  proof (cases rule: getPacket_cases [OF inv, of k env, case_names none packet])
    case (packet q wq)
    then show ?thesis using g(1) inv by (auto simp: wp_inv_def)
  qed (use g in simp)
  then have m: "moved wp w1" by simp
  from * show "p \<in> K k" by simp
  let ?K = "K(k := K k - {p})" and ?w = "w1 \<lparr> wp_store := upd_packet p f (wp_store w1) \<rparr>"
  have i1: "wp_inv ?K (insert p H) w1" using * by simp
  have d: "pk_data (f (wp_store w1 p)) = pk_data (f (wp_store wp p))" 
    by (rule data_funD(2) [OF f]) (use m in \<open>simp add: moved_def\<close>)
  have wf: "pk_wf (f (wp_store w1 p))" 
    by (rule data_funD(1) [OF f]) (use i1 in \<open>simp add: wp_inv_def all_packets_def\<close>)
  have i2: "wp_inv ?K (insert p H) ?w"
  proof -
    have n: "p \<notin> ?K j" for j using i1 unfolding wp_inv_def by blast
    have "pl_set (wp_lists w1 j) (wp_store ?w) (?K j)" for j
    proof (rule pl_set_frame)
      show "pl_set (wp_lists w1 j) (wp_store w1) (?K j)" using i1 by (simp add: wp_inv_def)
    qed (use n [of j] in \<open>auto simp: upd_packet_def\<close>)
    moreover have "in_class j (wp_store ?w q)" if "q \<in> ?K j" for j q
      using that n [of j] i1 unfolding wp_inv_def by (auto simp: upd_packet_def)
    moreover have "pk_wf (wp_store ?w q)" if "q \<in> all_packets ?K (insert p H)" for q
      using that wf i1 by (simp add: wp_inv_def upd_packet_def)
    ultimately show ?thesis using i1 unfolding wp_inv_def blocks_ok_store by simp
  qed
  have cl: "packet_class (freeSlots (wp_store ?w p)) = l" using c(1) pk_data_eqD(3) [OF d] by simp
  note p = putPacket_spec [OF i2 insertI1, where env = env, folded w2_def, unfolded cl]
  have "insert p H - {p} = H" using * by auto
  moreover have "?K(l := insert p (?K l)) = K(k := K k - {p}, l := insert p (K l))" using c(2) by auto
  ultimately show "wp_inv (K(k := K k - {p}, l := insert p (K l))) H w2" using p(2) by (simp only:)
  have "pk_data (wp_store w2 q) = pk_data (wp_store ?w q)" using p(1) by (simp add: moved_def)
  also have "\<dots> = pk_data (if q = p then f (wp_store wp p) else wp_store wp q)"
    using d m by (simp add: upd_packet_def moved_def)
  finally show "pk_data (wp_store w2 q) = pk_data (if q = p then f (wp_store wp p) else wp_store wp q)" .
  show "w2 = wp \<lparr> wp_store := wp_store w2, wp_lists := wp_lists w2, wp_notified := wp_notified w2 \<rparr>"
    using p(1) m unfolding moved_def by (cases wp, cases w1, cases w2) simp
qed

lemma drain_list_spec:
  assumes "wp_inv K H wp" "data_fun f"
    and "\<And>pk. pk_wf pk \<Longrightarrow> in_class k pk \<Longrightarrow> packet_class (freeSlots (f pk)) \<noteq> k"
  shows "\<exists>K' wp'. drain_list env f k wp = Some wp' \<and> wp_inv K' H wp' \<and> drained f k K wp K' wp'"
  using assms(1)
proof (induction "card (K k)" arbitrary: K wp)
  case 0
  have "finite (K k)" using "0.prems" pl_set_facts(1) unfolding wp_inv_def by blast
  then have "K k = {}" using "0.hyps" by simp
  show ?case
  proof (cases rule: getPacket_cases [OF "0.prems", of k env, case_names none packet])
    case none
    then have "drain_list env f k wp = Some wp" by (simp add: drain_list.simps)
    moreover have "drained f k K wp K wp" using none(1) by (simp add: drained_def)
    ultimately show ?thesis using "0.prems" by blast
  qed (use \<open>K k = {}\<close> in simp)
next
  case (Suc n)
  show ?case
  proof (cases rule: getPacket_cases [OF Suc.prems, of k env, case_names none packet])
    case none
    then show ?thesis using Suc.hyps(2) by simp
  next
    case (packet p w1)
    define l where "l = packet_class (freeSlots (f (wp_store wp p)))"
    have "pk_wf (wp_store wp p)" "in_class k (wp_store wp p)" using Suc.prems packet(2) by (auto simp: wp_inv_def all_packets_def)
    then have lk: "l \<noteq> k" using assms(3) by (simp add: l_def)
    define w2 where "w2 = putPacket env p (w1 \<lparr> wp_store := upd_packet p f (wp_store w1) \<rparr>)"
    note r = drain_round [OF Suc.prems assms(2) packet(1,3) l_def [symmetric] lk, folded w2_def]
    let ?K = "K(k := K k - {p}, l := insert p (K l))"
    have fin: "finite (K k)" using Suc.prems pl_set_facts(1) unfolding wp_inv_def by blast
    then have "n = card (?K k)" using Suc.hyps(2) packet(2) lk by simp
    from Suc.hyps(1) [OF this r(2)] obtain K' wp' where
      d: "drain_list env f k w2 = Some wp'" "wp_inv K' H wp'" "drained f k ?K w2 K' wp'" by blast
    have "drain_list env f k wp = Some wp'"
      using packet(1,3) d(1) by (subst drain_list.simps) (simp add: w2_def)
    moreover have "drained f k K wp K' wp'"
    proof -
      have cl: "packet_class (freeSlots (f (wp_store w2 q))) = packet_class (freeSlots (f (wp_store wp q)))" if "q \<noteq> p" for q
      proof -
        have "pk_data (f (wp_store w2 q)) = pk_data (f (wp_store wp q))"
          by (rule data_funD(2) [OF assms(2)]) (use that r(3) [of q] in simp)
        from pk_data_eqD(3) [OF this] show ?thesis by simp
      qed
      have e: "{q \<in> ?K k. packet_class (freeSlots (f (wp_store w2 q))) = j} = {q \<in> K k. packet_class (freeSlots (f (wp_store wp q))) = j} - {p}" for j
        using cl lk by auto
      have "K' j = K j \<union> {q \<in> K k. packet_class (freeSlots (f (wp_store wp q))) = j}" if "j \<noteq> k" for j
      proof -
        have "K' j = ?K j \<union> ({q \<in> K k. packet_class (freeSlots (f (wp_store wp q))) = j} - {p})"
          using d(3) that unfolding drained_def e by blast
        then show ?thesis using packet(2) that l_def by auto
      qed
      moreover have "pk_data (wp_store wp' q) = pk_data (if q \<in> K k then f (wp_store wp q) else wp_store wp q)" for q
      proof -
        have "pk_data (wp_store wp' q) = pk_data (if q \<in> K k - {p} then f (wp_store w2 q) else wp_store w2 q)"
          using d(3) lk by (simp add: drained_def)
        moreover have "pk_data (f (wp_store w2 q)) = pk_data (f (wp_store wp q))" if "q \<noteq> p"
          by (rule data_funD(2) [OF assms(2)]) (use that r(3) [of q] in simp)
        ultimately show ?thesis using r(3) [of q] packet(2) by auto
      qed
      moreover have "wp' = wp \<lparr> wp_store := wp_store wp', wp_lists := wp_lists wp', wp_notified := wp_notified wp' \<rparr>"
        using d(3) r(4) unfolding drained_def by (cases wp, cases w2, cases wp') simp
      ultimately show ?thesis using d(3) by (simp add: drained_def)
    qed
    ultimately show ?thesis using d(2) by blast
  qed
qed

lemma drainedD:
  assumes "drained f k K wp K' wp'"
  shows "K' k = {}" "l \<noteq> k \<Longrightarrow> K' l = K l \<union> {p \<in> K k. packet_class (freeSlots (f (wp_store wp p))) = l}"
    "pk_data (wp_store wp' p) = pk_data (if p \<in> K k then f (wp_store wp p) else wp_store wp p)"
    "overflowState wp' = overflowState wp"
    "wp' = wp \<lparr> wp_store := wp_store wp', wp_lists := wp_lists wp', wp_notified := wp_notified wp' \<rparr>"
proof -
  note a = conjunct1 [OF assms [unfolded drained_def]] and b = conjunct2 [OF assms [unfolded drained_def]]
  show e: "wp' = wp \<lparr> wp_store := wp_store wp', wp_lists := wp_lists wp', wp_notified := wp_notified wp' \<rparr>"
    by (rule conjunct2 [OF conjunct2 [OF b]])
  show "overflowState wp' = overflowState wp" by (subst e) simp
  show "K' k = {}" "l \<noteq> k \<Longrightarrow> K' l = K l \<union> {p \<in> K k. packet_class (freeSlots (f (wp_store wp p))) = l}"
    "pk_data (wp_store wp' p) = pk_data (if p \<in> K k then f (wp_store wp p) else wp_store wp p)"
    using a conjunct1 [OF b] conjunct1 [OF conjunct2 [OF b]] by metis+
qed

section \<open>Abandoning all work\<close>

lemma resetData_facts:
  "data_fun resetData" "pk_wf pk \<Longrightarrow> freeSlots (resetData pk) = SLOTS_IN_PACKET"
  "packet_class SLOTS_IN_PACKET = emptyPacketList"
  by (auto simp: data_fun_def resetData_def pk_wf_def pk_data_def freeSlots_def usub_exact packet_class_def)

lemma reset_step:
  assumes inv: "wp_inv K H wp" and k: "k \<noteq> emptyPacketList"
  shows "\<exists>wp'. drain_list env resetData k wp = Some wp' \<and> wp_inv (K(k := {}, emptyPacketList := K emptyPacketList \<union> K k)) H wp' \<and>
    overflowState wp' = overflowState wp \<and> (\<forall>p \<in> H. pk_data (wp_store wp' p) = pk_data (wp_store wp p))"
proof -
  obtain K' wp' where d: "drain_list env resetData k wp = Some wp'" "wp_inv K' H wp'" "drained resetData k K wp K' wp'"
    using drain_list_spec [OF inv resetData_facts(1), of k env] k resetData_facts(2,3) by auto
  have wf: "pk_wf (wp_store wp p)" if "p \<in> K k" for p using inv that by (auto simp: wp_inv_def all_packets_def)
  have "{p \<in> K k. packet_class (freeSlots (resetData (wp_store wp p))) = l} = (if l = emptyPacketList then K k else {})" for l
    using wf resetData_facts(2,3) by auto
  then have "K' l = (K(k := {}, emptyPacketList := K emptyPacketList \<union> K k)) l" for l
    using drainedD(1,2) [OF d(3)] k by (cases "l = k") simp_all
  then have "K' = K(k := {}, emptyPacketList := K emptyPacketList \<union> K k)" by (rule ext)
  moreover have "pk_data (wp_store wp' p) = pk_data (wp_store wp p)" if "p \<in> H" for p
  proof -
    have "p \<notin> K k" using that inv unfolding wp_inv_def by blast
    then show ?thesis using drainedD(3) [OF d(3), of p] by simp
  qed
  ultimately show ?thesis using d(1,2) drainedD(4) [OF d(3)] by blast
qed

lemma all_packets_merge: "all_packets (K(k := {}, l := K l \<union> K k)) H = all_packets K H"
  by (auto simp: all_packets_def split: if_splits)

lemma wp_inv_overflow: "wp_inv K H (wp \<lparr> overflowState := ov \<rparr>) = wp_inv K H wp"
  by (simp add: wp_inv_def blocks_ok_def)

lemma resetAllPackets_spec:
  assumes inv: "wp_inv K H wp"
  shows "\<exists>wp' K'. resetAllPackets h env wp = Some wp' \<and> wp_inv K' H wp' \<and> all_packets K' H = all_packets K H \<and>
    (\<forall>k. k \<noteq> emptyPacketList \<longrightarrow> K' k = {}) \<and> overflowState wp' = oh_clearFlag h (overflowState wp) \<and>
    (\<forall>p \<in> H. pk_data (wp_store wp' p) = pk_data (wp_store wp p))"
proof -
  let ?e = "emptyPacketList" and ?m = "\<lambda>K k. K(k := {}, emptyPacketList := K emptyPacketList \<union> K k)"
  let ?K1 = "?m K fullPacketList" let ?K2 = "?m ?K1 relativelyFullPacketList" let ?K3 = "?m ?K2 nonEmptyPacketList"
  let ?K4 = "?m ?K3 deferredPacketList" let ?K5 = "?m ?K4 deferredFullPacketList"
  obtain w1 where w1: "drain_list env resetData fullPacketList wp = Some w1" "wp_inv ?K1 H w1" "overflowState w1 = overflowState wp"
    "\<forall>p \<in> H. pk_data (wp_store w1 p) = pk_data (wp_store wp p)" using reset_step [OF inv, of fullPacketList env] by auto
  obtain w2 where w2: "drain_list env resetData relativelyFullPacketList w1 = Some w2" "wp_inv ?K2 H w2" "overflowState w2 = overflowState w1"
    "\<forall>p \<in> H. pk_data (wp_store w2 p) = pk_data (wp_store w1 p)" using reset_step [OF w1(2), of relativelyFullPacketList env] by blast
  obtain w3 where w3: "drain_list env resetData nonEmptyPacketList w2 = Some w3" "wp_inv ?K3 H w3" "overflowState w3 = overflowState w2"
    "\<forall>p \<in> H. pk_data (wp_store w3 p) = pk_data (wp_store w2 p)" using reset_step [OF w2(2), of nonEmptyPacketList env] by blast
  obtain w4 where w4: "drain_list env resetData deferredPacketList w3 = Some w4" "wp_inv ?K4 H w4" "overflowState w4 = overflowState w3"
    "\<forall>p \<in> H. pk_data (wp_store w4 p) = pk_data (wp_store w3 p)" using reset_step [OF w3(2), of deferredPacketList env] by blast
  obtain w5 where w5: "drain_list env resetData deferredFullPacketList w4 = Some w5" "wp_inv ?K5 H w5" "overflowState w5 = overflowState w4"
    "\<forall>p \<in> H. pk_data (wp_store w5 p) = pk_data (wp_store w4 p)" using reset_step [OF w4(2), of deferredFullPacketList env] by blast
  let ?w = "clearOverflowFlag h w5"
  have "resetAllPackets h env wp = Some ?w" using w1(1) w2(1) w3(1) w4(1) w5(1) by (simp add: resetAllPackets_def)
  moreover have "wp_inv ?K5 H ?w" unfolding clearOverflowFlag_def wp_inv_overflow by (rule w5(2))
  moreover have "all_packets ?K5 H = all_packets K H" by (simp only: all_packets_merge)
  moreover have "?K5 k = {}" if "k \<noteq> ?e" for k using that by (cases k) auto
  moreover have "overflowState ?w = oh_clearFlag h (overflowState wp)"
    using w1(3) w2(3) w3(3) w4(3) w5(3) by (simp add: clearOverflowFlag_def)
  moreover have "\<forall>p \<in> H. pk_data (wp_store ?w p) = pk_data (wp_store wp p)"
    using w1(4) w2(4) w3(4) w4(4) w5(4) by (simp add: clearOverflowFlag_def)
  ultimately show ?thesis by blast
qed

section \<open>Using deferred work\<close>

lemma undefer_step:
  assumes inv: "wp_inv K H wp" and k: "k = deferredPacketList \<or> k = deferredFullPacketList"
  shows "\<exists>wp' K'. drain_list env (\<lambda>pk. pk) k wp = Some wp' \<and> wp_inv K' H wp' \<and> all_packets K' H = all_packets K H \<and>
    K' k = {} \<and> K' deferredPacketList \<subseteq> K deferredPacketList \<and> K' deferredFullPacketList \<subseteq> K deferredFullPacketList \<and> moved wp wp'"
proof -
  have nd: "packet_class n \<noteq> deferredPacketList" "packet_class n \<noteq> deferredFullPacketList" for n by (simp_all add: packet_class_def)
  have "data_fun (\<lambda>pk. pk)" by (simp add: data_fun_def)
  from drain_list_spec [OF inv this, of k env] nd k obtain K' wp' where
    d: "drain_list env (\<lambda>pk. pk) k wp = Some wp'" "wp_inv K' H wp'" "drained (\<lambda>pk. pk) k K wp K' wp'" by blast
  have K': "K' k = {}" "\<And>l. l \<noteq> k \<Longrightarrow> K' l = K l \<union> {p \<in> K k. packet_class (freeSlots (wp_store wp p)) = l}"
    using drainedD(1,2) [OF d(3)] by simp_all
  have "(\<Union>l. K' l) = (\<Union>l. K l)"
  proof
    have "K' l \<subseteq> (\<Union>l. K l)" for l using K' by (cases "l = k") auto
    then show "(\<Union>l. K' l) \<subseteq> (\<Union>l. K l)" by blast
    show "(\<Union>l. K l) \<subseteq> (\<Union>l. K' l)"
    proof
      fix p assume "p \<in> (\<Union>l. K l)"
      then obtain l where l: "p \<in> K l" by blast
      show "p \<in> (\<Union>l. K' l)"
      proof (cases "l = k")
        case True
        then have "p \<in> K' (packet_class (freeSlots (wp_store wp p)))" using l K'(2) k nd by force
        then show ?thesis by blast
      qed (use l K'(2) in blast)
    qed
  qed
  then have "all_packets K' H = all_packets K H" by (simp add: all_packets_def)
  moreover have "K' l \<subseteq> K l" if "l = deferredPacketList \<or> l = deferredFullPacketList" for l
    using that K' nd by (cases "l = k") auto
  moreover have "moved wp wp'" unfolding moved_def using drainedD(3,5) [OF d(3)] by simp
  ultimately show ?thesis using d(1,2) K'(1) by blast
qed

lemma reuseDeferredPackets_spec:
  assumes "wp_ok A H wp"
  shows "\<exists>wp'. reuseDeferredPackets env wp = Some wp' \<and> wp_ok A H wp' \<and> moved wp wp' \<and>
    pl_isEmpty (wp_lists wp' deferredPacketList) \<and> pl_isEmpty (wp_lists wp' deferredFullPacketList)"
proof -
  let ?d = deferredPacketList and ?f = deferredFullPacketList
  obtain K where K: "wp_inv K H wp" "A = all_packets K H" using assms by (auto simp: wp_ok_def)
  have e: "pl_isEmpty (wp_lists w k) \<longleftrightarrow> L k = {}" if "wp_inv L H w" for w :: "'a WorkPackets" and k L
    using that pl_set_isEmpty unfolding wp_inv_def by blast
  obtain w1 K1 where w1: "(if pl_isEmpty (wp_lists wp ?d) then Some wp else drain_list env (\<lambda>pk. pk) ?d wp) = Some w1"
    "wp_inv K1 H w1" "all_packets K1 H = A" "K1 ?d = {}" "K1 ?f \<subseteq> K ?f" "moved wp w1"
    using undefer_step [OF K(1), of ?d env] K e [OF K(1), of ?d] by (cases "pl_isEmpty (wp_lists wp ?d)") auto
  obtain w2 K2 where w2: "(if pl_isEmpty (wp_lists w1 ?f) then Some w1 else drain_list env (\<lambda>pk. pk) ?f w1) = Some w2"
    "wp_inv K2 H w2" "all_packets K2 H = A" "K2 ?f = {}" "K2 ?d \<subseteq> K1 ?d" "moved w1 w2"
    using undefer_step [OF w1(2), of ?f env] w1(2-4) e [OF w1(2), of ?f] by (cases "pl_isEmpty (wp_lists w1 ?f)") auto
  show ?thesis
  proof (cases "pl_isEmpty (wp_lists wp ?d) \<and> pl_isEmpty (wp_lists wp ?f)")
    case True
    then show ?thesis using assms by (simp add: reuseDeferredPackets_def)
  next
    case False
    then have "reuseDeferredPackets env wp = Some w2" 
      unfolding reuseDeferredPackets_def if_not_P [OF False] w1(1) by (simp add: w2(1))
    moreover have "wp_ok A H w2" using w2(2,3) by (auto simp: wp_ok_def)
    ultimately show ?thesis using e [OF w2(2)] w1(4) w2(4,5) moved_trans [OF w1(6) w2(6)] by auto
  qed
qed

end
