(* ===== verification/Stack_Contract.thy ===== *)
theory Stack_Contract
  imports Stack_Pop Work_Init Work_Drain
begin

text \<open>
  The properties of work stacks and the pool of packets, with the standard collector's overflow
  handler.  Sequences of stack operations are runs; the pool of the examples is the one that
  \<open>initialize\<close> builds from five blocks.
\<close>

section \<open>Runs of stack operations\<close>

datatype stack_op = Push addr | Push2 addr addr | PushDefer addr | PopNoWait

fun stack_step :: "'o OverflowHandler \<Rightarrow> Environment \<Rightarrow> stack_op \<Rightarrow> 'o stack \<Rightarrow> (addr \<times> 'o stack) option" where
  "stack_step h env (Push x) s = map_option (Pair NULL) (ws_push h env x s)"
| "stack_step h env (Push2 x y) s = map_option (Pair NULL) (ws_push2 h env x y s)"
| "stack_step h env (PushDefer x) s = map_option (Pair NULL) (pushDefer h env x s)"
| "stack_step h env PopNoWait s = popNoWait h env s"

fun stack_run :: "'o OverflowHandler \<Rightarrow> Environment \<Rightarrow> stack_op list \<Rightarrow> 'o stack \<Rightarrow> (addr list \<times> 'o stack) option" where
  "stack_run h env [] s = Some ([], s)"
| "stack_run h env (op # ops) s =
     do { (x, s) \<leftarrow> stack_step h env op s; (xs, s) \<leftarrow> stack_run h env ops s; Some (x # xs, s) }"

fun pushes :: "stack_op \<Rightarrow> addr multiset" where
  "pushes (Push x) = {#x#}"
| "pushes (Push2 x y) = {#x, y#}"
| "pushes (PushDefer x) = {#x#}"
| "pushes PopNoWait = {#}"

abbreviation all_pushes :: "stack_op list \<Rightarrow> addr multiset" where
  "all_pushes ops \<equiv> sum_list (map pushes ops)"

text \<open>The elements a run has returned.\<close>

abbreviation returned :: "addr list \<Rightarrow> addr multiset" where
  "returned xs \<equiv> mset (filter (\<lambda>x. x \<noteq> NULL) xs)"

text \<open>
  A step from \<open>s\<close> to \<open>s'\<close> that pushes \<open>X\<close> and returns \<open>out\<close>: everything else stays in packets or goes to
  the overflow handler.
\<close>

definition balanced :: "('o \<Rightarrow> addr multiset \<Rightarrow> bool) \<Rightarrow> ('o \<Rightarrow> addr \<Rightarrow> bool) \<Rightarrow> ('o \<Rightarrow> addr multiset) \<Rightarrow> addr multiset \<Rightarrow>
    addr multiset \<Rightarrow> addr set \<Rightarrow> 'o WorkPackets \<Rightarrow> addr set \<Rightarrow> 'o WorkPackets \<Rightarrow> bool" where
  "balanced accepts keeps stored X out A wp A' wp' \<longleftrightarrow> A \<subseteq> A' \<and> keeps (overflowState wp') = keeps (overflowState wp) \<and>
     (\<exists>Ov. work A wp + X = work A' wp' + out + Ov \<and>
        stored (overflowState wp') = stored (overflowState wp) + filter_mset (keeps (overflowState wp)) Ov) \<and>
     (\<forall>W. accepts (overflowState wp) (work A wp + X + W) \<longrightarrow> accepts (overflowState wp') (work A' wp' + W))"

lemma added_balanced: "added acc ke sto X A wp A' wp' \<Longrightarrow> balanced acc ke sto X {#} A wp A' wp'"
  by (simp add: added_def balanced_def)

lemma balanced_trans:
  assumes "balanced acc ke sto X out A wp A1 wp1" "balanced acc ke sto Y out' A1 wp1 A2 wp2"
  shows "balanced acc ke sto (X + Y) (out + out') A wp A2 wp2"
proof -
  obtain O1 O2 where o: "work A wp + X = work A1 wp1 + out + O1" "sto (overflowState wp1) = sto (overflowState wp) + filter_mset (ke (overflowState wp)) O1"
    "work A1 wp1 + Y = work A2 wp2 + out' + O2" "sto (overflowState wp2) = sto (overflowState wp1) + filter_mset (ke (overflowState wp1)) O2"
    using assms by (auto simp: balanced_def)
  have k: "ke (overflowState wp1) = ke (overflowState wp)" "ke (overflowState wp2) = ke (overflowState wp1)" "A \<subseteq> A2"
    and a: "acc (overflowState wp) (work A wp + X + (Y + W)) \<Longrightarrow> acc (overflowState wp1) (work A1 wp1 + (Y + W))"
      "acc (overflowState wp1) (work A1 wp1 + Y + W) \<Longrightarrow> acc (overflowState wp2) (work A2 wp2 + W)" for W
    using assms unfolding balanced_def by blast+
  have "work A wp + (X + Y) = (work A wp + X) + Y" by simp
  also have "\<dots> = (work A1 wp1 + Y) + out + O1" unfolding o(1) by simp
  finally have "work A wp + (X + Y) = work A2 wp2 + (out + out') + (O2 + O1)" unfolding o(3) by simp
  moreover have "sto (overflowState wp2) = sto (overflowState wp) + filter_mset (ke (overflowState wp)) (O2 + O1)"
    using o(2,4) k(1) by simp
  moreover have "acc (overflowState wp2) (work A2 wp2 + W)" if "acc (overflowState wp) (work A wp + (X + Y) + W)" for W
    using a(1) [of W] a(2) [of W] that by (simp only: add.assoc)
  ultimately show ?thesis using k unfolding balanced_def by auto
qed

context overflow_handler
begin

lemma popped_balanced:
  assumes "popped A Oth h wp x (ws', wp')"
  shows "balanced accepts keeps stored {#} (returned [x]) A wp A wp'"
proof (cases "x = NULL")
  case True
  then show ?thesis using assms by (simp add: popped_def balanced_def)
next
  case False
  then have w: "work A wp = add_mset x (work A wp')" "overflowState wp' = overflowState wp" using assms by (simp_all add: popped_def)
  have "accepts (overflowState wp) (work A wp' + W)" if "accepts (overflowState wp) (work A wp + W)" for W
    using accepts_less [of _ "{#x#}" "work A wp' + W"] that w(1) by simp
  then show ?thesis using False w by (simp add: balanced_def)
qed

lemma stack_step_balanced:
  assumes s: "stack_ok A Oth (ws, wp)" and n: "NULL \<notin># work A wp" and a: "accepts (overflowState wp) (work A wp + pushes op + W)"
  shows "\<exists>x ws' wp' A'. stack_step h env op (ws, wp) = Some (x, (ws', wp')) \<and> stack_ok A' Oth (ws', wp') \<and>
    balanced accepts keeps stored (pushes op) (returned [x]) A wp A' wp'"
proof (cases op)
  case (Push x)
  obtain ws' wp' A' where "ws_push h env x (ws, wp) = Some (ws', wp')" "stack_ok A' Oth (ws', wp')" "added accepts keeps stored {#x#} A wp A' wp'"
    using push_step [OF s n, of x W env] a Push by auto
  then show ?thesis using Push added_balanced by fastforce
next
  case (Push2 x y)
  obtain ws' wp' A' where "ws_push2 h env x y (ws, wp) = Some (ws', wp')" "stack_ok A' Oth (ws', wp')" "added accepts keeps stored {#x, y#} A wp A' wp'"
    using push2_step [OF s n, of x y W env] a Push2 by auto
  then show ?thesis using Push2 added_balanced by fastforce
next
  case (PushDefer x)
  obtain ws' wp' A' where "pushDefer h env x (ws, wp) = Some (ws', wp')" "stack_ok A' Oth (ws', wp')" "added accepts keeps stored {#x#} A wp A' wp'"
    using pushDefer_step [OF s n, of x W env] a PushDefer by auto
  then show ?thesis using PushDefer added_balanced by fastforce
next
  case PopNoWait
  obtain x ws' wp' where p: "popNoWait h env (ws, wp) = Some (x, (ws', wp'))" "popped A Oth h wp x (ws', wp')"
    using popNoWait_step [OF s n, of env] by auto
  then have "stack_ok A Oth (ws', wp')" by (simp add: popped_def)
  then show ?thesis using PopNoWait p popped_balanced [OF p(2)] by auto
qed

lemma stack_run_balanced:
  assumes "stack_ok A Oth (ws, wp)" "NULL \<notin># work A wp + all_pushes ops" "accepts (overflowState wp) (work A wp + all_pushes ops + W)"
  shows "\<exists>xs ws' wp' A'. stack_run h env ops (ws, wp) = Some (xs, (ws', wp')) \<and> stack_ok A' Oth (ws', wp') \<and>
    balanced accepts keeps stored (all_pushes ops) (returned xs) A wp A' wp'"
  using assms
proof (induction ops arbitrary: ws wp A)
  case Nil
  then show ?case by (auto simp: balanced_def)
next
  case (Cons op ops)
  have n: "NULL \<notin># work A wp" "NULL \<notin># all_pushes ops" "NULL \<notin># pushes op" using Cons.prems(2) by auto
  have "accepts (overflowState wp) (work A wp + pushes op + (all_pushes ops + W))" using Cons.prems(3) by (simp add: add.assoc)
  then obtain x ws1 w1 A1 where st: "stack_step h env op (ws, wp) = Some (x, (ws1, w1))" "stack_ok A1 Oth (ws1, w1)"
    "balanced accepts keeps stored (pushes op) (returned [x]) A wp A1 w1"
    and a1: "accepts (overflowState w1) (work A1 w1 + (all_pushes ops + W))"
    using stack_step_balanced [OF Cons.prems(1) n(1), of op "all_pushes ops + W" env] unfolding balanced_def by blast
  obtain Ov where "work A wp + pushes op = work A1 w1 + returned [x] + Ov" using st(3) by (auto simp: balanced_def)
  then have "work A1 w1 \<subseteq># work A wp + pushes op" by (simp add: add.assoc)
  then have n1: "NULL \<notin># work A1 w1 + all_pushes ops" using n by (auto dest: mset_subset_eqD)
  obtain xs ws2 w2 A2 where r: "stack_run h env ops (ws1, w1) = Some (xs, (ws2, w2))" "stack_ok A2 Oth (ws2, w2)"
    "balanced accepts keeps stored (all_pushes ops) (returned xs) A1 w1 A2 w2"
    using Cons.IH [OF st(2) n1] a1 by (auto simp: add.assoc)
  have "returned (x # xs) = returned [x] + returned xs" by simp
  then have "balanced accepts keeps stored (all_pushes (op # ops)) (returned (x # xs)) A wp A2 w2"
    using balanced_trans [OF st(3) r(3)] by simp
  moreover have "stack_run h env (op # ops) (ws, wp) = Some (x # xs, (ws2, w2))" using st(1) r(1) by simp
  ultimately show ?case using r(2) by blast
qed

end

section \<open>The end of work\<close>

lemma exhausted_count:
  assumes inv: "wp_inv K {} wp" and e: "\<And>k. k \<in> input_kinds \<Longrightarrow> K k = {}"
  shows "tracingExhausted wp"
proof -
  let ?e = "K emptyPacketList" and ?d = "K deferredPacketList" and ?f = "K deferredFullPacketList"
  have "(\<Union>k. K k) = ?e \<union> ?d \<union> ?f"
  proof
    have "K k \<subseteq> ?e \<union> ?d \<union> ?f" for k using e [of k] by (cases k) auto
    then show "(\<Union>k. K k) \<subseteq> ?e \<union> ?d \<union> ?f" by blast
  qed blast
  then have "all_packets K {} = ?e \<union> ?d \<union> ?f" by (simp add: all_packets_def)
  moreover have s: "pl_set (wp_lists wp k) (wp_store wp) (K k)" "k \<noteq> l \<Longrightarrow> K k \<inter> K l = {}" for k l
    using inv by (auto simp: wp_inv_def)
  then have "finite ?e" "finite ?d" "finite ?f" "(?e \<union> ?d) \<inter> ?f = {}" "?e \<inter> ?d = {}"
    using pl_set_facts(1) s(2) [of emptyPacketList deferredFullPacketList] s(2) [of deferredPacketList deferredFullPacketList]
      s(2) [of emptyPacketList deferredPacketList] by blast+
  ultimately have "card ?e + card ?d + card ?f = activePackets wp"
    using wp_inv_card(2) [OF inv] by (simp add: card_Un_disjoint)
  then show ?thesis
    using wp_inv_card(3) [OF inv] pl_set_facts(2) [OF s(1)] by (simp add: tracingExhausted_def pl_getCount_def uadd_exact)
qed

lemma class_of_empty: "pk_wf pk \<Longrightarrow> pk_elems pk = [] \<Longrightarrow> packet_class (freeSlots pk) = emptyPacketList"
  using pk_elems_length [of pk] by (simp add: packet_class_def)

lemma flush_exhausted:
  assumes s: "stack_ok A {} (ws, wp)" and i: "inputPacket ws = NULL" and e: "\<And>k. k \<in> input_kinds \<Longrightarrow> pl_isEmpty (wp_lists wp k)"
    and o: "outputPacket ws \<noteq> NULL \<longrightarrow> pk_elems (wp_store wp (outputPacket ws)) = []"
  shows "tracingExhausted (snd (ws_flush env (ws, wp)))"
proof -
  let ?o = "outputPacket ws" and ?d = "deferredPacket ws"
  obtain K where K: "wp_inv K (ws_held ws) wp" using s by (auto simp: stack_ok_def wp_ok_def)
  have e0: "K k = {}" if "k \<in> input_kinds" for k
    using e [OF that] K pl_set_isEmpty unfolding wp_inv_def by blast
  have held: "ws_held ws = {?o, ?d} - {NULL}" "?o \<noteq> NULL \<Longrightarrow> ?o \<noteq> ?d"
    using s unfolding ws_held_def i stack_ok_def ws_distinct_def by (blast, simp)
  define w1 where "w1 = (if ?o \<noteq> NULL then putPacket env ?o wp else wp)"
  have "\<exists>K1. wp_inv K1 ({?d} - {NULL}) w1 \<and> (\<forall>k \<in> input_kinds. K1 k = {})"
  proof (cases "?o = NULL")
    case True
    then have "ws_held ws = {?d} - {NULL}" unfolding held(1) by blast
    then show ?thesis using True K e0 by (intro exI [of _ K]) (simp add: w1_def)
  next
    case False
    then have oH: "?o \<in> ws_held ws" using held(1) by simp
    have "pk_wf (wp_store wp ?o)" using wp_okD(4) [OF stack_okD(1) [OF s]] stack_okD(4) [OF s] oH by blast
    then have "packet_class (freeSlots (wp_store wp ?o)) = emptyPacketList" using class_of_empty o False by simp
    note p = putPacket_spec(2) [OF K oH, of env, unfolded this]
    have "ws_held ws - {?o} = {?d} - {NULL}" unfolding held(1) using held(2) [OF False] by blast
    then show ?thesis using p False e0 by (intro exI [of _ "K(emptyPacketList := insert ?o (K emptyPacketList))"]) (simp add: w1_def)
  qed
  then obtain K1 where K1: "wp_inv K1 ({?d} - {NULL}) w1" "\<forall>k \<in> input_kinds. K1 k = {}" by (elim exE conjE)
  define w2 where "w2 = (if ?d \<noteq> NULL then putDeferredPacket env ?d w1 else w1)"
  have "\<exists>K2. wp_inv K2 {} w2 \<and> (\<forall>k. k \<in> input_kinds \<longrightarrow> K2 k = {})"
  proof (cases "?d = NULL")
    case False
    then have "?d \<in> {?d} - {NULL}" "{?d} - {NULL} - {?d} = {}" by auto
    from putDeferredPacket_spec(2) [OF K1(1) this(1), of env] this(2) obtain k where
      "wp_inv (K1(k := insert ?d (K1 k))) {} w2" "k = deferredFullPacketList \<or> k = deferredPacketList"
      using False by (simp add: w2_def)
    then show ?thesis using K1(2) by (intro exI [of _ "K1(k := insert ?d (K1 k))"]) auto
  next
    case True
    then show ?thesis using K1 by (intro exI [of _ K1]) (simp add: w2_def)
  qed
  moreover have "snd (ws_flush env (ws, wp)) = w2"
    unfolding ws_flush_def prod.case w2_def w1_def using i by (cases "?o = NULL"; cases "?d = NULL") simp_all
  moreover have "tracingExhausted w2" if "wp_inv K2 {} w2" "\<forall>k. k \<in> input_kinds \<longrightarrow> K2 k = {}" for K2
    by (rule exhausted_count [OF that(1)]) (use that(2) in blast)
  ultimately show ?thesis by auto
qed

section \<open>An example pool\<close>

definition os_start :: OverflowStandard where
  "os_start = \<lparr> os_overflow = False, os_markMap = hm_example, STWWorkStackOverflowOccured = False,
     STWWorkStackOverflowCount = 0, STWWorkpacketCountAtOverflow = 0, os_delegated = [] \<rparr>"

definition forge_example :: "addr list" where
  "forge_example = [100000, 200000, 300000, 400000, 500000]"

definition ws_new :: WorkStack where
  "ws_new = \<lparr> ws_workPackets = 8, inputPacket = NULL, outputPacket = NULL, deferredPacket = NULL, pushCount = 0, workPacketsExchanged = 0 \<rparr>"

abbreviation example_init :: "(bool \<times> OverflowStandard WorkPackets) option" where
  "example_init \<equiv> wp_initialize 2 0 0 4 os_start forge_example store_example"

lemma example_count: "initialPacketCount 0 0 4 = 20"
  by (simp add: initialPacketCount_def initialBlocks_def minPacketsInBlock_def roundToFloor_def roundToCeiling_def usub_def uadd_def
      umul_def UMAX_def)

lemma example_forge: "forge_ok 4 {} forge_example" "blocks_given forge_example = 5"
proof -
  have h: "set (block_headers b 4) = {b, b + 72, b + 144, b + 216}" for b
    by (auto simp: block_headers_def sizeof_Packet_def upt_rec numeral_eq_Suc)
  show "forge_ok 4 {} forge_example"
    by (simp add: forge_example_def block_ok_def h) (simp add: sizeof_Packet_def packetSize_def SLOTS_IN_PACKET_def UMAX_def)
  show "blocks_given forge_example = 5" by (simp add: forge_example_def)
qed

lemma example_pool:
  "\<exists>wp A. example_init = Some (True, wp) \<and> wp_ok A {} wp \<and> work A wp = {#} \<and> overflowState wp = os_start \<and>
    stack_ok A {} (ws_new, wp) \<and> \<not> pl_isEmpty (wp_lists wp emptyPacketList)"
proof -
  have "forge_ok (initialPacketCount 0 0 4 div initialBlocks) {} forge_example"
    using example_forge(1) by (simp only: example_count) (simp add: initialBlocks_def)
  then obtain ok wp A where "example_init = Some (ok, wp)" "wp_ok A {} wp" "work A wp = {#}" "overflowState wp = os_start"
    "ok \<longleftrightarrow> initialBlocks \<le> blocks_given forge_example" "ok \<longrightarrow> \<not> pl_isEmpty (wp_lists wp emptyPacketList)"
    using wp_initialize_step [of 2 0 0 4 forge_example os_start store_example]
    by (auto simp: example_count initialBlocks_def increaseFactor_def UMAX_def)
  then show ?thesis using example_forge(2) example_count
    by (auto simp: initialBlocks_def stack_ok_def ws_new_def ws_held_def ws_distinct_def)
qed

section \<open>Properties\<close>


lemma example_accepts: "os_accepts os_start {#4096#}"
proof -
  have "slot_addr hm_example 4104" using slot_addr_next [OF hm_example_marks(1)] by (simp add: UMAX_def)
  then show ?thesis using hm_example_marks by (simp add: os_accepts_def os_start_def UMAX_def)
qed






text \<open>
  C21: \<open>resetAllPackets\<close> returns and abandons all work: with no packet held, every packet of the pool
  is empty and on the empty list, the pool is sound and the overflow flag is clear.
\<close>

theorem resetAllPackets_abandons:
  assumes "wp_ok A {} wp"
  shows "\<exists>wp'. resetAllPackets standardOverflow env wp = Some wp' \<and> wp_ok A {} wp' \<and> isAllPacketsEmpty wp' \<and>
    work A wp' = {#} \<and> \<not> getOverflowFlag standardOverflow wp'"
proof -
  obtain K where K: "wp_inv K {} wp" "A = all_packets K {}" using assms by (auto simp: wp_ok_def)
  obtain wp' K' where r: "resetAllPackets standardOverflow env wp = Some wp'" "wp_inv K' {} wp'" "all_packets K' {} = A"
    "\<And>k. k \<noteq> emptyPacketList \<Longrightarrow> K' k = {}" "overflowState wp' = oh_clearFlag standardOverflow (overflowState wp)"
    using resetAllPackets_spec [OF K(1), of standardOverflow env] K(2) by auto
  have "K' k \<subseteq> K' emptyPacketList" for k using r(4) by (cases "k = emptyPacketList") auto
  then have A: "A = K' emptyPacketList" using r(3) by (auto simp: all_packets_def)
  have "pl_set (wp_lists wp' emptyPacketList) (wp_store wp') A" using r(2) unfolding A wp_inv_def by blast
  from pl_set_facts(2) [OF this] wp_inv_card(2) [OF r(2)] r(3) have "isAllPacketsEmpty wp'"
    by (simp add: isAllPacketsEmpty_def pl_getCount_def)
  moreover have "pk_elems (wp_store wp' p) = []" if "p \<in> A" for p
  proof (rule empty_class_elems)
    show "in_class emptyPacketList (wp_store wp' p)" using that r(2) unfolding A wp_inv_def by blast
    show "pk_wf (wp_store wp' p)" using that r(2,3) unfolding wp_inv_def by blast
  qed
  then have "work A wp' = {#}" by (simp add: work_def)
  moreover have "wp_ok A {} wp'" using r(2,3) by (auto simp: wp_ok_def)
  moreover have "\<not> getOverflowFlag standardOverflow wp'" using r(5) by (simp add: getOverflowFlag_def standardOverflow_def)
  ultimately show ?thesis using r(1) by blast
qed

theorem resetAllPackets_abandons_witness:
  "\<exists>wp wp'. example_init = Some (True, wp) \<and> resetAllPackets standardOverflow env_example wp = Some wp' \<and> isAllPacketsEmpty wp'"
proof -
  obtain wp A where w: "example_init = Some (True, wp)" "wp_ok A {} wp" using example_pool by blast
  then show ?thesis using resetAllPackets_abandons [OF w(2), of env_example] by blast
qed

text \<open>
  C22: \<open>reuseDeferredPackets\<close> returns, keeps all work and the pool sound, and leaves both deferred
  lists empty, so that the deferred work is available for input.
\<close>

theorem reuseDeferredPackets_makes_available:
  assumes "wp_ok A H wp"
  shows "\<exists>wp'. reuseDeferredPackets env wp = Some wp' \<and> wp_ok A H wp' \<and> work A wp' = work A wp \<and> getDeferredPacketCount wp' = 0"
proof -
  obtain wp' where r: "reuseDeferredPackets env wp = Some wp'" "wp_ok A H wp'" "moved wp wp'"
    "pl_isEmpty (wp_lists wp' deferredPacketList)" "pl_isEmpty (wp_lists wp' deferredFullPacketList)"
    using reuseDeferredPackets_spec [OF assms] by blast
  then show ?thesis using moved_work [OF r(3)]
    by (simp add: getDeferredPacketCount_def pl_getCount_def pl_isEmpty_def uadd_def)
qed

theorem reuseDeferredPackets_makes_available_witness:
  "\<exists>wp wp'. example_init = Some (True, wp) \<and> reuseDeferredPackets env_example wp = Some wp' \<and> getDeferredPacketCount wp' = 0"
proof -
  obtain wp A where w: "example_init = Some (True, wp)" "wp_ok A {} wp" using example_pool by blast
  then show ?thesis using reuseDeferredPackets_makes_available [OF w(2), of env_example] by blast
qed



end
