(* ===== verification/Sweep.thy ===== *)
theory Sweep
  imports Pool Heap_Map
begin

text \<open>
  The sweep: rebuilding the free list of an address-ordered pool from the mark map.
  \<open>MM_ParallelSweepScheme\<close> (gc/base/standard/ParallelSweepScheme.cpp) finds the unmarked ranges of
  one chunk of the heap at a time, \<open>MM_SweepPoolManagerAddressOrderedListBase\<close>
  (gc/base/SweepPoolManagerAddressOrderedListBase.cpp) turns them into free entries of the chunk and
  then, chunk by chunk in address order, connects them into the free list of the pool.

  The heap has one memory pool.  The chunks are a table; a pointer to a chunk is its index.
  Mark map words are addressed by their index.  The size of an object is the glue's
  (\<open>sw_sizeOf\<close>), and the projection of the sampled dark matter is computed in floating point
  (\<open>sw_project\<close>); nothing is assumed about the latter.
\<close>

section \<open>Data\<close>

record ParallelSweepChunk =
  chunkBase :: addr
  chunkTop :: addr
  leadingFreeCandidate :: addr
  leadingFreeCandidateSize :: nat
  trailingFreeCandidate :: addr
  trailingFreeCandidateSize :: nat
  projection :: nat
  freeListHead :: addr
  freeListHeadSize :: nat
  freeListTail :: addr
  freeListTailSize :: nat
  previousFreeListTail :: addr
  coalesceCandidate :: bool
  ck_memoryPool :: nat
  freeBytes :: nat
  freeHoles :: nat
  ck_darkMatterBytes :: nat
  ck_darkMatterSamples :: nat
  ck_largestFreeEntry :: nat
  ck_previousLargestFreeEntry :: addr
  ck_previous :: "nat option"
  ck_next :: "nat option"

text \<open>The default constructor, which is also \<open>clear\<close>.\<close>

definition new_chunk :: ParallelSweepChunk where
  "new_chunk = \<lparr> chunkBase = NULL, chunkTop = NULL, leadingFreeCandidate = NULL, leadingFreeCandidateSize = 0,
     trailingFreeCandidate = NULL, trailingFreeCandidateSize = 0, projection = 0, freeListHead = NULL,
     freeListHeadSize = 0, freeListTail = NULL, freeListTailSize = 0, previousFreeListTail = NULL,
     coalesceCandidate = False, ck_memoryPool = 0, freeBytes = 0, freeHoles = 0, ck_darkMatterBytes = 0,
     ck_darkMatterSamples = 0, ck_largestFreeEntry = 0, ck_previousLargestFreeEntry = NULL,
     ck_previous = None, ck_next = None \<rparr>"

definition ck_updateLargestFreeEntry :: "nat \<Rightarrow> addr \<Rightarrow> ParallelSweepChunk \<Rightarrow> ParallelSweepChunk" where
  "ck_updateLargestFreeEntry candidate previousCandidate c =
     (if ck_largestFreeEntry c < candidate
      then c \<lparr> ck_previousLargestFreeEntry := previousCandidate, ck_largestFreeEntry := candidate \<rparr> else c)"

record SweepPoolState =
  connectPreviousFreeEntry :: addr
  connectPreviousFreeEntrySize :: nat
  connectPreviousPreviousFreeEntry :: addr
  connectPreviousChunk :: "nat option"
  sweepFreeBytes :: nat
  sweepFreeHoles :: nat
  sp_largestFreeEntry :: nat
  sp_previousLargestFreeEntry :: addr

definition initializeForSweep :: "SweepPoolState \<Rightarrow> SweepPoolState" where
  "initializeForSweep s =
     s \<lparr> connectPreviousFreeEntry := NULL, connectPreviousFreeEntrySize := 0,
         connectPreviousPreviousFreeEntry := NULL, connectPreviousChunk := None,
         sp_largestFreeEntry := 0, sp_previousLargestFreeEntry := NULL,
         sweepFreeBytes := 0, sweepFreeHoles := 0 \<rparr>"

definition sp_updateLargestFreeEntry :: "nat \<Rightarrow> addr \<Rightarrow> SweepPoolState \<Rightarrow> SweepPoolState" where
  "sp_updateLargestFreeEntry candidate previousCandidate s =
     (if sp_largestFreeEntry s < candidate
      then s \<lparr> sp_previousLargestFreeEntry := previousCandidate, sp_largestFreeEntry := candidate \<rparr> else s)"

record SweepScheme =
  sw_heapBase :: addr
  sw_markMap :: HeapMap
  sw_sizeOf :: "addr \<Rightarrow> nat"
  sw_darkMatterSampleRate :: nat
  sw_project :: "nat \<Rightarrow> nat \<Rightarrow> nat \<Rightarrow> nat"

text \<open>What the sweep of one chunk works on: the chunk, its pool and the thread's own statistics.\<close>

type_synonym sweep = "ParallelSweepChunk \<times> pool \<times> FreeEntrySizeClassStats"

section \<open>Free memory found in a chunk\<close>

definition calculateTrailingDetails :: "SweepScheme \<Rightarrow> addr \<Rightarrow> nat \<Rightarrow> ParallelSweepChunk \<Rightarrow> ParallelSweepChunk" where
  "calculateTrailingDetails ss trailingCandidate trailingCandidateSlotCount c =
     (let trailingCandidateByteCount = convertSlotsToBytes trailingCandidateSlotCount;
          proj = usub (sw_sizeOf ss (usub trailingCandidate 8)) 8
      in if trailingCandidateByteCount < proj
         then c \<lparr> projection := usub proj trailingCandidateByteCount \<rparr>
         else if proj < trailingCandidateByteCount
         then c \<lparr> trailingFreeCandidate := uadd trailingCandidate proj,
                  trailingFreeCandidateSize := usub trailingCandidateByteCount proj \<rparr>
         else c)"

definition updateTrailingFreeMemory :: "SweepScheme \<Rightarrow> addr \<Rightarrow> nat \<Rightarrow> ParallelSweepChunk \<Rightarrow> ParallelSweepChunk" where
  "updateTrailingFreeMemory ss heapSlotFreeHead heapSlotFreeCount c =
     calculateTrailingDetails ss heapSlotFreeHead heapSlotFreeCount c"

text \<open>The third branch of \<open>addFreeMemory\<close>: a hole between two objects of the chunk.\<close>

definition addInnerMemory :: "SweepScheme \<Rightarrow> addr \<Rightarrow> nat \<Rightarrow> sweep \<Rightarrow> sweep option" where
  "addInnerMemory ss address size1 = (\<lambda>(c, p, es).
     (let heapFreeByteCount = convertSlotsToBytes size1;
          objectSizeDelta = usub (sw_sizeOf ss (usub address 8)) 8
      in do { assert_MM (objectSizeDelta \<le> heapFreeByteCount);
              (let heapFreeByteCount = usub heapFreeByteCount objectSizeDelta;
                   address = uadd address objectSizeDelta
               in do { (connected, p) \<leftarrow> connectInnerMemoryToPool address heapFreeByteCount (freeListTail c) p;
                       (if connected then
                          (let c = (if freeListTail c = NULL
                                    then c \<lparr> freeListHead := address, freeListHeadSize := heapFreeByteCount \<rparr> else c)
                           in do { (c, es) \<leftarrow>
                                     (if heapFreeByteCount \<noteq> 0 then
                                        do { (es, _) \<leftarrow> countFreeEntry (largeObjectAllocateStats p) heapFreeByteCount es 1;
                                             Some (ck_updateLargestFreeEntry heapFreeByteCount (freeListTail c)
                                                     (c \<lparr> freeBytes := uadd (freeBytes c) heapFreeByteCount,
                                                          freeHoles := uadd (freeHoles c) 1 \<rparr>), es) }
                                      else Some (c, es));
                                   Some (c \<lparr> previousFreeListTail := freeListTail c, freeListTail := address,
                                             freeListTailSize := heapFreeByteCount \<rparr>, p, es) })
                        else Some (c, p, es)) }) }))"

definition addFreeMemory :: "SweepScheme \<Rightarrow> addr \<Rightarrow> nat \<Rightarrow> sweep \<Rightarrow> (bool \<times> sweep) option" where
  "addFreeMemory ss address size1 = (\<lambda>(c, p, es).
     do { assert_MM (freeListTail c \<le> address);
          (if address = chunkBase c then
             (let c = c \<lparr> leadingFreeCandidate := address, leadingFreeCandidateSize := convertSlotsToBytes size1 \<rparr>
              in do { assert_MM (trailingFreeCandidate c < leadingFreeCandidate c); Some (False, c, p, es) })
           else if uadd address (8 * size1) = chunkTop c then
             Some (False, calculateTrailingDetails ss address size1 c, p, es)
           else do { st \<leftarrow> addInnerMemory ss address size1 (c, p, es); Some (True, st) }) })"

section \<open>Scanning the mark map\<close>

text \<open>The variables that \<open>sweepMarkMapBody\<close>, \<open>sweepMarkMapHead\<close> and \<open>sweepMarkMapTail\<close> share by reference.\<close>

record SweepCursor =
  markMapCurrent :: nat
  markMapFreeHead :: nat
  heapSlotFreeCount :: nat
  heapSlotFreeCurrent :: addr
  heapSlotFreeHead :: addr

function skip_empty :: "HeapMap \<Rightarrow> nat \<Rightarrow> nat \<Rightarrow> nat" where
  "skip_empty hm cur top1 =
     (if cur < top1 then (if heapMapBits hm cur \<noteq> 0 then cur else skip_empty hm (cur + 1) top1) else cur)"
  by auto
termination by (relation "measure (\<lambda>(hm, cur, top1). top1 - cur)") auto

declare skip_empty.simps [simp del]

definition sweepMarkMapBody :: "HeapMap \<Rightarrow> nat \<Rightarrow> SweepCursor \<Rightarrow> SweepCursor" where
  "sweepMarkMapBody hm markMapChunkTop s =
     (if heapMapBits hm (markMapCurrent s) = 0 then
        (let cur = skip_empty hm (markMapCurrent s + 1) markMapChunkTop; cnt = cur - markMapCurrent s
         in s \<lparr> markMapFreeHead := markMapCurrent s, heapSlotFreeHead := heapSlotFreeCurrent s,
                markMapCurrent := cur, heapSlotFreeCount := umul 64 cnt,
                heapSlotFreeCurrent := uadd (heapSlotFreeCurrent s) (8 * (64 * cnt)) \<rparr>)
      else s)"

definition sweepMarkMapHead :: "HeapMap \<Rightarrow> nat \<Rightarrow> nat \<Rightarrow> SweepCursor \<Rightarrow> SweepCursor" where
  "sweepMarkMapHead hm freeHead markMapChunkBase s =
     (if markMapChunkBase < freeHead then
        (let markMapFreeBitIndexHead = trailingZeroes (heapMapBits hm (freeHead - 1))
         in if markMapFreeBitIndexHead \<noteq> 0
            then s \<lparr> heapSlotFreeHead := usub (heapSlotFreeHead s) (8 * markMapFreeBitIndexHead),
                     heapSlotFreeCount := uadd (heapSlotFreeCount s) markMapFreeBitIndexHead \<rparr>
            else s)
      else s)"

definition sweepMarkMapTail :: "HeapMap \<Rightarrow> nat \<Rightarrow> SweepCursor \<Rightarrow> SweepCursor" where
  "sweepMarkMapTail hm markMapChunkTop s =
     (if markMapCurrent s < markMapChunkTop then
        (let markMapFreeBitIndexTail = unat (leadingZeroes (heapMapBits hm (markMapCurrent s)))
         in if markMapFreeBitIndexTail \<noteq> 0
            then s \<lparr> heapSlotFreeCount := uadd (heapSlotFreeCount s) markMapFreeBitIndexTail \<rparr> else s)
      else s)"

text \<open>
  \<open>performSamplingCalculations\<close>: the holes between the objects of one map word, and the hole after
  the last of them.
\<close>

partial_function (option) sample_holes ::
  "(addr \<Rightarrow> nat) \<Rightarrow> nat \<Rightarrow> HeapMapWordIterator \<Rightarrow> addr \<Rightarrow> nat \<Rightarrow> (addr \<times> nat) option" where
  "sample_holes sizeOf mn it prevObject darkMatter =
     (let (object, it) = wi_nextObject it
      in if object = NULL then Some (prevObject, darkMatter)
         else (let holeSize = usub object (uadd prevObject (sizeOf prevObject))
               in do { assert_MM (holeSize < mn);
                       sample_holes sizeOf mn it object (uadd darkMatter holeSize) }))"

partial_function (option) sample_trailing ::
  "HeapMap \<Rightarrow> nat \<Rightarrow> addr \<Rightarrow> addr \<Rightarrow> addr \<Rightarrow> nat \<Rightarrow> nat option" where
  "sample_trailing hm mn endOfPrevObject startSearchAt endSearchAt darkMatter =
     (if startSearchAt < endSearchAt then
        do { it \<leftarrow> wordIterator_at hm startSearchAt;
             (let nextObject = fst (wi_nextObject it)
              in if nextObject \<noteq> NULL then
                   (let holeSize = usub nextObject endOfPrevObject
                    in Some (if holeSize < mn then uadd darkMatter holeSize else darkMatter))
                 else sample_trailing hm mn endOfPrevObject (uadd startSearchAt 512) endSearchAt darkMatter) }
      else Some darkMatter)"

definition performSamplingCalculations ::
  "SweepScheme \<Rightarrow> nat \<Rightarrow> addr \<Rightarrow> nat \<Rightarrow> addr \<Rightarrow> nat option" where
  "performSamplingCalculations ss mn top1 word slot =
     (let hm = sw_markMap ss;
          (prevObject, it) = wi_nextObject (wordIterator (heapMapBits hm word) slot)
      in do { assert_MM (prevObject \<noteq> NULL);
              (prevObject, darkMatter) \<leftarrow> sample_holes (sw_sizeOf ss) mn it prevObject 0;
              (let endOfPrevObject = uadd prevObject (sw_sizeOf ss prevObject);
                   startSearchAt = max (roundToFloor 512 endOfPrevObject) (uadd slot 512);
                   endSearchAt = min (roundToCeiling 512 (uadd endOfPrevObject mn)) top1
               in if startSearchAt < endSearchAt
                  then sample_trailing hm mn endOfPrevObject startSearchAt endSearchAt darkMatter
                  else if endOfPrevObject < endSearchAt
                  then Some (uadd darkMatter (usub endSearchAt endOfPrevObject))
                  else Some darkMatter) })"

section \<open>Sweeping a chunk\<close>

text \<open>Dark matter found so far: bytes, candidates, samples.\<close>

type_synonym dark = "nat \<times> nat \<times> nat"

definition sample_word :: "SweepScheme \<Rightarrow> SweepCursor \<Rightarrow> dark \<Rightarrow> sweep \<Rightarrow> dark option" where
  "sample_word ss s d st =
     (let (darkBytes, candidates, samples) = d; (c, p, es) = st; candidates = uadd candidates 1;
          rate = (if sw_darkMatterSampleRate ss = 0 then UMAX - 1 else sw_darkMatterSampleRate ss)
      in if candidates mod rate = 0 then
           do { n \<leftarrow> performSamplingCalculations ss (minimumFreeEntrySize p) (chunkTop c) (markMapCurrent s) (heapSlotFreeCurrent s);
                Some (uadd darkBytes n, candidates, uadd samples 1) }
         else Some (darkBytes, candidates, samples))"

partial_function (option) sweep_inner ::
  "SweepScheme \<Rightarrow> nat \<Rightarrow> nat \<Rightarrow> SweepCursor \<Rightarrow> dark \<Rightarrow> sweep \<Rightarrow> (SweepCursor \<times> dark \<times> sweep) option" where
  "sweep_inner ss markMapChunkBase markMapChunkTop s d st =
     (if markMapCurrent s < markMapChunkTop then
        (let hm = sw_markMap ss; s = sweepMarkMapBody hm markMapChunkTop s;
             next_slot = (\<lambda>s. s \<lparr> heapSlotFreeCurrent := uadd (heapSlotFreeCurrent s) 512, markMapCurrent := markMapCurrent s + 1 \<rparr>)
         in if heapSlotFreeCount s = 0 then
              do { d \<leftarrow> sample_word ss s d st;
                   sweep_inner ss markMapChunkBase markMapChunkTop (next_slot s) d st }
            else
              (let s = sweepMarkMapTail hm markMapChunkTop (sweepMarkMapHead hm (markMapFreeHead s) markMapChunkBase s)
               in do { (more, st) \<leftarrow> addFreeMemory ss (heapSlotFreeHead s) (heapSlotFreeCount s) st;
                       (if more then
                          sweep_inner ss markMapChunkBase markMapChunkTop
                            (next_slot (s \<lparr> heapSlotFreeHead := NULL, heapSlotFreeCount := 0 \<rparr>)) d st
                        else Some (s, d, st)) }))
      else Some (s, d, st))"

definition sweep_leading :: "SweepScheme \<Rightarrow> nat \<Rightarrow> SweepCursor \<Rightarrow> sweep \<Rightarrow> (SweepCursor \<times> sweep) option" where
  "sweep_leading ss markMapChunkTop s st =
     (let s = sweepMarkMapTail (sw_markMap ss) markMapChunkTop (sweepMarkMapBody (sw_markMap ss) markMapChunkTop s)
      in if heapSlotFreeCount s \<noteq> 0 then
           (let s = (if heapSlotFreeHead s = NULL then s \<lparr> heapSlotFreeHead := heapSlotFreeCurrent s \<rparr> else s)
            in do { assert_MM (chunkBase (fst st) = heapSlotFreeHead s);
                    (_, st) \<leftarrow> addFreeMemory ss (heapSlotFreeHead s) (heapSlotFreeCount s) st;
                    Some (s, st) })
         else Some (s, st))"

definition sweep_trailing :: "SweepScheme \<Rightarrow> nat \<Rightarrow> SweepCursor \<Rightarrow> ParallelSweepChunk \<Rightarrow> ParallelSweepChunk" where
  "sweep_trailing ss markMapChunkBase s c =
     (if heapMapBits (sw_markMap ss) (markMapCurrent s - 1) \<noteq> 0 then
        (let s = sweepMarkMapHead (sw_markMap ss) (markMapCurrent s) markMapChunkBase
                   (s \<lparr> heapSlotFreeCount := 0, heapSlotFreeHead := heapSlotFreeCurrent s \<rparr>)
         in updateTrailingFreeMemory ss (heapSlotFreeHead s) (heapSlotFreeCount s) c)
      else c)"

definition record_dark :: "SweepScheme \<Rightarrow> dark \<Rightarrow> ParallelSweepChunk \<Rightarrow> ParallelSweepChunk option" where
  "record_dark ss d c =
     (let (darkBytes, candidates, samples) = d
      in if samples = 0 then Some (c \<lparr> ck_darkMatterBytes := 0, ck_darkMatterSamples := 0 \<rparr>)
         else do { assert_MM (samples \<le> candidates);
                   (let projectedDarkMatter = sw_project ss darkBytes candidates samples;
                        chunkSize = usub (chunkTop c) (chunkBase c);
                        freeSpace = uadd (uadd (freeBytes c) (leadingFreeCandidateSize c)) (trailingFreeCandidateSize c)
                    in do { assert_MM (freeSpace \<le> chunkSize);
                            Some (c \<lparr> ck_darkMatterSamples := samples,
                                      ck_darkMatterBytes := (if usub chunkSize freeSpace \<le> projectedDarkMatter
                                                             then darkBytes else projectedDarkMatter) \<rparr>) }) })"

definition mark_word_index :: "SweepScheme \<Rightarrow> addr \<Rightarrow> nat" where
  "mark_word_index ss a = roundToFloor 512 (usub a (sw_heapBase ss)) div 64 div 8"

definition sweepChunk :: "SweepScheme \<Rightarrow> sweep \<Rightarrow> (bool \<times> sweep) option" where
  "sweepChunk ss st =
     (let c = fst st;
          markMapChunkBase = mark_word_index ss (chunkBase c); markMapChunkTop = mark_word_index ss (chunkTop c);
          s = \<lparr> markMapCurrent = markMapChunkBase, markMapFreeHead = NULL, heapSlotFreeCount = 0,
                heapSlotFreeCurrent = chunkBase c, heapSlotFreeHead = NULL \<rparr>
      in do { assert_MM (freeListTail c = NULL);
              (s, st) \<leftarrow> sweep_leading ss markMapChunkTop s st;
              (let liveObjectFound = (markMapCurrent s < markMapChunkTop)
               in do { (s, d, (c, p, es)) \<leftarrow> sweep_inner ss markMapChunkBase markMapChunkTop
                         (s \<lparr> heapSlotFreeHead := NULL, heapSlotFreeCount := 0 \<rparr>) (0, 0, 0) st;
                       c \<leftarrow> record_dark ss d (sweep_trailing ss markMapChunkBase s c);
                       Some (liveObjectFound, c, p, es) }) })"

end
