(* ===== verification/Mark_Scan.thy ===== *)
theory Mark_Scan
  imports Sweep
begin

text \<open>
  The marks of a range of map words as a list of addresses, and what the scans of the sweep find
  in it: the first and the last mark of a word, and the next word that has one.
\<close>

section \<open>Marks by word\<close>

abbreviation word_addr :: "HeapMap \<Rightarrow> nat \<Rightarrow> addr" where
  "word_addr hm i \<equiv> heapMapBaseDelta hm + 512 * i"

lemma slots_map: "slots lo (lo + 8 * n) = map (\<lambda>k. lo + 8 * k) [0..<n]"
proof (induction n arbitrary: lo)
  case (Suc n)
  have "slots lo (lo + 8 * Suc n) = lo # slots (lo + 8) (lo + 8 + 8 * n)"
    by (subst slots.simps) (simp add: algebra_simps)
  also have "\<dots> = map (\<lambda>k. lo + 8 * k) (0 # map Suc [0..<n])"
    by (simp only: Suc.IH) (simp add: o_def algebra_simps)
  also have "0 # map Suc [0..<n] = [0..<Suc n]" by (metis map_Suc_upt upt_conv_Cons zero_less_Suc)
  finally show ?case .
qed (simp add: slots.simps)

lemma slots_append:
  assumes "lo \<le> mid" "mid \<le> hi" "8 dvd mid - lo" "8 dvd hi - mid"
  shows "slots lo hi = slots lo mid @ slots mid hi"
proof -
  from assms obtain a b where "mid = lo + 8 * a" "hi = mid + 8 * b" by (metis dvdE le_add_diff_inverse)
  then have e: "mid = lo + 8 * a" "hi = lo + 8 * (a + b)" "hi = mid + 8 * b" by auto
  have "[0..<a + b] = [0..<a] @ [a..<a + b]" by (rule upt_add_eq_append) simp
  moreover have "[a..<a + b] = map ((+) a) [0..<b]"
    by (rule nth_equalityI) auto
  ultimately have "slots lo hi = slots lo mid @ map (\<lambda>k. mid + 8 * k) [0..<b]"
    unfolding e(2) e(1) slots_map by (simp add: o_def add_mult_distrib2)
  then show ?thesis using slots_map [of mid b] e(3) by simp
qed

lemma marked_slots_append:
  assumes "lo \<le> mid" "mid \<le> hi" "8 dvd mid - lo" "8 dvd hi - mid"
  shows "marked_slots hm lo hi = marked_slots hm lo mid @ marked_slots hm mid hi"
  unfolding marked_slots_def slots_append [OF assms] by simp

lemma marked_words_append:
  assumes "i \<le> j" "j \<le> k"
  shows "marked_slots hm (word_addr hm i) (word_addr hm k) =
    marked_slots hm (word_addr hm i) (word_addr hm j) @ marked_slots hm (word_addr hm j) (word_addr hm k)"
proof (rule marked_slots_append)
  have "word_addr hm j - word_addr hm i = 8 * (64 * (j - i))" "word_addr hm k - word_addr hm j = 8 * (64 * (k - j))"
    by (simp_all add: algebra_simps)
  then show "8 dvd word_addr hm j - word_addr hm i" "8 dvd word_addr hm k - word_addr hm j" by simp_all
qed (use assms in simp_all)

lemma word_slot_offset: "k < 64 \<Longrightarrow> (512 * i + 8 * k) div 512 = i \<and> (512 * i + 8 * k) div 8 mod 64 = (k :: nat)"
proof -
  assume k: "k < 64"
  have "512 * i + 8 * k = 8 * k + 512 * i" by simp
  then have "(512 * i + 8 * k) div 512 = i" using k by simp
  moreover have "512 * i + 8 * k = 8 * (k + 64 * i)" by simp
  then have "(512 * i + 8 * k) div 8 = k + 64 * i" by simp
  ultimately show ?thesis using k by simp
qed

lemma word_slot:
  assumes "k < 64" "word_addr hm i + 8 * k < UMAX"
  shows "slot_addr hm (word_addr hm i + 8 * k)" "isBitSet hm (word_addr hm i + 8 * k) = bit (heapMapBits hm i) k"
proof -
  let ?a = "word_addr hm i + 8 * k"
  have o: "off hm ?a = 512 * i + 8 * k" by simp
  have c: "covers hm ?a" using assms(2) by (simp add: covers_def)
  have "512 * i + 8 * k = 8 * (64 * i + k)" by simp
  then show "slot_addr hm ?a" using c unfolding slot_addr_def o by (metis dvd_triv_left)
  show "isBitSet hm ?a = bit (heapMapBits hm i) k"
    using isBitSet_bit [OF c] unfolding o using word_slot_offset [OF assms(1), of i] by simp
qed

definition word_marks :: "uword \<Rightarrow> nat list" where
  "word_marks w = filter (bit w) [0..<64]"

lemma marked_word:
  assumes "word_addr hm (Suc i) < UMAX"
  shows "marked_slots hm (word_addr hm i) (word_addr hm (Suc i)) =
    map (\<lambda>k. word_addr hm i + 8 * k) (word_marks (heapMapBits hm i))"
proof -
  have e: "word_addr hm (Suc i) = word_addr hm i + 8 * 64" by simp
  have "isBitSet hm (word_addr hm i + 8 * k) = bit (heapMapBits hm i) k" if "k \<in> set [0..<64]" for k
    using word_slot(2) [of k hm i] that assms by simp
  then have "filter (isBitSet hm \<circ> (\<lambda>k. word_addr hm i + 8 * k)) [0..<64] = filter (bit (heapMapBits hm i)) [0..<64]"
    by (intro filter_cong) auto
  then show ?thesis unfolding marked_slots_def e slots_map word_marks_def filter_map by simp
qed

lemma word_marks_empty: "word_marks w = [] \<longleftrightarrow> w = 0"
proof
  assume "word_marks w = []"
  then have "\<not> bit w n" if "n < 64" for n using that by (auto simp: word_marks_def filter_empty_conv)
  then show "w = 0" by (intro bit_word_eqI) auto
qed (simp add: word_marks_def)

lemma sorted_filter_hd: "\<lbrakk>k < n; P k; \<And>i. i < k \<Longrightarrow> \<not> P i\<rbrakk> \<Longrightarrow> hd (filter P [0..<n]) = k"
proof -
  assume k: "k < n" "P k" "\<And>i. i < k \<Longrightarrow> \<not> P i"
  have "[0..<n] = [0..<k] @ k # [Suc k..<n]" using k(1) by (metis less_imp_le_nat upt_add_eq_append upt_conv_Cons zero_le le_add_diff_inverse)
  moreover have "filter P [0..<k] = []" using k(3) by (auto simp: filter_empty_conv)
  ultimately show ?thesis using k(2) by simp
qed

lemma sorted_filter_last: "\<lbrakk>k < n; P k; \<And>i. k < i \<Longrightarrow> i < n \<Longrightarrow> \<not> P i\<rbrakk> \<Longrightarrow> last (filter P [0..<n]) = k"
proof -
  assume k: "k < n" "P k" "\<And>i. k < i \<Longrightarrow> i < n \<Longrightarrow> \<not> P i"
  have "[0..<n] = [0..<k] @ k # [Suc k..<n]" using k(1) by (metis less_imp_le_nat upt_add_eq_append upt_conv_Cons zero_le le_add_diff_inverse)
  moreover have "filter P [Suc k..<n] = []" using k(3) by (auto simp: filter_empty_conv)
  ultimately show ?thesis using k(2) by simp
qed

lemma word_marks_hd:
  assumes "w \<noteq> 0"
  shows "hd (word_marks w) = unat (leadingZeroes w)" "unat (leadingZeroes w) < 64"
proof -
  obtain k where k: "bit w k" "\<And>i. i < k \<Longrightarrow> \<not> bit w i" "unat (leadingZeroes w) = k" "k < 64"
    using lowest_bit [OF assms] by blast
  with sorted_filter_hd [of k 64 "bit w"]
  show "hd (word_marks w) = unat (leadingZeroes w)" "unat (leadingZeroes w) < 64" by (auto simp: word_marks_def)
qed

lemma word_marks_last:
  assumes "w \<noteq> 0"
  shows "last (word_marks w) = 63 - trailingZeroes w" "trailingZeroes w < 64"
proof -
  let ?k = "floorLog2 (unat w)"
  have "0 < unat w" "unat w < UMAX" using assms unsigned_less [of w] by (simp_all add: unat_gt_0 UMAX_def)
  then have b: "2 ^ ?k \<le> unat w" "unat w < 2 ^ Suc ?k" using floorLog2_bounds [of "unat w"] by auto
  have "unat w div 2 ^ ?k = 1" using b by (intro div_nat_eqI) (simp_all add: mult.commute)
  then have "bit w ?k" by (metis bit_iff_odd bit_unsigned_iff odd_one)
  have "\<not> bit w i" if "?k < i" for i
  proof -
    have "(2::nat) ^ Suc ?k \<le> 2 ^ i" using that by (intro power_increasing) auto
    then have "unat w div 2 ^ i = 0" using b(2) by simp
    then have "\<not> bit (unat w) i" by (simp add: bit_iff_odd)
    then show ?thesis by (auto simp: bit_unsigned_iff dest: bit_imp_possible_bit)
  qed
  moreover have "?k < 64" using \<open>bit w ?k\<close> bit_imp_le_length by fastforce
  ultimately have "last (word_marks w) = ?k"
    unfolding word_marks_def using \<open>bit w ?k\<close> by (intro sorted_filter_last) auto
  then show "last (word_marks w) = 63 - trailingZeroes w" "trailingZeroes w < 64"
    using \<open>?k < 64\<close> by (auto simp: trailingZeroes_floorLog2 [OF assms])
qed

section \<open>Skipping empty words\<close>

lemma skip_empty_bounds: "cur \<le> top1 \<Longrightarrow> cur \<le> skip_empty hm cur top1 \<and> skip_empty hm cur top1 \<le> top1"
proof (induction hm cur top1 rule: skip_empty.induct)
  case (1 hm cur top1)
  then show ?case by (subst (1 2) skip_empty.simps) (auto split: if_splits)
qed

lemma skip_empty_stops: "skip_empty hm cur top1 < top1 \<Longrightarrow> heapMapBits hm (skip_empty hm cur top1) \<noteq> 0"
proof (induction hm cur top1 rule: skip_empty.induct)
  case (1 hm cur top1)
  then show ?case by (cases "cur < top1"; cases "heapMapBits hm cur \<noteq> 0") (auto simp: skip_empty.simps [of hm cur])
qed

lemma skip_empty_zero: "cur \<le> i \<Longrightarrow> i < skip_empty hm cur top1 \<Longrightarrow> heapMapBits hm i = 0"
proof (induction hm cur top1 rule: skip_empty.induct)
  case (1 hm cur top1)
  then show ?case
    by (cases "cur < top1"; cases "heapMapBits hm cur \<noteq> 0"; cases "i = cur") (auto simp: skip_empty.simps [of hm cur])
qed

lemma empty_words:
  assumes "i \<le> j" "\<And>k. i \<le> k \<Longrightarrow> k < j \<Longrightarrow> heapMapBits hm k = 0" "word_addr hm j < UMAX"
  shows "marked_slots hm (word_addr hm i) (word_addr hm j) = []"
  using assms
proof (induction rule: dec_induct)
  case base
  then show ?case by (simp add: marked_slots_empty)
next
  case (step n)
  have "marked_slots hm (word_addr hm n) (word_addr hm (Suc n)) = []"
    using marked_word [of hm n] step by (simp add: word_marks_def)
  then show ?case using marked_words_append [of i n "Suc n" hm] step by simp
qed

end
