(* ===== verification/Stats_Merge.thy ===== *)
theory Stats_Merge
  imports Alloc_Stats
begin

text \<open>
  The statistics of a worker thread and their merge into those of the pool.  A worker counts the
  entries it finds under the same exact sizes as the pool; then the merge adds the counts and
  loses none.  The sizes are those of a configuration in which no size is very large (the
  threshold lies above the heap size).
\<close>

section \<open>Statistics with the same exact sizes\<close>

definition size_lists :: "FreeEntrySizeClassStats \<Rightarrow> nat list list" where
  "size_lists s = map (map fa_size) (frequentAllocationHead s)"

definition plain_sizes :: "LargeObjectAllocateStats \<Rightarrow> bool" where
  "plain_sizes los \<longleftrightarrow> (\<forall>n. 0 < n \<and> n < UMAX \<longrightarrow> logSizeClass los n < veryLargeEntrySizeClass los \<and>
     logSizeClass los n < maxSizeClasses (freeEntrySizeClassStats los))"

definition vl_empty :: "nat \<Rightarrow> FreeEntrySizeClassStats \<Rightarrow> bool" where
  "vl_empty vl s \<longleftrightarrow> (\<forall>i < maxSizeClasses s. vl \<le> i \<longrightarrow> frequentAllocationHead s ! i = [])"

definition local_stats :: "LargeObjectAllocateStats \<Rightarrow> FreeEntrySizeClassStats \<Rightarrow> bool" where
  "local_stats los es \<longleftrightarrow> fes_wf (veryLargeEntrySizeClass los) es \<and> vl_empty (veryLargeEntrySizeClass los) es \<and>
     maxSizeClasses es = maxSizeClasses (freeEntrySizeClassStats los) \<and>
     size_lists es = size_lists (freeEntrySizeClassStats los)"

lemma size_lists_nth:
  "size_lists s = size_lists s' \<Longrightarrow> i < length (frequentAllocationHead s) \<Longrightarrow>
    map fa_size (frequentAllocationHead s ! i) = map fa_size (frequentAllocationHead s' ! i)"
  unfolding size_lists_def by (metis length_map nth_map)

lemma size_lists_length: "size_lists s = size_lists s' \<Longrightarrow> length (frequentAllocationHead s) = length (frequentAllocationHead s')"
  unfolding size_lists_def by (metis length_map)

lemma size_lists_vl_empty:
  assumes "size_lists s = size_lists s'" "maxSizeClasses s = maxSizeClasses s'" "length (frequentAllocationHead s) = maxSizeClasses s"
    "vl_empty vl s'"
  shows "vl_empty vl s"
  unfolding vl_empty_def
proof (intro allI impI)
  fix i
  assume i: "i < maxSizeClasses s" "vl \<le> i"
  have "map fa_size (frequentAllocationHead s ! i) = map fa_size (frequentAllocationHead s' ! i)"
    using size_lists_nth [OF assms(1)] assms(3) i(1) by simp
  then show "frequentAllocationHead s ! i = []" using assms(2,4) i by (simp add: vl_empty_def)
qed

lemma count_keeps_sizes:
  assumes "countFreeEntry los n s cnt = Some (s', ret)" "logSizeClass los n < veryLargeEntrySizeClass los"
  shows "size_lists s' = size_lists s"
proof -
  let ?i = "logSizeClass los n"
  let ?l = "frequentAllocationHead s ! ?i"
  let ?pre = "takeWhile (\<lambda>f. fa_size f < n) ?l" and ?post = "dropWhile (\<lambda>f. fa_size f < n) ?l"
  have g: "getSizeClassIndex los n = Some ?i" "?i < length (frequentAllocationHead s)"
    using assms(1) by (auto simp: countFreeEntry_def getSizeClassIndex_def bind_eq_Some_conv Let_def split: if_splits)
  have u: "updateFreeEntrySizeClassStats los n s cnt ?i ?pre ?post = Some (s', ret)"
    using assms(1) g by (simp add: countFreeEntry_def)
  have l: "map fa_size ?l = map fa_size ?pre @ map fa_size ?post" by (metis map_append takeWhile_dropWhile_id)
  have keep: "size_lists (s \<lparr> frequentAllocationHead := (frequentAllocationHead s)[?i := l'] \<rparr>) = size_lists s"
    if "map fa_size l' = map fa_size ?l" for l'
    using that g(2) by (simp add: size_lists_def map_update list_update_same_conv)
  show ?thesis
  proof (cases "?post \<noteq> [] \<and> n = fa_size (hd ?post)")
    case True
    then have "s' = s \<lparr> frequentAllocationHead := (frequentAllocationHead s)
        [?i := ?pre @ (hd ?post) \<lparr> fa_count := fa_count (hd ?post) + cnt \<rparr> # tl ?post] \<rparr>"
      using u assms(2) by (auto simp: updateFreeEntrySizeClassStats_def)
    moreover have "map fa_size (?pre @ (hd ?post) \<lparr> fa_count := fa_count (hd ?post) + cnt \<rparr> # tl ?post) = map fa_size ?l"
      unfolding l using True by (cases ?post) auto
    ultimately show ?thesis using keep by simp
  next
    case False
    show ?thesis
    proof (cases "?pre = []")
      case True
      then have "s' = s \<lparr> fe_count := (fe_count s)[?i := fe_count s ! ?i + cnt] \<rparr>"
        using u assms(2) False by (auto simp: updateFreeEntrySizeClassStats_def Let_def)
      then show ?thesis by (simp add: size_lists_def)
    next
      case ne: False
      then have "s' = s \<lparr> frequentAllocationHead := (frequentAllocationHead s)
          [?i := butlast ?pre @ [(last ?pre) \<lparr> fa_count := fa_count (last ?pre) + cnt \<rparr>] @ ?post] \<rparr>"
        using u assms(2) False by (auto simp: updateFreeEntrySizeClassStats_def Let_def)
      moreover have "map fa_size (butlast ?pre @ [last ?pre]) = map fa_size ?pre"
        using ne by (metis append_butlast_last_id)
      then have "map fa_size (butlast ?pre @ [(last ?pre) \<lparr> fa_count := fa_count (last ?pre) + cnt \<rparr>] @ ?post) = map fa_size ?l"
        unfolding l by simp
      ultimately show ?thesis using keep by simp
    qed
  qed
qed

text \<open>A worker can count any entry, and stays in step with the pool.\<close>

lemma count_local:
  assumes "local_stats los es" "plain_sizes los" "0 < n" "n < UMAX"
  shows "\<exists>es' ret. countFreeEntry los n es 1 = Some (es', ret) \<and> local_stats los es' \<and> total_count es' = total_count es + 1"
proof -
  let ?i = "logSizeClass los n"
  have i: "?i < veryLargeEntrySizeClass los" "?i < maxSizeClasses (freeEntrySizeClassStats los)"
    using assms(2-4) by (auto simp: plain_sizes_def)
  have wf: "fes_wf (veryLargeEntrySizeClass los) es" using assms(1) by (simp add: local_stats_def)
  have "getSizeClassIndex los n = Some ?i" using assms(3) i by (simp add: getSizeClassIndex_def)
  moreover have "?i < length (frequentAllocationHead es)" using assms(1) i by (simp add: local_stats_def fes_wf_def)
  ultimately have "countFreeEntry los n es 1 \<noteq> None"
    using i by (simp add: countFreeEntry_def updateFreeEntrySizeClassStats_def Let_def)
  then obtain es' ret where c: "countFreeEntry los n es 1 = Some (es', ret)" by auto
  note t = countFreeEntry_totals [OF wf c]
  obtain j where "same_except j es es'" using countFreeEntry_class [OF wf c] by auto
  then have m: "maxSizeClasses es' = maxSizeClasses es" by (simp add: same_except_def)
  note sz = count_keeps_sizes [OF c i(1)]
  have "length (frequentAllocationHead es') = maxSizeClasses es'" using t(1) by (simp add: fes_wf_def)
  then have "vl_empty (veryLargeEntrySizeClass los) es'"
    using size_lists_vl_empty [OF sz m] assms(1) by (simp add: local_stats_def)
  then show ?thesis using c t(1,2) m sz assms(1) by (auto simp: local_stats_def)
qed

section \<open>The merge\<close>

lemma merge_exact_same_sizes:
  assumes "map fa_size l = map fa_size src" "distinct (map fa_size src)"
  shows "map fa_size (map (merge_exact src) l) = map fa_size l \<and>
    sum_list (map fa_count (map (merge_exact src) l)) = sum_list (map fa_count l) + sum_list (map fa_count src)"
proof -
  have len: "length l = length src" using assms(1) by (metis length_map)
  have e: "merge_exact src (l ! i) = (l ! i) \<lparr> fa_count := fa_count (l ! i) + fa_count (src ! i) \<rparr>" if "i < length src" for i
  proof -
    have s: "fa_size (l ! i) = fa_size (src ! i)" using assms(1) that len by (metis nth_map)
    have "dropWhile (\<lambda>f. fa_size (l ! i) \<noteq> fa_size f) src = src ! i # drop (Suc i) src"
    proof -
      have "takeWhile (\<lambda>f. fa_size (l ! i) \<noteq> fa_size f) src = take i src"
      proof (rule takeWhile_eq_take_P_nth)
        fix j
        assume "j < i" "j < length src"
        then show "fa_size (l ! i) \<noteq> fa_size (src ! j)"
          using assms(2) that s by (auto simp: distinct_conv_nth)
      qed (use s in simp)
      then have "dropWhile (\<lambda>f. fa_size (l ! i) \<noteq> fa_size f) src = drop i src"
        by (metis append_eq_conv_conj takeWhile_dropWhile_id append_take_drop_id)
      then show ?thesis using that by (simp add: Cons_nth_drop_Suc)
    qed
    then show ?thesis by (simp add: merge_exact_def)
  qed
  have "map fa_size (map (merge_exact src) l) = map fa_size l"
    by (rule nth_equalityI) (simp_all add: e len)
  moreover have "map fa_count (map (merge_exact src) l) = map2 (+) (map fa_count l) (map fa_count src)"
    by (rule nth_equalityI) (simp_all add: e len)
  moreover have "sum_list (map2 (+) xs ys) = sum_list xs + sum_list ys" if "length xs = length ys"
    for xs ys :: "uword list"
    using that by (induction xs ys rule: list_induct2) (simp_all add: algebra_simps)
  ultimately show ?thesis using len by simp
qed

lemma merge_class_step:
  assumes wf: "fes_wf vl s" "fes_wf vl es" and vl: "vl_empty vl es" and sz: "size_lists s = size_lists es"
    and m: "maxSizeClasses s = maxSizeClasses es" and i: "i < maxSizeClasses s"
  shows "\<exists>s'. merge_class es i s = Some s' \<and> same_except i s s' \<and> fes_wf vl s' \<and> size_lists s' = size_lists s \<and>
    class_count s' i = class_count s i + class_count es i"
proof -
  let ?l = "frequentAllocationHead s ! i" and ?src = "frequentAllocationHead es ! i"
  have len: "i < length (frequentAllocationHead s)" "i < length (fe_count s)" "frequentAllocationHead s \<noteq> []"
    using wf(1) i by (auto simp: fes_wf_def)
  have so: "sorted_wrt (<) (map fa_size ?l)" using wf(1) len by (auto simp: fes_wf_def)
  have eq: "map fa_size ?l = map fa_size ?src" using size_lists_nth [OF sz len(1)] .
  then have d: "distinct (map fa_size ?src)" using so by (simp add: strict_sorted_iff)
  note me = merge_exact_same_sizes [OF eq d]
  define l' where "l' = (if vl \<le> i then ?l else map (merge_exact ?src) ?l)"
  define s' where "s' = s \<lparr> fe_count := (fe_count s)[i := fe_count s ! i + fe_count es ! i],
    frequentAllocationHead := (frequentAllocationHead s)[i := l'] \<rparr>"
  have src: "vl \<le> i \<Longrightarrow> ?src = [] \<and> ?l = []" using vl i m eq by (auto simp: vl_empty_def)
  have r: "merge_class es i s = Some s'"
    using wf(1) len src by (auto simp: merge_class_def s'_def l'_def Let_def fes_wf_def)
  have se: "same_except i s s'" by (simp add: same_except_def s'_def)
  have l': "map fa_size l' = map fa_size ?l" using me by (simp add: l'_def)
  have h: "frequentAllocationHead s' ! i = l'" "fe_count s' ! i = fe_count s ! i + fe_count es ! i"
    using len by (simp_all add: s'_def)
  have "fes_wf vl s'"
    by (rule fes_wf_same_except [OF wf(1) se i]) (use so l' src in \<open>auto simp: h l'_def\<close>)
  moreover have "size_lists s' = size_lists s"
    using len l' by (simp add: size_lists_def s'_def map_update list_update_same_conv)
  moreover have "class_count s' i = class_count s i + class_count es i"
    using me src by (cases "vl \<le> i")
      (simp_all add: class_count_def getCount_def getFrequentAllocCount_def h l'_def algebra_simps)
  ultimately show ?thesis using r se by blast
qed

lemma merge_fold:
  assumes "fes_wf vl s" "fes_wf vl es" "vl_empty vl es" "size_lists s = size_lists es"
    "maxSizeClasses s = maxSizeClasses es" "set is' \<subseteq> {..<maxSizeClasses s}" "distinct is'"
  shows "\<exists>s'. foldO (merge_class es) is' s = Some s' \<and> fes_wf vl s' \<and> size_lists s' = size_lists s \<and>
    maxSizeClasses s' = maxSizeClasses s \<and>
    guarantyEnoughPoolSizeForVeryLargeEntry s' = guarantyEnoughPoolSizeForVeryLargeEntry s \<and>
    total_count s' = total_count s + (\<Sum>i \<leftarrow> is'. class_count es i)"
  using assms
proof (induction is' arbitrary: s)
  case (Cons i is')
  from merge_class_step [OF Cons.prems(1-5), of i] Cons.prems(6) obtain s1 where
    s1: "merge_class es i s = Some s1" "same_except i s s1" "fes_wf vl s1" "size_lists s1 = size_lists s"
      "class_count s1 i = class_count s i + class_count es i" by auto
  have m: "maxSizeClasses s1 = maxSizeClasses s"
    "guarantyEnoughPoolSizeForVeryLargeEntry s1 = guarantyEnoughPoolSizeForVeryLargeEntry s"
    using s1(2) by (auto simp: same_except_def)
  have "total_count s1 = total_count s + class_count es i"
    using total_count_change [OF s1(2)] s1(5) Cons.prems(6) by simp
  with Cons.IH [OF s1(3) Cons.prems(2,3)] Cons.prems s1 m show ?case by (auto simp: add.assoc)
qed simp

lemma merge_local:
  assumes "local_stats los es" "los_wf los"
  shows "\<exists>s'. fe_merge es (freeEntrySizeClassStats los) = Some s' \<and> los_wf (los \<lparr> freeEntrySizeClassStats := s' \<rparr>) \<and>
    size_lists s' = size_lists (freeEntrySizeClassStats los) \<and>
    maxSizeClasses s' = maxSizeClasses (freeEntrySizeClassStats los) \<and>
    guarantyEnoughPoolSizeForVeryLargeEntry s' = guarantyEnoughPoolSizeForVeryLargeEntry (freeEntrySizeClassStats los) \<and>
    total_count s' = total_count (freeEntrySizeClassStats los) + total_count es"
proof -
  let ?s = "freeEntrySizeClassStats los" and ?vl = "veryLargeEntrySizeClass los"
  have l: "fes_wf ?vl es" "vl_empty ?vl es" "size_lists ?s = size_lists es" "maxSizeClasses ?s = maxSizeClasses es"
    using assms(1) by (auto simp: local_stats_def)
  have "set [0..<maxSizeClasses es] \<subseteq> {..<maxSizeClasses ?s}" by (auto simp: l(4))
  from merge_fold [OF assms(2) [unfolded los_wf_def] l this] obtain s' where
    s': "foldO (merge_class es) [0..<maxSizeClasses es] ?s = Some s'" "fes_wf ?vl s'" "size_lists s' = size_lists ?s"
      "maxSizeClasses s' = maxSizeClasses ?s"
      "guarantyEnoughPoolSizeForVeryLargeEntry s' = guarantyEnoughPoolSizeForVeryLargeEntry ?s"
      "total_count s' = total_count ?s + (\<Sum>i \<leftarrow> [0..<maxSizeClasses es]. class_count es i)" by auto
  have "fe_merge es ?s = Some s'" using s'(1) l(4) by (simp add: fe_merge_def)
  moreover have "total_count s' = total_count ?s + total_count es" using s'(6) by (simp add: total_count_def [of es])
  ultimately show ?thesis using s'(2-5) by (auto simp: los_wf_def)
qed

section \<open>Setting up a worker\<close>

text \<open>
  \<open>initializeFrequentAllocation\<close> determines the exact sizes: every class lists the sizes of the
  class among the given ones, ascending.  So two statistics set up from the same summary agree.
\<close>

definition lists_sizes :: "LargeObjectAllocateStats \<Rightarrow> nat set \<Rightarrow> FreeEntrySizeClassStats \<Rightarrow> bool" where
  "lists_sizes los Z s \<longleftrightarrow> fes_wf (veryLargeEntrySizeClass los) s \<and> vl_empty (veryLargeEntrySizeClass los) s \<and>
     maxSizeClasses s = maxSizeClasses (freeEntrySizeClassStats los) \<and>
     (\<forall>i < maxSizeClasses s. class_count s i = 0) \<and>
     (\<forall>i < maxSizeClasses s. fa_size ` set (frequentAllocationHead s ! i) = {z \<in> Z. logSizeClass los z = i})"

lemma sizes_unique:
  assumes "lists_sizes los Z s" "lists_sizes los Z s'"
  shows "size_lists s = size_lists s'"
proof (rule nth_equalityI)
  show "length (size_lists s) = length (size_lists s')"
    using assms by (simp add: size_lists_def lists_sizes_def fes_wf_def)
  fix i
  assume "i < length (size_lists s)"
  then have i: "i < length (frequentAllocationHead s)" "i < length (frequentAllocationHead s')"
    "i < maxSizeClasses s" "i < maxSizeClasses s'"
    using assms by (auto simp: size_lists_def lists_sizes_def fes_wf_def)
  have "sorted_wrt (<) (map fa_size (frequentAllocationHead s ! i))" "sorted_wrt (<) (map fa_size (frequentAllocationHead s' ! i))"
    using assms i by (auto simp: lists_sizes_def fes_wf_def)
  moreover have "set (map fa_size (frequentAllocationHead s ! i)) = set (map fa_size (frequentAllocationHead s' ! i))"
    using assms i by (simp add: lists_sizes_def)
  ultimately have "map fa_size (frequentAllocationHead s ! i) = map fa_size (frequentAllocationHead s' ! i)"
    by (simp add: strict_sorted_equal)
  then show "size_lists s ! i = size_lists s' ! i" using i by (simp add: size_lists_def)
qed

lemma insert_size:
  assumes inv: "lists_sizes los Z s" "plain_sizes los" and z: "0 < z" "z < UMAX"
    and c: "frequentAllocateSizeCounters s < MAX_FREE_ENTRY_COUNTERS * maxFrequentAllocateSizes s"
  shows "\<exists>s'. insertFrequentSize los z s = Some s' \<and> lists_sizes los (insert z Z) s' \<and>
    frequentAllocateSizeCounters s' \<le> Suc (frequentAllocateSizeCounters s) \<and>
    maxFrequentAllocateSizes s' = maxFrequentAllocateSizes s"
proof -
  let ?i = "logSizeClass los z" and ?vl = "veryLargeEntrySizeClass los"
  let ?l = "frequentAllocationHead s ! ?i"
  define pre where "pre = takeWhile (\<lambda>f. fa_size f < z) ?l"
  define post where "post = dropWhile (\<lambda>f. fa_size f < z) ?l"
  have wf: "fes_wf ?vl s" and m: "maxSizeClasses s = maxSizeClasses (freeEntrySizeClassStats los)"
    using inv(1) by (auto simp: lists_sizes_def)
  have i: "?i < ?vl" "?i < maxSizeClasses s" using inv(2) z m by (auto simp: plain_sizes_def)
  have len: "?i < length (frequentAllocationHead s)" using wf i by (simp add: fes_wf_def)
  have so: "sorted_wrt (<) (map fa_size ?l)" using wf len by (auto simp: fes_wf_def)
  have g: "getSizeClassIndex los z = Some ?i" using z(1) i m by (simp add: getSizeClassIndex_def)
  have l: "?l = pre @ post" by (simp add: pre_def post_def)
  have vli: "\<not> fe_veryLargeEntrySizeClass s \<le> ?i" using wf i(1) by (simp add: fes_wf_def)
  have ins: "insertFrequentSize los z s = (if post = [] \<or> z \<noteq> fa_size (hd post) then
      do { assert_MM (frequentAllocateSizeCounters s < MAX_FREE_ENTRY_COUNTERS * maxFrequentAllocateSizes s);
           Some (s \<lparr> frequentAllocationHead := (frequentAllocationHead s)[?i := pre @ \<lparr> fa_size = z, fa_count = 0 \<rparr> # post],
                     frequentAllocateSizeCounters := frequentAllocateSizeCounters s + 1 \<rparr>) }
    else Some s)"
    unfolding insertFrequentSize_def g Let_def pre_def post_def using vli by simp
  have below: "fa_size f < z" if "f \<in> set pre" for f using that by (auto simp: pre_def dest: set_takeWhileD)
  show ?thesis
  proof (cases "post = [] \<or> z \<noteq> fa_size (hd post)")
    case False
    then have "insertFrequentSize los z s = Some s" unfolding ins by simp
    moreover have "z \<in> fa_size ` set ?l"
      using False l by (metis hd_in_set image_eqI Un_iff set_append)
    then have "z \<in> Z" using inv(1) i(2) by (auto simp: lists_sizes_def)
    then have "insert z Z = Z" by blast
    ultimately show ?thesis using inv(1) by simp
  next
    case True
    define l' where "l' = pre @ \<lparr> fa_size = z, fa_count = 0 \<rparr> # post"
    define s' where "s' = s \<lparr> frequentAllocationHead := (frequentAllocationHead s)[?i := l'],
      frequentAllocateSizeCounters := frequentAllocateSizeCounters s + 1 \<rparr>"
    have r: "insertFrequentSize los z s = Some s'"
      using c True by (simp add: ins s'_def l'_def)
    have so2: "sorted_wrt (<) (map fa_size (pre @ post))" using so l by simp
    have above: "z < fa_size f" if "f \<in> set post" for f
    proof -
      from that obtain h t where p: "post = h # t" by (cases post) auto
      have "\<not> fa_size h < z" using p unfolding post_def by (metis hd_dropWhile list.distinct(1) list.sel(1))
      then have "z < fa_size h" using True p by simp
      moreover have "fa_size h \<le> fa_size f" using that so2 unfolding p by (auto simp: sorted_wrt_append)
      ultimately show ?thesis by simp
    qed
    have so': "sorted_wrt (<) (map fa_size l')"
      using so2 below above by (auto simp: l'_def sorted_wrt_append) 
    have set': "fa_size ` set l' = insert z (fa_size ` set ?l)"
      unfolding l'_def l by auto
    have h: "frequentAllocationHead s' ! j = (if j = ?i then l' else frequentAllocationHead s ! j)" for j
      using len by (simp add: s'_def)
    have se: "same_except ?i s s'" by (simp add: same_except_def s'_def)
    have "fes_wf ?vl s'" by (rule fes_wf_same_except [OF wf se i(2)]) (use so' i(1) in \<open>simp_all add: h\<close>)
    moreover have "vl_empty ?vl s'" using inv(1) i(1) by (auto simp: lists_sizes_def vl_empty_def h) (simp_all add: s'_def)
    moreover have "class_count s' j = 0" if "j < maxSizeClasses s" for j
    proof -
      have "sum_list (map fa_count l') = sum_list (map fa_count (pre @ post))" by (simp add: l'_def)
      then have "getFrequentAllocCount s' j = getFrequentAllocCount s j" using l by (simp add: getFrequentAllocCount_def h)
      moreover have "class_count s j = 0" using inv(1) that by (simp add: lists_sizes_def)
      ultimately show ?thesis by (simp add: class_count_def getCount_def s'_def)
    qed
    moreover have "fa_size ` set (frequentAllocationHead s' ! j) = {y \<in> insert z Z. logSizeClass los y = j}"
      if "j < maxSizeClasses s" for j
    proof -
      have "fa_size ` set (frequentAllocationHead s ! j) = {y \<in> Z. logSizeClass los y = j}"
        using inv(1) that by (simp add: lists_sizes_def)
      then show ?thesis using set' by (cases "j = ?i") (auto simp: h)
    qed
    moreover have "maxSizeClasses s' = maxSizeClasses s" by (simp add: s'_def)
    ultimately have "lists_sizes los (insert z Z) s'" unfolding lists_sizes_def m by simp
    then show ?thesis using r by (simp add: s'_def)
  qed
qed

lemma insert_sizes:
  assumes "lists_sizes los Z s" "plain_sizes los" "\<forall>z \<in> set zs. 0 < z \<and> z < UMAX"
    "frequentAllocateSizeCounters s + length zs \<le> MAX_FREE_ENTRY_COUNTERS * maxFrequentAllocateSizes s"
  shows "\<exists>s'. foldO (\<lambda>z. insertFrequentSize los z) zs s = Some s' \<and> lists_sizes los (set zs \<union> Z) s' \<and>
    frequentAllocateSizeCounters s' \<le> frequentAllocateSizeCounters s + length zs \<and>
    maxFrequentAllocateSizes s' = maxFrequentAllocateSizes s"
  using assms
proof (induction zs arbitrary: s Z)
  case (Cons z zs)
  from insert_size [OF Cons.prems(1,2), of z] Cons.prems(3,4) obtain s1 where
    s1: "insertFrequentSize los z s = Some s1" "lists_sizes los (insert z Z) s1"
      "frequentAllocateSizeCounters s1 \<le> Suc (frequentAllocateSizeCounters s)"
      "maxFrequentAllocateSizes s1 = maxFrequentAllocateSizes s" by auto
  from Cons.IH [OF s1(2) Cons.prems(2)] Cons.prems(3,4) s1(3,4) obtain s2 where
    s2: "foldO (\<lambda>z. insertFrequentSize los z) zs s1 = Some s2" "lists_sizes los (set zs \<union> insert z Z) s2"
      "frequentAllocateSizeCounters s2 \<le> frequentAllocateSizeCounters s1 + length zs"
      "maxFrequentAllocateSizes s2 = maxFrequentAllocateSizes s1" by auto
  have "set (z # zs) \<union> Z = set zs \<union> insert z Z" by auto
  with s1 s2 show ?case by auto
qed simp

definition frequent_size :: "LargeObjectAllocateStats \<Rightarrow> nat \<Rightarrow> nat" where
  "frequent_size los i = rankingGetKthHighest (spaceSavingSizesAveragePercent los) (i + 1)"

definition frequent_multiples :: "LargeObjectAllocateStats \<Rightarrow> nat \<Rightarrow> nat list" where
  "frequent_multiples los i =
     map (\<lambda>factor. factor * frequent_size los i) [1..<min MAX_FREE_ENTRY_COUNTERS (maxHeapSize los div frequent_size los i) + 1]"

definition frequent_ok :: "LargeObjectAllocateStats \<Rightarrow> bool" where
  "frequent_ok los \<longleftrightarrow> maxHeapSize los < UMAX \<and>
     (\<forall>i < rk_curSize (spaceSavingSizesAveragePercent los). frequent_size los i \<noteq> 0)"

lemma frequent_multiples_bounds:
  assumes "frequent_ok los" "i < rk_curSize (spaceSavingSizesAveragePercent los)"
  shows "\<forall>z \<in> set (frequent_multiples los i). 0 < z \<and> z < UMAX" "length (frequent_multiples los i) \<le> MAX_FREE_ENTRY_COUNTERS"
proof -
  let ?f = "frequent_size los i"
  have f: "?f \<noteq> 0" "maxHeapSize los < UMAX" using assms by (auto simp: frequent_ok_def)
  show "\<forall>z \<in> set (frequent_multiples los i). 0 < z \<and> z < UMAX"
  proof
    fix z
    assume "z \<in> set (frequent_multiples los i)"
    then have "\<exists>k. z = k * ?f \<and> 1 \<le> k \<and> k \<le> maxHeapSize los div ?f" by (force simp: frequent_multiples_def)
    then obtain k where k: "z = k * ?f" "1 \<le> k" "k \<le> maxHeapSize los div ?f" by blast
    have "k * ?f \<le> maxHeapSize los div ?f * ?f" using k(3) by (rule mult_le_mono1)
    also have "\<dots> \<le> maxHeapSize los" by simp
    finally show "0 < z \<and> z < UMAX" using f k by simp
  qed
  show "length (frequent_multiples los i) \<le> MAX_FREE_ENTRY_COUNTERS" by (simp add: frequent_multiples_def)
qed

lemma foldO_map: "foldO f (map g xs) s = foldO (\<lambda>x. f (g x)) xs s"
proof (induction xs arbitrary: s)
  case (Cons x xs)
  have "foldO f (map g xs) = foldO (\<lambda>x. f (g x)) xs" using Cons by blast
  then show ?case by simp
qed simp

lemma insert_all_frequent:
  assumes "lists_sizes los Z s" "plain_sizes los" "frequent_ok los" "set is' \<subseteq> {..<rk_curSize (spaceSavingSizesAveragePercent los)}"
    "frequentAllocateSizeCounters s + MAX_FREE_ENTRY_COUNTERS * length is' \<le> MAX_FREE_ENTRY_COUNTERS * maxFrequentAllocateSizes s"
  shows "\<exists>s'. foldO (\<lambda>i s. let f = rankingGetKthHighest (spaceSavingSizesAveragePercent los) (i + 1)
                in do { assert_MM (f \<noteq> 0);
                        foldO (\<lambda>factor s. insertFrequentSize los (factor * f) s)
                          [1..<min MAX_FREE_ENTRY_COUNTERS (maxHeapSize los div f) + 1] s }) is' s = Some s' \<and>
    lists_sizes los ((\<Union>i \<in> set is'. set (frequent_multiples los i)) \<union> Z) s' \<and>
    maxFrequentAllocateSizes s' = maxFrequentAllocateSizes s"
  using assms
proof (induction is' arbitrary: s Z)
  case (Cons i is')
  have i: "i < rk_curSize (spaceSavingSizesAveragePercent los)" using Cons.prems(4) by simp
  note b = frequent_multiples_bounds [OF Cons.prems(3) i]
  from insert_sizes [OF Cons.prems(1,2) b(1)] b(2) Cons.prems(5) obtain s1 where
    s1: "foldO (\<lambda>z. insertFrequentSize los z) (frequent_multiples los i) s = Some s1"
      "lists_sizes los (set (frequent_multiples los i) \<union> Z) s1"
      "frequentAllocateSizeCounters s1 \<le> frequentAllocateSizeCounters s + length (frequent_multiples los i)"
      "maxFrequentAllocateSizes s1 = maxFrequentAllocateSizes s" by auto
  have f: "frequent_size los i \<noteq> 0" using Cons.prems(3) i by (simp add: frequent_ok_def)
  from s1(1) have e: "foldO (\<lambda>factor s. insertFrequentSize los (factor * frequent_size los i) s)
      [1..<min MAX_FREE_ENTRY_COUNTERS (maxHeapSize los div frequent_size los i) + 1] s = Some s1"
    unfolding frequent_multiples_def foldO_map .
  have "frequentAllocateSizeCounters s1 + MAX_FREE_ENTRY_COUNTERS * length is' \<le> MAX_FREE_ENTRY_COUNTERS * maxFrequentAllocateSizes s1"
    using Cons.prems(5) s1(3,4) b(2) by simp
  from Cons.IH [OF s1(2) Cons.prems(2,3) _ this] Cons.prems(4) s1(4) f e show ?case
    by (simp add: frequent_size_def Let_def Un_assoc Un_left_commute)
qed simp

definition cleared :: "LargeObjectAllocateStats \<Rightarrow> FreeEntrySizeClassStats \<Rightarrow> bool" where
  "cleared los s \<longleftrightarrow> fes_wf (veryLargeEntrySizeClass los) s \<and> vl_empty (veryLargeEntrySizeClass los) s \<and>
     maxSizeClasses s = maxSizeClasses (freeEntrySizeClassStats los) \<and> (\<forall>i < maxSizeClasses s. fe_count s ! i = 0)"

lemma clearFrequentAllocation_lists:
  assumes "cleared los s"
  shows "lists_sizes los {} (clearFrequentAllocation s)" "frequentAllocateSizeCounters (clearFrequentAllocation s) = 0"
    "maxFrequentAllocateSizes (clearFrequentAllocation s) = maxFrequentAllocateSizes s"
proof -
  have wf: "fes_wf (veryLargeEntrySizeClass los) s" and vl: "vl_empty (veryLargeEntrySizeClass los) s"
    and m: "maxSizeClasses s = maxSizeClasses (freeEntrySizeClassStats los)" and z: "\<forall>i < maxSizeClasses s. fe_count s ! i = 0"
    using assms by (auto simp: cleared_def)
  have len: "length (frequentAllocationHead s) = maxSizeClasses s" "maxFrequentAllocateSizes s \<noteq> 0"
    "fe_veryLargeEntrySizeClass s = veryLargeEntrySizeClass los" using wf by (auto simp: fes_wf_def)
  let ?s = "clearFrequentAllocation s"
  have e: "maxSizeClasses ?s = maxSizeClasses s" "fe_count ?s = fe_count s"
    "fe_veryLargeEntrySizeClass ?s = fe_veryLargeEntrySizeClass s" "length (frequentAllocationHead ?s) = length (frequentAllocationHead s)"
    by (simp_all add: clearFrequentAllocation_def)
  have h: "frequentAllocationHead ?s ! i = []" if "i < maxSizeClasses s" for i
    using that vl len by (auto simp: clearFrequentAllocation_def nth_enumerate_eq vl_empty_def)
  show c: "frequentAllocateSizeCounters ?s = 0" "maxFrequentAllocateSizes ?s = maxFrequentAllocateSizes s"
    using len(2) by (simp_all add: clearFrequentAllocation_def)
  have "\<forall>l \<in> set (frequentAllocationHead ?s). l = []" using h e(4) len(1) by (metis in_set_conv_nth)
  then have "fes_wf (veryLargeEntrySizeClass los) ?s" using wf e c(2) h unfolding fes_wf_def by (metis list.map(1) sorted_wrt.simps(1) empty_iff list.set(1) image_empty)
  then show "lists_sizes los {} ?s"
    using h e m z by (simp add: lists_sizes_def vl_empty_def class_count_def getCount_def getFrequentAllocCount_def)
qed

definition frequent_set :: "LargeObjectAllocateStats \<Rightarrow> nat \<Rightarrow> nat set" where
  "frequent_set los n = (\<Union>i < min n (rk_curSize (spaceSavingSizesAveragePercent los)). set (frequent_multiples los i))"

lemma initializeFrequentAllocation_lists:
  assumes "cleared los s" "plain_sizes los" "frequent_ok los"
  shows "\<exists>s'. initializeFrequentAllocation los s = Some s' \<and> lists_sizes los (frequent_set los (maxFrequentAllocateSizes s)) s' \<and>
    maxFrequentAllocateSizes s' = maxFrequentAllocateSizes s"
proof -
  let ?s = "clearFrequentAllocation s"
  note c = clearFrequentAllocation_lists [OF assms(1)]
  let ?n = "min (maxFrequentAllocateSizes ?s) (rk_curSize (spaceSavingSizesAveragePercent los))"
  have "set [0..<?n] \<subseteq> {..<rk_curSize (spaceSavingSizesAveragePercent los)}" by auto
  moreover have "frequentAllocateSizeCounters ?s + MAX_FREE_ENTRY_COUNTERS * length [0..<?n] \<le>
      MAX_FREE_ENTRY_COUNTERS * maxFrequentAllocateSizes ?s" using c(2) by simp
  ultimately obtain s' where s': "initializeFrequentAllocation los s = Some s'"
    "lists_sizes los ((\<Union>i \<in> set [0..<?n]. set (frequent_multiples los i)) \<union> {}) s'"
    "maxFrequentAllocateSizes s' = maxFrequentAllocateSizes ?s"
    using insert_all_frequent [OF c(1) assms(2,3), of "[0..<?n]"] by (auto simp: initializeFrequentAllocation_def Let_def)
  have "set [0..<?n] = {..<?n}" by auto
  then show ?thesis using s' c(3) by (simp add: frequent_set_def)
qed

text \<open>A worker that starts is in step with a pool whose statistics were set up by the same summary.\<close>

lemma worker_starts:
  assumes "cleared los es" "plain_sizes los" "frequent_ok los"
    and "size_lists (freeEntrySizeClassStats los) = size_lists s" "lists_sizes los (frequent_set los (maxFrequentAllocateSizes es)) s"
  shows "\<exists>es'. initializeFrequentAllocation los es = Some es' \<and> local_stats los es' \<and> total_count es' = 0"
proof -
  from initializeFrequentAllocation_lists [OF assms(1-3)] obtain es' where
    es': "initializeFrequentAllocation los es = Some es'" "lists_sizes los (frequent_set los (maxFrequentAllocateSizes es)) es'" by auto
  have "size_lists es' = size_lists (freeEntrySizeClassStats los)" using sizes_unique [OF es'(2) assms(5)] assms(4) by simp
  moreover have "total_count es' = 0"
  proof -
    have "map (class_count es') [0..<maxSizeClasses es'] = map (\<lambda>_. 0) [0..<maxSizeClasses es']"
      using es'(2) by (auto simp: lists_sizes_def)
    then show ?thesis unfolding total_count_def by (simp only: sum_list_0)
  qed
  ultimately show ?thesis using es' by (auto simp: local_stats_def lists_sizes_def)
qed

end
