(* ===== verification/Sweep_Chunk.thy ===== *)
theory Sweep_Chunk
  imports Mark_Scan Stats_Merge Pool_Alloc
begin

text \<open>
  What the sweep of one chunk computes.  The chunk's marks are a list of object addresses; the
  free entries it builds are the gaps between neighbouring objects that contain an empty map
  word and are large enough (\<open>inner_entries\<close>); the gaps at the two ends are left to the
  connection of the chunks.
\<close>

section \<open>Objects and gaps\<close>

text \<open>Objects at the given addresses, in order and disjoint.\<close>

definition live_objects :: "(addr \<Rightarrow> nat) \<Rightarrow> addr list \<Rightarrow> bool" where
  "live_objects sizeOf ms \<longleftrightarrow> sorted_wrt (\<lambda>m m'. m + sizeOf m \<le> m') ms \<and>
     (\<forall>m \<in> set ms. 8 dvd m \<and> 0 < m \<and> 8 dvd sizeOf m \<and> 8 \<le> sizeOf m \<and> m + sizeOf m < UMAX)"

lemma live_append:
  "live_objects sz (xs @ ys) \<longleftrightarrow> live_objects sz xs \<and> live_objects sz ys \<and> (\<forall>m \<in> set xs. \<forall>m' \<in> set ys. m + sz m \<le> m')"
  by (auto simp: live_objects_def sorted_wrt_append)

lemma live_Cons:
  "live_objects sz (m # ms) \<longleftrightarrow> 8 dvd m \<and> 0 < m \<and> 8 dvd sz m \<and> 8 \<le> sz m \<and> m + sz m < UMAX \<and>
     (\<forall>m' \<in> set ms. m + sz m \<le> m') \<and> live_objects sz ms"
  by (auto simp: live_objects_def)

lemma live_Nil [simp]: "live_objects sz []"
  by (simp add: live_objects_def)

text \<open>The gap between two neighbouring objects, and whether it holds a whole map word without a mark.\<close>

definition gap :: "(addr \<Rightarrow> nat) \<Rightarrow> addr \<Rightarrow> addr \<Rightarrow> entry" where
  "gap sz m m' = (m + sz m, m' - (m + sz m))"

definition wide :: "HeapMap \<Rightarrow> addr \<Rightarrow> addr \<Rightarrow> bool" where
  "wide hm m m' \<longleftrightarrow> off hm m div 512 + 2 \<le> off hm m' div 512"

fun inner_entries :: "HeapMap \<Rightarrow> (addr \<Rightarrow> nat) \<Rightarrow> nat \<Rightarrow> addr list \<Rightarrow> entry list" where
  "inner_entries hm sz mn (m # m' # ms) =
     (if wide hm m m' \<and> mn \<le> snd (gap sz m m') then [gap sz m m'] else []) @ inner_entries hm sz mn (m' # ms)"
| "inner_entries hm sz mn ms = []"

lemma inner_entries_skip:
  assumes "W \<noteq> []" "\<forall>a \<in> set (m # W). \<forall>a' \<in> set W. \<not> wide hm a a'"
  shows "inner_entries hm sz mn (m # W @ R) = inner_entries hm sz mn (last W # R)"
  using assms
proof (induction W arbitrary: m)
  case (Cons a W)
  then show ?case by (cases W) auto
qed simp

lemma gap_ok:
  assumes "live_objects sz [m, m']" "16 \<le> mn" "mn \<le> snd (gap sz m m')"
  shows "entry_ok mn (gap sz m m')"
  using assms by (auto simp: live_Cons gap_def entry_ok_def)

lemma inner_entries_within:
  assumes "live_objects sz (m # ms)" "e \<in> set (inner_entries hm sz mn (m # ms))"
  shows "m + sz m \<le> fst e \<and> fst e + snd e \<le> last (m # ms)"
  using assms
proof (induction ms arbitrary: m)
  case (Cons m' ms)
  have l: "m + sz m \<le> m'" "live_objects sz (m' # ms)" using Cons.prems(1) by (auto simp: live_Cons)
  have m': "m' \<le> last (m' # ms)" using l(2) by (cases "ms = []") (auto simp: live_Cons dest!: last_in_set bspec)
  show ?case
  proof (cases "e = gap sz m m'")
    case True
    then show ?thesis using l m' by (simp add: gap_def)
  next
    case False
    then have "e \<in> set (inner_entries hm sz mn (m' # ms))" using Cons.prems(2) by (auto split: if_splits)
    from Cons.IH [OF l(2) this] l(1) show ?thesis by simp
  qed
qed simp

lemma inner_entries_wf:
  assumes "live_objects sz ms" "16 \<le> mn"
  shows "entries_wf mn (inner_entries hm sz mn ms)"
  using assms
proof (induction hm sz mn ms rule: inner_entries.induct)
  case (1 hm sz mn m m' ms)
  have l: "live_objects sz (m' # ms)" "live_objects sz [m, m']" "m + sz m \<le> m'"
    using "1.prems"(1) by (auto simp: live_Cons)
  have "before (gap sz m m') f" if "f \<in> set (inner_entries hm sz mn (m' # ms))" for f
    using inner_entries_within [OF l(1) that] l(3) by (simp add: before_def gap_def)
  with "1.IH" [OF l(1) "1.prems"(2)] gap_ok [OF l(2) "1.prems"(2)] show ?case
    by (auto simp: entries_wf_Cons)
qed simp_all

section \<open>The chunk's own list\<close>

text \<open>A chunk with the fields of the free list it has built so far.\<close>

definition chunk_with :: "entry list \<Rightarrow> addr \<Rightarrow> ParallelSweepChunk \<Rightarrow> ParallelSweepChunk" where
  "chunk_with ys x c =
     c \<lparr> freeListHead := head_addr ys, freeListHeadSize := (if ys = [] then 0 else snd (hd ys)),
         freeListTail := last_addr ys, freeListTailSize := (if ys = [] then 0 else snd (last ys)),
         previousFreeListTail := last_addr (butlast ys), freeBytes := entries_size ys, freeHoles := length ys,
         ck_largestFreeEntry := search_size 0 ys, ck_previousLargestFreeEntry := x \<rparr>"

lemma chunk_with_fields [simp]:
  "chunkBase (chunk_with ys x c) = chunkBase c" "chunkTop (chunk_with ys x c) = chunkTop c"
  "freeListTail (chunk_with ys x c) = last_addr ys" "freeListHead (chunk_with ys x c) = head_addr ys"
  "freeListTailSize (chunk_with ys x c) = (if ys = [] then 0 else snd (last ys))"
  "freeBytes (chunk_with ys x c) = entries_size ys" "freeHoles (chunk_with ys x c) = length ys"
  "ck_largestFreeEntry (chunk_with ys x c) = search_size 0 ys"
  "leadingFreeCandidate (chunk_with ys x c) = leadingFreeCandidate c"
  "leadingFreeCandidateSize (chunk_with ys x c) = leadingFreeCandidateSize c"
  "trailingFreeCandidate (chunk_with ys x c) = trailingFreeCandidate c"
  "trailingFreeCandidateSize (chunk_with ys x c) = trailingFreeCandidateSize c"
  "projection (chunk_with ys x c) = projection c" "coalesceCandidate (chunk_with ys x c) = coalesceCandidate c"
  "ck_memoryPool (chunk_with ys x c) = ck_memoryPool c" "ck_previous (chunk_with ys x c) = ck_previous c"
  by (simp_all add: chunk_with_def)

lemma last_addr_single [simp]: "last_addr [e] = fst e"
  by (simp add: last_addr_def)

lemma search_size_snoc: "search_size c (ys @ [e]) = max (search_size c ys) (snd e)"
  by (simp add: search_size_def)

lemma connectInner_extends:
  assumes ch: "chain (mem p) (head_addr ys) ys" and wf: "entries_wf (minimumFreeEntrySize p) ys"
    and a: "8 dvd a" "0 < a" "8 dvd n" "a + n < UMAX" "minimumFreeEntrySize p \<le> n" "16 \<le> n"
    and pos: "\<forall>e \<in> set ys. fst e + snd e \<le> a"
  shows "\<exists>m'. connectInnerMemoryToPool a n (last_addr ys) p = Some (True, p \<lparr> mem := m' \<rparr>) \<and>
    chain m' (head_addr (ys @ [(a, n)])) (ys @ [(a, n)]) \<and>
    (\<forall>w. (w < a \<or> a + n \<le> w) \<and> (ys = [] \<or> w \<noteq> last_addr ys) \<longrightarrow> m' w = mem p w)"
proof -
  let ?mn = "minimumFreeEntrySize p"
  from internalRecycleHeapChunk_spec [OF a(3,4), of NULL p] a(2,5,6) obtain m1 where
    r: "internalRecycleHeapChunk a (a + n) NULL p = Some (True, p \<lparr> mem := m1 \<rparr>)"
    and ag: "agree_outside a (a + n) (mem p) m1" and e: "getSize m1 a = n" "getNext m1 a = NULL" by auto
  have ap: "apart a (a + n) ys" using pos by (auto simp: apart_def)
  have l1: "chain m1 (head_addr ys) ys" using ch lseg_agree [OF ag ap wf] by simp
  have u: "uadd a n = a + n" using a(4) by (rule uadd_exact)
  have new: "chain m1 a [(a, n)]" using e a(2) by simp
  have wf': "entries_wf ?mn (ys @ [(a, n)])"
    using wf a pos by (auto simp: entries_wf_simps entry_ok_def before_def)
  show ?thesis
  proof (cases "ys = []")
    case True
    then have "connectInnerMemoryToPool a n (last_addr ys) p = Some (True, p \<lparr> mem := m1 \<rparr>)"
      using r a(5) by (simp add: connectInnerMemoryToPool_def createFreeEntry_def u)
    then show ?thesis using True new ag by (auto simp: agree_outside_def)
  next
    case False
    then have nn: "last_addr ys \<noteq> NULL" "head_addr (ys @ [(a, n)]) = head_addr ys"
      using last_addr_NULL [OF wf] by (auto simp: head_addr_def)
    then have "connectInnerMemoryToPool a n (last_addr ys) p = Some (True, p \<lparr> mem := setNext (last_addr ys) a m1 \<rparr>)"
      using r a(5) by (simp add: connectInnerMemoryToPool_def createFreeEntry_def u)
    moreover have "chain (setNext (last_addr ys) a m1) (head_addr ys) (ys @ [(a, n)])"
      by (rule relink_chain [OF wf' l1 new False])
    ultimately show ?thesis using ag nn(2) by (auto simp: agree_outside_def setNext_def setNextImpl_def)
  qed
qed

definition min_ok :: "pool \<Rightarrow> bool" where
  "min_ok p \<longleftrightarrow> 512 \<le> minimumFreeEntrySize p"

lemma addInnerMemory_spec:
  fixes p :: pool
  assumes ch: "chain (mem p) (head_addr ys) ys" and wf: "entries_wf (minimumFreeEntrySize p) ys" and mn: "min_ok p"
    and l: "live_objects (sw_sizeOf ss) [m, m']" and pos: "\<forall>e \<in> set ys. fst e + snd e \<le> m"
    and st: "local_stats (largeObjectAllocateStats p) es" "plain_sizes (largeObjectAllocateStats p)"
    and sum: "entries_size ys \<le> m" "length ys \<le> m"
  defines "e \<equiv> gap (sw_sizeOf ss) m m'"
  defines "zs \<equiv> (if minimumFreeEntrySize p \<le> snd e then [e] else [])"
  shows "\<exists>m1 x' es'. addInnerMemory ss (m + 8) ((m' - (m + 8)) div 8) (chunk_with ys x c0, p, es) =
      Some (chunk_with (ys @ zs) x' c0, p \<lparr> mem := m1 \<rparr>, es') \<and> chain m1 (head_addr (ys @ zs)) (ys @ zs) \<and>
    (\<forall>w. (w < m \<or> m' \<le> w) \<and> (ys = [] \<or> w \<noteq> last_addr ys) \<longrightarrow> m1 w = mem p w) \<and>
    local_stats (largeObjectAllocateStats p) es' \<and> total_count es' = total_count es + of_nat (length zs)"
proof -
  let ?sz = "sw_sizeOf ss m" and ?mn = "minimumFreeEntrySize p"
  have m: "8 dvd m" "0 < m" "8 dvd ?sz" "8 \<le> ?sz" "m + ?sz \<le> m'" "8 dvd m'" "m' < UMAX"
    using l by (auto simp: live_Cons)
  have "8 dvd m' - (m + 8)" using m by (intro dvd_diff_nat dvd_add) auto
  then have b: "convertSlotsToBytes ((m' - (m + 8)) div 8) = m' - (m + 8)"
    using m(7) by (simp add: convertSlotsToBytes_def umul_exact)
  have u: "usub (m + 8) 8 = m" "usub ?sz 8 = ?sz - 8" "uadd (m + 8) (?sz - 8) = m + ?sz"
    "usub (m' - (m + 8)) (?sz - 8) = m' - (m + ?sz)"
    using m by (simp_all add: usub_exact uadd_exact)
  have ex: "e = (m + ?sz, m' - (m + ?sz))" by (simp add: e_def gap_def)
  show ?thesis
  proof (cases "?mn \<le> snd e")
    case False
    then have "addInnerMemory ss (m + 8) ((m' - (m + 8)) div 8) (chunk_with ys x c0, p, es) = Some (chunk_with ys x c0, p, es)"
      using m by (simp add: addInnerMemory_def Let_def b u ex connectInnerMemoryToPool_def)
    moreover have "p = p \<lparr> mem := mem p \<rparr>" by simp
    ultimately show ?thesis using False ch st(1) by (intro exI [of _ "mem p"] exI [of _ x] exI [of _ es]) (simp add: zs_def)
  next
    case True
    let ?n = "m' - (m + ?sz)"
    have n: "?mn \<le> ?n" "512 \<le> ?n" using True mn by (auto simp: ex min_ok_def)
    have al: "8 dvd m + ?sz" "8 dvd ?n" "m + ?sz + ?n < UMAX" "\<forall>e \<in> set ys. fst e + snd e \<le> m + ?sz"
      using m pos by (auto intro: dvd_diff_nat)
    from connectInner_extends [OF ch wf al(1) _ al(2,3) n(1) _ al(4)] m(2) n obtain m1 where
      c: "connectInnerMemoryToPool (m + ?sz) ?n (last_addr ys) p = Some (True, p \<lparr> mem := m1 \<rparr>)"
        "chain m1 (head_addr (ys @ [(m + ?sz, ?n)])) (ys @ [(m + ?sz, ?n)])"
        "\<forall>w. (w < m + ?sz \<or> m + ?sz + ?n \<le> w) \<and> (ys = [] \<or> w \<noteq> last_addr ys) \<longrightarrow> m1 w = mem p w" by auto
    have "0 < ?n" "?n < UMAX" using n(2) m(7) by linarith+
    from count_local [OF st this] obtain es' ret where
      ce: "countFreeEntry (largeObjectAllocateStats p) ?n es 1 = Some (es', ret)"
        "local_stats (largeObjectAllocateStats p) es'" "total_count es' = total_count es + 1" by auto
    have ad: "uadd (entries_size ys) ?n = entries_size ys + ?n" "uadd (length ys) (Suc 0) = Suc (length ys)"
      using sum m by (auto intro!: uadd_exact simp: uadd_def)
    have nl: "last_addr ys = NULL \<longleftrightarrow> ys = []" using last_addr_NULL [OF wf] .
    define x' where "x' = (if search_size 0 ys < ?n then last_addr ys else x)"
    have z: "uadd 0 ?n = ?n" "uadd 0 (Suc 0) = Suc 0" using m(7) by (simp_all add: uadd_def UMAX_def)
    let ?c = "chunk_with ys x c0"
    have tails: "freeListTail (if ys = [] then ?c \<lparr> freeListHead := h, freeListHeadSize := k \<rparr> else ?c) = last_addr ys"
      "freeListTail (ck_updateLargestFreeEntry n y c) = freeListTail c" for h k n y c
      by (simp_all add: ck_updateLargestFreeEntry_def)
    have "addInnerMemory ss (m + 8) ((m' - (m + 8)) div 8) (?c, p, es) =
        Some ((ck_updateLargestFreeEntry ?n (last_addr ys)
           ((if ys = [] then ?c \<lparr> freeListHead := m + ?sz, freeListHeadSize := ?n \<rparr> else ?c)
              \<lparr> freeBytes := entries_size ys + ?n, freeHoles := Suc (length ys) \<rparr>))
           \<lparr> previousFreeListTail := last_addr ys, freeListTail := m + ?sz, freeListTailSize := ?n \<rparr>,
           p \<lparr> mem := m1 \<rparr>, es')"
      using m n c(1) ce(1) ad z nl tails by (simp add: addInnerMemory_def Let_def b u)
    also have "(ck_updateLargestFreeEntry ?n (last_addr ys)
           ((if ys = [] then ?c \<lparr> freeListHead := m + ?sz, freeListHeadSize := ?n \<rparr> else ?c)
              \<lparr> freeBytes := entries_size ys + ?n, freeHoles := Suc (length ys) \<rparr>))
           \<lparr> previousFreeListTail := last_addr ys, freeListTail := m + ?sz, freeListTailSize := ?n \<rparr> =
         chunk_with (ys @ [(m + ?sz, ?n)]) x' c0"
      by (cases "ys = []") (simp_all add: chunk_with_def ck_updateLargestFreeEntry_def search_size_snoc x'_def
          head_addr_def max_def search_size_def)
    finally have "addInnerMemory ss (m + 8) ((m' - (m + 8)) div 8) (?c, p, es) =
        Some (chunk_with (ys @ [(m + ?sz, ?n)]) x' c0, p \<lparr> mem := m1 \<rparr>, es')" .
    moreover have "\<forall>w. (w < m \<or> m' \<le> w) \<and> (ys = [] \<or> w \<noteq> last_addr ys) \<longrightarrow> m1 w = mem p w" using c(3) m(4,5) by auto
    ultimately show ?thesis using True c(2) ce(2,3) by (auto simp: zs_def ex)
  qed
qed

end
