(* ===== verification/Sweep_Sample.thy ===== *)
theory Sweep_Sample
  imports Sweep_Chunk
begin

text \<open>
  The sampling of dark matter returns: the word iterator walks the marks of a word, every hole
  inside a word is smaller than the minimum entry size, and the search behind the last object
  ends at the top of the chunk.
\<close>

section \<open>The word iterator\<close>

definition wi_marks :: "HeapMapWordIterator \<Rightarrow> addr list" where
  "wi_marks it = map (\<lambda>k. wi_heapSlotCurrent it + 8 * k) (word_marks (wi_cache it))"

lemma word_marks_tl:
  assumes "w \<noteq> 0"
  defines "k \<equiv> unat (leadingZeroes w)"
  shows "word_marks w = k # map (\<lambda>j. j + Suc k) (word_marks (drop_bit 1 (drop_bit k w)))"
proof -
  obtain k' where k': "bit w k'" "\<And>i. i < k' \<Longrightarrow> \<not> bit w i" "unat (leadingZeroes w) = k'" "k' < 64"
    using lowest_bit [OF assms(1)] by blast
  then have k: "bit w k" "\<And>i. i < k \<Longrightarrow> \<not> bit w i" "k < 64" by (simp_all add: k_def)
  have s: "[0..<64] = [0..<k] @ k # [Suc k..<64]" using k(3) by (metis less_imp_le_nat upt_add_eq_append upt_conv_Cons zero_le le_add_diff_inverse)
  have "filter (bit w) [0..<k] = []" using k(2) by (auto simp: filter_empty_conv)
  then have "word_marks w = k # filter (bit w) [Suc k..<64]" using k(1) by (simp add: word_marks_def s)
  moreover have "filter (bit w) [Suc k..<64] = filter (bit w) [Suc k..<Suc k + 64]"
  proof -
    have "[Suc k..<Suc k + 64] = [Suc k..<64] @ [64..<Suc k + 64]" using k(3) upt_add_eq_append [of "Suc k" 64 "Suc k"] by (simp add: add.commute)
    moreover have "filter (bit w) [64..<Suc k + 64] = []" by (auto simp: filter_empty_conv dest: bit_imp_le_length)
    ultimately show ?thesis by simp
  qed
  moreover have "[Suc k..<Suc k + 64] = map (\<lambda>j. j + Suc k) [0..<64]" by (metis add.commute map_add_upt)
  moreover have "filter (bit w \<circ> (\<lambda>j. j + Suc k)) [0..<64] = word_marks (drop_bit 1 (drop_bit k w))"
    unfolding word_marks_def by (rule filter_cong) (simp_all add: bit_drop_bit_eq ac_simps)
  ultimately show ?thesis by (simp add: filter_map)
qed

lemma wi_next_none: "wi_marks it = [] \<Longrightarrow> wi_nextObject it = (NULL, it)"
  by (simp add: wi_marks_def word_marks_empty wi_nextObject_def)

lemma wi_next:
  assumes "wi_marks it = x # xs" "x + 8 < UMAX"
  shows "\<exists>it'. wi_nextObject it = (x, it') \<and> wi_marks it' = xs"
proof -
  let ?w = "wi_cache it" and ?c = "wi_heapSlotCurrent it"
  have ne: "?w \<noteq> 0" using assms(1) by (auto simp: wi_marks_def word_marks_empty word_marks_def)
  let ?k = "unat (leadingZeroes ?w)"
  note tl = word_marks_tl [OF ne]
  have x: "x = ?c + 8 * ?k" and xs: "xs = map (\<lambda>k. ?c + 8 * k) (map (\<lambda>j. j + Suc ?k) (word_marks (drop_bit 1 (drop_bit ?k ?w))))"
    using assms(1) unfolding wi_marks_def tl by auto
  have "uadd ?c (8 * ?k) = x" "uadd x 8 = x + 8" using assms(2) x by (simp_all add: uadd_exact)
  then have "wi_nextObject it = (x, \<lparr> wi_cache = drop_bit 1 (drop_bit ?k ?w), wi_heapSlotCurrent = x + 8 \<rparr>)"
    using ne by (simp add: wi_nextObject_def Let_def)
  moreover have "wi_marks \<lparr> wi_cache = drop_bit 1 (drop_bit ?k ?w), wi_heapSlotCurrent = x + 8 \<rparr> = xs"
    by (simp add: wi_marks_def xs x o_def algebra_simps)
  ultimately show ?thesis by blast
qed

section \<open>Holes\<close>

lemma sample_holes_defined:
  assumes "live_objects sz (prev # wi_marks it)" "\<forall>m \<in> set (wi_marks it). m + 8 < UMAX \<and> m < prev + mn"
  shows "\<exists>d'. sample_holes sz mn it prev d = Some (last (prev # wi_marks it), d')"
  using assms
proof (induction "wi_marks it" arbitrary: it prev d)
  case Nil
  then have "wi_nextObject it = (NULL, it)" by (simp add: wi_next_none)
  then show ?case using Nil(1) by (subst sample_holes.simps) simp
next
  case (Cons x xs)
  note e = Cons(2) [symmetric]
  from wi_next [OF e] Cons.prems(2) obtain it' where it': "wi_nextObject it = (x, it')" "wi_marks it' = xs"
    unfolding e by auto
  have l: "prev + sz prev \<le> x" "8 \<le> sz prev" "prev + sz prev < UMAX" "x \<noteq> 0" "x < UMAX" "live_objects sz (x # xs)"
    using Cons.prems(1) unfolding e by (auto simp: live_Cons)
  have h: "usub x (uadd prev (sz prev)) = x - (prev + sz prev)" using l by (simp add: usub_exact uadd_exact)
  have "x < prev + mn" using Cons.prems(2) unfolding e by simp
  then have "x - (prev + sz prev) < mn" using l(1,2) by simp
  then have s: "sample_holes sz mn it prev d = sample_holes sz mn it' x (uadd d (x - (prev + sz prev)))"
    using it'(1) l(4) h by (subst sample_holes.simps) simp
  have "prev \<le> x" using l(1) by simp
  have "\<forall>m \<in> set (wi_marks it'). m + 8 < UMAX \<and> m < x + mn"
  proof
    fix m
    assume "m \<in> set (wi_marks it')"
    then have "m + 8 < UMAX \<and> m < prev + mn" using Cons.prems(2) unfolding e it'(2) by simp
    then show "m + 8 < UMAX \<and> m < x + mn" using \<open>prev \<le> x\<close> by simp
  qed
  from Cons.hyps(1) [OF it'(2) [symmetric] _ this] l(6) it'(2)
  show ?case unfolding s e by auto
qed

lemma word_iterator_aligned:
  assumes "8 dvd heapMapBitsAddr hm" "512 dvd a" "512 dvd heapBase hm" "heapBase hm \<le> a" "a < UMAX"
  shows "\<exists>it. wordIterator_at hm a = Some it"
proof -
  have "512 dvd a - heapBase hm" using assms by simp
  then obtain k where "a - heapBase hm = 512 * k" by auto
  then have "usub a (heapBase hm) div 64 = 8 * k" using assms(4,5) by (simp add: usub_exact)
  then have "8 dvd heapMapBitsAddr hm + usub a (heapBase hm) div 64" using assms(1) by simp
  moreover have "8 dvd UMAX" by (simp add: UMAX_def)
  ultimately have d: "8 dvd uadd (heapMapBitsAddr hm) (usub a (heapBase hm) div 64)" unfolding uadd_def by (simp add: dvd_mod)
  have "x AND (8 - 1) = x mod 8" for x :: nat
    using take_bit_eq_mask [of 3 x] by (simp add: take_bit_eq_mod mask_eq_exp_minus_1)
  then have "uadd (heapMapBitsAddr hm) (usub a (heapBase hm) div 64) AND (8 - 1) = 0" using d by presburger
  then show ?thesis by (simp add: wordIterator_at_def SLOTS_PER_HEAPMAP_SLOT_def)
qed

lemma sample_trailing_defined:
  assumes "8 dvd heapMapBitsAddr hm" "512 dvd heapBase hm" "512 dvd a" "heapBase hm \<le> a" "top1 + 512 \<le> UMAX"
  shows "\<exists>d'. sample_trailing hm mn e a (min x top1) d = Some d'"
  using assms
proof (induction "top1 - a" arbitrary: a rule: less_induct)
  case less
  show ?case
  proof (cases "a < min x top1")
    case False
    then show ?thesis by (subst sample_trailing.simps) (simp only: if_False option.inject simp_thms)
  next
    case True
    then have a: "a < UMAX" "a < top1" using less.prems(5) by auto
    from word_iterator_aligned [OF less.prems(1,3,2,4) a(1)] obtain it where it: "wordIterator_at hm a = Some it" by auto
    show ?thesis
    proof (cases "fst (wi_nextObject it) = NULL")
      case False
      then show ?thesis using True it by (subst sample_trailing.simps) (simp add: Let_def)
    next
      case N: True
      have u: "uadd a 512 = a + 512" using a less.prems(5) by (intro uadd_exact) linarith
      have "\<exists>d'. sample_trailing hm mn e (a + 512) (min x top1) d = Some d'"
        by (rule less.hyps) (use a less.prems in auto)
      then show ?thesis using True it N u by (subst sample_trailing.simps) (simp add: Let_def)
    qed
  qed
qed

definition map_ok :: "SweepScheme \<Rightarrow> bool" where
  "map_ok ss \<longleftrightarrow> sw_heapBase ss = heapMapBaseDelta (sw_markMap ss) \<and>
     heapBase (sw_markMap ss) = heapMapBaseDelta (sw_markMap ss) \<and> 0 < heapMapBaseDelta (sw_markMap ss) \<and>
     512 dvd heapMapBaseDelta (sw_markMap ss) \<and> 8 dvd heapMapBitsAddr (sw_markMap ss)"

lemma marked_word_bounds:
  assumes "m \<in> set (marked_slots hm (word_addr hm i) (word_addr hm (Suc i)))" "word_addr hm (Suc i) < UMAX"
  shows "word_addr hm i \<le> m \<and> m + 8 \<le> word_addr hm (Suc i)"
proof -
  from assms(1) obtain k where "m = word_addr hm i + 8 * k" "k < 64"
    unfolding marked_word [OF assms(2)] word_marks_def by auto
  then show ?thesis by simp
qed

lemma performSamplingCalculations_defined:
  assumes ok: "map_ok ss" and w: "heapMapBits (sw_markMap ss) i \<noteq> 0"
    and l: "live_objects (sw_sizeOf ss) (marked_slots (sw_markMap ss) (word_addr (sw_markMap ss) i) (word_addr (sw_markMap ss) (Suc i)))"
    and mn: "512 \<le> mn" and b: "word_addr (sw_markMap ss) (Suc i) + 512 \<le> UMAX" "top1 + 512 \<le> UMAX"
  shows "\<exists>n. performSamplingCalculations ss mn top1 i (word_addr (sw_markMap ss) i) = Some n"
proof -
  let ?hm = "sw_markMap ss"
  let ?a = "word_addr ?hm i"
  let ?it = "wordIterator (heapMapBits ?hm i) ?a"
  have sb: "word_addr ?hm (Suc i) < UMAX" using b(1) by simp
  have ms: "wi_marks ?it = marked_slots ?hm ?a (word_addr ?hm (Suc i))"
    unfolding marked_word [OF sb] by (simp add: wi_marks_def wordIterator_def)
  have "wi_marks ?it \<noteq> []" using w unfolding ms marked_word [OF sb] by (simp add: word_marks_empty)
  then obtain x xs where x: "wi_marks ?it = x # xs" by (cases "wi_marks ?it") auto
  have bd: "?a \<le> m \<and> m + 8 \<le> ?a + 512" if "m \<in> set (x # xs)" for m
    using marked_word_bounds [of m ?hm i] that sb x ms by simp
  have x8: "x + 8 < UMAX" using bd [of x] sb by simp
  from wi_next [OF x x8] obtain it' where it': "wi_nextObject ?it = (x, it')" "wi_marks it' = xs" by auto
  have lx: "live_objects (sw_sizeOf ss) (x # wi_marks it')" using l x ms it'(2) by simp
  have "\<forall>m \<in> set (wi_marks it'). m + 8 < UMAX \<and> m < x + mn"
  proof
    fix m
    assume "m \<in> set (wi_marks it')"
    then have "m \<in> set (x # xs)" using it'(2) by simp
    from bd [OF this] bd [of x] show "m + 8 < UMAX \<and> m < x + mn" using mn sb by simp
  qed
  from sample_holes_defined [OF lx this, of 0] obtain d where
    h: "sample_holes (sw_sizeOf ss) mn it' x 0 = Some (last (x # wi_marks it'), d)" by auto
  let ?e = "uadd (last (x # wi_marks it')) (sw_sizeOf ss (last (x # wi_marks it')))"
  let ?s = "max (roundToFloor 512 ?e) (uadd ?a 512)"
  have "uadd ?a 512 = word_addr ?hm (Suc i)" using sb by (simp add: uadd_exact)
  moreover have "512 dvd word_addr ?hm (Suc i)" using ok by (simp add: map_ok_def)
  moreover have "512 dvd roundToFloor 512 ?e" by (rule roundToFloor_dvd) simp
  ultimately have s: "512 dvd ?s" "heapBase ?hm \<le> ?s" using ok by (auto simp: max_def map_ok_def)
  have al: "8 dvd heapMapBitsAddr ?hm" "512 dvd heapBase ?hm" using ok by (auto simp: map_ok_def)
  from sample_trailing_defined [OF al s b(2)] obtain d' where
    "sample_trailing ?hm mn ?e ?s (min (roundToCeiling 512 (uadd ?e mn)) top1) d = Some d'" by blast
  moreover have "x \<noteq> 0" using lx by (simp add: live_Cons)
  ultimately show ?thesis using it'(1) h by (simp add: performSamplingCalculations_def Let_def)
qed

end
