(* ===== verification/Sweep_Scan.thy ===== *)
theory Sweep_Scan
  imports Sweep_Sample
begin

text \<open>
  The scan of a chunk: the loop of \<open>sweepChunk\<close> visits the words of the chunk and builds the
  list of inner entries; the whole function returns the chunk with that list, the leading free
  range up to the first object and the trailing details of the last one.
\<close>

section \<open>Bounds\<close>

lemma entries_size_range:
  assumes "entries_wf mn ys" "\<forall>e \<in> set ys. lo \<le> fst e \<and> fst e + snd e \<le> hi" "lo \<le> hi"
  shows "entries_size ys \<le> hi - lo"
  using assms
proof (induction ys arbitrary: lo)
  case (Cons e ys)
  have "entries_size ys \<le> hi - (fst e + snd e)"
    using Cons.prems by (intro Cons.IH) (auto simp: entries_wf_Cons before_def)
  moreover have "lo \<le> fst e" "fst e + snd e \<le> hi" using Cons.prems(2) by auto
  ultimately show ?case by simp
qed simp

lemma length_le_size: "entries_wf mn ys \<Longrightarrow> length ys \<le> entries_size ys"
proof (induction ys)
  case (Cons e ys)
  then show ?case by (auto simp: entries_wf_Cons dest: entry_okD)
qed simp

section \<open>The cursor\<close>

text \<open>The first and the last mark of a word that has one.\<close>

definition first_mark :: "HeapMap \<Rightarrow> nat \<Rightarrow> addr" where
  "first_mark hm i = word_addr hm i + 8 * unat (leadingZeroes (heapMapBits hm i))"

definition last_mark :: "HeapMap \<Rightarrow> nat \<Rightarrow> addr" where
  "last_mark hm i = word_addr hm i + 8 * (63 - trailingZeroes (heapMapBits hm i))"

abbreviation marks :: "HeapMap \<Rightarrow> nat \<Rightarrow> nat \<Rightarrow> addr list" where
  "marks hm i j \<equiv> marked_slots hm (word_addr hm i) (word_addr hm j)"

lemma word_ends:
  assumes "heapMapBits hm i \<noteq> 0" "word_addr hm (Suc i) < UMAX"
  shows "marks hm i (Suc i) \<noteq> []" "hd (marks hm i (Suc i)) = first_mark hm i" "last (marks hm i (Suc i)) = last_mark hm i"
    "word_addr hm i \<le> last_mark hm i" "last_mark hm i + 8 * Suc (trailingZeroes (heapMapBits hm i)) = word_addr hm (Suc i)"
    "word_addr hm i \<le> first_mark hm i" "first_mark hm i < word_addr hm (Suc i)"
proof -
  have ne: "word_marks (heapMapBits hm i) \<noteq> []" using assms(1) by (simp add: word_marks_empty)
  note h = word_marks_hd [OF assms(1)] and l = word_marks_last [OF assms(1)]
  show "marks hm i (Suc i) \<noteq> []" "hd (marks hm i (Suc i)) = first_mark hm i" "last (marks hm i (Suc i)) = last_mark hm i"
    using ne h l unfolding marked_word [OF assms(2)] by (simp_all add: hd_map last_map first_mark_def last_mark_def)
  show "word_addr hm i \<le> last_mark hm i" "last_mark hm i + 8 * Suc (trailingZeroes (heapMapBits hm i)) = word_addr hm (Suc i)"
    "word_addr hm i \<le> first_mark hm i" "first_mark hm i < word_addr hm (Suc i)"
    using h l by (simp_all add: first_mark_def last_mark_def)
qed

lemma head_spec:
  assumes "heapMapBits hm i \<noteq> 0" "word_addr hm (Suc i) < UMAX" "b \<le> i"
    "heapSlotFreeHead s = word_addr hm (Suc i)" "heapSlotFreeCount s + 64 < UMAX"
  shows "sweepMarkMapHead hm (Suc i) b s =
    s \<lparr> heapSlotFreeHead := last_mark hm i + 8,
        heapSlotFreeCount := heapSlotFreeCount s + (word_addr hm (Suc i) - (last_mark hm i + 8)) div 8 \<rparr>"
proof -
  let ?z = "trailingZeroes (heapMapBits hm i)"
  have e: "word_addr hm (Suc i) = last_mark hm i + 8 + 8 * ?z" using word_ends(5) [OF assms(1,2)] by simp
  have z: "?z < 64" by (rule word_marks_last(2) [OF assms(1)])
  have "usub (heapSlotFreeHead s) (8 * ?z) = last_mark hm i + 8"
    unfolding assms(4) e using assms(2) e by (subst usub_exact) simp_all
  moreover have "uadd (heapSlotFreeCount s) ?z = heapSlotFreeCount s + ?z" using assms(5) z by (simp add: uadd_exact)
  moreover have "(word_addr hm (Suc i) - (last_mark hm i + 8)) div 8 = ?z" unfolding e by simp
  moreover have "?z = 0 \<Longrightarrow> s \<lparr> heapSlotFreeHead := last_mark hm i + 8, heapSlotFreeCount := heapSlotFreeCount s \<rparr> = s"
    using assms(4) e by simp
  ultimately show ?thesis using assms(3) by (cases "?z = 0") (simp_all add: sweepMarkMapHead_def Let_def)
qed

lemma tail_spec:
  assumes "heapMapBits hm j \<noteq> 0" "markMapCurrent s = j" "j < t" "heapSlotFreeCount s + 64 < UMAX"
  shows "sweepMarkMapTail hm t s =
    s \<lparr> heapSlotFreeCount := heapSlotFreeCount s + (first_mark hm j - word_addr hm j) div 8 \<rparr>"
proof -
  let ?z = "unat (leadingZeroes (heapMapBits hm j))"
  have "?z < 64" by (rule word_marks_hd(2) [OF assms(1)])
  then have "uadd (heapSlotFreeCount s) ?z = heapSlotFreeCount s + ?z" using assms(4) by (simp add: uadd_exact)
  moreover have "(first_mark hm j - word_addr hm j) div 8 = ?z" by (simp add: first_mark_def)
  ultimately show ?thesis using assms(2,3) by (simp add: sweepMarkMapTail_def Let_def)
qed

lemma body_empty:
  assumes "heapMapBits hm i = 0" "markMapCurrent s = i" "i < t" "heapSlotFreeCurrent s = word_addr hm i" "word_addr hm t < UMAX"
  defines "j \<equiv> skip_empty hm (i + 1) t"
  shows "sweepMarkMapBody hm t s = s \<lparr> markMapFreeHead := i, heapSlotFreeHead := word_addr hm i, markMapCurrent := j,
      heapSlotFreeCount := 64 * (j - i), heapSlotFreeCurrent := word_addr hm j \<rparr>"
    and "i < j" "j \<le> t" "j < t \<Longrightarrow> heapMapBits hm j \<noteq> 0" "marks hm i j = []" "heapMapBits hm (j - 1) = 0"
proof -
  have b: "i + 1 \<le> j \<and> j \<le> t" unfolding j_def using assms(3) by (intro skip_empty_bounds) simp
  then show "i < j" "j \<le> t" by auto
  show "j < t \<Longrightarrow> heapMapBits hm j \<noteq> 0" unfolding j_def by (rule skip_empty_stops)
  have z: "heapMapBits hm k = 0" if "i \<le> k" "k < j" for k
    using that assms(1) skip_empty_zero [of "i + 1" k hm t] by (cases "k = i") (auto simp: j_def)
  have wj: "word_addr hm j \<le> word_addr hm t" using b by simp
  then show "marks hm i j = []" using b assms(5) by (intro empty_words) (auto simp: z)
  show "heapMapBits hm (j - 1) = 0" using b by (intro z) auto
  have w: "word_addr hm j = word_addr hm i + 512 * (j - i)" using b by (simp add: diff_mult_distrib2)
  have "umul 64 (j - i) = 64 * (j - i)" using w wj assms(5) by (intro umul_exact) linarith
  moreover have "uadd (word_addr hm i) (512 * (j - i)) = word_addr hm j" using w wj assms(5) by (simp add: uadd_exact)
  ultimately show "sweepMarkMapBody hm t s = s \<lparr> markMapFreeHead := i, heapSlotFreeHead := word_addr hm i, markMapCurrent := j,
      heapSlotFreeCount := 64 * (j - i), heapSlotFreeCurrent := word_addr hm j \<rparr>"
    using assms(1,2,4) by (simp add: sweepMarkMapBody_def Let_def j_def)
qed

lemma body_marked: "heapMapBits hm (markMapCurrent s) \<noteq> 0 \<Longrightarrow> sweepMarkMapBody hm t s = s"
  by (simp add: sweepMarkMapBody_def)

section \<open>Wide gaps\<close>

lemma word_of:
  assumes "word_addr hm i \<le> m" "m < word_addr hm (Suc i)"
  shows "off hm m div 512 = i"
proof -
  have "512 * i \<le> off hm m" "off hm m < 512 * Suc i" using assms by auto
  then show ?thesis by (simp add: div_nat_eqI mult.commute)
qed

lemma marks_bounds: "m \<in> set (marks hm i j) \<Longrightarrow> word_addr hm i \<le> m \<and> m < word_addr hm j"
proof -
  have "set (slots lo hi) \<subseteq> {lo..<hi}" for lo hi
    by (induction lo hi rule: slots.induct) (subst slots.simps, force)
  moreover assume "m \<in> set (marks hm i j)"
  then have "m \<in> set (slots (word_addr hm i) (word_addr hm j))" by (simp add: marked_slots_def)
  ultimately show ?thesis using atLeastLessThan_iff by blast
qed

lemma not_wide_neighbours:
  assumes "word_addr hm i \<le> m" "m' < word_addr hm (i + 2)"
  shows "\<not> wide hm m m'"
proof -
  have "i \<le> off hm m div 512" using assms(1) by (simp add: div_le_mono [of "512 * i" "off hm m" 512, simplified])
  moreover have "off hm m' < 512 * (i + 2)" using assms(2) by auto
  then have "off hm m' div 512 < i + 2" by (simp add: less_mult_imp_div_less mult.commute)
  ultimately show ?thesis by (simp add: wide_def)
qed

section \<open>The loop\<close>

definition trailing_at :: "SweepScheme \<Rightarrow> addr \<Rightarrow> ParallelSweepChunk \<Rightarrow> ParallelSweepChunk" where
  "trailing_at ss m c = calculateTrailingDetails ss (m + 8) ((chunkTop c - (m + 8)) div 8) c"

definition dark_ok :: "nat \<Rightarrow> dark \<Rightarrow> bool" where
  "dark_ok i d \<longleftrightarrow> snd (snd d) \<le> fst (snd d) \<and> fst (snd d) \<le> i"

lemma sample_word_defined:
  assumes ok: "map_ok ss" and w: "heapMapBits (sw_markMap ss) i \<noteq> 0" and s: "markMapCurrent s = i"
      "heapSlotFreeCurrent s = word_addr (sw_markMap ss) i"
    and l: "live_objects (sw_sizeOf ss) (marks (sw_markMap ss) i (Suc i))"
    and mn: "min_ok p" and b: "word_addr (sw_markMap ss) (Suc i) + 512 \<le> UMAX" "chunkTop c + 512 \<le> UMAX" and d: "dark_ok i d"
  shows "\<exists>d'. sample_word ss s d (c, p, es) = Some d' \<and> dark_ok (Suc i) d'"
proof -
  obtain d1 d2 d3 where dd: "d = (d1, d2, d3)" by (cases d)
  have i: "Suc i < UMAX" using b(1) by simp
  have u: "uadd d2 (Suc 0) = Suc d2" "uadd d3 (Suc 0) = Suc d3" using d dd i by (auto simp: dark_ok_def intro!: uadd_exact simp: uadd_def)
  from performSamplingCalculations_defined [OF ok w l _ b, of "minimumFreeEntrySize p"] mn obtain n where
    "performSamplingCalculations ss (minimumFreeEntrySize p) (chunkTop c) i (word_addr (sw_markMap ss) i) = Some n"
    by (auto simp: min_ok_def)
  then show ?thesis using d by (auto simp: sample_word_def dd s u dark_ok_def Let_def)
qed

text \<open>One round of the loop on a word with marks, and one on a run of empty words.\<close>

lemma inner_step_marked:
  assumes "heapMapBits (sw_markMap ss) (markMapCurrent s) \<noteq> 0" "markMapCurrent s < t" "heapSlotFreeCount s = 0"
    "sample_word ss s d st = Some d'"
  shows "sweep_inner ss b t s d st = sweep_inner ss b t
    (s \<lparr> heapSlotFreeCurrent := uadd (heapSlotFreeCurrent s) 512, markMapCurrent := markMapCurrent s + 1 \<rparr>) d' st"
  using assms by (subst sweep_inner.simps) (simp add: body_marked Let_def)

lemma inner_step_empty:
  fixes ss :: SweepScheme
  defines "hm \<equiv> sw_markMap ss"
  assumes z: "heapMapBits hm (Suc k) = 0" and s: "markMapCurrent s = Suc k" "heapSlotFreeCurrent s = word_addr hm (Suc k)"
    and k: "heapMapBits hm k \<noteq> 0" "b \<le> k" "Suc k < t" and bt: "word_addr hm t + 512 \<le> UMAX"
  defines "j \<equiv> skip_empty hm (Suc k + 1) t"
  defines "top1 \<equiv> (if j < t then first_mark hm j else word_addr hm t)"
  shows "\<exists>s'. markMapCurrent s' = j \<and> heapSlotFreeCurrent s' = word_addr hm j \<and>
    sweep_inner ss b t s d st =
      do { (more, st) \<leftarrow> addFreeMemory ss (last_mark hm k + 8) ((top1 - (last_mark hm k + 8)) div 8) st;
           (if more then
              sweep_inner ss b t
                (s' \<lparr> heapSlotFreeHead := NULL, heapSlotFreeCount := 0,
                      heapSlotFreeCurrent := uadd (word_addr hm j) 512, markMapCurrent := j + 1 \<rparr>) d st
            else Some (s', d, st)) }"
proof -
  have lt: "word_addr hm t < UMAX" using bt by simp
  note b = body_empty [OF z s(1) k(3) s(2) lt, folded j_def]
  let ?s1 = "sweepMarkMapBody hm t s"
  have j: "Suc k < j" "j \<le> t" using b by auto
  have wj: "word_addr hm j \<le> word_addr hm t" using j by simp
  have s1f: "markMapCurrent ?s1 = j" "heapSlotFreeCurrent ?s1 = word_addr hm j" "heapSlotFreeHead ?s1 = word_addr hm (Suc k)"
    "markMapFreeHead ?s1 = Suc k" unfolding b(1) by simp_all
  have c1: "heapSlotFreeCount ?s1 = 64 * (j - Suc k)" unfolding b(1) by simp
  have bnd: "64 * (j - Suc k) + 64 + 64 < UMAX" using j bt by simp
  have wk: "word_addr hm (Suc k) < UMAX" using j wj lt by simp
  have h: "sweepMarkMapHead hm (Suc k) b ?s1 = ?s1 \<lparr> heapSlotFreeHead := last_mark hm k + 8,
        heapSlotFreeCount := 64 * (j - Suc k) + (word_addr hm (Suc k) - (last_mark hm k + 8)) div 8 \<rparr>"
    using head_spec [OF k(1) wk k(2) s1f(3)] bnd c1 by simp
  let ?s2 = "sweepMarkMapHead hm (Suc k) b ?s1"
  note e = word_ends [OF k(1) wk]
  have cnt: "(word_addr hm (Suc k) - (last_mark hm k + 8)) div 8 < 64" using e(5) word_marks_last(2) [OF k(1)] by simp
  define n where "n = 64 * (j - Suc k) + (word_addr hm (Suc k) - (last_mark hm k + 8)) div 8 +
    (top1 - word_addr hm j) div 8"
  have tp: "word_addr hm j \<le> top1" using wj by (simp add: top1_def first_mark_def)
  have d8: "8 dvd word_addr hm (Suc k) - (last_mark hm k + 8)" "8 dvd top1 - word_addr hm j"
  proof -
    have "word_addr hm (Suc k) - (last_mark hm k + 8) = 8 * trailingZeroes (heapMapBits hm k)"
      unfolding e(5) [symmetric] by simp
    then show "8 dvd word_addr hm (Suc k) - (last_mark hm k + 8)" by (metis dvd_triv_left)
    show "8 dvd top1 - word_addr hm j"
    proof (cases "j < t")
      case False
      then have "j = t" using j by simp
      then show ?thesis by (simp add: top1_def)
    qed (simp add: top1_def first_mark_def)
  qed
  have n: "n = (top1 - (last_mark hm k + 8)) div 8"
  proof -
    have le: "last_mark hm k + 8 \<le> word_addr hm (Suc k)" unfolding e(5) [symmetric] by simp
    have split: "u - l = (w - l) + r + (u - v)" if "l \<le> w" "v = w + r" "v \<le> u" for u l w r v :: nat
      using that by simp
    have ja: "word_addr hm j = word_addr hm (Suc k) + 8 * (64 * (j - Suc k))" using j by (simp add: diff_mult_distrib2)
    have "top1 - (last_mark hm k + 8) = (word_addr hm (Suc k) - (last_mark hm k + 8)) + 8 * (64 * (j - Suc k)) + (top1 - word_addr hm j)"
      using split [OF le ja tp] .
    then show ?thesis using d8 unfolding n_def by simp
  qed
  have t2: "sweepMarkMapTail hm t ?s2 = ?s2 \<lparr> heapSlotFreeCount := n \<rparr>"
  proof (cases "j < t")
    case True
    have "markMapCurrent ?s2 = j" by (simp add: h s1f)
    moreover have "heapSlotFreeCount ?s2 + 64 < UMAX" using cnt bnd by (simp add: h)
    ultimately show ?thesis using tail_spec [OF b(4) [OF True], of ?s2 t] True by (simp add: h n_def top1_def)
  next
    case False
    then have "j = t" using j by simp
    moreover have "markMapCurrent ?s2 = j" by (simp add: h s1f)
    ultimately show ?thesis by (simp add: h sweepMarkMapTail_def n_def top1_def)
  qed
  define s' where "s' = sweepMarkMapTail hm t (sweepMarkMapHead hm (markMapFreeHead ?s1) b ?s1)"
  have s': "markMapCurrent s' = j" "heapSlotFreeCurrent s' = word_addr hm j" "heapSlotFreeHead s' = last_mark hm k + 8"
    "heapSlotFreeCount s' = n" unfolding s'_def s1f(4) t2 by (simp_all add: h s1f)
  have "heapSlotFreeCount ?s1 \<noteq> 0" using c1 j by simp
  then have "sweep_inner ss b t s d st =
      do { (more, st) \<leftarrow> addFreeMemory ss (heapSlotFreeHead s') (heapSlotFreeCount s') st;
           (if more then
              sweep_inner ss b t
                (s' \<lparr> heapSlotFreeHead := NULL, heapSlotFreeCount := 0,
                      heapSlotFreeCurrent := uadd (heapSlotFreeCurrent s') 512, markMapCurrent := markMapCurrent s' + 1 \<rparr>) d st
            else Some (s', d, st)) }"
    using s(1) k(3) by (subst sweep_inner.simps) (simp add: Let_def s'_def hm_def cong del: if_weak_cong)
  then show ?thesis using s' n by (intro exI [of _ s']) (simp cong del: if_weak_cong)
qed

text \<open>The state of the loop after the last mark of word \<open>k\<close>: the list \<open>ys\<close> has been built below it.\<close>

definition scanned :: "SweepScheme \<Rightarrow> pool \<Rightarrow> nat \<Rightarrow> nat \<Rightarrow> entry list \<Rightarrow> mem \<Rightarrow> FreeEntrySizeClassStats \<Rightarrow> bool" where
  "scanned ss p b k ys m es \<longleftrightarrow> heapMapBits (sw_markMap ss) k \<noteq> 0 \<and> b \<le> k \<and> chain m (head_addr ys) ys \<and>
     entries_wf (minimumFreeEntrySize p) ys \<and>
     (\<forall>e \<in> set ys. word_addr (sw_markMap ss) b \<le> fst e \<and> fst e + snd e \<le> last_mark (sw_markMap ss) k) \<and>
     local_stats (largeObjectAllocateStats p) es"

lemma addFreeMemory_inner:
  assumes "last_addr ys \<le> a" "a \<noteq> chunkBase c0" "uadd a (8 * n) \<noteq> chunkTop c0"
  shows "addFreeMemory ss a n (chunk_with ys x c0, p, es) =
    do { st \<leftarrow> addInnerMemory ss a n (chunk_with ys x c0, p, es); Some (True, st) }"
  using assms by (simp add: addFreeMemory_def)

lemma addFreeMemory_trailing:
  assumes "last_addr ys \<le> a" "a \<noteq> chunkBase c0" "uadd a (8 * n) = chunkTop c0"
  shows "addFreeMemory ss a n (chunk_with ys x c0, p, es) = Some (False, calculateTrailingDetails ss a n (chunk_with ys x c0), p, es)"
  using assms by (simp add: addFreeMemory_def)

lemma scanned_bounds:
  assumes "scanned ss p b k ys m es" "8 \<le> last_mark (sw_markMap ss) k"
  shows "last_addr ys \<le> last_mark (sw_markMap ss) k" "entries_size ys \<le> last_mark (sw_markMap ss) k"
    "length ys \<le> last_mark (sw_markMap ss) k"
proof -
  let ?m = "last_mark (sw_markMap ss) k"
  have wf: "entries_wf (minimumFreeEntrySize p) ys" and b: "\<forall>e \<in> set ys. 0 \<le> fst e \<and> fst e + snd e \<le> ?m"
    using assms(1) by (auto simp: scanned_def)
  show "last_addr ys \<le> ?m" using b by (cases "ys = []") (auto simp: last_addr_def dest!: last_in_set bspec)
  show e: "entries_size ys \<le> ?m" using entries_size_range [OF wf b] by simp
  show "length ys \<le> ?m" using length_le_size [OF wf] e by linarith
qed

lemma agree_trans: "agree_outside lo hi m m' \<Longrightarrow> agree_outside lo hi m' m'' \<Longrightarrow> agree_outside lo hi m m''"
  by (simp add: agree_outside_def)

text \<open>Marks that share a word, or lie in neighbouring words, have no empty word between them.\<close>

lemma entries_after_word:
  assumes "W \<noteq> []" "\<forall>a \<in> set W. word_addr hm i \<le> a \<and> a < word_addr hm (i + 2)" "word_addr hm i \<le> m"
  shows "inner_entries hm sz mn (m # W @ R) = inner_entries hm sz mn (last W # R)"
proof (rule inner_entries_skip)
  have "\<not> wide hm a a'" if "word_addr hm i \<le> a" "a' \<in> set W" for a a'
    using not_wide_neighbours [OF that(1)] assms(2) that(2) by blast
  then show "\<forall>a \<in> set (m # W). \<forall>a' \<in> set W. \<not> wide hm a a'" using assms(2,3) by auto
qed (rule assms(1))

lemma entries_within_word:
  assumes "W \<noteq> []" "\<forall>a \<in> set W. word_addr hm i \<le> a \<and> a < word_addr hm (i + 2)"
  shows "inner_entries hm sz mn (W @ R) = inner_entries hm sz mn (last W # R)"
proof (cases W)
  case (Cons a V)
  then show ?thesis using entries_after_word [of V hm i a sz mn R] assms by (cases "V = []") auto
qed (use assms in simp)

lemma live_after: "live_objects sz (xs @ W @ R) \<Longrightarrow> W \<noteq> [] \<Longrightarrow> live_objects sz (last W # R)"
proof -
  assume l: "live_objects sz (xs @ W @ R)" and ne: "W \<noteq> []"
  have "xs @ W @ R = (xs @ butlast W) @ last W # R" using ne by (simp add: append_butlast_last_id [symmetric])
  then show ?thesis using l by (metis live_append)
qed

text \<open>The gap from a marked word to the next one that is not its neighbour.\<close>

lemma inner_gap:
  assumes k: "heapMapBits hm k \<noteq> 0" "word_addr hm (Suc k) < UMAX" and j: "heapMapBits hm j \<noteq> 0" "word_addr hm (Suc j) < UMAX"
    and kj: "Suc k < j"
  shows "inner_entries hm sz mn (last_mark hm k # marks hm j (Suc j) @ R) =
    (if mn \<le> snd (gap sz (last_mark hm k) (first_mark hm j)) then [gap sz (last_mark hm k) (first_mark hm j)] else []) @
    inner_entries hm sz mn (last_mark hm j # R)"
proof -
  note ek = word_ends [OF k] and ej = word_ends [OF j]
  have "last_mark hm k < word_addr hm (Suc k)" unfolding ek(5) [symmetric] by simp
  then have wk: "off hm (last_mark hm k) div 512 = k" by (rule word_of [OF ek(4)])
  have wj: "off hm (first_mark hm j) div 512 = j" by (rule word_of [OF ej(6,7)])
  have wd: "wide hm (last_mark hm k) (first_mark hm j)" using wk wj kj by (simp add: wide_def)
  have "\<forall>a \<in> set (marks hm j (Suc j)). word_addr hm j \<le> a \<and> a < word_addr hm (j + 2)"
  proof
    fix a assume "a \<in> set (marks hm j (Suc j))"
    then show "word_addr hm j \<le> a \<and> a < word_addr hm (j + 2)" using marks_bounds [of a hm j "Suc j"] by auto
  qed
  then have r: "inner_entries hm sz mn (marks hm j (Suc j) @ R) = inner_entries hm sz mn (last_mark hm j # R)"
    using entries_within_word [OF ej(1), of hm j sz mn R] unfolding ej(3) by blast
  obtain W where W: "marks hm j (Suc j) = first_mark hm j # W" using ej(1,2) by (cases "marks hm j (Suc j)") auto
  show ?thesis using r wd unfolding W by simp
qed

text \<open>A wide gap becomes an entry when it is large enough, and the next word is the one scanned last.\<close>

lemma scan_gap:
  fixes ss :: SweepScheme and p :: pool
  defines "hm \<equiv> sw_markMap ss" and "sz \<equiv> sw_sizeOf ss" and "mn \<equiv> minimumFreeEntrySize p"
  assumes sc: "scanned ss p b k ys m0 es" and mn: "min_ok p" and pl: "plain_sizes (largeObjectAllocateStats p)"
    and k: "b \<le> k" "k < j" "word_addr hm k \<le> last_mark hm k" and j: "heapMapBits hm j \<noteq> 0" "word_addr hm (Suc j) < UMAX"
    and l: "live_objects sz [last_mark hm k, first_mark hm j]"
  defines "e \<equiv> gap sz (last_mark hm k) (first_mark hm j)"
  defines "zs \<equiv> (if mn \<le> snd e then [e] else [])"
  shows "\<exists>m1 x1 es1. addInnerMemory ss (last_mark hm k + 8) ((first_mark hm j - (last_mark hm k + 8)) div 8)
        (chunk_with ys x c0, p \<lparr> mem := m0 \<rparr>, es) = Some (chunk_with (ys @ zs) x1 c0, p \<lparr> mem := m1 \<rparr>, es1) \<and>
      scanned ss p b j (ys @ zs) m1 es1 \<and> agree_outside (word_addr hm b) (word_addr hm (Suc j)) m0 m1 \<and>
      total_count es1 = total_count es + of_nat (length zs)"
proof -
  let ?m = "last_mark hm k" and ?m' = "first_mark hm j"
  have m: "8 \<le> ?m" "?m + sz ?m \<le> ?m'" "8 \<le> sz ?m" using l by (auto simp: live_Cons dest: dvd_imp_le)
  note bd = scanned_bounds [OF sc m(1) [unfolded hm_def], folded hm_def]
  have c: "chain m0 (head_addr ys) ys" "entries_wf mn ys" "local_stats (largeObjectAllocateStats p) es"
    "\<forall>e \<in> set ys. word_addr hm b \<le> fst e \<and> fst e + snd e \<le> ?m" using sc by (auto simp: scanned_def hm_def mn_def)
  from addInnerMemory_spec [of "p \<lparr> mem := m0 \<rparr>" ys ss ?m ?m' es x c0, simplified, folded sz_def mn_def, folded e_def, folded zs_def]
    c mn l pl bd obtain m1 x1 es1 where
    r: "addInnerMemory ss (?m + 8) ((?m' - (?m + 8)) div 8) (chunk_with ys x c0, p \<lparr> mem := m0 \<rparr>, es) =
        Some (chunk_with (ys @ zs) x1 c0, p \<lparr> mem := m1 \<rparr>, es1)"
      "chain m1 (head_addr (ys @ zs)) (ys @ zs)"
      "\<forall>w. (w < ?m \<or> ?m' \<le> w) \<and> (ys = [] \<or> w \<noteq> last_addr ys) \<longrightarrow> m1 w = m0 w"
      "local_stats (largeObjectAllocateStats p) es1" "total_count es1 = total_count es + of_nat (length zs)"
    by (auto simp: min_ok_def)
  note ew = word_ends [OF j]
  have m'l: "?m' \<le> last_mark hm j"
  proof -
    have "sorted (word_marks (heapMapBits hm j))" by (simp add: word_marks_def sorted_wrt_filter)
    moreover have "word_marks (heapMapBits hm j) \<noteq> []" using j by (simp add: word_marks_empty)
    ultimately have "hd (word_marks (heapMapBits hm j)) \<le> last (word_marks (heapMapBits hm j))"
      by (cases "word_marks (heapMapBits hm j)") auto
    then show ?thesis using word_marks_hd [OF j(1)] word_marks_last [OF j(1)] by (simp add: first_mark_def last_mark_def)
  qed
  have ge: "word_addr hm b \<le> ?m" using k by (meson add_le_cancel_left le_trans mult_le_mono2)
  have wf: "entries_wf mn (ys @ zs)"
    using c(2,4) gap_ok [OF l, of mn] mn m by (auto simp: zs_def e_def entries_wf_simps before_def gap_def min_ok_def mn_def)
  have "scanned ss p b j (ys @ zs) m1 es1"
    unfolding scanned_def using j k r(2,4) wf c(4) m m'l ge
    by (auto simp: hm_def [symmetric] mn_def [symmetric] zs_def e_def gap_def)
  moreover have "agree_outside (word_addr hm b) (word_addr hm (Suc j)) m0 m1"
    unfolding agree_outside_def
  proof (intro allI impI)
    fix w assume w: "w < word_addr hm b \<or> word_addr hm (Suc j) \<le> w"
    have "ys = [] \<or> w \<noteq> last_addr ys"
    proof (cases "ys = []")
      case False
      then have "word_addr hm b \<le> last_addr ys \<and> last_addr ys \<le> ?m" using c(4) bd(1) by (auto simp: last_addr_def)
      then show ?thesis using w m ew(7) by auto
    qed simp
    then show "m1 w = m0 w" using r(3) w ge ew(7) by auto
  qed
  ultimately show ?thesis using r(1,5) by blast
qed

lemma inner_loop:
  fixes ss :: SweepScheme and p :: pool
  defines "hm \<equiv> sw_markMap ss" and "mn \<equiv> minimumFreeEntrySize p" and "los \<equiv> largeObjectAllocateStats p"
  assumes ok: "map_ok ss" and bt: "word_addr hm t + 512 \<le> UMAX"
    and c0: "chunkBase c0 = word_addr hm b" "chunkTop c0 = word_addr hm t"
    and mn: "min_ok p" and pl: "plain_sizes los"
  shows "\<lbrakk>scanned ss p b k ys m0 es; k < t; markMapCurrent s = Suc k; heapSlotFreeCurrent s = word_addr hm (Suc k);
      heapSlotFreeCount s = 0; live_objects (sw_sizeOf ss) (last_mark hm k # marks hm (Suc k) t); dark_ok (Suc k) d\<rbrakk> \<Longrightarrow>
    \<exists>s' d' c' m' x' es'. sweep_inner ss b t s d (chunk_with ys x c0, p \<lparr> mem := m0 \<rparr>, es) = Some (s', d', c', p \<lparr> mem := m' \<rparr>, es') \<and>
      (let ms = last_mark hm k # marks hm (Suc k) t; zs = inner_entries hm (sw_sizeOf ss) mn ms
       in sweep_trailing ss b s' c' = trailing_at ss (last ms) (chunk_with (ys @ zs) x' c0) \<and>
          chain m' (head_addr (ys @ zs)) (ys @ zs) \<and> agree_outside (word_addr hm b) (word_addr hm t) m0 m' \<and>
          local_stats los es' \<and> total_count es' = total_count es + of_nat (length zs) \<and> dark_ok t d')"
proof (induction "t - k" arbitrary: k s d ys x m0 es rule: less_induct)
  case less
  note sc = less.prems(1) and kt = less.prems(2) and s = less.prems(3,4,5) and live = less.prems(6) and dk = less.prems(7)
  have k: "heapMapBits hm k \<noteq> 0" "b \<le> k" using sc by (auto simp: scanned_def hm_def)
  have lt: "word_addr hm t < UMAX" using bt by simp
  have wk: "word_addr hm (Suc k) \<le> word_addr hm t" "word_addr hm (Suc k) < UMAX" using kt lt by simp_all
  note ek = word_ends [OF k(1) wk(2)]
  let ?m = "last_mark hm k"
  have m: "0 < ?m" "8 dvd ?m" "?m + sw_sizeOf ss ?m < UMAX" "8 \<le> ?m"
    using live by (auto simp: live_Cons dest: dvd_imp_le)
  note bd = scanned_bounds [OF sc [folded hm_def]] 
  consider (finished) "Suc k = t" | (marked) "Suc k < t" "heapMapBits hm (Suc k) \<noteq> 0" | (empty) "Suc k < t" "heapMapBits hm (Suc k) = 0"
    using kt by linarith
  then show ?case
  proof cases
    case finished
    have r: "sweep_inner ss b t s d (chunk_with ys x c0, p \<lparr> mem := m0 \<rparr>, es) = Some (s, d, chunk_with ys x c0, p \<lparr> mem := m0 \<rparr>, es)"
      using s(1) finished by (subst sweep_inner.simps) simp
    have h: "sweepMarkMapHead hm (Suc k) b (s \<lparr> heapSlotFreeCount := 0, heapSlotFreeHead := heapSlotFreeCurrent s \<rparr>) =
        s \<lparr> heapSlotFreeHead := ?m + 8, heapSlotFreeCount := (word_addr hm t - (?m + 8)) div 8 \<rparr>"
      using head_spec [OF k(1) wk(2) k(2), of "s \<lparr> heapSlotFreeCount := 0, heapSlotFreeHead := heapSlotFreeCurrent s \<rparr>"] s(2) finished
      by (simp add: UMAX_def)
    have "sweep_trailing ss b s (chunk_with ys x c0) = trailing_at ss ?m (chunk_with ys x c0)"
      using k(1) s(1) h by (simp add: sweep_trailing_def trailing_at_def updateTrailingFreeMemory_def Let_def c0 flip: hm_def)
    moreover have "marks hm (Suc k) t = []" using finished by (simp add: marked_slots_empty)
    ultimately show ?thesis using r sc dk finished
      by (intro exI [of _ s] exI [of _ d] exI [of _ "chunk_with ys x c0"] exI [of _ m0] exI [of _ x] exI [of _ es])
        (simp add: scanned_def los_def)
  next
    case marked
    let ?W = "marks hm (Suc k) (Suc (Suc k))" and ?R = "marks hm (Suc (Suc k)) t"
    have wk2: "word_addr hm (Suc (Suc k)) \<le> word_addr hm t" "word_addr hm (Suc (Suc k)) < UMAX" using marked(1) lt by simp_all
    note ew = word_ends [OF marked(2) wk2(2)]
    have split: "marks hm (Suc k) t = ?W @ ?R" using marked(1) by (intro marked_words_append) auto
    have lw: "live_objects (sw_sizeOf ss) ?W" using live unfolding split by (simp add: live_Cons live_append)
    have "chunkTop (chunk_with ys x c0) + 512 \<le> UMAX" using bt c0 by simp
    from sample_word_defined [OF ok marked(2) [unfolded hm_def] s(1,2) [unfolded hm_def] lw [unfolded hm_def] _ _ this dk,
        of "p \<lparr> mem := m0 \<rparr>" es] mn wk2 bt obtain d1 where
      d1: "sample_word ss s d (chunk_with ys x c0, p \<lparr> mem := m0 \<rparr>, es) = Some d1" "dark_ok (Suc (Suc k)) d1"
      by (auto simp: min_ok_def hm_def)
    let ?s = "s \<lparr> heapSlotFreeCurrent := uadd (heapSlotFreeCurrent s) 512, markMapCurrent := markMapCurrent s + 1 \<rparr>"
    have st: "sweep_inner ss b t s d (chunk_with ys x c0, p \<lparr> mem := m0 \<rparr>, es) =
        sweep_inner ss b t ?s d1 (chunk_with ys x c0, p \<lparr> mem := m0 \<rparr>, es)"
      using inner_step_marked [OF _ _ s(3) d1(1)] marked s(1) by (simp add: hm_def)
    have mm: "?m \<le> last_mark hm (Suc k)" using ek(5) ew(4) by linarith
    have sc': "scanned ss p b (Suc k) ys m0 es" using sc marked(2) mm by (force simp: scanned_def hm_def)
    have u: "uadd (word_addr hm (Suc k)) 512 = word_addr hm (Suc (Suc k))" using wk2(2) by (simp add: uadd_exact)
    have lv: "live_objects (sw_sizeOf ss) (last_mark hm (Suc k) # ?R)"
      using live_after [of "sw_sizeOf ss" "[?m]" ?W ?R] live ew(1,3) unfolding split by simp
    have ents: "inner_entries hm (sw_sizeOf ss) mn (?m # ?W @ ?R) = inner_entries hm (sw_sizeOf ss) mn (last_mark hm (Suc k) # ?R)"
      using entries_after_word [OF ew(1), of hm k ?m "sw_sizeOf ss" mn ?R] ek(4) marks_bounds [of _ hm "Suc k" "Suc (Suc k)"] ew(3)
      by fastforce
    have las: "last (?m # ?W @ ?R) = last (last_mark hm (Suc k) # ?R)" using ew(1,3) by simp
    have "\<exists>s' d' c' m' x' es'. sweep_inner ss b t ?s d1 (chunk_with ys x c0, p \<lparr> mem := m0 \<rparr>, es) = Some (s', d', c', p \<lparr> mem := m' \<rparr>, es') \<and>
      (let ms = last_mark hm (Suc k) # ?R; zs = inner_entries hm (sw_sizeOf ss) mn ms
       in sweep_trailing ss b s' c' = trailing_at ss (last ms) (chunk_with (ys @ zs) x' c0) \<and>
          chain m' (head_addr (ys @ zs)) (ys @ zs) \<and> agree_outside (word_addr hm b) (word_addr hm t) m0 m' \<and>
          local_stats los es' \<and> total_count es' = total_count es + of_nat (length zs) \<and> dark_ok t d')"
      by (rule less.hyps [OF _ sc' _ _ _ _ lv d1(2)]) (use marked(1) s u in simp_all)
    then show ?thesis unfolding st split Let_def ents las .
  next
    case empty
    note el = body_empty [OF empty(2) s(1) empty(1) s(2) lt]
    define j where "j = skip_empty hm (Suc k + 1) t"
    have j: "Suc k < j" "j \<le> t" "j < t \<Longrightarrow> heapMapBits hm j \<noteq> 0" "marks hm (Suc k) j = []" "heapMapBits hm (j - 1) = 0"
      using el(2-) by (simp_all add: j_def)
    from inner_step_empty [of ss k s b t d "(chunk_with ys x c0, p \<lparr> mem := m0 \<rparr>, es)", folded hm_def, OF empty(2) s(1,2) k empty(1) bt, folded j_def]
    obtain s' where s': "markMapCurrent s' = j" "heapSlotFreeCurrent s' = word_addr hm j"
      and st: "sweep_inner ss b t s d (chunk_with ys x c0, p \<lparr> mem := m0 \<rparr>, es) =
        do { (more, st) \<leftarrow> addFreeMemory ss (?m + 8) (((if j < t then first_mark hm j else word_addr hm t) - (?m + 8)) div 8)
               (chunk_with ys x c0, p \<lparr> mem := m0 \<rparr>, es);
             (if more then
                sweep_inner ss b t (s' \<lparr> heapSlotFreeHead := NULL, heapSlotFreeCount := 0,
                      heapSlotFreeCurrent := uadd (word_addr hm j) 512, markMapCurrent := j + 1 \<rparr>) d st
              else Some (s', d, st)) }" by blast
    have tail: "last_addr ys \<le> ?m + 8" using bd(1) m(4) by (simp add: hm_def)
    have wb: "word_addr hm b \<le> word_addr hm k" using k(2) by simp
    have nb: "?m + 8 \<noteq> chunkBase c0" using ek(4) wb c0(1) by linarith
    have m8: "8 dvd ?m + 8" using m(2) by simp
    have le8: "?m + 8 \<le> word_addr hm (Suc k)" unfolding ek(5) [symmetric] by simp
    show ?thesis
    proof (cases "j < t")
      case False
      then have jt: "j = t" using j by simp
      have d8: "8 dvd word_addr hm t" using ok by (auto simp: map_ok_def hm_def intro: dvd_trans [of 8 512])
      have "8 * ((word_addr hm t - (?m + 8)) div 8) = word_addr hm t - (?m + 8)"
        using d8 m8 by (intro dvd_mult_div_cancel dvd_diff_nat)
      then have "uadd (?m + 8) (8 * ((word_addr hm t - (?m + 8)) div 8)) = chunkTop c0"
        using le8 wk(1) lt c0 by (simp add: uadd_exact)
      from addFreeMemory_trailing [OF tail nb this]
      have r: "sweep_inner ss b t s d (chunk_with ys x c0, p \<lparr> mem := m0 \<rparr>, es) =
          Some (s', d, trailing_at ss ?m (chunk_with ys x c0), p \<lparr> mem := m0 \<rparr>, es)"
        unfolding st using jt c0(2) by (simp add: trailing_at_def)
      have "sweep_trailing ss b s' c = c" for c using j(5) jt s'(1) by (simp add: sweep_trailing_def hm_def)
      moreover have "dark_ok t d" using dk empty(1) by (auto simp: dark_ok_def)
      ultimately show ?thesis using r sc j(4) jt
        by (intro exI [of _ s'] exI [of _ d] exI [of _ "trailing_at ss ?m (chunk_with ys x c0)"] exI [of _ m0] exI [of _ x] exI [of _ es])
          (simp add: scanned_def los_def)
    next
      case True
      let ?W = "marks hm j (Suc j)" and ?R = "marks hm (Suc j) t" and ?m' = "first_mark hm j"
      have wj: "word_addr hm (Suc j) \<le> word_addr hm t" "word_addr hm (Suc j) < UMAX" using True lt by simp_all
      note ew = word_ends [OF j(3) [OF True] wj(2)]
      have split: "marks hm (Suc k) t = ?W @ ?R"
        using marked_words_append [of "Suc k" j t hm] marked_words_append [of j "Suc j" t hm] j True by simp
      have W: "?W = ?m' # tl ?W" using ew(1,2) by (metis list.collapse)
      have m'W: "?m' \<in> set ?W" using W by (metis list.set_intros(1))
      have lmm: "live_objects (sw_sizeOf ss) [?m, ?m']"
        using live m'W unfolding split by (auto simp: live_Cons live_append) (auto simp: live_objects_def)
      have jk: "word_addr hm (Suc k) \<le> word_addr hm j" using j(1) by simp
      have m'8: "8 dvd ?m'" using lmm by (simp add: live_Cons)
      have "8 * ((?m' - (?m + 8)) div 8) = ?m' - (?m + 8)" using m'8 m8 by (intro dvd_mult_div_cancel dvd_diff_nat)
      then have "uadd (?m + 8) (8 * ((?m' - (?m + 8)) div 8)) = ?m'"
        using le8 jk ew(6,7) wj(2) by (simp add: uadd_exact)
      moreover have "?m' \<noteq> chunkTop c0" using ew(7) wj(1) c0(2) by linarith
      ultimately have "uadd (?m + 8) (8 * ((?m' - (?m + 8)) div 8)) \<noteq> chunkTop c0" by simp
      note af = addFreeMemory_inner [OF tail nb this]
      define zs0 where "zs0 = (if mn \<le> snd (gap (sw_sizeOf ss) ?m ?m') then [gap (sw_sizeOf ss) ?m ?m'] else [])"
      from scan_gap [OF sc mn pl [unfolded los_def] k(2) _ _ _ _ lmm [unfolded hm_def], folded hm_def mn_def los_def, folded zs0_def, of x c0]
        j(1,3) True wj(2) ek(4) obtain m1 x1 es1 where
        g: "addInnerMemory ss (?m + 8) ((?m' - (?m + 8)) div 8) (chunk_with ys x c0, p \<lparr> mem := m0 \<rparr>, es) =
            Some (chunk_with (ys @ zs0) x1 c0, p \<lparr> mem := m1 \<rparr>, es1)"
          "scanned ss p b j (ys @ zs0) m1 es1" "agree_outside (word_addr hm b) (word_addr hm (Suc j)) m0 m1"
          "total_count es1 = total_count es + of_nat (length zs0)" by auto
      let ?s = "s' \<lparr> heapSlotFreeHead := NULL, heapSlotFreeCount := 0, heapSlotFreeCurrent := uadd (word_addr hm j) 512, markMapCurrent := j + 1 \<rparr>"
      have st1: "sweep_inner ss b t s d (chunk_with ys x c0, p \<lparr> mem := m0 \<rparr>, es) =
          sweep_inner ss b t ?s d (chunk_with (ys @ zs0) x1 c0, p \<lparr> mem := m1 \<rparr>, es1)"
        unfolding st using True af g(1) by simp
      have u: "uadd (word_addr hm j) 512 = word_addr hm (Suc j)" using wj(2) by (simp add: uadd_exact)
      have lv: "live_objects (sw_sizeOf ss) (last_mark hm j # ?R)"
        using live_after [of "sw_sizeOf ss" "[?m]" ?W ?R] live ew(1,3) unfolding split by simp
      have ents: "inner_entries hm (sw_sizeOf ss) mn (?m # ?W @ ?R) = zs0 @ inner_entries hm (sw_sizeOf ss) mn (last_mark hm j # ?R)"
        unfolding zs0_def using inner_gap [OF k(1) wk(2) j(3) [OF True] wj(2)] j(1) by simp
      have las: "last (?m # ?W @ ?R) = last (last_mark hm j # ?R)" using ew(1,3) by simp
      have dj: "dark_ok (Suc j) d" using dk j(1) by (auto simp: dark_ok_def)
      have ag: "agree_outside (word_addr hm b) (word_addr hm t) m0 m1" using g(3) wj(1) by (auto simp: agree_outside_def)
      have "\<exists>s' d' c' m' x' es'. sweep_inner ss b t ?s d (chunk_with (ys @ zs0) x1 c0, p \<lparr> mem := m1 \<rparr>, es1) = Some (s', d', c', p \<lparr> mem := m' \<rparr>, es') \<and>
        (let ms = last_mark hm j # ?R; zs = inner_entries hm (sw_sizeOf ss) mn ms
         in sweep_trailing ss b s' c' = trailing_at ss (last ms) (chunk_with ((ys @ zs0) @ zs) x' c0) \<and>
            chain m' (head_addr ((ys @ zs0) @ zs)) ((ys @ zs0) @ zs) \<and> agree_outside (word_addr hm b) (word_addr hm t) m1 m' \<and>
            local_stats los es' \<and> total_count es' = total_count es1 + of_nat (length zs) \<and> dark_ok t d')"
        by (rule less.hyps [OF _ g(2) _ _ _ _ lv dj]) (use True j(1) u in simp_all)
      then show ?thesis unfolding st1 split Let_def ents las g(4) append_assoc length_append of_nat_add add.assoc
        by (elim exE conjE) (intro exI conjI, assumption+, rule agree_trans [OF ag], assumption+)
    qed
  qed
qed

end
