(* ===== verification/Sweep_Result.thy ===== *)
theory Sweep_Result
  imports Sweep_Scan
begin

text \<open>
  \<open>sweepChunk\<close> on a fresh chunk: it returns, and the chunk it leaves is determined by the marks of
  the chunk (\<open>swept_chunk\<close>) up to the sampled dark matter.
\<close>

section \<open>The ends of a chunk\<close>

lemma trailing_at_eq:
  assumes "live_objects (sw_sizeOf ss) [m]" "m < chunkTop c" "8 dvd chunkTop c" "chunkTop c < UMAX"
  defines "e \<equiv> m + sw_sizeOf ss m"
  shows "trailing_at ss m c =
    (if chunkTop c < e then c \<lparr> projection := e - chunkTop c \<rparr>
     else if e < chunkTop c then c \<lparr> trailingFreeCandidate := e, trailingFreeCandidateSize := chunkTop c - e \<rparr>
     else c)"
proof -
  have m: "8 dvd m" "0 < m" "8 dvd sw_sizeOf ss m" "8 \<le> sw_sizeOf ss m" "e < UMAX" using assms(1) by (auto simp: live_Cons e_def)
  have "8 dvd chunkTop c - m" using m assms(3) by (intro dvd_diff_nat)
  then have le: "m + 8 \<le> chunkTop c" using assms(2) by (auto dest: dvd_imp_le)
  have "8 dvd chunkTop c - (m + 8)" using m assms(3) by (intro dvd_diff_nat dvd_add) auto
  then have b: "convertSlotsToBytes ((chunkTop c - (m + 8)) div 8) = chunkTop c - (m + 8)"
    using assms(4) by (simp add: convertSlotsToBytes_def umul_exact)
  have u: "usub (m + 8) 8 = m" "usub (sw_sizeOf ss m) 8 = sw_sizeOf ss m - 8" "uadd (m + 8) (sw_sizeOf ss m - 8) = e"
    using m le assms(4) by (simp_all add: usub_exact uadd_exact e_def)
  have v: "usub (sw_sizeOf ss m - 8) (chunkTop c - (m + 8)) = e - chunkTop c" if "chunkTop c < e"
    using that m le by (simp add: usub_exact e_def)
  have w: "usub (chunkTop c - (m + 8)) (sw_sizeOf ss m - 8) = chunkTop c - e" if "e < chunkTop c"
    using that m assms(4) by (simp add: usub_exact e_def)
  show ?thesis using le m(4) v w unfolding trailing_at_def calculateTrailingDetails_def Let_def b u
    by (auto simp: e_def)
qed

definition lead_to :: "addr \<Rightarrow> ParallelSweepChunk \<Rightarrow> ParallelSweepChunk" where
  "lead_to e c = (if e = chunkBase c then c
     else c \<lparr> leadingFreeCandidate := chunkBase c, leadingFreeCandidateSize := e - chunkBase c \<rparr>)"

lemma lead_to_fields [simp]:
  "chunkBase (lead_to e c) = chunkBase c" "chunkTop (lead_to e c) = chunkTop c" "freeListTail (lead_to e c) = freeListTail c"
  by (simp_all add: lead_to_def)

lemma addFreeMemory_leading:
  assumes "freeListTail c = NULL" "trailingFreeCandidate c = NULL" "0 < chunkBase c" "chunkBase c + 8 * n < UMAX" "0 < n"
  shows "addFreeMemory ss (chunkBase c) n (c, p, es) = Some (False, lead_to (chunkBase c + 8 * n) c, p, es)"
proof -
  have "convertSlotsToBytes n = 8 * n" using assms(4) by (simp add: convertSlotsToBytes_def umul_exact)
  then show ?thesis using assms by (simp add: addFreeMemory_def Let_def lead_to_def)
qed

text \<open>The leading free range ends at the first mark, or at the top of a chunk without one.\<close>

lemma leading_spec:
  fixes ss :: SweepScheme
  defines "hm \<equiv> sw_markMap ss"
  assumes b: "b < t" "word_addr hm t + 512 \<le> UMAX" "0 < word_addr hm b"
    and c: "chunkBase c = word_addr hm b" "freeListTail c = NULL" "trailingFreeCandidate c = NULL"
    and s: "markMapCurrent s = b" "heapSlotFreeCurrent s = word_addr hm b" "heapSlotFreeCount s = 0" "heapSlotFreeHead s = NULL"
  defines "i \<equiv> skip_empty hm b t"
  defines "e \<equiv> (if i < t then first_mark hm i else word_addr hm t)"
  shows "\<exists>s'. sweep_leading ss t s (c, p, es) = Some (s', lead_to e c, p, es) \<and> markMapCurrent s' = i \<and>
    heapSlotFreeCurrent s' = word_addr hm i"
proof -
  have lt: "word_addr hm t < UMAX" using b by simp
  let ?s1 = "sweepMarkMapBody hm t s"
  have "markMapCurrent ?s1 = i \<and> heapSlotFreeCurrent ?s1 = word_addr hm i \<and> heapSlotFreeCount ?s1 = 64 * (i - b) \<and>
      heapSlotFreeHead ?s1 = (if i = b then NULL else word_addr hm b) \<and> b \<le> i \<and> i \<le> t \<and> (i < t \<longrightarrow> heapMapBits hm i \<noteq> 0)"
  proof (cases "heapMapBits hm b = 0")
    case True
    then have i: "i = skip_empty hm (b + 1) t" using b(1) by (simp add: i_def skip_empty.simps [of hm b])
    show ?thesis using body_empty [OF True s(1) b(1) s(2) lt, folded i] by simp
  next
    case False
    then have "i = b" using b(1) by (simp add: i_def skip_empty.simps [of hm b])
    then show ?thesis using False b(1) s by (simp add: body_marked)
  qed
  then have s1: "markMapCurrent ?s1 = i" "heapSlotFreeCurrent ?s1 = word_addr hm i" "heapSlotFreeCount ?s1 = 64 * (i - b)"
    "heapSlotFreeHead ?s1 = (if i = b then NULL else word_addr hm b)" "b \<le> i" "i \<le> t" "i < t \<Longrightarrow> heapMapBits hm i \<noteq> 0" by blast+
  define n where "n = 64 * (i - b) + (e - word_addr hm i) div 8"
  have wi: "word_addr hm i \<le> word_addr hm t" using s1(6) by simp
  have e8: "word_addr hm i \<le> e" "8 * ((e - word_addr hm i) div 8) = e - word_addr hm i"
    using wi s1(6) by (simp_all add: e_def first_mark_def)
  have e: "e = word_addr hm b + 8 * n"
  proof -
    have "word_addr hm i = word_addr hm b + 512 * (i - b)" using s1(5) by (simp add: diff_mult_distrib2)
    then show ?thesis using e8 by (simp add: n_def)
  qed
  have et: "e \<le> word_addr hm t"
  proof (cases "i < t")
    case True
    have "word_addr hm (Suc i) \<le> word_addr hm t" using True by simp
    moreover have "first_mark hm i < word_addr hm (Suc i)"
      using word_ends(7) [OF s1(7) [OF True]] lt calculation by linarith
    ultimately show ?thesis using True by (simp add: e_def)
  qed (simp add: e_def)
  have bnd: "64 * (i - b) + 64 < UMAX" using wi lt s1(5) b(2) by simp
  have s2: "sweepMarkMapTail hm t ?s1 = ?s1 \<lparr> heapSlotFreeCount := n \<rparr>"
  proof (cases "i < t")
    case True
    then show ?thesis using tail_spec [OF s1(7) [OF True] s1(1) True] bnd s1(3) by (simp add: n_def e_def)
  next
    case False
    then have "i = t" using s1(6) by simp
    then show ?thesis using s1(1,3) by (simp add: sweepMarkMapTail_def n_def e_def)
  qed
  show ?thesis
  proof (cases "n = 0")
    case True
    then have "sweep_leading ss t s (c, p, es) = Some (?s1 \<lparr> heapSlotFreeCount := n \<rparr>, lead_to e c, p, es)"
      using e c by (simp add: sweep_leading_def flip: hm_def) (simp add: s2 lead_to_def)
    then show ?thesis using s1(1,2) by simp
  next
    case False
    have ib: "word_addr hm i = word_addr hm b" if "i = b" using that by simp
    have "addFreeMemory ss (word_addr hm b) n (c, p, es) = Some (False, lead_to e c, p, es)"
      using addFreeMemory_leading [of c n ss p es] c b(3) e et lt False by simp
    then have "sweep_leading ss t s (c, p, es) = Some ((if i = b then ?s1 \<lparr> heapSlotFreeCount := n, heapSlotFreeHead := word_addr hm b \<rparr>
        else ?s1 \<lparr> heapSlotFreeCount := n \<rparr>), lead_to e c, p, es)"
      using False c(1) s1(2,4) b(3) by (simp add: sweep_leading_def flip: hm_def) (auto simp: s2 Let_def)
    then show ?thesis using s1(1,2) by (cases "i = b") simp_all
  qed
qed

section \<open>The swept chunk\<close>

definition swept_chunk :: "SweepScheme \<Rightarrow> nat \<Rightarrow> addr list \<Rightarrow> addr \<Rightarrow> ParallelSweepChunk \<Rightarrow> ParallelSweepChunk" where
  "swept_chunk ss mn ms x c =
     (if ms = [] then lead_to (chunkTop c) c
      else trailing_at ss (last ms)
             (chunk_with (inner_entries (sw_markMap ss) (sw_sizeOf ss) mn ms) x (lead_to (hd ms) c)))"

lemma mark_word_index_word:
  assumes "map_ok ss" "word_addr (sw_markMap ss) i < UMAX"
  shows "mark_word_index ss (word_addr (sw_markMap ss) i) = i"
proof -
  have "512 * i < UMAX" using assms(2) by simp
  moreover have "512 * i div 64 div 8 = i" by (simp add: div_mult2_eq [symmetric])
  ultimately show ?thesis using assms by (simp add: mark_word_index_def map_ok_def usub_exact)
qed

definition fresh_chunk :: "ParallelSweepChunk \<Rightarrow> bool" where
  "fresh_chunk c \<longleftrightarrow> chunk_with [] NULL c = c \<and> leadingFreeCandidate c = NULL \<and> leadingFreeCandidateSize c = 0 \<and>
     trailingFreeCandidate c = NULL \<and> trailingFreeCandidateSize c = 0 \<and> projection c = 0"

lemma fresh_lead_to: "fresh_chunk c \<Longrightarrow> chunk_with [] NULL (lead_to e c) = lead_to e c"
  by (cases c) (auto simp: fresh_chunk_def lead_to_def chunk_with_def)

lemma fresh_fields:
  assumes "fresh_chunk c"
  shows "freeListHead c = NULL" "freeListTail c = NULL" "freeBytes c = 0" "freeHoles c = 0" "ck_largestFreeEntry c = 0"
    "freeListTailSize c = 0" "previousFreeListTail c = NULL" "leadingFreeCandidate c = NULL" "leadingFreeCandidateSize c = 0"
    "trailingFreeCandidate c = NULL" "trailingFreeCandidateSize c = 0" "projection c = 0"
proof -
  have e: "chunk_with [] NULL c = c" using assms by (simp add: fresh_chunk_def)
  have "f c = f (chunk_with [] NULL c)" for f :: "ParallelSweepChunk \<Rightarrow> nat" by (simp add: e)
  from this [of freeListHead] this [of freeListTail] this [of freeBytes] this [of freeHoles] this [of ck_largestFreeEntry]
    this [of freeListTailSize] this [of previousFreeListTail]
  show "freeListHead c = NULL" "freeListTail c = NULL" "freeBytes c = 0" "freeHoles c = 0" "ck_largestFreeEntry c = 0"
    "freeListTailSize c = 0" "previousFreeListTail c = NULL" by (simp_all add: chunk_with_def search_size_def)
qed (use assms in \<open>simp_all add: fresh_chunk_def\<close>)

text \<open>The fields of a swept chunk with objects.\<close>

lemma swept_fields:
  fixes mn :: nat and x :: addr
  assumes "fresh_chunk c" "live_objects (sw_sizeOf ss) ms" "ms \<noteq> []" "last ms < chunkTop c" "8 dvd chunkTop c" "chunkTop c < UMAX"
  defines "c' \<equiv> swept_chunk ss mn ms x c" and "e \<equiv> last ms + sw_sizeOf ss (last ms)"
    and "zs \<equiv> inner_entries (sw_markMap ss) (sw_sizeOf ss) mn ms"
  shows "projection c' = e - chunkTop c" "trailingFreeCandidateSize c' = chunkTop c - e"
    "trailingFreeCandidate c' = (if e < chunkTop c then e else NULL)"
    "leadingFreeCandidateSize c' = hd ms - chunkBase c"
    "leadingFreeCandidate c' = (if hd ms = chunkBase c then NULL else chunkBase c)"
    "freeBytes c' = entries_size zs" "freeHoles c' = length zs" "freeListHead c' = head_addr zs"
    "freeListTail c' = last_addr zs" "freeListTailSize c' = (if zs = [] then 0 else snd (last zs))"
    "previousFreeListTail c' = last_addr (butlast zs)"
    "ck_largestFreeEntry c' = search_size 0 zs" "chunkBase c' = chunkBase c" "chunkTop c' = chunkTop c"
    "coalesceCandidate c' = coalesceCandidate c" "ck_memoryPool c' = ck_memoryPool c" "ck_previous c' = ck_previous c"
proof -
  let ?c = "chunk_with zs x (lead_to (hd ms) c)"
  have "live_objects (sw_sizeOf ss) [last ms]" using assms(2,3) live_after [of "sw_sizeOf ss" "[]" ms "[]"] by simp
  from trailing_at_eq [OF this, of ?c] assms(3-6) have "c' =
    (if chunkTop c < e then ?c \<lparr> projection := e - chunkTop c \<rparr>
     else if e < chunkTop c then ?c \<lparr> trailingFreeCandidate := e, trailingFreeCandidateSize := chunkTop c - e \<rparr>
     else ?c)" by (simp add: c'_def swept_chunk_def zs_def e_def)
  then show "projection c' = e - chunkTop c" "trailingFreeCandidateSize c' = chunkTop c - e"
    "trailingFreeCandidate c' = (if e < chunkTop c then e else NULL)"
    "leadingFreeCandidateSize c' = hd ms - chunkBase c"
    "leadingFreeCandidate c' = (if hd ms = chunkBase c then NULL else chunkBase c)"
    "freeBytes c' = entries_size zs" "freeHoles c' = length zs" "freeListHead c' = head_addr zs"
    "freeListTail c' = last_addr zs" "freeListTailSize c' = (if zs = [] then 0 else snd (last zs))"
    "previousFreeListTail c' = last_addr (butlast zs)"
    "ck_largestFreeEntry c' = search_size 0 zs" "chunkBase c' = chunkBase c" "chunkTop c' = chunkTop c"
    "coalesceCandidate c' = coalesceCandidate c" "ck_memoryPool c' = ck_memoryPool c" "ck_previous c' = ck_previous c"
    using fresh_fields [OF assms(1)] by (simp_all add: lead_to_def chunk_with_def)
qed

text \<open>What has been found free in a chunk fits between its ends.\<close>

lemma swept_free:
  assumes fr: "fresh_chunk c" and live: "live_objects (sw_sizeOf ss) ms" and mn: "16 \<le> mn"
    and ms: "\<forall>m \<in> set ms. chunkBase c \<le> m \<and> m < chunkTop c" and c: "8 dvd chunkTop c" "chunkTop c < UMAX" "chunkBase c < chunkTop c"
  shows "freeBytes (swept_chunk ss mn ms x c) + leadingFreeCandidateSize (swept_chunk ss mn ms x c) +
    trailingFreeCandidateSize (swept_chunk ss mn ms x c) \<le> chunkTop c - chunkBase c"
proof (cases "ms = []")
  case True
  then show ?thesis using fresh_fields [OF fr] c(3) by (simp add: swept_chunk_def lead_to_def)
next
  case False
  let ?zs = "inner_entries (sw_markMap ss) (sw_sizeOf ss) mn ms"
  have l: "chunkBase c \<le> last ms" "last ms < chunkTop c" "chunkBase c \<le> hd ms" using ms False by auto
  have hl: "hd ms \<le> last ms" using live False by (cases ms) (auto simp: live_Cons dest!: last_in_set bspec)
  have "\<forall>e \<in> set ?zs. hd ms \<le> fst e \<and> fst e + snd e \<le> last ms"
  proof
    fix e assume "e \<in> set ?zs"
    with inner_entries_within [of "sw_sizeOf ss" "hd ms" "tl ms" e] live False show "hd ms \<le> fst e \<and> fst e + snd e \<le> last ms" by fastforce
  qed
  from entries_size_range [OF inner_entries_wf [OF live mn] this hl] have "entries_size ?zs \<le> last ms - hd ms" .
  then show ?thesis unfolding swept_fields [OF fr live False l(2) c(1,2)] using l hl by simp
qed

lemma record_dark_spec:
  assumes "dark_ok t d" "freeBytes c + leadingFreeCandidateSize c + trailingFreeCandidateSize c \<le> chunkTop c - chunkBase c"
    "chunkBase c \<le> chunkTop c" "chunkTop c < UMAX"
  shows "\<exists>db dn. record_dark ss d c = Some (c \<lparr> ck_darkMatterBytes := db, ck_darkMatterSamples := dn \<rparr>)"
proof -
  obtain d1 d2 d3 where d: "d = (d1, d2, d3)" by (cases d)
  have u: "uadd (uadd (freeBytes c) (leadingFreeCandidateSize c)) (trailingFreeCandidateSize c) =
      freeBytes c + leadingFreeCandidateSize c + trailingFreeCandidateSize c" "usub (chunkTop c) (chunkBase c) = chunkTop c - chunkBase c"
    using assms by (simp_all add: uadd_exact usub_exact)
  have "\<exists>db dn. c \<lparr> ck_darkMatterSamples := n, ck_darkMatterBytes := b \<rparr> = c \<lparr> ck_darkMatterBytes := db, ck_darkMatterSamples := dn \<rparr>" for n b
    by (intro exI [of _ b] exI [of _ n]) simp
  then show ?thesis using assms(1,2) by (auto simp: record_dark_def Let_def d dark_ok_def u)
qed

text \<open>The marks from the first word that has one.\<close>

lemma marks_from:
  assumes "b < t" "word_addr hm t < UMAX"
  defines "i \<equiv> skip_empty hm b t"
  shows "b \<le> i" "i \<le> t" "i = t \<Longrightarrow> marks hm b t = []" "i < t \<Longrightarrow> heapMapBits hm i \<noteq> 0"
    "i < t \<Longrightarrow> marks hm b t = marks hm i (Suc i) @ marks hm (Suc i) t" "i = t \<Longrightarrow> heapMapBits hm (t - 1) = 0"
proof -
  show i: "b \<le> i" "i \<le> t" using skip_empty_bounds [of b t hm] assms(1) by (auto simp: i_def)
  have wi: "word_addr hm i \<le> word_addr hm t" using i by simp
  have "marks hm b i = []" using i wi assms(2) by (intro empty_words skip_empty_zero) (auto simp: i_def)
  with marked_words_append [OF i, of hm] have e: "marks hm b t = marks hm i t" by simp
  then show "i = t \<Longrightarrow> marks hm b t = []" by (simp add: marked_slots_empty)
  show "i < t \<Longrightarrow> heapMapBits hm i \<noteq> 0" unfolding i_def by (rule skip_empty_stops)
  show "i < t \<Longrightarrow> marks hm b t = marks hm i (Suc i) @ marks hm (Suc i) t"
    using e marked_words_append [of i "Suc i" t hm] by simp
  show "i = t \<Longrightarrow> heapMapBits hm (t - 1) = 0" using assms(1) skip_empty_zero [of b "t - 1" hm t] by (simp add: i_def)
qed

text \<open>The loop from the start of the chunk, after the leading range.\<close>

lemma inner_from_start:
  fixes ss :: SweepScheme and p :: pool
  defines "hm \<equiv> sw_markMap ss" and "mn \<equiv> minimumFreeEntrySize p" and "los \<equiv> largeObjectAllocateStats p"
  assumes ok: "map_ok ss" and bt: "b < t" "word_addr hm t + 512 \<le> UMAX"
    and c: "chunk_with [] NULL c = c" "chunkBase c = word_addr hm b" "chunkTop c = word_addr hm t"
    and mn: "min_ok p" and pl: "plain_sizes los" and es: "local_stats los es"
    and live: "live_objects (sw_sizeOf ss) (marks hm b t)" "marks hm b t \<noteq> []"
    and s: "markMapCurrent s = skip_empty hm b t" "heapSlotFreeCurrent s = word_addr hm (skip_empty hm b t)" "heapSlotFreeCount s = 0"
  shows "\<exists>s' d' c' m' x' es'. sweep_inner ss b t s (0, 0, 0) (c, p, es) = Some (s', d', c', p \<lparr> mem := m' \<rparr>, es') \<and>
      (let zs = inner_entries hm (sw_sizeOf ss) mn (marks hm b t)
       in sweep_trailing ss b s' c' = trailing_at ss (last (marks hm b t)) (chunk_with zs x' c) \<and>
          chain m' (head_addr zs) zs \<and> agree_outside (word_addr hm b) (word_addr hm t) (mem p) m' \<and>
          local_stats los es' \<and> total_count es' = total_count es + of_nat (length zs) \<and> dark_ok t d')"
proof -
  define i where "i = skip_empty hm b t"
  have lt: "word_addr hm t < UMAX" using bt by simp
  note mf = marks_from [OF bt(1) lt, folded i_def]
  have it: "i < t" using mf(2,3) live(2) by fastforce
  let ?W = "marks hm i (Suc i)" and ?R = "marks hm (Suc i) t"
  have wi: "word_addr hm (Suc i) \<le> word_addr hm t" "word_addr hm (Suc i) < UMAX" using it lt by simp_all
  note split = mf(5) [OF it] and ew = word_ends [OF mf(4) [OF it] wi(2)]
  have lw: "live_objects (sw_sizeOf ss) ?W" using live(1) unfolding split by (simp add: live_append)
  have "chunkTop c + 512 \<le> UMAX" "word_addr hm (Suc i) + 512 \<le> UMAX" "dark_ok i (0, 0, 0)" using bt c(3) wi by (simp_all add: dark_ok_def)
  from sample_word_defined [OF ok mf(4) [OF it, unfolded hm_def] s(1,2) [unfolded hm_def, folded hm_def, folded i_def, unfolded hm_def] lw [unfolded hm_def] mn this(2) [unfolded hm_def] this(1,3), of es]
  obtain d1 where d1: "sample_word ss s (0, 0, 0) (c, p, es) = Some d1" "dark_ok (Suc i) d1" by auto
  let ?s = "s \<lparr> heapSlotFreeCurrent := uadd (heapSlotFreeCurrent s) 512, markMapCurrent := markMapCurrent s + 1 \<rparr>"
  have st: "sweep_inner ss b t s (0, 0, 0) (c, p, es) = sweep_inner ss b t ?s d1 (c, p, es)"
    by (rule inner_step_marked [OF _ _ s(3) d1(1)]) (use mf(4) it s(1) i_def hm_def in auto)
  have sc: "scanned ss p b i [] (mem p) es" using mf(1,4) it es by (simp add: scanned_def hm_def los_def)
  have u: "uadd (word_addr hm i) 512 = word_addr hm (Suc i)" using wi(2) by (simp add: uadd_exact)
  have lv: "live_objects (sw_sizeOf ss) (last_mark hm i # ?R)"
    using live_after [of "sw_sizeOf ss" "[]" ?W ?R] live(1) ew(1,3) unfolding split by simp
  have "\<forall>a \<in> set ?W. word_addr hm i \<le> a \<and> a < word_addr hm (i + 2)"
  proof
    fix a assume "a \<in> set ?W"
    then show "word_addr hm i \<le> a \<and> a < word_addr hm (i + 2)" using marks_bounds [of a hm i "Suc i"] by auto
  qed
  from entries_within_word [OF ew(1) this, of "sw_sizeOf ss" mn ?R]
  have ents: "inner_entries hm (sw_sizeOf ss) mn (?W @ ?R) = inner_entries hm (sw_sizeOf ss) mn (last_mark hm i # ?R)" by (simp only: ew(3))
  have las: "last (?W @ ?R) = last (last_mark hm i # ?R)" using ew(1,3) by simp
  have p: "p = p \<lparr> mem := mem p \<rparr>" by simp
  have "\<exists>s' d' c' m' x' es'. sweep_inner ss b t ?s d1 (chunk_with [] NULL c, p \<lparr> mem := mem p \<rparr>, es) = Some (s', d', c', p \<lparr> mem := m' \<rparr>, es') \<and>
      (let ms = last_mark hm i # ?R; zs = inner_entries hm (sw_sizeOf ss) mn ms
       in sweep_trailing ss b s' c' = trailing_at ss (last ms) (chunk_with ([] @ zs) x' c) \<and>
          chain m' (head_addr ([] @ zs)) ([] @ zs) \<and> agree_outside (word_addr hm b) (word_addr hm t) (mem p) m' \<and>
          local_stats los es' \<and> total_count es' = total_count es + of_nat (length zs) \<and> dark_ok t d')"
    unfolding hm_def mn_def los_def
    by (rule inner_loop [OF ok bt(2) [unfolded hm_def] c(2,3) [unfolded hm_def] mn pl [unfolded los_def] sc it])
      (use s u lv d1(2) in \<open>simp_all flip: hm_def i_def\<close>)
  then show ?thesis unfolding st split Let_def ents las append_Nil c(1) p [symmetric] .
qed

lemma sweepChunk_spec:
  fixes ss :: SweepScheme and p :: pool
  defines "hm \<equiv> sw_markMap ss" and "mn \<equiv> minimumFreeEntrySize p" and "los \<equiv> largeObjectAllocateStats p"
  assumes ok: "map_ok ss" and bt: "b < t" "word_addr hm t + 512 \<le> UMAX"
    and c: "fresh_chunk c" "chunkBase c = word_addr hm b" "chunkTop c = word_addr hm t"
    and mn: "min_ok p" and pl: "plain_sizes los" and es: "local_stats los es"
    and live: "live_objects (sw_sizeOf ss) (marks hm b t)"
  defines "zs \<equiv> inner_entries hm (sw_sizeOf ss) mn (marks hm b t)"
  shows "\<exists>m' x es' db dn. sweepChunk ss (c, p, es) = Some (marks hm b t \<noteq> [],
      (swept_chunk ss mn (marks hm b t) x c) \<lparr> ck_darkMatterBytes := db, ck_darkMatterSamples := dn \<rparr>, p \<lparr> mem := m' \<rparr>, es') \<and>
    chain m' (head_addr zs) zs \<and> agree_outside (word_addr hm b) (word_addr hm t) (mem p) m' \<and>
    local_stats los es' \<and> total_count es' = total_count es + of_nat (length zs)"
proof -
  have lt: "word_addr hm t < UMAX" "word_addr hm b < UMAX" "0 < word_addr hm b" "word_addr hm b < word_addr hm t" "8 dvd word_addr hm t"
    using bt ok by (auto simp: map_ok_def hm_def intro: dvd_trans [of 8 512])
  have mi: "mark_word_index ss (chunkBase c) = b" "mark_word_index ss (chunkTop c) = t"
    using mark_word_index_word [OF ok] lt c by (simp_all add: hm_def)
  define i where "i = skip_empty hm b t"
  note mf = marks_from [OF bt(1) lt(1), folded i_def] and fr = fresh_fields [OF c(1)]
  define e where "e = (if i < t then first_mark hm i else word_addr hm t)"
  let ?s0 = "\<lparr> markMapCurrent = b, markMapFreeHead = NULL, heapSlotFreeCount = 0, heapSlotFreeCurrent = chunkBase c, heapSlotFreeHead = NULL \<rparr>"
  from leading_spec [OF bt(1) bt(2) [unfolded hm_def] lt(3) [unfolded hm_def] c(2) [unfolded hm_def], of ?s0 p es, folded hm_def, folded i_def, folded e_def]
    fr c(2) obtain s1 where
    s1: "sweep_leading ss t ?s0 (c, p, es) = Some (s1, lead_to e c, p, es)" "markMapCurrent s1 = i" "heapSlotFreeCurrent s1 = word_addr hm i"
    by auto
  let ?s = "s1 \<lparr> heapSlotFreeHead := NULL, heapSlotFreeCount := 0 \<rparr>"
  have sw: "sweepChunk ss (c, p, es) =
      do { (s, d, (c, p, es)) \<leftarrow> sweep_inner ss b t ?s (0, 0, 0) (lead_to e c, p, es);
           c \<leftarrow> record_dark ss d (sweep_trailing ss b s c);
           Some (i < t, c, p, es) }"
    using fr(2) s1 by (simp add: sweepChunk_def mi)
  have bds: "\<forall>m \<in> set (marks hm b t). chunkBase c \<le> m \<and> m < chunkTop c" using marks_bounds [of _ hm b t] c by auto
  have free: "freeBytes (swept_chunk ss mn (marks hm b t) x c) + leadingFreeCandidateSize (swept_chunk ss mn (marks hm b t) x c) +
      trailingFreeCandidateSize (swept_chunk ss mn (marks hm b t) x c) \<le> chunkTop c - chunkBase c" for x
    by (rule swept_free [OF c(1) live _ bds]) (use mn lt c in \<open>simp_all add: mn_def min_ok_def\<close>)
  have ends: "chunkBase (swept_chunk ss mn (marks hm b t) x c) = chunkBase c" "chunkTop (swept_chunk ss mn (marks hm b t) x c) = chunkTop c" for x
  proof -
    have "last (marks hm b t) < chunkTop c" if "marks hm b t \<noteq> []" using bds that by simp
    then show "chunkBase (swept_chunk ss mn (marks hm b t) x c) = chunkBase c" "chunkTop (swept_chunk ss mn (marks hm b t) x c) = chunkTop c"
      using swept_fields(13,14) [OF c(1) live, of mn x] lt c(3) by (cases "marks hm b t = []"; simp add: swept_chunk_def)+
  qed
  have dark: "\<exists>db dn. record_dark ss d (swept_chunk ss mn (marks hm b t) x c) =
      Some ((swept_chunk ss mn (marks hm b t) x c) \<lparr> ck_darkMatterBytes := db, ck_darkMatterSamples := dn \<rparr>)" if "dark_ok t d" for x d
    using record_dark_spec [OF that, of "swept_chunk ss mn (marks hm b t) x c" ss] free [of x] ends [of x] lt c by simp
  show ?thesis
  proof (cases "i < t")
    case True
    have W: "marks hm i (Suc i) \<noteq> []" "hd (marks hm i (Suc i)) = first_mark hm i"
    proof -
      have "word_addr hm (Suc i) \<le> word_addr hm t" using True by simp
      then have "word_addr hm (Suc i) < UMAX" using lt(1) by linarith
      from word_ends [OF mf(4) [OF True] this] show "marks hm i (Suc i) \<noteq> []" "hd (marks hm i (Suc i)) = first_mark hm i" by auto
    qed
    have ne: "marks hm b t \<noteq> []" and hd: "hd (marks hm b t) = e" using mf(5) [OF True] W True by (auto simp: e_def)
    from inner_from_start [OF ok bt(1) bt(2) [unfolded hm_def] fresh_lead_to [OF c(1), of e] _ _ mn pl [unfolded los_def] es [unfolded los_def]
        live [unfolded hm_def] ne [unfolded hm_def], of ?s, folded hm_def mn_def los_def, folded i_def, folded zs_def] s1(2,3) c(2,3)
    obtain s' d' c' m' x' es' where
      r: "sweep_inner ss b t ?s (0, 0, 0) (lead_to e c, p, es) = Some (s', d', c', p \<lparr> mem := m' \<rparr>, es')"
        "sweep_trailing ss b s' c' = trailing_at ss (last (marks hm b t)) (chunk_with zs x' (lead_to e c))"
        "chain m' (head_addr zs) zs" "agree_outside (word_addr hm b) (word_addr hm t) (mem p) m'"
        "local_stats los es'" "total_count es' = total_count es + of_nat (length zs)" "dark_ok t d'" by (auto simp: Let_def)
    have "trailing_at ss (last (marks hm b t)) (chunk_with zs x' (lead_to e c)) = swept_chunk ss mn (marks hm b t) x' c"
      using ne hd by (simp add: swept_chunk_def zs_def hm_def)
    moreover obtain db dn where "record_dark ss d' (swept_chunk ss mn (marks hm b t) x' c) =
        Some ((swept_chunk ss mn (marks hm b t) x' c) \<lparr> ck_darkMatterBytes := db, ck_darkMatterSamples := dn \<rparr>)"
      using dark [OF r(7), of x'] by blast
    ultimately show ?thesis using r ne True unfolding sw
      by (intro exI [of _ m'] exI [of _ x'] exI [of _ es'] exI [of _ db] exI [of _ dn]) simp
  next
    case False
    then have it: "i = t" using mf(2) by simp
    then have ne: "marks hm b t = []" using mf(3) by simp
    have "sweep_inner ss b t ?s (0, 0, 0) (lead_to e c, p, es) = Some (?s, (0, 0, 0), lead_to e c, p, es)"
      using s1(2) it by (subst sweep_inner.simps) simp
    moreover have "sweep_trailing ss b ?s (lead_to e c) = swept_chunk ss mn (marks hm b t) NULL c"
      using mf(6) it s1(2) ne by (simp add: sweep_trailing_def swept_chunk_def e_def c(3) flip: hm_def)
    moreover obtain db dn where "record_dark ss (0, 0, 0) (swept_chunk ss mn (marks hm b t) NULL c) =
        Some ((swept_chunk ss mn (marks hm b t) NULL c) \<lparr> ck_darkMatterBytes := db, ck_darkMatterSamples := dn \<rparr>)"
      using dark [of "(0, 0, 0)" NULL] by (auto simp: dark_ok_def)
    ultimately have "sweepChunk ss (c, p, es) = Some (marks hm b t \<noteq> [],
        (swept_chunk ss mn (marks hm b t) NULL c) \<lparr> ck_darkMatterBytes := db, ck_darkMatterSamples := dn \<rparr>, p \<lparr> mem := mem p \<rparr>, es)"
      using it ne unfolding sw by simp
    then show ?thesis using ne es
      by (intro exI [of _ "mem p"] exI [of _ NULL] exI [of _ es] exI [of _ db] exI [of _ dn]) (simp add: zs_def)
  qed
qed

end
