(* ===== verification/Sweep_Connect.thy ===== *)
theory Sweep_Connect
  imports Sweep
begin

text \<open>
  Connecting the swept chunks into the free list of the pool
  (gc/base/SweepPoolManagerAddressOrderedListBase.cpp) and the sweep of the whole heap
  (gc/base/standard/ParallelSweepScheme.cpp): the division of the heap into chunks
  (gc/base/standard/SweepHeapSectioningSegmented.cpp), the worker threads, and the master that
  connects.

  Every worker sweeps the chunks that \<open>handleNextWorkUnit\<close> gives to it (a predicate on the chunk
  number).  The workers are run one after the other; they touch different chunks and their own
  statistics, and merge these into the pool's under its lock.
\<close>

section \<open>Connecting one chunk\<close>

text \<open>The local variables of \<open>connectChunk\<close>, with the chunk, the pool and its sweep state.\<close>

record Connect =
  previousFreeEntry :: addr
  previousFreeEntrySize :: nat
  previousPreviousFreeEntry :: addr
  leadingFreeEntry :: addr
  leadingFreeEntrySize :: nat
  cn_chunk :: ParallelSweepChunk
  cn_pool :: pool
  cn_state :: SweepPoolState

definition count_free :: "nat \<Rightarrow> SweepPoolState \<Rightarrow> SweepPoolState" where
  "count_free n s = s \<lparr> sweepFreeBytes := uadd (sweepFreeBytes s) n, sweepFreeHoles := uadd (sweepFreeHoles s) 1 \<rparr>"

text \<open>
  The code repeats these steps for a joint entry, a trailing entry and a leading entry: link the
  previous entry to the new one, which becomes the previous entry, and count it.
\<close>

definition connect_entry :: "addr \<Rightarrow> nat \<Rightarrow> Connect \<Rightarrow> Connect option" where
  "connect_entry entry n cn =
     do { p \<leftarrow> connectOuterMemoryToPool (previousFreeEntry cn) (previousFreeEntrySize cn) entry (cn_pool cn);
          (let cn = cn \<lparr> previousPreviousFreeEntry := previousFreeEntry cn, previousFreeEntry := entry,
                         previousFreeEntrySize := n, cn_pool := p \<rparr>
           in if n \<noteq> 0 then
                do { p \<leftarrow> incrementStats n (cn_pool cn);
                     Some (cn \<lparr> cn_pool := p,
                                cn_state := sp_updateLargestFreeEntry n (previousPreviousFreeEntry cn)
                                              (count_free n (cn_state cn)) \<rparr>) }
              else Some cn) }"

definition connect_projection :: "nat \<Rightarrow> Connect \<Rightarrow> Connect" where
  "connect_projection proj cn =
     (if proj \<noteq> 0 then
        (let chunkSize = usub (chunkTop (cn_chunk cn)) (chunkBase (cn_chunk cn))
         in if chunkSize < proj
            then cn \<lparr> cn_chunk := (cn_chunk cn) \<lparr> projection := usub proj chunkSize \<rparr>,
                      leadingFreeEntry := NULL, leadingFreeEntrySize := 0 \<rparr>
            else cn \<lparr> leadingFreeEntry := uadd (leadingFreeEntry cn) proj,
                      leadingFreeEntrySize := usub (leadingFreeEntrySize cn) proj \<rparr>)
      else cn)"

definition connect_previous :: "ParallelSweepChunk option \<Rightarrow> Connect \<Rightarrow> Connect option" where
  "connect_previous previousConnectChunk cn =
     (if previousFreeEntry cn \<noteq> NULL \<and>
         uadd (previousFreeEntry cn) (previousFreeEntrySize cn) = leadingFreeEntry cn then
        do { prev \<leftarrow> previousConnectChunk;
             (if ck_memoryPool prev = ck_memoryPool (cn_chunk cn) \<and> coalesceCandidate (cn_chunk cn) then
                do { p \<leftarrow> decrementStats (previousFreeEntrySize cn) (cn_pool cn);
                     (let n = uadd (previousFreeEntrySize cn) (leadingFreeEntrySize cn)
                      in do { p \<leftarrow> incrementStats n p;
                              Some (cn \<lparr> previousFreeEntrySize := n, cn_pool := p,
                                         cn_state := sp_updateLargestFreeEntry n (previousPreviousFreeEntry cn)
                                           ((cn_state cn) \<lparr> sweepFreeBytes :=
                                              uadd (sweepFreeBytes (cn_state cn)) (leadingFreeEntrySize cn) \<rparr>),
                                         leadingFreeEntry := NULL \<rparr>) }) }
              else Some cn) }
      else Some cn)"

definition connect_trailing :: "ParallelSweepChunk option \<Rightarrow> Connect \<Rightarrow> Connect option" where
  "connect_trailing previousConnectChunk cn =
     (case previousConnectChunk of
        None \<Rightarrow> Some cn
      | Some prev \<Rightarrow>
          (if leadingFreeEntry cn \<noteq> NULL \<and>
              uadd (trailingFreeCandidate prev) (trailingFreeCandidateSize prev) = leadingFreeEntry cn \<and>
              ck_memoryPool prev = ck_memoryPool (cn_chunk cn) \<and> coalesceCandidate (cn_chunk cn) then
             (let jointFreeSize = uadd (leadingFreeEntrySize cn) (trailingFreeCandidateSize prev)
              in do { cn \<leftarrow> (if canMemoryBeConnectedToPool jointFreeSize (cn_pool cn)
                             then connect_entry (trailingFreeCandidate prev) jointFreeSize cn else Some cn);
                      Some (cn \<lparr> leadingFreeEntry := NULL \<rparr>) })
           else if canMemoryBeConnectedToPool (trailingFreeCandidateSize prev) (cn_pool cn)
           then connect_entry (trailingFreeCandidate prev) (trailingFreeCandidateSize prev) cn
           else Some cn))"

definition connect_leading :: "Connect \<Rightarrow> Connect option" where
  "connect_leading cn =
     (if leadingFreeEntry cn \<noteq> NULL \<and>
         uadd (leadingFreeEntry cn) (leadingFreeEntrySize cn) = chunkTop (cn_chunk cn) then
        Some (cn \<lparr> cn_chunk := (cn_chunk cn)
                     \<lparr> leadingFreeCandidate := NULL, leadingFreeCandidateSize := 0,
                       trailingFreeCandidate := leadingFreeEntry cn,
                       trailingFreeCandidateSize := leadingFreeEntrySize cn \<rparr> \<rparr>)
      else if leadingFreeEntry cn \<noteq> NULL then
        (if canMemoryBeConnectedToPool (leadingFreeEntrySize cn) (cn_pool cn) then
           do { assert_MM (previousFreeEntry cn \<le> leadingFreeEntry cn);
                connect_entry (leadingFreeEntry cn) (leadingFreeEntrySize cn) cn }
         else do { p \<leftarrow> abandonMemoryInPool (leadingFreeEntry cn) (leadingFreeEntrySize cn) (cn_pool cn);
                   Some (cn \<lparr> cn_pool := p \<rparr>) })
      else Some cn)"

definition updateLargestFreeEntryInChunk :: "ParallelSweepChunk \<Rightarrow> addr \<Rightarrow> SweepPoolState \<Rightarrow> SweepPoolState" where
  "updateLargestFreeEntryInChunk c prev s =
     (if sp_largestFreeEntry s < ck_largestFreeEntry c
      then s \<lparr> sp_previousLargestFreeEntry := (if ck_previousLargestFreeEntry c = NULL then prev
                                              else ck_previousLargestFreeEntry c),
               sp_largestFreeEntry := ck_largestFreeEntry c \<rparr>
      else s)"

definition connect_inner :: "Connect \<Rightarrow> Connect option" where
  "connect_inner cn =
     (let c = cn_chunk cn
      in if freeListHead c \<noteq> NULL then
           do { assert_MM (previousFreeEntry cn < freeListHead c);
                p \<leftarrow> connectOuterMemoryToPool (previousFreeEntry cn) (previousFreeEntrySize cn) (freeListHead c) (cn_pool cn);
                (let s = updateLargestFreeEntryInChunk c (previousFreeEntry cn) (cn_state cn);
                     s = (if freeBytes c \<noteq> 0
                          then s \<lparr> sweepFreeBytes := uadd (sweepFreeBytes s) (freeBytes c),
                                   sweepFreeHoles := uadd (sweepFreeHoles s) (freeHoles c) \<rparr> else s)
                 in Some (cn \<lparr> previousPreviousFreeEntry := (if previousFreeListTail c \<noteq> NULL then previousFreeListTail c
                                                             else previousFreeEntry cn),
                               previousFreeEntry := freeListTail c, previousFreeEntrySize := freeListTailSize c,
                               cn_pool := p, cn_state := s \<rparr>)) }
         else Some cn)"

text \<open>The chunk table, the pool and its sweep state.\<close>

type_synonym sweep_heap = "ParallelSweepChunk list \<times> pool \<times> SweepPoolState"

definition connectChunk :: "nat \<Rightarrow> sweep_heap \<Rightarrow> sweep_heap option" where
  "connectChunk i = (\<lambda>(chunks, p, s).
     (let c = chunks ! i; previousConnectChunk = map_option ((!) chunks) (connectPreviousChunk s);
          cn = \<lparr> previousFreeEntry = connectPreviousFreeEntry s,
                 previousFreeEntrySize = connectPreviousFreeEntrySize s,
                 previousPreviousFreeEntry = connectPreviousPreviousFreeEntry s,
                 leadingFreeEntry = leadingFreeCandidate c, leadingFreeEntrySize = leadingFreeCandidateSize c,
                 cn_chunk = c, cn_pool = p, cn_state = s \<rparr>
      in do { assert_MM (leadingFreeEntry cn = NULL \<or> previousFreeEntry cn < leadingFreeEntry cn);
              proj \<leftarrow> (case ck_previous c of
                         None \<Rightarrow> Some 0
                       | Some j \<Rightarrow>
                           do { assert_MM (projection (chunks ! j) = 0 \<or> chunkTop (chunks ! j) = chunkBase c);
                                Some (projection (chunks ! j)) });
              cn \<leftarrow> connect_previous previousConnectChunk (connect_projection proj cn);
              cn \<leftarrow> connect_trailing previousConnectChunk cn;
              cn \<leftarrow> connect_leading cn;
              cn \<leftarrow> connect_inner cn;
              Some (chunks[i := cn_chunk cn],
                    (cn_pool cn) \<lparr> darkMatterBytes := uadd (darkMatterBytes (cn_pool cn)) (ck_darkMatterBytes (cn_chunk cn)),
                                   darkMatterSamples := uadd (darkMatterSamples (cn_pool cn)) (ck_darkMatterSamples (cn_chunk cn)) \<rparr>,
                    (cn_state cn) \<lparr> connectPreviousFreeEntry := previousFreeEntry cn,
                                    connectPreviousPreviousFreeEntry := previousPreviousFreeEntry cn,
                                    connectPreviousFreeEntrySize := previousFreeEntrySize cn,
                                    connectPreviousChunk := Some i \<rparr>) }))"

section \<open>The end of the list\<close>

definition flushFinalChunk :: "sweep_heap \<Rightarrow> sweep_heap option" where
  "flushFinalChunk = (\<lambda>(chunks, p, s).
     (case connectPreviousChunk s of
        None \<Rightarrow> Some (chunks, p, s)
      | Some i \<Rightarrow>
          (let c = chunks ! i; n = trailingFreeCandidateSize c
           in if 0 < n then
                (if \<not> canMemoryBeConnectedToPool n p then
                   do { p \<leftarrow> abandonMemoryInPool (trailingFreeCandidate c) n p; Some (chunks, p, s) }
                 else
                   do { p \<leftarrow> connectOuterMemoryToPool (connectPreviousFreeEntry s) (connectPreviousFreeEntrySize s)
                               (trailingFreeCandidate c) p;
                        (let s = s \<lparr> connectPreviousPreviousFreeEntry := connectPreviousFreeEntry s,
                                     connectPreviousFreeEntry := trailingFreeCandidate c,
                                     connectPreviousFreeEntrySize := n \<rparr>
                         in do { assert_MM (connectPreviousFreeEntry s \<noteq> leadingFreeCandidate c);
                                 p \<leftarrow> incrementStats n p;
                                 Some (chunks, p, sp_updateLargestFreeEntry n (connectPreviousPreviousFreeEntry s)
                                                    (count_free n s)) }) })
              else Some (chunks, p, s))))"

definition connectFinalChunk :: "sweep_heap \<Rightarrow> sweep_heap option" where
  "connectFinalChunk = (\<lambda>(chunks, p, s).
     do { (p, s) \<leftarrow> (if connectPreviousFreeEntry s \<noteq> NULL then
                       do { p \<leftarrow> connectFinalMemoryToPool (connectPreviousFreeEntry s) (connectPreviousFreeEntrySize s) p;
                            Some (p, sp_updateLargestFreeEntry (connectPreviousFreeEntrySize s)
                                       (connectPreviousPreviousFreeEntry s) s) }
                     else Some (p, s));
          Some (chunks, updateMemoryPoolStatistics (sweepFreeBytes s) (sweepFreeHoles s) (sp_largestFreeEntry s) p, s) })"

definition connectAllChunks :: "nat \<Rightarrow> sweep_heap \<Rightarrow> sweep_heap option" where
  "connectAllChunks totalChunkCount = (\<lambda>(chunks, p, s).
     do { h \<leftarrow> foldO (\<lambda>i h. do { assert_MM (i < length (fst h)); connectChunk i h }) [0..<totalChunkCount]
                (chunks, p, initializeForSweep s);
          h \<leftarrow> flushFinalChunk h;
          connectFinalChunk h })"

section \<open>The workers\<close>

text \<open>
  One round of \<open>sweepAllChunks\<close>; the flag says that the worker has swept a chunk before (its
  \<open>prevChunk\<close>).
\<close>

type_synonym worker = "bool \<times> ParallelSweepChunk list \<times> pool \<times> FreeEntrySizeClassStats"

definition sweep_one :: "SweepScheme \<Rightarrow> (nat \<Rightarrow> bool) \<Rightarrow> nat \<Rightarrow> worker \<Rightarrow> worker option" where
  "sweep_one ss handleNextWorkUnit chunkNum = (\<lambda>(started, chunks, p, es).
     do { assert_MM (chunkNum < length chunks);
          (if handleNextWorkUnit chunkNum then
             do { es \<leftarrow> (if started then Some es else initializeFrequentAllocation (largeObjectAllocateStats p) es);
                  (_, c, p, es) \<leftarrow> sweepChunk ss (chunks ! chunkNum, p, es);
                  Some (True, chunks[chunkNum := c], p, es) }
           else Some (started, chunks, p, es)) })"

definition sweepAllChunks ::
  "SweepScheme \<Rightarrow> (nat \<Rightarrow> bool) \<Rightarrow> nat \<Rightarrow> ParallelSweepChunk list \<times> pool \<times> FreeEntrySizeClassStats
    \<Rightarrow> (ParallelSweepChunk list \<times> pool \<times> FreeEntrySizeClassStats) option" where
  "sweepAllChunks ss handleNextWorkUnit totalChunkCount = (\<lambda>(chunks, p, es).
     do { (started, chunks, p, es) \<leftarrow> foldO (sweep_one ss handleNextWorkUnit) [0..<totalChunkCount] (False, chunks, p, es);
          (if started then
             (let los = largeObjectAllocateStats p
              in do { (s, es) \<leftarrow> mergeLocked es (freeEntrySizeClassStats los);
                      Some (chunks, p \<lparr> largeObjectAllocateStats := los \<lparr> freeEntrySizeClassStats := s \<rparr> \<rparr>, es) })
           else Some (chunks, p, es)) })"

text \<open>\<open>MM_ParallelSweepTask\<close>: \<open>setup\<close> clears a worker's statistics, \<open>run\<close> sweeps its chunks.\<close>

fun run_workers :: "SweepScheme \<Rightarrow> ((nat \<Rightarrow> bool) \<times> FreeEntrySizeClassStats) list \<Rightarrow> nat
    \<Rightarrow> ParallelSweepChunk list \<times> pool \<Rightarrow> (ParallelSweepChunk list \<times> pool) option" where
  "run_workers ss [] totalChunkCount h = Some h"
| "run_workers ss ((handleNextWorkUnit, es) # workers) totalChunkCount (chunks, p) =
     do { (chunks, p, _) \<leftarrow> sweepAllChunks ss handleNextWorkUnit totalChunkCount (chunks, p, resetCounts es);
          run_workers ss workers totalChunkCount (chunks, p) }"

section \<open>Dividing the heap into chunks\<close>

text \<open>
  \<open>reassignChunks\<close>: one committed region from \<open>base\<close> to \<open>high\<close>; \<open>n\<close> is how many chunks the
  sectioning iterator can still provide, \<open>previous\<close> the number of the previous chunk.
\<close>

fun reassign_region :: "nat \<Rightarrow> nat \<Rightarrow> addr \<Rightarrow> addr \<Rightarrow> addr \<Rightarrow> nat option \<Rightarrow> ParallelSweepChunk list option" where
  "reassign_region parSweepChunkSize n low base high previous =
     (if base < high then
        (case n of 0 \<Rightarrow> None
         | Suc n \<Rightarrow>
             (let top1 = (if usub high base < parSweepChunkSize then high else uadd base parSweepChunkSize);
                  top1 = (if high < top1 then high else top1);
                  k = (case previous of None \<Rightarrow> 0 | Some j \<Rightarrow> j + 1)
              in do { cs \<leftarrow> reassign_region parSweepChunkSize n low top1 high (Some k);
                      Some (new_chunk \<lparr> chunkBase := base, chunkTop := top1, coalesceCandidate := (base \<noteq> low),
                                        ck_previous := previous,
                                        ck_next := (if cs = [] then None else Some (k + 1)) \<rparr> # cs) }))
      else Some [])"

declare reassign_region.simps [simp del]

definition reassignChunks :: "nat \<Rightarrow> nat \<Rightarrow> addr \<times> addr \<Rightarrow> ParallelSweepChunk list option" where
  "reassignChunks parSweepChunkSize available region =
     reassign_region parSweepChunkSize available (fst region) (fst region) (snd region) None"

definition calculateActualChunkNumbers :: "nat \<Rightarrow> addr \<times> addr \<Rightarrow> nat" where
  "calculateActualChunkNumbers parSweepChunkSize region =
     roundToCeiling parSweepChunkSize (usub (snd region) (fst region)) div parSweepChunkSize"

text \<open>\<open>internalSweep\<close>: the master prepares the chunks, the workers sweep, the master connects.\<close>

definition internalSweep :: "SweepScheme \<Rightarrow> ((nat \<Rightarrow> bool) \<times> FreeEntrySizeClassStats) list \<Rightarrow> nat \<Rightarrow> nat \<Rightarrow> addr \<times> addr
    \<Rightarrow> pool \<times> SweepPoolState \<Rightarrow> sweep_heap option" where
  "internalSweep ss workers parSweepChunkSize available region = (\<lambda>(p, s).
     (let p = p \<lparr> largestFreeEntry := 0 \<rparr>
      in do { chunks \<leftarrow> reassignChunks parSweepChunkSize available region;
              (let chunksPrepared = length chunks
               in do { (chunks, p) \<leftarrow> run_workers ss workers chunksPrepared (chunks, p);
                       connectAllChunks chunksPrepared (chunks, p, s) }) }))"

end
