(* ===== verification/Connect_List.thy ===== *)
theory Connect_List
  imports Sweep_Result Sweep_Connect Pool_Contract
begin

text \<open>
  The list that connecting the chunks builds.  The header of its last entry is written only when
  the next entry is known, so memory holds all entries but the last (\<open>linked\<close>); the local
  variables of \<open>connectChunk\<close> hold the last one.
\<close>

section \<open>A list whose last entry is pending\<close>

definition last_size :: "entry list \<Rightarrow> nat" where
  "last_size xs = (if xs = [] then 0 else snd (last xs))"

definition linked :: "mem \<Rightarrow> addr \<Rightarrow> entry list \<Rightarrow> bool" where
  "linked m h xs \<longleftrightarrow> h = head_addr xs \<and> (xs \<noteq> [] \<longrightarrow> lseg m h (butlast xs) (last_addr xs))"

lemma last_size_snoc [simp]: "last_size (xs @ [e]) = snd e"
  by (simp add: last_size_def)

lemma wf_size_bound:
  assumes "entries_wf mn xs" "\<forall>e \<in> set xs. fst e + snd e \<le> hi"
  shows "entries_size xs \<le> hi" "length xs \<le> hi"
  using entries_size_range [OF assms(1), of 0 hi] assms(2) length_le_size [OF assms(1)] by fastforce+

lemma head_addr_pos: "entries_wf mn xs \<Longrightarrow> xs \<noteq> [] \<Longrightarrow> 0 < head_addr xs"
  by (cases xs) (auto simp: entries_wf_simps dest: entry_okD)

lemma linked_frame:
  assumes "linked m h xs" "entries_wf mn xs" "\<forall>e \<in> set (butlast xs). fst e + snd e \<le> lo" "\<forall>w < lo. m' w = m w"
  shows "linked m' h xs"
proof -
  have "lseg m' h (butlast xs) q = lseg m h (butlast xs) q" for q
  proof (rule lseg_frame)
    fix e assume e: "e \<in> set (butlast xs)"
    then have "16 \<le> snd e" using assms(2) by (metis in_set_butlastD wf_sizes)
    moreover have "fst e + snd e \<le> lo" using assms(3) e by simp
    ultimately show "m' (fst e) = m (fst e) \<and> m' (fst e + 8) = m (fst e + 8)" using assms(4) by simp
  qed
  then show ?thesis using assms(1) by (auto simp: linked_def)
qed

text \<open>Closing the last entry: it gets its header, with a link to the next one.\<close>

lemma connectOuter_spec:
  fixes p :: pool
  assumes l: "linked (mem p) (heapFreeList p) xs" and wf: "entries_wf (minimumFreeEntrySize p) xs"
    and q: "4 dvd q" "q < UMAX" "q \<noteq> NULL" and le: "\<forall>e \<in> set xs. fst e + snd e \<le> q"
  defines "h \<equiv> (if xs = [] then q else heapFreeList p)"
  shows "\<exists>m'. connectOuterMemoryToPool (last_addr xs) (last_size xs) q p = Some (p \<lparr> mem := m', heapFreeList := h \<rparr>) \<and>
    lseg m' h xs q \<and> agree_outside 0 q (mem p) m'"
proof (cases xs rule: rev_cases)
  case Nil
  have "fillWithSingleSlotHoles NULL 0 m = Some m" for m by (subst fillWithSingleSlotHoles.simps) simp
  then have "internalRecycleHeapChunk NULL NULL q p = Some (False, p)"
    by (simp add: internalRecycleHeapChunk_def fillWithHoles_def usub_def)
  then have "connectOuterMemoryToPool (last_addr xs) (last_size xs) q p = Some (p \<lparr> heapFreeList := q \<rparr>)"
    using Nil l q by (simp add: connectOuterMemoryToPool_def last_addr_def last_size_def createFreeEntry_def linked_def head_addr_def uadd_def)
  then show ?thesis using Nil by (intro exI [of _ "mem p"]) (simp add: h_def)
next
  case (snoc ys e)
  let ?mn = "minimumFreeEntrySize p"
  have e: "entry_ok ?mn e" "entries_wf ?mn ys" "\<forall>f \<in> set ys. fst f + snd f \<le> fst e"
    using wf snoc by (auto simp: entries_wf_simps before_def)
  note eo = entry_okD [OF e(1)]
  have eq: "fst e + snd e \<le> q" using le snoc by simp
  from internalRecycleHeapChunk_spec [OF eo(5,8,2), of q p] q eq eo obtain m' where
    r: "internalRecycleHeapChunk (fst e) (fst e + snd e) q p = Some (True, p \<lparr> mem := m' \<rparr>)"
    and ag: "agree_outside (fst e) (fst e + snd e) (mem p) m'" and h: "getSize m' (fst e) = snd e" "getNext m' (fst e) = q" by auto
  have nn: "heapFreeList p \<noteq> NULL" using l wf snoc head_addr_pos [OF wf] by (simp add: linked_def)
  have "uadd (fst e) (snd e) = fst e + snd e" using eo by (simp add: uadd_exact)
  then have "connectOuterMemoryToPool (last_addr xs) (last_size xs) q p = Some (p \<lparr> mem := m' \<rparr>)"
    using snoc r eo eq nn by (simp add: connectOuterMemoryToPool_def createFreeEntry_def)
  moreover have "lseg m' (heapFreeList p) xs q"
  proof -
    have "apart (fst e) (fst e + snd e) ys" using e(3) by (auto simp: apart_def)
    then have "lseg m' (heapFreeList p) ys (fst e)" using l snoc lseg_agree [OF ag _ e(2)] unfolding linked_def by auto
    then show ?thesis using snoc h eo by (auto simp: lseg_append)
  qed
  moreover have "agree_outside 0 q (mem p) m'" using ag eq by (auto simp: agree_outside_def)
  ultimately show ?thesis using snoc by (intro exI [of _ m']) (simp add: h_def)
qed

section \<open>The variables of \<open>connectChunk\<close>\<close>

text \<open>
  The pool during the connection, with \<open>k\<close> entries still to come from the chunks' own lists (they
  are counted already), and the counters of the sweep state.
\<close>

definition conn_pool :: "pool \<Rightarrow> nat \<Rightarrow> entry list \<Rightarrow> pool \<Rightarrow> bool" where
  "conn_pool p0 k xs p \<longleftrightarrow> linked (mem p) (heapFreeList p) xs \<and> entries_wf (minimumFreeEntrySize p0) xs \<and>
     minimumFreeEntrySize p = minimumFreeEntrySize p0 \<and> same_geometry p0 p \<and> hintActive p = hintActive p0 \<and> hintInactive p = hintInactive p0 \<and>
     stats_ready (largeObjectAllocateStats p) \<and>
     total_count (freeEntrySizeClassStats (largeObjectAllocateStats p)) = of_nat (k + length xs)"

lemma count_geometry:
  "incrementFreeEntrySizeClassStats n los = Some (los', ret) \<Longrightarrow>
    logSizeClass los' = logSizeClass los \<and> tlhAllocSizeClassStats los' = tlhAllocSizeClassStats los"
  "decrementFreeEntrySizeClassStats n los = Some los' \<Longrightarrow>
    logSizeClass los' = logSizeClass los \<and> tlhAllocSizeClassStats los' = tlhAllocSizeClassStats los"
  by (auto simp: count_unfold)

definition conn_state :: "entry list \<Rightarrow> SweepPoolState \<Rightarrow> bool" where
  "conn_state xs s \<longleftrightarrow> sweepFreeBytes s = entries_size xs \<and> sweepFreeHoles s = length xs \<and> sp_largestFreeEntry s = search_size 0 xs"

definition conn :: "pool \<Rightarrow> nat \<Rightarrow> entry list \<Rightarrow> Connect \<Rightarrow> bool" where
  "conn p0 k xs cn \<longleftrightarrow> conn_pool p0 k xs (cn_pool cn) \<and> conn_state xs (cn_state cn) \<and>
     previousFreeEntry cn = last_addr xs \<and> previousFreeEntrySize cn = last_size xs \<and>
     previousPreviousFreeEntry cn = last_addr (butlast xs)"

text \<open>What the steps leave alone.\<close>

definition same_chunk :: "Connect \<Rightarrow> Connect \<Rightarrow> bool" where
  "same_chunk cn cn' \<longleftrightarrow> cn_chunk cn' = cn_chunk cn \<and> leadingFreeEntry cn' = leadingFreeEntry cn \<and>
     leadingFreeEntrySize cn' = leadingFreeEntrySize cn"

lemma largest_snoc:
  "sp_largestFreeEntry s = search_size 0 xs \<Longrightarrow> sp_largestFreeEntry (sp_updateLargestFreeEntry n a s) = search_size 0 (xs @ [(b, n)])"
  by (simp add: sp_updateLargestFreeEntry_def search_size_snoc max_def)

lemma updateLargest_keeps [simp]:
  "sweepFreeBytes (sp_updateLargestFreeEntry n a s) = sweepFreeBytes s" "sweepFreeHoles (sp_updateLargestFreeEntry n a s) = sweepFreeHoles s"
  by (simp_all add: sp_updateLargestFreeEntry_def)

lemma connect_entry_spec:
  assumes c: "conn p0 k xs cn" and e: "entry_ok (minimumFreeEntrySize p0) (a, n)" and le: "\<forall>e \<in> set xs. fst e + snd e \<le> a"
  shows "\<exists>cn'. connect_entry a n cn = Some cn' \<and> conn p0 k (xs @ [(a, n)]) cn' \<and> same_chunk cn cn' \<and>
    agree_outside 0 a (mem (cn_pool cn)) (mem (cn_pool cn'))"
proof -
  let ?p = "cn_pool cn" and ?s = "cn_state cn"
  have cp: "linked (mem ?p) (heapFreeList ?p) xs" "entries_wf (minimumFreeEntrySize ?p) xs" "stats_ready (largeObjectAllocateStats ?p)"
    "total_count (freeEntrySizeClassStats (largeObjectAllocateStats ?p)) = of_nat (k + length xs)"
    "minimumFreeEntrySize ?p = minimumFreeEntrySize p0" "hintActive ?p = hintActive p0" "hintInactive ?p = hintInactive p0" "same_geometry p0 ?p"
    and cs: "sweepFreeBytes ?s = entries_size xs" "sweepFreeHoles ?s = length xs" "sp_largestFreeEntry ?s = search_size 0 xs"
    and pr: "previousFreeEntry cn = last_addr xs" "previousFreeEntrySize cn = last_size xs"
    using c by (auto simp: conn_def conn_pool_def conn_state_def)
  note eo = entry_okD [OF e, simplified]
  from connectOuter_spec [OF cp(1,2), of a] eo le obtain m' h where
    o: "connectOuterMemoryToPool (last_addr xs) (last_size xs) a ?p = Some (?p \<lparr> mem := m', heapFreeList := h \<rparr>)"
      "lseg m' h xs a" "agree_outside 0 a (mem ?p) m'" "h = (if xs = [] then a else heapFreeList ?p)" by auto
  from increment_ready [OF cp(3), of n] eo obtain los ret where
    i: "incrementFreeEntrySizeClassStats n (largeObjectAllocateStats ?p) = Some (los, ret)" "stats_ready los"
      "total_count (freeEntrySizeClassStats los) = of_nat (k + length xs) + 1" using cp(4) by auto
  define cn' where "cn' = cn \<lparr> previousPreviousFreeEntry := last_addr xs, previousFreeEntry := a, previousFreeEntrySize := n,
    cn_pool := ?p \<lparr> mem := m', heapFreeList := h, largeObjectAllocateStats := los \<rparr>,
    cn_state := sp_updateLargestFreeEntry n (last_addr xs) (count_free n ?s) \<rparr>"
  have "connect_entry a n cn = Some cn'"
    using o(1) i(1) pr eo by (simp add: connect_entry_def incrementStats_def cn'_def)
  moreover have "conn p0 k (xs @ [(a, n)]) cn'"
  proof -
    have wf: "entries_wf (minimumFreeEntrySize p0) (xs @ [(a, n)])"
      using cp(2,5) e le by (auto simp: entries_wf_simps before_def)
    have lk: "linked m' h (xs @ [(a, n)])" using o(2,4) cp(1) by (auto simp: linked_def head_addr_def)
    have "entries_size xs \<le> a" "length xs \<le> a" using wf_size_bound [OF cp(2) le] by auto
    then have u: "uadd (entries_size xs) n = entries_size xs + n" "uadd (length xs) (Suc 0) = Suc (length xs)"
      using eo by (auto intro!: uadd_exact simp: uadd_def)
    have "conn_state (xs @ [(a, n)]) (sp_updateLargestFreeEntry n (last_addr xs) (count_free n ?s))"
      using cs u by (simp add: conn_state_def count_free_def largest_snoc)
    moreover have "conn_pool p0 k (xs @ [(a, n)]) (?p \<lparr> mem := m', heapFreeList := h, largeObjectAllocateStats := los \<rparr>)"
      using lk wf cp(5-8) i(2,3) count_geometry(1) [OF i(1)] by (simp add: conn_pool_def same_geometry_def)
    ultimately show ?thesis by (simp add: conn_def cn'_def)
  qed
  ultimately show ?thesis using o(3) by (intro exI [of _ cn']) (simp add: cn'_def same_chunk_def)
qed

text \<open>The last entry grows by the leading range of the next chunk.\<close>

lemma connect_previous_grows:
  assumes c: "conn p0 k (xs @ [(a, n)]) cn" and e: "entry_ok (minimumFreeEntrySize p0) (a, n + leadingFreeEntrySize cn)"
    and l: "leadingFreeEntry cn = a + n" and prev: "ck_memoryPool prev = ck_memoryPool (cn_chunk cn)" "coalesceCandidate (cn_chunk cn)"
  shows "\<exists>cn'. connect_previous (Some prev) cn = Some cn' \<and> conn p0 k (xs @ [(a, n + leadingFreeEntrySize cn)]) cn' \<and>
    same_chunk (cn \<lparr> leadingFreeEntry := NULL \<rparr>) cn' \<and> mem (cn_pool cn') = mem (cn_pool cn)"
proof -
  let ?p = "cn_pool cn" and ?s = "cn_state cn" and ?n = "n + leadingFreeEntrySize cn"
  have cp: "linked (mem ?p) (heapFreeList ?p) (xs @ [(a, n)])" "entries_wf (minimumFreeEntrySize p0) (xs @ [(a, n)])"
      "stats_ready (largeObjectAllocateStats ?p)"
      "total_count (freeEntrySizeClassStats (largeObjectAllocateStats ?p)) = of_nat (k + Suc (length xs))"
    and cs: "sweepFreeBytes ?s = entries_size xs + n" "sweepFreeHoles ?s = Suc (length xs)" "sp_largestFreeEntry ?s = search_size 0 (xs @ [(a, n)])"
    and pr: "previousFreeEntry cn = a" "previousFreeEntrySize cn = n" "previousPreviousFreeEntry cn = last_addr xs"
    using c by (auto simp: conn_def conn_pool_def conn_state_def)
  note eo = entry_okD [OF e, simplified]
  have n: "0 < n" "n < UMAX" "entries_wf (minimumFreeEntrySize p0) xs" "\<forall>e \<in> set xs. fst e + snd e \<le> a"
    using cp(2) by (auto simp: entries_wf_simps before_def dest: entry_okD)
  from decrement_ready [OF cp(3) n(1,2)] obtain los1 where
    d: "decrementFreeEntrySizeClassStats n (largeObjectAllocateStats ?p) = Some los1" "stats_ready los1"
      "total_count (freeEntrySizeClassStats los1) = of_nat (k + length xs)" using cp(4) by (auto simp: algebra_simps)
  from increment_ready [OF d(2), of ?n] eo n(1) obtain los2 ret where
    i: "incrementFreeEntrySizeClassStats ?n los1 = Some (los2, ret)" "stats_ready los2"
      "total_count (freeEntrySizeClassStats los2) = of_nat (k + length xs) + 1" using d(3) by auto
  have sz: "entries_size xs \<le> a" using wf_size_bound [OF n(3,4)] by simp
  have u: "uadd a n = a + n" "uadd n (leadingFreeEntrySize cn) = ?n"
    "uadd (entries_size xs + n) (leadingFreeEntrySize cn) = entries_size xs + ?n"
    using eo sz by (simp_all add: uadd_exact add.assoc)
  define cn' where "cn' = cn \<lparr> previousFreeEntrySize := ?n, cn_pool := ?p \<lparr> largeObjectAllocateStats := los2 \<rparr>,
    cn_state := sp_updateLargestFreeEntry ?n (last_addr xs) (?s \<lparr> sweepFreeBytes := entries_size xs + ?n \<rparr>), leadingFreeEntry := NULL \<rparr>"
  have "connect_previous (Some prev) cn = Some cn'"
    using d(1) i(1) prev l eo u cs(1) pr by (simp add: connect_previous_def decrementStats_def incrementStats_def cn'_def Let_def)
  moreover have "conn p0 k (xs @ [(a, ?n)]) cn'"
  proof -
    have wf: "entries_wf (minimumFreeEntrySize p0) (xs @ [(a, ?n)])" using n e by (auto simp: entries_wf_simps before_def)
    have lk: "linked (mem ?p) (heapFreeList ?p) (xs @ [(a, ?n)])" using cp(1) unfolding linked_def by (cases "xs = []") (auto simp: head_addr_def hd_append)
    have "search_size 0 (xs @ [(a, ?n)]) = max (search_size 0 (xs @ [(a, n)])) ?n" by (simp add: search_size_snoc)
    then have "conn_state (xs @ [(a, ?n)]) (cn_state cn')"
      using cs by (simp add: conn_state_def cn'_def sp_updateLargestFreeEntry_def max_def)
    moreover have "conn_pool p0 k (xs @ [(a, ?n)]) (cn_pool cn')"
      using lk wf i(2,3) c count_geometry(1) [OF i(1)] count_geometry(2) [OF d(1)] by (simp add: conn_pool_def conn_def cn'_def same_geometry_def)
    ultimately show ?thesis using pr by (simp add: conn_def cn'_def)
  qed
  ultimately show ?thesis by (intro exI [of _ cn']) (simp add: cn'_def same_chunk_def)
qed

lemma search_size_from: "search_size c ys = max c (search_size 0 ys)"
proof (induction ys rule: rev_induct)
  case (snoc e ys)
  then show ?case by (simp add: search_size_snoc)
qed (simp add: search_size_def)

lemma search_size_append: "search_size 0 (xs @ ys) = max (search_size 0 xs) (search_size 0 ys)"
  by (metis search_size_from foldl_append map_append search_size_def)

lemma last_addr_append: "last_addr (xs @ ys) = (if ys = [] then last_addr xs else last_addr ys)"
  by (simp add: last_addr_def)

text \<open>The chunk's own list is appended as a whole.\<close>

definition chunk_list :: "entry list \<Rightarrow> ParallelSweepChunk \<Rightarrow> bool" where
  "chunk_list zs c \<longleftrightarrow> freeListHead c = head_addr zs \<and> freeListTail c = last_addr zs \<and> freeListTailSize c = last_size zs \<and>
     previousFreeListTail c = last_addr (butlast zs) \<and> freeBytes c = entries_size zs \<and> freeHoles c = length zs \<and>
     ck_largestFreeEntry c = search_size 0 zs"

lemma connect_inner_spec:
  assumes c: "conn p0 (k + length zs) xs cn" and l: "chunk_list zs (cn_chunk cn)" and wf: "entries_wf (minimumFreeEntrySize p0) (xs @ zs)"
    and ch: "chain (mem (cn_pool cn)) (head_addr zs) zs" and hi: "\<forall>e \<in> set (xs @ zs). fst e + snd e \<le> hi" "hi < UMAX"
  shows "\<exists>cn'. connect_inner cn = Some cn' \<and> conn p0 k (xs @ zs) cn' \<and> cn_chunk cn' = cn_chunk cn \<and>
    agree_outside 0 hi (mem (cn_pool cn)) (mem (cn_pool cn'))"
proof (cases "zs = []")
  case True
  then show ?thesis using c l by (simp add: connect_inner_def chunk_list_def)
next
  case False
  let ?p = "cn_pool cn" and ?s = "cn_state cn" and ?c = "cn_chunk cn"
  have cp: "linked (mem ?p) (heapFreeList ?p) xs" "entries_wf (minimumFreeEntrySize ?p) xs" "stats_ready (largeObjectAllocateStats ?p)"
    "total_count (freeEntrySizeClassStats (largeObjectAllocateStats ?p)) = of_nat (k + length zs + length xs)"
    "minimumFreeEntrySize ?p = minimumFreeEntrySize p0" "hintActive ?p = hintActive p0" "hintInactive ?p = hintInactive p0" "same_geometry p0 ?p"
    and cs: "sweepFreeBytes ?s = entries_size xs" "sweepFreeHoles ?s = length xs" "sp_largestFreeEntry ?s = search_size 0 xs"
    and pr: "previousFreeEntry cn = last_addr xs" "previousFreeEntrySize cn = last_size xs"
    using c by (auto simp: conn_def conn_pool_def conn_state_def)
  have wz: "entries_wf (minimumFreeEntrySize p0) zs" and le: "\<forall>e \<in> set xs. fst e + snd e \<le> head_addr zs"
    using wf False by (auto simp: entries_wf_simps before_def head_addr_def)
  note hz = head_addr_ok [OF wz] head_addr_pos [OF wz False]
  from connectOuter_spec [OF cp(1,2) hz(1,2) _ le] hz(3) obtain m' h where
    o: "connectOuterMemoryToPool (last_addr xs) (last_size xs) (head_addr zs) ?p = Some (?p \<lparr> mem := m', heapFreeList := h \<rparr>)"
      "lseg m' h xs (head_addr zs)" "agree_outside 0 (head_addr zs) (mem ?p) m'" "h = (if xs = [] then head_addr zs else heapFreeList ?p)" by auto
  have lt: "last_addr xs < head_addr zs" using last_addr_less [OF cp(2) _ le] hz(3) by (cases "xs = []") auto
  have ap: "apart 0 (head_addr zs) zs"
    using wz False by (cases zs) (auto simp: apart_def entries_wf_simps before_def)
  have ch': "chain m' (head_addr zs) zs" using ch lseg_agree [OF o(3) ap wz] by simp
  have nz: "freeBytes ?c \<noteq> 0" using l False wz length_le_size [OF wz] by (cases zs) (auto simp: chunk_list_def)
  have b: "entries_size (xs @ zs) < UMAX" "length (xs @ zs) < UMAX" using wf_size_bound [OF wf hi(1)] hi(2) by linarith+
  have u: "uadd (entries_size xs) (entries_size zs) = entries_size xs + entries_size zs" "uadd (length xs) (length zs) = length xs + length zs"
    using b by (simp_all add: uadd_exact)
  define s' where "s' = (updateLargestFreeEntryInChunk ?c (last_addr xs) ?s)
    \<lparr> sweepFreeBytes := entries_size (xs @ zs), sweepFreeHoles := length (xs @ zs) \<rparr>"
  define cn' where "cn' = cn \<lparr> previousPreviousFreeEntry := last_addr (butlast (xs @ zs)), previousFreeEntry := last_addr zs,
    previousFreeEntrySize := last_size zs, cn_pool := ?p \<lparr> mem := m', heapFreeList := h \<rparr>, cn_state := s' \<rparr>"
  have pp: "last_addr (butlast (xs @ zs)) = (if last_addr (butlast zs) = NULL then last_addr xs else last_addr (butlast zs))"
  proof -
    have "entries_wf (minimumFreeEntrySize p0) (butlast zs)" using wz by (cases zs rule: rev_cases) (auto simp: entries_wf_simps)
    from last_addr_NULL [OF this] show ?thesis using False by (simp add: butlast_append last_addr_append)
  qed
  have keep: "sweepFreeBytes (updateLargestFreeEntryInChunk c a s) = sweepFreeBytes s" "sweepFreeHoles (updateLargestFreeEntryInChunk c a s) = sweepFreeHoles s" for c a s
    by (simp_all add: updateLargestFreeEntryInChunk_def)
  have "connect_inner cn = Some cn'"
    using l lt o(1) pr cs nz u hz(3) pp by (simp add: connect_inner_def chunk_list_def Let_def keep cn'_def s'_def)
  moreover have "conn p0 k (xs @ zs) cn'"
  proof -
    have "linked m' h (xs @ zs)"
    proof -
      obtain zs' e where zs: "zs = zs' @ [e]" using False by (cases zs rule: rev_cases) auto
      then have "lseg m' (head_addr zs) zs' (fst e)" using ch' by (auto simp: lseg_append)
      then have "lseg m' h (butlast (xs @ zs)) (last_addr (xs @ zs))" using o(2) zs by (auto simp: lseg_append butlast_append last_addr_append)
      moreover have "h = head_addr (xs @ zs)" using o(4) cp(1) by (simp add: linked_def head_addr_def)
      ultimately show ?thesis by (simp add: linked_def)
    qed
    then have "conn_pool p0 k (xs @ zs) (cn_pool cn')" using wf cp by (simp add: conn_pool_def cn'_def ac_simps same_geometry_def)
    moreover have "sp_largestFreeEntry s' = search_size 0 (xs @ zs)"
      using cs(3) l by (simp add: s'_def updateLargestFreeEntryInChunk_def chunk_list_def search_size_append max_def)
    then have "conn_state (xs @ zs) (cn_state cn')" by (simp add: conn_state_def cn'_def s'_def)
    ultimately show ?thesis using False by (simp add: conn_def cn'_def last_addr_append last_size_def)
  qed
  moreover have "head_addr zs \<le> hi" using hi(1) False by (cases zs) auto
  then have "agree_outside 0 hi (mem ?p) m'" using o(3) by (auto simp: agree_outside_def)
  ultimately show ?thesis by (intro exI [of _ cn']) (simp add: cn'_def)
qed

text \<open>A range that is too small is filled with holes.\<close>

lemma abandon_spec:
  assumes c: "conn p0 k xs cn" and a: "0 < a" "8 dvd n" "a + n < UMAX" "n < minimumFreeEntrySize p0" and le: "\<forall>e \<in> set xs. fst e + snd e \<le> a"
  shows "\<exists>m'. abandonMemoryInPool a n (cn_pool cn) = Some ((cn_pool cn) \<lparr> mem := m' \<rparr>) \<and>
    conn p0 k xs (cn \<lparr> cn_pool := (cn_pool cn) \<lparr> mem := m' \<rparr> \<rparr>) \<and> agree_outside a (a + n) (mem (cn_pool cn)) m'"
proof -
  have cp: "linked (mem (cn_pool cn)) (heapFreeList (cn_pool cn)) xs" "entries_wf (minimumFreeEntrySize p0) xs"
    "minimumFreeEntrySize (cn_pool cn) = minimumFreeEntrySize p0" using c by (auto simp: conn_def conn_pool_def)
  from internalRecycleHeapChunk_spec [OF a(2,3), of NULL "cn_pool cn"] a(1,4) cp(3) obtain m' where
    m': "internalRecycleHeapChunk a (a + n) NULL (cn_pool cn) = Some (False, (cn_pool cn) \<lparr> mem := m' \<rparr>)"
      "agree_outside a (a + n) (mem (cn_pool cn)) m'" by auto
  have "linked m' (heapFreeList (cn_pool cn)) xs"
    by (rule linked_frame [OF cp(1,2), of a]) (use le m'(2) in \<open>auto simp: agree_outside_def dest: in_set_butlastD\<close>)
  then have "conn p0 k xs (cn \<lparr> cn_pool := (cn_pool cn) \<lparr> mem := m' \<rparr> \<rparr>)" using c by (simp add: conn_def conn_pool_def same_geometry_def)
  moreover have "uadd a n = a + n" using a by (simp add: uadd_exact)
  ultimately show ?thesis using m' by (intro exI [of _ m']) (simp add: abandonMemoryInPool_def abandonHeapChunk_def)
qed

end
