(* ===== verification/Connect_Step.thy ===== *)
theory Connect_Step
  imports Connect_List
begin

text \<open>
  One step of the connection: the free range that ends the chunks connected so far, from the end
  of the last object to the top of the last chunk, is joined with the leading range of the next.
\<close>

section \<open>The range still open\<close>

definition prev_projection :: "ParallelSweepChunk option \<Rightarrow> nat" where
  "prev_projection prev = (case prev of None \<Rightarrow> 0 | Some c \<Rightarrow> projection c)"

definition prev_trailing :: "ParallelSweepChunk option \<Rightarrow> entry" where
  "prev_trailing prev = (case prev of None \<Rightarrow> (NULL, 0) | Some c \<Rightarrow> (trailingFreeCandidate c, trailingFreeCandidateSize c))"

text \<open>
  \<open>s\<close> is the end of the last object, \<open>T\<close> the top of the last chunk, \<open>ys\<close> the entries below \<open>s\<close> and \<open>xs\<close>
  the list built so far: the last object reaches beyond the chunk, or the range is the trailing
  candidate of the chunk, or it is already the last entry of the list.
\<close>

definition open_gap :: "nat \<Rightarrow> ParallelSweepChunk option \<Rightarrow> addr \<Rightarrow> addr \<Rightarrow> entry list \<Rightarrow> entry list \<Rightarrow> bool" where
  "open_gap mn prev s T ys xs \<longleftrightarrow> (\<forall>e \<in> set ys. fst e + snd e < s \<and> fst e + snd e \<le> T) \<and>
     (T < s \<and> prev_projection prev = s - T \<and> prev_trailing prev = (NULL, 0) \<and> xs = ys \<or>
      s \<le> T \<and> prev_projection prev = 0 \<and> xs = ys \<and>
        (prev_trailing prev = (s, T - s) \<and> (\<forall>c. prev = Some c \<longrightarrow> leadingFreeCandidate c \<noteq> s) \<or> s = T \<and> prev_trailing prev = (NULL, 0)) \<or>
      s < T \<and> prev \<noteq> None \<and> prev_projection prev = 0 \<and> prev_trailing prev = (NULL, 0) \<and> mn \<le> T - s \<and> xs = ys @ [(s, T - s)])"

definition facing :: "ParallelSweepChunk option \<Rightarrow> ParallelSweepChunk \<Rightarrow> bool" where
  "facing prev c \<longleftrightarrow> (\<forall>c'. prev = Some c' \<longrightarrow> ck_memoryPool c' = ck_memoryPool c \<and> coalesceCandidate c)"

definition entry_if :: "nat \<Rightarrow> addr \<Rightarrow> addr \<Rightarrow> entry list" where
  "entry_if mn s e = (if mn \<le> e - s then [(s, e - s)] else [])"

definition connect_outer :: "ParallelSweepChunk option \<Rightarrow> Connect \<Rightarrow> Connect option" where
  "connect_outer prev cn =
     do { cn \<leftarrow> connect_previous prev (connect_projection (prev_projection prev) cn);
          cn \<leftarrow> connect_trailing prev cn;
          connect_leading cn }"

section \<open>Steps that do nothing\<close>

lemma connect_previous_skip:
  assumes "conn p0 k xs cn" "\<forall>e \<in> set xs. fst e + snd e \<noteq> leadingFreeEntry cn"
  shows "connect_previous prev cn = Some cn"
proof (cases xs rule: rev_cases)
  case Nil
  then show ?thesis using assms(1) by (simp add: connect_previous_def conn_def)
next
  case (snoc ys e)
  have "entry_ok (minimumFreeEntrySize p0) e" using assms(1) snoc by (auto simp: conn_def conn_pool_def entries_wf_simps)
  note eo = entry_okD [OF this]
  then have "uadd (fst e) (snd e) = fst e + snd e" by (simp add: uadd_exact)
  then show ?thesis using assms snoc by (simp add: connect_previous_def conn_def)
qed

lemma connect_trailing_skip:
  assumes "prev_trailing prev = (NULL, 0)" "0 < minimumFreeEntrySize (cn_pool cn)"
  shows "connect_trailing prev cn = Some cn"
  using assms by (cases prev) (auto simp: connect_trailing_def prev_trailing_def canMemoryBeConnectedToPool_def uadd_def)

lemma connect_leading_skip: "leadingFreeEntry cn = NULL \<Longrightarrow> connect_leading cn = Some cn"
  by (simp add: connect_leading_def)

section \<open>Joining with the trailing candidate\<close>

lemma connect_trailing_joint:
  assumes c: "conn p0 k xs cn" and mn: "16 \<le> minimumFreeEntrySize p0" and le: "\<forall>e \<in> set xs. fst e + snd e \<le> s"
    and t: "prev_trailing prev = (s, T - s)" "prev \<noteq> None" and f: "facing prev (cn_chunk cn)"
    and l: "leadingFreeEntry cn = T" "leadingFreeEntrySize cn = e - T"
    and b: "s \<le> T" "T \<le> e" "0 < s" "8 dvd s" "8 dvd T" "8 dvd e" "e < UMAX"
  shows "\<exists>cn'. connect_trailing prev cn = Some cn' \<and> conn p0 k (xs @ entry_if (minimumFreeEntrySize p0) s e) cn' \<and>
    cn_chunk cn' = cn_chunk cn \<and> leadingFreeEntry cn' = NULL \<and> agree_outside 0 s (mem (cn_pool cn)) (mem (cn_pool cn'))"
proof -
  obtain c' where c': "prev = Some c'" "trailingFreeCandidate c' = s" "trailingFreeCandidateSize c' = T - s"
    using t by (auto simp: prev_trailing_def)
  have m: "minimumFreeEntrySize (cn_pool cn) = minimumFreeEntrySize p0" using c by (simp add: conn_def conn_pool_def)
  have u: "uadd s (T - s) = T" "uadd (e - T) (T - s) = e - s" using b by (simp_all add: uadd_exact)
  show ?thesis
  proof (cases "minimumFreeEntrySize p0 \<le> e - s")
    case True
    have "entry_ok (minimumFreeEntrySize p0) (s, e - s)" using True mn b by (simp add: entry_ok_def)
    from connect_entry_spec [OF c this le] obtain cn' where
      cn': "connect_entry s (e - s) cn = Some cn'" "conn p0 k (xs @ [(s, e - s)]) cn'" "same_chunk cn cn'"
        "agree_outside 0 s (mem (cn_pool cn)) (mem (cn_pool cn'))" by blast
    have "connect_trailing prev cn = Some (cn' \<lparr> leadingFreeEntry := NULL \<rparr>)"
      using c' l u f True m cn'(1) b by (simp add: connect_trailing_def facing_def canMemoryBeConnectedToPool_def)
    then show ?thesis using cn' True by (intro exI [of _ "cn' \<lparr> leadingFreeEntry := NULL \<rparr>"]) (simp add: conn_def same_chunk_def entry_if_def)
  next
    case False
    have "connect_trailing prev cn = Some (cn \<lparr> leadingFreeEntry := NULL \<rparr>)"
      using c' l u f False m b by (simp add: connect_trailing_def facing_def canMemoryBeConnectedToPool_def)
    then show ?thesis using c False by (intro exI [of _ "cn \<lparr> leadingFreeEntry := NULL \<rparr>"]) (simp add: conn_def entry_if_def)
  qed
qed

text \<open>The trailing candidate alone, when the next chunk starts with an object.\<close>

lemma connect_trailing_alone:
  assumes c: "conn p0 k xs cn" and mn: "16 \<le> minimumFreeEntrySize p0" and le: "\<forall>e \<in> set xs. fst e + snd e \<le> s"
    and t: "prev_trailing prev = (s, T - s)" "prev \<noteq> None" and l: "leadingFreeEntry cn = NULL"
    and b: "s \<le> T" "0 < s" "8 dvd s" "8 dvd T" "T < UMAX"
  shows "\<exists>cn'. connect_trailing prev cn = Some cn' \<and> conn p0 k (xs @ entry_if (minimumFreeEntrySize p0) s T) cn' \<and>
    cn_chunk cn' = cn_chunk cn \<and> leadingFreeEntry cn' = NULL \<and> agree_outside 0 s (mem (cn_pool cn)) (mem (cn_pool cn'))"
proof -
  obtain c' where c': "prev = Some c'" "trailingFreeCandidate c' = s" "trailingFreeCandidateSize c' = T - s"
    using t by (auto simp: prev_trailing_def)
  have m: "minimumFreeEntrySize (cn_pool cn) = minimumFreeEntrySize p0" using c by (simp add: conn_def conn_pool_def)
  show ?thesis
  proof (cases "minimumFreeEntrySize p0 \<le> T - s")
    case True
    have "entry_ok (minimumFreeEntrySize p0) (s, T - s)" using True mn b by (simp add: entry_ok_def)
    from connect_entry_spec [OF c this le] obtain cn' where
      cn': "connect_entry s (T - s) cn = Some cn'" "conn p0 k (xs @ [(s, T - s)]) cn'" "same_chunk cn cn'"
        "agree_outside 0 s (mem (cn_pool cn)) (mem (cn_pool cn'))" by blast
    have "connect_trailing prev cn = Some cn'"
      using c' l True m cn'(1) by (simp add: connect_trailing_def canMemoryBeConnectedToPool_def)
    then show ?thesis using cn' True l by (auto simp: same_chunk_def entry_if_def)
  next
    case False
    have "connect_trailing prev cn = Some cn"
      using c' l False m by (simp add: connect_trailing_def canMemoryBeConnectedToPool_def)
    then show ?thesis using c False l by (simp add: entry_if_def)
  qed
qed

text \<open>The leading range alone, when the last object ends at its start.\<close>

lemma connect_leading_closes:
  assumes c: "conn p0 k xs cn" and mn: "16 \<le> minimumFreeEntrySize p0" and le: "\<forall>f \<in> set xs. fst f + snd f \<le> s"
    and l: "leadingFreeEntry cn = s" "leadingFreeEntrySize cn = e - s"
    and b: "s \<le> e" "0 < s" "8 dvd s" "8 dvd e" "e < UMAX" "e \<noteq> chunkTop (cn_chunk cn)"
  shows "\<exists>cn'. connect_leading cn = Some cn' \<and> conn p0 k (xs @ entry_if (minimumFreeEntrySize p0) s e) cn' \<and>
    cn_chunk cn' = cn_chunk cn \<and> agree_outside 0 e (mem (cn_pool cn)) (mem (cn_pool cn'))"
proof -
  have m: "minimumFreeEntrySize (cn_pool cn) = minimumFreeEntrySize p0" "entries_wf (minimumFreeEntrySize p0) xs"
    "previousFreeEntry cn = last_addr xs" using c by (auto simp: conn_def conn_pool_def)
  have u: "uadd s (e - s) = e" using b by (simp add: uadd_exact)
  have lt: "last_addr xs \<le> s" using last_addr_less [OF m(2) _ le] by (cases "xs = []") auto
  show ?thesis
  proof (cases "minimumFreeEntrySize p0 \<le> e - s")
    case True
    have "entry_ok (minimumFreeEntrySize p0) (s, e - s)" using True mn b by (simp add: entry_ok_def)
    from connect_entry_spec [OF c this le] obtain cn' where
      cn': "connect_entry s (e - s) cn = Some cn'" "conn p0 k (xs @ [(s, e - s)]) cn'" "same_chunk cn cn'"
        "agree_outside 0 s (mem (cn_pool cn)) (mem (cn_pool cn'))" by blast
    have "connect_leading cn = Some cn'"
      using l u b True m cn'(1) lt by (simp add: connect_leading_def canMemoryBeConnectedToPool_def)
    then show ?thesis using cn' True b(1) by (auto simp: same_chunk_def entry_if_def agree_outside_def)
  next
    case False
    have d: "8 dvd e - s" using b by simp
    have e: "s + (e - s) = e" using b by simp
    from abandon_spec [OF c b(2) d _ _ le] False b e obtain m' where
      m': "abandonMemoryInPool s (e - s) (cn_pool cn) = Some ((cn_pool cn) \<lparr> mem := m' \<rparr>)"
        "conn p0 k xs (cn \<lparr> cn_pool := (cn_pool cn) \<lparr> mem := m' \<rparr> \<rparr>)" "agree_outside s e (mem (cn_pool cn)) m'" by auto
    have "connect_leading cn = Some (cn \<lparr> cn_pool := (cn_pool cn) \<lparr> mem := m' \<rparr> \<rparr>)"
      using l u b False m m'(1) by (simp add: connect_leading_def canMemoryBeConnectedToPool_def)
    then show ?thesis using m' False by (auto simp: entry_if_def agree_outside_def)
  qed
qed

section \<open>A chunk with objects closes the range\<close>

lemma agree_outside_mono: "agree_outside 0 a m m' \<Longrightarrow> a \<le> b \<Longrightarrow> agree_outside 0 b m m'"
  by (auto simp: agree_outside_def)

lemma conn_wf: "conn p0 k xs cn \<Longrightarrow> entries_wf (minimumFreeEntrySize p0) xs"
  by (simp add: conn_def conn_pool_def)

lemma entry_if_open: "mn \<le> T - s \<Longrightarrow> T \<le> e \<Longrightarrow> entry_if mn s e = [(s, e - s)]"
  by (simp add: entry_if_def)

lemma projection_cut:
  assumes "leadingFreeEntry cn = T" "leadingFreeEntrySize cn = e - T" "T < s" "s \<le> e"
    "chunkBase (cn_chunk cn) = T" "chunkTop (cn_chunk cn) = T'" "e \<le> T'" "T' < UMAX"
  shows "connect_projection (s - T) cn = cn \<lparr> leadingFreeEntry := s, leadingFreeEntrySize := e - s \<rparr>"
proof -
  have "usub T' T = T' - T" "uadd T (s - T) = s" "usub (e - T) (s - T) = e - s" using assms by (simp_all add: usub_exact uadd_exact)
  then show ?thesis using assms by (simp add: connect_projection_def Let_def)
qed

lemma outer_closes:
  fixes p0 :: pool
  defines "mn \<equiv> minimumFreeEntrySize p0"
  assumes c: "conn p0 k xs cn" and mn: "16 \<le> mn" and gap: "open_gap mn prev s T ys xs" and f: "facing prev (cn_chunk cn)"
    and ch: "chunkBase (cn_chunk cn) = T" "chunkTop (cn_chunk cn) = T'"
    and l: "e = T \<and> leadingFreeEntry cn = NULL \<or> T < e \<and> leadingFreeEntry cn = T \<and> leadingFreeEntrySize cn = e - T"
    and b: "s \<le> e" "e < T'" "T' < UMAX" "0 < s" "0 < T" "8 dvd s" "8 dvd T" "8 dvd e"
  shows "\<exists>cn'. connect_outer prev cn = Some cn' \<and> conn p0 k (ys @ entry_if mn s e) cn' \<and> cn_chunk cn' = cn_chunk cn \<and>
    agree_outside 0 e (mem (cn_pool cn)) (mem (cn_pool cn'))"
proof -
  have m: "minimumFreeEntrySize (cn_pool cn) = mn" "0 < minimumFreeEntrySize (cn_pool cn)" using c mn by (auto simp: conn_def conn_pool_def mn_def)
  have ey: "\<forall>e \<in> set ys. fst e + snd e < s \<and> fst e + snd e \<le> T" using gap by (simp add: open_gap_def)
  have pos: "\<forall>e \<in> set xs. fst e + snd e \<noteq> NULL" using conn_wf [OF c] by (auto simp: entries_wf_def dest: entry_okD)
  have Te: "T \<le> e" "e < UMAX" using l b by auto
  have skip: "connect_projection 0 cn = cn" by (simp add: connect_projection_def)
  consider (projected) "T < s" "prev_projection prev = s - T" "prev_trailing prev = (NULL, 0)" "xs = ys"
    | (trailing) "s \<le> T" "prev_projection prev = 0" "xs = ys" "prev_trailing prev = (s, T - s)" "prev \<noteq> None"
    | (none) "s = T" "prev_projection prev = 0" "xs = ys" "prev_trailing prev = (NULL, 0)"
    | (entry) "s < T" "prev_projection prev = 0" "prev_trailing prev = (NULL, 0)" "mn \<le> T - s" "xs = ys @ [(s, T - s)]" "prev \<noteq> None"
    using gap b(4) by (cases prev) (auto simp: open_gap_def prev_trailing_def)
  then show ?thesis
  proof cases
    case projected
    let ?cn = "cn \<lparr> leadingFreeEntry := s, leadingFreeEntrySize := e - s \<rparr>"
    have le: "\<forall>e \<in> set xs. fst e + snd e \<le> s" using ey projected(4) by auto
    have cc: "conn p0 k xs ?cn" using c by (simp add: conn_def)
    have "connect_projection (s - T) cn = ?cn" by (rule projection_cut [where e = e and T' = T']) (use projected l b ch in auto)
    moreover have "connect_previous prev ?cn = Some ?cn"
      by (rule connect_previous_skip [OF cc]) (use ey projected(4) in auto)
    moreover have "connect_trailing prev ?cn = Some ?cn" by (rule connect_trailing_skip [OF projected(3)]) (use m in simp)
    moreover from connect_leading_closes [OF cc mn [unfolded mn_def] le _ _ b(1,4,6,8) Te(2)] ch b(2) obtain cn' where
      "connect_leading ?cn = Some cn'" "conn p0 k (xs @ entry_if mn s e) cn'" "cn_chunk cn' = cn_chunk cn"
      "agree_outside 0 e (mem (cn_pool cn)) (mem (cn_pool cn'))" by (auto simp: mn_def)
    ultimately show ?thesis using projected by (simp add: connect_outer_def)
  next
    case trailing
    have le: "\<forall>e \<in> set xs. fst e + snd e \<le> s" using ey trailing(3) by auto
    have p: "connect_previous prev cn = Some cn"
      by (rule connect_previous_skip [OF c]) (use l ey trailing(1,3) pos in auto)
    have "\<exists>cn'. connect_trailing prev cn = Some cn' \<and> conn p0 k (xs @ entry_if mn s e) cn' \<and>
        cn_chunk cn' = cn_chunk cn \<and> leadingFreeEntry cn' = NULL \<and> agree_outside 0 s (mem (cn_pool cn)) (mem (cn_pool cn'))"
    proof (cases "e = T")
      case True
      then show ?thesis
        using connect_trailing_alone [OF c mn [unfolded mn_def] le trailing(4,5) _ trailing(1) b(4,6,7)] l Te by (auto simp: mn_def)
    next
      case False
      then show ?thesis
        using connect_trailing_joint [OF c mn [unfolded mn_def] le trailing(4,5) f _ _ trailing(1) Te(1) b(4,6,7,8) Te(2)] l by (auto simp: mn_def)
    qed
    then obtain cn' where cn': "connect_trailing prev cn = Some cn'" "conn p0 k (xs @ entry_if mn s e) cn'"
        "cn_chunk cn' = cn_chunk cn" "leadingFreeEntry cn' = NULL" "agree_outside 0 s (mem (cn_pool cn)) (mem (cn_pool cn'))" by blast
    then show ?thesis using p trailing skip connect_leading_skip [OF cn'(4)] agree_outside_mono [OF cn'(5) b(1)]
      by (simp add: connect_outer_def)
  next
    case none
    have le: "\<forall>e \<in> set xs. fst e + snd e \<le> s" using ey none(3) by auto
    have p: "connect_previous prev cn = Some cn"
      by (rule connect_previous_skip [OF c]) (use l ey none(1,3) pos in auto)
    have t: "connect_trailing prev cn = Some cn" by (rule connect_trailing_skip [OF none(4) m(2)])
    show ?thesis
    proof (cases "e = T")
      case True
      then have "connect_leading cn = Some cn" using l by (intro connect_leading_skip) auto
      then show ?thesis using p t none skip c True mn by (simp add: connect_outer_def entry_if_def)
    next
      case False
      with connect_leading_closes [OF c mn [unfolded mn_def] le _ _ b(1,4,6,8) Te(2)] ch b(2) l none(1) obtain cn' where
        "connect_leading cn = Some cn'" "conn p0 k (xs @ entry_if mn s e) cn'" "cn_chunk cn' = cn_chunk cn"
        "agree_outside 0 e (mem (cn_pool cn)) (mem (cn_pool cn'))" by (auto simp: mn_def)
      then show ?thesis using p t none skip by (simp add: connect_outer_def)
    qed
  next
    case entry
    show ?thesis
    proof (cases "e = T")
      case True
      then have l0: "leadingFreeEntry cn = NULL" using l by auto
      have "connect_previous prev cn = Some cn" by (rule connect_previous_skip [OF c]) (use l0 pos in auto)
      moreover have "connect_trailing prev cn = Some cn" by (rule connect_trailing_skip [OF entry(3) m(2)])
      ultimately show ?thesis using entry skip c True connect_leading_skip [OF l0] entry_if_open [of mn T s e] by (simp add: connect_outer_def)
    next
      case False
      then have l1: "leadingFreeEntry cn = T" "leadingFreeEntrySize cn = e - T" using l by auto
      obtain c' where c': "prev = Some c'" "ck_memoryPool c' = ck_memoryPool (cn_chunk cn)" "coalesceCandidate (cn_chunk cn)"
        using f entry(6) by (auto simp: facing_def)
      have "16 \<le> e - s" "mn \<le> e - s" using entry(4) mn Te by linarith+
      then have "entry_ok (minimumFreeEntrySize p0) (s, T - s + leadingFreeEntrySize cn)"
        using entry(1) b Te l1 by (simp add: entry_ok_def mn_def)
      from connect_previous_grows [OF c [unfolded entry(5)] this _ c'(2,3)] l1 entry(1) Te obtain cn' where
        cn': "connect_previous prev cn = Some cn'" "conn p0 k (ys @ [(s, e - s)]) cn'" "same_chunk (cn \<lparr> leadingFreeEntry := NULL \<rparr>) cn'"
          "mem (cn_pool cn') = mem (cn_pool cn)" using c'(1) by auto
      have l0: "leadingFreeEntry cn' = NULL" using cn'(3) by (simp add: same_chunk_def)
      have "connect_trailing prev cn' = Some cn'"
        by (rule connect_trailing_skip [OF entry(3)]) (use cn'(2) mn in \<open>simp add: conn_def conn_pool_def mn_def\<close>)
      then show ?thesis using cn' entry skip connect_leading_skip [OF l0] entry_if_open [of mn T s e] Te
        by (simp add: connect_outer_def same_chunk_def)
    qed
  qed
qed

section \<open>A chunk without objects keeps it open\<close>

text \<open>The range is given up when a last, short chunk does not make it large enough.\<close>

definition dropped_gap :: "nat \<Rightarrow> ParallelSweepChunk option \<Rightarrow> addr \<Rightarrow> addr \<Rightarrow> entry list \<Rightarrow> entry list \<Rightarrow> bool" where
  "dropped_gap mn prev s T ys xs \<longleftrightarrow> (\<forall>e \<in> set ys. fst e + snd e < s \<and> fst e + snd e \<le> T) \<and>
     s \<le> T \<and> T - s < mn \<and> prev_projection prev = 0 \<and> prev_trailing prev = (NULL, 0) \<and> xs = ys"

definition chunk_kept :: "ParallelSweepChunk \<Rightarrow> ParallelSweepChunk \<Rightarrow> bool" where
  "chunk_kept c c' \<longleftrightarrow> chunkBase c' = chunkBase c \<and> chunkTop c' = chunkTop c \<and> ck_memoryPool c' = ck_memoryPool c \<and>
     coalesceCandidate c' = coalesceCandidate c \<and> (\<forall>zs. chunk_list zs c' = chunk_list zs c)"

lemma chunk_kept_refl [simp]: "chunk_kept c c"
  by (simp add: chunk_kept_def)

lemma connect_leading_whole:
  assumes "leadingFreeEntry cn = s" "leadingFreeEntrySize cn = T' - s" "chunkTop (cn_chunk cn) = T'" "s \<le> T'" "T' < UMAX" "0 < s"
  shows "connect_leading cn = Some (cn \<lparr> cn_chunk := (cn_chunk cn) \<lparr> leadingFreeCandidate := NULL, leadingFreeCandidateSize := 0,
    trailingFreeCandidate := s, trailingFreeCandidateSize := T' - s \<rparr> \<rparr>)"
proof -
  have "uadd s (T' - s) = T'" using assms by (simp add: uadd_exact)
  then show ?thesis using assms by (simp add: connect_leading_def)
qed

lemma outer_opens:
  fixes p0 :: pool
  defines "mn \<equiv> minimumFreeEntrySize p0"
  assumes c: "conn p0 k xs cn" and mn: "16 \<le> mn" and gap: "open_gap mn prev s T ys xs" and f: "facing prev (cn_chunk cn)"
    and ch: "chunkBase (cn_chunk cn) = T" "chunkTop (cn_chunk cn) = T'" "projection (cn_chunk cn) = 0"
      "trailingFreeCandidate (cn_chunk cn) = NULL" "trailingFreeCandidateSize (cn_chunk cn) = 0"
    and l: "leadingFreeEntry cn = T" "leadingFreeEntrySize cn = T' - T"
    and b: "T < T'" "T' < UMAX" "0 < s" "0 < T" "8 dvd s" "8 dvd T" "8 dvd T'" and su: "s < UMAX"
  shows "\<exists>cn' xs'. connect_outer prev cn = Some cn' \<and> conn p0 k xs' cn' \<and> chunk_kept (cn_chunk cn) (cn_chunk cn') \<and>
    (open_gap mn (Some (cn_chunk cn')) s T' ys xs' \<or> T' - T < mn \<and> dropped_gap mn (Some (cn_chunk cn')) s T' ys xs') \<and>
    agree_outside 0 T' (mem (cn_pool cn)) (mem (cn_pool cn'))"
proof -
  have m: "minimumFreeEntrySize (cn_pool cn) = mn" "0 < minimumFreeEntrySize (cn_pool cn)" using c mn by (auto simp: conn_def conn_pool_def mn_def)
  have ey: "\<forall>e \<in> set ys. fst e + snd e < s \<and> fst e + snd e \<le> T" using gap by (simp add: open_gap_def)
  have ey': "\<forall>e \<in> set ys. fst e + snd e < s \<and> fst e + snd e \<le> T'" using ey b(1) by auto
  have pos: "\<forall>e \<in> set xs. fst e + snd e \<noteq> NULL" using conn_wf [OF c] by (auto simp: entries_wf_def dest: entry_okD)
  have skip: "connect_projection 0 cn = cn" by (simp add: connect_projection_def)
  have pt: "prev_trailing (Some (cn_chunk cn)) = (NULL, 0)" "prev_projection (Some (cn_chunk cn)) = 0"
    using ch by (simp_all add: prev_trailing_def prev_projection_def)
  let ?w = "\<lambda>c. c \<lparr> leadingFreeCandidate := NULL, leadingFreeCandidateSize := 0, trailingFreeCandidate := s, trailingFreeCandidateSize := T' - s \<rparr>"
  have kw: "chunk_kept (cn_chunk cn) (?w (cn_chunk cn))" by (simp add: chunk_kept_def chunk_list_def)
  have whole: "open_gap mn (Some (?w (cn_chunk cn))) s T' ys ys" if "s \<le> T'"
    using that ey' ch(3) b(3) by (auto simp: open_gap_def prev_projection_def prev_trailing_def)
  consider (beyond) "T' < s" "prev_projection prev = s - T" "prev_trailing prev = (NULL, 0)" "xs = ys"
    | (projected) "T < s" "s \<le> T'" "prev_projection prev = s - T" "prev_trailing prev = (NULL, 0)" "xs = ys"
    | (trailing) "s \<le> T" "prev_projection prev = 0" "xs = ys" "prev_trailing prev = (s, T - s)" "prev \<noteq> None"
    | (none) "s = T" "prev_projection prev = 0" "xs = ys" "prev_trailing prev = (NULL, 0)"
    | (entry) "s < T" "prev_projection prev = 0" "prev_trailing prev = (NULL, 0)" "mn \<le> T - s" "xs = ys @ [(s, T - s)]" "prev \<noteq> None"
    using gap b(3) by (cases prev; cases "T' < s") (auto simp: open_gap_def prev_trailing_def)
  then show ?thesis
  proof cases
    case beyond
    let ?cn = "cn \<lparr> cn_chunk := (cn_chunk cn) \<lparr> projection := s - T' \<rparr>, leadingFreeEntry := NULL, leadingFreeEntrySize := 0 \<rparr>"
    have cc: "conn p0 k xs ?cn" using c by (simp add: conn_def)
    have "usub T' T = T' - T" "usub (s - T) (T' - T) = s - T'" using b(1,2) su beyond(1) by (simp_all add: usub_exact)
    then have "connect_projection (s - T) cn = ?cn" using beyond(1) b(1) ch by (simp add: connect_projection_def Let_def)
    moreover have "connect_previous prev ?cn = Some ?cn" by (rule connect_previous_skip [OF cc]) (use pos in auto)
    moreover have "connect_trailing prev ?cn = Some ?cn" by (rule connect_trailing_skip [OF beyond(3)]) (use m in simp)
    moreover have "connect_leading ?cn = Some ?cn" by (rule connect_leading_skip) simp
    ultimately have "connect_outer prev cn = Some ?cn" using beyond(2) by (simp add: connect_outer_def)
    moreover have "open_gap mn (Some (cn_chunk ?cn)) s T' ys ys"
      using beyond(1) ey' ch by (simp add: open_gap_def prev_projection_def prev_trailing_def)
    ultimately show ?thesis using cc beyond(4)
      by (intro exI [of _ ?cn] exI [of _ ys]) (simp add: chunk_kept_def chunk_list_def)
  next
    case projected
    let ?cn = "cn \<lparr> leadingFreeEntry := s, leadingFreeEntrySize := T' - s \<rparr>"
    have cc: "conn p0 k xs ?cn" using c by (simp add: conn_def)
    have "connect_projection (s - T) cn = ?cn" by (rule projection_cut [where e = T' and T' = T']) (use projected l b ch in auto)
    moreover have "connect_previous prev ?cn = Some ?cn"
      by (rule connect_previous_skip [OF cc]) (use ey projected(5) in auto)
    moreover have "connect_trailing prev ?cn = Some ?cn" by (rule connect_trailing_skip [OF projected(4)]) (use m in simp)
    moreover have "connect_leading ?cn = Some (?cn \<lparr> cn_chunk := ?w (cn_chunk cn) \<rparr>)"
      using connect_leading_whole [of ?cn s T'] ch projected b by simp
    ultimately have "connect_outer prev cn = Some (?cn \<lparr> cn_chunk := ?w (cn_chunk cn) \<rparr>)" using projected(3) by (simp add: connect_outer_def)
    then show ?thesis using cc projected(2,5) whole kw
      by (intro exI [of _ "?cn \<lparr> cn_chunk := ?w (cn_chunk cn) \<rparr>"] exI [of _ ys]) (simp add: conn_def)
  next
    case trailing
    have le: "\<forall>e \<in> set xs. fst e + snd e \<le> s" using ey trailing(3) by auto
    have sT: "s \<le> T'" "T \<le> T'" using trailing(1) b(1) by auto
    have "connect_previous prev cn = Some cn"
      by (rule connect_previous_skip [OF c]) (use l ey trailing(1,3) in auto)
    moreover from connect_trailing_joint [OF c mn [unfolded mn_def] le trailing(4,5) f l trailing(1) sT(2) b(3,5,6,7) b(2)] obtain cn' where
      cn': "connect_trailing prev cn = Some cn'" "conn p0 k (xs @ entry_if mn s T') cn'"
        "cn_chunk cn' = cn_chunk cn" "leadingFreeEntry cn' = NULL" "agree_outside 0 s (mem (cn_pool cn)) (mem (cn_pool cn'))"
      by (auto simp: mn_def)
    moreover have "connect_leading cn' = Some cn'" by (rule connect_leading_skip [OF cn'(4)])
    ultimately have "connect_outer prev cn = Some cn'" using trailing(2) skip by (simp add: connect_outer_def)
    moreover have "open_gap mn (Some (cn_chunk cn)) s T' ys (ys @ entry_if mn s T') \<or>
        T' - T < mn \<and> dropped_gap mn (Some (cn_chunk cn)) s T' ys (ys @ entry_if mn s T')"
      using ey' pt trailing(1) b(1) by (auto simp: open_gap_def dropped_gap_def entry_if_def)
    ultimately show ?thesis using cn' trailing(3) agree_outside_mono [OF cn'(5) sT(1)] by auto
  next
    case none
    have "connect_previous prev cn = Some cn" by (rule connect_previous_skip [OF c]) (use l ey none(1,3) in auto)
    moreover have "connect_trailing prev cn = Some cn" by (rule connect_trailing_skip [OF none(4) m(2)])
    moreover have "connect_leading cn = Some (cn \<lparr> cn_chunk := ?w (cn_chunk cn) \<rparr>)"
      using connect_leading_whole [of cn s T'] ch none(1) b l by simp
    ultimately have "connect_outer prev cn = Some (cn \<lparr> cn_chunk := ?w (cn_chunk cn) \<rparr>)" using none(2) skip by (simp add: connect_outer_def)
    then show ?thesis using c none(1,3) whole kw b(1)
      by (intro exI [of _ "cn \<lparr> cn_chunk := ?w (cn_chunk cn) \<rparr>"] exI [of _ ys]) (simp add: conn_def)
  next
    case entry
    obtain c' where c': "prev = Some c'" "ck_memoryPool c' = ck_memoryPool (cn_chunk cn)" "coalesceCandidate (cn_chunk cn)"
      using f entry(6) by (auto simp: facing_def)
    have "16 \<le> T' - s" "mn \<le> T' - s" using entry(4) mn b(1) by linarith+
    then have "entry_ok (minimumFreeEntrySize p0) (s, T - s + leadingFreeEntrySize cn)"
      using entry(1) b l by (simp add: entry_ok_def mn_def)
    from connect_previous_grows [OF c [unfolded entry(5)] this _ c'(2,3)] l entry(1) b(1) obtain cn' where
      cn': "connect_previous prev cn = Some cn'" "conn p0 k (ys @ [(s, T' - s)]) cn'" "same_chunk (cn \<lparr> leadingFreeEntry := NULL \<rparr>) cn'"
        "mem (cn_pool cn') = mem (cn_pool cn)" using c'(1) by auto
    have l0: "leadingFreeEntry cn' = NULL" "cn_chunk cn' = cn_chunk cn" using cn'(3) by (simp_all add: same_chunk_def)
    have "connect_trailing prev cn' = Some cn'"
      by (rule connect_trailing_skip [OF entry(3)]) (use cn'(2) mn in \<open>simp add: conn_def conn_pool_def mn_def\<close>)
    then have "connect_outer prev cn = Some cn'" using cn' entry(2) skip connect_leading_skip [OF l0(1)] by (simp add: connect_outer_def)
    moreover have "open_gap mn (Some (cn_chunk cn')) s T' ys (ys @ [(s, T' - s)])"
      using ey' pt entry(1) b(1) l0(2) \<open>mn \<le> T' - s\<close> by (simp add: open_gap_def)
    ultimately show ?thesis using cn' l0(2) by (intro exI [of _ cn'] exI [of _ "ys @ [(s, T' - s)]"]) simp
  qed
qed

end
