(* ===== verification/Connect_Chunk.thy ===== *)
theory Connect_Chunk
  imports Connect_Step
begin

text \<open>
  \<open>connectChunk\<close> on a swept chunk, and the end of the connection: which entries each chunk adds to
  the list.
\<close>

section \<open>A swept chunk as the connection sees it\<close>

definition inner :: "SweepScheme \<Rightarrow> nat \<Rightarrow> addr list \<Rightarrow> entry list" where
  "inner ss mn ms = inner_entries (sw_markMap ss) (sw_sizeOf ss) mn ms"

definition object_end :: "SweepScheme \<Rightarrow> addr \<Rightarrow> addr" where
  "object_end ss m = m + sw_sizeOf ss m"

definition swept_view :: "SweepScheme \<Rightarrow> nat \<Rightarrow> addr list \<Rightarrow> ParallelSweepChunk \<Rightarrow> bool" where
  "swept_view ss mn ms c \<longleftrightarrow> chunk_list (inner ss mn ms) c \<and>
     (let e = (if ms = [] then chunkTop c else hd ms)
      in e = chunkBase c \<and> leadingFreeCandidate c = NULL \<or>
         chunkBase c < e \<and> leadingFreeCandidate c = chunkBase c \<and> leadingFreeCandidateSize c = e - chunkBase c) \<and>
     (let e = (if ms = [] then chunkTop c else object_end ss (last ms))
      in projection c = e - chunkTop c \<and> trailingFreeCandidateSize c = chunkTop c - e \<and>
         trailingFreeCandidate c = (if e < chunkTop c then e else NULL))"

lemma swept_view_swept:
  fixes mn db dn :: nat and x :: addr
  assumes "fresh_chunk c0" "live_objects (sw_sizeOf ss) ms" "\<forall>m \<in> set ms. chunkBase c0 \<le> m \<and> m < chunkTop c0"
    "chunkBase c0 < chunkTop c0" "8 dvd chunkTop c0" "chunkTop c0 < UMAX"
  defines "c \<equiv> (swept_chunk ss mn ms x c0) \<lparr> ck_darkMatterBytes := db, ck_darkMatterSamples := dn \<rparr>"
  shows "swept_view ss mn ms c \<and> chunkBase c = chunkBase c0 \<and> chunkTop c = chunkTop c0 \<and>
    coalesceCandidate c = coalesceCandidate c0 \<and> ck_memoryPool c = ck_memoryPool c0 \<and> ck_previous c = ck_previous c0"
proof (cases "ms = []")
  case True
  then show ?thesis using assms(4) fresh_fields [OF assms(1)]
    by (simp add: c_def swept_view_def swept_chunk_def lead_to_def chunk_list_def inner_def last_size_def search_size_def)
next
  case False
  have l: "chunkBase c0 \<le> hd ms" "last ms < chunkTop c0" using assms(3) False by auto
  show ?thesis using False l unfolding c_def swept_view_def chunk_list_def
    by (simp add: swept_fields [OF assms(1,2) False l(2) assms(5,6)] inner_def last_size_def object_end_def)
qed

section \<open>The state between chunks\<close>

definition conn_heap :: "pool \<Rightarrow> nat \<Rightarrow> entry list \<Rightarrow> pool \<Rightarrow> SweepPoolState \<Rightarrow> bool" where
  "conn_heap p0 k xs p s \<longleftrightarrow> conn_pool p0 k xs p \<and> conn_state xs s \<and> connectPreviousFreeEntry s = last_addr xs \<and>
     connectPreviousFreeEntrySize s = last_size xs \<and> connectPreviousPreviousFreeEntry s = last_addr (butlast xs)"

lemma open_gap_ends: "open_gap mn prev s T ys xs \<Longrightarrow> e \<in> set xs \<Longrightarrow> fst e + snd e \<le> T"
  by (auto simp: open_gap_def)

text \<open>What a chunk with the given objects adds, and where the next free range starts.\<close>

definition chunk_adds :: "SweepScheme \<Rightarrow> nat \<Rightarrow> addr \<Rightarrow> addr list \<Rightarrow> entry list" where
  "chunk_adds ss mn s ms = (if ms = [] then [] else entry_if mn s (hd ms) @ inner ss mn ms)"

definition next_start :: "SweepScheme \<Rightarrow> addr \<Rightarrow> addr list \<Rightarrow> addr" where
  "next_start ss s ms = (if ms = [] then s else object_end ss (last ms))"

lemma inner_bounds:
  assumes "live_objects (sw_sizeOf ss) ms" "ms \<noteq> []" "e \<in> set (inner ss mn ms)"
  shows "object_end ss (hd ms) \<le> fst e" "fst e + snd e \<le> last ms"
  using inner_entries_within [of "sw_sizeOf ss" "hd ms" "tl ms" e] assms by (force simp: inner_def object_end_def)+

lemma live_last: "live_objects (sw_sizeOf ss) ms \<Longrightarrow> ms \<noteq> [] \<Longrightarrow>
  last ms < object_end ss (last ms) \<and> object_end ss (last ms) < UMAX \<and> 8 dvd object_end ss (last ms)"
  using live_after [of "sw_sizeOf ss" "[]" ms "[]"] by (auto simp: live_Cons object_end_def)

lemma live_hd_last: "live_objects (sw_sizeOf ss) ms \<Longrightarrow> ms \<noteq> [] \<Longrightarrow> hd ms \<le> last ms"
  by (cases ms) (auto simp: live_Cons dest!: last_in_set bspec)

text \<open>The entries a chunk with objects adds are well formed.\<close>

lemma chunk_adds_wf:
  assumes wf: "entries_wf mn (ys @ entry_if mn s (hd ms))" and live: "live_objects (sw_sizeOf ss) ms" and ne: "ms \<noteq> []"
    and mn: "16 \<le> mn" and ey: "\<forall>e \<in> set ys. fst e + snd e < s" and s: "s \<le> hd ms"
  shows "entries_wf mn ((ys @ entry_if mn s (hd ms)) @ inner ss mn ms)"
    "\<forall>e \<in> set ((ys @ entry_if mn s (hd ms)) @ inner ss mn ms). fst e + snd e \<le> last ms"
proof -
  have iw: "entries_wf mn (inner ss mn ms)" unfolding inner_def by (rule inner_entries_wf [OF live mn])
  have le: "fst e + snd e \<le> hd ms" if "e \<in> set (ys @ entry_if mn s (hd ms))" for e
    using that ey s by (auto simp: entry_if_def split: if_splits)
  note ib = inner_bounds [OF live ne]
  have "hd ms \<le> object_end ss (hd ms)" by (simp add: object_end_def)
  then have "before e f" if "e \<in> set (ys @ entry_if mn s (hd ms))" "f \<in> set (inner ss mn ms)" for e f
    using le [OF that(1)] ib(1) [OF that(2)] by (simp add: before_def)
  then show "entries_wf mn ((ys @ entry_if mn s (hd ms)) @ inner ss mn ms)" using wf iw unfolding entries_wf_append [of mn _ "inner ss mn ms"] by blast
  have hl: "hd ms \<le> last ms" by (rule live_hd_last [OF live ne])
  show "\<forall>e \<in> set ((ys @ entry_if mn s (hd ms)) @ inner ss mn ms). fst e + snd e \<le> last ms"
  proof
    fix e assume "e \<in> set ((ys @ entry_if mn s (hd ms)) @ inner ss mn ms)"
    then consider "e \<in> set (ys @ entry_if mn s (hd ms))" | "e \<in> set (inner ss mn ms)" by auto
    then show "fst e + snd e \<le> last ms" using le ib(2) hl by cases fastforce+
  qed
qed

section \<open>Connecting a chunk\<close>

text \<open>The outer and the inner part together.\<close>

lemma connect_step:
  fixes p0 :: pool and ss :: SweepScheme
  defines "mn \<equiv> minimumFreeEntrySize p0"
  assumes c: "conn p0 (k + length (inner ss mn ms)) xs cn" and mn: "16 \<le> mn" and gap: "open_gap mn prev s T ys xs"
    and f: "facing prev (cn_chunk cn)" and v: "swept_view ss mn ms (cn_chunk cn)"
    and l: "leadingFreeEntry cn = leadingFreeCandidate (cn_chunk cn)" "leadingFreeEntrySize cn = leadingFreeCandidateSize (cn_chunk cn)"
    and ch: "chunkBase (cn_chunk cn) = T" "chunkTop (cn_chunk cn) = T'"
    and live: "live_objects (sw_sizeOf ss) ms" "\<forall>m \<in> set ms. T \<le> m \<and> s \<le> m \<and> m < T'"
    and b: "T < T'" "T' < UMAX" "0 < s" "0 < T" "8 dvd s" "8 dvd T" "8 dvd T'" "s < UMAX"
    and chn: "chain (mem (cn_pool cn)) (head_addr (inner ss mn ms)) (inner ss mn ms)"
  shows "\<exists>cn1 cn' xs'. connect_outer prev cn = Some cn1 \<and> connect_inner cn1 = Some cn' \<and> conn p0 k xs' cn' \<and>
    chunk_kept (cn_chunk cn) (cn_chunk cn') \<and>
    (open_gap mn (Some (cn_chunk cn')) (next_start ss s ms) T' (ys @ chunk_adds ss mn s ms) xs' \<or>
     T' - T < mn \<and> dropped_gap mn (Some (cn_chunk cn')) (next_start ss s ms) T' (ys @ chunk_adds ss mn s ms) xs') \<and>
    agree_outside 0 T' (mem (cn_pool cn)) (mem (cn_pool cn'))"
proof (cases "ms = []")
  case True
  have "projection (cn_chunk cn) = 0" "trailingFreeCandidate (cn_chunk cn) = NULL" "trailingFreeCandidateSize (cn_chunk cn) = 0"
    "leadingFreeEntry cn = T" "leadingFreeEntrySize cn = T' - T" "inner ss mn ms = []" "chunk_list [] (cn_chunk cn)"
    using v True l ch b(1) by (auto simp: swept_view_def Let_def inner_def)
  note h = this
  from outer_opens [OF _ mn [unfolded mn_def] gap [unfolded mn_def] f ch h(1-5) b(1-7,8), of k] c h(6) obtain cn1 xs' where
    o: "connect_outer prev cn = Some cn1" "conn p0 k xs' cn1" "chunk_kept (cn_chunk cn) (cn_chunk cn1)"
      "open_gap mn (Some (cn_chunk cn1)) s T' ys xs' \<or> T' - T < mn \<and> dropped_gap mn (Some (cn_chunk cn1)) s T' ys xs'"
      "agree_outside 0 T' (mem (cn_pool cn)) (mem (cn_pool cn1))" by (auto simp: mn_def)
  have "chunk_list [] (cn_chunk cn1)" using o(3) h(7) by (simp add: chunk_kept_def)
  then have "connect_inner cn1 = Some cn1" by (simp add: connect_inner_def chunk_list_def)
  then show ?thesis using o True by (auto simp: next_start_def chunk_adds_def)
next
  case False
  let ?c = "cn_chunk cn" and ?e = "object_end ss (last ms)"
  have hm: "T \<le> hd ms" "s \<le> hd ms" "hd ms < T'" "last ms < T'" "T \<le> last ms" using live(2) False by auto
  have d: "8 dvd hd ms" using live(1) False by (auto simp: live_objects_def)
  have ey: "\<forall>e \<in> set ys. fst e + snd e < s" using gap by (simp add: open_gap_def)
  have ld: "hd ms = T \<and> leadingFreeEntry cn = NULL \<or> T < hd ms \<and> leadingFreeEntry cn = T \<and> leadingFreeEntrySize cn = hd ms - T"
    using v False l ch by (auto simp: swept_view_def Let_def)
  from outer_closes [OF c mn [unfolded mn_def] gap [unfolded mn_def] f ch ld hm(2,3) b(2,3,4,5,6) d] obtain cn1 where
    o: "connect_outer prev cn = Some cn1" "conn p0 (k + length (inner ss mn ms)) (ys @ entry_if mn s (hd ms)) cn1"
      "cn_chunk cn1 = ?c" "agree_outside 0 (hd ms) (mem (cn_pool cn)) (mem (cn_pool cn1))" by (auto simp: mn_def)
  note w = chunk_adds_wf [OF conn_wf [OF o(2), folded mn_def] live(1) False mn ey hm(2)]
  note ll = live_last [OF live(1) False] and hl = live_hd_last [OF live(1) False]
  have iw: "entries_wf mn (inner ss mn ms)" using w(1) by (simp add: entries_wf_append)
  have "apart 0 (hd ms) (inner ss mn ms)"
    using inner_bounds(1) [OF live(1) False] by (fastforce simp: apart_def object_end_def)
  then have ch1: "chain (mem (cn_pool cn1)) (head_addr (inner ss mn ms)) (inner ss mn ms)"
    using chn lseg_agree [OF o(4) _ iw] by simp
  have cl: "chunk_list (inner ss mn ms) (cn_chunk cn1)" using v o(3) by (simp add: swept_view_def)
  have "last ms < UMAX" using ll by simp
  from connect_inner_spec [OF o(2) cl _ ch1 w(2) this] w(1) obtain cn' where
    i: "connect_inner cn1 = Some cn'" "conn p0 k ((ys @ entry_if mn s (hd ms)) @ inner ss mn ms) cn'" "cn_chunk cn' = ?c"
      "agree_outside 0 (last ms) (mem (cn_pool cn1)) (mem (cn_pool cn'))" using o(3) by (auto simp: mn_def)
  have "open_gap mn (Some ?c) ?e T' (ys @ chunk_adds ss mn s ms) (ys @ chunk_adds ss mn s ms)"
  proof -
    have en: "fst e + snd e < ?e \<and> fst e + snd e \<le> T'" if "e \<in> set (ys @ chunk_adds ss mn s ms)" for e
    proof -
      have "fst e + snd e \<le> last ms" using w(2) that False by (auto simp: chunk_adds_def)
      then show ?thesis using ll hm(4) by simp
    qed
    have pc: "projection ?c = ?e - T'" "prev_trailing (Some ?c) = (if ?e < T' then ?e else NULL, T' - ?e)"
      using v False ch by (auto simp: swept_view_def Let_def prev_trailing_def)
    have "leadingFreeCandidate ?c \<noteq> ?e" using v False ch ll hm(5) b(4) by (auto simp: swept_view_def Let_def)
    then show ?thesis using en pc unfolding open_gap_def prev_projection_def by auto
  qed
  moreover have "agree_outside 0 T' (mem (cn_pool cn)) (mem (cn_pool cn'))"
    using o(4) i(4) hm(3,4) by (auto simp: agree_outside_def)
  ultimately show ?thesis using o(1) i False by (auto simp: next_start_def chunk_adds_def)
qed

lemma connectChunk_spec:
  fixes p0 :: pool and ss :: SweepScheme and chunks :: "ParallelSweepChunk list"
  defines "mn \<equiv> minimumFreeEntrySize p0"
  assumes h: "conn_heap p0 (k + length (inner ss mn ms)) xs p st" and mn: "16 \<le> mn"
    and prev: "prev = map_option ((!) chunks) (connectPreviousChunk st)" "ck_previous (chunks ! i) = connectPreviousChunk st"
      "\<forall>c. prev = Some c \<longrightarrow> chunkTop c = T"
    and gap: "open_gap mn prev s T ys xs" and f: "facing prev (chunks ! i)" and v: "swept_view ss mn ms (chunks ! i)"
    and ch: "chunkBase (chunks ! i) = T" "chunkTop (chunks ! i) = T'"
    and live: "live_objects (sw_sizeOf ss) ms" "\<forall>m \<in> set ms. T \<le> m \<and> s \<le> m \<and> m < T'"
    and b: "T < T'" "T' < UMAX" "0 < s" "0 < T" "8 dvd s" "8 dvd T" "8 dvd T'" "s < UMAX"
    and chn: "chain (mem p) (head_addr (inner ss mn ms)) (inner ss mn ms)"
  shows "\<exists>c' p' st' xs'. connectChunk i (chunks, p, st) = Some (chunks[i := c'], p', st') \<and> conn_heap p0 k xs' p' st' \<and>
    connectPreviousChunk st' = Some i \<and> chunk_kept (chunks ! i) c' \<and>
    (open_gap mn (Some c') (next_start ss s ms) T' (ys @ chunk_adds ss mn s ms) xs' \<or>
     T' - T < mn \<and> dropped_gap mn (Some c') (next_start ss s ms) T' (ys @ chunk_adds ss mn s ms) xs') \<and>
    agree_outside 0 T' (mem p) (mem p')"
proof -
  let ?c = "chunks ! i"
  define cn where "cn = \<lparr> previousFreeEntry = connectPreviousFreeEntry st, previousFreeEntrySize = connectPreviousFreeEntrySize st,
    previousPreviousFreeEntry = connectPreviousPreviousFreeEntry st, leadingFreeEntry = leadingFreeCandidate ?c,
    leadingFreeEntrySize = leadingFreeCandidateSize ?c, cn_chunk = ?c, cn_pool = p, cn_state = st \<rparr>"
  have fields: "cn_chunk cn = ?c" "leadingFreeEntry cn = leadingFreeCandidate ?c" "leadingFreeEntrySize cn = leadingFreeCandidateSize ?c"
    "cn_pool cn = p" by (simp_all add: cn_def)
  have c: "conn p0 (k + length (inner ss mn ms)) xs cn" using h by (simp add: conn_heap_def conn_def cn_def)
  from connect_step [where prev = prev and T = T and T' = T' and s = s and ys = ys, OF c [unfolded mn_def] mn [unfolded mn_def] gap [unfolded mn_def],
      unfolded fields, OF f v [unfolded mn_def] refl refl ch live b chn [unfolded mn_def]]
  obtain cn1 cn' xs' where
    o: "connect_outer prev cn = Some cn1" "connect_inner cn1 = Some cn'" "conn p0 k xs' cn'" "chunk_kept ?c (cn_chunk cn')"
      "open_gap mn (Some (cn_chunk cn')) (next_start ss s ms) T' (ys @ chunk_adds ss mn s ms) xs' \<or>
       T' - T < mn \<and> dropped_gap mn (Some (cn_chunk cn')) (next_start ss s ms) T' (ys @ chunk_adds ss mn s ms) xs'"
      "agree_outside 0 T' (mem p) (mem (cn_pool cn'))" by (auto simp: mn_def)
  have "connectPreviousFreeEntry st = last_addr xs" using h by (simp add: conn_heap_def)
  moreover have "xs \<noteq> [] \<longrightarrow> last_addr xs < T"
    using last_addr_less [OF conn_wf [OF c]] open_gap_ends [OF gap] by blast
  ultimately have as1: "leadingFreeCandidate ?c = NULL \<or> connectPreviousFreeEntry st < leadingFreeCandidate ?c"
    using v ch b(4) by (cases "xs = []") (auto simp: swept_view_def Let_def)
  have as2: "(case ck_previous ?c of None \<Rightarrow> Some 0
      | Some j \<Rightarrow> do { assert_MM (projection (chunks ! j) = 0 \<or> chunkTop (chunks ! j) = chunkBase ?c); Some (projection (chunks ! j)) }) =
      Some (prev_projection prev)"
    using prev ch(1) by (cases "connectPreviousChunk st") (simp_all add: prev_projection_def)
  define p' where "p' = (cn_pool cn') \<lparr> darkMatterBytes := uadd (darkMatterBytes (cn_pool cn')) (ck_darkMatterBytes (cn_chunk cn')),
      darkMatterSamples := uadd (darkMatterSamples (cn_pool cn')) (ck_darkMatterSamples (cn_chunk cn')) \<rparr>"
  define st' where "st' = (cn_state cn') \<lparr> connectPreviousFreeEntry := previousFreeEntry cn',
      connectPreviousPreviousFreeEntry := previousPreviousFreeEntry cn', connectPreviousFreeEntrySize := previousFreeEntrySize cn',
      connectPreviousChunk := Some i \<rparr>"
  have "connectChunk i (chunks, p, st) = do { assert_MM (leadingFreeCandidate ?c = NULL \<or> connectPreviousFreeEntry st < leadingFreeCandidate ?c);
      proj \<leftarrow> (case ck_previous ?c of None \<Rightarrow> Some 0
        | Some j \<Rightarrow> do { assert_MM (projection (chunks ! j) = 0 \<or> chunkTop (chunks ! j) = chunkBase ?c); Some (projection (chunks ! j)) });
      cn \<leftarrow> connect_previous prev (connect_projection proj cn); cn \<leftarrow> connect_trailing prev cn; cn \<leftarrow> connect_leading cn; cn \<leftarrow> connect_inner cn;
      Some (chunks[i := cn_chunk cn], (cn_pool cn) \<lparr> darkMatterBytes := uadd (darkMatterBytes (cn_pool cn)) (ck_darkMatterBytes (cn_chunk cn)),
              darkMatterSamples := uadd (darkMatterSamples (cn_pool cn)) (ck_darkMatterSamples (cn_chunk cn)) \<rparr>,
            (cn_state cn) \<lparr> connectPreviousFreeEntry := previousFreeEntry cn, connectPreviousPreviousFreeEntry := previousPreviousFreeEntry cn,
              connectPreviousFreeEntrySize := previousFreeEntrySize cn, connectPreviousChunk := Some i \<rparr>) }"
    unfolding connectChunk_def prod.case Let_def cn_def [symmetric] prev(1) [symmetric] fields by (simp add: cn_def)
  also have "\<dots> = Some (chunks[i := cn_chunk cn'], p', st')"
    unfolding as2 using as1 o(1,2) by (auto simp: connect_outer_def bind_eq_Some_conv p'_def st'_def)
  finally have "connectChunk i (chunks, p, st) = Some (chunks[i := cn_chunk cn'], p', st')" .
  moreover have "conn_heap p0 k xs' p' st'" using o(3) by (simp add: conn_heap_def conn_def conn_pool_def conn_state_def same_geometry_def p'_def st'_def)
  ultimately show ?thesis using o(4-6)
    by (intro exI [of _ "cn_chunk cn'"] exI [of _ p'] exI [of _ st'] exI [of _ xs']) (simp add: p'_def st'_def)
qed

end
