(* ===== verification/Connect_All.thy ===== *)
theory Connect_All
  imports Connect_Chunk
begin

text \<open>
  Connecting all chunks of a region: the list that results is determined by the marks of the
  chunks (\<open>region_entries\<close>), and the pool satisfies its invariant with that list.
\<close>

section \<open>The entries of a region\<close>

text \<open>The objects of chunk \<open>i\<close>, when \<open>B i\<close> is its base and \<open>B (Suc i)\<close> its top.\<close>

definition chunk_objects :: "SweepScheme \<Rightarrow> (nat \<Rightarrow> addr) \<Rightarrow> nat \<Rightarrow> addr list" where
  "chunk_objects ss B i = marked_slots (sw_markMap ss) (B i) (B (Suc i))"

fun section_entries :: "SweepScheme \<Rightarrow> nat \<Rightarrow> addr \<Rightarrow> addr list list \<Rightarrow> entry list" where
  "section_entries ss mn s [] = []"
| "section_entries ss mn s (ms # mss) = chunk_adds ss mn s ms @ section_entries ss mn (next_start ss s ms) mss"

fun section_start :: "SweepScheme \<Rightarrow> addr \<Rightarrow> addr list list \<Rightarrow> addr" where
  "section_start ss s [] = s"
| "section_start ss s (ms # mss) = section_start ss (next_start ss s ms) mss"

definition region_entries :: "SweepScheme \<Rightarrow> nat \<Rightarrow> addr \<Rightarrow> addr \<Rightarrow> addr list list \<Rightarrow> entry list" where
  "region_entries ss mn low high mss = section_entries ss mn low mss @ entry_if mn (section_start ss low mss) high"

section \<open>The chunk table\<close>

definition chunk_table :: "(nat \<Rightarrow> addr) \<Rightarrow> nat \<Rightarrow> ParallelSweepChunk list \<Rightarrow> bool" where
  "chunk_table B n cs \<longleftrightarrow> length cs = n \<and> 0 < B 0 \<and> B n < UMAX \<and> (\<forall>i \<le> n. 8 dvd B i) \<and>
     (\<forall>i < n. B i < B (Suc i) \<and> chunkBase (cs ! i) = B i \<and> chunkTop (cs ! i) = B (Suc i) \<and>
        ck_previous (cs ! i) = (if i = 0 then None else Some (i - 1)) \<and> ck_memoryPool (cs ! i) = 0 \<and>
        coalesceCandidate (cs ! i) = (i \<noteq> 0))"

lemma table_mono: "chunk_table B n cs \<Longrightarrow> j \<le> n \<Longrightarrow> i \<le> j \<Longrightarrow> B i \<le> B j"
proof (induction j)
  case (Suc j)
  then have "B j < B (Suc j)" by (simp add: chunk_table_def)
  with Suc show ?case by (cases "i = Suc j") (auto simp: le_Suc_eq)
qed simp

text \<open>The lists the chunks have built, in memory from chunk \<open>i\<close> on.\<close>

definition chunk_lists :: "SweepScheme \<Rightarrow> nat \<Rightarrow> (nat \<Rightarrow> addr) \<Rightarrow> nat \<Rightarrow> nat \<Rightarrow> mem \<Rightarrow> bool" where
  "chunk_lists ss mn B i n m \<longleftrightarrow> (\<forall>j. i \<le> j \<and> j < n \<longrightarrow>
     chain m (head_addr (inner ss mn (chunk_objects ss B j))) (inner ss mn (chunk_objects ss B j)))"

definition inner_total :: "SweepScheme \<Rightarrow> nat \<Rightarrow> (nat \<Rightarrow> addr) \<Rightarrow> nat \<Rightarrow> nat \<Rightarrow> nat" where
  "inner_total ss mn B i n = (\<Sum>j \<leftarrow> [i..<n]. length (inner ss mn (chunk_objects ss B j)))"

definition objects_from :: "SweepScheme \<Rightarrow> (nat \<Rightarrow> addr) \<Rightarrow> nat \<Rightarrow> nat \<Rightarrow> addr list" where
  "objects_from ss B i n = concat (map (chunk_objects ss B) [i..<n])"

lemma objects_from_Cons: "i < n \<Longrightarrow> objects_from ss B i n = chunk_objects ss B i @ objects_from ss B (Suc i) n"
  by (simp add: objects_from_def upt_conv_Cons)

lemma inner_total_Cons:
  "i < n \<Longrightarrow> inner_total ss mn B i n = inner_total ss mn B (Suc i) n + length (inner ss mn (chunk_objects ss B i))"
  by (simp add: inner_total_def upt_conv_Cons)

lemma slots_bounds: "a \<in> set (slots lo hi) \<Longrightarrow> lo \<le> a \<and> a < hi"
  by (induction lo hi rule: slots.induct) (subst (asm) (2) slots.simps, force split: if_splits)

lemma chunk_objects_bounds: "m \<in> set (chunk_objects ss B i) \<Longrightarrow> B i \<le> m \<and> m < B (Suc i)"
  by (auto simp: chunk_objects_def marked_slots_def dest: slots_bounds)

text \<open>The invariant of the loop before chunk \<open>i\<close>.\<close>

definition connecting :: "SweepScheme \<Rightarrow> pool \<Rightarrow> (nat \<Rightarrow> addr) \<Rightarrow> nat \<Rightarrow> nat \<Rightarrow> ParallelSweepChunk list \<Rightarrow> addr \<Rightarrow> entry list
    \<Rightarrow> entry list \<Rightarrow> sweep_heap \<Rightarrow> bool" where
  "connecting ss p0 B n i cs s ys xs = (\<lambda>(chunks, p, st).
     (let mn = minimumFreeEntrySize p0; prev = map_option ((!) chunks) (connectPreviousChunk st)
      in length chunks = n \<and> (\<forall>j. i \<le> j \<and> j < n \<longrightarrow> chunks ! j = cs ! j) \<and>
         connectPreviousChunk st = (if i = 0 then None else Some (i - 1)) \<and>
         (\<forall>c. prev = Some c \<longrightarrow> chunkTop c = B i \<and> ck_memoryPool c = 0) \<and>
         conn_heap p0 (inner_total ss mn B i n) xs p st \<and> 0 < s \<and> 8 dvd s \<and> s < UMAX \<and>
         chunk_lists ss mn B i n (mem p) \<and> live_objects (sw_sizeOf ss) (objects_from ss B i n) \<and>
         (\<forall>m \<in> set (objects_from ss B i n). s \<le> m) \<and>
         (open_gap mn prev s (B i) ys xs \<or> i = n \<and> dropped_gap mn prev s (B i) ys xs)))"

lemma connecting_step:
  fixes p0 :: pool and ss :: SweepScheme
  defines "mn \<equiv> minimumFreeEntrySize p0"
  assumes t: "chunk_table B n cs" and mn: "16 \<le> mn" and i: "i < n"
    and v: "swept_view ss mn (chunk_objects ss B i) (cs ! i)" and sz: "Suc i < n \<longrightarrow> mn \<le> B (Suc i) - B i"
    and c: "connecting ss p0 B n i cs s ys xs h"
  defines "ms \<equiv> chunk_objects ss B i"
  shows "\<exists>h' xs'. connectChunk i h = Some h' \<and> i < length (fst h) \<and>
    connecting ss p0 B n (Suc i) cs (next_start ss s ms) (ys @ chunk_adds ss mn s ms) xs' h'"
proof -
  obtain chunks p st where h: "h = (chunks, p, st)" by (cases h)
  define prev where "prev = map_option ((!) chunks) (connectPreviousChunk st)"
  have len: "length chunks = n" "chunks ! i = cs ! i" using c i by (auto simp: connecting_def h Let_def)
  have cp: "connectPreviousChunk st = (if i = 0 then None else Some (i - 1))" "\<forall>c. prev = Some c \<longrightarrow> chunkTop c = B i \<and> ck_memoryPool c = 0"
    "conn_heap p0 (inner_total ss mn B i n) xs p st" "open_gap mn prev s (B i) ys xs"
    using c i by (auto simp: connecting_def h Let_def prev_def mn_def)
  have lv: "0 < s" "8 dvd s" "s < UMAX" "chunk_lists ss mn B i n (mem p)" "live_objects (sw_sizeOf ss) (objects_from ss B i n)"
    "\<forall>m \<in> set (objects_from ss B i n). s \<le> m"
    using c by (auto simp: connecting_def h Let_def mn_def)
  have tb: "B i < B (Suc i)" "chunkBase (cs ! i) = B i" "chunkTop (cs ! i) = B (Suc i)" "8 dvd B i" "8 dvd B (Suc i)"
    "ck_previous (cs ! i) = (if i = 0 then None else Some (i - 1))" "ck_memoryPool (cs ! i) = 0" "coalesceCandidate (cs ! i) = (i \<noteq> 0)"
    using t i by (auto simp: chunk_table_def)
  have bb: "0 < B i" "B (Suc i) < UMAX" using table_mono [OF t, of i 0] table_mono [OF t, of n "Suc i"] t i by (auto simp: chunk_table_def)
  note split = objects_from_Cons [OF i, of ss B, folded ms_def]
  have live: "live_objects (sw_sizeOf ss) ms" "\<forall>m \<in> set ms. B i \<le> m \<and> s \<le> m \<and> m < B (Suc i)"
    using lv(5,6) chunk_objects_bounds [of _ ss B i] by (auto simp: split live_append ms_def)
  have f: "facing prev (chunks ! i)" using cp(1,2) tb len(2) by (auto simp: facing_def prev_def)
  have hh: "conn_heap p0 (inner_total ss mn B (Suc i) n + length (inner ss mn ms)) xs p st"
    using cp(3) inner_total_Cons [OF i, of ss mn B] by (simp add: ms_def)
  have chn: "chain (mem p) (head_addr (inner ss mn ms)) (inner ss mn ms)" using lv(4) i by (simp add: chunk_lists_def ms_def)
  from connectChunk_spec [OF hh [unfolded mn_def] mn [unfolded mn_def] prev_def _ _ cp(4) [unfolded mn_def] f, of "B (Suc i)"] tb len(2) cp(1,2) live bb lv(1-3) v chn
  obtain c' p' st' xs' where
    r: "connectChunk i (chunks, p, st) = Some (chunks[i := c'], p', st')" "conn_heap p0 (inner_total ss mn B (Suc i) n) xs' p' st'"
      "connectPreviousChunk st' = Some i" "chunk_kept (cs ! i) c'"
      "open_gap mn (Some c') (next_start ss s ms) (B (Suc i)) (ys @ chunk_adds ss mn s ms) xs' \<or>
       B (Suc i) - B i < mn \<and> dropped_gap mn (Some c') (next_start ss s ms) (B (Suc i)) (ys @ chunk_adds ss mn s ms) xs'"
      "agree_outside 0 (B (Suc i)) (mem p) (mem p')" by (auto simp: mn_def ms_def)
  have gap: "open_gap mn (Some c') (next_start ss s ms) (B (Suc i)) (ys @ chunk_adds ss mn s ms) xs' \<or>
      Suc i = n \<and> dropped_gap mn (Some c') (next_start ss s ms) (B (Suc i)) (ys @ chunk_adds ss mn s ms) xs'"
    using r(5) sz i by (cases "Suc i = n") auto
  have nx: "0 < next_start ss s ms" "8 dvd next_start ss s ms" "next_start ss s ms < UMAX"
    using lv(1-3) live_last [OF live(1)] by (auto simp: next_start_def)
  have lv': "live_objects (sw_sizeOf ss) (objects_from ss B (Suc i) n)" "\<forall>m \<in> set (objects_from ss B (Suc i) n). next_start ss s ms \<le> m"
    using lv(5,6) by (auto simp: split live_append next_start_def object_end_def)
  have cl: "chunk_lists ss mn B (Suc i) n (mem p')"
    unfolding chunk_lists_def
  proof (intro allI impI)
    fix j assume j: "Suc i \<le> j \<and> j < n"
    let ?zs = "inner ss mn (chunk_objects ss B j)"
    have lj: "live_objects (sw_sizeOf ss) (chunk_objects ss B j)"
    proof -
      have "objects_from ss B i n = concat (map (chunk_objects ss B) [i..<j]) @ chunk_objects ss B j @ concat (map (chunk_objects ss B) [Suc j..<n])"
      proof -
        have "[i..<n] = [i..<j] @ j # [Suc j..<n]" using j by (metis Suc_leD le_add_diff_inverse less_imp_le_nat upt_add_eq_append upt_conv_Cons)
        then show ?thesis by (simp add: objects_from_def)
      qed
      then show ?thesis using lv(5) by (simp add: live_append)
    qed
    have wz: "entries_wf mn ?zs" unfolding inner_def by (rule inner_entries_wf [OF lj mn])
    have "apart 0 (B (Suc i)) ?zs"
    proof -
      have "B (Suc i) \<le> fst e" if "e \<in> set ?zs" for e
      proof -
        have ne: "chunk_objects ss B j \<noteq> []" using that by (auto simp: inner_def)
        then have "B j \<le> hd (chunk_objects ss B j)" using chunk_objects_bounds by (metis list.set_sel(1))
        moreover have "hd (chunk_objects ss B j) \<le> fst e" using inner_bounds(1) [OF lj ne that] by (simp add: object_end_def)
        moreover have "B (Suc i) \<le> B j" using table_mono [OF t] j by simp
        ultimately show ?thesis by simp
      qed
      then show ?thesis by (auto simp: apart_def)
    qed
    from lseg_agree [OF r(6) this wz] show "chain (mem p') (head_addr ?zs) ?zs" using lv(4) j by (simp add: chunk_lists_def)
  qed
  have "connecting ss p0 B n (Suc i) cs (next_start ss s ms) (ys @ chunk_adds ss mn s ms) xs' (chunks[i := c'], p', st')"
    using len c r(2,3,4) gap nx lv' cl i tb unfolding connecting_def prod.case Let_def mn_def [symmetric] h by (simp add: chunk_kept_def)
  then show ?thesis using r(1) len i by (auto simp: h)
qed

lemma connect_fold:
  fixes p0 :: pool and ss :: SweepScheme
  defines "mn \<equiv> minimumFreeEntrySize p0"
  assumes t: "chunk_table B n cs" and mn: "16 \<le> mn"
    and v: "\<forall>i < n. swept_view ss mn (chunk_objects ss B i) (cs ! i)" and sz: "\<forall>i. Suc i < n \<longrightarrow> mn \<le> B (Suc i) - B i"
  shows "\<lbrakk>i \<le> n; connecting ss p0 B n i cs s ys xs h\<rbrakk> \<Longrightarrow>
    \<exists>h' xs'. foldO (\<lambda>i h. do { assert_MM (i < length (fst h)); connectChunk i h }) [i..<n] h = Some h' \<and>
      connecting ss p0 B n n cs (section_start ss s (map (chunk_objects ss B) [i..<n]))
        (ys @ section_entries ss mn s (map (chunk_objects ss B) [i..<n])) xs' h'"
proof (induction "n - i" arbitrary: i s ys xs h)
  case 0
  then show ?case by auto
next
  case (Suc k)
  then have i: "i < n" by simp
  from connecting_step [OF t mn [unfolded mn_def] i _ _ Suc.prems(2)] v sz i obtain h1 xs1 where
    s1: "connectChunk i h = Some h1" "i < length (fst h)"
      "connecting ss p0 B n (Suc i) cs (next_start ss s (chunk_objects ss B i)) (ys @ chunk_adds ss mn s (chunk_objects ss B i)) xs1 h1"
    by (auto simp: mn_def)
  from Suc.hyps(1) [OF _ _ s1(3)] Suc.hyps(2) i show ?case using s1(1,2) by (simp add: upt_conv_Cons)
qed

section \<open>The end of the list\<close>

text \<open>The range after the last object becomes the last entry, when it is large enough.\<close>

lemma flushFinalChunk_spec:
  fixes p0 :: pool and ss :: SweepScheme
  defines "mn \<equiv> minimumFreeEntrySize p0"
  assumes c: "connecting ss p0 B n n cs s ys xs (chunks, p, st)" and mn: "16 \<le> mn" and n: "0 < n" and s: "s \<le> B n"
    and b: "8 dvd B n" "B n < UMAX"
  shows "\<exists>p' st'. flushFinalChunk (chunks, p, st) = Some (chunks, p', st') \<and> conn_heap p0 0 (ys @ entry_if mn s (B n)) p' st'"
proof -
  let ?T = "B n"
  define c' where "c' = chunks ! (n - 1)"
  have last_chunk: "chunks ! (n - Suc 0) = c'" by (simp add: c'_def)
  have h1: "connectPreviousChunk st = Some (n - 1)" using c n unfolding connecting_def prod.case Let_def by simp
  have h: "connectPreviousChunk st = Some (n - 1)" "conn_heap p0 0 xs p st" "0 < s" "8 dvd s"
    "open_gap mn (Some c') s ?T ys xs \<or> dropped_gap mn (Some c') s ?T ys xs"
    using c n unfolding connecting_def prod.case Let_def mn_def [symmetric] h1 by (simp_all add: c'_def inner_total_def)
  have m: "minimumFreeEntrySize p = mn" using h(2) by (simp add: conn_heap_def conn_pool_def mn_def)
  have ey: "\<forall>e \<in> set ys. fst e + snd e \<le> s" using h(5) by (auto simp: open_gap_def dropped_gap_def)
  have idle: "flushFinalChunk (chunks, p, st) = Some (chunks, p, st)" if "trailingFreeCandidateSize c' = 0"
    using h(1) that by (simp add: flushFinalChunk_def c'_def)
  consider (trailing) "trailingFreeCandidate c' = s" "trailingFreeCandidateSize c' = ?T - s" "xs = ys" "leadingFreeCandidate c' \<noteq> s" "s < ?T"
    | (closed) "trailingFreeCandidateSize c' = 0" "xs = ys @ entry_if mn s ?T"
    using h(5) s mn
    by (cases "s < ?T") (auto simp: open_gap_def dropped_gap_def prev_trailing_def prev_projection_def entry_if_def)
  then show ?thesis
  proof cases
    case closed
    then show ?thesis using idle [OF closed(1)] closed(2) h(2) by simp
  next
    case trailing
    define cn where "cn = \<lparr> previousFreeEntry = connectPreviousFreeEntry st, previousFreeEntrySize = connectPreviousFreeEntrySize st,
      previousPreviousFreeEntry = connectPreviousPreviousFreeEntry st, leadingFreeEntry = NULL, leadingFreeEntrySize = 0,
      cn_chunk = c', cn_pool = p, cn_state = st \<rparr>"
    have cc: "conn p0 0 ys cn" using h(2) trailing(3) by (simp add: conn_heap_def conn_def cn_def)
    have d: "8 dvd ?T - s" "s + (?T - s) < UMAX" using b h(4) s by simp_all
    show ?thesis
    proof (cases "mn \<le> ?T - s")
      case False
      from abandon_spec [OF cc h(3) d _ ey] False obtain m' where
        m': "abandonMemoryInPool s (?T - s) p = Some (p \<lparr> mem := m' \<rparr>)" "conn p0 0 ys (cn \<lparr> cn_pool := p \<lparr> mem := m' \<rparr> \<rparr>)"
        by (auto simp: mn_def cn_def)
      have "flushFinalChunk (chunks, p, st) = Some (chunks, p \<lparr> mem := m' \<rparr>, st)"
        using h(1) trailing False m m'(1) by (simp add: flushFinalChunk_def c'_def canMemoryBeConnectedToPool_def)
      then show ?thesis using m'(2) False by (auto simp: conn_heap_def conn_def cn_def entry_if_def)
    next
      case True
      have "entry_ok (minimumFreeEntrySize p0) (s, ?T - s)" using True mn d h(3,4) by (simp add: entry_ok_def mn_def)
      from connect_entry_spec [OF cc this ey] obtain cn' where
        cn': "connect_entry s (?T - s) cn = Some cn'" "conn p0 0 (ys @ [(s, ?T - s)]) cn'" by blast
      from cn'(1) trailing(5) obtain p1 p2 where
        p: "connectOuterMemoryToPool (connectPreviousFreeEntry st) (connectPreviousFreeEntrySize st) s p = Some p1"
          "incrementStats (?T - s) p1 = Some p2" "cn_pool cn' = p2"
          "cn_state cn' = sp_updateLargestFreeEntry (?T - s) (connectPreviousFreeEntry st) (count_free (?T - s) st)"
        by (auto simp: connect_entry_def cn_def bind_eq_Some_conv)
      define st' where "st' = st \<lparr> connectPreviousPreviousFreeEntry := connectPreviousFreeEntry st, connectPreviousFreeEntry := s,
        connectPreviousFreeEntrySize := ?T - s \<rparr>"
      have "flushFinalChunk (chunks, p, st) = Some (chunks, p2, sp_updateLargestFreeEntry (?T - s) (connectPreviousFreeEntry st) (count_free (?T - s) st'))"
        using h(1) trailing True m p(1,2) last_chunk by (simp add: flushFinalChunk_def canMemoryBeConnectedToPool_def st'_def Let_def)
      moreover have "connectPreviousFreeEntry st = last_addr ys" using h(2) trailing(3) by (simp add: conn_heap_def)
      then have "conn_heap p0 0 (ys @ [(s, ?T - s)]) p2 (sp_updateLargestFreeEntry (?T - s) (connectPreviousFreeEntry st) (count_free (?T - s) st'))"
        using cn'(2) p(3,4) by (cases "sp_largestFreeEntry st < ?T - s")
          (simp_all add: conn_heap_def conn_def conn_state_def sp_updateLargestFreeEntry_def count_free_def st'_def)
      ultimately show ?thesis using True by (simp add: entry_if_def)
    qed
  qed
qed

lemma connectFinalChunk_spec:
  fixes p0 :: pool
  assumes h: "conn_heap p0 0 xs p st" and hints: "hintActive p0 = []" "0 < hint_nodes p0"
  shows "\<exists>p' st'. connectFinalChunk (chunks, p, st) = Some (chunks, p', st') \<and> pool_inv p' xs \<and> largestFreeEntry p' = search_size 0 xs \<and>
    same_geometry p0 p'"
proof -
  have cp: "linked (mem p) (heapFreeList p) xs" "entries_wf (minimumFreeEntrySize p) xs" "stats_ready (largeObjectAllocateStats p)"
    "total_count (freeEntrySizeClassStats (largeObjectAllocateStats p)) = of_nat (length xs)"
    "minimumFreeEntrySize p = minimumFreeEntrySize p0" "hintActive p = []" "hintInactive p = hintInactive p0" "same_geometry p0 p"
    and cs: "sweepFreeBytes st = entries_size xs" "sweepFreeHoles st = length xs" "sp_largestFreeEntry st = search_size 0 xs"
    and pr: "connectPreviousFreeEntry st = last_addr xs" "connectPreviousFreeEntrySize st = last_size xs"
    using h hints by (auto simp: conn_heap_def conn_pool_def conn_state_def)
  have "\<exists>m'. chain m' (heapFreeList p) xs \<and> (if xs = [] then m' = mem p else
      connectFinalMemoryToPool (last_addr xs) (last_size xs) p = Some (p \<lparr> mem := m' \<rparr>))"
  proof (cases xs rule: rev_cases)
    case Nil
    then show ?thesis using cp(1) by (simp add: linked_def)
  next
    case (snoc ys e)
    have e: "entry_ok (minimumFreeEntrySize p) e" "entries_wf (minimumFreeEntrySize p) ys" "\<forall>f \<in> set ys. fst f + snd f \<le> fst e"
      using cp(2) snoc by (auto simp: entries_wf_simps before_def)
    note eo = entry_okD [OF e(1)]
    from internalRecycleHeapChunk_spec [OF eo(5,8,2), of NULL p] eo obtain m' where
      r: "internalRecycleHeapChunk (fst e) (fst e + snd e) NULL p = Some (True, p \<lparr> mem := m' \<rparr>)"
      and ag: "agree_outside (fst e) (fst e + snd e) (mem p) m'" and g: "getSize m' (fst e) = snd e" "getNext m' (fst e) = NULL" by auto
    have "uadd (fst e) (snd e) = fst e + snd e" using eo by (simp add: uadd_exact)
    then have "connectFinalMemoryToPool (last_addr xs) (last_size xs) p = Some (p \<lparr> mem := m' \<rparr>)"
      using snoc r eo by (simp add: connectFinalMemoryToPool_def createFreeEntry_alone_def createFreeEntry_def)
    moreover have "chain m' (heapFreeList p) xs"
    proof -
      have "apart (fst e) (fst e + snd e) ys" using e(3) by (auto simp: apart_def)
      then have "lseg m' (heapFreeList p) ys (fst e)" using cp(1) snoc lseg_agree [OF ag _ e(2)] unfolding linked_def by auto
      then show ?thesis using snoc g eo by (auto simp: lseg_append)
    qed
    ultimately show ?thesis using snoc by auto
  qed
  then obtain m' where m': "chain m' (heapFreeList p) xs" "xs = [] \<Longrightarrow> m' = mem p"
    "xs \<noteq> [] \<Longrightarrow> connectFinalMemoryToPool (last_addr xs) (last_size xs) p = Some (p \<lparr> mem := m' \<rparr>)" by (auto split: if_splits)
  have large: "sp_updateLargestFreeEntry (last_size xs) a st = st" for a
    using cs(3) search_size_bound [of 0 xs] by (auto simp: sp_updateLargestFreeEntry_def last_size_def dest!: last_in_set bspec)
  define p' where "p' = updateMemoryPoolStatistics (entries_size xs) (length xs) (search_size 0 xs) (p \<lparr> mem := m' \<rparr>)"
  have nl: "last_addr xs = NULL \<longleftrightarrow> xs = []" by (rule last_addr_NULL [OF cp(2)])
  have "connectFinalChunk (chunks, p, st) = Some (chunks, p', st)"
    using m' pr cs nl large by (cases "xs = []") (simp_all add: connectFinalChunk_def p'_def)
  moreover have "pool_inv p' xs"
  proof -
    have "\<forall>e \<in> set xs. fst e + snd e \<le> UMAX - 1" using cp(2) by (fastforce simp: entries_wf_def dest: entry_okD(8))
    then have "entries_size xs < UMAX" "length xs < UMAX" using wf_size_bound [OF cp(2), of "UMAX - 1"] by (auto simp: UMAX_def)
    then show ?thesis using m'(1) cp hints
      by (simp add: pool_inv_def free_list_def accounted_def hints_ok_def hint_nodes_def p'_def updateMemoryPoolStatistics_def)
  qed
  ultimately show ?thesis using cp(8) by (simp add: p'_def updateMemoryPoolStatistics_def same_geometry_def)
qed

end
