(* ===== verification/Sweep_Workers.thy ===== *)
theory Sweep_Workers
  imports Connect_All
begin

text \<open>
  The workers: each sweeps the chunks it is given and merges its statistics into the pool's.
  When every chunk is given to one worker, all chunks are swept, their lists are in memory and
  the pool counts all their entries.
\<close>

section \<open>Swept chunks\<close>

text \<open>The chunks of \<open>D\<close> are swept, the others untouched.\<close>

definition swept_upto :: "SweepScheme \<Rightarrow> nat \<Rightarrow> (nat \<Rightarrow> addr) \<Rightarrow> nat \<Rightarrow> ParallelSweepChunk list \<Rightarrow> nat set \<Rightarrow> ParallelSweepChunk list \<Rightarrow> mem \<Rightarrow> bool" where
  "swept_upto ss mn B n cs0 D cs m \<longleftrightarrow> length cs = n \<and>
     (\<forall>i < n. if i \<in> D
        then (\<exists>x db dn. cs ! i = (swept_chunk ss mn (chunk_objects ss B i) x (cs0 ! i)) \<lparr> ck_darkMatterBytes := db, ck_darkMatterSamples := dn \<rparr>) \<and>
             chain m (head_addr (inner ss mn (chunk_objects ss B i))) (inner ss mn (chunk_objects ss B i))
        else cs ! i = cs0 ! i)"

text \<open>A region divided into fresh chunks whose boundaries are boundaries of map words.\<close>

definition sectioned :: "SweepScheme \<Rightarrow> (nat \<Rightarrow> addr) \<Rightarrow> nat \<Rightarrow> ParallelSweepChunk list \<Rightarrow> bool" where
  "sectioned ss B n cs \<longleftrightarrow> chunk_table B n cs \<and> (\<forall>i < n. fresh_chunk (cs ! i)) \<and>
     (\<forall>i \<le> n. \<exists>b. B i = word_addr (sw_markMap ss) b) \<and> B n + 512 \<le> UMAX"

lemma live_chunk:
  assumes "live_objects (sw_sizeOf ss) (objects_from ss B 0 n)" "i < n"
  shows "live_objects (sw_sizeOf ss) (chunk_objects ss B i)"
proof -
  have "[0..<n] = [0..<i] @ i # [Suc i..<n]" using assms(2)
    by (metis le_add_diff_inverse less_imp_le_nat upt_add_eq_append upt_conv_Cons zero_le)
  then show ?thesis using assms(1) by (simp add: objects_from_def live_append)
qed

lemma inner_in_chunk:
  assumes "live_objects (sw_sizeOf ss) (chunk_objects ss B i)" "e \<in> set (inner ss mn (chunk_objects ss B i))"
  shows "B i \<le> fst e \<and> fst e + snd e \<le> B (Suc i)"
proof -
  have ne: "chunk_objects ss B i \<noteq> []" using assms(2) by (auto simp: inner_def)
  note ib = inner_bounds [OF assms(1) ne assms(2)]
  have "B i \<le> hd (chunk_objects ss B i)" "last (chunk_objects ss B i) < B (Suc i)" using chunk_objects_bounds ne by (metis hd_in_set, metis last_in_set)
  then show ?thesis using ib by (simp add: object_end_def)
qed

lemma sweep_next:
  fixes ss :: SweepScheme and p :: pool
  defines "mn \<equiv> minimumFreeEntrySize p" and "los \<equiv> largeObjectAllocateStats p"
  assumes ok: "map_ok ss" and sec: "sectioned ss B n cs0" and mn: "min_ok p" and pl: "plain_sizes los" and es: "local_stats los es"
    and live: "live_objects (sw_sizeOf ss) (objects_from ss B 0 n)"
    and sw: "swept_upto ss mn B n cs0 D cs (mem p)" and i: "i < n" "i \<notin> D"
  shows "\<exists>m' es' c' ret. sweepChunk ss (cs ! i, p, es) = Some (ret, c', p \<lparr> mem := m' \<rparr>, es') \<and>
    swept_upto ss mn B n cs0 (insert i D) (cs[i := c']) m' \<and> local_stats los es' \<and>
    total_count es' = total_count es + of_nat (length (inner ss mn (chunk_objects ss B i)))"
proof -
  let ?hm = "sw_markMap ss"
  have len: "length cs = n" "cs ! i = cs0 ! i" using sw i by (auto simp: swept_upto_def)
  have t: "chunk_table B n cs0" "fresh_chunk (cs0 ! i)" "B n + 512 \<le> UMAX" using sec i by (auto simp: sectioned_def)
  obtain b b' where b: "B i = word_addr ?hm b" "B (Suc i) = word_addr ?hm b'" using sec i(1) by (force simp: sectioned_def)
  have tb: "B i < B (Suc i)" "chunkBase (cs0 ! i) = B i" "chunkTop (cs0 ! i) = B (Suc i)" "B (Suc i) \<le> B n"
    using t(1) i(1) table_mono [OF t(1), of n "Suc i"] by (auto simp: chunk_table_def)
  have lv: "live_objects (sw_sizeOf ss) (chunk_objects ss B i)" by (rule live_chunk [OF live i(1)])
  have co: "chunk_objects ss B i = marks ?hm b b'" by (simp add: chunk_objects_def b)
  have bb: "b < b'" "word_addr ?hm b' + 512 \<le> UMAX" using tb(1,4) b t(3) by auto
  from sweepChunk_spec [OF ok bb t(2) _ _ mn pl [unfolded los_def] es [unfolded los_def] lv [unfolded co]] tb b
  obtain m' x es' db dn where
    r: "sweepChunk ss (cs0 ! i, p, es) = Some (chunk_objects ss B i \<noteq> [],
        (swept_chunk ss mn (chunk_objects ss B i) x (cs0 ! i)) \<lparr> ck_darkMatterBytes := db, ck_darkMatterSamples := dn \<rparr>, p \<lparr> mem := m' \<rparr>, es')"
      "chain m' (head_addr (inner ss mn (chunk_objects ss B i))) (inner ss mn (chunk_objects ss B i))"
      "agree_outside (B i) (B (Suc i)) (mem p) m'" "local_stats los es'"
      "total_count es' = total_count es + of_nat (length (inner ss mn (chunk_objects ss B i)))"
    by (auto simp: co inner_def mn_def los_def)
  define c' where "c' = (swept_chunk ss mn (chunk_objects ss B i) x (cs0 ! i)) \<lparr> ck_darkMatterBytes := db, ck_darkMatterSamples := dn \<rparr>"
  have "swept_upto ss mn B n cs0 (insert i D) (cs[i := c']) m'"
    unfolding swept_upto_def
  proof (intro conjI allI impI)
    fix j assume j: "j < n"
    let ?zs = "inner ss mn (chunk_objects ss B j)"
    have old: "if j \<in> D
        then (\<exists>x db dn. cs ! j = (swept_chunk ss mn (chunk_objects ss B j) x (cs0 ! j)) \<lparr> ck_darkMatterBytes := db, ck_darkMatterSamples := dn \<rparr>) \<and>
             chain (mem p) (head_addr ?zs) ?zs else cs ! j = cs0 ! j" using sw j by (simp add: swept_upto_def)
    have keep: "chain m' (head_addr ?zs) ?zs = chain (mem p) (head_addr ?zs) ?zs" if "j \<noteq> i"
    proof (rule lseg_agree [OF r(3)])
      have lj: "live_objects (sw_sizeOf ss) (chunk_objects ss B j)" by (rule live_chunk [OF live j])
      then show "entries_wf mn ?zs" unfolding inner_def by (rule inner_entries_wf) (use mn in \<open>simp add: min_ok_def mn_def\<close>)
      have "B (Suc j) \<le> B i \<or> B (Suc i) \<le> B j" using table_mono [OF t(1), of i "Suc j"] table_mono [OF t(1), of j "Suc i"] i(1) j that by linarith
      then show "apart (B i) (B (Suc i)) ?zs" using inner_in_chunk [OF lj] by (fastforce simp: apart_def)
    qed
    show "if j \<in> insert i D
        then (\<exists>x db dn. cs[i := c'] ! j = (swept_chunk ss mn (chunk_objects ss B j) x (cs0 ! j)) \<lparr> ck_darkMatterBytes := db, ck_darkMatterSamples := dn \<rparr>) \<and>
             chain m' (head_addr ?zs) ?zs else cs[i := c'] ! j = cs0 ! j"
    proof (cases "j = i")
      case True
      then show ?thesis using r(2) len(1) j by (auto simp: c'_def)
    next
      case False
      then show ?thesis using old keep by simp
    qed
  qed (use len in simp)
  then show ?thesis using r len unfolding c'_def by auto
qed

section \<open>One worker\<close>

definition worker_ok :: "LargeObjectAllocateStats \<Rightarrow> FreeEntrySizeClassStats \<Rightarrow> bool" where
  "worker_ok los es \<longleftrightarrow> cleared los es \<and>
     (\<exists>s. size_lists (freeEntrySizeClassStats los) = size_lists s \<and> lists_sizes los (frequent_set los (maxFrequentAllocateSizes es)) s)"

definition share :: "(nat \<Rightarrow> bool) \<Rightarrow> nat \<Rightarrow> nat set" where
  "share handles n = {i. i < n \<and> handles i}"

lemma share_Suc: "share h (Suc i) = (if h i then insert i (share h i) else share h i)"
  by (auto simp: share_def less_Suc_eq)

lemma share_simps [simp]: "finite (share h n)" "i \<notin> share h i" "share h 0 = {}"
  by (simp_all add: share_def)

definition entries_of :: "SweepScheme \<Rightarrow> nat \<Rightarrow> (nat \<Rightarrow> addr) \<Rightarrow> nat set \<Rightarrow> nat" where
  "entries_of ss mn B D = (\<Sum>i \<in> D. length (inner ss mn (chunk_objects ss B i)))"

lemma entries_of_insert: "finite D \<Longrightarrow> i \<notin> D \<Longrightarrow>
  entries_of ss mn B (insert i D) = entries_of ss mn B D + length (inner ss mn (chunk_objects ss B i))"
  by (simp add: entries_of_def)

text \<open>The state of a worker's loop before chunk \<open>i\<close>.\<close>

definition sweeping :: "SweepScheme \<Rightarrow> pool \<Rightarrow> (nat \<Rightarrow> addr) \<Rightarrow> nat \<Rightarrow> ParallelSweepChunk list \<Rightarrow> nat set \<Rightarrow> (nat \<Rightarrow> bool)
    \<Rightarrow> FreeEntrySizeClassStats \<Rightarrow> nat \<Rightarrow> worker \<Rightarrow> bool" where
  "sweeping ss p0 B n cs0 D h es0 i = (\<lambda>(started, cs, p, es).
     (let mn = minimumFreeEntrySize p0; los = largeObjectAllocateStats p0
      in p = p0 \<lparr> mem := mem p \<rparr> \<and> swept_upto ss mn B n cs0 (D \<union> share h i) cs (mem p) \<and>
         (if started then local_stats los es \<and> total_count es = of_nat (entries_of ss mn B (share h i))
          else es = es0 \<and> share h i = {})))"

lemma sweeping_step:
  fixes ss :: SweepScheme and p0 :: pool
  assumes ok: "map_ok ss" and sec: "sectioned ss B n cs0" and mn: "min_ok p0" and pl: "plain_sizes (largeObjectAllocateStats p0)"
    and fr: "frequent_ok (largeObjectAllocateStats p0)" and wo: "worker_ok (largeObjectAllocateStats p0) es0"
    and live: "live_objects (sw_sizeOf ss) (objects_from ss B 0 n)" and D: "share h n \<inter> D = {}" and i: "i < n"
    and w: "sweeping ss p0 B n cs0 D h es0 i w"
  shows "\<exists>w'. sweep_one ss h i w = Some w' \<and> sweeping ss p0 B n cs0 D h es0 (Suc i) w'"
proof -
  define mn1 where "mn1 = minimumFreeEntrySize p0"
  define los where "los = largeObjectAllocateStats p0"
  obtain started cs p es where ww: "w = (started, cs, p, es)" by (cases w)
  have p: "p = p0 \<lparr> mem := mem p \<rparr>" and sw: "swept_upto ss mn1 B n cs0 (D \<union> share h i) cs (mem p)"
    and st: "if started then local_stats los es \<and> total_count es = of_nat (entries_of ss mn1 B (share h i)) else es = es0 \<and> share h i = {}"
    using w unfolding sweeping_def ww prod.case Let_def mn1_def los_def by blast+
  have pf: "minimumFreeEntrySize p = mn1" "largeObjectAllocateStats p = los" by (subst p, simp add: mn1_def los_def)+
  have len: "i < length cs" using sw i by (simp add: swept_upto_def)
  show ?thesis
  proof (cases "h i")
    case False
    then have "share h (Suc i) = share h i" by (simp add: share_Suc)
    then have "sweeping ss p0 B n cs0 D h es0 (Suc i) w" using w by (simp only: sweeping_def)
    then show ?thesis using False len by (simp add: sweep_one_def ww)
  next
    case True
    obtain es1 where es1: "(if started then Some es else initializeFrequentAllocation los es) = Some es1" "local_stats los es1"
      "total_count es1 = of_nat (entries_of ss mn1 B (share h i))"
    proof (cases started)
      case False
      then have e: "es = es0" "share h i = {}" using st by auto
      from wo obtain s where "cleared los es0" "size_lists (freeEntrySizeClassStats los) = size_lists s"
        "lists_sizes los (frequent_set los (maxFrequentAllocateSizes es0)) s" by (auto simp: worker_ok_def los_def)
      from worker_starts [OF this(1) pl [folded los_def] fr [folded los_def] this(2,3)] show ?thesis
        using that False e by (auto simp: entries_of_def)
    qed (use that st in auto)
    have "i \<in> share h n" using True i by (simp add: share_def)
    then have iD: "i \<notin> D \<union> share h i" using D by auto
    have mnp: "min_ok p" "plain_sizes (largeObjectAllocateStats p)" "local_stats (largeObjectAllocateStats p) es1"
      using mn pl es1(2) pf by (simp_all add: min_ok_def mn1_def los_def)
    from sweep_next [OF ok sec mnp live sw [folded pf(1)] i iD] obtain m' es2 c' ret where
      r: "sweepChunk ss (cs ! i, p, es1) = Some (ret, c', p \<lparr> mem := m' \<rparr>, es2)"
        "swept_upto ss mn1 B n cs0 (insert i (D \<union> share h i)) (cs[i := c']) m'" "local_stats los es2"
        "total_count es2 = total_count es1 + of_nat (length (inner ss mn1 (chunk_objects ss B i)))" unfolding pf by blast
    have "sweep_one ss h i w = Some (True, cs[i := c'], p \<lparr> mem := m' \<rparr>, es2)"
      using True len r(1) es1(1) pf(2) by (cases started) (simp_all add: sweep_one_def ww)
    moreover have "p \<lparr> mem := m' \<rparr> = p0 \<lparr> mem := m' \<rparr>" by (subst p) simp
    then have "sweeping ss p0 B n cs0 D h es0 (Suc i) (True, cs[i := c'], p \<lparr> mem := m' \<rparr>, es2)"
      using r True es1(3) unfolding sweeping_def prod.case Let_def mn1_def [symmetric] los_def [symmetric]
      by (simp add: share_Suc entries_of_insert)
    ultimately show ?thesis by blast
  qed
qed

lemma sweeping_loop:
  fixes ss :: SweepScheme and p0 :: pool
  assumes ok: "map_ok ss" and sec: "sectioned ss B n cs0" and mn: "min_ok p0" and pl: "plain_sizes (largeObjectAllocateStats p0)"
    and fr: "frequent_ok (largeObjectAllocateStats p0)" and wo: "worker_ok (largeObjectAllocateStats p0) es0"
    and live: "live_objects (sw_sizeOf ss) (objects_from ss B 0 n)" and D: "share h n \<inter> D = {}"
  shows "\<lbrakk>i \<le> n; sweeping ss p0 B n cs0 D h es0 i w\<rbrakk> \<Longrightarrow>
    \<exists>w'. foldO (sweep_one ss h) [i..<n] w = Some w' \<and> sweeping ss p0 B n cs0 D h es0 n w'"
proof (induction "n - i" arbitrary: i w)
  case (Suc k)
  then have i: "i < n" by simp
  from sweeping_step [OF assms i Suc.prems(2)] obtain w1 where
    w1: "sweep_one ss h i w = Some w1" "sweeping ss p0 B n cs0 D h es0 (Suc i) w1" by blast
  from Suc.hyps(1) [OF _ _ w1(2)] Suc.hyps(2) i w1(1) show ?case by (simp add: upt_conv_Cons)
qed simp

text \<open>A worker's whole run; the pool's statistics keep their exact sizes.\<close>

definition same_sizes :: "LargeObjectAllocateStats \<Rightarrow> LargeObjectAllocateStats \<Rightarrow> bool" where
  "same_sizes los los' \<longleftrightarrow> (\<exists>s'. los' = los \<lparr> freeEntrySizeClassStats := s' \<rparr> \<and>
     size_lists s' = size_lists (freeEntrySizeClassStats los) \<and> maxSizeClasses s' = maxSizeClasses (freeEntrySizeClassStats los))"

lemma same_sizes_refl [simp]: "same_sizes los los"
  by (auto simp: same_sizes_def intro!: exI [of _ "freeEntrySizeClassStats los"])

lemma same_sizes_trans: "same_sizes los los' \<Longrightarrow> same_sizes los' los'' \<Longrightarrow> same_sizes los los''"
  by (auto simp: same_sizes_def)

lemma same_sizes_keeps:
  assumes "same_sizes los los'"
  shows "plain_sizes los' = plain_sizes los" "frequent_ok los' = frequent_ok los" "worker_ok los' es = worker_ok los es"
proof -
  obtain s' where e: "los' = los \<lparr> freeEntrySizeClassStats := s' \<rparr>"
    and s: "size_lists s' = size_lists (freeEntrySizeClassStats los)" "maxSizeClasses s' = maxSizeClasses (freeEntrySizeClassStats los)"
    using assms by (auto simp: same_sizes_def)
  show "plain_sizes los' = plain_sizes los" using s by (simp add: e plain_sizes_def)
  have f: "frequent_size los' i = frequent_size los i" "frequent_multiples los' i = frequent_multiples los i" for i
    by (simp_all add: e frequent_size_def frequent_multiples_def)
  show "frequent_ok los' = frequent_ok los" by (simp add: frequent_ok_def f) (simp add: e)
  have "frequent_set los' k = frequent_set los k" for k by (simp add: frequent_set_def f) (simp add: e)
  moreover have "lists_sizes los' Z t = lists_sizes los Z t" for Z t using s by (simp add: lists_sizes_def e)
  ultimately show "worker_ok los' es = worker_ok los es" using s by (simp add: worker_ok_def cleared_def e)
qed

lemma stats_ready_merge:
  assumes "stats_ready los" "plain_sizes los" "los_wf (los \<lparr> freeEntrySizeClassStats := s' \<rparr>)"
    "maxSizeClasses s' = maxSizeClasses (freeEntrySizeClassStats los)"
  shows "stats_ready (los \<lparr> freeEntrySizeClassStats := s' \<rparr>)"
  using assms by (auto simp: stats_ready_def plain_sizes_def)

lemma sweepAllChunks_spec:
  fixes ss :: SweepScheme and p :: pool
  defines "mn \<equiv> minimumFreeEntrySize p" and "los \<equiv> largeObjectAllocateStats p"
  assumes ok: "map_ok ss" and sec: "sectioned ss B n cs0" and mn: "min_ok p" and pl: "plain_sizes los"
    and fr: "frequent_ok los" and wo: "worker_ok los es" and sr: "stats_ready los"
    and live: "live_objects (sw_sizeOf ss) (objects_from ss B 0 n)" and D: "share h n \<inter> D = {}"
    and sw: "swept_upto ss mn B n cs0 D cs (mem p)"
  shows "\<exists>cs' m' los' es'. sweepAllChunks ss h n (cs, p, es) = Some (cs', p \<lparr> mem := m', largeObjectAllocateStats := los' \<rparr>, es') \<and>
    swept_upto ss mn B n cs0 (D \<union> share h n) cs' m' \<and> same_sizes los los' \<and> stats_ready los' \<and>
    total_count (freeEntrySizeClassStats los') = total_count (freeEntrySizeClassStats los) + of_nat (entries_of ss mn B (share h n))"
proof -
  have "sweeping ss p B n cs0 D h es 0 (False, cs, p, es)" using sw by (simp add: sweeping_def mn_def Let_def)
  from sweeping_loop [OF ok sec mn pl [unfolded los_def] fr [unfolded los_def] wo [unfolded los_def] live D _ this] obtain started cs' p' es' where
    f: "foldO (sweep_one ss h) [0..<n] (False, cs, p, es) = Some (started, cs', p', es')"
    and s: "sweeping ss p B n cs0 D h es n (started, cs', p', es')" by (metis le0 prod_cases4)
  have p': "p' = p \<lparr> mem := mem p' \<rparr>" and sw': "swept_upto ss mn B n cs0 (D \<union> share h n) cs' (mem p')"
    and st: "if started then local_stats los es' \<and> total_count es' = of_nat (entries_of ss mn B (share h n)) else es' = es \<and> share h n = {}"
    using s unfolding sweeping_def prod.case Let_def mn_def los_def by blast+
  have pf: "largeObjectAllocateStats p' = los" by (subst p') (simp add: los_def)
  show ?thesis
  proof (cases started)
    case False
    then have "sweepAllChunks ss h n (cs, p, es) = Some (cs', p', es')" using f by (simp add: sweepAllChunks_def)
    moreover have "p' = p \<lparr> mem := mem p', largeObjectAllocateStats := los \<rparr>" by (subst p') (simp add: los_def)
    ultimately show ?thesis using sw' sr st False by (intro exI [of _ cs'] exI [of _ "mem p'"] exI [of _ los] exI [of _ es']) (simp add: entries_of_def)
  next
    case True
    then have l: "local_stats los es'" "total_count es' = of_nat (entries_of ss mn B (share h n))" using st by auto
    have "los_wf los" using sr by (simp add: stats_ready_def)
    from merge_local [OF l(1) this] obtain s' where
      m: "fe_merge es' (freeEntrySizeClassStats los) = Some s'" "los_wf (los \<lparr> freeEntrySizeClassStats := s' \<rparr>)"
        "size_lists s' = size_lists (freeEntrySizeClassStats los)" "maxSizeClasses s' = maxSizeClasses (freeEntrySizeClassStats los)"
        "total_count s' = total_count (freeEntrySizeClassStats los) + total_count es'" by blast
    define los' where "los' = los \<lparr> freeEntrySizeClassStats := s' \<rparr>"
    have "sweepAllChunks ss h n (cs, p, es) = Some (cs', p' \<lparr> largeObjectAllocateStats := los' \<rparr>, resetCounts es')"
      using f True m(1) pf by (simp add: sweepAllChunks_def mergeLocked_def los'_def)
    moreover have "p' \<lparr> largeObjectAllocateStats := los' \<rparr> = p \<lparr> mem := mem p', largeObjectAllocateStats := los' \<rparr>" by (subst p') simp
    moreover have "same_sizes los los'" using m by (auto simp: same_sizes_def los'_def)
    moreover have "stats_ready los'" unfolding los'_def by (rule stats_ready_merge [OF sr pl m(2,4)])
    ultimately show ?thesis using sw' m(5) l(2)
      by (intro exI [of _ cs'] exI [of _ "mem p'"] exI [of _ los'] exI [of _ "resetCounts es'"]) (simp add: los'_def)
  qed
qed

section \<open>All workers\<close>

definition left_over :: "nat \<Rightarrow> nat set \<Rightarrow> ((nat \<Rightarrow> bool) \<times> FreeEntrySizeClassStats) list \<Rightarrow> bool" where
  "left_over n D ws \<longleftrightarrow> (\<forall>i < n. length (filter (\<lambda>w. fst w i) ws) = (if i \<in> D then 0 else 1))"

lemma run_workers_spec:
  fixes ss :: SweepScheme and p :: pool
  defines "mn \<equiv> minimumFreeEntrySize p" and "los \<equiv> largeObjectAllocateStats p"
  assumes ok: "map_ok ss" and sec: "sectioned ss B n cs0" and mn: "min_ok p" and pl: "plain_sizes los"
    and fr: "frequent_ok los" and wo: "\<forall>w \<in> set ws. worker_ok los (resetCounts (snd w))" and sr: "stats_ready los"
    and live: "live_objects (sw_sizeOf ss) (objects_from ss B 0 n)" and D: "left_over n D ws" "D \<subseteq> {..<n}"
    and sw: "swept_upto ss mn B n cs0 D cs (mem p)"
    and tc: "total_count (freeEntrySizeClassStats los) = of_nat (entries_of ss mn B D)"
  shows "\<exists>cs' m' los'. run_workers ss ws n (cs, p) = Some (cs', p \<lparr> mem := m', largeObjectAllocateStats := los' \<rparr>) \<and>
    swept_upto ss mn B n cs0 {..<n} cs' m' \<and> stats_ready los' \<and> same_sizes los los' \<and>
    total_count (freeEntrySizeClassStats los') = of_nat (entries_of ss mn B {..<n})"
  using mn pl fr wo sr D sw tc unfolding mn_def los_def
proof (induction ws arbitrary: p cs D)
  case Nil
  have "D = {..<n}" using Nil.prems(6,7) by (auto simp: left_over_def split: if_splits)
  then show ?case using Nil.prems(5,8,9)
    by (intro exI [of _ cs] exI [of _ "mem p"] exI [of _ "largeObjectAllocateStats p"]) simp
next
  case (Cons w ws)
  obtain h es where w: "w = (h, es)" by (cases w)
  let ?mn = "minimumFreeEntrySize p" and ?los = "largeObjectAllocateStats p"
  have dis: "share h n \<inter> D = {}" using Cons.prems(6) by (auto simp: left_over_def share_def w split: if_splits)
  have wo: "worker_ok ?los (resetCounts es)" using Cons.prems(4) w by simp
  from sweepAllChunks_spec [OF ok sec Cons.prems(1-3) wo Cons.prems(5) live dis Cons.prems(8)] obtain cs1 m1 los1 es1 where
    s1: "sweepAllChunks ss h n (cs, p, resetCounts es) = Some (cs1, p \<lparr> mem := m1, largeObjectAllocateStats := los1 \<rparr>, es1)"
      "swept_upto ss ?mn B n cs0 (D \<union> share h n) cs1 m1" "same_sizes ?los los1" "stats_ready los1"
      "total_count (freeEntrySizeClassStats los1) = total_count (freeEntrySizeClassStats ?los) + of_nat (entries_of ss ?mn B (share h n))" by blast
  let ?p = "p \<lparr> mem := m1, largeObjectAllocateStats := los1 \<rparr>"
  have k: "plain_sizes los1" "frequent_ok los1" "\<forall>w \<in> set ws. worker_ok los1 (resetCounts (snd w))"
    using same_sizes_keeps [OF s1(3)] Cons.prems(2-4) by auto
  have lo: "left_over n (D \<union> share h n) ws"
    using Cons.prems(6) by (auto simp: left_over_def share_def w split: if_splits)
  have fin: "finite D" using Cons.prems(7) finite_subset by blast
  then have "entries_of ss ?mn B (D \<union> share h n) = entries_of ss ?mn B D + entries_of ss ?mn B (share h n)"
    unfolding entries_of_def using dis by (intro sum.union_disjoint) auto
  then have tc1: "total_count (freeEntrySizeClassStats los1) = of_nat (entries_of ss ?mn B (D \<union> share h n))" using s1(5) Cons.prems(9) by simp
  have sub: "D \<union> share h n \<subseteq> {..<n}" using Cons.prems(7) by (auto simp: share_def)
  from Cons.IH [of ?p "D \<union> share h n" cs1] Cons.prems(1) k s1(2,4) lo sub tc1 obtain cs' m' los' where
    "run_workers ss ws n (cs1, ?p) = Some (cs', ?p \<lparr> mem := m', largeObjectAllocateStats := los' \<rparr>)"
    "swept_upto ss ?mn B n cs0 {..<n} cs' m'" "stats_ready los'" "same_sizes los1 los'"
    "total_count (freeEntrySizeClassStats los') = of_nat (entries_of ss ?mn B {..<n})" by (auto simp: min_ok_def)
  then show ?case using s1(1) same_sizes_trans [OF s1(3)] by (intro exI [of _ cs'] exI [of _ m'] exI [of _ los']) (simp add: w)
qed

end
