(* ===== verification/Sweep_Heap.thy ===== *)
theory Sweep_Heap
  imports Sweep_Workers
begin

text \<open>
  The sweep of the heap: the division of a region into chunks, and the whole of \<open>internalSweep\<close>.
  It returns, and it leaves the pool with the free list of the region's gaps.
\<close>

section \<open>Dividing a region\<close>

definition chunk_count :: "nat \<Rightarrow> addr \<Rightarrow> addr \<Rightarrow> nat" where
  "chunk_count sz base high = (high - base + sz - 1) div sz"

definition first_number :: "nat option \<Rightarrow> nat" where
  "first_number previous = (case previous of None \<Rightarrow> 0 | Some j \<Rightarrow> j + 1)"

definition chunk_at :: "nat \<Rightarrow> addr \<Rightarrow> addr \<Rightarrow> addr \<Rightarrow> nat option \<Rightarrow> nat \<Rightarrow> nat option \<Rightarrow> ParallelSweepChunk" where
  "chunk_at sz low base high previous i nx =
     new_chunk \<lparr> chunkBase := base + i * sz, chunkTop := min (base + Suc i * sz) high, coalesceCandidate := (base + i * sz \<noteq> low),
       ck_previous := (if i = 0 then previous else Some (first_number previous + i - 1)), ck_next := nx \<rparr>"

lemma chunk_count_step:
  assumes "0 < sz" "base < high"
  shows "chunk_count sz base high = Suc (chunk_count sz (min (base + sz) high) high)"
proof (cases "high - base \<le> sz")
  case True
  have "(high - base + sz - 1) div sz = 1"
  proof (rule div_nat_eqI)
    show "sz * 1 \<le> high - base + sz - 1" using assms by simp
    show "high - base + sz - 1 < sz * Suc 1" using True assms by simp
  qed
  moreover have "min (base + sz) high = high" using True by simp
  ultimately show ?thesis using assms by (simp add: chunk_count_def)
next
  case False
  have "high - base + sz - 1 = (high - (base + sz) + sz - 1) + sz" using False assms by simp
  then have "(high - base + sz - 1) div sz = Suc ((high - (base + sz) + sz - 1) div sz)" using assms(1) by (simp only: div_add_self2)
  moreover have "min (base + sz) high = base + sz" using False by simp
  ultimately show ?thesis by (simp add: chunk_count_def)
qed

lemma reassign_region_spec:
  assumes "0 < sz" "high < UMAX" "base \<le> high" "chunk_count sz base high \<le> n"
  shows "\<exists>cs. reassign_region sz n low base high previous = Some cs \<and> length cs = chunk_count sz base high \<and>
    (\<forall>i < length cs. \<exists>nx. cs ! i = chunk_at sz low base high previous i nx)"
  using assms(3,4)
proof (induction n arbitrary: base previous)
  case 0
  have "\<not> base < high"
  proof
    assume "base < high"
    from chunk_count_step [OF assms(1) this] 0 show False by simp
  qed
  then show ?case using assms(1) 0 by (simp add: reassign_region.simps chunk_count_def)
next
  case (Suc n)
  show ?case
  proof (cases "base < high")
    case False
    then show ?thesis using assms(1) Suc.prems by (simp add: reassign_region.simps chunk_count_def)
  next
    case True
    define top1 where "top1 = min (base + sz) high"
    define k where "k = first_number previous"
    note cc = chunk_count_step [OF assms(1) True, folded top1_def]
    from Suc.IH [of top1 "Some k"] Suc.prems cc obtain cs where
      cs: "reassign_region sz n low top1 high (Some k) = Some cs" "length cs = chunk_count sz top1 high"
        "\<forall>i < length cs. \<exists>nx. cs ! i = chunk_at sz low top1 high (Some k) i nx" by (auto simp: top1_def)
    have t: "(let t = if usub high base < sz then high else uadd base sz in if high < t then high else t) = top1"
      using True assms(2) by (auto simp: usub_exact uadd_exact top1_def min_def)
    define c where "c = new_chunk \<lparr> chunkBase := base, chunkTop := top1, coalesceCandidate := (base \<noteq> low),
      ck_previous := previous, ck_next := (if cs = [] then None else Some (k + 1)) \<rparr>"
    have "reassign_region sz (Suc n) low base high previous = Some (c # cs)"
      using True cs(1) t by (subst reassign_region.simps) (simp add: Let_def c_def k_def first_number_def)
    moreover have "\<exists>nx. (c # cs) ! i = chunk_at sz low base high previous i nx" if "i < length (c # cs)" for i
    proof (cases i)
      case 0
      then show ?thesis by (auto simp: chunk_at_def c_def top1_def)
    next
      case (Suc j)
      then have j: "j < length cs" using that by simp
      then have lt: "0 < chunk_count sz top1 high" using cs(2) by auto
      have "top1 = base + sz"
      proof (rule ccontr)
        assume "top1 \<noteq> base + sz"
        then have "top1 = high" by (simp add: top1_def min_def split: if_splits)
        then show False using lt assms(1) by (simp add: chunk_count_def)
      qed
      moreover obtain nx where "cs ! j = chunk_at sz low top1 high (Some k) j nx" using cs(3) j by blast
      ultimately show ?thesis using Suc
        by (intro exI [of _ nx]) (simp add: chunk_at_def first_number_def k_def add.assoc)
    qed
    ultimately show ?thesis using cs(2) cc by auto
  qed
qed

text \<open>The boundaries of the chunks.\<close>

definition boundary :: "nat \<Rightarrow> addr \<Rightarrow> addr \<Rightarrow> nat \<Rightarrow> addr" where
  "boundary sz low high i = min (low + i * sz) high"

lemma boundary_ends:
  assumes "0 < sz" "low \<le> high"
  shows "boundary sz low high 0 = low" "boundary sz low high (chunk_count sz low high) = high"
    "i < chunk_count sz low high \<Longrightarrow> low + i * sz < high"
proof -
  let ?n = "chunk_count sz low high"
  show "boundary sz low high 0 = low" using assms by (simp add: boundary_def)
  have "high - low + sz - 1 < Suc ?n * sz" using assms(1) by (simp add: chunk_count_def dividend_less_times_div mult.commute)
  then have "high \<le> low + ?n * sz" by simp
  then show "boundary sz low high ?n = high" by (simp add: boundary_def)
  assume "i < ?n"
  then have "Suc i * sz \<le> ?n * sz" by (intro mult_le_mono1) simp
  also have "\<dots> \<le> high - low + sz - 1" by (simp add: chunk_count_def)
  finally show "low + i * sz < high" using assms by simp
qed

lemma fresh_chunk_at: "fresh_chunk (chunk_at sz low base high previous i nx)"
  by (simp add: chunk_at_def fresh_chunk_def chunk_with_def new_chunk_def search_size_def)

lemma chunk_at_fields [simp]:
  "chunkBase (chunk_at sz low base high previous i nx) = base + i * sz"
  "chunkTop (chunk_at sz low base high previous i nx) = min (base + Suc i * sz) high"
  "coalesceCandidate (chunk_at sz low base high previous i nx) = (base + i * sz \<noteq> low)"
  "ck_previous (chunk_at sz low base high previous i nx) = (if i = 0 then previous else Some (first_number previous + i - 1))"
  "ck_memoryPool (chunk_at sz low base high previous i nx) = 0"
  by (simp_all add: chunk_at_def new_chunk_def)

lemma reassign_sectioned:
  fixes ss :: SweepScheme
  defines "hm \<equiv> sw_markMap ss"
  assumes ok: "map_ok ss" and sz: "0 < sz" "512 dvd sz" and r: "low = word_addr hm b" "high = word_addr hm t" "b < t" "high + 512 \<le> UMAX"
    and n: "chunk_count sz low high \<le> available"
  defines "B \<equiv> boundary sz low high" and "n \<equiv> chunk_count sz low high"
  shows "\<exists>cs. reassignChunks sz available (low, high) = Some cs \<and> sectioned ss B n cs"
proof -
  have lh: "low < high" "0 < low" "high < UMAX" using r ok by (auto simp: map_ok_def hm_def)
  from reassign_region_spec [OF sz(1) lh(3) _ n, of low None] lh obtain cs where
    cs: "reassign_region sz available low low high None = Some cs" "length cs = n"
      "\<forall>i < length cs. \<exists>nx. cs ! i = chunk_at sz low low high None i nx" by (auto simp: n_def)
  note be = boundary_ends [OF sz(1) less_imp_le [OF lh(1)], folded B_def n_def]
  have w: "\<exists>b. B i = word_addr hm b" for i
  proof (cases "low + i * sz \<le> high")
    case True
    from sz(2) obtain q where "sz = 512 * q" by blast
    then have "B i = word_addr hm (b + i * q)" using True r(1) by (simp add: B_def boundary_def algebra_simps)
    then show ?thesis ..
  qed (use r(2) in \<open>auto simp: B_def boundary_def\<close>)
  have d8: "8 dvd B i" for i
  proof -
    obtain b' where b': "B i = word_addr hm b'" using w by blast
    have "512 dvd heapMapBaseDelta hm" using ok by (simp add: map_ok_def hm_def)
    then have "8 dvd heapMapBaseDelta hm" by (rule dvd_trans [rotated]) simp
    then show ?thesis unfolding b' by (rule dvd_add) simp
  qed
  have ch: "B i < B (Suc i) \<and> chunkBase (cs ! i) = B i \<and> chunkTop (cs ! i) = B (Suc i) \<and>
      ck_previous (cs ! i) = (if i = 0 then None else Some (i - 1)) \<and> ck_memoryPool (cs ! i) = 0 \<and>
      coalesceCandidate (cs ! i) = (i \<noteq> 0) \<and> fresh_chunk (cs ! i)" if i: "i < n" for i
  proof -
    from cs(2,3) i obtain nx where c: "cs ! i = chunk_at sz low low high None i nx" by auto
    have lt: "low + i * sz < high" by (rule be(3) [unfolded n_def, OF i [unfolded n_def]])
    then have Bi: "B i = low + i * sz" "B i < B (Suc i)" using sz(1) by (simp_all add: B_def boundary_def)
    show ?thesis using Bi fresh_chunk_at sz(1) unfolding c by (simp add: first_number_def) (simp add: B_def boundary_def)
  qed
  have "chunk_table B n cs" unfolding chunk_table_def using ch d8 cs(2) be(1,2) lh by blast
  moreover have "B n + 512 \<le> UMAX" using be(2) r(4) by simp
  ultimately have "sectioned ss B n cs" unfolding sectioned_def hm_def [symmetric] using ch w by blast
  then show ?thesis using cs(1) by (simp add: reassignChunks_def)
qed

section \<open>Sweeping the heap\<close>

text \<open>The configuration of a sweep of one region: map and chunk size, and the live objects of the region.\<close>

definition region_ok :: "SweepScheme \<Rightarrow> nat \<Rightarrow> addr \<Rightarrow> addr \<Rightarrow> bool" where
  "region_ok ss sz low high \<longleftrightarrow> map_ok ss \<and> 0 < sz \<and> 512 dvd sz \<and> heapMapBaseDelta (sw_markMap ss) \<le> low \<and> low < high \<and>
     512 dvd low \<and> 512 dvd high \<and> high + 512 \<le> UMAX"

definition objects_ok :: "SweepScheme \<Rightarrow> addr \<Rightarrow> addr \<Rightarrow> bool" where
  "objects_ok ss low high \<longleftrightarrow> live_objects (sw_sizeOf ss) (marked_slots (sw_markMap ss) low high) \<and>
     (\<forall>m \<in> set (marked_slots (sw_markMap ss) low high). m + sw_sizeOf ss m \<le> high)"

text \<open>The pool after its reset, and the workers with their chunks.\<close>

definition reset_pool :: "nat \<Rightarrow> pool \<Rightarrow> bool" where
  "reset_pool sz p \<longleftrightarrow> heapFreeList p = NULL \<and> hintActive p = [] \<and> hintInactive p \<noteq> [] \<and>
     512 \<le> minimumFreeEntrySize p \<and> minimumFreeEntrySize p \<le> sz \<and>
     plain_sizes (largeObjectAllocateStats p) \<and> frequent_ok (largeObjectAllocateStats p) \<and> stats_ready (largeObjectAllocateStats p) \<and>
     total_count (freeEntrySizeClassStats (largeObjectAllocateStats p)) = 0"

definition workers_ok :: "pool \<Rightarrow> ((nat \<Rightarrow> bool) \<times> FreeEntrySizeClassStats) list \<Rightarrow> nat \<Rightarrow> bool" where
  "workers_ok p ws n \<longleftrightarrow> (\<forall>w \<in> set ws. worker_ok (largeObjectAllocateStats p) (resetCounts (snd w))) \<and>
     (\<forall>i < n. length (filter (\<lambda>w. fst w i) ws) = 1)"

definition swept_entries :: "SweepScheme \<Rightarrow> nat \<Rightarrow> nat \<Rightarrow> addr \<Rightarrow> addr \<Rightarrow> entry list" where
  "swept_entries ss mn sz low high =
     region_entries ss mn low high (map (chunk_objects ss (boundary sz low high)) [0..<chunk_count sz low high])"

lemma objects_from_region:
  assumes "\<And>i. i \<le> n \<Longrightarrow> \<exists>b. B i = word_addr (sw_markMap ss) b" "\<And>i. i < n \<Longrightarrow> B i \<le> B (Suc i)"
  shows "objects_from ss B 0 n = marked_slots (sw_markMap ss) (B 0) (B n) \<and> B 0 \<le> B n"
  using assms
proof (induction n)
  case 0
  then show ?case by (simp add: objects_from_def marked_slots_empty)
next
  case (Suc n)
  then have ih: "objects_from ss B 0 n = marked_slots (sw_markMap ss) (B 0) (B n)" "B 0 \<le> B n" by auto
  obtain b c d where w: "B 0 = word_addr (sw_markMap ss) b" "B n = word_addr (sw_markMap ss) c" "B (Suc n) = word_addr (sw_markMap ss) d"
    using Suc.prems(1) by (metis le_SucI le_refl zero_le)
  have "b \<le> c" "c \<le> d" using ih(2) Suc.prems(2) [of n] w by simp_all
  from marked_words_append [OF this, of "sw_markMap ss"]
  have "marked_slots (sw_markMap ss) (B 0) (B (Suc n)) = marked_slots (sw_markMap ss) (B 0) (B n) @ chunk_objects ss B n"
    unfolding w [symmetric] by (simp add: chunk_objects_def)
  then show ?case using ih Suc.prems(2) [of n] by (simp add: objects_from_def)
qed

lemma section_start_bound:
  assumes "\<forall>ms \<in> set mss. \<forall>m \<in> set ms. object_end ss m \<le> high" "s \<le> high"
  shows "section_start ss s mss \<le> high"
  using assms
proof (induction mss arbitrary: s)
  case (Cons ms mss)
  then show ?case by (cases "ms = []") (auto simp: next_start_def)
qed simp

lemma connectAllChunks_spec:
  fixes p :: pool and ss :: SweepScheme
  defines "mn \<equiv> minimumFreeEntrySize p" and "los \<equiv> largeObjectAllocateStats p"
  assumes t: "chunk_table B n cs" and n: "0 < n" and mn: "16 \<le> mn" and sz: "\<forall>i. Suc i < n \<longrightarrow> mn \<le> B (Suc i) - B i"
    and v: "\<forall>i < n. swept_view ss mn (chunk_objects ss B i) (cs ! i)" and cl: "chunk_lists ss mn B 0 n (mem p)"
    and live: "live_objects (sw_sizeOf ss) (objects_from ss B 0 n)" "\<forall>m \<in> set (objects_from ss B 0 n). object_end ss m \<le> B n"
    and p: "heapFreeList p = NULL" "hintActive p = []" "hintInactive p \<noteq> []" "stats_ready los"
      "total_count (freeEntrySizeClassStats los) = of_nat (inner_total ss mn B 0 n)"
  defines "xs \<equiv> region_entries ss mn (B 0) (B n) (map (chunk_objects ss B) [0..<n])"
  shows "\<exists>cs' p' st'. connectAllChunks n (cs, p, st) = Some (cs', p', st') \<and> pool_inv p' xs \<and> largestFreeEntry p' = search_size 0 xs \<and>
    same_geometry p p'"
proof -
  let ?st = "initializeForSweep st" and ?mss = "map (chunk_objects ss B) [0..<n]"
  have b: "0 < B 0" "8 dvd B 0" "B 0 < UMAX" "8 dvd B n" "B n < UMAX" "length cs = n"
    using t table_mono [OF t, of n 0] by (auto simp: chunk_table_def)
  have lo: "B 0 \<le> m" if mm: "m \<in> set (objects_from ss B 0 n)" for m
  proof -
    obtain i where "i < n" "m \<in> set (chunk_objects ss B i)" using mm by (auto simp: objects_from_def)
    then show ?thesis using chunk_objects_bounds [of m ss B i] table_mono [OF t, of i 0] by simp
  qed
  have "conn_heap p (inner_total ss mn B 0 n) [] p ?st"
    using p by (simp add: conn_heap_def conn_pool_def conn_state_def linked_def initializeForSweep_def last_size_def search_size_def los_def same_geometry_def)
  then have "connecting ss p B n 0 cs (B 0) [] [] (cs, p, ?st)"
    using b live(1) cl lo unfolding connecting_def prod.case Let_def mn_def [symmetric]
    by (simp add: initializeForSweep_def open_gap_def prev_projection_def prev_trailing_def)
  from connect_fold [OF t mn [unfolded mn_def] v [unfolded mn_def] sz [unfolded mn_def] _ this] obtain cs' p1 st1 xs1 where
    f: "foldO (\<lambda>i h. do { assert_MM (i < length (fst h)); connectChunk i h }) [0..<n] (cs, p, ?st) = Some (cs', p1, st1)"
      "connecting ss p B n n cs (section_start ss (B 0) ?mss) (section_entries ss mn (B 0) ?mss) xs1 (cs', p1, st1)" by (auto simp: mn_def)
  have "section_start ss (B 0) ?mss \<le> B n"
    by (rule section_start_bound) (use live(2) table_mono [OF t, of n 0] in \<open>auto simp: objects_from_def\<close>)
  from flushFinalChunk_spec [OF f(2) mn [unfolded mn_def] n this b(4,5)] obtain p2 st2 where
    fl: "flushFinalChunk (cs', p1, st1) = Some (cs', p2, st2)" "conn_heap p 0 xs p2 st2" by (auto simp: xs_def region_entries_def mn_def)
  have "0 < hint_nodes p" using p(3) by (simp add: hint_nodes_def)
  from connectFinalChunk_spec [OF fl(2) p(2) this, of cs'] fl(1) f(1) show ?thesis by (force simp: connectAllChunks_def mn_def)
qed

lemma entries_of_all: "entries_of ss mn B {..<n} = inner_total ss mn B 0 n"
  by (simp add: entries_of_def inner_total_def sum_list_distinct_conv_sum_set lessThan_atLeast0)

lemma swept_upto_views:
  assumes sec: "sectioned ss B n cs0" and live: "live_objects (sw_sizeOf ss) (objects_from ss B 0 n)"
    and sw: "swept_upto ss mn B n cs0 {..<n} cs m"
  shows "chunk_table B n cs" "\<forall>i < n. swept_view ss mn (chunk_objects ss B i) (cs ! i)" "chunk_lists ss mn B 0 n m"
proof -
  have t: "chunk_table B n cs0" using sec by (simp add: sectioned_def)
  have view: "swept_view ss mn (chunk_objects ss B i) (cs ! i) \<and> chunkBase (cs ! i) = chunkBase (cs0 ! i) \<and>
      chunkTop (cs ! i) = chunkTop (cs0 ! i) \<and> coalesceCandidate (cs ! i) = coalesceCandidate (cs0 ! i) \<and>
      ck_memoryPool (cs ! i) = ck_memoryPool (cs0 ! i) \<and> ck_previous (cs ! i) = ck_previous (cs0 ! i)" if i: "i < n" for i
  proof -
    from sw i obtain x db dn where
      c: "cs ! i = (swept_chunk ss mn (chunk_objects ss B i) x (cs0 ! i)) \<lparr> ck_darkMatterBytes := db, ck_darkMatterSamples := dn \<rparr>"
      by (auto simp: swept_upto_def)
    have tb: "chunkBase (cs0 ! i) = B i" "chunkTop (cs0 ! i) = B (Suc i)" "B i < B (Suc i)" "8 dvd B (Suc i)" "B (Suc i) < UMAX"
      using t i table_mono [OF t, of n "Suc i"] by (auto simp: chunk_table_def)
    have f: "fresh_chunk (cs0 ! i)" using sec i by (simp add: sectioned_def)
    show ?thesis unfolding c
      by (rule swept_view_swept [OF f live_chunk [OF live i]]) (use tb chunk_objects_bounds [of _ ss B i] in auto)
  qed
  have "length cs = n" using sw by (simp add: swept_upto_def)
  then show "chunk_table B n cs" using t view unfolding chunk_table_def by simp
  show "\<forall>i < n. swept_view ss mn (chunk_objects ss B i) (cs ! i)" using view by blast
  show "chunk_lists ss mn B 0 n m" using sw by (simp add: chunk_lists_def swept_upto_def)
qed

lemma internalSweep_spec:
  fixes ss :: SweepScheme and p :: pool
  defines "mn \<equiv> minimumFreeEntrySize p" and "hm \<equiv> sw_markMap ss"
  assumes r: "region_ok ss sz low high" and o: "objects_ok ss low high" and p: "reset_pool sz p"
    and w: "workers_ok p ws (chunk_count sz low high)" and av: "chunk_count sz low high \<le> available"
  defines "xs \<equiv> swept_entries ss mn sz low high"
  shows "\<exists>cs p' st'. internalSweep ss ws sz available (low, high) (p, st) = Some (cs, p', st') \<and> pool_inv p' xs \<and>
    largestFreeEntry p' = search_size 0 xs \<and> same_geometry p p'"
proof -
  define B where "B = boundary sz low high"
  define n where "n = chunk_count sz low high"
  have ok: "map_ok ss" "0 < sz" "512 dvd sz" "high + 512 \<le> UMAX" "low < high" using r by (auto simp: region_ok_def)
  obtain b t where bt: "low = word_addr hm b" "high = word_addr hm t" "b < t"
  proof -
    have "512 dvd heapMapBaseDelta hm" "heapMapBaseDelta hm \<le> low" "heapMapBaseDelta hm \<le> high" "512 dvd low" "512 dvd high"
      using r by (auto simp: region_ok_def map_ok_def hm_def)
    then have "512 dvd low - heapMapBaseDelta hm" "512 dvd high - heapMapBaseDelta hm" by simp_all
    then obtain b t where "low - heapMapBaseDelta hm = 512 * b" "high - heapMapBaseDelta hm = 512 * t" by (metis dvdE)
    then have "low = word_addr hm b" "high = word_addr hm t"
      using \<open>heapMapBaseDelta hm \<le> low\<close> \<open>heapMapBaseDelta hm \<le> high\<close> by simp_all
    then show ?thesis using that ok(5) by simp
  qed
  from reassign_sectioned [OF ok(1-3) bt(1,2) [unfolded hm_def] bt(3) ok(4) av, folded B_def n_def] obtain cs0 where
    cs0: "reassignChunks sz available (low, high) = Some cs0" "sectioned ss B n cs0" by blast
  have t: "chunk_table B n cs0" "length cs0 = n" using cs0(2) by (auto simp: sectioned_def chunk_table_def)
  note be = boundary_ends [OF ok(2) less_imp_le [OF ok(5)], folded B_def n_def]
  have n: "0 < n" using be(1,2) ok(5) by (cases "n = 0") auto
  have objs: "objects_from ss B 0 n = marked_slots hm low high"
  proof -
    have "B i \<le> B (Suc i)" if "i < n" for i using t(1) that by (simp add: chunk_table_def less_imp_le)
    moreover have "\<exists>b. B i = word_addr (sw_markMap ss) b" if "i \<le> n" for i using cs0(2) that by (simp add: sectioned_def)
    ultimately show ?thesis using objects_from_region [of n B ss] be(1,2) by (simp add: hm_def)
  qed
  have live: "live_objects (sw_sizeOf ss) (objects_from ss B 0 n)" "\<forall>m \<in> set (objects_from ss B 0 n). object_end ss m \<le> B n"
    using o be(2) by (simp_all add: objs objects_ok_def hm_def object_end_def)
  let ?p = "p \<lparr> largestFreeEntry := 0 \<rparr>"
  have pf: "min_ok ?p" "plain_sizes (largeObjectAllocateStats ?p)" "frequent_ok (largeObjectAllocateStats ?p)"
    "\<forall>w \<in> set ws. worker_ok (largeObjectAllocateStats ?p) (resetCounts (snd w))" "stats_ready (largeObjectAllocateStats ?p)"
    using p w by (auto simp: reset_pool_def workers_ok_def min_ok_def)
  have lo: "left_over n {} ws" using w by (simp add: left_over_def workers_ok_def n_def)
  have sw0: "swept_upto ss mn B n cs0 {} cs0 (mem ?p)" using t(2) by (simp add: swept_upto_def)
  have tc0: "total_count (freeEntrySizeClassStats (largeObjectAllocateStats ?p)) = of_nat (entries_of ss mn B {})"
    using p by (simp add: reset_pool_def entries_of_def)
  have mnp: "minimumFreeEntrySize ?p = mn" by (simp add: mn_def)
  from run_workers_spec [OF ok(1) cs0(2) pf live(1) lo, unfolded mnp, OF _ sw0 tc0] obtain cs1 m1 los1 where
    rw: "run_workers ss ws n (cs0, ?p) = Some (cs1, ?p \<lparr> mem := m1, largeObjectAllocateStats := los1 \<rparr>)"
      "swept_upto ss mn B n cs0 {..<n} cs1 m1" "stats_ready los1" "same_sizes (largeObjectAllocateStats ?p) los1"
      "total_count (freeEntrySizeClassStats los1) = of_nat (entries_of ss mn B {..<n})"
    by blast
  note sv = swept_upto_views [OF cs0(2) live(1) rw(2)]
  have szs: "\<forall>i. Suc i < n \<longrightarrow> mn \<le> B (Suc i) - B i"
  proof (intro allI impI)
    fix i assume "Suc i < n"
    then have "low + Suc i * sz < high" using be(3) unfolding n_def by blast
    then have "B (Suc i) - B i = sz" by (simp add: B_def boundary_def)
    then show "mn \<le> B (Suc i) - B i" using p by (simp add: reset_pool_def mn_def)
  qed
  let ?p1 = "?p \<lparr> mem := m1, largeObjectAllocateStats := los1 \<rparr>"
  have p1: "minimumFreeEntrySize ?p1 = mn" "mem ?p1 = m1" by (simp_all add: mn_def)
  have "16 \<le> mn" using p by (simp add: reset_pool_def mn_def)
  with connectAllChunks_spec [of B n cs1 ?p1 ss st, unfolded p1, OF sv(1) n _ szs sv(2,3) live] p rw(3,5)
  obtain cs' p' st' where
    c: "connectAllChunks n (cs1, ?p1, st) = Some (cs', p', st')" "pool_inv p' (region_entries ss mn (B 0) (B n) (map (chunk_objects ss B) [0..<n]))"
      "largestFreeEntry p' = search_size 0 (region_entries ss mn (B 0) (B n) (map (chunk_objects ss B) [0..<n]))" "same_geometry ?p1 p'"
    by (auto simp: reset_pool_def entries_of_all)
  have "xs = region_entries ss mn (B 0) (B n) (map (chunk_objects ss B) [0..<n])"
    unfolding be(1,2) unfolding B_def n_def by (simp add: xs_def swept_entries_def)
  moreover have "internalSweep ss ws sz available (low, high) (p, st) = Some (cs', p', st')"
    using cs0(1) t(2) rw(1) c(1) by (simp add: internalSweep_def)
  moreover have "same_geometry p p'" using c(4) rw(4) by (auto simp: same_geometry_def same_sizes_def)
  ultimately show ?thesis using c by auto
qed

end
