(* ===== verification/Sweep_Gaps.thy ===== *)
theory Sweep_Gaps
  imports Sweep_Heap
begin

text \<open>
  What the sweep finds, in terms of the live objects alone: the entries are gaps between
  neighbouring objects, every gap that is large enough is an entry, and what is allocated after
  the sweep lies in no live object.
\<close>

section \<open>Gaps\<close>

text \<open>All gaps of a range with the given objects, empty ones included.\<close>

fun gaps :: "(addr \<Rightarrow> nat) \<Rightarrow> addr \<Rightarrow> addr list \<Rightarrow> addr \<Rightarrow> entry list" where
  "gaps sz s [] high = [(s, high - s)]"
| "gaps sz s (m # ms) high = (s, m - s) # gaps sz (m + sz m) ms high"

fun between :: "(addr \<Rightarrow> nat) \<Rightarrow> addr list \<Rightarrow> entry list" where
  "between sz (m # m' # ms) = gap sz m m' # between sz (m' # ms)"
| "between sz ms = []"

lemma gaps_append:
  "ms \<noteq> [] \<Longrightarrow> gaps sz s (ms @ R) high = (s, hd ms - s) # between sz ms @ gaps sz (last ms + sz (last ms)) R high"
proof (induction sz ms arbitrary: s rule: between.induct)
  case (1 sz m m' ms)
  then show ?case by (simp add: gap_def)
qed auto

lemma inner_subset: "set (inner_entries hm sz mn ms) \<subseteq> set (between sz ms)"
  by (induction sz ms rule: between.induct) auto

text \<open>A gap of 1016 bytes contains a whole map word.\<close>

lemma inner_complete:
  assumes "live_objects sz ms" "\<forall>m \<in> set ms. heapMapBaseDelta hm \<le> m" "e \<in> set (between sz ms)" "mn \<le> snd e" "1016 \<le> snd e"
  shows "e \<in> set (inner_entries hm sz mn ms)"
  using assms
proof (induction sz ms rule: between.induct)
  case (1 sz m m' ms)
  show ?case
  proof (cases "e = gap sz m m'")
    case True
    have l: "8 \<le> sz m" "m + sz m \<le> m'" "heapMapBaseDelta hm \<le> m" using "1.prems"(1,2) by (auto simp: live_Cons)
    then have "off hm m + 2 * 512 \<le> off hm m'" using "1.prems"(5) True by (auto simp: gap_def)
    then have "(off hm m + 2 * 512) div 512 \<le> off hm m' div 512" by (rule div_le_mono)
    then have "wide hm m m'" by (simp add: wide_def)
    then show ?thesis using True "1.prems"(4) by simp
  next
    case False
    then have "e \<in> set (inner_entries hm sz mn (m' # ms))" using "1.IH" "1.prems" by (auto simp: live_Cons)
    then show ?thesis by simp
  qed
qed auto

lemma region_gaps:
  fixes ss :: SweepScheme
  defines "sz \<equiv> sw_sizeOf ss"
  shows "set (region_entries ss mn s high mss) \<subseteq> set (gaps sz s (concat mss) high)"
    and "live_objects sz (concat mss) \<Longrightarrow> \<forall>m \<in> set (concat mss). heapMapBaseDelta (sw_markMap ss) \<le> m \<Longrightarrow>
      e \<in> set (gaps sz s (concat mss) high) \<Longrightarrow> mn \<le> snd e \<Longrightarrow> 1016 \<le> snd e \<Longrightarrow> e \<in> set (region_entries ss mn s high mss)"
proof (induction mss arbitrary: s)
  case Nil
  { case 1 then show ?case by (auto simp: region_entries_def entry_if_def) }
  { case 2 then show ?case by (simp add: region_entries_def entry_if_def) }
next
  case (Cons ms mss)
  have r: "region_entries ss mn s high (ms # mss) = chunk_adds ss mn s ms @ region_entries ss mn (next_start ss s ms) high mss" for s
    by (simp add: region_entries_def)
  {
    case 1
    show ?case
    proof (cases "ms = []")
      case True
      then show ?thesis using Cons.IH(1) [of s] unfolding r by (simp add: chunk_adds_def next_start_def)
    next
      case False
      have "set (chunk_adds ss mn s ms) \<subseteq> insert (s, hd ms - s) (set (between sz ms))"
        using False inner_subset by (auto simp: chunk_adds_def entry_if_def inner_def sz_def dest: subsetD [OF inner_subset])
      then show ?thesis using False Cons.IH(1) [of "next_start ss s ms"] gaps_append [OF False, of sz s "concat mss" high]
        unfolding r by (auto simp: next_start_def object_end_def sz_def)
    qed
  next
    case 2
    show ?case
    proof (cases "ms = []")
      case True
      then show ?thesis using Cons.IH(2) [of s] 2 unfolding r by (simp add: chunk_adds_def next_start_def)
    next
      case False
      have l: "live_objects sz ms" "live_objects sz (concat mss)" using 2(1) by (auto simp: live_append)
      consider "e = (s, hd ms - s)" | "e \<in> set (between sz ms)" | "e \<in> set (gaps sz (next_start ss s ms) (concat mss) high)"
        using 2(3) gaps_append [OF False, of sz s "concat mss" high] False by (auto simp: next_start_def object_end_def sz_def)
      then show ?thesis
      proof cases
        case 1
        then show ?thesis using 2(4) False unfolding r by (simp add: chunk_adds_def entry_if_def)
      next
        case b: 2
        from inner_complete [OF l(1) _ b 2(4,5), of "sw_markMap ss"] 2(2) show ?thesis
          using False unfolding r by (simp add: chunk_adds_def inner_def sz_def)
      next
        case 3
        then show ?thesis using Cons.IH(2) [OF l(2) _ 3 2(4,5)] 2(2) unfolding r by simp
      qed
    qed
  }
qed

text \<open>Gaps contain no object.\<close>

lemma gaps_free:
  assumes "live_objects sz ms" "\<forall>m \<in> set ms. s \<le> m" "e \<in> set (gaps sz s ms high)" "m \<in> set ms"
  shows "fst e + snd e \<le> m \<or> m + sz m \<le> fst e"
proof -
  have lo: "s \<le> fst e" if "e \<in> set (gaps sz s ms high)" "\<forall>m \<in> set ms. s \<le> m" "live_objects sz ms" for s ms
    using that
  proof (induction ms arbitrary: s)
    case (Cons a ms)
    then show ?case by (fastforce simp: live_Cons)
  qed simp
  show ?thesis using assms
  proof (induction ms arbitrary: s)
    case (Cons a ms)
    have l: "live_objects sz ms" "\<forall>m \<in> set ms. a + sz a \<le> m" "s \<le> a" using Cons.prems(1,2) by (auto simp: live_Cons)
    show ?case
    proof (cases "e = (s, a - s)")
      case True
      then show ?thesis using Cons.prems(4) l by fastforce
    next
      case False
      then have e: "e \<in> set (gaps sz (a + sz a) ms high)" using Cons.prems(3) by simp
      then show ?thesis using Cons.IH [OF l(1,2) e] Cons.prems(4) lo [OF e l(2,1)] by auto
    qed
  qed simp
qed

lemma gaps_within:
  assumes "live_objects sz ms" "\<forall>m \<in> set ms. s \<le> m" "\<forall>m \<in> set ms. m + sz m \<le> high" "s \<le> high" "e \<in> set (gaps sz s ms high)"
  shows "s \<le> fst e \<and> fst e + snd e \<le> high"
  using assms
proof (induction ms arbitrary: s)
  case (Cons m ms)
  have l: "live_objects sz ms" "\<forall>m' \<in> set ms. m + sz m \<le> m'" "m + sz m \<le> high" "s \<le> m" using Cons.prems(1-3) by (auto simp: live_Cons)
  consider "e = (s, m - s)" | "e \<in> set (gaps sz (m + sz m) ms high)" using Cons.prems(5) by auto
  then show ?case
  proof cases
    case 2
    from Cons.IH [OF l(1,2) _ l(3) 2] Cons.prems(3) l(4) show ?thesis by auto
  qed (use l in simp)
qed simp

section \<open>The swept region\<close>

lemma chunk_numbers:
  assumes "0 < sz" "low \<le> high" "high < UMAX" "high - low + sz < UMAX"
  shows "calculateActualChunkNumbers sz (low, high) = chunk_count sz low high"
proof -
  have "usub high low = high - low" using assms by (simp add: usub_exact)
  then show ?thesis using assms roundToCeiling_eq [of sz "high - low"] by (simp add: calculateActualChunkNumbers_def chunk_count_def)
qed

lemma swept_entries_gaps:
  fixes ss :: SweepScheme and mn :: nat
  assumes r: "region_ok ss sz low high" and o: "objects_ok ss low high"
  defines "objs \<equiv> marked_slots (sw_markMap ss) low high" and "xs \<equiv> swept_entries ss mn sz low high"
  shows "set xs \<subseteq> set (gaps (sw_sizeOf ss) low objs high)"
    "\<forall>e \<in> set (gaps (sw_sizeOf ss) low objs high). mn \<le> snd e \<and> 1016 \<le> snd e \<longrightarrow> e \<in> set xs"
    "\<forall>m \<in> set objs. low \<le> m"
proof -
  let ?B = "boundary sz low high" and ?n = "chunk_count sz low high"
  have ok: "map_ok ss" "0 < sz" "512 dvd sz" "low < high" "heapMapBaseDelta (sw_markMap ss) \<le> low" "512 dvd low" "512 dvd high"
    "512 dvd heapMapBaseDelta (sw_markMap ss)" using r by (auto simp: region_ok_def map_ok_def)
  note be = boundary_ends [OF ok(2) less_imp_le [OF ok(4)]]
  have w: "\<exists>b. ?B i = word_addr (sw_markMap ss) b" for i
  proof -
    have "512 dvd ?B i" using ok(3,6,7) by (auto simp: boundary_def min_def)
    moreover have "heapMapBaseDelta (sw_markMap ss) \<le> ?B i" using ok(4,5) by (simp add: boundary_def)
    ultimately obtain k where "?B i - heapMapBaseDelta (sw_markMap ss) = 512 * k" using ok(8) by (metis dvdE dvd_diff_nat)
    then have "?B i = word_addr (sw_markMap ss) k" using \<open>heapMapBaseDelta (sw_markMap ss) \<le> ?B i\<close> by simp
    then show ?thesis ..
  qed
  have "?B i \<le> ?B (Suc i)" for i by (simp add: boundary_def min_def)
  then have objs: "concat (map (chunk_objects ss ?B) [0..<?n]) = objs"
    using objects_from_region [of ?n ?B ss] w unfolding be(1,2) by (simp add: objects_from_def objs_def)
  have lo: "\<forall>m \<in> set objs. low \<le> m" using slots_bounds by (auto simp: objs_def marked_slots_def)
  then show "\<forall>m \<in> set objs. low \<le> m" .
  have lv: "live_objects (sw_sizeOf ss) objs" using o by (simp add: objects_ok_def objs_def)
  show "set xs \<subseteq> set (gaps (sw_sizeOf ss) low objs high)"
    using region_gaps(1) [of ss mn low high "map (chunk_objects ss ?B) [0..<?n]"] unfolding objs xs_def swept_entries_def .
  show "\<forall>e \<in> set (gaps (sw_sizeOf ss) low objs high). mn \<le> snd e \<and> 1016 \<le> snd e \<longrightarrow> e \<in> set xs"
    using region_gaps(2) [of ss "map (chunk_objects ss ?B) [0..<?n]"] lv lo ok(5) unfolding objs xs_def swept_entries_def by fastforce
qed

section \<open>A concrete heap\<close>

text \<open>
  A region of three map words at 4096 with one object of 16 bytes at its start, swept in chunks of
  one word by two workers, one for the chunks of even number.
\<close>

definition sweep_example :: SweepScheme where
  "sweep_example = \<lparr> sw_heapBase = 4096,
     sw_markMap = \<lparr> heapBase = 4096, heapTop = 8192, heapMapBaseDelta = 4096, heapMapBits = (\<lambda>_. 0)(0 := 1),
                     heapMapBitsAddr = 65536, hm_maxHeapSize = 4096 \<rparr>,
     sw_sizeOf = (\<lambda>_. 16), sw_darkMatterSampleRate = 0, sw_project = (\<lambda>_ _ _. 0) \<rparr>"

definition sweep_pool_example :: pool where
  "sweep_pool_example = pool_initialize 512 (\<lambda>_. 0)
     (replicate 8 \<lparr> hint_size = 0, heapFreeHeader = 0, hint_lru = 0 \<rparr>) (stats_example 0)"

definition sweep_workers_example :: "((nat \<Rightarrow> bool) \<times> FreeEntrySizeClassStats) list" where
  "sweep_workers_example = [(even, freeEntrySizeClassStats (stats_example 0)), (odd, freeEntrySizeClassStats (stats_example 0))]"

definition sweep_state_example :: SweepPoolState where
  "sweep_state_example = \<lparr> connectPreviousFreeEntry = 0, connectPreviousFreeEntrySize = 0, connectPreviousPreviousFreeEntry = 0,
     connectPreviousChunk = None, sweepFreeBytes = 0, sweepFreeHoles = 0, sp_largestFreeEntry = 0, sp_previousLargestFreeEntry = 0 \<rparr>"

lemma sweep_example_objects: "marked_slots (sw_markMap sweep_example) 4096 5632 = [4096]"
proof -
  let ?hm = "sw_markMap sweep_example"
  have b: "word_addr ?hm 0 = 4096" "word_addr ?hm 1 = 4608" "word_addr ?hm 3 = 5632" by (simp_all add: sweep_example_def)
  have "marked_slots ?hm (word_addr ?hm 0) (word_addr ?hm (Suc 0)) = map (\<lambda>k. word_addr ?hm 0 + 8 * k) (word_marks (heapMapBits ?hm 0))"
    by (rule marked_word) (simp add: sweep_example_def UMAX_def)
  moreover have "word_marks (heapMapBits ?hm 0) = [0]" by (simp add: word_marks_def sweep_example_def upt_conv_Cons)
  moreover have "marked_slots ?hm (word_addr ?hm 1) (word_addr ?hm 3) = []"
    by (rule empty_words) (auto simp: sweep_example_def UMAX_def)
  ultimately show ?thesis using marked_words_append [of 0 1 3 ?hm] b by simp
qed

lemma sweep_example_ready:
  "region_ok sweep_example 512 4096 5632" "objects_ok sweep_example 4096 5632" "reset_pool 512 sweep_pool_example"
  "workers_ok sweep_pool_example sweep_workers_example 3"
proof -
  show "region_ok sweep_example 512 4096 5632" by (simp add: region_ok_def map_ok_def sweep_example_def UMAX_def)
  show "objects_ok sweep_example 4096 5632"
    unfolding objects_ok_def sweep_example_objects by (simp add: live_Cons) (simp add: sweep_example_def UMAX_def)
  have st: "plain_sizes (stats_example 0)" "frequent_ok (stats_example 0)" "rk_curSize (spaceSavingSizesAveragePercent (stats_example 0)) = 0"
    by (simp_all add: plain_sizes_def frequent_ok_def stats_example_def Let_def UMAX_def rankingNew_def)
  then show "reset_pool 512 sweep_pool_example"
    by (simp add: reset_pool_def sweep_pool_example_def pool_initialize_def stats_example_ready HINT_ELEMENT_COUNT_def)
  let ?s = "freeEntrySizeClassStats (stats_example 0)"
  have z: "resetCounts ?s = ?s" by (simp add: resetCounts_def stats_example_def Let_def resetCounts_class_def)
  have "lists_sizes (stats_example 0) {} ?s"
    by (simp add: lists_sizes_def fes_wf_def vl_empty_def class_count_def getCount_def getFrequentAllocCount_def stats_example_def Let_def)
  moreover have "cleared (stats_example 0) ?s" by (simp add: cleared_def fes_wf_def vl_empty_def stats_example_def Let_def)
  moreover have "frequent_set (stats_example 0) k = {}" for k by (simp add: frequent_set_def st(3))
  ultimately have "worker_ok (stats_example 0) (resetCounts ?s)" unfolding z by (auto simp: worker_ok_def)
  then show "workers_ok sweep_pool_example sweep_workers_example 3"
    by (simp add: workers_ok_def sweep_workers_example_def sweep_pool_example_def pool_initialize_def)
qed

end
