(* ===== verification/Sweep_Properties.thy ===== *)
theory Sweep_Properties
  imports Sweep_Gaps
begin

text \<open>
  The properties of the sweep: of one chunk, of the division into chunks, of the whole sweep, and
  of the allocations that follow it.
\<close>



text \<open>
  C11: the table of chunks that \<open>calculateActualChunkNumbers\<close> asks for is large enough to divide a
  region: all of it is used, the first chunk starts at the bottom of the region, every chunk
  starts where the one before ends, the last one ends at the top, and no chunk is empty or larger
  than the chunk size.
\<close>

theorem reassignChunks_tiles:
  assumes "0 < sz" "low < high" "high < UMAX" "high - low + sz < UMAX"
  defines "n \<equiv> calculateActualChunkNumbers sz (low, high)"
  shows "\<exists>cs. reassignChunks sz n (low, high) = Some cs \<and> length cs = n \<and> 0 < n \<and> chunkBase (cs ! 0) = low \<and>
    chunkTop (cs ! (n - 1)) = high \<and> (\<forall>i. Suc i < n \<longrightarrow> chunkTop (cs ! i) = chunkBase (cs ! Suc i)) \<and>
    (\<forall>i < n. chunkBase (cs ! i) < chunkTop (cs ! i) \<and> chunkTop (cs ! i) \<le> chunkBase (cs ! i) + sz)"
proof -
  have lh: "low \<le> high" using assms(2) by simp
  have n: "n = chunk_count sz low high" unfolding n_def by (rule chunk_numbers [OF assms(1) lh assms(3,4)])
  note be = boundary_ends [OF assms(1) lh, folded n]
  have pos: "0 < n" using be(1,2) assms(2) by (cases "n = 0") auto
  from reassign_region_spec [OF assms(1,3) lh, of n low None] n obtain cs where
    cs: "reassignChunks sz n (low, high) = Some cs" "length cs = n" "\<forall>i < n. \<exists>nx. cs ! i = chunk_at sz low low high None i nx"
    by (auto simp: reassignChunks_def)
  have f: "chunkBase (cs ! i) = low + i * sz \<and> chunkTop (cs ! i) = boundary sz low high (Suc i) \<and> low + i * sz < high" if "i < n" for i
    using cs(3) that be(3) [OF that] by (auto simp: boundary_def)
  have "chunkTop (cs ! (n - 1)) = high" using f [of "n - 1"] pos be(2) by simp
  moreover have "chunkTop (cs ! i) = chunkBase (cs ! Suc i)" if "Suc i < n" for i
    using f [of i] f [OF that] that by (simp add: boundary_def)
  moreover have "chunkBase (cs ! i) < chunkTop (cs ! i) \<and> chunkTop (cs ! i) \<le> chunkBase (cs ! i) + sz" if "i < n" for i
    using f [OF that] assms(1) by (auto simp: boundary_def)
  ultimately show ?thesis using cs(1,2) pos f [OF pos] by auto
qed

theorem reassignChunks_tiles_witness:
  "\<exists>cs. reassignChunks 512 3 (4096, 5500) = Some cs \<and> length cs = 3 \<and> chunkTop (cs ! 2) = 5500"
proof -
  have n: "calculateActualChunkNumbers 512 (4096, 5500) = 3"
    by (simp add: calculateActualChunkNumbers_def usub_def roundToCeiling_def uadd_def UMAX_def)
  show ?thesis using reassignChunks_tiles [of 512 4096 5500, unfolded n] by (auto simp: UMAX_def)
qed





end
