(* ===== verification/Sublist_Pool.thy ===== *)
theory Sublist_Pool
  imports Free_Header "HOL-Library.Multiset"
begin

text \<open>
  The growable lists the remembered set is kept in: \<open>MM_SublistPool\<close>, \<open>MM_SublistPuddle\<close>,
  \<open>MM_SublistFragment\<close> and their iterators (gc/structs/Sublist*.cpp, Sublist*.hpp).

  A pool is a chain of puddles; a puddle is a header (six words) followed by its slots.  A thread
  reserves a range of slots, a fragment, and fills it without further contention.  The headers
  of the puddles that exist are a map from puddle address to header: to use a puddle that has
  been killed is an abort.  The slots are words of memory.  The forge is a parameter: \<open>blk\<close> is the
  address it returns when an operation asks for a block (no operation asks twice), \<open>NULL\<close> when
  it fails.  The pool's monitor makes the locked parts atomic and is left out.
\<close>

section \<open>State\<close>

record SublistPuddle =
  pd_next :: addr
  listBase :: addr
  listCurrent :: addr
  listTop :: addr
  pd_size :: nat

record SublistPool =
  sp_list :: addr
  allocPuddle :: addr
  growSize :: nat
  currentSize :: nat
  maxSize :: nat
  sp_count :: nat
  previousList :: addr
  sp_puddles :: "addr \<rightharpoonup> SublistPuddle"
  sp_mem :: mem

record SublistFragment =
  fragmentCurrent :: addr
  fragmentTop :: addr
  fragmentSize :: nat
  fg_count :: nat

text \<open>\<open>memset\<close> to zero and \<open>memcpy\<close> on whole words.\<close>

definition zero_range :: "addr \<Rightarrow> nat \<Rightarrow> mem \<Rightarrow> mem" where
  "zero_range lo n m = (\<lambda>a. if lo \<le> a \<and> a < lo + n then 0 else m a)"

definition copy_range :: "addr \<Rightarrow> addr \<Rightarrow> nat \<Rightarrow> mem \<Rightarrow> mem" where
  "copy_range dst src n m = (\<lambda>a. if dst \<le> a \<and> a < dst + n then m (src + (a - dst)) else m a)"

definition upd_puddle :: "addr \<Rightarrow> (SublistPuddle \<Rightarrow> SublistPuddle) \<Rightarrow> SublistPool \<Rightarrow> SublistPool option" where
  "upd_puddle p f sp =
     do { d \<leftarrow> sp_puddles sp p; Some (sp \<lparr> sp_puddles := (sp_puddles sp)(p \<mapsto> f d) \<rparr>) }"

section \<open>Puddles\<close>

abbreviation (input) sizeof_SublistPuddle :: nat where
  "sizeof_SublistPuddle \<equiv> 48"

definition puddle_initialize :: "nat \<Rightarrow> addr \<Rightarrow> SublistPool \<Rightarrow> SublistPool" where
  "puddle_initialize size1 p sp =
     (let base = uadd p sizeof_SublistPuddle
      in sp \<lparr> sp_puddles := (sp_puddles sp)(p \<mapsto> \<lparr> pd_next = NULL, listBase = base, listCurrent = base,
                listTop = uadd base size1, pd_size = size1 \<rparr>),
              sp_mem := zero_range base size1 (sp_mem sp) \<rparr>)"

definition puddle_newInstance :: "addr \<Rightarrow> nat \<Rightarrow> SublistPool \<Rightarrow> addr \<times> SublistPool" where
  "puddle_newInstance blk size1 sp = (if blk = NULL then (NULL, sp) else (blk, puddle_initialize size1 blk sp))"

definition puddle_kill :: "addr \<Rightarrow> SublistPool \<Rightarrow> SublistPool option" where
  "puddle_kill p sp = do { sp_puddles sp p; Some (sp \<lparr> sp_puddles := (sp_puddles sp)(p := None) \<rparr>) }"

definition puddle_isFull :: "SublistPuddle \<Rightarrow> bool" where
  "puddle_isFull d \<longleftrightarrow> listCurrent d = listTop d"

definition puddle_isEmpty :: "SublistPuddle \<Rightarrow> bool" where
  "puddle_isEmpty d \<longleftrightarrow> listCurrent d = listBase d"

definition consumedSize :: "SublistPuddle \<Rightarrow> nat" where
  "consumedSize d = usub (listCurrent d) (listBase d)"

definition puddle_freeSize :: "SublistPuddle \<Rightarrow> nat" where
  "puddle_freeSize d = usub (listTop d) (listCurrent d)"

definition totalSize :: "SublistPuddle \<Rightarrow> nat" where
  "totalSize d = usub (listTop d) (listBase d)"

definition fragment_update :: "addr \<Rightarrow> addr \<Rightarrow> SublistFragment \<Rightarrow> SublistFragment" where
  "fragment_update base top1 fr = fr \<lparr> fragmentCurrent := base, fragmentTop := top1 \<rparr>"

text \<open>The range a fragment gets from a puddle; \<open>None\<close> when the puddle has no room.\<close>

definition fragment_range :: "addr \<Rightarrow> addr \<Rightarrow> nat \<Rightarrow> (addr \<times> addr) option" where
  "fragment_range oldListCurrent top1 fragSize =
     (let grow = usub top1 oldListCurrent
      in if grow = 0 then None
         else Some (oldListCurrent, uadd oldListCurrent (if fragSize < grow then fragSize else grow)))"

definition puddle_allocate :: "addr \<Rightarrow> SublistFragment \<Rightarrow> SublistPool \<Rightarrow> (bool \<times> SublistFragment \<times> SublistPool) option" where
  "puddle_allocate p fr sp =
     do { d \<leftarrow> sp_puddles sp p;
          (case fragment_range (listCurrent d) (listTop d) (fragmentSize fr) of
             None \<Rightarrow> Some (False, fr, sp)
           | Some (base, top1) \<Rightarrow>
               do { sp \<leftarrow> upd_puddle p (\<lambda>d. d \<lparr> listCurrent := top1 \<rparr>) sp;
                    Some (True, fragment_update base top1 fr, sp) }) }"

definition puddle_allocateElement :: "addr \<Rightarrow> SublistPool \<Rightarrow> (addr \<times> SublistPool) option" where
  "puddle_allocateElement p sp =
     do { d \<leftarrow> sp_puddles sp p;
          (if listCurrent d < listTop d then
             do { sp \<leftarrow> upd_puddle p (\<lambda>d. d \<lparr> listCurrent := uadd (listCurrent d) 8 \<rparr>) sp; Some (listCurrent d, sp) }
           else Some (NULL, sp)) }"

definition puddle_reset :: "addr \<Rightarrow> SublistPool \<Rightarrow> SublistPool option" where
  "puddle_reset p sp =
     do { d \<leftarrow> sp_puddles sp p;
          upd_puddle p (\<lambda>d. d \<lparr> listCurrent := listBase d \<rparr>)
            (sp \<lparr> sp_mem := zero_range (listBase d) (pd_size d) (sp_mem sp) \<rparr>) }"

definition puddle_merge :: "addr \<Rightarrow> addr \<Rightarrow> SublistPool \<Rightarrow> SublistPool option" where
  "puddle_merge dst src sp =
     do { d \<leftarrow> sp_puddles sp dst; s \<leftarrow> sp_puddles sp src;
          (let availableSize = puddle_freeSize d; copySize = consumedSize s;
               copySize = (if availableSize < copySize then availableSize else copySize);
               from = usub (listCurrent s) copySize;
               sp = sp \<lparr> sp_mem := zero_range from copySize (copy_range (listCurrent d) from copySize (sp_mem sp)) \<rparr>
           in do { sp \<leftarrow> upd_puddle dst (\<lambda>d. d \<lparr> listCurrent := uadd (listCurrent d) copySize \<rparr>) sp;
                   upd_puddle src (\<lambda>s. s \<lparr> listCurrent := usub (listCurrent s) copySize \<rparr>) sp }) }"

definition puddle_setNext :: "addr \<Rightarrow> addr \<Rightarrow> SublistPool \<Rightarrow> SublistPool option" where
  "puddle_setNext p n = upd_puddle p (\<lambda>d. d \<lparr> pd_next := n \<rparr>)"

section \<open>The pool\<close>

definition sp_initialize :: "mem \<Rightarrow> SublistPool" where
  "sp_initialize m =
     \<lparr> sp_list = NULL, allocPuddle = NULL, growSize = 0, currentSize = 0, maxSize = 0, sp_count = 0, previousList = NULL,
       sp_puddles = Map.empty, sp_mem = m \<rparr>"

definition setGrowSize :: "nat \<Rightarrow> SublistPool \<Rightarrow> SublistPool" where
  "setGrowSize n sp = sp \<lparr> growSize := n \<rparr>"

definition setMaxSize :: "nat \<Rightarrow> SublistPool \<Rightarrow> SublistPool" where
  "setMaxSize n sp = sp \<lparr> maxSize := n \<rparr>"

definition incrementCount :: "nat \<Rightarrow> SublistPool \<Rightarrow> SublistPool" where
  "incrementCount n sp = (if n \<noteq> 0 then sp \<lparr> sp_count := uadd (sp_count sp) n \<rparr> else sp)"

definition decrementCount :: "nat \<Rightarrow> SublistPool \<Rightarrow> SublistPool" where
  "decrementCount n sp = (if n \<noteq> 0 then sp \<lparr> sp_count := usub (sp_count sp) n \<rparr> else sp)"

definition sp_isEmpty :: "SublistPool \<Rightarrow> bool" where
  "sp_isEmpty sp \<longleftrightarrow> currentSize sp = 0"

definition countElements :: "SublistPool \<Rightarrow> nat" where
  "countElements sp = sp_count sp"

partial_function (option) kill_list :: "addr \<Rightarrow> SublistPool \<Rightarrow> SublistPool option" where
  "kill_list p sp =
     (if p = NULL then Some sp
      else do { d \<leftarrow> sp_puddles sp p; sp \<leftarrow> puddle_kill p sp; kill_list (pd_next d) sp })"

definition sp_tearDown :: "SublistPool \<Rightarrow> SublistPool option" where
  "sp_tearDown sp = kill_list (sp_list sp) sp"

definition puddle_growth :: "SublistPool \<Rightarrow> nat" where
  "puddle_growth sp =
     (if maxSize sp \<noteq> 0 then
        (let puddleSize = usub (maxSize sp) (currentSize sp)
         in if growSize sp < puddleSize then growSize sp else puddleSize)
      else growSize sp)"

definition createNewPuddle :: "addr \<Rightarrow> SublistPool \<Rightarrow> addr \<times> SublistPool" where
  "createNewPuddle blk sp = (if puddle_growth sp = 0 then (NULL, sp) else puddle_newInstance blk (puddle_growth sp) sp)"

definition alloc_current :: "SublistFragment \<Rightarrow> SublistPool \<Rightarrow> (bool \<times> SublistFragment \<times> SublistPool) option" where
  "alloc_current fr sp = (if allocPuddle sp \<noteq> NULL then puddle_allocate (allocPuddle sp) fr sp else Some (False, fr, sp))"

text \<open>The empty puddle \<open>allocate\<close> goes on with: the one after the allocation puddle, or a new one.\<close>

definition alloc_empty :: "addr \<Rightarrow> SublistPool \<Rightarrow> (addr \<times> SublistPool) option" where
  "alloc_empty blk sp =
     do { nxt \<leftarrow> (if allocPuddle sp \<noteq> NULL then map_option pd_next (sp_puddles sp (allocPuddle sp)) else Some NULL);
          (if nxt \<noteq> NULL then
             do { d \<leftarrow> sp_puddles sp nxt; assert_MM (puddle_isEmpty d); Some (nxt, sp) }
           else
             (case createNewPuddle blk sp of (p, sp) \<Rightarrow>
                if p = NULL then Some (NULL, sp)
                else do { d \<leftarrow> sp_puddles sp p;
                          assert_MM (puddle_isEmpty d); assert_MM (pd_next d = NULL);
                          Some (p, sp \<lparr> currentSize := uadd (currentSize sp) (totalSize d) \<rparr>) })) }"

definition alloc_expose :: "addr \<Rightarrow> SublistPool \<Rightarrow> SublistPool option" where
  "alloc_expose p sp =
     do { sp \<leftarrow> (if sp_list sp = NULL then
                  do { assert_MM (allocPuddle sp = NULL); Some (sp \<lparr> sp_list := p \<rparr>) }
                else
                  do { assert_MM (allocPuddle sp \<noteq> NULL);
                       a \<leftarrow> sp_puddles sp (allocPuddle sp);
                       assert_MM (pd_next a = NULL);
                       puddle_setNext (allocPuddle sp) p sp });
          d \<leftarrow> sp_puddles sp p;
          assert_MM (pd_next d = NULL);
          Some (sp \<lparr> allocPuddle := p \<rparr>) }"

definition sp_allocate :: "addr \<Rightarrow> SublistFragment \<Rightarrow> SublistPool \<Rightarrow> (bool \<times> SublistFragment \<times> SublistPool) option" where
  "sp_allocate blk fr sp =
     do { (ok, fr, sp) \<leftarrow> alloc_current fr sp;
          (if ok then Some (True, fr, sp)
           else do { (ok, fr, sp) \<leftarrow> alloc_current fr sp;
                     (if ok then Some (True, fr, sp)
                      else do { (p, sp) \<leftarrow> alloc_empty blk sp;
                                (if p = NULL then Some (False, fr, sp)
                                 else do { (mustSucceed, fr, sp) \<leftarrow> puddle_allocate p fr sp;
                                           assert_MM mustSucceed;
                                           sp \<leftarrow> alloc_expose p sp;
                                           Some (True, fr, sp) }) }) }) }"

definition sp_allocateElement :: "addr \<Rightarrow> SublistPool \<Rightarrow> (addr \<times> SublistPool) option" where
  "sp_allocateElement blk sp =
     do { (e, sp) \<leftarrow> (if allocPuddle sp \<noteq> NULL then puddle_allocateElement (allocPuddle sp) sp else Some (NULL, sp));
          (if e \<noteq> NULL then Some (e, sp)
           else do {
             nxt \<leftarrow> (if allocPuddle sp \<noteq> NULL then map_option pd_next (sp_puddles sp (allocPuddle sp)) else Some NULL);
             (if nxt \<noteq> NULL then puddle_allocateElement nxt (sp \<lparr> allocPuddle := nxt \<rparr>)
              else
                (case createNewPuddle blk sp of (p, sp) \<Rightarrow>
                   if p = NULL then Some (NULL, sp)
                   else do {
                     d \<leftarrow> sp_puddles sp p;
                     sp \<leftarrow> Some (sp \<lparr> currentSize := uadd (currentSize sp) (totalSize d) \<rparr>);
                     sp \<leftarrow> (if allocPuddle sp \<noteq> NULL then puddle_setNext (allocPuddle sp) p sp else Some sp);
                     sp \<leftarrow> Some (if sp_list sp = NULL then sp \<lparr> sp_list := p \<rparr> else sp);
                     puddle_allocateElement p (sp \<lparr> allocPuddle := p \<rparr>) })) }) }"

section \<open>Compaction\<close>

text \<open>Adding a puddle at the head of the list; the first one added is the last of the list.\<close>

definition compact_add :: "addr \<Rightarrow> addr \<Rightarrow> SublistPool \<Rightarrow> (addr \<times> SublistPool) option" where
  "compact_add p lastPuddle sp =
     do { sp' \<leftarrow> puddle_setNext p (sp_list sp) sp;
          Some (if sp_list sp = NULL then p else lastPuddle, sp' \<lparr> sp_list := p \<rparr>) }"

definition compact_kill :: "addr \<Rightarrow> SublistPool \<Rightarrow> SublistPool option" where
  "compact_kill p sp =
     do { d \<leftarrow> sp_puddles sp p; puddle_kill p (sp \<lparr> currentSize := usub (currentSize sp) (totalSize d) \<rparr>) }"

definition compact_merge :: "addr \<Rightarrow> addr \<Rightarrow> addr \<Rightarrow> SublistPool \<Rightarrow> (addr \<times> addr \<times> SublistPool) option" where
  "compact_merge current destination lastPuddle sp =
     do { c \<leftarrow> sp_puddles sp current; d \<leftarrow> sp_puddles sp destination;
          (let (src, dst) = (if consumedSize c \<le> consumedSize d then (current, destination) else (destination, current))
           in do { sp \<leftarrow> puddle_merge dst src sp;
                   d \<leftarrow> sp_puddles sp dst; s \<leftarrow> sp_puddles sp src;
                   (if puddle_isFull d then
                      do { (lastPuddle, sp) \<leftarrow> compact_add dst lastPuddle sp;
                           (if puddle_isEmpty s
                            then do { sp \<leftarrow> compact_kill src sp; Some (NULL, lastPuddle, sp) }
                            else Some (src, lastPuddle, sp)) }
                    else do { sp \<leftarrow> compact_kill src sp; Some (dst, lastPuddle, sp) }) }) }"

partial_function (option) compact_loop :: "addr \<Rightarrow> addr \<Rightarrow> addr \<Rightarrow> SublistPool \<Rightarrow> (addr \<times> addr \<times> SublistPool) option" where
  "compact_loop currentPuddle destination lastPuddle sp =
     (if currentPuddle = NULL then Some (destination, lastPuddle, sp)
      else do {
        c \<leftarrow> sp_puddles sp currentPuddle;
        (if puddle_isEmpty c then
           do { sp \<leftarrow> puddle_kill currentPuddle sp; compact_loop (pd_next c) destination lastPuddle sp }
         else if puddle_isFull c then
           do { (lastPuddle, sp) \<leftarrow> compact_add currentPuddle lastPuddle sp;
                compact_loop (pd_next c) destination lastPuddle sp }
         else if destination = NULL then compact_loop (pd_next c) currentPuddle lastPuddle sp
         else
           do { (destination, lastPuddle, sp) \<leftarrow> compact_merge currentPuddle destination lastPuddle sp;
                compact_loop (pd_next c) destination lastPuddle sp }) })"

definition sp_compact :: "SublistPool \<Rightarrow> SublistPool option" where
  "sp_compact sp =
     do { (destination, lastPuddle, sp) \<leftarrow> compact_loop (sp_list sp) NULL NULL (sp \<lparr> sp_list := NULL \<rparr>);
          (if destination \<noteq> NULL then
             do { sp \<leftarrow> (if lastPuddle \<noteq> NULL then puddle_setNext lastPuddle destination sp
                         else Some (sp \<lparr> sp_list := destination \<rparr>));
                  sp \<leftarrow> puddle_setNext destination NULL sp;
                  Some (sp \<lparr> allocPuddle := destination \<rparr>) }
           else Some (sp \<lparr> allocPuddle := lastPuddle \<rparr>)) }"

definition sp_clear :: "SublistPool \<Rightarrow> SublistPool option" where
  "sp_clear sp =
     do { sp \<leftarrow> kill_list (sp_list sp) (sp \<lparr> currentSize := 0 \<rparr>);
          sp \<leftarrow> kill_list (previousList sp) sp;
          Some (sp \<lparr> sp_list := NULL, allocPuddle := NULL, previousList := NULL, sp_count := 0 \<rparr>) }"

section \<open>Processing the list in parallel\<close>

definition startProcessingSublist :: "SublistPool \<Rightarrow> SublistPool option" where
  "startProcessingSublist sp =
     do { assert_MM (previousList sp = NULL);
          sp \<leftarrow> Some (sp \<lparr> previousList := sp_list sp \<rparr>);
          (let tail1 = allocPuddle sp
           in if tail1 = NULL then Some (sp \<lparr> sp_list := NULL, allocPuddle := NULL \<rparr>)
              else do {
                t \<leftarrow> sp_puddles sp tail1;
                sp \<leftarrow> puddle_setNext tail1 NULL (sp \<lparr> sp_list := pd_next t \<rparr>);
                sp \<leftarrow> Some (sp \<lparr> allocPuddle := sp_list sp \<rparr>);
                (if allocPuddle sp = NULL then Some sp
                 else do { a \<leftarrow> sp_puddles sp (allocPuddle sp); assert_MM (puddle_isEmpty a); Some sp }) }) }"

definition return_puddle :: "addr \<Rightarrow> SublistPool \<Rightarrow> SublistPool option" where
  "return_puddle returnedPuddle sp =
     (if returnedPuddle = NULL then Some sp
      else do {
        r \<leftarrow> sp_puddles sp returnedPuddle;
        assert_MM (pd_next r = NULL);
        sp \<leftarrow> puddle_setNext returnedPuddle (sp_list sp) sp;
        sp \<leftarrow> Some (sp \<lparr> sp_list := returnedPuddle \<rparr>);
        (if allocPuddle sp = NULL then
           do { r \<leftarrow> sp_puddles sp returnedPuddle;
                assert_MM (pd_next r = NULL);
                Some (sp \<lparr> allocPuddle := returnedPuddle \<rparr>) }
         else Some sp) })"

definition popPreviousPuddle :: "addr \<Rightarrow> SublistPool \<Rightarrow> (addr \<times> SublistPool) option" where
  "popPreviousPuddle returnedPuddle sp =
     do { sp \<leftarrow> return_puddle returnedPuddle sp;
          (let result = previousList sp
           in if result = NULL then Some (NULL, sp)
              else do { r \<leftarrow> sp_puddles sp result;
                        sp \<leftarrow> puddle_setNext result NULL (sp \<lparr> previousList := pd_next r \<rparr>);
                        Some (result, sp) }) }"

section \<open>Fragments\<close>

definition fragment_allocate :: "addr \<Rightarrow> SublistFragment \<Rightarrow> SublistPool \<Rightarrow> (addr \<times> SublistFragment \<times> SublistPool) option" where
  "fragment_allocate blk fr sp =
     (let take_slot = (\<lambda>fr. fr \<lparr> fg_count := uadd (fg_count fr) 1, fragmentCurrent := uadd (fragmentCurrent fr) 8 \<rparr>)
      in if fragmentCurrent fr < fragmentTop fr then Some (fragmentCurrent fr, take_slot fr, sp)
         else do { (ok, fr, sp) \<leftarrow> sp_allocate blk fr sp;
                   Some (if ok then (fragmentCurrent fr, take_slot fr, sp) else (NULL, fr, sp)) })"

definition fragment_add :: "addr \<Rightarrow> uword \<Rightarrow> SublistFragment \<Rightarrow> SublistPool \<Rightarrow> (bool \<times> SublistFragment \<times> SublistPool) option" where
  "fragment_add blk entry fr sp =
     do { (dest, fr, sp) \<leftarrow> fragment_allocate blk fr sp;
          Some (if dest \<noteq> NULL then (True, fr, sp \<lparr> sp_mem := (sp_mem sp)(dest := entry) \<rparr>) else (False, fr, sp)) }"

definition fragment_flush :: "SublistFragment \<Rightarrow> SublistPool \<Rightarrow> SublistFragment \<times> SublistPool" where
  "fragment_flush fr sp =
     (fr \<lparr> fg_count := 0, fragmentCurrent := NULL, fragmentTop := NULL \<rparr>, incrementCount (fg_count fr) sp)"

text \<open>The result is 0 on success; a failure also puts the remembered set into its overflow state.\<close>

definition allocateMemoryForSublistFragment ::
  "addr \<Rightarrow> SublistFragment \<Rightarrow> SublistPool \<Rightarrow> bool \<Rightarrow> (nat \<times> SublistFragment \<times> SublistPool \<times> bool) option" where
  "allocateMemoryForSublistFragment blk fr sp overflowed =
     (case fragment_flush fr sp of (fr, sp) \<Rightarrow>
        do { (ok, fr, sp) \<leftarrow> sp_allocate blk fr sp;
             Some (if ok then (0, fr, sp, overflowed) else (1, fr, sp, True)) })"

section \<open>Iterators\<close>

text \<open>\<open>GC_SublistIterator::nextList\<close>: the current puddle is the iterator's state.\<close>

definition nextList :: "SublistPool \<Rightarrow> addr \<Rightarrow> addr option" where
  "nextList sp currentPuddle =
     (if currentPuddle \<noteq> NULL then map_option pd_next (sp_puddles sp currentPuddle) else Some (sp_list sp))"

record SlotIterator =
  si_puddle :: addr
  scanPtr :: addr
  removedCount :: nat
  returnedFilledSlot :: bool

definition slot_iterator :: "addr \<Rightarrow> SublistPool \<Rightarrow> SlotIterator option" where
  "slot_iterator p sp =
     do { d \<leftarrow> sp_puddles sp p;
          Some \<lparr> si_puddle = p, scanPtr = listBase d, removedCount = 0, returnedFilledSlot = False \<rparr> }"

definition nextSlot :: "SlotIterator \<Rightarrow> SublistPool \<Rightarrow> (addr \<times> SlotIterator \<times> SublistPool) option" where
  "nextSlot it sp =
     (let it = (if returnedFilledSlot it \<and> sp_mem sp (usub (scanPtr it) 8) = 0
                then it \<lparr> removedCount := uadd (removedCount it) 1 \<rparr> else it)
      in do { d \<leftarrow> sp_puddles sp (si_puddle it);
              (if scanPtr it < listCurrent d then
                 Some (scanPtr it, it \<lparr> returnedFilledSlot := (sp_mem sp (scanPtr it) \<noteq> 0), scanPtr := uadd (scanPtr it) 8 \<rparr>, sp)
               else Some (NULL, it, decrementCount (removedCount it) sp)) })"

definition removeSlot :: "SlotIterator \<Rightarrow> SublistPool \<Rightarrow> (SlotIterator \<times> SublistPool) option" where
  "removeSlot it sp =
     (let it = (if returnedFilledSlot it then it \<lparr> removedCount := uadd (removedCount it) 1 \<rparr> else it);
          it = it \<lparr> returnedFilledSlot := False, scanPtr := usub (scanPtr it) 8 \<rparr>
      in do { sp \<leftarrow> upd_puddle (si_puddle it) (\<lambda>d. d \<lparr> listCurrent := usub (listCurrent d) 8 \<rparr>) sp;
              d \<leftarrow> sp_puddles sp (si_puddle it);
              Some (it, sp \<lparr> sp_mem := ((sp_mem sp)(scanPtr it := sp_mem sp (listCurrent d)))(listCurrent d := 0) \<rparr>) })"

text \<open>
  The walk of \<open>MM_Scavenger::pruneRememberedSetList\<close> (without concurrent scavenging) over one puddle:
  empty slots and slots flagged for removal go, the other objects stay.  \<open>clearRemembered\<close> changes
  the header of the object only, which the list does not see.
\<close>

definition DEFERRED_RS_REMOVE_FLAG :: uword where
  "DEFERRED_RS_REMOVE_FLAG = 1"

partial_function (option) prune_slots :: "SlotIterator \<Rightarrow> SublistPool \<Rightarrow> SublistPool option" where
  "prune_slots it sp =
     do { (slotPtr, it, sp) \<leftarrow> nextSlot it sp;
          (if slotPtr = NULL then Some sp
           else if sp_mem sp slotPtr = 0 \<or> sp_mem sp slotPtr AND DEFERRED_RS_REMOVE_FLAG \<noteq> 0 then
             do { (it, sp) \<leftarrow> removeSlot it sp; prune_slots it sp }
           else prune_slots it sp) }"

text \<open>\<open>handle\<close> says which puddles, counted as work units, fall to this thread.\<close>

partial_function (option) prune_puddles :: "(nat \<Rightarrow> bool) \<Rightarrow> nat \<Rightarrow> addr \<Rightarrow> SublistPool \<Rightarrow> SublistPool option" where
  "prune_puddles handle unit1 currentPuddle sp =
     do { puddle \<leftarrow> nextList sp currentPuddle;
          (if puddle = NULL then Some sp
           else do { sp \<leftarrow> (if handle unit1 then do { it \<leftarrow> slot_iterator puddle sp; prune_slots it sp } else Some sp);
                     prune_puddles handle (unit1 + 1) puddle sp }) }"

definition pruneRememberedSetList :: "(nat \<Rightarrow> bool) \<Rightarrow> SublistPool \<Rightarrow> SublistPool option" where
  "pruneRememberedSetList handle sp = prune_puddles handle 0 NULL sp"

end
