(* ===== verification/Sublist_Heap.thy ===== *)
theory Sublist_Heap
  imports Sublist_Pool
begin

text \<open>
  The puddles as a heap structure: well-formed puddles with disjoint slots, chains of puddles, and
  the elements a puddle holds.
\<close>

section \<open>Well-formed puddles\<close>

definition puddle_ok :: "addr \<Rightarrow> SublistPuddle \<Rightarrow> bool" where
  "puddle_ok p d \<longleftrightarrow> p \<noteq> NULL \<and> 8 dvd p \<and> listBase d = p + 48 \<and> listBase d \<le> listCurrent d \<and> listCurrent d \<le> listTop d \<and>
     listTop d = listBase d + pd_size d \<and> 0 < pd_size d \<and> 8 dvd pd_size d \<and> 8 dvd listCurrent d \<and> listTop d < UMAX"

lemma puddle_ok_facts:
  assumes "puddle_ok p d"
  shows "p \<noteq> NULL" "p < listBase d" "listBase d \<le> listCurrent d" "listCurrent d \<le> listTop d" "listBase d < listTop d"
    "8 dvd listBase d" "8 dvd listCurrent d" "8 dvd listTop d" "listTop d < UMAX" "listTop d = listBase d + pd_size d"
  using assms by (auto simp: puddle_ok_def)

lemma puddle_sizes:
  assumes "puddle_ok p d"
  shows "consumedSize d = listCurrent d - listBase d" "puddle_freeSize d = listTop d - listCurrent d" "totalSize d = pd_size d"
  using puddle_ok_facts [OF assms] by (auto simp: consumedSize_def puddle_freeSize_def totalSize_def usub_exact)

text \<open>The unused slots of every puddle are zero, as fragments expect.\<close>

definition puddles_ok :: "(addr \<rightharpoonup> SublistPuddle) \<Rightarrow> mem \<Rightarrow> bool" where
  "puddles_ok h m \<longleftrightarrow> (\<forall>p d. h p = Some d \<longrightarrow> puddle_ok p d \<and> (\<forall>a. 8 dvd a \<and> listCurrent d \<le> a \<and> a < listTop d \<longrightarrow> m a = 0)) \<and>
     (\<forall>p d q e. h p = Some d \<and> h q = Some e \<and> p \<noteq> q \<longrightarrow> listTop d \<le> q \<or> listTop e \<le> p)"

lemma puddles_okD:
  assumes "puddles_ok h m" "h p = Some d"
  shows "puddle_ok p d" "\<And>a. 8 dvd a \<Longrightarrow> listCurrent d \<le> a \<Longrightarrow> a < listTop d \<Longrightarrow> m a = 0"
  using assms by (auto simp: puddles_ok_def)

lemma puddles_apart:
  assumes "puddles_ok h m" "h p = Some d" "h q = Some e" "p \<noteq> q"
  shows "listTop d \<le> q \<or> listTop e \<le> p"
  using assms by (auto simp: puddles_ok_def)

text \<open>A puddle whose cursor and link have changed keeps its place.\<close>

definition same_place :: "SublistPuddle \<Rightarrow> SublistPuddle \<Rightarrow> bool" where
  "same_place d d' \<longleftrightarrow> listBase d' = listBase d \<and> listTop d' = listTop d \<and> pd_size d' = pd_size d"

lemma same_place_refl [simp]: "same_place d d"
  by (simp add: same_place_def)

lemma puddles_ok_upd:
  assumes ok: "puddles_ok h m" and p: "h p = Some d" and s: "same_place d d'"
    and c: "listBase d \<le> listCurrent d'" "listCurrent d' \<le> listTop d" "8 dvd listCurrent d'"
    and z: "\<And>a. 8 dvd a \<Longrightarrow> listCurrent d' \<le> a \<Longrightarrow> a < listTop d \<Longrightarrow> m' a = 0"
    and z': "\<And>a. \<not> (listBase d \<le> a \<and> a < listTop d) \<Longrightarrow> m a = 0 \<Longrightarrow> m' a = 0"
  shows "puddles_ok (h(p \<mapsto> d')) m'"
proof -
  have pd: "puddle_ok p d'" using puddles_okD(1) [OF ok p] s c by (auto simp: puddle_ok_def same_place_def)
  have "m' a = 0" if "h q = Some e" "q \<noteq> p" "8 dvd a" "listCurrent e \<le> a" "a < listTop e" for q e a
  proof -
    have "listTop d \<le> q \<or> listTop e \<le> p" using puddles_apart [OF ok p that(1)] that(2) by auto
    then have "\<not> (listBase d \<le> a \<and> a < listTop d)"
      using puddle_ok_facts(2,3) [OF puddles_okD(1) [OF ok that(1)]] puddle_ok_facts(2) [OF puddles_okD(1) [OF ok p]] that(4,5) by auto
    then show ?thesis using z' puddles_okD(2) [OF ok that(1,3-5)] by auto
  qed
  then show ?thesis using ok p pd s z unfolding puddles_ok_def same_place_def by auto
qed

lemma puddles_ok_kill: "puddles_ok h m \<Longrightarrow> puddles_ok (h(p := None)) m"
  unfolding puddles_ok_def by auto

text \<open>A block of the forge overlaps no puddle.\<close>

definition fresh_block :: "nat \<Rightarrow> (addr \<rightharpoonup> SublistPuddle) \<Rightarrow> addr \<Rightarrow> bool" where
  "fresh_block n h blk \<longleftrightarrow> blk = NULL \<or> 8 dvd blk \<and> blk + 48 + n < UMAX \<and>
     (\<forall>p d. h p = Some d \<longrightarrow> blk + 48 + n \<le> p \<or> listTop d \<le> blk)"

lemma fresh_not_puddle:
  assumes "fresh_block n h blk" "puddles_ok h m" "blk \<noteq> NULL"
  shows "h blk = None"
proof (cases "h blk")
  case (Some d)
  then show ?thesis using assms puddle_ok_facts(2,5) [OF puddles_okD(1) [OF assms(2) Some]] by (fastforce simp: fresh_block_def)
qed simp

lemma puddles_ok_new:
  assumes ok: "puddles_ok h m" and f: "fresh_block g h blk" "blk \<noteq> NULL" and n: "0 < n" "n \<le> g" "8 dvd n"
    and d: "listBase d = blk + 48" "listCurrent d = blk + 48" "listTop d = blk + 48 + n" "pd_size d = n"
  shows "puddles_ok (h(blk \<mapsto> d)) (zero_range (blk + 48) n m)"
proof -
  have fb: "8 dvd blk" "blk + 48 + n < UMAX" "\<And>p d. h p = Some d \<Longrightarrow> blk + 48 + n \<le> p \<or> listTop d \<le> blk"
    using f n(2) by (fastforce simp: fresh_block_def)+
  have "puddle_ok blk d" using f(2) n fb(1,2) d by (simp add: puddle_ok_def)
  then show ?thesis using ok fb(3) d unfolding puddles_ok_def zero_range_def by auto
qed

section \<open>Chains\<close>

primrec pchain :: "(addr \<rightharpoonup> SublistPuddle) \<Rightarrow> addr \<Rightarrow> addr list \<Rightarrow> bool" where
  "pchain h p [] \<longleftrightarrow> p = NULL"
| "pchain h p (x # xs) \<longleftrightarrow> p = x \<and> x \<noteq> NULL \<and> (\<exists>d. h x = Some d \<and> pchain h (pd_next d) xs)"

lemma pchain_NULL [simp]: "pchain h NULL xs \<longleftrightarrow> xs = []"
  by (cases xs) auto

lemma pchain_dom: "pchain h p xs \<Longrightarrow> x \<in> set xs \<Longrightarrow> x \<noteq> NULL \<and> (\<exists>d. h x = Some d)"
  by (induction xs arbitrary: p) auto

lemma pchain_head: "pchain h p xs \<Longrightarrow> p = (if xs = [] then NULL else hd xs)"
  by (cases xs) auto

lemma pchain_cong: "(\<And>x. x \<in> set xs \<Longrightarrow> map_option pd_next (h' x) = map_option pd_next (h x)) \<Longrightarrow> pchain h' p xs \<longleftrightarrow> pchain h p xs"
proof (induction xs arbitrary: p)
  case (Cons x xs)
  have "map_option pd_next (h' x) = map_option pd_next (h x)" by (rule Cons.prems) simp
  then show ?case using Cons.IH [OF Cons.prems] by (cases "h x"; cases "h' x") auto
qed simp

lemma pchain_other [simp]: "x \<notin> set xs \<Longrightarrow> pchain (h(x := v)) p xs \<longleftrightarrow> pchain h p xs"
  by (rule pchain_cong) auto

lemma pchain_same: "h x = Some d \<Longrightarrow> pd_next d' = pd_next d \<Longrightarrow> pchain (h(x \<mapsto> d')) p xs \<longleftrightarrow> pchain h p xs"
  by (rule pchain_cong) auto

text \<open>Linking a chain behind the last puddle of another.\<close>

lemma pchain_link:
  assumes "pchain h p (xs @ [x])" "distinct (xs @ [x])" "pchain h n ys" "x \<notin> set ys" "pd_next d = n"
  shows "pchain (h(x \<mapsto> d)) p (xs @ x # ys)"
  using assms by (induction xs arbitrary: p) auto

lemma pchain_last_next:
  assumes "pchain h p (xs @ [x])"
  shows "\<exists>d. h x = Some d \<and> pd_next d = NULL"
  using assms by (induction xs arbitrary: p) auto

section \<open>Elements\<close>

definition slot_addrs :: "addr \<Rightarrow> addr \<Rightarrow> addr list" where
  "slot_addrs lo hi = map (\<lambda>i. lo + 8 * i) [0..<(hi - lo) div 8]"

definition filled :: "mem \<Rightarrow> addr list \<Rightarrow> uword multiset" where
  "filled m as = {#v \<in># image_mset m (mset as). v \<noteq> 0#}"

definition pd_elems :: "mem \<Rightarrow> SublistPuddle \<Rightarrow> uword multiset" where
  "pd_elems m d = filled m (slot_addrs (listBase d) (listCurrent d))"

lemma slot_addrs_empty [simp]: "hi \<le> lo \<Longrightarrow> slot_addrs lo hi = []"
  by (simp add: slot_addrs_def)

lemma slot_addrs_bounds: "a \<in> set (slot_addrs lo hi) \<Longrightarrow> lo \<le> a \<and> a < hi"
  by (auto simp: slot_addrs_def)

lemma slot_addrs_aligned: "a \<in> set (slot_addrs lo hi) \<Longrightarrow> 8 dvd lo \<Longrightarrow> 8 dvd a"
  by (auto simp: slot_addrs_def)

lemma slot_addrs_split:
  assumes "8 dvd lo" "8 dvd mid" "lo \<le> mid" "mid \<le> hi"
  shows "slot_addrs lo hi = slot_addrs lo mid @ slot_addrs mid hi"
proof -
  obtain k where k: "mid = lo + 8 * k" using assms(1-3) by (metis dvd_diff_nat dvdE le_add_diff_inverse)
  have e: "(hi - lo) div 8 = k + (hi - mid) div 8" using k assms(4) by auto
  show ?thesis unfolding slot_addrs_def e upt_add_eq_append [OF le0] using k
    by (auto simp: map_add_upt [symmetric] algebra_simps comp_def intro!: nth_equalityI)
qed

lemma slot_addrs_one [simp]: "slot_addrs a (a + 8) = [a]"
  by (simp add: slot_addrs_def)

lemma slot_addrs_shift: "slot_addrs (lo + n) (hi + n) = map (\<lambda>a. a + n) (slot_addrs lo hi)"
  by (simp add: slot_addrs_def)

lemma filled_simps [simp]:
  "filled m [] = {#}" "filled m (xs @ ys) = filled m xs + filled m ys"
  "filled m (a # xs) = (if m a = 0 then {#} else {#m a#}) + filled m xs"
  by (auto simp: filled_def)

lemma filled_cong: "(\<And>a. a \<in> set as \<Longrightarrow> m' a = m a) \<Longrightarrow> filled m' as = filled m as"
  by (induction as) auto

lemma filled_zero: "(\<And>a. a \<in> set as \<Longrightarrow> m a = 0) \<Longrightarrow> filled m as = {#}"
  by (induction as) auto

lemma pd_elems_cong:
  "listBase d' = listBase d \<Longrightarrow> listCurrent d' = listCurrent d \<Longrightarrow> (\<And>a. listBase d \<le> a \<Longrightarrow> a < listCurrent d \<Longrightarrow> m' a = m a) \<Longrightarrow>
    pd_elems m' d' = pd_elems m d"
  by (auto simp: pd_elems_def intro!: filled_cong dest: slot_addrs_bounds)

lemma pd_elems_grow:
  assumes "puddle_ok p d" "same_place d d'" "listCurrent d \<le> listCurrent d'" "listCurrent d' \<le> listTop d"
    "\<And>a. 8 dvd a \<Longrightarrow> listCurrent d \<le> a \<Longrightarrow> a < listTop d \<Longrightarrow> m a = 0"
  shows "pd_elems m d' = pd_elems m d"
proof -
  have "slot_addrs (listBase d) (listCurrent d') = slot_addrs (listBase d) (listCurrent d) @ slot_addrs (listCurrent d) (listCurrent d')"
    using puddle_ok_facts [OF assms(1)] assms(3) by (intro slot_addrs_split)
  moreover have "filled m (slot_addrs (listCurrent d) (listCurrent d')) = {#}"
  proof (rule filled_zero)
    fix a assume a: "a \<in> set (slot_addrs (listCurrent d) (listCurrent d'))"
    show "m a = 0" using assms(5) [OF slot_addrs_aligned [OF a puddle_ok_facts(7) [OF assms(1)]]] slot_addrs_bounds [OF a] assms(4) by simp
  qed
  ultimately show ?thesis using assms(2) by (simp add: pd_elems_def same_place_def)
qed

text \<open>Writing an element into an empty slot.\<close>

lemma pd_elems_write:
  assumes "puddle_ok p d" "listBase d \<le> a" "a < listCurrent d" "8 dvd a" "m a = 0" "e \<noteq> 0"
  shows "pd_elems (m(a := e)) d = add_mset e (pd_elems m d)"
proof -
  note f = puddle_ok_facts [OF assms(1)]
  have a8: "a + 8 \<le> listCurrent d" using aligned_gap [of a "listCurrent d"] assms(3,4) f(7) by (simp add: dvd_eq_mod_eq_0)
  have s: "slot_addrs (listBase d) (listCurrent d) = slot_addrs (listBase d) a @ a # slot_addrs (a + 8) (listCurrent d)"
    using slot_addrs_split [OF f(6) assms(4,2), of "listCurrent d"] slot_addrs_split [of a "a + 8" "listCurrent d"] a8 assms(3,4) by simp
  have "filled (m(a := e)) (slot_addrs (listBase d) a) = filled m (slot_addrs (listBase d) a)"
    "filled (m(a := e)) (slot_addrs (a + 8) (listCurrent d)) = filled m (slot_addrs (a + 8) (listCurrent d))"
    by (auto intro!: filled_cong dest!: slot_addrs_bounds)
  then show ?thesis using assms(5,6) by (simp add: pd_elems_def s)
qed

definition elems :: "(addr \<rightharpoonup> SublistPuddle) \<Rightarrow> mem \<Rightarrow> addr list \<Rightarrow> uword multiset" where
  "elems h m ps = (\<Sum>p\<leftarrow>ps. pd_elems m (the (h p)))"

lemma elems_simps [simp]:
  "elems h m [] = {#}" "elems h m (p # ps) = pd_elems m (the (h p)) + elems h m ps" "elems h m (ps @ qs) = elems h m ps + elems h m qs"
  by (simp_all add: elems_def)

lemma elems_cong: "(\<And>p. p \<in> set ps \<Longrightarrow> pd_elems m' (the (h' p)) = pd_elems m (the (h p))) \<Longrightarrow> elems h' m' ps = elems h m ps"
  by (induction ps) auto

text \<open>Changes to one puddle and its slots leave the elements of the others.\<close>

lemma elems_frame:
  assumes ok: "puddles_ok h m" and p: "h p = Some d" and ps: "p \<notin> set ps" "set ps \<subseteq> dom h"
    and m: "\<And>a. \<not> (listBase d \<le> a \<and> a < listTop d) \<Longrightarrow> m' a = m a"
  shows "elems (h(p := v)) m' ps = elems h m ps"
proof (rule elems_cong)
  fix q assume q: "q \<in> set ps"
  then obtain e where e: "h q = Some e" using ps(2) by auto
  have "listTop d \<le> q \<or> listTop e \<le> p" using puddles_apart [OF ok p e] q ps(1) by auto
  then have "m' a = m a" if "listBase e \<le> a" "a < listCurrent e" for a
    using m that puddle_ok_facts [OF puddles_okD(1) [OF ok e]] puddle_ok_facts(2) [OF puddles_okD(1) [OF ok p]] by force
  then show "pd_elems m' (the ((h(p := v)) q)) = pd_elems m (the (h q))" using q ps(1) e by (auto intro!: pd_elems_cong)
qed

end
