(* ===== verification/Sublist_Alloc.thy ===== *)
theory Sublist_Alloc
  imports Sublist_Heap
begin

text \<open>
  The invariant of a sublist pool, and what \<open>MM_SublistPool::allocate\<close> and the fragments do under it.
\<close>

section \<open>The invariant\<close>

definition pd_total :: "(addr \<rightharpoonup> SublistPuddle) \<Rightarrow> addr list \<Rightarrow> nat" where
  "pd_total h ps = (\<Sum>p\<leftarrow>ps. pd_size (the (h p)))"

lemma pd_total_simps [simp]:
  "pd_total h [] = 0" "pd_total h (p # ps) = pd_size (the (h p)) + pd_total h ps" "pd_total h (ps @ qs) = pd_total h ps + pd_total h qs"
  by (simp_all add: pd_total_def)

lemma pd_total_cong: "(\<And>p. p \<in> set ps \<Longrightarrow> pd_size (the (h' p)) = pd_size (the (h p))) \<Longrightarrow> pd_total h' ps = pd_total h ps"
  by (induction ps) auto

text \<open>
  \<open>ps\<close> is the list of the pool, \<open>qs\<close> the list being processed and \<open>rs\<close> the puddles that threads have
  popped from it.  The puddle to allocate from is the last of the list.
\<close>

definition chains_ok :: "SublistPool \<Rightarrow> addr list \<Rightarrow> addr list \<Rightarrow> addr list \<Rightarrow> bool" where
  "chains_ok sp ps qs rs \<longleftrightarrow> pchain (sp_puddles sp) (sp_list sp) ps \<and> pchain (sp_puddles sp) (previousList sp) qs \<and>
     (\<forall>r \<in> set rs. r \<noteq> NULL \<and> (\<exists>d. sp_puddles sp r = Some d \<and> pd_next d = NULL)) \<and>
     distinct (ps @ qs @ rs) \<and> dom (sp_puddles sp) = set (ps @ qs @ rs) \<and>
     allocPuddle sp = (if ps = [] then NULL else last ps)"

definition limits_ok :: "SublistPool \<Rightarrow> addr list \<Rightarrow> bool" where
  "limits_ok sp ps \<longleftrightarrow> 8 dvd growSize sp \<and> growSize sp < UMAX \<and> 8 dvd maxSize sp \<and> maxSize sp < UMAX \<and>
     (maxSize sp \<noteq> 0 \<longrightarrow> 8 dvd currentSize sp \<and> pd_total (sp_puddles sp) ps \<le> currentSize sp \<and> currentSize sp \<le> maxSize sp)"

definition sp_inv :: "SublistPool \<Rightarrow> addr list \<Rightarrow> addr list \<Rightarrow> addr list \<Rightarrow> bool" where
  "sp_inv sp ps qs rs \<longleftrightarrow> puddles_ok (sp_puddles sp) (sp_mem sp) \<and> chains_ok sp ps qs rs \<and> limits_ok sp (ps @ qs @ rs)"

lemmas sp_inv_defs = sp_inv_def chains_ok_def limits_ok_def

lemma sp_inv_puddles: "sp_inv sp ps qs rs \<Longrightarrow> puddles_ok (sp_puddles sp) (sp_mem sp)"
  by (simp add: sp_inv_def)

lemma sp_inv_alloc:
  assumes "sp_inv sp ps qs rs" "ps \<noteq> []"
  shows "allocPuddle sp = last ps" "last ps \<noteq> NULL" "sp_list sp \<noteq> NULL"
    "\<exists>d. sp_puddles sp (last ps) = Some d \<and> pd_next d = NULL \<and> puddle_ok (last ps) d"
proof -
  have c: "pchain (sp_puddles sp) (sp_list sp) (butlast ps @ [last ps])" "allocPuddle sp = last ps"
    using assms by (simp_all add: sp_inv_defs)
  then show "allocPuddle sp = last ps" by simp
  show "last ps \<noteq> NULL" using pchain_dom [OF c(1)] by simp
  have "pchain (sp_puddles sp) (sp_list sp) ps" using assms(1) by (simp add: sp_inv_defs)
  then show "sp_list sp \<noteq> NULL" using pchain_head pchain_dom assms(2) by (metis hd_in_set)
  obtain d where "sp_puddles sp (last ps) = Some d" "pd_next d = NULL" using pchain_last_next [OF c(1)] by blast
  then show "\<exists>d. sp_puddles sp (last ps) = Some d \<and> pd_next d = NULL \<and> puddle_ok (last ps) d"
    using puddles_okD(1) [OF sp_inv_puddles [OF assms(1)]] by blast
qed

lemma sp_inv_empty: "sp_inv sp [] qs rs \<Longrightarrow> sp_list sp = NULL \<and> allocPuddle sp = NULL"
  by (simp add: sp_inv_defs)

section \<open>What survives an operation\<close>

text \<open>Puddles stay, their cursors only move up, and the slots below them keep their values.\<close>

definition extends :: "(addr \<rightharpoonup> SublistPuddle) \<Rightarrow> mem \<Rightarrow> (addr \<rightharpoonup> SublistPuddle) \<Rightarrow> mem \<Rightarrow> bool" where
  "extends h m h' m' \<longleftrightarrow> (\<forall>p d. h p = Some d \<longrightarrow> (\<exists>d'. h' p = Some d' \<and> same_place d d' \<and> listCurrent d \<le> listCurrent d' \<and>
     (\<forall>a. listBase d \<le> a \<and> a < listCurrent d \<longrightarrow> m' a = m a)))"

lemma extends_refl [simp]: "extends h m h m"
  by (auto simp: extends_def)

text \<open>A range of fresh slots: reserved now, not in use before, and zero.\<close>

definition new_range :: "(addr \<rightharpoonup> SublistPuddle) \<Rightarrow> (addr \<rightharpoonup> SublistPuddle) \<Rightarrow> mem \<Rightarrow> addr \<Rightarrow> addr \<Rightarrow> bool" where
  "new_range h h' m' lo hi \<longleftrightarrow> lo < hi \<and> 8 dvd lo \<and> 8 dvd hi \<and> (\<forall>a. 8 dvd a \<and> lo \<le> a \<and> a < hi \<longrightarrow> m' a = 0) \<and>
     (\<exists>p d. h' p = Some d \<and> listBase d \<le> lo \<and> hi \<le> listCurrent d) \<and>
     (\<forall>p d a. h p = Some d \<and> listBase d \<le> a \<and> a < listCurrent d \<longrightarrow> \<not> (lo \<le> a \<and> a < hi))"

section \<open>Allocating from a puddle\<close>

definition frag_len :: "nat \<Rightarrow> SublistPuddle \<Rightarrow> nat" where
  "frag_len n d = min n (listTop d - listCurrent d)"

lemma puddle_allocate_eq:
  assumes "sp_puddles sp p = Some d" "puddle_ok p d"
  shows "puddle_allocate p fr sp =
    (if listCurrent d = listTop d then Some (False, fr, sp)
     else Some (True, fr \<lparr> fragmentCurrent := listCurrent d, fragmentTop := listCurrent d + frag_len (fragmentSize fr) d \<rparr>,
       sp \<lparr> sp_puddles := (sp_puddles sp)(p \<mapsto> d \<lparr> listCurrent := listCurrent d + frag_len (fragmentSize fr) d \<rparr>) \<rparr>))"
proof -
  note f = puddle_ok_facts [OF assms(2)]
  define k where "k = frag_len (fragmentSize fr) d"
  have k: "(if fragmentSize fr < listTop d - listCurrent d then fragmentSize fr else listTop d - listCurrent d) = k"
    by (simp add: k_def frag_len_def)
  have "usub (listTop d) (listCurrent d) = listTop d - listCurrent d" using f by (simp add: usub_exact)
  moreover have "uadd (listCurrent d) k = listCurrent d + k"
    using f by (intro uadd_exact) (auto simp: k_def frag_len_def)
  ultimately show ?thesis using assms(1) f(4) unfolding k_def [symmetric]
    by (cases "fragmentSize fr < listTop d - listCurrent d")
      (use k in \<open>auto simp: puddle_allocate_def fragment_range_def upd_puddle_def fragment_update_def Let_def\<close>)
qed

lemma frag_len_facts:
  assumes "puddle_ok p d" "listCurrent d \<noteq> listTop d" "0 < n" "8 dvd n"
  shows "0 < frag_len n d" "8 dvd frag_len n d" "listCurrent d + frag_len n d \<le> listTop d"
  using puddle_ok_facts [OF assms(1)] assms(2-4) by (auto simp: frag_len_def min_def)

text \<open>The cursor of a puddle moves up by \<open>k\<close>.\<close>

lemma bump:
  assumes ok: "puddles_ok h m" and p: "h p = Some d" and k: "0 < k" "8 dvd k" "listCurrent d + k \<le> listTop d"
  defines "h' \<equiv> h(p \<mapsto> d \<lparr> listCurrent := listCurrent d + k \<rparr>)"
  shows "puddles_ok h' m" "extends h m h' m" "new_range h h' m (listCurrent d) (listCurrent d + k)"
    "set ps \<subseteq> dom h \<Longrightarrow> elems h' m ps = elems h m ps" "pd_total h' ps = pd_total h ps" "pchain h' q xs \<longleftrightarrow> pchain h q xs"
proof -
  note pd = puddles_okD [OF ok p] and f = puddle_ok_facts [OF puddles_okD(1) [OF ok p]]
  let ?d = "d \<lparr> listCurrent := listCurrent d + k \<rparr>"
  have sp: "same_place d ?d" by (simp add: same_place_def)
  show "puddles_ok h' m" unfolding h'_def by (rule puddles_ok_upd [OF ok p sp]) (use f k pd(2) in auto)
  show "extends h m h' m" using p sp by (auto simp: extends_def h'_def)
  have "\<not> (listCurrent d \<le> a \<and> a < listCurrent d + k)" if "h q = Some e" "listBase e \<le> a" "a < listCurrent e" for q e a
  proof (cases "q = p")
    case True
    then show ?thesis using that p by auto
  next
    case False
    then have "listTop d \<le> q \<or> listTop e \<le> p" using puddles_apart [OF ok p that(1)] by auto
    then show ?thesis using that(2,3) f k(3) puddle_ok_facts [OF puddles_okD(1) [OF ok that(1)]] by linarith
  qed
  then show "new_range h h' m (listCurrent d) (listCurrent d + k)"
    using k f pd(2) unfolding new_range_def by (auto simp: h'_def intro!: exI [of _ p])
  show "elems h' m ps = elems h m ps" if "set ps \<subseteq> dom h"
  proof (rule elems_cong)
    fix q assume "q \<in> set ps"
    have "pd_elems m ?d = pd_elems m d" by (rule pd_elems_grow [OF pd(1) sp]) (use k pd(2) in auto)
    then show "pd_elems m (the (h' q)) = pd_elems m (the (h q))" using p by (auto simp: h'_def)
  qed
  show "pd_total h' ps = pd_total h ps" using p by (intro pd_total_cong) (auto simp: h'_def)
  show "pchain h' q xs \<longleftrightarrow> pchain h q xs" unfolding h'_def by (rule pchain_same [where d = d]) (use p in simp_all)
qed

section \<open>Growing the pool\<close>

lemma puddle_growth_bound:
  assumes "limits_ok sp ps"
  shows "puddle_growth sp \<le> growSize sp" "8 dvd puddle_growth sp"
    "maxSize sp \<noteq> 0 \<Longrightarrow> currentSize sp + puddle_growth sp \<le> maxSize sp"
proof -
  have u: "maxSize sp \<noteq> 0 \<Longrightarrow> usub (maxSize sp) (currentSize sp) = maxSize sp - currentSize sp"
    using assms by (intro usub_exact) (auto simp: limits_ok_def)
  show "puddle_growth sp \<le> growSize sp" by (auto simp: puddle_growth_def Let_def)
  show "8 dvd puddle_growth sp" using assms u by (auto simp: puddle_growth_def Let_def limits_ok_def intro: dvd_diff_nat)
  show "maxSize sp \<noteq> 0 \<Longrightarrow> currentSize sp + puddle_growth sp \<le> maxSize sp"
    using assms u by (auto simp: puddle_growth_def Let_def limits_ok_def)
qed

definition new_puddle :: "addr \<Rightarrow> nat \<Rightarrow> SublistPuddle" where
  "new_puddle blk n = \<lparr> pd_next = NULL, listBase = blk + 48, listCurrent = blk + 48, listTop = blk + 48 + n, pd_size = n \<rparr>"

lemma new_puddle_simps [simp]:
  "pd_next (new_puddle blk n) = NULL" "listBase (new_puddle blk n) = blk + 48" "listCurrent (new_puddle blk n) = blk + 48"
  "listTop (new_puddle blk n) = blk + 48 + n" "pd_size (new_puddle blk n) = n"
  by (simp_all add: new_puddle_def)

text \<open>The pool with a new, empty puddle at the end of its list.\<close>

definition appended :: "addr \<Rightarrow> SublistPool \<Rightarrow> addr list \<Rightarrow> SublistPool" where
  "appended blk sp ps =
     (let n = puddle_growth sp;
          h = (if ps = [] then sp_puddles sp
               else (sp_puddles sp)(last ps := map_option (\<lambda>d. d \<lparr> pd_next := blk \<rparr>) (sp_puddles sp (last ps))))
      in sp \<lparr> sp_puddles := h(blk \<mapsto> new_puddle blk n), sp_mem := zero_range (blk + 48) n (sp_mem sp),
              currentSize := uadd (currentSize sp) n, sp_list := (if ps = [] then blk else sp_list sp), allocPuddle := blk \<rparr>)"

lemma relink:
  assumes "puddles_ok h m" "h p = Some d"
  shows "puddles_ok (h(p \<mapsto> d \<lparr> pd_next := n \<rparr>)) m"
proof -
  note f = puddle_ok_facts [OF puddles_okD(1) [OF assms]]
  show ?thesis by (rule puddles_ok_upd [OF assms]) (use f puddles_okD(2) [OF assms] in \<open>auto simp: same_place_def\<close>)
qed

lemma relink_elems: "h p = Some d \<Longrightarrow> elems (h(p \<mapsto> d \<lparr> pd_next := n \<rparr>)) m xs = elems h m xs"
  by (rule elems_cong) (auto simp: pd_elems_def)

lemma relink_total: "h p = Some d \<Longrightarrow> pd_total (h(p \<mapsto> d \<lparr> pd_next := n \<rparr>)) xs = pd_total h xs"
  by (rule pd_total_cong) auto

lemma fresh_relink: "h p = Some d \<Longrightarrow> fresh_block g h blk \<Longrightarrow> fresh_block g (h(p \<mapsto> d \<lparr> pd_next := n \<rparr>)) blk"
  by (auto simp: fresh_block_def)

text \<open>A new puddle in the heap.\<close>

lemma add_puddle:
  assumes ok: "puddles_ok h m" and f: "fresh_block g h blk" "blk \<noteq> NULL" and n: "0 < n" "n \<le> g" "8 dvd n"
  defines "h' \<equiv> h(blk \<mapsto> new_puddle blk n)" and "m' \<equiv> zero_range (blk + 48) n m"
  shows "puddles_ok h' m'" "set xs \<subseteq> dom h \<Longrightarrow> elems h' m' xs = elems h m xs" "pd_elems m' (new_puddle blk n) = {#}"
    "extends h m h' m'" "h blk = None" "blk \<notin> dom h"
proof -
  show none: "h blk = None" by (rule fresh_not_puddle [OF f(1) ok f(2)])
  then show "blk \<notin> dom h" by auto
  show "puddles_ok h' m'" unfolding h'_def m'_def by (rule puddles_ok_new [OF ok f n]) simp_all
  have same: "m' a = m a" if "h p = Some d" "listBase d \<le> a" "a < listCurrent d" for p d a
  proof -
    have "blk + 48 + g \<le> p \<or> listTop d \<le> blk" using f that(1) by (auto simp: fresh_block_def)
    then show ?thesis using that puddle_ok_facts [OF puddles_okD(1) [OF ok that(1)]] n(2) by (auto simp: m'_def zero_range_def)
  qed
  show "elems h' m' xs = elems h m xs" if xs: "set xs \<subseteq> dom h"
  proof (rule elems_cong)
    fix p assume "p \<in> set xs"
    then obtain d where "h p = Some d" using xs by blast
    moreover from this have "p \<noteq> blk" using none by auto
    ultimately show "pd_elems m' (the (h' p)) = pd_elems m (the (h p))" using same by (auto simp: h'_def intro!: pd_elems_cong)
  qed
  show "pd_elems m' (new_puddle blk n) = {#}" by (simp add: pd_elems_def)
  show "extends h m h' m'" using same none unfolding extends_def h'_def by (metis fun_upd_other option.distinct(1) order_refl same_place_refl)
qed

lemma extends_trans:
  assumes "extends h m h' m'" "extends h' m' h'' m''"
  shows "extends h m h'' m''"
  unfolding extends_def
proof (intro allI impI)
  fix p d assume "h p = Some d"
  then obtain d' where d': "h' p = Some d'" "same_place d d'" "listCurrent d \<le> listCurrent d'" "\<forall>a. listBase d \<le> a \<and> a < listCurrent d \<longrightarrow> m' a = m a"
    using assms(1) unfolding extends_def by blast
  then obtain d'' where d'': "h'' p = Some d''" "same_place d' d''" "listCurrent d' \<le> listCurrent d''"
      "\<forall>a. listBase d' \<le> a \<and> a < listCurrent d' \<longrightarrow> m'' a = m' a"
    using assms(2) unfolding extends_def by blast
  show "\<exists>d''. h'' p = Some d'' \<and> same_place d d'' \<and> listCurrent d \<le> listCurrent d'' \<and> (\<forall>a. listBase d \<le> a \<and> a < listCurrent d \<longrightarrow> m'' a = m a)"
    using d' d'' by (intro exI [of _ d'']) (auto simp: same_place_def)
qed

lemma extends_relink: "h p = Some d \<Longrightarrow> extends h m (h(p \<mapsto> d \<lparr> pd_next := n \<rparr>)) m"
  by (auto simp: extends_def same_place_def)

lemma sp_inv_appended:
  assumes inv: "sp_inv sp ps qs rs" and f: "fresh_block (growSize sp) (sp_puddles sp) blk" "blk \<noteq> NULL" and g: "puddle_growth sp \<noteq> 0"
  defines "sp' \<equiv> appended blk sp ps"
  shows "sp_inv sp' (ps @ [blk]) qs rs" "sp_puddles sp' blk = Some (new_puddle blk (puddle_growth sp))"
    "elems (sp_puddles sp') (sp_mem sp') (ps @ [blk] @ qs @ rs) = elems (sp_puddles sp) (sp_mem sp) (ps @ qs @ rs)"
    "extends (sp_puddles sp) (sp_mem sp) (sp_puddles sp') (sp_mem sp')" "blk \<notin> dom (sp_puddles sp)"
proof -
  note ok = sp_inv_puddles [OF inv]
  have lim: "limits_ok sp (ps @ qs @ rs)" and ch: "chains_ok sp ps qs rs" using inv by (simp_all add: sp_inv_def)
  note gb = puddle_growth_bound [OF lim]
  define h where "h = (if ps = [] then sp_puddles sp
               else (sp_puddles sp)(last ps := map_option (\<lambda>d. d \<lparr> pd_next := blk \<rparr>) (sp_puddles sp (last ps))))"
  have sp': "sp_puddles sp' = h(blk \<mapsto> new_puddle blk (puddle_growth sp))" "sp_mem sp' = zero_range (blk + 48) (puddle_growth sp) (sp_mem sp)"
    by (simp_all add: sp'_def appended_def Let_def h_def)
  have h: "puddles_ok h (sp_mem sp)" "fresh_block (growSize sp) h blk" "dom h = dom (sp_puddles sp)" "extends (sp_puddles sp) (sp_mem sp) h (sp_mem sp)"
      "\<And>xs. elems h (sp_mem sp) xs = elems (sp_puddles sp) (sp_mem sp) xs" "\<And>xs. pd_total h xs = pd_total (sp_puddles sp) xs"
      "\<And>x. x \<notin> set ps \<Longrightarrow> h x = sp_puddles sp x"
    using ok f sp_inv_alloc(4) [OF inv] relink relink_elems relink_total fresh_relink extends_relink
    by (auto simp: h_def split: if_splits)
  note ap = add_puddle [OF h(1,2) f(2) _ gb(1,2)]
  have g0: "0 < puddle_growth sp" using g by simp
  show nb: "blk \<notin> dom (sp_puddles sp)" using ap(6) [OF g0] h(3) by simp
  show "extends (sp_puddles sp) (sp_mem sp) (sp_puddles sp') (sp_mem sp')" using extends_trans [OF h(4) ap(4) [OF g0]] by (simp add: sp')
  show "sp_puddles sp' blk = Some (new_puddle blk (puddle_growth sp))" by (simp add: sp')
  have dm: "set (ps @ qs @ rs) = dom h" using ch h(3) by (simp add: chains_ok_def)
  then have sub: "set ps \<subseteq> dom h" "set (qs @ rs) \<subseteq> dom h" by auto
  show "elems (sp_puddles sp') (sp_mem sp') (ps @ [blk] @ qs @ rs) = elems (sp_puddles sp) (sp_mem sp) (ps @ qs @ rs)"
    using ap(2) [OF g0 sub(1)] ap(2) [OF g0 sub(2)] ap(3) [OF g0] h(5) by (simp add: sp')
  have nin: "blk \<notin> set (ps @ qs @ rs)" using nb dm h(3) by simp
  have c1: "pchain (sp_puddles sp') (sp_list sp') (ps @ [blk])"
  proof (cases "ps = []")
    case True
    then show ?thesis using f(2) by (simp add: sp' sp'_def appended_def Let_def)
  next
    case False
    obtain d where d: "sp_puddles sp (last ps) = Some d" using sp_inv_alloc(4) [OF inv False] by blast
    have "pchain ((sp_puddles sp)(blk \<mapsto> new_puddle blk (puddle_growth sp))) (sp_list sp) (butlast ps @ [last ps])"
      "distinct (butlast ps @ [last ps])" "last ps \<noteq> blk" using ch False nin by (auto simp: chains_ok_def)
    then have "pchain ((sp_puddles sp)(blk \<mapsto> new_puddle blk (puddle_growth sp), last ps \<mapsto> d \<lparr> pd_next := blk \<rparr>)) (sp_list sp) (butlast ps @ last ps # [blk])"
      using f(2) by (intro pchain_link) auto
    moreover have "butlast ps @ last ps # [blk] = ps @ [blk]" using False by (metis append.assoc append_Cons append_Nil append_butlast_last_id)
    ultimately show ?thesis using False d \<open>last ps \<noteq> blk\<close> by (simp add: sp' h_def sp'_def appended_def Let_def fun_upd_twist)
  qed
  have oth: "sp_puddles sp' x = sp_puddles sp x" if "x \<in> set (qs @ rs)" for x
    using that nin ch h(7) [of x] by (auto simp: sp' chains_ok_def)
  have c2: "pchain (sp_puddles sp') (previousList sp') qs"
    using ch oth by (subst pchain_cong [of _ _ "sp_puddles sp"]) (auto simp: chains_ok_def sp'_def appended_def Let_def)
  have al: "allocPuddle sp' = blk" by (simp add: sp'_def appended_def Let_def)
  have dm': "dom (sp_puddles sp') = set ((ps @ [blk]) @ qs @ rs)" using dm by (auto simp: sp'(1))
  have "\<forall>r \<in> set rs. r \<noteq> NULL \<and> (\<exists>d. sp_puddles sp' r = Some d \<and> pd_next d = NULL)" using ch oth by (simp add: chains_ok_def)
  then have c3: "chains_ok sp' (ps @ [blk]) qs rs"
    unfolding chains_ok_def dm' using c1 c2 ch nin al by (simp add: chains_ok_def)
  have t: "pd_total (sp_puddles sp') ((ps @ [blk]) @ qs @ rs) = pd_total (sp_puddles sp) (ps @ qs @ rs) + puddle_growth sp"
  proof -
    have "pd_total (sp_puddles sp') xs = pd_total h xs" if "blk \<notin> set xs" for xs using that by (intro pd_total_cong) (auto simp: sp')
    then show ?thesis using nin h(6) by (simp add: sp')
  qed
  have "limits_ok sp' ((ps @ [blk]) @ qs @ rs)"
  proof -
    have e: "growSize sp' = growSize sp" "maxSize sp' = maxSize sp" "currentSize sp' = uadd (currentSize sp) (puddle_growth sp)"
      by (simp_all add: sp'_def appended_def Let_def)
    have "uadd (currentSize sp) (puddle_growth sp) = currentSize sp + puddle_growth sp" if "maxSize sp \<noteq> 0"
      using gb(3) [OF that] lim by (intro uadd_exact) (auto simp: limits_ok_def)
    then show ?thesis using lim gb t unfolding limits_ok_def e by auto
  qed
  then show "sp_inv sp' (ps @ [blk]) qs rs" using c3 ap(1) [OF g0] by (simp add: sp_inv_def sp')
qed

end
