(* ===== verification/Sublist_Fragment.thy ===== *)
theory Sublist_Fragment
  imports Sublist_Alloc
begin

text \<open>
  \<open>MM_SublistPool::allocate\<close> under the invariant, and the fragments of several threads: each owns a
  range of reserved, empty slots.
\<close>

section \<open>Allocating a fragment\<close>

definition has_room :: "SublistPool \<Rightarrow> addr list \<Rightarrow> bool" where
  "has_room sp ps \<longleftrightarrow> ps \<noteq> [] \<and> \<not> puddle_isFull (the (sp_puddles sp (last ps)))"

definition bumped :: "addr \<Rightarrow> SublistFragment \<Rightarrow> SublistPool \<Rightarrow> bool \<times> SublistFragment \<times> SublistPool" where
  "bumped p fr sp =
     (let d = the (sp_puddles sp p); hi = listCurrent d + frag_len (fragmentSize fr) d
      in (True, fr \<lparr> fragmentCurrent := listCurrent d, fragmentTop := hi \<rparr>,
          sp \<lparr> sp_puddles := (sp_puddles sp)(p \<mapsto> d \<lparr> listCurrent := hi \<rparr>) \<rparr>))"

lemma alloc_current_eq:
  assumes "sp_inv sp ps qs rs"
  shows "alloc_current fr sp = Some (if has_room sp ps then bumped (last ps) fr sp else (False, fr, sp))"
proof (cases "ps = []")
  case True
  then show ?thesis using sp_inv_empty assms by (auto simp: alloc_current_def has_room_def)
next
  case False
  then obtain d where d: "sp_puddles sp (last ps) = Some d" "puddle_ok (last ps) d" using sp_inv_alloc [OF assms] by blast
  show ?thesis using sp_inv_alloc(1,2) [OF assms False] False d puddle_allocate_eq [OF d, of fr]
    by (simp add: alloc_current_def has_room_def bumped_def puddle_isFull_def Let_def)
qed

lemma alloc_next_NULL:
  assumes "sp_inv sp ps qs rs"
  shows "(if allocPuddle sp \<noteq> NULL then map_option pd_next (sp_puddles sp (allocPuddle sp)) else Some NULL) = Some NULL"
  using sp_inv_alloc [OF assms] sp_inv_empty [of sp qs rs] assms by (cases "ps = []") auto

definition with_new :: "addr \<Rightarrow> SublistPool \<Rightarrow> SublistPool" where
  "with_new blk sp = sp \<lparr> sp_puddles := (sp_puddles sp)(blk \<mapsto> new_puddle blk (puddle_growth sp)),
     sp_mem := zero_range (blk + 48) (puddle_growth sp) (sp_mem sp) \<rparr>"

lemma with_new_simps [simp]:
  "sp_puddles (with_new blk sp) = (sp_puddles sp)(blk \<mapsto> new_puddle blk (puddle_growth sp))"
  "sp_mem (with_new blk sp) = zero_range (blk + 48) (puddle_growth sp) (sp_mem sp)"
  "sp_list (with_new blk sp) = sp_list sp" "allocPuddle (with_new blk sp) = allocPuddle sp" "currentSize (with_new blk sp) = currentSize sp"
  by (simp_all add: with_new_def)

lemma createNewPuddle_eq:
  assumes "sp_inv sp ps qs rs" "fresh_block (growSize sp) (sp_puddles sp) blk"
  shows "createNewPuddle blk sp = (if blk = NULL \<or> puddle_growth sp = 0 then (NULL, sp) else (blk, with_new blk sp))"
proof -
  have "puddle_growth sp \<le> growSize sp" using puddle_growth_bound(1) assms(1) by (auto simp: sp_inv_def)
  then have "uadd blk 48 = blk + 48 \<and> uadd (blk + 48) (puddle_growth sp) = blk + 48 + puddle_growth sp" if "blk \<noteq> NULL"
    using assms(2) that by (auto simp: fresh_block_def intro!: uadd_exact)
  then show ?thesis
    by (simp add: createNewPuddle_def puddle_newInstance_def puddle_initialize_def Let_def with_new_def new_puddle_def)
qed

lemma new_puddle_total:
  assumes "sp_inv sp ps qs rs" "fresh_block (growSize sp) (sp_puddles sp) blk" "blk \<noteq> NULL" "puddle_growth sp \<noteq> 0"
  shows "puddle_ok blk (new_puddle blk (puddle_growth sp))" "totalSize (new_puddle blk (puddle_growth sp)) = puddle_growth sp"
proof -
  show p: "puddle_ok blk (new_puddle blk (puddle_growth sp))"
    using sp_inv_appended(1,2) [OF assms] puddles_okD(1) [OF sp_inv_puddles] by blast
  show "totalSize (new_puddle blk (puddle_growth sp)) = puddle_growth sp" using puddle_sizes(3) [OF p] by simp
qed

lemma alloc_empty_eq:
  assumes inv: "sp_inv sp ps qs rs" and f: "fresh_block (growSize sp) (sp_puddles sp) blk"
  shows "alloc_empty blk sp = Some (if blk = NULL \<or> puddle_growth sp = 0 then (NULL, sp)
    else (blk, (with_new blk sp) \<lparr> currentSize := uadd (currentSize sp) (puddle_growth sp) \<rparr>))"
proof (cases "blk = NULL \<or> puddle_growth sp = 0")
  case True
  then show ?thesis unfolding alloc_empty_def alloc_next_NULL [OF inv] createNewPuddle_eq [OF inv f] by auto
next
  case False
  then show ?thesis unfolding alloc_empty_def alloc_next_NULL [OF inv] createNewPuddle_eq [OF inv f]
    using new_puddle_total(2) [OF inv f] by (simp add: puddle_isEmpty_def)
qed

lemma sp_allocate_new:
  assumes inv: "sp_inv sp ps qs rs" and f: "fresh_block (growSize sp) (sp_puddles sp) blk" "blk \<noteq> NULL" "puddle_growth sp \<noteq> 0"
    and r: "\<not> has_room sp ps"
  shows "sp_allocate blk fr sp = Some (bumped blk fr (appended blk sp ps))"
proof -
  let ?n = "new_puddle blk (puddle_growth sp)"
  let ?sp = "(with_new blk sp) \<lparr> currentSize := uadd (currentSize sp) (puddle_growth sp) \<rparr>"
  define hi where "hi = blk + 48 + frag_len (fragmentSize fr) ?n"
  let ?sp2 = "?sp \<lparr> sp_puddles := (sp_puddles ?sp)(blk \<mapsto> ?n \<lparr> listCurrent := hi \<rparr>) \<rparr>"
  have a: "puddle_allocate blk fr ?sp = Some (True, fr \<lparr> fragmentCurrent := blk + 48, fragmentTop := hi \<rparr>, ?sp2)"
    using puddle_allocate_eq [of ?sp blk ?n fr] new_puddle_total(1) [OF inv f] f(3) by (simp add: hi_def)
  have b: "bumped blk fr (appended blk sp ps) = (True, fr \<lparr> fragmentCurrent := blk + 48, fragmentTop := hi \<rparr>,
      (appended blk sp ps) \<lparr> sp_puddles := (sp_puddles (appended blk sp ps))(blk \<mapsto> ?n \<lparr> listCurrent := hi \<rparr>) \<rparr>)"
    unfolding bumped_def sp_inv_appended(2) [OF inv f] by (simp add: hi_def Let_def)
  have nb: "blk \<notin> dom (sp_puddles sp)" by (rule sp_inv_appended(5) [OF inv f])
  have e: "alloc_expose blk ?sp2 =
      Some ((appended blk sp ps) \<lparr> sp_puddles := (sp_puddles (appended blk sp ps))(blk \<mapsto> ?n \<lparr> listCurrent := hi \<rparr>) \<rparr>)"
  proof (cases "ps = []")
    case True
    then show ?thesis using sp_inv_empty inv by (auto simp: alloc_expose_def appended_def with_new_def Let_def)
  next
    case False
    obtain d where d: "sp_puddles sp (last ps) = Some d" "pd_next d = NULL" using sp_inv_alloc(4) [OF inv False] by blast
    have l: "last ps \<noteq> blk" using d(1) nb by auto
    show ?thesis using sp_inv_alloc(1-3) [OF inv False] False d l
      by (auto simp: alloc_expose_def appended_def with_new_def Let_def puddle_setNext_def upd_puddle_def fun_upd_twist)
  qed
  show ?thesis unfolding sp_allocate_def alloc_current_eq [OF inv] using r f(2,3)
    by (simp add: alloc_current_eq [OF inv] alloc_empty_eq [OF inv f(1)] a b e [simplified])
qed

lemma sp_allocate_eq:
  assumes inv: "sp_inv sp ps qs rs" and f: "fresh_block (growSize sp) (sp_puddles sp) blk"
  shows "sp_allocate blk fr sp = Some (if has_room sp ps then bumped (last ps) fr sp
    else if blk = NULL \<or> puddle_growth sp = 0 then (False, fr, sp) else bumped blk fr (appended blk sp ps))"
proof -
  have r: "has_room sp ps \<Longrightarrow> ?thesis" by (simp add: sp_allocate_def alloc_current_eq [OF inv] bumped_def Let_def)
  have n: "\<not> has_room sp ps \<Longrightarrow> blk = NULL \<or> puddle_growth sp = 0 \<Longrightarrow> ?thesis"
    by (auto simp: sp_allocate_def alloc_current_eq [OF inv] alloc_empty_eq [OF inv f])
  have "\<not> has_room sp ps \<Longrightarrow> blk \<noteq> NULL \<Longrightarrow> puddle_growth sp \<noteq> 0 \<Longrightarrow> ?thesis" using sp_allocate_new [OF inv f] by simp
  then show ?thesis using r n by (cases "has_room sp ps"; cases "blk = NULL \<or> puddle_growth sp = 0") simp_all
qed

text \<open>Reserving slots in the last puddle of the list.\<close>

lemma bumped_spec:
  assumes inv: "sp_inv sp ps qs rs" and p: "p \<in> set ps" "sp_puddles sp p = Some d" "listCurrent d \<noteq> listTop d"
    and fr: "0 < fragmentSize fr" "8 dvd fragmentSize fr" and b: "bumped p fr sp = (ok, fr', sp')"
  shows "ok" "sp_inv sp' ps qs rs" "elems (sp_puddles sp') (sp_mem sp') (ps @ qs @ rs) = elems (sp_puddles sp) (sp_mem sp) (ps @ qs @ rs)"
    "extends (sp_puddles sp) (sp_mem sp) (sp_puddles sp') (sp_mem sp')"
    "new_range (sp_puddles sp) (sp_puddles sp') (sp_mem sp') (fragmentCurrent fr') (fragmentTop fr')"
    "fragmentSize fr' = fragmentSize fr" "fg_count fr' = fg_count fr" "sp_count sp' = sp_count sp"
proof -
  note ok = sp_inv_puddles [OF inv]
  note k = frag_len_facts [OF puddles_okD(1) [OF ok p(2)] p(3) fr]
  note bu = bump [OF ok p(2) k]
  have s: "sp' = sp \<lparr> sp_puddles := (sp_puddles sp)(p \<mapsto> d \<lparr> listCurrent := listCurrent d + frag_len (fragmentSize fr) d \<rparr>) \<rparr>"
    "fr' = fr \<lparr> fragmentCurrent := listCurrent d, fragmentTop := listCurrent d + frag_len (fragmentSize fr) d \<rparr>" "ok"
    using b p(2) by (auto simp: bumped_def Let_def)
  show "ok" by (rule s(3))
  have dm: "set (ps @ qs @ rs) \<subseteq> dom (sp_puddles sp)" using inv by (simp add: sp_inv_defs)
  have c: "chains_ok sp' ps qs rs" using inv p(2) unfolding sp_inv_def chains_ok_def s(1) by (auto simp: bu(6))
  have l: "limits_ok sp' (ps @ qs @ rs)" using inv unfolding sp_inv_def limits_ok_def s(1) by (simp add: bu(5) del: pd_total_simps)
  show "sp_inv sp' ps qs rs" using c l bu(1) by (simp add: sp_inv_def s(1))
  show "elems (sp_puddles sp') (sp_mem sp') (ps @ qs @ rs) = elems (sp_puddles sp) (sp_mem sp) (ps @ qs @ rs)"
    using bu(4) [OF dm] by (simp add: s(1))
  show "extends (sp_puddles sp) (sp_mem sp) (sp_puddles sp') (sp_mem sp')"
    "new_range (sp_puddles sp) (sp_puddles sp') (sp_mem sp') (fragmentCurrent fr') (fragmentTop fr')"
    "fragmentSize fr' = fragmentSize fr" "fg_count fr' = fg_count fr" "sp_count sp' = sp_count sp"
    using bu(2,3) by (simp_all add: s(1,2))
qed

definition allocated :: "SublistPool \<Rightarrow> addr list \<Rightarrow> addr list \<Rightarrow> addr list \<Rightarrow> SublistFragment \<Rightarrow> SublistFragment \<Rightarrow> SublistPool \<Rightarrow> addr list \<Rightarrow> bool" where
  "allocated sp ps qs rs fr fr' sp' ps' \<longleftrightarrow> sp_inv sp' ps' qs rs \<and>
     elems (sp_puddles sp') (sp_mem sp') (ps' @ qs @ rs) = elems (sp_puddles sp) (sp_mem sp) (ps @ qs @ rs) \<and>
     extends (sp_puddles sp) (sp_mem sp) (sp_puddles sp') (sp_mem sp') \<and>
     new_range (sp_puddles sp) (sp_puddles sp') (sp_mem sp') (fragmentCurrent fr') (fragmentTop fr') \<and>
     fragmentSize fr' = fragmentSize fr \<and> fg_count fr' = fg_count fr \<and> sp_count sp' = sp_count sp"

lemma new_range_extends:
  assumes "extends h m h' m'" "new_range h' h'' m'' lo hi"
  shows "new_range h h'' m'' lo hi"
proof -
  have "\<not> (lo \<le> a \<and> a < hi)" if hp: "h p = Some d" and a: "listBase d \<le> a" "a < listCurrent d" for p d a
  proof -
    obtain d' where "h' p = Some d'" "same_place d d'" "listCurrent d \<le> listCurrent d'" using assms(1) hp unfolding extends_def by blast
    then show ?thesis using assms(2) a unfolding new_range_def same_place_def by fastforce
  qed
  then show ?thesis using assms(2) unfolding new_range_def by blast
qed

lemma sp_allocate_spec:
  assumes inv: "sp_inv sp ps qs rs" and f: "fresh_block (growSize sp) (sp_puddles sp) blk"
    and fr: "0 < fragmentSize fr" "8 dvd fragmentSize fr"
  shows "(\<exists>fr' sp' ps'. sp_allocate blk fr sp = Some (True, fr', sp') \<and> allocated sp ps qs rs fr fr' sp' ps') \<or>
    sp_allocate blk fr sp = Some (False, fr, sp) \<and> \<not> has_room sp ps \<and> (blk = NULL \<or> puddle_growth sp = 0)"
proof -
  consider "has_room sp ps" | "\<not> has_room sp ps" "blk = NULL \<or> puddle_growth sp = 0" | "\<not> has_room sp ps" "blk \<noteq> NULL" "puddle_growth sp \<noteq> 0" by blast
  then show ?thesis
  proof cases
    case 1
    then have ne: "ps \<noteq> []" by (simp add: has_room_def)
    obtain d where d: "sp_puddles sp (last ps) = Some d" using sp_inv_alloc(4) [OF inv ne] by blast
    obtain ok fr' sp' where b: "bumped (last ps) fr sp = (ok, fr', sp')" by (cases "bumped (last ps) fr sp")
    have "listCurrent d \<noteq> listTop d" using 1 d by (simp add: has_room_def puddle_isFull_def)
    note bs = bumped_spec [OF inv last_in_set [OF ne] d this fr b]
    have "allocated sp ps qs rs fr fr' sp' ps" unfolding allocated_def using bs by blast
    then show ?thesis unfolding sp_allocate_eq [OF inv f] using 1 bs(1) b by auto
  next
    case 2
    then show ?thesis unfolding sp_allocate_eq [OF inv f] by simp
  next
    case 3
    note ap = sp_inv_appended [OF inv f 3(2,3)]
    obtain ok fr' sp' where b: "bumped blk fr (appended blk sp ps) = (ok, fr', sp')" by (cases "bumped blk fr (appended blk sp ps)")
    have "blk \<in> set (ps @ [blk])" "listCurrent (new_puddle blk (puddle_growth sp)) \<noteq> listTop (new_puddle blk (puddle_growth sp))" using 3(3) by simp_all
    note bs = bumped_spec [OF ap(1) this(1) ap(2) this(2) fr b]
    have "sp_count (appended blk sp ps) = sp_count sp" by (simp add: appended_def Let_def)
    then have "allocated sp ps qs rs fr fr' sp' (ps @ [blk])" unfolding allocated_def
      using bs ap(3) extends_trans [OF ap(4) bs(4)] new_range_extends [OF ap(4) bs(5)] by simp
    then show ?thesis unfolding sp_allocate_eq [OF inv f] using 3 bs(1) b by auto
  qed
qed

section \<open>Fragments\<close>

definition frag_empty :: "SublistFragment \<Rightarrow> bool" where
  "frag_empty fr \<longleftrightarrow> fragmentTop fr \<le> fragmentCurrent fr"

definition owns :: "SublistFragment \<Rightarrow> addr \<Rightarrow> bool" where
  "owns fr a \<longleftrightarrow> fragmentCurrent fr \<le> a \<and> a < fragmentTop fr"

text \<open>The slots of a fragment are reserved in a puddle and still empty.\<close>

definition frag_ok :: "(addr \<rightharpoonup> SublistPuddle) \<Rightarrow> mem \<Rightarrow> SublistFragment \<Rightarrow> bool" where
  "frag_ok h m fr \<longleftrightarrow> 0 < fragmentSize fr \<and> 8 dvd fragmentSize fr \<and>
     (frag_empty fr \<or> 8 dvd fragmentCurrent fr \<and> 8 dvd fragmentTop fr \<and> (\<forall>a. 8 dvd a \<and> owns fr a \<longrightarrow> m a = 0) \<and>
        (\<exists>p d. h p = Some d \<and> listBase d \<le> fragmentCurrent fr \<and> fragmentTop fr \<le> listCurrent d))"

definition frags_ok :: "(addr \<rightharpoonup> SublistPuddle) \<Rightarrow> mem \<Rightarrow> SublistFragment list \<Rightarrow> bool" where
  "frags_ok h m frs \<longleftrightarrow> (\<forall>fr \<in> set frs. frag_ok h m fr) \<and>
     (\<forall>i j a. i < length frs \<and> j < length frs \<and> i \<noteq> j \<longrightarrow> \<not> (owns (frs ! i) a \<and> owns (frs ! j) a))"

lemma frag_ok_extends:
  assumes "extends h m h' m'" "frag_ok h m fr"
  shows "frag_ok h' m' fr"
proof (cases "frag_empty fr")
  case True
  then show ?thesis using assms(2) by (simp add: frag_ok_def)
next
  case False
  then obtain p d where pd: "h p = Some d" "listBase d \<le> fragmentCurrent fr" "fragmentTop fr \<le> listCurrent d"
    using assms(2) unfolding frag_ok_def by blast
  obtain d' where "h' p = Some d'" "same_place d d'" "listCurrent d \<le> listCurrent d'" "\<forall>a. listBase d \<le> a \<and> a < listCurrent d \<longrightarrow> m' a = m a"
    using assms(1) pd(1) unfolding extends_def by blast
  then show ?thesis using False assms(2) pd unfolding frag_ok_def owns_def same_place_def by fastforce
qed

lemma frags_ok_upd:
  assumes "frags_ok h m frs" "i < length frs" "frag_ok h' m' fr" "\<And>f. f \<in> set frs \<Longrightarrow> frag_ok h m f \<Longrightarrow> frag_ok h' m' f"
    "\<And>j a. j < length frs \<Longrightarrow> j \<noteq> i \<Longrightarrow> owns (frs ! j) a \<Longrightarrow> \<not> owns fr a"
  shows "frags_ok h' m' (frs[i := fr])"
proof -
  have "\<forall>f \<in> set (frs[i := fr]). frag_ok h' m' f" using assms(1,3,4) set_update_subset_insert [of frs i fr] by (auto simp: frags_ok_def)
  moreover have "\<not> (owns (frs[i := fr] ! k) a \<and> owns (frs[i := fr] ! j) a)" if "k < length frs" "j < length frs" "k \<noteq> j" for k j a
    using that assms(1,2,5) by (auto simp: frags_ok_def nth_list_update)
  ultimately show ?thesis by (auto simp: frags_ok_def)
qed

lemma frag_ok_new:
  assumes "new_range h h' m' (fragmentCurrent fr) (fragmentTop fr)" "0 < fragmentSize fr" "8 dvd fragmentSize fr"
  shows "frag_ok h' m' fr"
  using assms unfolding new_range_def frag_ok_def frag_empty_def owns_def by blast

lemma new_not_owned:
  assumes "frag_ok h m f" "owns f a" "new_range h h' m' lo hi"
  shows "\<not> (lo \<le> a \<and> a < hi)"
proof -
  have "\<not> frag_empty f" using assms(2) by (auto simp: owns_def frag_empty_def)
  then obtain p d where "h p = Some d" "listBase d \<le> fragmentCurrent f" "fragmentTop f \<le> listCurrent d"
    using assms(1) unfolding frag_ok_def by blast
  then show ?thesis using assms(2,3) unfolding owns_def new_range_def by (meson le_trans less_le_trans)
qed

end
