(* ===== verification/Sublist_Add.thy ===== *)
theory Sublist_Add
  imports Sublist_Fragment
begin

text \<open>Adding elements through fragments, and flushing fragments.\<close>

section \<open>Writing a reserved slot\<close>

lemma puddles_ok_write:
  assumes ok: "puddles_ok h m" and p: "h p = Some d" "listBase d \<le> a" "a < listCurrent d"
  shows "puddles_ok h (m(a := e))"
proof -
  note f = puddle_ok_facts [OF puddles_okD(1) [OF ok p(1)]]
  have z: "(m(a := e)) b = 0" if "8 dvd b" "listCurrent d \<le> b" "b < listTop d" for b using puddles_okD(2) [OF ok p(1) that] that(2) p(3) by simp
  have z': "(m(a := e)) b = 0" if "\<not> (listBase d \<le> b \<and> b < listTop d)" "m b = 0" for b
    using that p(2,3) f(4) by (cases "b = a") simp_all
  have "puddles_ok (h(p \<mapsto> d)) (m(a := e))" by (rule puddles_ok_upd [OF ok p(1) same_place_refl f(3,4,7) z z'])
  then show ?thesis by (simp add: fun_upd_idem p(1))
qed

lemma elems_write:
  assumes ok: "puddles_ok h m" and p: "h p = Some d" "listBase d \<le> a" "a < listCurrent d" "8 dvd a" "m a = 0" "e \<noteq> 0"
    and xs: "p \<in> set xs" "distinct xs" "set xs \<subseteq> dom h"
  shows "elems h (m(a := e)) xs = add_mset e (elems h m xs)"
proof -
  obtain ys zs where s: "xs = ys @ p # zs" using split_list [OF xs(1)] by blast
  note f = puddle_ok_facts [OF puddles_okD(1) [OF ok p(1)]]
  have fr: "elems h (m(a := e)) us = elems h m us" if "p \<notin> set us" "set us \<subseteq> dom h" for us
  proof -
    have "(m(a := e)) b = m b" if "\<not> (listBase d \<le> b \<and> b < listTop d)" for b using that p(2,3) f(4) by auto
    from elems_frame [OF ok p(1) that, of "m(a := e)" "Some d", OF this] show ?thesis by (simp add: fun_upd_idem p(1))
  qed
  have "pd_elems (m(a := e)) d = add_mset e (pd_elems m d)" by (rule pd_elems_write) (use puddles_okD(1) [OF ok p(1)] p in auto)
  then show ?thesis using fr [of ys] fr [of zs] xs p(1) by (simp add: s)
qed

lemma sp_inv_write:
  assumes inv: "sp_inv sp ps qs rs" and p: "sp_puddles sp p = Some d" "listBase d \<le> a" "a < listCurrent d" "8 dvd a" "sp_mem sp a = 0" "e \<noteq> 0"
  defines "sp' \<equiv> sp \<lparr> sp_mem := (sp_mem sp)(a := e) \<rparr>"
  shows "sp_inv sp' ps qs rs" "elems (sp_puddles sp') (sp_mem sp') (ps @ qs @ rs) = add_mset e (elems (sp_puddles sp) (sp_mem sp) (ps @ qs @ rs))"
proof -
  note ok = sp_inv_puddles [OF inv]
  have d: "distinct (ps @ qs @ rs)" "dom (sp_puddles sp) = set (ps @ qs @ rs)" using inv by (simp_all add: sp_inv_defs)
  show "sp_inv sp' ps qs rs" using inv puddles_ok_write [OF ok p(1-3)] by (simp add: sp_inv_defs sp'_def)
  have "p \<in> set (ps @ qs @ rs)" "set (ps @ qs @ rs) \<subseteq> dom (sp_puddles sp)" using d(2) p(1) by auto
  from elems_write [OF ok p this(1) d(1) this(2)]
  show "elems (sp_puddles sp') (sp_mem sp') (ps @ qs @ rs) = add_mset e (elems (sp_puddles sp) (sp_mem sp) (ps @ qs @ rs))"
    by (simp add: sp'_def)
qed

section \<open>Adding an element\<close>

definition take_slot :: "SublistFragment \<Rightarrow> SublistFragment" where
  "take_slot fr = fr \<lparr> fg_count := uadd (fg_count fr) 1, fragmentCurrent := uadd (fragmentCurrent fr) 8 \<rparr>"

text \<open>A thread fills the next slot of its fragment.\<close>

lemma fill_slot:
  assumes inv: "sp_inv sp ps qs rs" and fs: "frags_ok (sp_puddles sp) (sp_mem sp) frs" and i: "i < length frs" "\<not> frag_empty (frs ! i)"
    and e: "e \<noteq> 0"
  defines "a \<equiv> fragmentCurrent (frs ! i)"
  defines "sp' \<equiv> sp \<lparr> sp_mem := (sp_mem sp)(a := e) \<rparr>"
  shows "sp_inv sp' ps qs rs" "elems (sp_puddles sp') (sp_mem sp') (ps @ qs @ rs) = add_mset e (elems (sp_puddles sp) (sp_mem sp) (ps @ qs @ rs))"
    "frags_ok (sp_puddles sp') (sp_mem sp') (frs[i := take_slot (frs ! i)])" "a \<noteq> NULL"
proof -
  let ?fr = "frs ! i"
  have fo: "frag_ok (sp_puddles sp) (sp_mem sp) ?fr" using fs i(1) by (simp add: frags_ok_def)
  then obtain p d where pd: "sp_puddles sp p = Some d" "listBase d \<le> a" "fragmentTop ?fr \<le> listCurrent d" and
    al: "8 dvd a" "8 dvd fragmentTop ?fr" and z: "\<And>b. 8 dvd b \<Longrightarrow> owns ?fr b \<Longrightarrow> sp_mem sp b = 0"
    using i(2) unfolding frag_ok_def a_def by blast
  have lt: "a < fragmentTop ?fr" using i(2) by (simp add: frag_empty_def a_def)
  have za: "sp_mem sp a = 0" using z [of a] lt al(1) by (simp add: owns_def a_def)
  have ac: "a < listCurrent d" using lt pd(3) by simp
  show "sp_inv sp' ps qs rs" "elems (sp_puddles sp') (sp_mem sp') (ps @ qs @ rs) = add_mset e (elems (sp_puddles sp) (sp_mem sp) (ps @ qs @ rs))"
    unfolding sp'_def using sp_inv_write [OF inv pd(1,2) ac al(1) za e] by simp_all
  note pf = puddle_ok_facts [OF puddles_okD(1) [OF sp_inv_puddles [OF inv] pd(1)]]
  show "a \<noteq> NULL" using pd(2) pf(2) by simp
  have a8: "a + 8 \<le> fragmentTop ?fr" using aligned_gap [of a "fragmentTop ?fr"] al lt by (simp add: dvd_eq_mod_eq_0)
  then have u: "uadd a 8 = a + 8" using pf(4,9) pd(3) by (intro uadd_exact) simp
  then have ts: "fragmentCurrent (take_slot ?fr) = a + 8" "fragmentTop (take_slot ?fr) = fragmentTop ?fr" "fragmentSize (take_slot ?fr) = fragmentSize ?fr"
    by (simp_all add: take_slot_def a_def)
  have dis: "\<not> (owns (frs ! j) b \<and> owns ?fr b)" if "j < length frs" "j \<noteq> i" for j b using fs i(1) that by (auto simp: frags_ok_def)
  have oa: "owns ?fr a" using lt by (simp add: owns_def a_def)
  have sub: "owns ?fr b" if "owns (take_slot ?fr) b" for b using that ts by (auto simp: owns_def a_def)
  have new: "frag_ok (sp_puddles sp') (sp_mem sp') (take_slot ?fr)"
  proof -
    have "\<forall>b. 8 dvd b \<and> owns (take_slot ?fr) b \<longrightarrow> sp_mem sp' b = 0" using sub z ts by (auto simp: sp'_def owns_def)
    moreover have "listBase d \<le> a + 8" using pd(2) by simp
    ultimately show ?thesis using fo pd(1,3) al ts unfolding frag_ok_def by (auto simp: sp'_def)
  qed
  have others: "frag_ok (sp_puddles sp') (sp_mem sp') (frs ! j)" if "j < length frs" "j \<noteq> i" for j
  proof -
    have "frag_ok (sp_puddles sp) (sp_mem sp) (frs ! j)" using fs that(1) by (simp add: frags_ok_def)
    moreover have "\<not> owns (frs ! j) a" using dis [OF that] oa by blast
    ultimately show ?thesis unfolding frag_ok_def sp'_def by auto
  qed
  have "\<forall>f \<in> set (frs[i := take_slot ?fr]). frag_ok (sp_puddles sp') (sp_mem sp') f"
    using new others unfolding all_set_conv_all_nth by (auto simp: nth_list_update i(1))
  moreover have "\<not> (owns (frs[i := take_slot ?fr] ! j) b \<and> owns (frs[i := take_slot ?fr] ! k) b)"
    if "j < length frs" "k < length frs" "j \<noteq> k" for j k b
  proof -
    have "owns (frs ! l) b" if "owns (frs[i := take_slot ?fr] ! l) b" for l using that sub i(1) by (cases "l = i") auto
    then show ?thesis using fs that unfolding frags_ok_def by blast
  qed
  ultimately show "frags_ok (sp_puddles sp') (sp_mem sp') (frs[i := take_slot ?fr])" by (auto simp: frags_ok_def)
qed

lemma fragment_add_spec:
  assumes inv: "sp_inv sp ps qs rs" and fs: "frags_ok (sp_puddles sp) (sp_mem sp) frs" and i: "i < length frs"
    and f: "fresh_block (growSize sp) (sp_puddles sp) blk" and e: "e \<noteq> 0"
  shows "\<exists>ok fr' sp' ps'. fragment_add blk e (frs ! i) sp = Some (ok, fr', sp') \<and> sp_inv sp' ps' qs rs \<and>
    frags_ok (sp_puddles sp') (sp_mem sp') (frs[i := fr']) \<and>
    elems (sp_puddles sp') (sp_mem sp') (ps' @ qs @ rs) =
      elems (sp_puddles sp) (sp_mem sp) (ps @ qs @ rs) + (if ok then {#e#} else {#}) \<and>
    sp_count sp' = sp_count sp \<and> fg_count fr' = (if ok then uadd (fg_count (frs ! i)) 1 else fg_count (frs ! i)) \<and>
    (\<not> ok \<longrightarrow> fr' = frs ! i \<and> sp' = sp \<and> ps' = ps \<and> frag_empty (frs ! i) \<and> \<not> has_room sp ps \<and> (blk = NULL \<or> puddle_growth sp = 0))"
proof -
  let ?fr = "frs ! i"
  have fo: "frag_ok (sp_puddles sp) (sp_mem sp) ?fr" using fs i by (simp add: frags_ok_def)
  then have sz: "0 < fragmentSize ?fr" "8 dvd fragmentSize ?fr" by (simp_all add: frag_ok_def)
  consider "\<not> frag_empty ?fr" | "frag_empty ?fr" "sp_allocate blk ?fr sp = Some (False, ?fr, sp)" "\<not> has_room sp ps" "blk = NULL \<or> puddle_growth sp = 0"
    | fr' sp' ps' where "frag_empty ?fr" "sp_allocate blk ?fr sp = Some (True, fr', sp')" "allocated sp ps qs rs ?fr fr' sp' ps'"
    using sp_allocate_spec [OF inv f sz] by (metis (no_types))
  then show ?thesis
  proof cases
    case 1
    note s = fill_slot [OF inv fs i 1 e]
    have "fragment_add blk e ?fr sp = Some (True, take_slot ?fr, sp \<lparr> sp_mem := (sp_mem sp)(fragmentCurrent ?fr := e) \<rparr>)"
      using 1 s(4) by (simp add: fragment_add_def fragment_allocate_def take_slot_def Let_def frag_empty_def)
    then show ?thesis using s(1-3)
      by (intro exI [of _ True] exI [of _ "take_slot ?fr"] exI [of _ "sp \<lparr> sp_mem := (sp_mem sp)(fragmentCurrent ?fr := e) \<rparr>"] exI [of _ ps])
        (simp add: take_slot_def)
  next
    case 2
    have "fragment_add blk e ?fr sp = Some (False, ?fr, sp)"
      using 2 by (simp add: fragment_add_def fragment_allocate_def Let_def frag_empty_def)
    then show ?thesis using 2 inv fs by (intro exI [of _ False] exI [of _ ?fr] exI [of _ sp] exI [of _ ps]) simp
  next
    case 3
    have al: "sp_inv sp' ps' qs rs" "elems (sp_puddles sp') (sp_mem sp') (ps' @ qs @ rs) = elems (sp_puddles sp) (sp_mem sp) (ps @ qs @ rs)"
      "extends (sp_puddles sp) (sp_mem sp) (sp_puddles sp') (sp_mem sp')"
      "new_range (sp_puddles sp) (sp_puddles sp') (sp_mem sp') (fragmentCurrent fr') (fragmentTop fr')"
      "fragmentSize fr' = fragmentSize ?fr" "fg_count fr' = fg_count ?fr" "sp_count sp' = sp_count sp"
      using 3(3) by (auto simp: allocated_def)
    have n: "frag_ok (sp_puddles sp') (sp_mem sp') fr'" using frag_ok_new [OF al(4)] sz al(5) by simp
    have ne: "\<not> frag_empty fr'" using al(4) by (simp add: new_range_def frag_empty_def)
    have fs': "frags_ok (sp_puddles sp') (sp_mem sp') (frs[i := fr'])"
    proof (rule frags_ok_upd [OF fs i n])
      show "frag_ok (sp_puddles sp') (sp_mem sp') g" if "frag_ok (sp_puddles sp) (sp_mem sp) g" for g by (rule frag_ok_extends [OF al(3) that])
      show "\<not> owns fr' a" if "j < length frs" "j \<noteq> i" "owns (frs ! j) a" for j a
      proof -
        have "frag_ok (sp_puddles sp) (sp_mem sp) (frs ! j)" using fs that(1) by (simp add: frags_ok_def)
        from new_not_owned [OF this that(3) al(4)] show ?thesis by (simp add: owns_def)
      qed
    qed
    have i': "i < length (frs[i := fr'])" "\<not> frag_empty (frs[i := fr'] ! i)" using i ne by simp_all
    note s = fill_slot [OF al(1) fs' i' e]
    have "fragment_add blk e ?fr sp = Some (True, take_slot fr', sp' \<lparr> sp_mem := (sp_mem sp')(fragmentCurrent fr' := e) \<rparr>)"
      using 3(1,2) s(4) i by (simp add: fragment_add_def fragment_allocate_def take_slot_def Let_def frag_empty_def)
    then show ?thesis using s(1-3) i al(2,6,7)
      by (intro exI [of _ True] exI [of _ "take_slot fr'"] exI [of _ "sp' \<lparr> sp_mem := (sp_mem sp')(fragmentCurrent fr' := e) \<rparr>"] exI [of _ ps'])
        (simp add: take_slot_def)
  qed
qed

section \<open>Flushing\<close>

lemma sp_inv_count: "sp_inv (sp \<lparr> sp_count := c \<rparr>) ps qs rs \<longleftrightarrow> sp_inv sp ps qs rs"
  by (simp add: sp_inv_defs)

lemma fragment_flush_spec:
  assumes "sp_inv sp ps qs rs" "frags_ok (sp_puddles sp) (sp_mem sp) frs" "i < length frs" "fragment_flush (frs ! i) sp = (fr', sp')"
  shows "sp_inv sp' ps qs rs" "frags_ok (sp_puddles sp') (sp_mem sp') (frs[i := fr'])" "frag_empty fr'" "fg_count fr' = 0"
    "sp_puddles sp' = sp_puddles sp" "sp_mem sp' = sp_mem sp" "growSize sp' = growSize sp"
    "sp_count sp' = (if fg_count (frs ! i) = 0 then sp_count sp else uadd (sp_count sp) (fg_count (frs ! i)))"
proof -
  have s: "fr' = (frs ! i) \<lparr> fg_count := 0, fragmentCurrent := NULL, fragmentTop := NULL \<rparr>" "sp' = incrementCount (fg_count (frs ! i)) sp"
    using assms(4) by (simp_all add: fragment_flush_def)
  show fe: "frag_empty fr'" "fg_count fr' = 0" by (simp_all add: s frag_empty_def)
  show "sp_inv sp' ps qs rs" "sp_puddles sp' = sp_puddles sp" "sp_mem sp' = sp_mem sp" "growSize sp' = growSize sp"
    "sp_count sp' = (if fg_count (frs ! i) = 0 then sp_count sp else uadd (sp_count sp) (fg_count (frs ! i)))"
    using assms(1) by (auto simp: s incrementCount_def sp_inv_count)
  have "frag_ok (sp_puddles sp) (sp_mem sp) fr'" using assms(2,3) fe unfolding frags_ok_def frag_ok_def by (auto simp: s)
  then show "frags_ok (sp_puddles sp') (sp_mem sp') (frs[i := fr'])"
    unfolding \<open>sp_puddles sp' = sp_puddles sp\<close> \<open>sp_mem sp' = sp_mem sp\<close>
    by (rule frags_ok_upd [OF assms(2,3)]) (auto simp: s owns_def)
qed

end
