(* ===== verification/Sublist_Compact.thy ===== *)
theory Sublist_Compact
  imports Sublist_Alloc
begin

text \<open>
  \<open>MM_SublistPool::compact\<close>: partly filled puddles are merged and the emptied ones are killed.
\<close>

section \<open>Merging two puddles\<close>

lemma filled_map: "filled m as = {#v \<in># mset (map m as). v \<noteq> 0#}"
  by (simp add: filled_def)

lemma filled_copy:
  assumes "\<And>j. j < k \<Longrightarrow> m' (a + j) = m (b + j)"
  shows "filled m' (slot_addrs a (a + k)) = filled m (slot_addrs b (b + k))"
proof -
  have "map m' (slot_addrs a (a + k)) = map m (slot_addrs b (b + k))"
    using assms by (auto simp: slot_addrs_def)
  then show ?thesis by (simp only: filled_map)
qed

definition merge_size :: "SublistPuddle \<Rightarrow> SublistPuddle \<Rightarrow> nat" where
  "merge_size d s = min (listTop d - listCurrent d) (listCurrent s - listBase s)"

definition merged_mem :: "SublistPuddle \<Rightarrow> SublistPuddle \<Rightarrow> mem \<Rightarrow> mem" where
  "merged_mem d s m =
     (let k = merge_size d s in zero_range (listCurrent s - k) k (copy_range (listCurrent d) (listCurrent s - k) k m))"

definition merged_dst :: "SublistPuddle \<Rightarrow> SublistPuddle \<Rightarrow> SublistPuddle" where
  "merged_dst d s = d \<lparr> listCurrent := listCurrent d + merge_size d s \<rparr>"

definition merged_src :: "SublistPuddle \<Rightarrow> SublistPuddle \<Rightarrow> SublistPuddle" where
  "merged_src d s = s \<lparr> listCurrent := listCurrent s - merge_size d s \<rparr>"

lemma merged_simps [simp]:
  "listBase (merged_dst d s) = listBase d" "listTop (merged_dst d s) = listTop d" "pd_size (merged_dst d s) = pd_size d"
  "pd_next (merged_dst d s) = pd_next d" "listCurrent (merged_dst d s) = listCurrent d + merge_size d s"
  "listBase (merged_src d s) = listBase s" "listTop (merged_src d s) = listTop s" "pd_size (merged_src d s) = pd_size s"
  "pd_next (merged_src d s) = pd_next s" "listCurrent (merged_src d s) = listCurrent s - merge_size d s"
  by (simp_all add: merged_dst_def merged_src_def)

lemma merge_size_facts:
  assumes "puddle_ok p d" "puddle_ok q s"
  shows "8 dvd merge_size d s" "listCurrent d + merge_size d s \<le> listTop d" "listBase s + merge_size d s \<le> listCurrent s"
  using puddle_ok_facts [OF assms(1)] puddle_ok_facts [OF assms(2)] by (auto simp: merge_size_def min_def intro: dvd_diff_nat)

lemma puddle_merge_eq:
  assumes "sp_puddles sp dst = Some d" "sp_puddles sp src = Some s" "puddle_ok dst d" "puddle_ok src s" "dst \<noteq> src"
  shows "puddle_merge dst src sp = Some (sp \<lparr> sp_mem := merged_mem d s (sp_mem sp),
    sp_puddles := (sp_puddles sp)(dst \<mapsto> merged_dst d s, src \<mapsto> merged_src d s) \<rparr>)"
proof -
  note d = puddle_ok_facts [OF assms(3)] and s = puddle_ok_facts [OF assms(4)] and k = merge_size_facts [OF assms(3,4)]
  have c: "(if puddle_freeSize d < consumedSize s then puddle_freeSize d else consumedSize s) = merge_size d s"
    using puddle_sizes [OF assms(3)] puddle_sizes [OF assms(4)] by (simp add: merge_size_def)
  have u: "usub (listCurrent s) (merge_size d s) = listCurrent s - merge_size d s" using k(3) s by (intro usub_exact) simp_all
  have a: "uadd (listCurrent d) (merge_size d s) = listCurrent d + merge_size d s" using k(2) d by (intro uadd_exact) simp_all
  show ?thesis unfolding puddle_merge_def assms(1,2) using assms(1,2,5)
    by (simp add: Let_def c u a upd_puddle_def merged_mem_def merged_dst_def merged_src_def)
qed

text \<open>The memory after the merge, slot by slot.\<close>

lemma merged_mem_cases:
  assumes ok: "puddles_ok h m" and d: "h dst = Some d" and s: "h src = Some s" and ne: "dst \<noteq> src"
  shows "\<And>a. listCurrent s - merge_size d s \<le> a \<Longrightarrow> a < listCurrent s \<Longrightarrow> merged_mem d s m a = 0"
    "\<And>j. j < merge_size d s \<Longrightarrow> merged_mem d s m (listCurrent d + j) = m (listCurrent s - merge_size d s + j)"
    "\<And>a. \<not> (listCurrent s - merge_size d s \<le> a \<and> a < listCurrent s) \<Longrightarrow> \<not> (listCurrent d \<le> a \<and> a < listCurrent d + merge_size d s) \<Longrightarrow>
      merged_mem d s m a = m a"
proof -
  note D = puddle_ok_facts [OF puddles_okD(1) [OF ok d]] and S = puddle_ok_facts [OF puddles_okD(1) [OF ok s]]
  note k = merge_size_facts [OF puddles_okD(1) [OF ok d] puddles_okD(1) [OF ok s]]
  have ap: "listTop d \<le> src \<or> listTop s \<le> dst" by (rule puddles_apart [OF ok d s ne])
  show "merged_mem d s m a = 0" if "listCurrent s - merge_size d s \<le> a" "a < listCurrent s" for a
    using that k(3) by (auto simp: merged_mem_def Let_def zero_range_def)
  show "merged_mem d s m (listCurrent d + j) = m (listCurrent s - merge_size d s + j)" if "j < merge_size d s" for j
    using that k D S ap by (auto simp: merged_mem_def Let_def zero_range_def copy_range_def)
  show "merged_mem d s m a = m a" if "\<not> (listCurrent s - merge_size d s \<le> a \<and> a < listCurrent s)" "\<not> (listCurrent d \<le> a \<and> a < listCurrent d + merge_size d s)" for a
    using that k(3) by (auto simp: merged_mem_def Let_def zero_range_def copy_range_def)
qed

lemma merge_puddles_ok:
  assumes ok: "puddles_ok h m" and d: "h dst = Some d" and s: "h src = Some s" and ne: "dst \<noteq> src"
  shows "puddles_ok (h(dst \<mapsto> merged_dst d s, src \<mapsto> merged_src d s)) (merged_mem d s m)"
proof -
  let ?m = "copy_range (listCurrent d) (listCurrent s - merge_size d s) (merge_size d s) m"
  note D = puddle_ok_facts [OF puddles_okD(1) [OF ok d]] and S = puddle_ok_facts [OF puddles_okD(1) [OF ok s]]
  note k = merge_size_facts [OF puddles_okD(1) [OF ok d] puddles_okD(1) [OF ok s]]
  have 1: "puddles_ok (h(dst \<mapsto> merged_dst d s)) ?m"
  proof (rule puddles_ok_upd [OF ok d])
    show "?m a = 0" if "8 dvd a" "listCurrent (merged_dst d s) \<le> a" "a < listTop d" for a
      using puddles_okD(2) [OF ok d that(1) _ that(3)] that(2) by (simp add: copy_range_def)
    show "?m a = 0" if "\<not> (listBase d \<le> a \<and> a < listTop d)" "m a = 0" for a using that D(3) k(2) by (auto simp: copy_range_def)
  qed (use D k in \<open>simp_all add: same_place_def\<close>)
  have s': "(h(dst \<mapsto> merged_dst d s)) src = Some s" using s ne by simp
  show ?thesis
  proof (rule puddles_ok_upd [OF 1 s'])
    show "merged_mem d s m a = 0" if "8 dvd a" "listCurrent (merged_src d s) \<le> a" "a < listTop s" for a
    proof (cases "a < listCurrent s")
      case True
      then show ?thesis using that(2) k(3) by (simp add: merged_mem_def Let_def zero_range_def)
    next
      case False
      then show ?thesis using puddles_okD(2) [OF 1 s' that(1) _ that(3)] by (simp add: merged_mem_def Let_def zero_range_def)
    qed
    show "merged_mem d s m a = 0" if "?m a = 0" for a using that by (simp add: merged_mem_def Let_def zero_range_def)
  qed (use S k in \<open>simp_all add: same_place_def\<close>)
qed

lemma merge_pd_elems:
  assumes ok: "puddles_ok h m" and d: "h dst = Some d" and s: "h src = Some s" and ne: "dst \<noteq> src"
  shows "pd_elems (merged_mem d s m) (merged_dst d s) + pd_elems (merged_mem d s m) (merged_src d s) = pd_elems m d + pd_elems m s"
proof -
  note D = puddle_ok_facts [OF puddles_okD(1) [OF ok d]] and S = puddle_ok_facts [OF puddles_okD(1) [OF ok s]]
  note k = merge_size_facts [OF puddles_okD(1) [OF ok d] puddles_okD(1) [OF ok s]]
  note mm = merged_mem_cases [OF ok d s ne]
  define f where "f = listCurrent s - merge_size d s"
  have f: "8 dvd f" "listBase s \<le> f" "f + merge_size d s = listCurrent s" using S k by (auto simp: f_def intro: dvd_diff_nat)
  have ap: "listTop d \<le> src \<or> listTop s \<le> dst" by (rule puddles_apart [OF ok d s ne])
  have sd: "slot_addrs (listBase d) (listCurrent d + merge_size d s) =
      slot_addrs (listBase d) (listCurrent d) @ slot_addrs (listCurrent d) (listCurrent d + merge_size d s)"
    using D by (intro slot_addrs_split) simp_all
  have ss: "slot_addrs (listBase s) (listCurrent s) = slot_addrs (listBase s) f @ slot_addrs f (f + merge_size d s)"
    using slot_addrs_split [OF S(6) f(1,2), of "listCurrent s"] f(3) by simp
  have e1: "filled (merged_mem d s m) (slot_addrs (listBase d) (listCurrent d)) = filled m (slot_addrs (listBase d) (listCurrent d))"
    by (rule filled_cong, rule mm(3)) (use D S ap f in \<open>auto simp: f_def dest!: slot_addrs_bounds\<close>)
  have e2: "filled (merged_mem d s m) (slot_addrs (listCurrent d) (listCurrent d + merge_size d s)) = filled m (slot_addrs f (f + merge_size d s))"
    by (rule filled_copy) (use mm(2) in \<open>simp add: f_def\<close>)
  have e3: "filled (merged_mem d s m) (slot_addrs (listBase s) f) = filled m (slot_addrs (listBase s) f)"
    by (rule filled_cong, rule mm(3)) (use D S ap k f in \<open>auto simp: f_def dest!: slot_addrs_bounds\<close>)
  show ?thesis by (simp add: pd_elems_def sd ss e1 e2 e3 f_def [symmetric])
qed

section \<open>The state of the loop\<close>

text \<open>
  \<open>cs\<close> is still to be visited, \<open>ls\<close> is the list built so far, which has full puddles only, \<open>dl\<close> are
  the puddles that are in neither.
\<close>

definition compacting :: "SublistPool \<Rightarrow> addr \<Rightarrow> addr list \<Rightarrow> addr list \<Rightarrow> addr list \<Rightarrow> addr list \<Rightarrow> addr list \<Rightarrow> bool" where
  "compacting sp cur cs ls dl qs rs \<longleftrightarrow> puddles_ok (sp_puddles sp) (sp_mem sp) \<and> pchain (sp_puddles sp) cur cs \<and>
     pchain (sp_puddles sp) (sp_list sp) ls \<and> pchain (sp_puddles sp) (previousList sp) qs \<and>
     (\<forall>r \<in> set rs. r \<noteq> NULL \<and> (\<exists>d. sp_puddles sp r = Some d \<and> pd_next d = NULL)) \<and>
     distinct (cs @ ls @ dl @ qs @ rs) \<and> dom (sp_puddles sp) = set (cs @ ls @ dl @ qs @ rs) \<and>
     (\<forall>p \<in> set ls. puddle_isFull (the (sp_puddles sp p))) \<and> limits_ok sp (cs @ ls @ dl @ qs @ rs)"

abbreviation (input) pool_elems :: "SublistPool \<Rightarrow> addr list \<Rightarrow> uword multiset" where
  "pool_elems sp ps \<equiv> elems (sp_puddles sp) (sp_mem sp) ps"

lemma compacting_take:
  assumes "compacting sp cur (x # cs) ls dl qs rs"
  shows "cur = x" "x \<noteq> NULL" "\<exists>c. sp_puddles sp x = Some c \<and> puddle_ok x c \<and> compacting sp (pd_next c) cs ls (x # dl) qs rs"
proof -
  show "cur = x" "x \<noteq> NULL" using assms by (auto simp: compacting_def)
  obtain c where c: "sp_puddles sp x = Some c" "pchain (sp_puddles sp) (pd_next c) cs" using assms by (auto simp: compacting_def)
  have "compacting sp (pd_next c) cs ls (x # dl) qs rs"
    using assms c by (auto simp: compacting_def limits_ok_def algebra_simps)
  then show "\<exists>c. sp_puddles sp x = Some c \<and> puddle_ok x c \<and> compacting sp (pd_next c) cs ls (x # dl) qs rs"
    using c(1) puddles_okD(1) assms by (auto simp: compacting_def)
qed

lemma compacting_swap: "compacting sp cur cs ls (x # y # dl) qs rs \<Longrightarrow> compacting sp cur cs ls (y # x # dl) qs rs"
  by (auto simp: compacting_def limits_ok_def algebra_simps)

text \<open>The record fields no step of the compaction touches.\<close>

definition same_config :: "SublistPool \<Rightarrow> SublistPool \<Rightarrow> bool" where
  "same_config sp sp' \<longleftrightarrow> growSize sp' = growSize sp \<and> maxSize sp' = maxSize sp \<and> sp_count sp' = sp_count sp \<and> previousList sp' = previousList sp"

lemma same_config_refl [simp]: "same_config sp sp"
  by (simp add: same_config_def)

lemma same_config_trans: "same_config a b \<Longrightarrow> same_config b c \<Longrightarrow> same_config a c"
  by (simp add: same_config_def)

lemma empty_pd_elems: "puddle_isEmpty d \<Longrightarrow> pd_elems m d = {#}"
  by (simp add: puddle_isEmpty_def pd_elems_def)

lemma total_kill: "x \<notin> set ps \<Longrightarrow> pd_total (h(x := v)) ps = pd_total h ps"
  by (rule pd_total_cong) auto

text \<open>A loose puddle without elements is killed; whether its size is given back is up to the caller.\<close>

lemma compacting_kill:
  assumes c: "compacting sp cur cs ls (x # dl) qs rs" and x: "sp_puddles sp x = Some d" "puddle_isEmpty d"
    and n: "n \<le> pd_size d" "8 dvd n"
  defines "sp' \<equiv> sp \<lparr> currentSize := usub (currentSize sp) n, sp_puddles := (sp_puddles sp)(x := None) \<rparr>"
  shows "compacting sp' cur cs ls dl qs rs" "pool_elems sp' (cs @ ls @ dl @ qs @ rs) = pool_elems sp (cs @ ls @ (x # dl) @ qs @ rs)"
    "same_config sp sp'"
proof -
  have ok: "puddles_ok (sp_puddles sp) (sp_mem sp)" and di: "distinct (cs @ ls @ (x # dl) @ qs @ rs)"
    and dm: "dom (sp_puddles sp) = set (cs @ ls @ (x # dl) @ qs @ rs)" and lim: "limits_ok sp (cs @ ls @ (x # dl) @ qs @ rs)"
    using c by (simp_all add: compacting_def)
  have nx: "x \<notin> set (cs @ ls @ dl @ qs @ rs)" using di by auto
  have l: "limits_ok sp' (cs @ ls @ dl @ qs @ rs)"
  proof -
    have "usub (currentSize sp) n = currentSize sp - n" if "maxSize sp \<noteq> 0" using lim that n(1) x(1) by (intro usub_exact) (auto simp: limits_ok_def)
    then show ?thesis using lim n x(1) nx unfolding limits_ok_def by (auto simp: sp'_def total_kill intro: dvd_diff_nat)
  qed
  show "compacting sp' cur cs ls dl qs rs"
    using c l nx puddles_ok_kill [OF ok, of x] dm by (auto simp: compacting_def sp'_def)
  have "pool_elems sp' ps = pool_elems sp ps" if "x \<notin> set ps" for ps using that by (intro elems_cong) (auto simp: sp'_def)
  then show "pool_elems sp' (cs @ ls @ dl @ qs @ rs) = pool_elems sp (cs @ ls @ (x # dl) @ qs @ rs)"
    using nx x empty_pd_elems by (simp del: elems_simps(3) add: elems_def)
  show "same_config sp sp'" by (simp add: same_config_def sp'_def)
qed

text \<open>The loop gives no size back for a puddle that it finds empty.\<close>

lemma compacting_kill_keep:
  assumes c: "compacting sp cur cs ls (x # dl) qs rs" and x: "sp_puddles sp x = Some d" "puddle_isEmpty d"
  defines "sp' \<equiv> sp \<lparr> sp_puddles := (sp_puddles sp)(x := None) \<rparr>"
  shows "compacting sp' cur cs ls dl qs rs" "pool_elems sp' (cs @ ls @ dl @ qs @ rs) = pool_elems sp (cs @ ls @ (x # dl) @ qs @ rs)"
    "same_config sp sp'"
proof -
  note k = compacting_kill [OF c x, of 0]
  have e: "compacting (sp \<lparr> currentSize := usub (currentSize sp) 0, sp_puddles := (sp_puddles sp)(x := None) \<rparr>) cur cs ls dl qs rs"
    using k(1) by simp
  moreover have "limits_ok sp' (cs @ ls @ dl @ qs @ rs)"
  proof -
    have "limits_ok sp (cs @ ls @ (x # dl) @ qs @ rs)" "x \<notin> set (cs @ ls @ dl @ qs @ rs)" using c by (auto simp: compacting_def)
    then show ?thesis unfolding limits_ok_def by (auto simp: sp'_def total_kill)
  qed
  ultimately show "compacting sp' cur cs ls dl qs rs" by (simp add: compacting_def sp'_def)
  show "pool_elems sp' (cs @ ls @ dl @ qs @ rs) = pool_elems sp (cs @ ls @ (x # dl) @ qs @ rs)" using k(2) by (simp add: sp'_def)
  show "same_config sp sp'" by (simp add: same_config_def sp'_def)
qed

definition last_of :: "addr list \<Rightarrow> addr" where
  "last_of ls = (if ls = [] then NULL else last ls)"

text \<open>A full loose puddle goes to the front of the list.\<close>

lemma compacting_add:
  assumes c: "compacting sp cur cs ls (x # dl) qs rs" and x: "sp_puddles sp x = Some d" "puddle_isFull d"
  shows "\<exists>sp'. compact_add x (last_of ls) sp = Some (last_of (x # ls), sp') \<and> compacting sp' cur cs (x # ls) dl qs rs \<and>
    pool_elems sp' (cs @ (x # ls) @ dl @ qs @ rs) = pool_elems sp (cs @ ls @ (x # dl) @ qs @ rs) \<and> same_config sp sp' \<and>
    currentSize sp' = currentSize sp \<and> (\<forall>p. p \<noteq> x \<longrightarrow> sp_puddles sp' p = sp_puddles sp p)"
proof -
  define h where "h = (sp_puddles sp)(x \<mapsto> d \<lparr> pd_next := sp_list sp \<rparr>)"
  define sp' where "sp' = sp \<lparr> sp_puddles := h, sp_list := x \<rparr>"
  have ok: "puddles_ok (sp_puddles sp) (sp_mem sp)" and di: "distinct (cs @ ls @ (x # dl) @ qs @ rs)"
    and dm: "dom (sp_puddles sp) = set (cs @ ls @ (x # dl) @ qs @ rs)" and lim: "limits_ok sp (cs @ ls @ (x # dl) @ qs @ rs)"
    using c by (simp_all add: compacting_def)
  have nx: "x \<notin> set (cs @ ls @ dl @ qs @ rs)" using di by auto
  have "sp_list sp = NULL \<longleftrightarrow> ls = []" using c pchain_head pchain_dom by (auto simp: compacting_def)
  then have a: "compact_add x (last_of ls) sp = Some (last_of (x # ls), sp')"
    using x(1) by (simp add: compact_add_def puddle_setNext_def upd_puddle_def sp'_def h_def last_of_def)
  have x0: "x \<noteq> NULL" using puddle_ok_facts(1) puddles_okD(1) [OF ok x(1)] by blast
  have el: "elems h (sp_mem sp) xs = elems (sp_puddles sp) (sp_mem sp) xs" "pd_total h xs = pd_total (sp_puddles sp) xs" for xs
    unfolding h_def by (rule relink_elems [where d = d], rule x(1), rule relink_total [where d = d], rule x(1))
  have "puddles_ok h (sp_mem sp)" unfolding h_def by (rule relink [OF ok x(1)])
  moreover have "limits_ok sp' (cs @ (x # ls) @ dl @ qs @ rs)" using lim el(2)
    by (auto simp: limits_ok_def sp'_def algebra_simps simp del: pd_total_simps(2)) (simp add: algebra_simps)
  moreover have "\<forall>p \<in> set (x # ls). puddle_isFull (the (h p))" using c x nx by (auto simp: compacting_def h_def puddle_isFull_def)
  moreover have "dom h = set (cs @ (x # ls) @ dl @ qs @ rs)" using dm x(1) by (auto simp: h_def)
  ultimately have "compacting sp' cur cs (x # ls) dl qs rs" using c x(1) x0 nx di by (auto simp: compacting_def sp'_def h_def)
  moreover have "pool_elems sp' (cs @ (x # ls) @ dl @ qs @ rs) = pool_elems sp (cs @ ls @ (x # dl) @ qs @ rs)"
    using el(1) [of "cs @ (x # ls) @ dl @ qs @ rs"] by (simp add: sp'_def)
  ultimately show ?thesis using a by (intro exI [of _ sp']) (auto simp: sp'_def same_config_def h_def)
qed

text \<open>Two loose puddles are merged.\<close>

lemma compacting_merge:
  assumes c: "compacting sp cur cs ls (src # dst # dl) qs rs" and s: "sp_puddles sp src = Some s" and d: "sp_puddles sp dst = Some d"
  shows "\<exists>sp'. puddle_merge dst src sp = Some sp' \<and> compacting sp' cur cs ls (src # dst # dl) qs rs \<and>
    pool_elems sp' (cs @ ls @ (src # dst # dl) @ qs @ rs) = pool_elems sp (cs @ ls @ (src # dst # dl) @ qs @ rs) \<and> same_config sp sp' \<and>
    sp_puddles sp' src = Some (merged_src d s) \<and> sp_puddles sp' dst = Some (merged_dst d s)"
proof -
  have ok: "puddles_ok (sp_puddles sp) (sp_mem sp)" and di: "distinct (cs @ ls @ (src # dst # dl) @ qs @ rs)"
    and dm: "dom (sp_puddles sp) = set (cs @ ls @ (src # dst # dl) @ qs @ rs)" and lim: "limits_ok sp (cs @ ls @ (src # dst # dl) @ qs @ rs)"
    using c by (simp_all add: compacting_def)
  have ne: "dst \<noteq> src" using di by auto
  define h where "h = (sp_puddles sp)(dst \<mapsto> merged_dst d s, src \<mapsto> merged_src d s)"
  define sp' where "sp' = sp \<lparr> sp_mem := merged_mem d s (sp_mem sp), sp_puddles := h \<rparr>"
  have m: "puddle_merge dst src sp = Some sp'" unfolding sp'_def h_def
    by (rule puddle_merge_eq [OF d s puddles_okD(1) [OF ok d] puddles_okD(1) [OF ok s] ne])
  have hok: "puddles_ok h (merged_mem d s (sp_mem sp))" unfolding h_def by (rule merge_puddles_ok [OF ok d s ne])
  have ch: "pchain h p xs \<longleftrightarrow> pchain (sp_puddles sp) p xs" for p xs by (rule pchain_cong) (use s d ne in \<open>auto simp: h_def\<close>)
  have tot: "pd_total h xs = pd_total (sp_puddles sp) xs" for xs by (rule pd_total_cong) (use s d in \<open>auto simp: h_def\<close>)
  have fr: "elems h (merged_mem d s (sp_mem sp)) xs = pool_elems sp xs" if xs: "src \<notin> set xs" "dst \<notin> set xs" "set xs \<subseteq> dom (sp_puddles sp)" for xs
  proof (rule elems_cong)
    fix p assume p: "p \<in> set xs"
    then obtain e where e: "sp_puddles sp p = Some e" using xs(3) by blast
    have pn: "p \<noteq> src" "p \<noteq> dst" using p xs by auto
    note E = puddle_ok_facts [OF puddles_okD(1) [OF ok e]] and D = puddle_ok_facts [OF puddles_okD(1) [OF ok d]] and S = puddle_ok_facts [OF puddles_okD(1) [OF ok s]]
    note k = merge_size_facts [OF puddles_okD(1) [OF ok d] puddles_okD(1) [OF ok s]]
    have "merged_mem d s (sp_mem sp) a = sp_mem sp a" if a: "listBase e \<le> a" "a < listCurrent e" for a
      using puddles_apart [OF ok e d pn(2)] puddles_apart [OF ok e s pn(1)] E D S k a
      by (intro merged_mem_cases(3) [OF ok d s ne]) linarith+
    then show "pd_elems (merged_mem d s (sp_mem sp)) (the (h p)) = pd_elems (sp_mem sp) (the (sp_puddles sp p))"
      using e pn by (auto simp: h_def intro!: pd_elems_cong)
  qed
  have sub: "set cs \<subseteq> dom (sp_puddles sp)" "set ls \<subseteq> dom (sp_puddles sp)" "set dl \<subseteq> dom (sp_puddles sp)" "set (qs @ rs) \<subseteq> dom (sp_puddles sp)"
    using dm by auto
  have el: "pool_elems sp' (cs @ ls @ (src # dst # dl) @ qs @ rs) = pool_elems sp (cs @ ls @ (src # dst # dl) @ qs @ rs)"
    using fr [OF _ _ sub(1)] fr [OF _ _ sub(2)] fr [OF _ _ sub(3)] fr [OF _ _ sub(4)] di merge_pd_elems [OF ok d s ne] s d ne
    by (simp add: sp'_def h_def [symmetric]) (simp add: h_def ac_simps)
  have full: "\<forall>p \<in> set ls. puddle_isFull (the (h p))" using c di by (auto simp: compacting_def h_def)
  have dh: "dom h = set (cs @ ls @ (src # dst # dl) @ qs @ rs)" using dm by (auto simp: h_def)
  have "\<forall>r \<in> set rs. h r = sp_puddles sp r" using di by (auto simp: h_def)
  then have "compacting sp' cur cs ls (src # dst # dl) qs rs"
    using c hok full dh lim unfolding compacting_def by (simp add: sp'_def ch tot limits_ok_def del: pd_total_simps)
  then show ?thesis using m el ne by (intro exI [of _ sp']) (auto simp: sp'_def same_config_def h_def)
qed

section \<open>The loop\<close>

definition dest_of :: "addr list \<Rightarrow> addr" where
  "dest_of dl = (case dl of [] \<Rightarrow> NULL | d # _ \<Rightarrow> d)"

text \<open>At most one puddle is neither in the list nor still to be visited, and it is partly filled.\<close>

definition partial_dest :: "SublistPool \<Rightarrow> addr list \<Rightarrow> bool" where
  "partial_dest sp dl \<longleftrightarrow> length dl \<le> 1 \<and> (\<forall>p \<in> set dl. \<not> puddle_isFull (the (sp_puddles sp p)) \<and> \<not> puddle_isEmpty (the (sp_puddles sp p)))"

lemma compacting_dest_NULL: "compacting sp cur cs ls dl qs rs \<Longrightarrow> dest_of dl = NULL \<longleftrightarrow> dl = []"
proof (cases dl)
  case (Cons d ds)
  assume c: "compacting sp cur cs ls dl qs rs"
  then have "d \<in> dom (sp_puddles sp)" "puddles_ok (sp_puddles sp) (sp_mem sp)" using Cons by (simp_all add: compacting_def)
  then show ?thesis using puddle_ok_facts(1) [OF puddles_okD(1)] Cons by (auto simp: dest_of_def)
qed (simp add: dest_of_def)

definition step_to :: "SublistPool \<Rightarrow> addr list \<Rightarrow> SublistPool \<Rightarrow> addr list \<Rightarrow> bool" where
  "step_to sp ps sp' ps' \<longleftrightarrow> pool_elems sp' ps' = pool_elems sp ps \<and> same_config sp sp'"

lemma step_to_trans: "step_to a x b y \<Longrightarrow> step_to b y c z \<Longrightarrow> step_to a x c z"
  by (auto simp: step_to_def intro: same_config_trans)

lemma compact_kill_step:
  assumes c: "compacting sp cur cs ls (x # dl) qs rs" and x: "sp_puddles sp x = Some d" "puddle_isEmpty d"
  shows "\<exists>sp'. compact_kill x sp = Some sp' \<and> compacting sp' cur cs ls dl qs rs \<and>
    step_to sp (cs @ ls @ (x # dl) @ qs @ rs) sp' (cs @ ls @ dl @ qs @ rs) \<and> (\<forall>p. p \<noteq> x \<longrightarrow> sp_puddles sp' p = sp_puddles sp p)"
proof -
  have po: "puddle_ok x d" using c x(1) puddles_okD(1) by (auto simp: compacting_def)
  then have n: "pd_size d \<le> pd_size d" "8 dvd pd_size d" by (simp_all add: puddle_ok_def)
  note k = compacting_kill [OF c x n]
  show ?thesis using k x(1) puddle_sizes(3) [OF po]
    by (intro exI [of _ "sp \<lparr> currentSize := usub (currentSize sp) (pd_size d), sp_puddles := (sp_puddles sp)(x := None) \<rparr>"])
      (simp add: compact_kill_def puddle_kill_def step_to_def)
qed

lemma merge_outcome:
  assumes "puddle_ok dst d" "puddle_ok src s" "\<not> puddle_isFull d" "\<not> puddle_isEmpty s"
  shows "\<not> puddle_isFull (merged_src d s)" "\<not> puddle_isFull (merged_dst d s) \<Longrightarrow> puddle_isEmpty (merged_src d s)" "\<not> puddle_isEmpty (merged_dst d s)"
proof -
  note d = puddle_ok_facts(3,4) [OF assms(1)] and s = puddle_ok_facts(3,4) [OF assms(2)]
  have n: "listCurrent d < listTop d" "listBase s < listCurrent s" using d s assms(3,4) by (auto simp: puddle_isFull_def puddle_isEmpty_def)
  then have k: "0 < merge_size d s" by (simp add: merge_size_def)
  show "\<not> puddle_isFull (merged_src d s)" using k n s by (auto simp: puddle_isFull_def)
  show "\<not> puddle_isEmpty (merged_dst d s)" using k d by (auto simp: puddle_isEmpty_def)
  show "puddle_isEmpty (merged_src d s)" if "\<not> puddle_isFull (merged_dst d s)"
  proof -
    have "merge_size d s = listCurrent s - listBase s" using that n by (auto simp: puddle_isFull_def merge_size_def min_def split: if_splits)
    then show ?thesis using s by (simp add: puddle_isEmpty_def)
  qed
qed

text \<open>The merge of the loose puddles \<open>src\<close> and \<open>dst\<close> and what becomes of them.\<close>

lemma compact_merge_step:
  assumes c: "compacting sp cur cs ls [src, dst] qs rs" and s: "sp_puddles sp src = Some s" and d: "sp_puddles sp dst = Some d"
    and p: "\<not> puddle_isFull d" "\<not> puddle_isEmpty s"
  shows "\<exists>dl' ls' sp'. (do { sp \<leftarrow> puddle_merge dst src sp; d \<leftarrow> sp_puddles sp dst; s \<leftarrow> sp_puddles sp src;
        (if puddle_isFull d then
           do { (lastPuddle, sp) \<leftarrow> compact_add dst (last_of ls) sp;
                (if puddle_isEmpty s then do { sp \<leftarrow> compact_kill src sp; Some (NULL, lastPuddle, sp) } else Some (src, lastPuddle, sp)) }
         else do { sp \<leftarrow> compact_kill src sp; Some (dst, last_of ls, sp) }) }) = Some (dest_of dl', last_of ls', sp') \<and>
    compacting sp' cur cs ls' dl' qs rs \<and> partial_dest sp' dl' \<and> step_to sp (cs @ ls @ [src, dst] @ qs @ rs) sp' (cs @ ls' @ dl' @ qs @ rs)"
proof -
  have ok: "puddles_ok (sp_puddles sp) (sp_mem sp)" and ne: "dst \<noteq> src" using c by (auto simp: compacting_def)
  note out = merge_outcome [OF puddles_okD(1) [OF ok d] puddles_okD(1) [OF ok s] p]
  obtain sp1 where m: "puddle_merge dst src sp = Some sp1" "compacting sp1 cur cs ls [src, dst] qs rs"
      "step_to sp (cs @ ls @ [src, dst] @ qs @ rs) sp1 (cs @ ls @ [src, dst] @ qs @ rs)"
      "sp_puddles sp1 src = Some (merged_src d s)" "sp_puddles sp1 dst = Some (merged_dst d s)"
    using compacting_merge [OF c s d] by (auto simp: step_to_def)
  note c1 = compacting_swap [OF m(2)]
  have sw: "step_to sp (cs @ ls @ [src, dst] @ qs @ rs) sp1 (cs @ ls @ [dst, src] @ qs @ rs)" using m(3) by (simp add: step_to_def ac_simps)
  show ?thesis
  proof (cases "puddle_isFull (merged_dst d s)")
    case True
    obtain sp2 where a: "compact_add dst (last_of ls) sp1 = Some (last_of (dst # ls), sp2)" "compacting sp2 cur cs (dst # ls) [src] qs rs"
        "step_to sp1 (cs @ ls @ [dst, src] @ qs @ rs) sp2 (cs @ (dst # ls) @ [src] @ qs @ rs)" "sp_puddles sp2 src = Some (merged_src d s)"
      using compacting_add [OF c1 m(5) True] m(4) ne by (auto simp: step_to_def)
    note t = step_to_trans [OF sw a(3)]
    show ?thesis
    proof (cases "puddle_isEmpty (merged_src d s)")
      case e: True
      obtain sp3 where k: "compact_kill src sp2 = Some sp3" "compacting sp3 cur cs (dst # ls) [] qs rs"
          "step_to sp2 (cs @ (dst # ls) @ [src] @ qs @ rs) sp3 (cs @ (dst # ls) @ [] @ qs @ rs)"
        using compact_kill_step [OF a(2,4) e] by auto
      show ?thesis using m(1,4,5) True e a(1) k step_to_trans [OF t k(3)]
        by (intro exI [of _ "[]"] exI [of _ "dst # ls"] exI [of _ sp3]) (simp add: dest_of_def partial_dest_def)
    next
      case e: False
      show ?thesis using m(1,4,5) True e a t out(1)
        by (intro exI [of _ "[src]"] exI [of _ "dst # ls"] exI [of _ sp2]) (simp add: dest_of_def partial_dest_def)
    qed
  next
    case False
    obtain sp3 where k: "compact_kill src sp1 = Some sp3" "compacting sp3 cur cs ls [dst] qs rs"
        "step_to sp1 (cs @ ls @ [src, dst] @ qs @ rs) sp3 (cs @ ls @ [dst] @ qs @ rs)" "sp_puddles sp3 dst = Some (merged_dst d s)"
      using compact_kill_step [OF m(2,4) out(2) [OF False]] m(5) ne by auto
    show ?thesis using m(1,4,5) False k step_to_trans [OF m(3) k(3)] out(3)
      by (intro exI [of _ "[dst]"] exI [of _ ls] exI [of _ sp3]) (simp add: dest_of_def partial_dest_def)
  qed
qed

lemma compact_loop_spec:
  assumes "compacting sp cur cs ls dl qs rs" "partial_dest sp dl"
  shows "\<exists>dl' ls' sp'. compact_loop cur (dest_of dl) (last_of ls) sp = Some (dest_of dl', last_of ls', sp') \<and>
    compacting sp' NULL [] ls' dl' qs rs \<and> partial_dest sp' dl' \<and> step_to sp (cs @ ls @ dl @ qs @ rs) sp' (ls' @ dl' @ qs @ rs)"
  using assms
proof (induction cs arbitrary: sp cur ls dl)
  case Nil
  then have "cur = NULL" by (simp add: compacting_def)
  then show ?case using Nil by (subst compact_loop.simps) (auto simp: step_to_def)
next
  case (Cons x cs)
  obtain c where x: "cur = x" "x \<noteq> NULL" "sp_puddles sp x = Some c" "puddle_ok x c" and c1: "compacting sp (pd_next c) cs ls (x # dl) qs rs"
    using compacting_take [OF Cons.prems(1)] by blast
  have perm: "step_to sp ((x # cs) @ ls @ dl @ qs @ rs) sp (cs @ ls @ (x # dl) @ qs @ rs)" by (simp add: step_to_def ac_simps)
  have dn: "dest_of dl = NULL \<longleftrightarrow> dl = []" by (rule compacting_dest_NULL [OF Cons.prems(1)])
  have go: ?case if r: "compact_loop cur (dest_of dl) (last_of ls) sp = compact_loop (pd_next c) (dest_of dl1) (last_of ls1) sp1"
      and i: "compacting sp1 (pd_next c) cs ls1 dl1 qs rs" "partial_dest sp1 dl1"
      and t: "step_to sp (cs @ ls @ (x # dl) @ qs @ rs) sp1 (cs @ ls1 @ dl1 @ qs @ rs)" for sp1 dl1 ls1
    using Cons.IH [OF i] step_to_trans [OF step_to_trans [OF perm t]] unfolding r by blast
  note unf = compact_loop.simps [of x "dest_of dl" "last_of ls" sp]
  consider "puddle_isEmpty c" | "\<not> puddle_isEmpty c" "puddle_isFull c" | "\<not> puddle_isEmpty c" "\<not> puddle_isFull c" "dl = []"
    | y where "\<not> puddle_isEmpty c" "\<not> puddle_isFull c" "dl = [y]"
    using Cons.prems(2) by (cases dl) (auto simp: partial_dest_def)
  then show ?case
  proof cases
    case 1
    define sp1 where "sp1 = sp \<lparr> sp_puddles := (sp_puddles sp)(x := None) \<rparr>"
    have k: "compacting sp1 (pd_next c) cs ls dl qs rs" "step_to sp (cs @ ls @ (x # dl) @ qs @ rs) sp1 (cs @ ls @ dl @ qs @ rs)"
      using compacting_kill_keep [OF c1 x(3) 1] by (simp_all add: sp1_def step_to_def)
    have "partial_dest sp1 dl" using Cons.prems c1 by (auto simp: partial_dest_def sp1_def compacting_def)
    then show ?thesis using x 1 k by (intro go [of dl ls sp1]) (simp_all add: unf puddle_kill_def sp1_def)
  next
    case 2
    obtain sp1 where a: "compact_add x (last_of ls) sp = Some (last_of (x # ls), sp1)" "compacting sp1 (pd_next c) cs (x # ls) dl qs rs"
        "step_to sp (cs @ ls @ (x # dl) @ qs @ rs) sp1 (cs @ (x # ls) @ dl @ qs @ rs)" "\<forall>p. p \<noteq> x \<longrightarrow> sp_puddles sp1 p = sp_puddles sp p"
      using compacting_add [OF c1 x(3) 2(2)] by (auto simp: step_to_def)
    have "partial_dest sp1 dl" using Cons.prems c1 a(4) by (auto simp: partial_dest_def compacting_def)
    then show ?thesis using x 2 a by (intro go [of dl "x # ls" sp1]) (simp_all add: unf)
  next
    case 3
    have "compact_loop x NULL (last_of ls) sp = compact_loop (pd_next c) x (last_of ls) sp"
      using x 3 by (subst compact_loop.simps) simp
    then show ?thesis using x 3 c1 by (intro go [of "[x]" ls sp]) (simp_all add: dest_of_def partial_dest_def step_to_def)
  next
    case 4
    obtain d where d: "sp_puddles sp y = Some d" "\<not> puddle_isFull d" "\<not> puddle_isEmpty d"
    proof -
      have "y \<in> dom (sp_puddles sp)" using c1 4(3) by (simp add: compacting_def)
      then show thesis using that Cons.prems(2) 4(3) by (auto simp: partial_dest_def)
    qed
    have r: "compact_loop cur (dest_of dl) (last_of ls) sp =
        do { (destination, lastPuddle, sp) \<leftarrow> compact_merge x y (last_of ls) sp; compact_loop (pd_next c) destination lastPuddle sp }"
    proof -
      have "y \<noteq> NULL" using dn 4(3) by (simp add: dest_of_def)
      then show ?thesis using x 4 unfolding dest_of_def by (subst compact_loop.simps) simp
    qed
    have "\<exists>dl' ls' sp'. compact_merge x y (last_of ls) sp = Some (dest_of dl', last_of ls', sp') \<and>
        compacting sp' (pd_next c) cs ls' dl' qs rs \<and> partial_dest sp' dl' \<and> step_to sp (cs @ ls @ [x, y] @ qs @ rs) sp' (cs @ ls' @ dl' @ qs @ rs)"
    proof (cases "consumedSize c \<le> consumedSize d")
      case True
      then show ?thesis using compact_merge_step [OF c1 [unfolded 4(3)] x(3) d(1,2) 4(1)] x(3) d(1) by (simp add: compact_merge_def)
    next
      case False
      have "step_to sp (cs @ ls @ [x, y] @ qs @ rs) sp (cs @ ls @ [y, x] @ qs @ rs)" by (simp add: step_to_def ac_simps)
      then show ?thesis using compact_merge_step [OF compacting_swap [OF c1 [unfolded 4(3)]] d(1) x(3) 4(2) d(3)] x(3) d(1) False
        by (auto simp: compact_merge_def intro: step_to_trans)
    qed
    then obtain dl1 ls1 sp1 where m: "compact_merge x y (last_of ls) sp = Some (dest_of dl1, last_of ls1, sp1)"
        "compacting sp1 (pd_next c) cs ls1 dl1 qs rs" "partial_dest sp1 dl1" "step_to sp (cs @ ls @ (x # dl) @ qs @ rs) sp1 (cs @ ls1 @ dl1 @ qs @ rs)"
      unfolding 4(3) by auto
    show ?thesis by (rule go [OF _ m(2-4)]) (simp add: r m(1))
  qed
qed

end
