(* ===== verification/Sublist_Process.thy ===== *)
theory Sublist_Process
  imports Sublist_Compact
begin

text \<open>
  The operations on whole lists: \<open>compact\<close>, \<open>clear\<close>, and the hand-out of the puddles to the threads
  that process them.
\<close>

section \<open>Compaction\<close>

lemma compacting_start: "sp_inv sp ps qs rs \<Longrightarrow> compacting (sp \<lparr> sp_list := NULL \<rparr>) (sp_list sp) ps [] [] qs rs"
  by (auto simp: sp_inv_defs compacting_def)

lemma full_not_empty: "puddle_ok p d \<Longrightarrow> puddle_isFull d \<Longrightarrow> \<not> puddle_isEmpty d"
  by (auto simp: puddle_ok_def puddle_isFull_def puddle_isEmpty_def)

text \<open>All puddles of a compacted list hold something, and all but the last are full.\<close>

definition compacted :: "SublistPool \<Rightarrow> addr list \<Rightarrow> bool" where
  "compacted sp ps \<longleftrightarrow> (\<forall>p \<in> set ps. \<not> puddle_isEmpty (the (sp_puddles sp p))) \<and> (\<forall>p \<in> set (butlast ps). puddle_isFull (the (sp_puddles sp p)))"

lemma compact_finish_full:
  assumes c: "compacting sp NULL [] ls [] qs rs"
  defines "sp' \<equiv> sp \<lparr> allocPuddle := last_of ls \<rparr>"
  shows "sp_inv sp' ls qs rs" "compacted sp' ls"
proof -
  show "sp_inv sp' ls qs rs" using c by (auto simp: sp_inv_defs compacting_def sp'_def last_of_def)
  have "\<not> puddle_isEmpty (the (sp_puddles sp p))" if "p \<in> set ls" for p
  proof -
    have "p \<in> dom (sp_puddles sp)" using c that by (simp add: compacting_def)
    then obtain d where "sp_puddles sp p = Some d" by blast
    then show ?thesis using c that full_not_empty [OF puddles_okD(1)] by (auto simp: compacting_def)
  qed
  then show "compacted sp' ls" using c in_set_butlastD by (fastforce simp: compacted_def sp'_def compacting_def)
qed

lemma compact_finish_dest:
  assumes c: "compacting sp NULL [] ls [x] qs rs" and x: "sp_puddles sp x = Some d" "\<not> puddle_isEmpty d"
  shows "\<exists>sp'. (do { sp \<leftarrow> (if last_of ls \<noteq> NULL then puddle_setNext (last_of ls) x sp else Some (sp \<lparr> sp_list := x \<rparr>));
      sp \<leftarrow> puddle_setNext x NULL sp; Some (sp \<lparr> allocPuddle := x \<rparr>) }) = Some sp' \<and>
    sp_inv sp' (ls @ [x]) qs rs \<and> compacted sp' (ls @ [x]) \<and> step_to sp (ls @ [x] @ qs @ rs) sp' ((ls @ [x]) @ qs @ rs)"
proof -
  have ok: "puddles_ok (sp_puddles sp) (sp_mem sp)" and di: "distinct (ls @ [x] @ qs @ rs)"
    and dm: "dom (sp_puddles sp) = set (ls @ [x] @ qs @ rs)" and lim: "limits_ok sp (ls @ [x] @ qs @ rs)"
    and ch: "pchain (sp_puddles sp) (sp_list sp) ls" "pchain (sp_puddles sp) (previousList sp) qs"
    and rs: "\<forall>r \<in> set rs. r \<noteq> NULL \<and> (\<exists>d. sp_puddles sp r = Some d \<and> pd_next d = NULL)"
    and full: "\<forall>p \<in> set ls. puddle_isFull (the (sp_puddles sp p))" using c by (simp_all add: compacting_def)
  have x0: "x \<noteq> NULL" using puddle_ok_facts(1) [OF puddles_okD(1) [OF ok x(1)]] .
  define h1 where "h1 = (if ls = [] then sp_puddles sp else (sp_puddles sp)(last ls \<mapsto> (the (sp_puddles sp (last ls))) \<lparr> pd_next := x \<rparr>))"
  define h where "h = h1(x \<mapsto> d \<lparr> pd_next := NULL \<rparr>)"
  define sp' where "sp' = sp \<lparr> sp_list := (if ls = [] then x else sp_list sp), sp_puddles := h, allocPuddle := x \<rparr>"
  have l: "last ls \<noteq> NULL \<and> last ls \<noteq> x \<and> (\<exists>e. sp_puddles sp (last ls) = Some e)" if "ls \<noteq> []"
    using pchain_dom [OF ch(1) last_in_set [OF that]] di last_in_set [OF that] by auto
  have run: "(do { sp \<leftarrow> (if last_of ls \<noteq> NULL then puddle_setNext (last_of ls) x sp else Some (sp \<lparr> sp_list := x \<rparr>));
      sp \<leftarrow> puddle_setNext x NULL sp; Some (sp \<lparr> allocPuddle := x \<rparr>) }) = Some sp'"
    using l x(1) by (auto simp: last_of_def puddle_setNext_def upd_puddle_def sp'_def h_def h1_def)
  have h1x: "h1 x = Some d" using l x(1) by (auto simp: h1_def)
  have h1: "puddles_ok h1 (sp_mem sp)" "\<And>xs. elems h1 (sp_mem sp) xs = pool_elems sp xs" "\<And>xs. pd_total h1 xs = pd_total (sp_puddles sp) xs"
    using l relink [OF ok] relink_elems relink_total ok by (auto simp: h1_def)
  have h: "puddles_ok h (sp_mem sp)" "\<And>xs. elems h (sp_mem sp) xs = pool_elems sp xs" "\<And>xs. pd_total h xs = pd_total (sp_puddles sp) xs"
    using relink [OF h1(1) h1x] relink_elems [where h = h1 and d = d, OF h1x] relink_total [where h = h1 and d = d, OF h1x] h1 by (auto simp: h_def)
  have other: "h p = sp_puddles sp p" if "p \<notin> set ls" "p \<noteq> x" for p using that last_in_set [of ls] by (auto simp: h_def h1_def)
  have list: "pchain h (sp_list sp') (ls @ [x])"
  proof (cases "ls = []")
    case True
    then show ?thesis using x0 by (simp add: sp'_def h_def)
  next
    case False
    let ?h0 = "(sp_puddles sp)(x \<mapsto> d \<lparr> pd_next := NULL \<rparr>)"
    have "pchain ?h0 (sp_list sp) (butlast ls @ [last ls])" "distinct (butlast ls @ [last ls])" using False ch(1) di by simp_all
    from pchain_link [OF this, of x "[x]" "(the (sp_puddles sp (last ls))) \<lparr> pd_next := x \<rparr>"] l [OF False] x0
    have "pchain (?h0(last ls \<mapsto> (the (sp_puddles sp (last ls))) \<lparr> pd_next := x \<rparr>)) (sp_list sp) (butlast ls @ last ls # [x])" by simp
    moreover have "butlast ls @ last ls # [x] = ls @ [x]" using False by (metis append.assoc append_Cons append_Nil append_butlast_last_id)
    ultimately show ?thesis using False l [OF False] by (simp add: sp'_def h_def h1_def fun_upd_twist)
  qed
  have chains: "chains_ok sp' (ls @ [x]) qs rs"
  proof -
    have o: "h p = sp_puddles sp p" if "p \<in> set (qs @ rs)" for p using other [of p] that di by auto
    then have "pchain h (previousList sp) qs" using ch(2) by (subst pchain_cong [of _ _ "sp_puddles sp"]) auto
    moreover have "\<forall>r \<in> set rs. r \<noteq> NULL \<and> (\<exists>d. h r = Some d \<and> pd_next d = NULL)" using rs o by auto
    moreover have "dom h = set ((ls @ [x]) @ qs @ rs)" using dm l x(1) by (auto simp: h_def h1_def)
    ultimately show ?thesis using list di by (simp add: chains_ok_def sp'_def)
  qed
  have "limits_ok sp' ((ls @ [x]) @ qs @ rs)" using lim h(3) by (simp add: limits_ok_def sp'_def del: pd_total_simps)
  then have "sp_inv sp' (ls @ [x]) qs rs" using chains h(1) by (simp add: sp_inv_def sp'_def)
  moreover have "compacted sp' (ls @ [x])"
  proof -
    have eq: "puddle_isFull (the (h p)) = puddle_isFull (the (sp_puddles sp p)) \<and> puddle_isEmpty (the (h p)) = puddle_isEmpty (the (sp_puddles sp p))" for p
      using l x(1) by (auto simp: h_def h1_def puddle_isFull_def puddle_isEmpty_def)
    have "\<not> puddle_isEmpty (the (sp_puddles sp p))" if pl: "p \<in> set ls" for p
    proof -
      obtain e where "sp_puddles sp p = Some e" using pchain_dom [OF ch(1) pl] by blast
      then show ?thesis using full pl full_not_empty [OF puddles_okD(1) [OF ok]] by auto
    qed
    then show ?thesis using full x by (simp add: compacted_def sp'_def eq)
  qed
  moreover have "step_to sp (ls @ [x] @ qs @ rs) sp' ((ls @ [x]) @ qs @ rs)"
    using h(2) by (simp add: step_to_def sp'_def same_config_def del: elems_simps)
  ultimately show ?thesis using run by blast
qed

lemma sp_compact_spec:
  assumes "sp_inv sp ps qs rs"
  shows "\<exists>sp' ps'. sp_compact sp = Some sp' \<and> sp_inv sp' ps' qs rs \<and> compacted sp' ps' \<and> step_to sp (ps @ qs @ rs) sp' (ps' @ qs @ rs)"
proof -
  let ?sp = "sp \<lparr> sp_list := NULL \<rparr>"
  have "partial_dest ?sp []" by (simp add: partial_dest_def)
  from compact_loop_spec [OF compacting_start [OF assms] this] obtain dl ls sp1 where
    l: "compact_loop (sp_list sp) NULL NULL ?sp = Some (dest_of dl, last_of ls, sp1)" "compacting sp1 NULL [] ls dl qs rs"
      "partial_dest sp1 dl" "step_to ?sp (ps @ qs @ rs) sp1 (ls @ dl @ qs @ rs)"
    by (auto simp: dest_of_def last_of_def)
  have t0: "step_to sp (ps @ qs @ rs) sp1 (ls @ dl @ qs @ rs)" using l(4) by (simp add: step_to_def same_config_def)
  show ?thesis
  proof (cases dl)
    case Nil
    note f = compact_finish_full [OF l(2) [unfolded Nil]]
    have "sp_compact sp = Some (sp1 \<lparr> allocPuddle := last_of ls \<rparr>)" using l(1) Nil by (simp add: sp_compact_def dest_of_def)
    moreover have "step_to sp (ps @ qs @ rs) (sp1 \<lparr> allocPuddle := last_of ls \<rparr>) (ls @ qs @ rs)"
      using t0 Nil by (simp add: step_to_def same_config_def)
    ultimately show ?thesis using f by blast
  next
    case (Cons x xs)
    then have dl: "dl = [x]" using l(3) by (simp add: partial_dest_def)
    have "x \<in> dom (sp_puddles sp1)" using l(2) dl by (simp add: compacting_def)
    then obtain d where d: "sp_puddles sp1 x = Some d" "\<not> puddle_isEmpty d" using l(3) dl by (auto simp: partial_dest_def)
    from compact_finish_dest [OF l(2) [unfolded dl] d] obtain sp' where
      f: "(do { sp \<leftarrow> (if last_of ls \<noteq> NULL then puddle_setNext (last_of ls) x sp1 else Some (sp1 \<lparr> sp_list := x \<rparr>));
        sp \<leftarrow> puddle_setNext x NULL sp; Some (sp \<lparr> allocPuddle := x \<rparr>) }) = Some sp'"
      "sp_inv sp' (ls @ [x]) qs rs" "compacted sp' (ls @ [x])" "step_to sp1 (ls @ [x] @ qs @ rs) sp' ((ls @ [x]) @ qs @ rs)" by blast
    have "x \<noteq> NULL" using compacting_dest_NULL [OF l(2)] dl by (simp add: dest_of_def)
    then have "sp_compact sp = Some sp'" using l(1) dl f(1) by (simp add: sp_compact_def dest_of_def)
    then show ?thesis using f(2,3) step_to_trans [OF t0 [unfolded dl] f(4)] by blast
  qed
qed

section \<open>Clearing\<close>

lemma kill_list_spec:
  assumes "pchain (sp_puddles sp) p xs" "distinct xs"
  shows "kill_list p sp = Some (sp \<lparr> sp_puddles := (sp_puddles sp) |` (- set xs) \<rparr>)"
  using assms
proof (induction xs arbitrary: p sp)
  case Nil
  then show ?case by (subst kill_list.simps) (simp add: restrict_map_def)
next
  case (Cons x xs)
  then obtain d where d: "p = x" "x \<noteq> NULL" "sp_puddles sp x = Some d" "pchain (sp_puddles sp) (pd_next d) xs" by auto
  let ?sp = "sp \<lparr> sp_puddles := (sp_puddles sp)(x := None) \<rparr>"
  have e: "(sp_puddles sp)(x := None) |` (- set xs) = (sp_puddles sp) |` (- set (x # xs))" by (auto simp: restrict_map_def fun_eq_iff)
  have "pchain (sp_puddles ?sp) (pd_next d) xs" using d(4) Cons.prems(2) by (simp del: fun_upd_apply)
  then have "kill_list (pd_next d) ?sp = Some (sp \<lparr> sp_puddles := (sp_puddles sp) |` (- set (x # xs)) \<rparr>)"
    using Cons.IH [of ?sp "pd_next d"] Cons.prems(2) unfolding e [symmetric] by (simp del: fun_upd_apply)
  then show ?case using d(1-3) by (subst kill_list.simps) (simp add: puddle_kill_def)
qed

lemma sp_clear_spec:
  assumes inv: "sp_inv sp ps qs []"
  shows "\<exists>sp'. sp_clear sp = Some sp' \<and> sp_inv sp' [] [] [] \<and> sp_count sp' = 0 \<and> currentSize sp' = 0 \<and> sp_puddles sp' = Map.empty \<and> growSize sp' = growSize sp"
proof -
  have c: "pchain (sp_puddles sp) (sp_list sp) ps" "pchain (sp_puddles sp) (previousList sp) qs" "distinct ps" "distinct qs"
      "set ps \<inter> set qs = {}" "dom (sp_puddles sp) = set ps \<union> set qs" using inv by (simp_all add: sp_inv_defs)
  let ?h = "sp_puddles sp |` (- set ps)"
  have c2: "pchain ?h (previousList sp) qs" using c(2,5) by (subst pchain_cong [of _ _ "sp_puddles sp"]) (auto simp: restrict_map_def)
  have e: "?h |` (- set qs) = Map.empty" using c(6) by (auto simp: restrict_map_def fun_eq_iff dom_def)
  have k: "kill_list (sp_list sp) (sp \<lparr> currentSize := 0 \<rparr>) = Some (sp \<lparr> currentSize := 0, sp_puddles := ?h \<rparr>)"
    using kill_list_spec [of "sp \<lparr> currentSize := 0 \<rparr>" "sp_list sp" ps] c by simp
  have k2: "kill_list (previousList sp) (sp \<lparr> currentSize := 0, sp_puddles := ?h \<rparr>) = Some (sp \<lparr> currentSize := 0, sp_puddles := Map.empty \<rparr>)"
    using kill_list_spec [of "sp \<lparr> currentSize := 0, sp_puddles := ?h \<rparr>" "previousList sp" qs] c2 c(4) e by simp
  show ?thesis using inv k k2 by (simp add: sp_clear_def sp_inv_defs puddles_ok_def)
qed

section \<open>Handing out the puddles\<close>

lemma startProcessingSublist_spec:
  assumes inv: "sp_inv sp ps [] rs"
  defines "sp' \<equiv> sp \<lparr> previousList := sp_list sp, sp_list := NULL, allocPuddle := NULL \<rparr>"
  shows "startProcessingSublist sp = Some sp'" "sp_inv sp' [] ps rs"
proof -
  have "previousList sp = NULL" using inv by (simp add: sp_inv_defs)
  then show "startProcessingSublist sp = Some sp'"
  proof (cases "ps = []")
    case True
    then show ?thesis using inv \<open>previousList sp = NULL\<close> by (simp add: startProcessingSublist_def sp_inv_defs sp'_def)
  next
    case False
    then obtain d where d: "allocPuddle sp = last ps" "last ps \<noteq> NULL" "sp_puddles sp (last ps) = Some d" "pd_next d = NULL"
      using sp_inv_alloc [OF inv] by blast
    have "(sp_puddles sp)(last ps \<mapsto> d \<lparr> pd_next := NULL \<rparr>) = sp_puddles sp" using d(3,4) by (intro fun_upd_idem) simp
    then show ?thesis using d \<open>previousList sp = NULL\<close>
      by (simp add: startProcessingSublist_def puddle_setNext_def upd_puddle_def sp'_def Let_def)
  qed
  show "sp_inv sp' [] ps rs" using inv by (auto simp: sp_inv_defs sp'_def)
qed

text \<open>A thread returns a puddle: it becomes the first of the list.\<close>

lemma return_puddle_spec:
  assumes inv: "sp_inv sp ps qs (r # rs)"
  shows "\<exists>sp'. return_puddle r sp = Some sp' \<and> sp_inv sp' (r # ps) qs rs \<and> step_to sp (ps @ qs @ r # rs) sp' ((r # ps) @ qs @ rs)"
proof -
  have ok: "puddles_ok (sp_puddles sp) (sp_mem sp)" and ch: "chains_ok sp ps qs (r # rs)" and lim: "limits_ok sp (ps @ qs @ r # rs)"
    using inv by (simp_all add: sp_inv_def)
  obtain d where d: "r \<noteq> NULL" "sp_puddles sp r = Some d" "pd_next d = NULL" using ch by (auto simp: chains_ok_def)
  define h where "h = (sp_puddles sp)(r \<mapsto> d \<lparr> pd_next := sp_list sp \<rparr>)"
  define sp' where "sp' = sp \<lparr> sp_puddles := h, sp_list := r, allocPuddle := (if ps = [] then r else allocPuddle sp) \<rparr>"
  have h: "puddles_ok h (sp_mem sp)" unfolding h_def by (rule relink [OF ok d(2)])
  have el: "elems h (sp_mem sp) xs = pool_elems sp xs" "pd_total h xs = pd_total (sp_puddles sp) xs" for xs
    unfolding h_def by (rule relink_elems [where d = d], rule d(2), rule relink_total [where d = d], rule d(2))
  have a: "ps = [] \<longleftrightarrow> allocPuddle sp = NULL" "ps = [] \<Longrightarrow> sp_list sp = NULL" using sp_inv_alloc(1,2) [OF inv] sp_inv_empty inv by fastforce+
  have run: "return_puddle r sp = Some sp'"
    using d a by (auto simp: return_puddle_def puddle_setNext_def upd_puddle_def sp'_def h_def)
  have "chains_ok sp' (r # ps) qs rs" using ch d a by (auto simp: chains_ok_def sp'_def h_def)
  moreover have "limits_ok sp' ((r # ps) @ qs @ rs)"
    using lim el(2) by (auto simp: limits_ok_def sp'_def simp del: pd_total_simps(2)) (simp add: algebra_simps)
  ultimately have "sp_inv sp' (r # ps) qs rs" using h by (simp add: sp_inv_def sp'_def)
  moreover have "step_to sp (ps @ qs @ r # rs) sp' ((r # ps) @ qs @ rs)"
    using el(1) [of "(r # ps) @ qs @ rs"] by (simp add: step_to_def sp'_def same_config_def ac_simps)
  ultimately show ?thesis using run by blast
qed

text \<open>A thread takes the first of the puddles that are still to be processed.\<close>

definition next_previous :: "SublistPool \<Rightarrow> (addr \<times> SublistPool) option" where
  "next_previous sp =
     (let result = previousList sp
      in if result = NULL then Some (NULL, sp)
         else do { r \<leftarrow> sp_puddles sp result;
                   sp \<leftarrow> puddle_setNext result NULL (sp \<lparr> previousList := pd_next r \<rparr>);
                   Some (result, sp) })"

lemma popPreviousPuddle_eq: "popPreviousPuddle r sp = do { sp \<leftarrow> return_puddle r sp; next_previous sp }"
  by (simp add: popPreviousPuddle_def next_previous_def)

lemma next_previous_none: "sp_inv sp ps [] rs \<Longrightarrow> next_previous sp = Some (NULL, sp)"
  by (simp add: next_previous_def sp_inv_defs)

lemma next_previous_spec:
  assumes inv: "sp_inv sp ps (q # qs) rs"
  shows "\<exists>sp'. next_previous sp = Some (q, sp') \<and> sp_inv sp' ps qs (q # rs) \<and> pool_elems sp' (ps @ qs @ q # rs) = pool_elems sp (ps @ (q # qs) @ rs) \<and>
    sp_count sp' = sp_count sp \<and> growSize sp' = growSize sp \<and> q \<noteq> NULL"
proof -
  have ok: "puddles_ok (sp_puddles sp) (sp_mem sp)" and ch: "chains_ok sp ps (q # qs) rs" and lim: "limits_ok sp (ps @ (q # qs) @ rs)"
    using inv by (simp_all add: sp_inv_def)
  obtain d where d: "q \<noteq> NULL" "previousList sp = q" "sp_puddles sp q = Some d" "pchain (sp_puddles sp) (pd_next d) qs" using ch by (auto simp: chains_ok_def)
  define h where "h = (sp_puddles sp)(q \<mapsto> d \<lparr> pd_next := NULL \<rparr>)"
  define sp' where "sp' = sp \<lparr> previousList := pd_next d, sp_puddles := h \<rparr>"
  have h: "puddles_ok h (sp_mem sp)" unfolding h_def by (rule relink [OF ok d(3)])
  have el: "elems h (sp_mem sp) xs = pool_elems sp xs" "pd_total h xs = pd_total (sp_puddles sp) xs" for xs
    unfolding h_def by (rule relink_elems [where d = d], rule d(3), rule relink_total [where d = d], rule d(3))
  have run: "next_previous sp = Some (q, sp')" using d by (simp add: next_previous_def puddle_setNext_def upd_puddle_def sp'_def h_def)
  have "chains_ok sp' ps qs (q # rs)" using ch d by (auto simp: chains_ok_def sp'_def h_def)
  moreover have "limits_ok sp' (ps @ qs @ q # rs)"
    using lim el(2) by (auto simp: limits_ok_def sp'_def simp del: pd_total_simps(2)) (simp add: algebra_simps)
  ultimately have "sp_inv sp' ps qs (q # rs)" using h by (simp add: sp_inv_def sp'_def)
  moreover have "pool_elems sp' (ps @ qs @ q # rs) = pool_elems sp (ps @ (q # qs) @ rs)"
    using el(1) [of "ps @ qs @ q # rs"] by (simp add: sp'_def ac_simps)
  ultimately show ?thesis using run d(1) by (intro exI [of _ sp']) (simp add: sp'_def)
qed

lemma sp_inv_perm: "mset rs = mset rs' \<Longrightarrow> sp_inv sp ps qs rs \<Longrightarrow> sp_inv sp ps qs rs'"
proof -
  assume m: "mset rs = mset rs'" and i: "sp_inv sp ps qs rs"
  have "pd_total (sp_puddles sp) rs = pd_total (sp_puddles sp) rs'" unfolding pd_total_def using m by (metis mset_map sum_mset_sum_list)
  moreover have "set rs = set rs'" "distinct rs = distinct rs'" using m by (metis mset_eq_setD, metis mset_eq_imp_distinct_iff)
  ultimately show ?thesis using i by (simp add: sp_inv_defs)
qed

end
