(* ===== verification/Sublist_Prune.thy ===== *)
theory Sublist_Prune
  imports Sublist_Process
begin

text \<open>
  The slot iterator in the walk that prunes the remembered set: a slot that is dropped is replaced
  by the last slot of the puddle, which is then visited in its place.
\<close>

section \<open>One puddle\<close>

definition keeps :: "uword \<Rightarrow> bool" where
  "keeps v \<longleftrightarrow> v \<noteq> 0 \<and> v AND DEFERRED_RS_REMOVE_FLAG = 0"

definition dropped :: "uword multiset \<Rightarrow> nat" where
  "dropped M = size {#v \<in># M. \<not> keeps v#}"

lemma dropped_add [simp]: "dropped (M + N) = dropped M + dropped N" "dropped {#} = 0"
  by (simp_all add: dropped_def)

lemma dropped_size: "dropped M + size {#v \<in># M. keeps v#} = size M"
  unfolding dropped_def by (metis add.commute multiset_partition size_union)

text \<open>Dropping the slot at \<open>s\<close>: the last slot takes its place.\<close>

definition swap_out :: "addr \<Rightarrow> SublistPuddle \<Rightarrow> mem \<Rightarrow> mem" where
  "swap_out s d m = (m(s := m (listCurrent d - 8)))(listCurrent d - 8 := 0)"

lemma slot_addrs_first:
  assumes "8 dvd s" "8 dvd c" "s < c"
  shows "s + 8 \<le> c" "slot_addrs s c = s # slot_addrs (s + 8) c" "slot_addrs s c = slot_addrs s (c - 8) @ [c - 8]" "8 dvd c - 8" "s \<le> c - 8"
proof -
  show a: "s + 8 \<le> c" using aligned_gap [of s c] assms by (simp add: dvd_eq_mod_eq_0)
  show "slot_addrs s c = s # slot_addrs (s + 8) c" using slot_addrs_split [of s "s + 8" c] a assms(1) by simp
  show d: "8 dvd c - 8" using assms(2) by simp
  show "s \<le> c - 8" using a by simp
  have "slot_addrs (c - 8) c = [c - 8]" using slot_addrs_one [of "c - 8"] a by simp
  then show "slot_addrs s c = slot_addrs s (c - 8) @ [c - 8]" using slot_addrs_split [OF assms(1) d, of c] a by simp
qed

lemma filled_swap_out:
  assumes "8 dvd s" "8 dvd listCurrent d" "s < listCurrent d"
  shows "filled (swap_out s d m) (slot_addrs s (listCurrent d - 8)) = filled m (slot_addrs (s + 8) (listCurrent d))"
proof -
  let ?c = "listCurrent d"
  note f = slot_addrs_first [OF assms]
  show ?thesis
  proof (cases "s = ?c - 8")
    case True
    then show ?thesis using f(1) by simp
  next
    case False
    then have lt: "s < ?c - 8" using f(5) by simp
    have lt2: "s + 8 < ?c" using lt by simp
    note g = slot_addrs_first [OF assms(1) f(4) lt]
    have s8: "8 dvd s + 8" using assms(1) by simp
    note i = slot_addrs_first [OF s8 assms(2) lt2]
    have "filled (swap_out s d m) (slot_addrs (s + 8) (?c - 8)) = filled m (slot_addrs (s + 8) (?c - 8))"
      by (rule filled_cong) (auto simp: swap_out_def dest!: slot_addrs_bounds)
    then show ?thesis using lt by (simp add: g(2) i(3) swap_out_def [of s d m] ac_simps)
  qed
qed

lemma swap_out_ok:
  assumes ok: "puddles_ok h m" and p: "h p = Some d" and s: "listBase d \<le> s" "s < listCurrent d" "8 dvd s"
  shows "puddles_ok (h(p \<mapsto> d \<lparr> listCurrent := listCurrent d - 8 \<rparr>)) (swap_out s d m)"
proof -
  note f = puddle_ok_facts [OF puddles_okD(1) [OF ok p]] and g = slot_addrs_first [OF s(3) puddle_ok_facts(7) [OF puddles_okD(1) [OF ok p]] s(2)]
  show ?thesis
  proof (rule puddles_ok_upd [OF ok p])
    show "swap_out s d m a = 0" if a: "8 dvd a" "listCurrent (d \<lparr> listCurrent := listCurrent d - 8 \<rparr>) \<le> a" "a < listTop d" for a
    proof (cases "a = listCurrent d - 8")
      case False
      then have "listCurrent d - 8 < a" using a(2) by simp
      then have "listCurrent d \<le> a" using slot_addrs_first(1) [OF g(4) a(1)] g(1) by simp
      then show ?thesis using puddles_okD(2) [OF ok p a(1) _ a(3)] False s(2) by (simp add: swap_out_def)
    qed (simp add: swap_out_def)
    show "swap_out s d m a = 0" if "\<not> (listBase d \<le> a \<and> a < listTop d)" "m a = 0" for a
      using that s(1,2) f(4) by (auto simp: swap_out_def)
  qed (use f g s in \<open>simp_all add: same_place_def\<close>)
qed

definition prune_result :: "addr \<Rightarrow> SublistPuddle \<Rightarrow> SublistPool \<Rightarrow> nat \<Rightarrow> uword multiset \<Rightarrow> SublistPool \<Rightarrow> bool" where
  "prune_result p d sp n M sp' \<longleftrightarrow> (\<exists>c m. sp' = decrementCount n (sp \<lparr> sp_puddles := (sp_puddles sp)(p \<mapsto> d \<lparr> listCurrent := c \<rparr>), sp_mem := m \<rparr>) \<and>
     listBase d \<le> c \<and> c \<le> listTop d \<and> 8 dvd c \<and> puddles_ok ((sp_puddles sp)(p \<mapsto> d \<lparr> listCurrent := c \<rparr>)) m \<and>
     (\<forall>a. \<not> (listBase d \<le> a \<and> a < listTop d) \<longrightarrow> m a = sp_mem sp a) \<and> filled m (slot_addrs (listBase d) c) = M)"

lemma nextSlot_eq:
  assumes "sp_puddles sp (si_puddle it) = Some d" "returnedFilledSlot it \<Longrightarrow> sp_mem sp (scanPtr it - 8) \<noteq> 0 \<and> 8 \<le> scanPtr it"
    "scanPtr it < UMAX"
  shows "nextSlot it sp = Some (if scanPtr it < listCurrent d
    then (scanPtr it, it \<lparr> returnedFilledSlot := (sp_mem sp (scanPtr it) \<noteq> 0), scanPtr := uadd (scanPtr it) 8 \<rparr>, sp)
    else (NULL, it, decrementCount (removedCount it) sp))"
proof -
  have "\<not> (returnedFilledSlot it \<and> sp_mem sp (usub (scanPtr it) 8) = 0)" using assms(2,3) by (auto simp: usub_exact)
  then have "(if returnedFilledSlot it \<and> sp_mem sp (usub (scanPtr it) 8) = 0 then it \<lparr> removedCount := uadd (removedCount it) 1 \<rparr> else it) = it" by (rule if_not_P)
  then show ?thesis unfolding nextSlot_def using assms(1) by (simp only: Let_def) simp
qed

lemma prune_slots_spec:
  assumes "puddles_ok (sp_puddles sp) (sp_mem sp)" "sp_puddles sp p = Some d" "si_puddle it = p" "scanPtr it = s"
    "listBase d \<le> s" "s \<le> listCurrent d" "8 dvd s" "returnedFilledSlot it \<Longrightarrow> listBase d < s \<and> sp_mem sp (s - 8) \<noteq> 0"
    "removedCount it + (listCurrent d - s) < UMAX"
  shows "\<exists>sp'. prune_slots it sp = Some sp' \<and>
    prune_result p d sp (removedCount it + dropped (filled (sp_mem sp) (slot_addrs s (listCurrent d))))
      (filled (sp_mem sp) (slot_addrs (listBase d) s) + {#v \<in># filled (sp_mem sp) (slot_addrs s (listCurrent d)). keeps v#}) sp'"
  using assms
proof (induction "listCurrent d - s" arbitrary: sp d it s rule: less_induct)
  case less
  let ?c = "listCurrent d" and ?m = "sp_mem sp" and ?h = "sp_puddles sp"
  note f = puddle_ok_facts [OF puddles_okD(1) [OF less.prems(1,2)]]
  have s8: "8 \<le> s" "s < UMAX" using less.prems(5,6) f by (auto simp: puddle_ok_def dest!: dvd_imp_le)
  have nx: "nextSlot it sp = Some (if s < ?c then (s, it \<lparr> returnedFilledSlot := (?m s \<noteq> 0), scanPtr := uadd s 8 \<rparr>, sp)
      else (NULL, it, decrementCount (removedCount it) sp))"
    using nextSlot_eq [of sp it d] less.prems(2-4,8) s8 by simp
  show ?case
  proof (cases "s < ?c")
    case False
    then have e: "s = ?c" using less.prems(6) by simp
    have "prune_slots it sp = Some (decrementCount (removedCount it) sp)" by (subst prune_slots.simps) (simp add: nx False)
    moreover have "prune_result p d sp (removedCount it) (filled ?m (slot_addrs (listBase d) s)) (decrementCount (removedCount it) sp)"
      unfolding prune_result_def using less.prems(1,2) f e by (intro exI [of _ ?c] exI [of _ ?m]) (simp add: fun_upd_idem)
    ultimately show ?thesis using e by simp
  next
    case True
    note g = slot_addrs_first [OF less.prems(7) f(7) True]
    have u: "uadd s 8 = s + 8" using g(1) f(4,9) by (intro uadd_exact) simp
    show ?thesis
    proof (cases "keeps (?m s)")
      case k: True
      define it' where "it' = it \<lparr> returnedFilledSlot := True, scanPtr := s + 8 \<rparr>"
      have pr: "prune_slots it sp = prune_slots it' sp"
        using k True s8 u by (subst prune_slots.simps) (simp add: nx keeps_def it'_def)
      have sp8: "slot_addrs (listBase d) (s + 8) = slot_addrs (listBase d) s @ [s]"
        using slot_addrs_split [OF f(6) less.prems(7,5), of "s + 8"] by simp
      have "?c - (s + 8) < ?c - s" using g(1) True by simp
      from less.hyps [OF this less.prems(1,2), of it'] k less.prems(3,5,7,9) g(1)
      show ?thesis unfolding pr g(2) sp8 by (auto simp: it'_def keeps_def dropped_def ac_simps)
    next
      case k: False
      let ?d = "d \<lparr> listCurrent := ?c - 8 \<rparr>"
      define r where "r = (if ?m s \<noteq> 0 then 1 else 0 :: nat)"
      define it' where "it' = it \<lparr> returnedFilledSlot := False, scanPtr := s, removedCount := removedCount it + r \<rparr>"
      define sp1 where "sp1 = sp \<lparr> sp_puddles := ?h(p \<mapsto> ?d), sp_mem := swap_out s d ?m \<rparr>"
      have u2: "usub ?c 8 = ?c - 8" "usub (s + 8) 8 = s" using g(1) f(4,9) by (auto simp: usub_exact)
      have u3: "uadd (removedCount it) 1 = removedCount it + 1" using less.prems(9) g(1) by (intro uadd_exact) simp
      have rm: "removeSlot (it \<lparr> returnedFilledSlot := (?m s \<noteq> 0), scanPtr := s + 8 \<rparr>) sp = Some (it', sp1)"
        using less.prems(2,3) u2 u3 by (simp add: removeSlot_def Let_def upd_puddle_def it'_def sp1_def r_def swap_out_def)
      have kb: "?m s = 0 \<or> ?m s AND DEFERRED_RS_REMOVE_FLAG \<noteq> 0" using k by (auto simp: keeps_def)
      have pr: "prune_slots it sp = prune_slots it' sp1"
        using kb True s8 by (subst prune_slots.simps) (simp add: nx u rm)
      have ok1: "puddles_ok (sp_puddles sp1) (sp_mem sp1)" "sp_puddles sp1 p = Some ?d"
        using swap_out_ok [OF less.prems(1,2,5) True less.prems(7)] by (simp_all add: sp1_def)
      have ms: "listCurrent ?d - s < ?c - s" using g(1) True by simp
      have pre: "filled (sp_mem sp1) (slot_addrs (listBase d) s) = filled ?m (slot_addrs (listBase d) s)"
        by (rule filled_cong) (use g(5) in \<open>auto simp: sp1_def swap_out_def dest!: slot_addrs_bounds\<close>)
      have rest: "filled (sp_mem sp1) (slot_addrs s (?c - 8)) = filled ?m (slot_addrs (s + 8) ?c)"
        using filled_swap_out [OF less.prems(7) f(7) True] by (simp add: sp1_def)
      obtain sp' where ih: "prune_slots it' sp1 = Some sp'"
          "prune_result p ?d sp1 (removedCount it + r + dropped (filled ?m (slot_addrs (s + 8) ?c)))
            (filled ?m (slot_addrs (listBase d) s) + {#v \<in># filled ?m (slot_addrs (s + 8) ?c). keeps v#}) sp'"
      proof -
        have "r \<le> 8" by (simp add: r_def)
        then have "removedCount it' + (listCurrent ?d - s) < UMAX" using less.prems(9) g(1) by (simp add: it'_def)
        with less.hyps [OF ms ok1, of it'] less.prems(3,5,7) g(5) pre rest show thesis using that by (auto simp: it'_def)
      qed
      have n: "removedCount it + dropped (filled ?m (slot_addrs s ?c)) = removedCount it + r + dropped (filled ?m (slot_addrs (s + 8) ?c))"
        "{#v \<in># filled ?m (slot_addrs s ?c). keeps v#} = {#v \<in># filled ?m (slot_addrs (s + 8) ?c). keeps v#}"
        using k by (auto simp: g(2) r_def dropped_def)
      have "prune_result p d sp j M sp'" if "prune_result p ?d sp1 j M sp'" for j M
      proof -
        have "sp_mem sp1 a = ?m a" if "\<not> (listBase d \<le> a \<and> a < listTop d)" for a
          using that True less.prems(5) f(4) g(5) by (auto simp: sp1_def swap_out_def)
        then show ?thesis using that unfolding prune_result_def by (auto simp: sp1_def)
      qed
      then show ?thesis using ih unfolding pr n by blast
    qed
  qed
qed

section \<open>The whole list\<close>

lemma decrement_mod: "n < UMAX \<Longrightarrow> (sp_count (decrementCount n sp) + n) mod UMAX = sp_count sp mod UMAX"
  by (simp add: decrementCount_def usub_def mod_simps)

definition pruneable :: "SublistPool \<Rightarrow> SublistPool \<Rightarrow> addr list \<Rightarrow> bool" where
  "pruneable sp sp' xs \<longleftrightarrow> (\<forall>ys. set ys \<subseteq> dom (sp_puddles sp) \<longrightarrow> set ys \<inter> set xs = {} \<longrightarrow> pool_elems sp' ys = pool_elems sp ys) \<and>
     (\<forall>y. map_option pd_next (sp_puddles sp' y) = map_option pd_next (sp_puddles sp y)) \<and> sp_list sp' = sp_list sp \<and> growSize sp' = growSize sp"

lemma prune_one:
  assumes inv: "sp_inv sp ps qs rs" and x: "x \<in> set (ps @ qs @ rs)"
  shows "\<exists>it sp'. slot_iterator x sp = Some it \<and> prune_slots it sp = Some sp' \<and> sp_inv sp' ps qs rs \<and> pruneable sp sp' [x] \<and>
    pool_elems sp' [x] = {#v \<in># pool_elems sp [x]. keeps v#} \<and>
    (sp_count sp' + dropped (pool_elems sp [x])) mod UMAX = sp_count sp mod UMAX"
proof -
  note ok = sp_inv_puddles [OF inv]
  have dm: "dom (sp_puddles sp) = set (ps @ qs @ rs)" using inv by (simp add: sp_inv_defs)
  then obtain d where d: "sp_puddles sp x = Some d" using x by blast
  note f = puddle_ok_facts [OF puddles_okD(1) [OF ok d]]
  define it where "it = \<lparr> si_puddle = x, scanPtr = listBase d, removedCount = 0, returnedFilledSlot = False \<rparr>"
  have si: "slot_iterator x sp = Some it" using d by (simp add: slot_iterator_def it_def)
  have "\<exists>sp'. prune_slots it sp = Some sp' \<and> prune_result x d sp (dropped (pd_elems (sp_mem sp) d)) {#v \<in># pd_elems (sp_mem sp) d. keeps v#} sp'"
    using prune_slots_spec [OF ok d, of it "listBase d"] f by (auto simp: it_def pd_elems_def)
  then obtain sp' c m where pr: "prune_slots it sp = Some sp'"
    and sp': "sp' = decrementCount (dropped (pd_elems (sp_mem sp) d)) (sp \<lparr> sp_puddles := (sp_puddles sp)(x \<mapsto> d \<lparr> listCurrent := c \<rparr>), sp_mem := m \<rparr>)"
    and c: "puddles_ok ((sp_puddles sp)(x \<mapsto> d \<lparr> listCurrent := c \<rparr>)) m" "\<And>a. \<not> (listBase d \<le> a \<and> a < listTop d) \<Longrightarrow> m a = sp_mem sp a"
      "filled m (slot_addrs (listBase d) c) = {#v \<in># pd_elems (sp_mem sp) d. keeps v#}"
    unfolding prune_result_def by blast
  have fl: "sp_puddles sp' = (sp_puddles sp)(x \<mapsto> d \<lparr> listCurrent := c \<rparr>)" "sp_mem sp' = m" "sp_list sp' = sp_list sp" "previousList sp' = previousList sp"
    "allocPuddle sp' = allocPuddle sp" "growSize sp' = growSize sp" "maxSize sp' = maxSize sp" "currentSize sp' = currentSize sp"
    by (simp_all add: sp' decrementCount_def)
  have nxt: "map_option pd_next (sp_puddles sp' y) = map_option pd_next (sp_puddles sp y)" for y using d by (simp add: fl)
  have ch: "pchain (sp_puddles sp') q ys = pchain (sp_puddles sp) q ys" for q ys by (rule pchain_cong) (simp add: nxt)
  have tot: "pd_total (sp_puddles sp') ys = pd_total (sp_puddles sp) ys" for ys by (rule pd_total_cong) (simp add: fl d)
  have rs: "\<exists>e. sp_puddles sp' r = Some e \<and> pd_next e = NULL" if "r \<in> set rs" for r
  proof -
    have "\<exists>e. sp_puddles sp r = Some e \<and> pd_next e = NULL" using inv that by (auto simp: sp_inv_defs)
    then show ?thesis using nxt [of r] by auto
  qed
  have "chains_ok sp' ps qs rs" using inv rs dm d unfolding sp_inv_def chains_ok_def fl(3-5) ch by (auto simp: fl(1))
  moreover have "limits_ok sp' (ps @ qs @ rs)" using inv unfolding sp_inv_def limits_ok_def fl(6-8) tot by simp
  ultimately have "sp_inv sp' ps qs rs" using c(1) by (simp add: sp_inv_def fl)
  moreover have "pruneable sp sp' [x]"
    unfolding pruneable_def using elems_frame [OF ok d, of _ m "Some (d \<lparr> listCurrent := c \<rparr>)"] c(2) nxt fl by auto
  moreover have "pool_elems sp' [x] = {#v \<in># pool_elems sp [x]. keeps v#}" using c(3) d by (simp add: fl pd_elems_def)
  moreover have "(sp_count sp' + dropped (pool_elems sp [x])) mod UMAX = sp_count sp mod UMAX"
  proof -
    have "dropped (pd_elems (sp_mem sp) d) \<le> length (slot_addrs (listBase d) (listCurrent d))"
      using dropped_size [of "pd_elems (sp_mem sp) d"] size_filter_mset_lesseq
      by (metis (no_types, lifting) filled_def le_add1 le_trans pd_elems_def size_image_mset size_mset)
    also have "\<dots> < UMAX" using f(3,4,9) by (simp add: slot_addrs_def)
    finally show ?thesis using decrement_mod [of "dropped (pd_elems (sp_mem sp) d)"] d by (simp add: sp')
  qed
  ultimately show ?thesis using si pr by blast
qed

text \<open>The elements left when the units that \<open>handle\<close> selects are pruned.\<close>

primrec pruned_elems :: "(nat \<Rightarrow> bool) \<Rightarrow> nat \<Rightarrow> SublistPool \<Rightarrow> addr list \<Rightarrow> uword multiset" where
  "pruned_elems handle k sp [] = {#}"
| "pruned_elems handle k sp (x # xs) =
     (if handle k then {#v \<in># pool_elems sp [x]. keeps v#} else pool_elems sp [x]) + pruned_elems handle (k + 1) sp xs"

lemma pruned_elems_cong:
  "(\<And>x. x \<in> set xs \<Longrightarrow> pool_elems sp' [x] = pool_elems sp [x]) \<Longrightarrow> pruned_elems handle k sp' xs = pruned_elems handle k sp xs"
  by (induction xs arbitrary: k) auto

lemma pruned_elems_size: "size (pruned_elems handle k sp xs) \<le> size (pool_elems sp xs)"
proof (induction xs arbitrary: k)
  case (Cons x xs)
  then show ?case using size_filter_mset_lesseq [of keeps "pool_elems sp [x]"] by (simp add: add_mono)
qed simp

lemma prune_puddles_spec:
  assumes "sp_inv sp ps qs rs" "nextList sp cur = Some y" "pchain (sp_puddles sp) y xs" "set xs \<subseteq> set ps" "distinct xs"
  shows "\<exists>sp'. prune_puddles handle k cur sp = Some sp' \<and> sp_inv sp' ps qs rs \<and> pruneable sp sp' xs \<and>
    pool_elems sp' xs = pruned_elems handle k sp xs \<and>
    (sp_count sp' + (size (pool_elems sp xs) - size (pruned_elems handle k sp xs))) mod UMAX = sp_count sp mod UMAX"
  using assms
proof (induction xs arbitrary: sp cur y k)
  case Nil
  then have "y = NULL" by simp
  then show ?case using Nil by (subst prune_puddles.simps) (simp add: pruneable_def)
next
  case (Cons x xs)
  have x: "y = x" "x \<noteq> NULL" "x \<in> set (ps @ qs @ rs)" "x \<notin> set xs" "distinct xs" "set xs \<subseteq> set ps" using Cons.prems by auto
  obtain d where d: "sp_puddles sp x = Some d" "pchain (sp_puddles sp) (pd_next d) xs" using Cons.prems(3) by auto
  obtain sp1 where s1: "(if handle k then do { it \<leftarrow> slot_iterator x sp; prune_slots it sp } else Some sp) = Some sp1"
    "sp_inv sp1 ps qs rs" "pruneable sp sp1 [x]" "pool_elems sp1 [x] = (if handle k then {#v \<in># pool_elems sp [x]. keeps v#} else pool_elems sp [x])"
    "(sp_count sp1 + (if handle k then dropped (pool_elems sp [x]) else 0)) mod UMAX = sp_count sp mod UMAX"
  proof (cases "handle k")
    case True
    then show thesis using prune_one [OF Cons.prems(1) x(3)] that by auto
  next
    case False
    then show thesis using that [of sp] Cons.prems(1) by (simp add: pruneable_def)
  qed
  have nx: "map_option pd_next (sp_puddles sp1 z) = map_option pd_next (sp_puddles sp z)" for z using s1(3) by (simp add: pruneable_def)
  have n1: "nextList sp1 x = Some (pd_next d)" using nx [of x] d(1) x(2) by (simp add: nextList_def)
  have c1: "pchain (sp_puddles sp1) (pd_next d) xs" using d(2) nx by (subst pchain_cong [of _ _ "sp_puddles sp"]) auto
  obtain sp' where ih: "prune_puddles handle (k + 1) x sp1 = Some sp'" "sp_inv sp' ps qs rs" "pruneable sp1 sp' xs"
      "pool_elems sp' xs = pruned_elems handle (k + 1) sp1 xs"
      "(sp_count sp' + (size (pool_elems sp1 xs) - size (pruned_elems handle (k + 1) sp1 xs))) mod UMAX = sp_count sp1 mod UMAX"
    using Cons.IH [OF s1(2) n1 c1 x(6,5)] by blast
  have dm: "dom (sp_puddles sp) = set (ps @ qs @ rs)" "dom (sp_puddles sp1) = set (ps @ qs @ rs)" using Cons.prems(1) s1(2) by (simp_all add: sp_inv_defs)
  have keep1: "pool_elems sp1 zs = pool_elems sp zs" if "set zs \<subseteq> set (ps @ qs @ rs)" "x \<notin> set zs" for zs
    using s1(3) that dm by (auto simp: pruneable_def)
  have pe: "pruned_elems handle (k + 1) sp1 xs = pruned_elems handle (k + 1) sp xs"
    by (rule pruned_elems_cong, rule keep1) (use x in auto)
  have xs1: "pool_elems sp1 xs = pool_elems sp xs" using x by (intro keep1) auto
  have xx: "pool_elems sp' [x] = pool_elems sp1 [x]"
  proof -
    have "set [x] \<subseteq> dom (sp_puddles sp1)" "set [x] \<inter> set xs = {}" using x(3,4) dm(2) by auto
    then show ?thesis using ih(3) unfolding pruneable_def by blast
  qed
  have "prune_puddles handle k cur sp = Some sp'" using Cons.prems(2) x(1,2) s1(1) ih(1) by (subst prune_puddles.simps) simp
  moreover have "pruneable sp sp' (x # xs)"
    using s1(3) ih(3) dm unfolding pruneable_def by (auto simp: Int_insert_right)
  moreover have "pool_elems sp' (x # xs) = pruned_elems handle k sp (x # xs)"
    using xx s1(4) ih(4) pe by simp
  moreover have "(sp_count sp' + (size (pool_elems sp (x # xs)) - size (pruned_elems handle k sp (x # xs)))) mod UMAX = sp_count sp mod UMAX"
  proof -
    define a b where "a = (if handle k then dropped (pool_elems sp [x]) else 0)"
      and "b = size (pool_elems sp xs) - size (pruned_elems handle (k + 1) sp xs)"
    have le: "size (pruned_elems handle (k + 1) sp xs) \<le> size (pool_elems sp xs)" by (rule pruned_elems_size)
    have "size (pool_elems sp (x # xs)) - size (pruned_elems handle k sp (x # xs)) = b + a"
      using dropped_size [of "pool_elems sp [x]"] le by (auto simp: a_def b_def)
    moreover have "(sp_count sp' + (b + a)) mod UMAX = ((sp_count sp' + b) mod UMAX + a) mod UMAX" by (simp add: mod_simps ac_simps)
    moreover have "\<dots> = (sp_count sp1 + a) mod UMAX" using ih(5) unfolding b_def pe xs1 by (metis mod_add_left_eq)
    ultimately show ?thesis using s1(5) by (simp add: a_def)
  qed
  ultimately show ?case using ih(2) by blast
qed

lemma pruned_elems_all: "pruned_elems (\<lambda>_. True) k sp xs = {#v \<in># pool_elems sp xs. keeps v#}"
  by (induction xs arbitrary: k) auto

lemma pruneRememberedSetList_spec:
  assumes inv: "sp_inv sp ps qs rs"
  shows "\<exists>sp'. pruneRememberedSetList handle sp = Some sp' \<and> sp_inv sp' ps qs rs \<and> pool_elems sp' ps = pruned_elems handle 0 sp ps \<and>
    pool_elems sp' (qs @ rs) = pool_elems sp (qs @ rs) \<and> growSize sp' = growSize sp \<and>
    (sp_count sp' + (size (pool_elems sp ps) - size (pruned_elems handle 0 sp ps))) mod UMAX = sp_count sp mod UMAX"
proof -
  have c: "nextList sp NULL = Some (sp_list sp)" "pchain (sp_puddles sp) (sp_list sp) ps" "distinct ps" "dom (sp_puddles sp) = set (ps @ qs @ rs)"
    "set (qs @ rs) \<inter> set ps = {}" using inv by (auto simp: nextList_def sp_inv_defs)
  from prune_puddles_spec [OF inv c(1,2) subset_refl c(3), of handle 0] obtain sp' where
    p: "prune_puddles handle 0 NULL sp = Some sp'" "sp_inv sp' ps qs rs" "pruneable sp sp' ps" "pool_elems sp' ps = pruned_elems handle 0 sp ps"
      "(sp_count sp' + (size (pool_elems sp ps) - size (pruned_elems handle 0 sp ps))) mod UMAX = sp_count sp mod UMAX" by blast
  have "set (qs @ rs) \<subseteq> dom (sp_puddles sp)" using c(4) by auto
  then have "pool_elems sp' (qs @ rs) = pool_elems sp (qs @ rs)" "growSize sp' = growSize sp" using p(3) c(5) unfolding pruneable_def by blast+
  then show ?thesis using p unfolding pruneRememberedSetList_def by blast
qed

end
