(* ===== verification/Sublist_Element.thy ===== *)
theory Sublist_Element
  imports Sublist_Add Sublist_Prune
begin

text \<open>
  \<open>allocateElementNoContention\<close> as the allocation of a fragment of one slot, the hand-out of
  puddles to several threads, and the reachable states of a pool.
\<close>

section \<open>Single elements\<close>

definition one_slot :: SublistFragment where
  "one_slot = \<lparr> fragmentCurrent = NULL, fragmentTop = NULL, fragmentSize = 8, fg_count = 0 \<rparr>"

lemma frag_len_one:
  assumes "puddle_ok p d" "listCurrent d \<noteq> listTop d"
  shows "frag_len 8 d = 8" "listCurrent d < listTop d" "uadd (listCurrent d) 8 = listCurrent d + 8"
proof -
  note f = puddle_ok_facts [OF assms(1)]
  show l: "listCurrent d < listTop d" using f(4) assms(2) by simp
  have "listCurrent d + 8 \<le> listTop d" using aligned_gap [of "listCurrent d" "listTop d"] f(7,8) l by (simp add: dvd_eq_mod_eq_0)
  then show "frag_len 8 d = 8" "uadd (listCurrent d) 8 = listCurrent d + 8" using f(9) by (auto simp: frag_len_def intro!: uadd_exact)
qed

text \<open>What remains of the result when only the address of the slot is returned.\<close>

definition slot_result :: "bool \<times> SublistFragment \<times> SublistPool \<Rightarrow> addr \<times> SublistPool" where
  "slot_result r = (case r of (ok, fr, sp) \<Rightarrow> (if ok then fragmentCurrent fr else NULL, sp))"

lemma puddle_allocateElement_eq:
  assumes "sp_puddles sp p = Some d" "puddle_ok p d"
  shows "puddle_allocateElement p sp =
    Some (if listCurrent d = listTop d then (NULL, sp) else slot_result (bumped p one_slot sp))"
  using frag_len_one [OF assms(2)] assms(1)
  by (auto simp: puddle_allocateElement_def upd_puddle_def slot_result_def bumped_def Let_def one_slot_def)

lemma sp_allocateElement_eq:
  assumes inv: "sp_inv sp ps qs rs" and f: "fresh_block (growSize sp) (sp_puddles sp) blk"
  shows "sp_allocateElement blk sp = Some (slot_result (if has_room sp ps then bumped (last ps) one_slot sp
    else if blk = NULL \<or> puddle_growth sp = 0 then (False, one_slot, sp) else bumped blk one_slot (appended blk sp ps)))"
proof -
  have first: "(if allocPuddle sp \<noteq> NULL then puddle_allocateElement (allocPuddle sp) sp else Some (NULL, sp)) =
      Some (if has_room sp ps then slot_result (bumped (last ps) one_slot sp) else (NULL, sp))"
  proof (cases "ps = []")
    case True
    then show ?thesis using sp_inv_empty inv by (auto simp: has_room_def)
  next
    case False
    then obtain d where d: "sp_puddles sp (last ps) = Some d" "puddle_ok (last ps) d" using sp_inv_alloc [OF inv] by blast
    show ?thesis using sp_inv_alloc(1,2) [OF inv False] False d puddle_allocateElement_eq [OF d] by (simp add: has_room_def puddle_isFull_def)
  qed
  have nz: "fst (slot_result (bumped (last ps) one_slot sp)) \<noteq> NULL" if "has_room sp ps"
  proof -
    have "ps \<noteq> []" using that by (simp add: has_room_def)
    then obtain d where d: "sp_puddles sp (last ps) = Some d" "puddle_ok (last ps) d" using sp_inv_alloc [OF inv] by blast
    show ?thesis using puddle_ok_facts(2,3) [OF d(2)] d(1) by (simp add: slot_result_def bumped_def Let_def)
  qed
  show ?thesis
  proof (cases "has_room sp ps")
    case True
    then show ?thesis unfolding sp_allocateElement_def first using nz by (simp add: case_prod_beta)
  next
    case no: False
    show ?thesis
    proof (cases "blk = NULL \<or> puddle_growth sp = 0")
      case True
      then show ?thesis unfolding sp_allocateElement_def first
        using no alloc_next_NULL [OF inv] createNewPuddle_eq [OF inv f] by (auto simp: slot_result_def)
    next
      case False
      then have b: "blk \<noteq> NULL" "puddle_growth sp \<noteq> 0" by auto
      let ?n = "new_puddle blk (puddle_growth sp)"
      note ap = sp_inv_appended [OF inv f b] and np = new_puddle_total [OF inv f b]
      have e: "puddle_allocateElement blk (appended blk sp ps) = Some (slot_result (bumped blk one_slot (appended blk sp ps)))"
        using puddle_allocateElement_eq [OF ap(2) np(1)] b(2) by simp
      have link: "do { d \<leftarrow> sp_puddles (with_new blk sp) blk;
            sp \<leftarrow> Some ((with_new blk sp) \<lparr> currentSize := uadd (currentSize (with_new blk sp)) (totalSize d) \<rparr>);
            sp \<leftarrow> (if allocPuddle sp \<noteq> NULL then puddle_setNext (allocPuddle sp) blk sp else Some sp);
            sp \<leftarrow> Some (if sp_list sp = NULL then sp \<lparr> sp_list := blk \<rparr> else sp);
            puddle_allocateElement blk (sp \<lparr> allocPuddle := blk \<rparr>) } = puddle_allocateElement blk (appended blk sp ps)"
      proof (cases "ps = []")
        case True
        then show ?thesis using sp_inv_empty inv np(2) by (auto simp: appended_def with_new_def Let_def)
      next
        case False
        then obtain d where d: "allocPuddle sp = last ps" "last ps \<noteq> NULL" "sp_list sp \<noteq> NULL" "sp_puddles sp (last ps) = Some d" "last ps \<noteq> blk"
          using sp_inv_alloc [OF inv] ap(5) by (metis domI)
        then show ?thesis using False np(2)
          by (simp add: appended_def with_new_def Let_def puddle_setNext_def upd_puddle_def fun_upd_twist)
            (rule arg_cong [where f = "puddle_allocateElement blk"], rule SublistPool.equality, simp_all)
      qed
      show ?thesis unfolding sp_allocateElement_def first
        using no b e link alloc_next_NULL [OF inv] createNewPuddle_eq [OF inv f]
        by (cases "allocPuddle sp = NULL"; cases "sp_list sp = NULL") auto
    qed
  qed
qed

lemma allocateElement_is_fragment:
  assumes inv: "sp_inv sp ps qs rs" and f: "fresh_block (growSize sp) (sp_puddles sp) blk"
  shows "sp_allocateElement blk sp = map_option slot_result (sp_allocate blk one_slot sp)"
  unfolding sp_allocateElement_eq [OF inv f] sp_allocate_eq [OF inv f] by simp

section \<open>Threads that process the list\<close>

text \<open>
  The loop of the scavenger's threads: \<open>H t\<close> is the puddle thread \<open>t\<close> works on, which it returns when it
  asks for the next one.  The schedule says which thread asks.
\<close>

primrec pops :: "nat list \<Rightarrow> (nat \<Rightarrow> addr) \<Rightarrow> SublistPool \<Rightarrow> (addr list \<times> (nat \<Rightarrow> addr) \<times> SublistPool) option" where
  "pops [] H sp = Some ([], H, sp)"
| "pops (t # ts) H sp =
     do { (q, sp) \<leftarrow> popPreviousPuddle (H t) sp;
          (qs, H, sp) \<leftarrow> pops ts (H(t := q)) sp;
          Some (q # qs, H, sp) }"

definition held :: "(nat \<Rightarrow> addr) \<Rightarrow> addr list \<Rightarrow> bool" where
  "held H rs \<longleftrightarrow> (\<forall>t. H t \<noteq> NULL \<longrightarrow> H t \<in> set rs) \<and> (\<forall>r \<in> set rs. \<exists>!t. H t = r)"

lemma held_return:
  assumes "held H rs" "H t \<noteq> NULL" "distinct rs" "NULL \<notin> set rs"
  shows "H t \<in> set rs" "held (H(t := NULL)) (remove1 (H t) rs)" "NULL \<notin> set (remove1 (H t) rs)"
proof -
  have h: "\<And>u. H u \<noteq> NULL \<Longrightarrow> H u \<in> set rs" "\<And>r. r \<in> set rs \<Longrightarrow> \<exists>!u. H u = r" using assms(1) unfolding held_def by blast+
  show m: "H t \<in> set rs" by (rule h(1) [OF assms(2)])
  have e: "set (remove1 (H t) rs) = set rs - {H t}" using assms(3) by simp
  show "NULL \<notin> set (remove1 (H t) rs)" using assms(4) e by simp
  have "\<exists>!u. (H(t := NULL)) u = r" if "r \<in> set rs" "r \<noteq> H t" for r
  proof -
    have "r \<noteq> NULL" using that(1) assms(4) by metis
    then show ?thesis using h(2) [OF that(1)] that(2) by (metis fun_upd_apply)
  qed
  moreover have "(H(t := NULL)) u \<in> set rs - {H t}" if "(H(t := NULL)) u \<noteq> NULL" for u
  proof -
    have "u \<noteq> t" "H u \<noteq> NULL" using that by (auto split: if_splits)
    then show ?thesis using h(1) [of u] h(2) [OF m] by auto
  qed
  ultimately show "held (H(t := NULL)) (remove1 (H t) rs)" unfolding held_def e by blast
qed

lemma held_take:
  assumes "held (H(t := NULL)) rs" "x \<notin> set rs" "x \<noteq> NULL" "NULL \<notin> set rs"
  shows "held (H(t := x)) (x # rs)"
proof -
  have h: "\<And>u. (H(t := NULL)) u \<noteq> NULL \<Longrightarrow> (H(t := NULL)) u \<in> set rs" "\<And>r. r \<in> set rs \<Longrightarrow> \<exists>!u. (H(t := NULL)) u = r"
    using assms(1) unfolding held_def by blast+
  have n: "H u \<noteq> x" if "u \<noteq> t" for u using h(1) [of u] that assms(2,3) by auto
  have "\<exists>!u. (H(t := x)) u = r" if "r \<in> set rs" for r
  proof -
    have "r \<noteq> x" "r \<noteq> NULL" using that assms(2,4) by metis+
    then show ?thesis using h(2) [OF that] by (metis fun_upd_apply)
  qed
  moreover have "\<exists>!u. (H(t := x)) u = x" using n by (metis fun_upd_apply)
  moreover have "(H(t := x)) u \<in> set (x # rs)" if "(H(t := x)) u \<noteq> NULL" for u using h(1) [of u] that by (cases "u = t") auto
  ultimately show ?thesis unfolding held_def by auto
qed

lemma elems_perm: "mset xs = mset ys \<Longrightarrow> elems h m xs = elems h m ys"
  unfolding elems_def sum_mset_sum_list [symmetric] mset_map by simp

lemma return_step:
  assumes inv: "sp_inv sp ps qs rs" and h: "held H rs" and nz: "NULL \<notin> set rs"
  shows "\<exists>sp' ps' rs'. return_puddle (H t) sp = Some sp' \<and> sp_inv sp' ps' qs rs' \<and> held (H(t := NULL)) rs' \<and> NULL \<notin> set rs' \<and>
    pool_elems sp' (ps' @ qs @ rs') = pool_elems sp (ps @ qs @ rs)"
proof (cases "H t = NULL")
  case True
  then have e: "H(t := NULL) = H" by (intro fun_upd_idem)
  have "return_puddle (H t) sp = Some sp" using True by (simp add: return_puddle_def)
  then show ?thesis unfolding e using assms by blast
next
  case False
  have di: "distinct rs" using inv by (simp add: sp_inv_defs)
  note hr = held_return [OF h False di nz]
  have p: "mset rs = mset (H t # remove1 (H t) rs)" using hr(1) by simp
  from return_puddle_spec [OF sp_inv_perm [OF p inv]] obtain sp1 where
    s: "return_puddle (H t) sp = Some sp1" "sp_inv sp1 (H t # ps) qs (remove1 (H t) rs)"
      "step_to sp (ps @ qs @ H t # remove1 (H t) rs) sp1 ((H t # ps) @ qs @ remove1 (H t) rs)" by blast
  have "elems (sp_puddles sp) (sp_mem sp) (H t # remove1 (H t) rs) = elems (sp_puddles sp) (sp_mem sp) rs"
    by (rule elems_perm [OF p [symmetric]])
  then have "pool_elems sp1 ((H t # ps) @ qs @ remove1 (H t) rs) = pool_elems sp (ps @ qs @ rs)" using s(3) by (simp add: step_to_def)
  then show ?thesis using s(1,2) hr(2,3) by blast
qed

lemma pop_previous_step:
  assumes inv: "sp_inv sp ps qs rs" and h: "held H rs" and nz: "NULL \<notin> set rs"
  shows "\<exists>q sp' ps' rs'. popPreviousPuddle (H t) sp = Some (q, sp') \<and> q = (case qs of [] \<Rightarrow> NULL | x # _ \<Rightarrow> x) \<and>
    sp_inv sp' ps' (tl qs) rs' \<and> held (H(t := q)) rs' \<and> NULL \<notin> set rs' \<and>
    pool_elems sp' (ps' @ tl qs @ rs') = pool_elems sp (ps @ qs @ rs)"
proof -
  obtain sp1 ps1 rs1 where r: "return_puddle (H t) sp = Some sp1" "sp_inv sp1 ps1 qs rs1" "held (H(t := NULL)) rs1" "NULL \<notin> set rs1"
    "pool_elems sp1 (ps1 @ qs @ rs1) = pool_elems sp (ps @ qs @ rs)" using return_step [OF assms, of t] by blast
  show ?thesis
  proof (cases qs)
    case Nil
    then have "popPreviousPuddle (H t) sp = Some (NULL, sp1)" using r(1,2) next_previous_none by (simp add: popPreviousPuddle_eq)
    then show ?thesis using r(2-5) Nil by (intro exI [of _ NULL] exI [of _ sp1] exI [of _ ps1] exI [of _ rs1]) simp
  next
    case (Cons x xs)
    obtain sp2 where n: "next_previous sp1 = Some (x, sp2)" "sp_inv sp2 ps1 xs (x # rs1)" "pool_elems sp2 (ps1 @ xs @ x # rs1) = pool_elems sp1 (ps1 @ (x # xs) @ rs1)" "x \<noteq> NULL"
      using next_previous_spec [OF r(2) [unfolded Cons]] by blast
    have nx: "x \<notin> set rs1" using r(2) Cons by (simp add: sp_inv_defs)
    have "held (H(t := x)) (x # rs1)" by (rule held_take [OF r(3) nx n(4) r(4)])
    moreover have "popPreviousPuddle (H t) sp = Some (x, sp2)" using r(1) n(1) by (simp add: popPreviousPuddle_eq)
    moreover have "pool_elems sp2 (ps1 @ xs @ x # rs1) = pool_elems sp (ps @ qs @ rs)" using n(3) r(5) Cons by simp
    moreover have "NULL \<notin> set (x # rs1)" using r(4) n(4) by auto
    ultimately show ?thesis using n(2) Cons by (metis list.case(2) list.sel(3))
  qed
qed

lemma pops_spec:
  assumes "sp_inv sp ps qs rs" "held H rs" "NULL \<notin> set rs"
  shows "\<exists>H' sp' ps' rs'. pops ts H sp = Some (take (length ts) qs @ replicate (length ts - length qs) NULL, H', sp') \<and>
    sp_inv sp' ps' (drop (length ts) qs) rs' \<and> held H' rs' \<and> NULL \<notin> set rs' \<and>
    pool_elems sp' (ps' @ drop (length ts) qs @ rs') = pool_elems sp (ps @ qs @ rs)"
  using assms
proof (induction ts arbitrary: sp ps qs rs H)
  case (Cons t ts)
  obtain q sp1 ps1 rs1 where p: "popPreviousPuddle (H t) sp = Some (q, sp1)" "q = (case qs of [] \<Rightarrow> NULL | x # _ \<Rightarrow> x)"
    "sp_inv sp1 ps1 (tl qs) rs1" "held (H(t := q)) rs1" "NULL \<notin> set rs1" "pool_elems sp1 (ps1 @ tl qs @ rs1) = pool_elems sp (ps @ qs @ rs)"
    using pop_previous_step [OF Cons.prems, of t] by blast
  obtain H' sp' ps' rs' where i: "pops ts (H(t := q)) sp1 = Some (take (length ts) (tl qs) @ replicate (length ts - length (tl qs)) NULL, H', sp')"
    "sp_inv sp' ps' (drop (length ts) (tl qs)) rs'" "held H' rs'" "NULL \<notin> set rs'"
    "pool_elems sp' (ps' @ drop (length ts) (tl qs) @ rs') = pool_elems sp1 (ps1 @ tl qs @ rs1)"
    using Cons.IH [OF p(3-5)] by blast
  show ?case using p i by (cases qs) auto
qed auto

end
