(* ===== verification/Sublist_Properties.thy ===== *)
theory Sublist_Properties
  imports Sublist_Element
begin

text \<open>
  The properties of the sublist pool: what can happen to it in a run of the collector, and what
  each operation does to the elements.
\<close>

section \<open>Reachable states\<close>

text \<open>A pool, the fragments of the threads, and the puddles popped for processing.\<close>

type_synonym sl_state = "SublistPool \<times> SublistFragment list \<times> addr list"

definition new_fragment :: "SublistFragment \<Rightarrow> bool" where
  "new_fragment fr \<longleftrightarrow> 0 < fragmentSize fr \<and> 8 dvd fragmentSize fr \<and> frag_empty fr \<and> fg_count fr = 0"

definition all_flushed :: "SublistFragment list \<Rightarrow> bool" where
  "all_flushed frs \<longleftrightarrow> (\<forall>fr \<in> set frs. frag_empty fr \<and> fg_count fr = 0)"

inductive sl_reach :: "sl_state \<Rightarrow> bool" where
  start: "8 dvd g \<Longrightarrow> g < UMAX \<Longrightarrow> 8 dvd mx \<Longrightarrow> mx < UMAX \<Longrightarrow> \<forall>fr \<in> set frs. new_fragment fr \<Longrightarrow>
    sl_reach (setMaxSize mx (setGrowSize g (sp_initialize m)), frs, [])"
| add: "sl_reach (sp, frs, rs) \<Longrightarrow> i < length frs \<Longrightarrow> e \<noteq> 0 \<Longrightarrow> fresh_block (growSize sp) (sp_puddles sp) blk \<Longrightarrow>
    fragment_add blk e (frs ! i) sp = Some (ok, fr, sp') \<Longrightarrow> sl_reach (sp', frs[i := fr], rs)"
| flush: "sl_reach (sp, frs, rs) \<Longrightarrow> i < length frs \<Longrightarrow> fragment_flush (frs ! i) sp = (fr, sp') \<Longrightarrow> sl_reach (sp', frs[i := fr], rs)"
| compact: "sl_reach (sp, frs, rs) \<Longrightarrow> all_flushed frs \<Longrightarrow> sp_compact sp = Some sp' \<Longrightarrow> sl_reach (sp', frs, rs)"
| clear: "sl_reach (sp, frs, []) \<Longrightarrow> all_flushed frs \<Longrightarrow> sp_clear sp = Some sp' \<Longrightarrow> sl_reach (sp', frs, [])"
| startProcessing: "sl_reach (sp, frs, rs) \<Longrightarrow> startProcessingSublist sp = Some sp' \<Longrightarrow> sl_reach (sp', frs, rs)"
| pop: "sl_reach (sp, frs, rs) \<Longrightarrow> popPreviousPuddle NULL sp = Some (q, sp') \<Longrightarrow> sl_reach (sp', frs, (if q = NULL then rs else q # rs))"
| return_pop: "sl_reach (sp, frs, r # rs) \<Longrightarrow> popPreviousPuddle r sp = Some (q, sp') \<Longrightarrow> sl_reach (sp', frs, (if q = NULL then rs else q # rs))"
| other_thread: "sl_reach (sp, frs, rs) \<Longrightarrow> mset rs' = mset rs \<Longrightarrow> sl_reach (sp, frs, rs')"
| prune: "sl_reach (sp, frs, rs) \<Longrightarrow> all_flushed frs \<Longrightarrow> pruneRememberedSetList handle sp = Some sp' \<Longrightarrow> sl_reach (sp', frs, rs)"

definition frag_counts :: "SublistFragment list \<Rightarrow> nat" where
  "frag_counts frs = (\<Sum>fr\<leftarrow>frs. fg_count fr)"

text \<open>The counts add up to the number of elements, up to wrap-around.\<close>

definition sl_inv :: "sl_state \<Rightarrow> bool" where
  "sl_inv = (\<lambda>(sp, frs, rs). \<exists>ps qs. sp_inv sp ps qs rs \<and> frags_ok (sp_puddles sp) (sp_mem sp) frs \<and>
     (sp_count sp + frag_counts frs) mod UMAX = size (pool_elems sp (ps @ qs @ rs)) mod UMAX)"

lemma sl_invI:
  assumes "sp_inv sp ps qs rs" "frags_ok (sp_puddles sp) (sp_mem sp) frs"
    "(sp_count sp + frag_counts frs) mod UMAX = size (pool_elems sp (ps @ qs @ rs)) mod UMAX"
  shows "sl_inv (sp, frs, rs)"
  unfolding sl_inv_def prod.case using assms by blast

lemma mod_cancel:
  assumes "(a + x) mod UMAX = (b + x) mod UMAX"
  shows "a mod UMAX = b mod UMAX"
proof -
  define y where "y = UMAX - x mod UMAX"
  have z: "(x + y) mod UMAX = 0"
  proof -
    have "(x + y) mod UMAX = (x mod UMAX + y) mod UMAX" by (simp add: mod_simps)
    then show ?thesis by (simp add: y_def)
  qed
  have c: "(c + x + y) mod UMAX = c mod UMAX" for c using z by (metis add.assoc add.right_neutral mod_add_right_eq)
  have "(a + x + y) mod UMAX = (b + x + y) mod UMAX" using assms by (metis mod_add_left_eq)
  then show ?thesis by (simp only: c)
qed

lemma frag_counts_update:
  assumes "i < length frs"
  shows "frag_counts (frs[i := fr]) + fg_count (frs ! i) = frag_counts frs + fg_count fr"
proof -
  have "frs = take i frs @ frs ! i # drop (Suc i) frs" "frs[i := fr] = take i frs @ fr # drop (Suc i) frs"
    using assms by (simp_all add: id_take_nth_drop [symmetric] upd_conv_take_nth_drop)
  then have "frag_counts frs = frag_counts (take i frs) + (fg_count (frs ! i) + frag_counts (drop (Suc i) frs))"
    "frag_counts (frs[i := fr]) = frag_counts (take i frs) + (fg_count fr + frag_counts (drop (Suc i) frs))"
    unfolding frag_counts_def by (metis list.simps(9) map_append sum_list.Cons sum_list.append)+
  then show ?thesis by simp
qed

lemma flushed_frags_ok: "frags_ok h m frs \<Longrightarrow> all_flushed frs \<Longrightarrow> frags_ok h' m' frs"
  by (auto simp: frags_ok_def frag_ok_def all_flushed_def owns_def frag_empty_def)

lemma flushed_counts: "all_flushed frs \<Longrightarrow> frag_counts frs = 0"
  by (auto simp: all_flushed_def frag_counts_def)

lemma sl_inv_start:
  assumes "8 dvd g" "g < UMAX" "8 dvd mx" "mx < UMAX" "\<forall>fr \<in> set frs. new_fragment fr"
  shows "sl_inv (setMaxSize mx (setGrowSize g (sp_initialize m)), frs, [])"
proof -
  have "sp_inv (setMaxSize mx (setGrowSize g (sp_initialize m))) [] [] []"
    using assms by (simp add: sp_inv_defs puddles_ok_def setMaxSize_def setGrowSize_def sp_initialize_def)
  moreover have "frags_ok h m' frs" for h m'
    using assms(5) by (auto simp: frags_ok_def frag_ok_def new_fragment_def owns_def frag_empty_def) (metis leD nth_mem order_trans)
  moreover have "frag_counts frs = 0" using assms(5) by (auto simp: frag_counts_def new_fragment_def)
  ultimately show ?thesis
    unfolding sl_inv_def by (auto simp: setMaxSize_def setGrowSize_def sp_initialize_def intro!: exI [of _ "[]"])
qed

lemma sl_inv_add:
  assumes "sl_inv (sp, frs, rs)" "i < length frs" "e \<noteq> 0" "fresh_block (growSize sp) (sp_puddles sp) blk"
  shows "\<exists>ok fr sp'. fragment_add blk e (frs ! i) sp = Some (ok, fr, sp') \<and> sl_inv (sp', frs[i := fr], rs)"
proof -
  from assms(1) obtain ps qs where s: "sp_inv sp ps qs rs" "frags_ok (sp_puddles sp) (sp_mem sp) frs"
    "(sp_count sp + frag_counts frs) mod UMAX = size (pool_elems sp (ps @ qs @ rs)) mod UMAX" by (auto simp: sl_inv_def)
  from fragment_add_spec [OF s(1,2) assms(2,4,3)] obtain ok fr sp' ps' where
    a: "fragment_add blk e (frs ! i) sp = Some (ok, fr, sp')" "sp_inv sp' ps' qs rs" "frags_ok (sp_puddles sp') (sp_mem sp') (frs[i := fr])"
      "pool_elems sp' (ps' @ qs @ rs) = pool_elems sp (ps @ qs @ rs) + (if ok then {#e#} else {#})" "sp_count sp' = sp_count sp"
      "fg_count fr = (if ok then uadd (fg_count (frs ! i)) 1 else fg_count (frs ! i))" by blast
  have fc: "frag_counts (frs[i := fr]) + fg_count (frs ! i) = frag_counts frs + fg_count fr" by (rule frag_counts_update [OF assms(2)])
  have "(sp_count sp' + frag_counts (frs[i := fr])) mod UMAX = size (pool_elems sp' (ps' @ qs @ rs)) mod UMAX"
  proof (cases ok)
    case True
    let ?x = "fg_count (frs ! i)" and ?c = "frag_counts (frs[i := fr])"
    have "(?c + ?x) mod UMAX = (frag_counts frs + 1 + ?x) mod UMAX"
      unfolding fc a(6) using True by (simp add: uadd_def mod_simps ac_simps)
    then have "?c mod UMAX = (frag_counts frs + 1) mod UMAX" by (rule mod_cancel)
    then have "(sp_count sp' + ?c) mod UMAX = (sp_count sp + (frag_counts frs + 1)) mod UMAX" unfolding a(5) by (metis mod_add_right_eq)
    also have "\<dots> = ((sp_count sp + frag_counts frs) mod UMAX + 1) mod UMAX" by (simp add: mod_simps)
    finally show ?thesis unfolding s(3) a(4) using True by (simp add: mod_simps)
  next
    case False
    then show ?thesis using fc a(4-6) s(3) by simp
  qed
  then show ?thesis using a(1-3) unfolding sl_inv_def by blast
qed

lemma sl_inv_flush:
  assumes "sl_inv (sp, frs, rs)" "i < length frs" "fragment_flush (frs ! i) sp = (fr, sp')"
  shows "sl_inv (sp', frs[i := fr], rs)"
proof -
  from assms(1) obtain ps qs where s: "sp_inv sp ps qs rs" "frags_ok (sp_puddles sp) (sp_mem sp) frs"
    "(sp_count sp + frag_counts frs) mod UMAX = size (pool_elems sp (ps @ qs @ rs)) mod UMAX" by (auto simp: sl_inv_def)
  note f = fragment_flush_spec [OF s(1,2) assms(2,3)]
  have "frag_counts (frs[i := fr]) + fg_count (frs ! i) = frag_counts frs" using frag_counts_update [OF assms(2)] f(4) by simp
  moreover have "sp_count sp' mod UMAX = (sp_count sp + fg_count (frs ! i)) mod UMAX" using f(8) by (simp add: uadd_def)
  ultimately have "(sp_count sp' + frag_counts (frs[i := fr])) mod UMAX = (sp_count sp + frag_counts frs) mod UMAX"
    by (metis add.assoc add.commute mod_add_left_eq)
  then show ?thesis using f(1,2,5,6) s(3) unfolding sl_inv_def by auto
qed

lemma sl_inv_keeps:
  assumes "sp_inv sp' ps' qs' rs'" "frags_ok (sp_puddles sp') (sp_mem sp') frs" "sp_count sp' = sp_count sp"
    "pool_elems sp' (ps' @ qs' @ rs') = pool_elems sp (ps @ qs @ rs)"
    "(sp_count sp + frag_counts frs) mod UMAX = size (pool_elems sp (ps @ qs @ rs)) mod UMAX"
  shows "sl_inv (sp', frs, rs')"
proof -
  have "(sp_count sp' + frag_counts frs) mod UMAX = size (pool_elems sp' (ps' @ qs' @ rs')) mod UMAX" unfolding assms(3,4) by (rule assms(5))
  with assms(1,2) show ?thesis by (rule sl_invI)
qed

lemma sl_inv_compact:
  assumes "sl_inv (sp, frs, rs)" "all_flushed frs"
  shows "\<exists>sp'. sp_compact sp = Some sp' \<and> sl_inv (sp', frs, rs)"
proof -
  from assms(1) obtain ps qs where s: "sp_inv sp ps qs rs" "frags_ok (sp_puddles sp) (sp_mem sp) frs"
    "(sp_count sp + frag_counts frs) mod UMAX = size (pool_elems sp (ps @ qs @ rs)) mod UMAX" by (auto simp: sl_inv_def)
  from sp_compact_spec [OF s(1)] obtain sp' ps' where c: "sp_compact sp = Some sp'" "sp_inv sp' ps' qs rs" "step_to sp (ps @ qs @ rs) sp' (ps' @ qs @ rs)" by blast
  show ?thesis using sl_inv_keeps [OF c(2) flushed_frags_ok [OF s(2) assms(2)] _ _ s(3)] c(1,3) by (auto simp: step_to_def same_config_def)
qed

lemma sl_inv_clear:
  assumes "sl_inv (sp, frs, [])" "all_flushed frs"
  shows "\<exists>sp'. sp_clear sp = Some sp' \<and> sl_inv (sp', frs, [])"
proof -
  from assms(1) obtain ps qs where s: "sp_inv sp ps qs []" "frags_ok (sp_puddles sp) (sp_mem sp) frs" by (auto simp: sl_inv_def)
  from sp_clear_spec [OF s(1)] obtain sp' where c: "sp_clear sp = Some sp'" "sp_inv sp' [] [] []" "sp_count sp' = 0" by blast
  show ?thesis using c flushed_frags_ok [OF s(2) assms(2)] flushed_counts [OF assms(2)] unfolding sl_inv_def by (auto intro!: exI [of _ "[]"])
qed

lemma frags_ok_heap:
  assumes "frags_ok (sp_puddles sp) (sp_mem sp) frs" "sp_mem sp' = sp_mem sp"
    "\<And>p. map_option (\<lambda>d. (listBase d, listCurrent d)) (sp_puddles sp' p) = map_option (\<lambda>d. (listBase d, listCurrent d)) (sp_puddles sp p)"
  shows "frags_ok (sp_puddles sp') (sp_mem sp') frs"
proof -
  have "frag_ok (sp_puddles sp') (sp_mem sp') fr" if fo: "frag_ok (sp_puddles sp) (sp_mem sp) fr" for fr
  proof (cases "frag_empty fr")
    case True
    then show ?thesis using fo by (simp add: frag_ok_def)
  next
    case False
    then obtain p d where d: "sp_puddles sp p = Some d" "listBase d \<le> fragmentCurrent fr" "fragmentTop fr \<le> listCurrent d"
      using fo unfolding frag_ok_def by blast
    obtain d' where "sp_puddles sp' p = Some d'" "listBase d' = listBase d" "listCurrent d' = listCurrent d" using assms(3) [of p] d(1) by auto
    then have "\<exists>p d. sp_puddles sp' p = Some d \<and> listBase d \<le> fragmentCurrent fr \<and> fragmentTop fr \<le> listCurrent d"
      using d(2,3) by (intro exI [of _ p] exI [of _ d']) simp
    then show ?thesis using fo assms(2) False unfolding frag_ok_def by simp
  qed
  then show ?thesis using assms(1) unfolding frags_ok_def by blast
qed

lemma sl_inv_start_processing:
  assumes "sl_inv (sp, frs, rs)" "startProcessingSublist sp = Some sp'"
  shows "sl_inv (sp', frs, rs)"
proof -
  from assms(1) obtain ps qs where s: "sp_inv sp ps qs rs" "frags_ok (sp_puddles sp) (sp_mem sp) frs"
    "(sp_count sp + frag_counts frs) mod UMAX = size (pool_elems sp (ps @ qs @ rs)) mod UMAX" by (auto simp: sl_inv_def)
  have "previousList sp = NULL" using assms(2) by (auto simp: startProcessingSublist_def bind_eq_Some_conv)
  then have q: "qs = []" using s(1) by (simp add: sp_inv_defs)
  note p = startProcessingSublist_spec [OF s(1) [unfolded q]]
  have e: "sp' = sp \<lparr> previousList := sp_list sp, sp_list := NULL, allocPuddle := NULL \<rparr>" using p(1) assms(2) by simp
  show ?thesis by (rule sl_inv_keeps [where ps' = "[]" and qs' = ps and sp = sp and ps = ps and qs = "[]" and rs = rs])
    (use p(2) s q in \<open>simp_all add: e\<close>)
qed

text \<open>The two halves of \<open>popPreviousPuddle\<close> change links only.\<close>

lemma setNext_heap:
  assumes "puddle_setNext p n sp = Some sp'"
  shows "sp_mem sp' = sp_mem sp" "map_option (\<lambda>d. (listBase d, listCurrent d)) (sp_puddles sp' q) = map_option (\<lambda>d. (listBase d, listCurrent d)) (sp_puddles sp q)"
    "sp_count sp' = sp_count sp"
  using assms by (auto simp: puddle_setNext_def upd_puddle_def bind_eq_Some_conv)

lemma return_heap:
  assumes "return_puddle r sp = Some sp'"
  shows "sp_mem sp' = sp_mem sp" "map_option (\<lambda>d. (listBase d, listCurrent d)) (sp_puddles sp' p) = map_option (\<lambda>d. (listBase d, listCurrent d)) (sp_puddles sp p)"
    "sp_count sp' = sp_count sp"
proof -
  have "r = NULL \<and> sp' = sp \<or> (\<exists>sp1. puddle_setNext r (sp_list sp) sp = Some sp1 \<and>
      (sp' = sp1 \<lparr> sp_list := r \<rparr> \<or> sp' = sp1 \<lparr> sp_list := r, allocPuddle := r \<rparr>))"
    using assms unfolding return_puddle_def by (auto simp: bind_eq_Some_conv split: if_splits)
  then show "sp_mem sp' = sp_mem sp" "map_option (\<lambda>d. (listBase d, listCurrent d)) (sp_puddles sp' p) = map_option (\<lambda>d. (listBase d, listCurrent d)) (sp_puddles sp p)"
    "sp_count sp' = sp_count sp" using setNext_heap by (elim disjE exE conjE; simp)+
qed

lemma next_heap:
  assumes "next_previous sp = Some (q, sp')"
  shows "sp_mem sp' = sp_mem sp" "map_option (\<lambda>d. (listBase d, listCurrent d)) (sp_puddles sp' p) = map_option (\<lambda>d. (listBase d, listCurrent d)) (sp_puddles sp p)"
    "sp_count sp' = sp_count sp"
proof -
  have "sp' = sp \<or> (\<exists>n. puddle_setNext q NULL (sp \<lparr> previousList := n \<rparr>) = Some sp')"
    using assms unfolding next_previous_def by (auto simp: Let_def bind_eq_Some_conv split: if_splits)
  then show "sp_mem sp' = sp_mem sp" "map_option (\<lambda>d. (listBase d, listCurrent d)) (sp_puddles sp' p) = map_option (\<lambda>d. (listBase d, listCurrent d)) (sp_puddles sp p)"
    "sp_count sp' = sp_count sp" by (auto dest: setNext_heap)
qed

lemma pop_heap:
  assumes "popPreviousPuddle r sp = Some (q, sp')"
  shows "sp_mem sp' = sp_mem sp" "map_option (\<lambda>d. (listBase d, listCurrent d)) (sp_puddles sp' p) = map_option (\<lambda>d. (listBase d, listCurrent d)) (sp_puddles sp p)"
    "sp_count sp' = sp_count sp"
proof -
  obtain sp1 where s: "return_puddle r sp = Some sp1" "next_previous sp1 = Some (q, sp')" using assms unfolding popPreviousPuddle_eq by (auto simp: bind_eq_Some_conv)
  show "sp_mem sp' = sp_mem sp" "map_option (\<lambda>d. (listBase d, listCurrent d)) (sp_puddles sp' p) = map_option (\<lambda>d. (listBase d, listCurrent d)) (sp_puddles sp p)"
    "sp_count sp' = sp_count sp" using return_heap [OF s(1)] next_heap [OF s(2)] by simp_all
qed

lemma sl_inv_pop:
  assumes "sl_inv (sp, frs, r # rs)"
  shows "\<exists>q sp'. popPreviousPuddle r sp = Some (q, sp') \<and> sl_inv (sp', frs, (if q = NULL then rs else q # rs))"
proof -
  from assms obtain ps qs where s: "sp_inv sp ps qs (r # rs)" "frags_ok (sp_puddles sp) (sp_mem sp) frs"
    "(sp_count sp + frag_counts frs) mod UMAX = size (pool_elems sp (ps @ qs @ r # rs)) mod UMAX" by (auto simp: sl_inv_def)
  from return_puddle_spec [OF s(1)] obtain sp1 where
    r: "return_puddle r sp = Some sp1" "sp_inv sp1 (r # ps) qs rs" "pool_elems sp1 ((r # ps) @ qs @ rs) = pool_elems sp (ps @ qs @ r # rs)"
    by (auto simp: step_to_def)
  obtain q sp' qs' rs' where n: "next_previous sp1 = Some (q, sp')" "sp_inv sp' (r # ps) qs' rs'" "rs' = (if q = NULL then rs else q # rs)"
    "pool_elems sp' ((r # ps) @ qs' @ rs') = pool_elems sp1 ((r # ps) @ qs @ rs)"
  proof (cases qs)
    case Nil
    then show thesis using that [of NULL sp1 "[]" rs] r(2) next_previous_none by simp
  next
    case (Cons x xs)
    then show thesis using next_previous_spec [OF r(2) [unfolded Cons]] that [of x _ xs "x # rs"] by auto
  qed
  have p: "popPreviousPuddle r sp = Some (q, sp')" using r(1) n(1) by (simp add: popPreviousPuddle_eq)
  note h = pop_heap [OF p]
  have "sl_inv (sp', frs, rs')"
    by (rule sl_inv_keeps [OF n(2) frags_ok_heap [OF s(2) h(1,2)] h(3) _ s(3)]) (simp only: n(4) r(3))
  then show ?thesis using p n(3) by blast
qed

lemma sl_inv_pop_first:
  assumes "sl_inv (sp, frs, rs)"
  shows "\<exists>q sp'. popPreviousPuddle NULL sp = Some (q, sp') \<and> sl_inv (sp', frs, (if q = NULL then rs else q # rs))"
proof -
  from assms obtain ps qs where s: "sp_inv sp ps qs rs" "frags_ok (sp_puddles sp) (sp_mem sp) frs"
    "(sp_count sp + frag_counts frs) mod UMAX = size (pool_elems sp (ps @ qs @ rs)) mod UMAX" by (auto simp: sl_inv_def)
  have e: "popPreviousPuddle NULL sp = next_previous sp" by (simp add: popPreviousPuddle_eq return_puddle_def)
  show ?thesis
  proof (cases qs)
    case Nil
    then show ?thesis using next_previous_none s(1) assms e by auto
  next
    case (Cons x xs)
    obtain sp' where n: "next_previous sp = Some (x, sp')" "sp_inv sp' ps xs (x # rs)" "pool_elems sp' (ps @ xs @ x # rs) = pool_elems sp (ps @ (x # xs) @ rs)" "x \<noteq> NULL"
      using next_previous_spec [OF s(1) [unfolded Cons]] by blast
    have p: "popPreviousPuddle NULL sp = Some (x, sp')" using e n(1) by simp
    note h = pop_heap [OF p]
    have "sl_inv (sp', frs, x # rs)"
      by (rule sl_inv_keeps [OF n(2) frags_ok_heap [OF s(2) h(1,2)] h(3) _ s(3)]) (simp only: n(3) Cons)
    then show ?thesis using p n(4) by auto
  qed
qed

lemma sl_inv_prune:
  assumes "sl_inv (sp, frs, rs)" "all_flushed frs"
  shows "\<exists>sp'. pruneRememberedSetList handle sp = Some sp' \<and> sl_inv (sp', frs, rs)"
proof -
  from assms(1) obtain ps qs where s: "sp_inv sp ps qs rs" "frags_ok (sp_puddles sp) (sp_mem sp) frs"
    "(sp_count sp + frag_counts frs) mod UMAX = size (pool_elems sp (ps @ qs @ rs)) mod UMAX" by (auto simp: sl_inv_def)
  from pruneRememberedSetList_spec [OF s(1), of handle] obtain sp' where
    p: "pruneRememberedSetList handle sp = Some sp'" "sp_inv sp' ps qs rs" "pool_elems sp' ps = pruned_elems handle 0 sp ps"
      "pool_elems sp' (qs @ rs) = pool_elems sp (qs @ rs)"
      "(sp_count sp' + (size (pool_elems sp ps) - size (pruned_elems handle 0 sp ps))) mod UMAX = sp_count sp mod UMAX" by blast
  define a b c where "a = size (pool_elems sp ps)" and "b = size (pruned_elems handle 0 sp ps)" and "c = size (pool_elems sp (qs @ rs))"
  have le: "b \<le> a" unfolding a_def b_def by (rule pruned_elems_size)
  have sc: "sp_count sp mod UMAX = (a + c) mod UMAX" using s(3) flushed_counts [OF assms(2)] by (simp add: a_def c_def)
  have "(sp_count sp' + (a - b)) mod UMAX = (b + c + (a - b)) mod UMAX" using p(5) sc le by (simp add: a_def [symmetric] b_def [symmetric] add.commute)
  then have "sp_count sp' mod UMAX = (b + c) mod UMAX" by (rule mod_cancel)
  moreover have "size (pool_elems sp' (ps @ qs @ rs)) = b + c" using p(3,4) by (simp add: b_def c_def)
  ultimately have "(sp_count sp' + frag_counts frs) mod UMAX = size (pool_elems sp' (ps @ qs @ rs)) mod UMAX"
    using flushed_counts [OF assms(2)] by (simp del: elems_simps)
  then show ?thesis using p(1) sl_invI [OF p(2) flushed_frags_ok [OF s(2) assms(2)]] by blast
qed

lemma sl_inv_perm:
  assumes "sl_inv (sp, frs, rs)" "mset rs' = mset rs"
  shows "sl_inv (sp, frs, rs')"
proof -
  from assms(1) obtain ps qs where s: "sp_inv sp ps qs rs" "frags_ok (sp_puddles sp) (sp_mem sp) frs"
    "(sp_count sp + frag_counts frs) mod UMAX = size (pool_elems sp (ps @ qs @ rs)) mod UMAX" by (auto simp: sl_inv_def)
  show ?thesis by (rule sl_inv_keeps [OF sp_inv_perm [OF assms(2) [symmetric] s(1)] s(2) _ _ s(3)])
    (simp_all add: elems_perm [OF assms(2)])
qed

lemma sl_reach_inv: "sl_reach s \<Longrightarrow> sl_inv s"
proof (induction rule: sl_reach.induct)
  case (start g mx frs m)
  then show ?case by (rule sl_inv_start)
next
  case (add sp frs rs i e blk ok fr sp')
  then show ?case using sl_inv_add [of sp frs rs i e blk] by auto
next
  case (flush sp frs rs i fr sp')
  then show ?case using sl_inv_flush by blast
next
  case (compact sp frs rs sp')
  then show ?case using sl_inv_compact [of sp frs rs] by auto
next
  case (clear sp frs sp')
  then show ?case using sl_inv_clear [of sp frs] by auto
next
  case (startProcessing sp frs rs sp')
  then show ?case using sl_inv_start_processing by blast
next
  case (pop sp frs rs q sp')
  then show ?case using sl_inv_pop_first [of sp frs rs] by auto
next
  case (return_pop sp frs r rs q sp')
  then show ?case using sl_inv_pop [of sp frs r rs] by auto
next
  case (other_thread sp frs rs rs')
  then show ?case using sl_inv_perm by blast
next
  case (prune sp frs rs handle sp')
  then show ?case using sl_inv_prune [of sp frs rs handle] by auto
qed

section \<open>Properties\<close>

text \<open>The elements of all puddles of a pool, and an example: one puddle with an object to keep and one flagged for removal.\<close>

definition sl_elements :: "SublistPool \<Rightarrow> uword multiset" where
  "sl_elements sp = (\<Sum>p \<in> dom (sp_puddles sp). pd_elems (sp_mem sp) (the (sp_puddles sp p)))"

lemma sl_elements_eq: "sp_inv sp ps qs rs \<Longrightarrow> sl_elements sp = pool_elems sp (ps @ qs @ rs)"
  unfolding sl_elements_def elems_def by (simp only: sp_inv_def chains_ok_def sum.distinct_set_conv_list)

definition sl_example :: SublistPool where
  "sl_example = \<lparr> sp_list = 4096, allocPuddle = 4096, growSize = 64, currentSize = 64, maxSize = 64, sp_count = 2, previousList = NULL,
     sp_puddles = [4096 \<mapsto> \<lparr> pd_next = NULL, listBase = 4144, listCurrent = 4160, listTop = 4208, pd_size = 64 \<rparr>],
     sp_mem = (\<lambda>_. 0)(4144 := 16, 4152 := 33) \<rparr>"

lemma sl_example_inv: "sp_inv sl_example [4096] [] []"
  by (auto simp: sl_example_def sp_inv_defs puddles_ok_def puddle_ok_def UMAX_def split: if_splits)

lemma sl_example_elems: "pool_elems sl_example [4096] = {#16, 33#}"
proof -
  have "slot_addrs 4144 4160 = [4144, 4152]" by (simp add: slot_addrs_def upt_rec)
  then show ?thesis by (simp add: sl_example_def pd_elems_def)
qed

text \<open>
  C6: whatever threads do with a sublist pool (adding through fragments, flushing, compacting,
  clearing, processing, pruning), its invariant holds: the allocation puddle ends the list, puddles
  are disjoint and fragments own disjoint empty slots.  In such a state no operation aborts: no
  assertion fails, no puddle is used after it was killed, every loop ends; and once all fragments
  are flushed, \<open>countElements\<close> is the number of elements (up to wrap-around).
\<close>

theorem sublist_never_aborts:
  assumes "sl_reach (sp, frs, rs)"
  shows "sl_inv (sp, frs, rs) \<and>
    (\<forall>i e blk. i < length frs \<and> e \<noteq> 0 \<and> fresh_block (growSize sp) (sp_puddles sp) blk \<longrightarrow> fragment_add blk e (frs ! i) sp \<noteq> None) \<and>
    (all_flushed frs \<longrightarrow> sp_compact sp \<noteq> None \<and> pruneRememberedSetList handle sp \<noteq> None \<and>
       countElements sp mod UMAX = size (sl_elements sp) mod UMAX) \<and>
    (all_flushed frs \<and> rs = [] \<longrightarrow> sp_clear sp \<noteq> None) \<and> (previousList sp = NULL \<longrightarrow> startProcessingSublist sp \<noteq> None) \<and>
    (\<forall>r. r = NULL \<or> r \<in> set rs \<longrightarrow> popPreviousPuddle r sp \<noteq> None)"
proof -
  have inv: "sl_inv (sp, frs, rs)" by (rule sl_reach_inv [OF assms])
  then obtain ps qs where s: "sp_inv sp ps qs rs" "(sp_count sp + frag_counts frs) mod UMAX = size (pool_elems sp (ps @ qs @ rs)) mod UMAX"
    by (auto simp: sl_inv_def)
  have "countElements sp mod UMAX = size (sl_elements sp) mod UMAX" if "all_flushed frs"
    using s(2) flushed_counts [OF that] sl_elements_eq [OF s(1)] by (simp add: countElements_def)
  moreover have "fragment_add blk e (frs ! i) sp \<noteq> None" if "i < length frs" "e \<noteq> 0" "fresh_block (growSize sp) (sp_puddles sp) blk" for i e blk
    using sl_inv_add [OF inv that] by auto
  moreover have "sp_compact sp \<noteq> None \<and> pruneRememberedSetList handle sp \<noteq> None" if "all_flushed frs"
    using sl_inv_compact [OF inv that] sl_inv_prune [OF inv that, of handle] by auto
  moreover have "sp_clear sp \<noteq> None" if "all_flushed frs" "rs = []" using sl_inv_clear [of sp frs] inv that by auto
  moreover have "startProcessingSublist sp \<noteq> None" if "previousList sp = NULL"
  proof -
    have "qs = []" using s(1) that by (simp add: sp_inv_defs)
    then show ?thesis using startProcessingSublist_spec(1) [of sp ps rs] s(1) by simp
  qed
  moreover have "popPreviousPuddle r sp \<noteq> None" if "r = NULL \<or> r \<in> set rs" for r
  proof (cases "r = NULL")
    case True
    then show ?thesis using sl_inv_pop_first [OF inv] by auto
  next
    case False
    then have "mset (r # remove1 r rs) = mset rs" using that by simp
    from sl_inv_pop [OF sl_inv_perm [OF inv this]] show ?thesis by auto
  qed
  ultimately show ?thesis using inv by blast
qed

theorem sublist_never_aborts_witness:
  "fragment_add 4096 16 one_slot (setMaxSize 64 (setGrowSize 64 (sp_initialize (\<lambda>_. 0)))) \<noteq> None"
proof -
  have "sl_reach (setMaxSize 64 (setGrowSize 64 (sp_initialize (\<lambda>_. 0))), [one_slot], [])"
    by (rule sl_reach.start) (simp_all add: UMAX_def new_fragment_def one_slot_def frag_empty_def)
  from sublist_never_aborts [OF this] have "\<forall>i e blk. i < length [one_slot] \<and> e \<noteq> 0 \<and>
      fresh_block (growSize (setMaxSize 64 (setGrowSize 64 (sp_initialize (\<lambda>_. 0))))) (sp_puddles (setMaxSize 64 (setGrowSize 64 (sp_initialize (\<lambda>_. 0))))) blk \<longrightarrow>
      fragment_add blk e ([one_slot] ! i) (setMaxSize 64 (setGrowSize 64 (sp_initialize (\<lambda>_. 0)))) \<noteq> None" by blast
  from this [rule_format, of 0 16 4096] show ?thesis
    by (simp add: fresh_block_def setMaxSize_def setGrowSize_def sp_initialize_def UMAX_def)
qed



text \<open>
  C27: \<open>compact\<close> returns, keeps every element exactly once, and leaves a list in which no puddle is
  empty and only the last one has room.
\<close>

theorem compact_keeps_elements:
  assumes "sp_inv sp ps qs rs"
  shows "\<exists>sp' ps'. sp_compact sp = Some sp' \<and> sp_inv sp' ps' qs rs \<and> sl_elements sp' = sl_elements sp \<and> countElements sp' = countElements sp \<and>
    (\<forall>p \<in> set ps'. \<not> puddle_isEmpty (the (sp_puddles sp' p))) \<and> (\<forall>p \<in> set (butlast ps'). puddle_isFull (the (sp_puddles sp' p)))"
proof -
  from sp_compact_spec [OF assms] obtain sp' ps' where
    c: "sp_compact sp = Some sp'" "sp_inv sp' ps' qs rs" "compacted sp' ps'" "step_to sp (ps @ qs @ rs) sp' (ps' @ qs @ rs)" by blast
  have "sl_elements sp' = sl_elements sp" using sl_elements_eq [OF c(2)] sl_elements_eq [OF assms] c(4) by (simp add: step_to_def)
  then show ?thesis using c by (intro exI [of _ sp'] exI [of _ ps']) (simp add: compacted_def countElements_def step_to_def same_config_def)
qed

theorem compact_keeps_elements_witness: "\<exists>sp'. sp_compact sl_example = Some sp' \<and> sl_elements sp' = {#16, 33#}"
  using compact_keeps_elements [OF sl_example_inv] sl_elements_eq [OF sl_example_inv] sl_example_elems by auto



text \<open>
  C29: however the threads that process the list interleave, \<open>popPreviousPuddle\<close> hands out every puddle
  of it exactly once, in order, and then \<open>NULL\<close>; no element is lost on the way.
\<close>

theorem popPreviousPuddle_once:
  assumes "sp_inv sp ps [] []"
  shows "\<exists>sp1 H' sp'. startProcessingSublist sp = Some sp1 \<and>
    pops ts (\<lambda>_. NULL) sp1 = Some (take (length ts) ps @ replicate (length ts - length ps) NULL, H', sp') \<and> sl_elements sp' = sl_elements sp"
proof -
  let ?sp1 = "sp \<lparr> previousList := sp_list sp, sp_list := NULL, allocPuddle := NULL \<rparr>"
  note st = startProcessingSublist_spec [OF assms]
  have "held (\<lambda>_. NULL) []" by (simp add: held_def)
  from pops_spec [OF st(2) this, of ts] obtain H' sp' ps' rs' where
    p: "pops ts (\<lambda>_. NULL) ?sp1 = Some (take (length ts) ps @ replicate (length ts - length ps) NULL, H', sp')"
      "sp_inv sp' ps' (drop (length ts) ps) rs'" "pool_elems sp' (ps' @ drop (length ts) ps @ rs') = pool_elems ?sp1 ([] @ ps @ [])" by auto
  have "sl_elements sp' = sl_elements sp"
    unfolding sl_elements_eq [OF p(2)] sl_elements_eq [OF assms] p(3) by simp
  then show ?thesis using st(1) p(1) by blast
qed

theorem popPreviousPuddle_once_witness:
  "\<exists>sp1 H' sp'. startProcessingSublist sl_example = Some sp1 \<and> pops [0, 1, 0] (\<lambda>_. NULL) sp1 = Some ([4096, NULL, NULL], H', sp')"
  using popPreviousPuddle_once [OF sl_example_inv, of "[0, 1, 0]"] by (auto simp: numeral_2_eq_2)

text \<open>
  C30: \<open>allocateElementNoContention\<close>, which does not use fragments, is the allocation of a fragment of
  one slot: the same slot, the same puddle and the same failures.
\<close>

theorem allocateElement_equiv:
  assumes "sp_inv sp ps qs rs" "fresh_block (growSize sp) (sp_puddles sp) blk"
  shows "sp_allocateElement blk sp = map_option (\<lambda>(ok, fr, sp'). (if ok then fragmentCurrent fr else NULL, sp'))
    (sp_allocate blk \<lparr> fragmentCurrent = NULL, fragmentTop = NULL, fragmentSize = 8, fg_count = 0 \<rparr> sp)"
  using allocateElement_is_fragment [OF assms] unfolding slot_result_def one_slot_def by simp

theorem allocateElement_equiv_witness:
  "sp_allocateElement NULL sl_example = map_option (\<lambda>(ok, fr, sp'). (if ok then fragmentCurrent fr else NULL, sp'))
    (sp_allocate NULL \<lparr> fragmentCurrent = NULL, fragmentTop = NULL, fragmentSize = 8, fg_count = 0 \<rparr> sl_example)"
  by (rule allocateElement_equiv [OF sl_example_inv]) (simp add: fresh_block_def)


end
