(* ===== verification/Puddle_Race.thy ===== *)
theory Puddle_Race
  imports Sublist_Alloc
begin

text \<open>
  \<open>MM_SublistPuddle::allocate\<close> (gc/structs/SublistPuddle.cpp) run by several threads on one puddle
  without a lock.  A thread reads the cursor, and tries to replace it by a compare and exchange;
  each read and each exchange is an atomic step, and the threads interleave freely.
\<close>

section \<open>Threads on one puddle\<close>

text \<open>
  A thread is about to read the cursor (\<open>Start\<close>), has read it (\<open>Read\<close>), has got a range, or has
  found no room.
\<close>

datatype al_pc = Start | Read addr | Got addr addr | NoRoom

type_synonym al_state = "addr \<times> al_pc list"

text \<open>Thread \<open>t\<close> asks for fragments of \<open>fs ! t\<close> bytes; \<open>top\<close> is the end of the puddle.\<close>

inductive al_step :: "addr \<Rightarrow> nat list \<Rightarrow> al_state \<Rightarrow> al_state \<Rightarrow> bool" for tp fs where
  read_full: "t < length pcs \<Longrightarrow> pcs ! t = Start \<Longrightarrow> fragment_range cur tp (fs ! t) = None \<Longrightarrow>
    al_step tp fs (cur, pcs) (cur, pcs[t := NoRoom])"
| read_room: "t < length pcs \<Longrightarrow> pcs ! t = Start \<Longrightarrow> fragment_range cur tp (fs ! t) = Some r \<Longrightarrow>
    al_step tp fs (cur, pcs) (cur, pcs[t := Read cur])"
| exchange: "t < length pcs \<Longrightarrow> pcs ! t = Read old \<Longrightarrow> cur = old \<Longrightarrow> fragment_range old tp (fs ! t) = Some (base, new) \<Longrightarrow>
    al_step tp fs (cur, pcs) (new, pcs[t := Got base new])"
| exchange_fails: "t < length pcs \<Longrightarrow> pcs ! t = Read old \<Longrightarrow> cur \<noteq> old \<Longrightarrow>
    al_step tp fs (cur, pcs) (cur, pcs[t := Start])"

inductive al_run :: "addr \<Rightarrow> nat list \<Rightarrow> al_state \<Rightarrow> al_state \<Rightarrow> bool" for tp fs where
  start: "al_run tp fs s s"
| step: "al_run tp fs s s' \<Longrightarrow> al_step tp fs s' s'' \<Longrightarrow> al_run tp fs s s''"

lemma fragment_range_spec:
  assumes "cur \<le> tp" "tp < UMAX" "0 < n"
  shows "fragment_range cur tp n = (if cur = tp then None else Some (cur, cur + min n (tp - cur)))"
proof -
  have "usub tp cur = tp - cur" using assms by (simp add: usub_exact)
  moreover have "uadd cur k = cur + k" if "k \<le> tp - cur" for k using that assms by (intro uadd_exact) simp
  ultimately show ?thesis using assms(1) by (simp add: fragment_range_def Let_def min_def)
qed

definition got_len :: "al_pc \<Rightarrow> nat" where
  "got_len p = (case p of Got b e \<Rightarrow> e - b | _ \<Rightarrow> 0)"

text \<open>
  Relative to the cursor \<open>c0\<close> at the start: what was handed out lies between \<open>c0\<close> and the cursor,
  is disjoint and adds up to all of it; who found no room found the puddle full.
\<close>

definition got_ok :: "addr \<Rightarrow> addr \<Rightarrow> addr \<Rightarrow> al_pc \<Rightarrow> bool" where
  "got_ok tp c0 cur p = (case p of Got b e \<Rightarrow> c0 \<le> b \<and> b < e \<and> e \<le> cur | NoRoom \<Rightarrow> cur = tp | Read old \<Rightarrow> old < tp | Start \<Rightarrow> True)"

definition apart :: "al_pc \<Rightarrow> al_pc \<Rightarrow> bool" where
  "apart p q \<longleftrightarrow> (\<forall>b e b' e'. p = Got b e \<and> q = Got b' e' \<longrightarrow> e \<le> b' \<or> e' \<le> b)"

definition al_inv :: "addr \<Rightarrow> addr \<Rightarrow> al_state \<Rightarrow> bool" where
  "al_inv tp c0 = (\<lambda>(cur, pcs). c0 \<le> cur \<and> cur \<le> tp \<and> sum_list (map got_len pcs) = cur - c0 \<and>
     (\<forall>t < length pcs. got_ok tp c0 cur (pcs ! t)) \<and> (\<forall>t < length pcs. \<forall>u < length pcs. t \<noteq> u \<longrightarrow> apart (pcs ! t) (pcs ! u)))"

lemma apart_sym: "apart p q \<Longrightarrow> apart q p"
  unfolding apart_def by blast

lemma al_update_split: "t < length xs \<Longrightarrow> sum_list (map f (xs[t := x])) + f (xs ! t) = sum_list (map f xs) + (f x :: nat)"
proof -
  assume t: "t < length xs"
  have "map f xs = map f (take t xs) @ f (xs ! t) # map f (drop (Suc t) xs)" using t by (metis id_take_nth_drop list.simps(9) map_append)
  moreover have "map f (xs[t := x]) = map f (take t xs) @ f x # map f (drop (Suc t) xs)" using t by (simp add: upd_conv_take_nth_drop)
  ultimately show ?thesis by simp
qed

text \<open>One thread moves to \<open>x\<close>, and the cursor to \<open>n\<close>.\<close>

lemma al_inv_update:
  assumes inv: "al_inv tp c0 (cur, pcs)" and t: "t < length pcs" and n: "cur \<le> n" "n \<le> tp"
    and x: "got_ok tp c0 n x" "got_len x = got_len (pcs ! t) + (n - cur)" "\<And>u. u < length pcs \<Longrightarrow> u \<noteq> t \<Longrightarrow> apart x (pcs ! u)"
  shows "al_inv tp c0 (n, pcs[t := x])"
proof -
  have i: "c0 \<le> cur" "sum_list (map got_len pcs) = cur - c0" "\<And>u. u < length pcs \<Longrightarrow> got_ok tp c0 cur (pcs ! u)"
    "\<And>u v. u < length pcs \<Longrightarrow> v < length pcs \<Longrightarrow> u \<noteq> v \<Longrightarrow> apart (pcs ! u) (pcs ! v)"
    using inv by (simp_all add: al_inv_def)
  have "sum_list (map got_len (pcs[t := x])) = n - c0" using al_update_split [OF t, of got_len x] i(1,2) n(1) x(2) by simp
  moreover have "got_ok tp c0 n (pcs ! u)" if "u < length pcs" for u
    using i(3) [OF that] n by (auto simp: got_ok_def split: al_pc.splits)
  then have "\<forall>u < length pcs. got_ok tp c0 n (pcs[t := x] ! u)" using x(1) t by (simp add: nth_list_update)
  moreover have "apart (pcs[t := x] ! u) (pcs[t := x] ! v)" if "u < length pcs" "v < length pcs" "u \<noteq> v" for u v
    using i(4) [OF that] x(3) [OF that(1)] x(3) [OF that(2)] that(3) t by (cases "u = t"; cases "v = t") (auto intro: apart_sym)
  ultimately show ?thesis using i(1) n unfolding al_inv_def by simp
qed

lemma al_inv_idle:
  assumes "al_inv tp c0 (cur, pcs)" "t < length pcs" "got_len (pcs ! t) = 0" "got_ok tp c0 cur x" "\<And>b e. x \<noteq> Got b e"
  shows "al_inv tp c0 (cur, pcs[t := x])"
proof (rule al_inv_update [OF assms(1,2) order_refl _ assms(4)])
  show "cur \<le> tp" using assms(1) by (simp add: al_inv_def)
  show "got_len x = got_len (pcs ! t) + (cur - cur)" using assms(3,5) by (simp add: got_len_def split: al_pc.splits)
  show "apart x (pcs ! u)" for u using assms(5) by (simp add: apart_def)
qed

lemma al_inv_got:
  assumes inv: "al_inv tp c0 (cur, pcs)" and t: "t < length pcs" "pcs ! t = Read cur" and n: "cur < n" "n \<le> tp"
  shows "al_inv tp c0 (n, pcs[t := Got cur n])"
proof (rule al_inv_update [OF inv t(1) _ n(2)])
  have c: "c0 \<le> cur" using inv by (simp add: al_inv_def)
  show "cur \<le> n" "got_ok tp c0 n (Got cur n)" "got_len (Got cur n) = got_len (pcs ! t) + (n - cur)"
    using n(1) c t(2) by (simp_all add: got_ok_def got_len_def)
  show "apart (Got cur n) (pcs ! u)" if "u < length pcs" "u \<noteq> t" for u
  proof -
    have "got_ok tp c0 cur (pcs ! u)" using inv that(1) by (simp add: al_inv_def)
    then show ?thesis by (auto simp: apart_def got_ok_def split: al_pc.splits)
  qed
qed

lemma al_inv_step:
  assumes inv: "al_inv tp c0 s" and st: "al_step tp fs s s'" and tp: "tp < UMAX" and fs: "\<forall>n \<in> set fs. 0 < n" and len: "length (snd s) = length fs"
  shows "al_inv tp c0 s'"
  using st
proof cases
  case (read_full t pcs cur)
  have "cur \<le> tp" using inv read_full(1) by (simp add: al_inv_def)
  moreover have "0 < fs ! t" using fs len read_full(1,3) by simp
  ultimately have "cur = tp" using read_full(5) fragment_range_spec [OF _ tp] by (auto split: if_splits)
  then show ?thesis using read_full inv by (auto intro!: al_inv_idle simp: got_len_def got_ok_def)
next
  case (read_room t pcs cur r)
  have "cur \<le> tp" using inv read_room(1) by (simp add: al_inv_def)
  moreover have "0 < fs ! t" using fs len read_room(1,3) by simp
  ultimately have "cur < tp" using read_room(5) fragment_range_spec [OF _ tp] by (auto split: if_splits)
  then show ?thesis using read_room inv by (auto intro!: al_inv_idle simp: got_len_def got_ok_def)
next
  case (exchange t pcs old cur base new)
  have c: "cur \<le> tp" using inv exchange(1) by (simp add: al_inv_def)
  have f: "0 < fs ! t" using fs len exchange(1,3) by simp
  have "cur \<noteq> tp" "base = cur" "new = cur + min (fs ! t) (tp - cur)" using exchange(5,6) fragment_range_spec [OF c tp f] by (auto split: if_splits)
  then show ?thesis using exchange inv c f al_inv_got [of tp c0 cur pcs t new] by simp
next
  case (exchange_fails t pcs old cur)
  then show ?thesis using inv by (auto intro!: al_inv_idle simp: got_len_def got_ok_def)
qed

lemma al_step_length: "al_step tp fs s s' \<Longrightarrow> length (snd s') = length (snd s)"
  by (induction rule: al_step.induct) auto

lemma al_run_inv:
  assumes "al_run tp fs s s'" "al_inv tp c0 s" "tp < UMAX" "\<forall>n \<in> set fs. 0 < n" "length (snd s) = length fs"
  shows "al_inv tp c0 s' \<and> length (snd s') = length fs"
  using assms by (induction rule: al_run.induct) (auto intro: al_inv_step dest: al_step_length)

lemma al_inv_start: "c0 \<le> tp \<Longrightarrow> al_inv tp c0 (c0, replicate n Start)"
proof -
  have "sum_list (map got_len (replicate n Start)) = 0" by (simp add: got_len_def sum_list_replicate)
  then show "c0 \<le> tp \<Longrightarrow> al_inv tp c0 (c0, replicate n Start)" by (simp add: al_inv_def got_ok_def apart_def)
qed

section \<open>Property\<close>

text \<open>
  C32: when threads reserve fragments of one puddle without a lock, in any interleaving, the ranges
  handed out are non-empty, disjoint, lie in the part of the puddle that was free, and use it up
  from the cursor without a gap; a thread is refused only when the puddle is full.
\<close>

theorem puddle_allocate_race:
  assumes "al_run tp fs (c0, replicate (length fs) Start) (cur, pcs)" "c0 \<le> tp" "tp < UMAX" "\<forall>n \<in> set fs. 0 < n"
  shows "c0 \<le> cur \<and> cur \<le> tp \<and> (\<Sum>p\<leftarrow>pcs. case p of Got b e \<Rightarrow> e - b | _ \<Rightarrow> 0) = cur - c0 \<and>
    (\<forall>t < length fs. \<forall>b e. pcs ! t = Got b e \<longrightarrow> c0 \<le> b \<and> b < e \<and> e \<le> cur \<and>
       (\<forall>u < length fs. \<forall>b' e'. u \<noteq> t \<and> pcs ! u = Got b' e' \<longrightarrow> e \<le> b' \<or> e' \<le> b)) \<and>
    (\<forall>t < length fs. pcs ! t = NoRoom \<longrightarrow> cur = tp)"
proof -
  have i: "al_inv tp c0 (cur, pcs)" "length pcs = length fs" using al_run_inv [OF assms(1) al_inv_start [OF assms(2)] assms(3,4)] by simp_all
  have "c0 \<le> cur" "cur \<le> tp" "(\<Sum>p\<leftarrow>pcs. case p of Got b e \<Rightarrow> e - b | _ \<Rightarrow> 0) = cur - c0" using i(1) by (simp_all add: al_inv_def got_len_def [abs_def])
  moreover have "got_ok tp c0 cur (pcs ! t)" "\<And>u. u < length fs \<Longrightarrow> t \<noteq> u \<Longrightarrow> apart (pcs ! t) (pcs ! u)" if "t < length fs" for t
    using i that by (simp_all add: al_inv_def)
  ultimately show ?thesis unfolding got_ok_def apart_def by (fastforce split: al_pc.splits)
qed

lemma race_example: "al_run 4208 [32, 32] (4144, [Start, Start]) (4176, [Got 4144 4176, Start])"
proof -
  have f: "fragment_range 4144 4208 32 = Some (4144, 4176)" by (simp add: fragment_range_spec UMAX_def)
  note s = al_run.step
  have "al_run 4208 [32, 32] (4144, [Start, Start]) (4144, [Read 4144, Start])"
    using s [OF al_run.start al_step.read_room [of 0 "[Start, Start]" 4144 4208 "[32, 32]"]] f by simp
  from s [OF this al_step.read_room [of 1 "[Read 4144, Start]" 4144 4208 "[32, 32]"]]
  have "al_run 4208 [32, 32] (4144, [Start, Start]) (4144, [Read 4144, Read 4144])" using f by simp
  from s [OF this al_step.exchange [of 0 "[Read 4144, Read 4144]" 4144 4144 4208 "[32, 32]"]]
  have "al_run 4208 [32, 32] (4144, [Start, Start]) (4176, [Got 4144 4176, Read 4144])" using f by simp
  from s [OF this al_step.exchange_fails [of 1 "[Got 4144 4176, Read 4144]" 4144 4176 4208 "[32, 32]"]]
  show ?thesis by simp
qed

theorem puddle_allocate_race_witness:
  "(4176 :: nat) \<le> 4208 \<and> (\<Sum>p\<leftarrow>[Got 4144 4176, Start]. case p of Got b e \<Rightarrow> e - b | _ \<Rightarrow> 0) = (4176 :: nat) - 4144"
proof -
  have "al_run 4208 [32, 32] (4144, replicate (length [32, 32 :: nat]) Start) (4176, [Got 4144 4176, Start])"
    using race_example by (simp add: numeral_2_eq_2)
  from puddle_allocate_race [OF this] show ?thesis by (simp add: UMAX_def)
qed

end
