(* ===== verification/Forwarded.thy ===== *)
theory Forwarded
  imports Free_Header
begin

text \<open>
  \<open>MM_ForwardedHeader\<close> (gc/structs/ForwardedHeader.hpp, ForwardedHeader.cpp), the header word through
  which the scavenger's threads agree where an object is copied to; the 64-bit build without
  compressed headers, with \<open>OMR_GC_CONCURRENT_SCAVENGER\<close>.

  An instance is created by one thread and holds the header word it has read (\<open>_preserved\<close>).  The
  forwarding slot is the first word of the object.
\<close>

section \<open>Bits\<close>

definition OMR_FORWARDED_TAG :: uword where
  "OMR_FORWARDED_TAG = 4"

definition OMR_BEING_COPIED_HINT :: uword where
  "OMR_BEING_COPIED_HINT = 2"

definition OMR_SELF_FORWARDED_TAG :: uword where
  "OMR_SELF_FORWARDED_TAG = J9_GC_MULTI_SLOT_HOLE"

definition OMR_BEING_COPIED_TAG :: uword where
  "OMR_BEING_COPIED_TAG = OMR_FORWARDED_TAG"

definition selfForwardedTag :: uword where
  "selfForwardedTag = OMR_FORWARDED_TAG OR OMR_SELF_FORWARDED_TAG"

abbreviation (input) OUTSTANDING_COPIES_SHIFT :: nat where
  "OUTSTANDING_COPIES_SHIFT \<equiv> 8"

definition MAX_OUTSTANDING_COPIES :: uword where
  "MAX_OUTSTANDING_COPIES = 4"

definition SIZE_ALIGNMENT :: uword where
  "SIZE_ALIGNMENT = 0xfff"

definition REMAINING_SIZE_MASK :: uword where
  "REMAINING_SIZE_MASK = NOT SIZE_ALIGNMENT"

definition OUTSTANDING_COPIES_MASK :: uword where
  "OUTSTANDING_COPIES_MASK = push_bit OUTSTANDING_COPIES_SHIFT 0xf"

definition COPY_PROGRESS_INFO_MASK :: uword where
  "COPY_PROGRESS_INFO_MASK = REMAINING_SIZE_MASK OR OUTSTANDING_COPIES_MASK"

definition SIZE_OF_SECTION_TO_COPY :: "uword \<Rightarrow> uword" where
  "SIZE_OF_SECTION_TO_COPY n = drop_bit 7 n"

definition minIncrement :: uword where
  "minIncrement = 131072 AND REMAINING_SIZE_MASK"

lemmas forwarded_bits = OMR_FORWARDED_TAG_def OMR_BEING_COPIED_HINT_def OMR_SELF_FORWARDED_TAG_def J9_GC_MULTI_SLOT_HOLE_def
  OMR_BEING_COPIED_TAG_def selfForwardedTag_def

section \<open>The header\<close>

record ForwardedHeader =
  fh_objectPtr :: addr
  fh_preserved :: uword

definition newForwardedHeader :: "addr \<Rightarrow> mem \<Rightarrow> ForwardedHeader" where
  "newForwardedHeader objectPtr m = \<lparr> fh_objectPtr = objectPtr, fh_preserved = m objectPtr \<rparr>"

definition isForwardedPointer :: "ForwardedHeader \<Rightarrow> bool" where
  "isForwardedPointer fh \<longleftrightarrow> OMR_FORWARDED_TAG = fh_preserved fh AND OMR_FORWARDED_TAG"

definition isSelfForwardedPointer :: "ForwardedHeader \<Rightarrow> bool" where
  "isSelfForwardedPointer fh \<longleftrightarrow> selfForwardedTag = fh_preserved fh AND selfForwardedTag"

definition isStrictlyForwardedPointer :: "ForwardedHeader \<Rightarrow> bool" where
  "isStrictlyForwardedPointer fh \<longleftrightarrow> OMR_FORWARDED_TAG = fh_preserved fh AND selfForwardedTag"

definition isBeingCopied :: "ForwardedHeader \<Rightarrow> bool" where
  "isBeingCopied fh \<longleftrightarrow> (OMR_BEING_COPIED_HINT OR OMR_FORWARDED_TAG) = fh_preserved fh AND (OMR_BEING_COPIED_HINT OR selfForwardedTag)"

definition getForwardedObject :: "ForwardedHeader \<Rightarrow> addr" where
  "getForwardedObject fh =
     (if isStrictlyForwardedPointer fh
      then unat (fh_preserved fh AND NOT (OMR_FORWARDED_TAG OR OMR_BEING_COPIED_HINT)) else NULL)"

definition getNonStrictForwardedObject :: "ForwardedHeader \<Rightarrow> addr" where
  "getNonStrictForwardedObject fh =
     (if isStrictlyForwardedPointer fh
      then unat (fh_preserved fh AND NOT (OMR_FORWARDED_TAG OR OMR_BEING_COPIED_HINT))
      else if isSelfForwardedPointer fh then fh_objectPtr fh else NULL)"

text \<open>\<open>lockCompareExchange\<close>: the value found, and the memory after the attempt.\<close>

definition lockCompareExchange :: "addr \<Rightarrow> uword \<Rightarrow> uword \<Rightarrow> mem \<Rightarrow> uword \<times> mem" where
  "lockCompareExchange a oldValue newValue m = (m a, if m a = oldValue then m(a := newValue) else m)"

definition setForwardedObjectInternal :: "addr \<Rightarrow> uword \<Rightarrow> ForwardedHeader \<Rightarrow> mem \<Rightarrow> addr \<times> mem" where
  "setForwardedObjectInternal destinationObjectPtr forwardedTag fh m =
     (let oldValue = fh_preserved fh; newValue = of_nat destinationObjectPtr OR forwardedTag;
          (found, m) = lockCompareExchange (fh_objectPtr fh) oldValue newValue m
      in if found \<noteq> oldValue then (getForwardedObject (newForwardedHeader (fh_objectPtr fh) m), m)
         else (destinationObjectPtr, m))"

definition setForwardedObject :: "addr \<Rightarrow> ForwardedHeader \<Rightarrow> mem \<Rightarrow> addr \<times> mem" where
  "setForwardedObject destinationObjectPtr = setForwardedObjectInternal destinationObjectPtr OMR_FORWARDED_TAG"

definition setForwardedObjectWithBeingCopiedHint :: "addr \<Rightarrow> ForwardedHeader \<Rightarrow> mem \<Rightarrow> addr \<times> mem" where
  "setForwardedObjectWithBeingCopiedHint destinationObjectPtr =
     setForwardedObjectInternal destinationObjectPtr (OMR_FORWARDED_TAG OR OMR_BEING_COPIED_HINT)"

definition setSelfForwardedObject :: "ForwardedHeader \<Rightarrow> mem \<Rightarrow> addr \<times> mem" where
  "setSelfForwardedObject fh m =
     (let oldValue = fh_preserved fh; newValue = oldValue OR selfForwardedTag;
          (found, m) = lockCompareExchange (fh_objectPtr fh) oldValue newValue m
      in if oldValue \<noteq> found then (getNonStrictForwardedObject (newForwardedHeader (fh_objectPtr fh) m), m)
         else (fh_objectPtr fh, m))"

definition restoreSelfForwardedPointer :: "ForwardedHeader \<Rightarrow> mem \<Rightarrow> mem" where
  "restoreSelfForwardedPointer fh m = m(fh_objectPtr fh := fh_preserved fh AND NOT selfForwardedTag)"

definition fixupForwardedObject :: "addr \<Rightarrow> ForwardedHeader \<Rightarrow> mem \<Rightarrow> mem" where
  "fixupForwardedObject destinationObjectPtr fh m = m(destinationObjectPtr := fh_preserved fh)"

definition commenceFixup_slot :: "uword \<Rightarrow> uword" where
  "commenceFixup_slot preserved = (preserved AND NOT COPY_PROGRESS_INFO_MASK) OR OMR_BEING_COPIED_TAG"

definition commitFixup_slot :: "uword \<Rightarrow> uword \<Rightarrow> uword" where
  "commitFixup_slot preserved slot =
     (preserved AND COPY_PROGRESS_INFO_MASK) OR (slot AND NOT COPY_PROGRESS_INFO_MASK AND NOT OMR_BEING_COPIED_TAG)"

definition commenceFixup :: "addr \<Rightarrow> ForwardedHeader \<Rightarrow> mem \<Rightarrow> mem" where
  "commenceFixup destinationObjectPtr fh m = m(destinationObjectPtr := commenceFixup_slot (fh_preserved fh))"

definition commitFixup :: "addr \<Rightarrow> ForwardedHeader \<Rightarrow> mem \<Rightarrow> mem" where
  "commitFixup destinationObjectPtr fh m =
     (let m = m(destinationObjectPtr := commitFixup_slot (fh_preserved fh) (m destinationObjectPtr))
      in m(fh_objectPtr fh := m (fh_objectPtr fh) AND NOT OMR_BEING_COPIED_HINT))"

definition getPreservedSlot :: "ForwardedHeader \<Rightarrow> uword" where
  "getPreservedSlot fh = fh_preserved fh"

definition isReverseForwardedPointer :: "ForwardedHeader \<Rightarrow> bool" where
  "isReverseForwardedPointer fh \<longleftrightarrow> J9_GC_MULTI_SLOT_HOLE = getPreservedSlot fh AND J9_GC_OBJ_HEAP_HOLE_MASK"

definition getReverseForwardedPointer :: "ForwardedHeader \<Rightarrow> mem \<Rightarrow> addr" where
  "getReverseForwardedPointer fh m = getNext m (fh_objectPtr fh)"

section \<open>Progress information\<close>

text \<open>The header of a copy in progress: bytes left, threads that help, and the tag.\<close>

definition progress :: "uword \<Rightarrow> uword \<Rightarrow> uword" where
  "progress remainingSizeToCopy outstandingCopies =
     (remainingSizeToCopy OR push_bit OUTSTANDING_COPIES_SHIFT outstandingCopies) OR OMR_BEING_COPIED_TAG"

definition progress_remaining :: "uword \<Rightarrow> uword" where
  "progress_remaining v = v AND REMAINING_SIZE_MASK"

definition progress_outstanding :: "uword \<Rightarrow> uword" where
  "progress_outstanding v = drop_bit OUTSTANDING_COPIES_SHIFT (v AND SIZE_ALIGNMENT)"

text \<open>\<open>copySetup\<close>: the size of the first section and the bytes left after it.\<close>

definition copySetup :: "uword \<Rightarrow> uword \<times> uword" where
  "copySetup remainingSizeToCopy =
     (let remaining = remainingSizeToCopy - 8;
          sizeToCopy = min remaining (max (SIZE_OF_SECTION_TO_COPY remaining) minIncrement);
          remaining = remaining - sizeToCopy;
          alignmentResidue = remaining AND SIZE_ALIGNMENT
      in (sizeToCopy + alignmentResidue, remaining - alignmentResidue))"

text \<open>
  \<open>winObjectSectionToCopy\<close> on the contents of the copy progress slot: the size of the section, 0 when
  the exchange fails, the bytes left, and the slot after the attempt.
\<close>

definition lockCompareExchangeObjectHeader :: "uword \<Rightarrow> uword \<Rightarrow> uword \<Rightarrow> uword \<times> uword" where
  "lockCompareExchangeObjectHeader slot oldValue newValue = (slot, if slot = oldValue then newValue else slot)"

definition section_size :: "uword \<Rightarrow> uword" where
  "section_size remaining = min remaining (max (SIZE_OF_SECTION_TO_COPY remaining AND NOT SIZE_ALIGNMENT) minIncrement)"

definition winObjectSectionToCopy :: "uword \<Rightarrow> uword \<Rightarrow> uword \<Rightarrow> uword \<Rightarrow> uword \<times> uword \<times> uword" where
  "winObjectSectionToCopy slot oldValue remaining outstandingCopies =
     (let sizeToCopy = section_size remaining; remaining = remaining - sizeToCopy;
          (found, slot) = lockCompareExchangeObjectHeader slot oldValue (progress remaining outstandingCopies)
      in (if oldValue = found then sizeToCopy else 0, remaining, slot))"

text \<open>
  \<open>copySection\<close> on the bytes that follow the header word: \<open>sizeToCopy\<close> bytes from the offset
  \<open>remainingSizeToCopy\<close> on.
\<close>

definition copySection :: "(nat \<Rightarrow> 8 word) \<Rightarrow> uword \<Rightarrow> uword \<Rightarrow> (nat \<Rightarrow> 8 word) \<Rightarrow> nat \<Rightarrow> 8 word" where
  "copySection src remainingSizeToCopy sizeToCopy dst =
     (\<lambda>i. if unat remainingSizeToCopy \<le> i \<and> i < unat remainingSizeToCopy + unat sizeToCopy then src i else dst i)"

section \<open>Lemmas on the bits\<close>

lemma mask12: "SIZE_ALIGNMENT = mask 12"
  by (simp add: SIZE_ALIGNMENT_def mask_eq_decr_exp)

lemma bit_progress_mask: "bit COPY_PROGRESS_INFO_MASK i \<longleftrightarrow> 8 \<le> i \<and> i < 64"
proof -
  have o: "OUTSTANDING_COPIES_MASK = push_bit 8 (mask 4)" by (simp add: OUTSTANDING_COPIES_MASK_def mask_eq_decr_exp)
  show ?thesis
    unfolding COPY_PROGRESS_INFO_MASK_def REMAINING_SIZE_MASK_def mask12 o
    by (auto simp: bit_or_iff bit_not_iff bit_mask_iff bit_push_bit_iff not_less)
qed

lemma bit_tag: "bit OMR_BEING_COPIED_TAG i \<longleftrightarrow> i = 2"
proof -
  have t: "OMR_BEING_COPIED_TAG = 2 ^ 2" by (simp add: forwarded_bits)
  show ?thesis unfolding t by (simp only: bit_exp_iff) auto
qed

text \<open>The two steps of the fixup restore the header that was preserved.\<close>

lemma fixup_restores:
  assumes "\<not> bit preserved 2"
  shows "commitFixup_slot preserved (commenceFixup_slot preserved) = preserved"
  by (rule bit_word_eqI)
    (use assms in \<open>auto simp: commitFixup_slot_def commenceFixup_slot_def bit_or_iff bit_and_iff bit_not_iff bit_progress_mask bit_tag\<close>)

lemma commence_progress:
  "progress_remaining (commenceFixup_slot preserved) = 0" "progress_outstanding (commenceFixup_slot preserved) = 0"
  "bit (commenceFixup_slot preserved) 2"
proof -
  show "progress_remaining (commenceFixup_slot preserved) = 0"
    by (rule bit_word_eqI) (auto simp: progress_remaining_def commenceFixup_slot_def REMAINING_SIZE_MASK_def mask12 bit_or_iff bit_and_iff
      bit_not_iff bit_progress_mask bit_tag bit_mask_iff)
  show "progress_outstanding (commenceFixup_slot preserved) = 0"
    by (rule bit_word_eqI) (auto simp: progress_outstanding_def commenceFixup_slot_def mask12 bit_or_iff bit_and_iff
      bit_not_iff bit_progress_mask bit_tag bit_mask_iff bit_drop_bit_eq)
  show "bit (commenceFixup_slot preserved) 2" by (simp add: commenceFixup_slot_def bit_or_iff bit_tag)
qed

text \<open>Encoding and decoding of the progress information.\<close>

definition aligned_size :: "uword \<Rightarrow> bool" where
  "aligned_size r \<longleftrightarrow> r AND SIZE_ALIGNMENT = 0"

lemma aligned_size_bits: "aligned_size r \<longleftrightarrow> (\<forall>i < 12. \<not> bit r i)"
proof
  assume a: "aligned_size r"
  have "bit (r AND mask 12) i \<longleftrightarrow> bit r i" if "i < 12" for i
    using that by (simp add: bit_and_iff bit_mask_iff)
  then show "\<forall>i < 12. \<not> bit r i" using a unfolding aligned_size_def mask12 by simp
next
  assume "\<forall>i < 12. \<not> bit r i"
  then show "aligned_size r" unfolding aligned_size_def mask12
    by (intro bit_word_eqI) (auto simp: bit_and_iff bit_mask_iff)
qed

lemma small_bits:
  fixes n :: uword
  assumes "n < 16" "bit n i"
  shows "i < 4"
proof (rule ccontr)
  assume "\<not> i < 4"
  then have "(2::nat) ^ 4 \<le> 2 ^ i" by (intro power_increasing) auto
  moreover have "unat n < 2 ^ 4" using assms(1) by (simp add: word_less_nat_alt)
  ultimately have "unat n < 2 ^ i" by (rule less_le_trans [rotated])
  then have "unat n div 2 ^ i = 0" by (rule div_less)
  moreover have "bit (unat n) i" using assms(2) bit_imp_le_length [OF assms(2)] by (simp only: bit_unsigned_iff possible_bit_def) simp
  ultimately show False by (simp only: bit_iff_odd) simp
qed

lemma progress_decode:
  assumes "aligned_size r" "n < 16"
  shows "progress_remaining (progress r n) = r" "progress_outstanding (progress r n) = n" "bit (progress r n) 2"
proof -
  have r: "\<And>i. i < 12 \<Longrightarrow> \<not> bit r i" using assms(1) by (simp add: aligned_size_bits)
  note n = small_bits [OF assms(2)]
  show "progress_remaining (progress r n) = r"
    by (rule bit_word_eqI) (use r n in \<open>fastforce simp: progress_remaining_def progress_def REMAINING_SIZE_MASK_def mask12 bit_or_iff bit_and_iff
      bit_not_iff bit_tag bit_mask_iff bit_push_bit_iff\<close>)
  show "progress_outstanding (progress r n) = n"
  proof (rule bit_word_eqI)
    fix i assume "i < LENGTH(64)"
    have "bit (progress_outstanding (progress r n)) i \<longleftrightarrow> i < 4 \<and> bit n i"
      using r [of "8 + i"] by (auto simp: progress_outstanding_def progress_def mask12 bit_or_iff bit_and_iff
        bit_tag bit_mask_iff bit_push_bit_iff bit_drop_bit_eq add.commute)
    then show "bit (progress_outstanding (progress r n)) i \<longleftrightarrow> bit n i" using n by blast
  qed
  show "bit (progress r n) 2" by (simp add: progress_def bit_or_iff bit_tag)
qed

lemma progress_remaining_aligned: "aligned_size (progress_remaining v)"
  by (simp add: aligned_size_bits progress_remaining_def REMAINING_SIZE_MASK_def mask12 bit_and_iff bit_not_iff bit_mask_iff)

text \<open>Sizes of sections.\<close>

lemma unat_low12: "unat (v AND SIZE_ALIGNMENT) = unat v mod 4096"
proof -
  have "v AND SIZE_ALIGNMENT = v mod 4096" unfolding mask12 by (simp flip: take_bit_eq_mask add: take_bit_eq_mod)
  then show ?thesis by (simp add: unat_mod_distrib)
qed

lemma aligned_size_dvd: "aligned_size r \<longleftrightarrow> 4096 dvd unat r"
  unfolding aligned_size_def by (metis dvd_eq_mod_eq_0 unat_eq_zero unat_low12)

lemma aligned_size_diff: "aligned_size r \<Longrightarrow> aligned_size s \<Longrightarrow> s \<le> r \<Longrightarrow> aligned_size (r - s)"
  by (simp add: aligned_size_dvd unat_sub)

lemma aligned_minIncrement: "aligned_size minIncrement" "0 < minIncrement"
  by (simp_all add: aligned_size_def minIncrement_def REMAINING_SIZE_MASK_def SIZE_ALIGNMENT_def)

lemma aligned_clear: "aligned_size (v AND NOT SIZE_ALIGNMENT)"
  by (simp add: aligned_size_bits mask12 bit_and_iff bit_not_iff bit_mask_iff)

lemma section_sizes:
  assumes "aligned_size r"
  shows "section_size r \<le> r" "aligned_size (section_size r)" "r \<noteq> 0 \<Longrightarrow> 0 < section_size r" "aligned_size (r - section_size r)"
proof -
  show 1: "section_size r \<le> r" by (simp add: section_size_def)
  show 2: "aligned_size (section_size r)"
    using assms aligned_minIncrement(1) aligned_clear unfolding section_size_def min_def max_def by auto
  show "0 < section_size r" if "r \<noteq> 0"
    using that aligned_minIncrement(2) unfolding section_size_def min_def max_def
    by (auto simp: word_neq_0_conv)
  show "aligned_size (r - section_size r)" by (rule aligned_size_diff [OF assms 2 1])
qed

lemma copySetup_sizes:
  assumes "copySetup objectSize = (sizeToCopy, remaining)" "8 \<le> objectSize"
  shows "aligned_size remaining" "unat remaining + unat sizeToCopy = unat objectSize - 8"
proof -
  define r where "r = objectSize - 8"
  define s where "s = min r (max (SIZE_OF_SECTION_TO_COPY r) minIncrement)"
  have s: "s \<le> r" by (simp add: s_def)
  have e: "sizeToCopy = s + ((r - s) AND SIZE_ALIGNMENT)" "remaining = (r - s) - ((r - s) AND SIZE_ALIGNMENT)"
    using assms(1) by (simp_all add: copySetup_def Let_def r_def s_def)
  have le: "(r - s) AND SIZE_ALIGNMENT \<le> r - s" by (rule word_and_le2)
  note m = unat_low12 [of "r - s"]
  have rem: "unat remaining = unat (r - s) - unat (r - s) mod 4096" using e(2) le m by (simp add: unat_sub)
  show "aligned_size remaining" unfolding aligned_size_dvd rem by simp
  have "sizeToCopy = r - remaining" by (simp add: e)
  moreover have "remaining \<le> r"
    using rem s by (simp add: word_le_nat_alt unat_sub)
  ultimately show "unat remaining + unat sizeToCopy = unat objectSize - 8"
    using assms(2) by (simp add: r_def unat_sub word_le_nat_alt)
qed

end
