(* ===== verification/Object_Model.thy ===== *)
theory Object_Model
  imports Forwarded
begin

text \<open>
  The object model's part of a header, \<open>GC_ObjectModelBase\<close> (gc/base/ObjectModelBase.hpp): the eight flag bits
  with the age of a new object or the remembered state of an old one, the sizes of objects and of holes, and the
  atomic operations by which threads change the flags.  Where the flags are in the header is the client's
  choice (\<open>getObjectHeaderSlotFlagsShift\<close> of its delegate), here \<open>flagsShift\<close>.
\<close>

section \<open>Flags\<close>

definition OMR_OBJECT_METADATA_FLAGS_MASK :: uword where
  "OMR_OBJECT_METADATA_FLAGS_MASK = 0xFF"

definition OMR_OBJECT_METADATA_AGE_MASK :: uword where
  "OMR_OBJECT_METADATA_AGE_MASK = 0xF0"

abbreviation (input) OMR_OBJECT_METADATA_AGE_SHIFT :: nat where
  "OMR_OBJECT_METADATA_AGE_SHIFT \<equiv> 4"

definition STATE_NOT_REMEMBERED :: uword where
  "STATE_NOT_REMEMBERED = 0"

definition STATE_REMEMBERED :: uword where
  "STATE_REMEMBERED = 0x10"

text \<open>The operations on the contents of the header slot.\<close>

definition getObjectFlags :: "nat \<Rightarrow> uword \<Rightarrow> uword" where
  "getObjectFlags flagsShift header = drop_bit flagsShift header AND OMR_OBJECT_METADATA_FLAGS_MASK"

definition getObjectAge :: "nat \<Rightarrow> uword \<Rightarrow> uword" where
  "getObjectAge flagsShift header = drop_bit OMR_OBJECT_METADATA_AGE_SHIFT (getObjectFlags flagsShift header)"

definition setObjectFlags :: "nat \<Rightarrow> uword \<Rightarrow> uword \<Rightarrow> uword \<Rightarrow> uword" where
  "setObjectFlags flagsShift bitsToClear bitsToSet header =
     (header AND NOT (push_bit flagsShift bitsToClear)) OR push_bit flagsShift bitsToSet"

definition setRememberedBits :: "nat \<Rightarrow> uword \<Rightarrow> uword \<Rightarrow> uword" where
  "setRememberedBits flagsShift bits = setObjectFlags flagsShift OMR_OBJECT_METADATA_AGE_MASK bits"

definition getRememberedBits :: "nat \<Rightarrow> uword \<Rightarrow> uword" where
  "getRememberedBits flagsShift header = getObjectFlags flagsShift header AND OMR_OBJECT_METADATA_AGE_MASK"

definition isRemembered :: "nat \<Rightarrow> uword \<Rightarrow> bool" where
  "isRemembered flagsShift header \<longleftrightarrow> STATE_REMEMBERED \<le> getRememberedBits flagsShift header"

definition clearRemembered :: "nat \<Rightarrow> uword \<Rightarrow> uword" where
  "clearRemembered flagsShift = setRememberedBits flagsShift STATE_NOT_REMEMBERED"

definition getPreservedFlags :: "nat \<Rightarrow> ForwardedHeader \<Rightarrow> uword" where
  "getPreservedFlags flagsShift forwardedHeader = drop_bit flagsShift (fh_preserved forwardedHeader) AND OMR_OBJECT_METADATA_FLAGS_MASK"

definition getPreservedAge :: "nat \<Rightarrow> ForwardedHeader \<Rightarrow> uword" where
  "getPreservedAge flagsShift forwardedHeader =
     drop_bit OMR_OBJECT_METADATA_AGE_SHIFT (getPreservedFlags flagsShift forwardedHeader AND OMR_OBJECT_METADATA_AGE_MASK)"

text \<open>\<open>fixupForwardedObject\<close> of the object model, on the header of the destination.\<close>

definition fixupForwardedObject_age :: "nat \<Rightarrow> uword \<Rightarrow> uword \<Rightarrow> uword" where
  "fixupForwardedObject_age flagsShift objectAge =
     setObjectFlags flagsShift OMR_OBJECT_METADATA_AGE_MASK (push_bit OMR_OBJECT_METADATA_AGE_SHIFT objectAge)"

section \<open>Sizes and holes\<close>

definition adjustSizeInBytes :: "uword \<Rightarrow> uword \<Rightarrow> uword" where
  "adjustSizeInBytes objectAlignmentInBytes sizeInBytes =
     (let sizeInBytes = (sizeInBytes + (objectAlignmentInBytes - 1)) AND NOT (objectAlignmentInBytes - 1)
      in if sizeInBytes < 16 then 16 else sizeInBytes)"

text \<open>
  The adjusted size is the least multiple of the alignment that holds the object and is not below the minimum
  object size; for an object of at least one byte it is a multiple of the alignment whatever that is.
\<close>

lemma unat_clear_low: "unat (v AND NOT (mask k) :: uword) = unat v div 2 ^ k * 2 ^ k"
proof -
  have e: "(v AND mask k) + (v AND NOT (mask k)) = v" by (simp add: disjunctive_add bit_and_iff bit_not_iff flip: bit.conj_disj_distrib)
  have m: "unat (v AND mask k) = unat v mod 2 ^ k"
    by (simp flip: take_bit_eq_mask add: unsigned_take_bit_eq) (simp add: take_bit_eq_mod)
  have "v AND NOT (mask k) = v - (v AND mask k)" using e by (metis add_diff_cancel_left')
  then have "unat (v AND NOT (mask k)) = unat v - unat v mod 2 ^ k" using m unat_sub [OF word_and_le2 [of v "mask k"]] by simp
  then show ?thesis by (simp add: minus_mod_eq_div_mult)
qed

lemma adjustSizeInBytes_least:
  assumes "objectAlignmentInBytes = 2 ^ k" "k < 64" "unat sizeInBytes + 2 ^ k \<le> 2 ^ 64"
  shows "unat (adjustSizeInBytes objectAlignmentInBytes sizeInBytes) = max 16 ((unat sizeInBytes + 2 ^ k - 1) div 2 ^ k * 2 ^ k)"
proof -
  have m: "objectAlignmentInBytes - 1 = mask k" by (simp add: assms(1) mask_eq_decr_exp)
  have k: "unat (mask k :: uword) = 2 ^ k - 1"
  proof -
    have "unat (mask k :: uword) = mask k"
      by (rule bit_eqI) (use assms(2) in \<open>auto simp: bit_unsigned_iff bit_mask_iff\<close>)
    then show ?thesis by (simp add: mask_eq_exp_minus_1)
  qed
  have "unat (sizeInBytes + mask k) = (unat sizeInBytes + (2 ^ k - 1)) mod 2 ^ 64" by (simp add: unat_word_ariths k)
  moreover have "unat sizeInBytes + (2 ^ k - 1) < 2 ^ 64"
  proof -
    have "0 < (2::nat) ^ k" by simp
    then show ?thesis using assms(3) by linarith
  qed
  ultimately have "unat (sizeInBytes + mask k) = unat sizeInBytes + (2 ^ k - 1)" by simp
  then have "unat ((sizeInBytes + mask k) AND NOT (mask k)) = (unat sizeInBytes + 2 ^ k - 1) div 2 ^ k * 2 ^ k"
    by (simp add: unat_clear_low)
  then show ?thesis by (simp add: adjustSizeInBytes_def Let_def m word_less_nat_alt max_def)
qed

definition J9_GC_OBJ_HEAP_HOLE :: uword where
  "J9_GC_OBJ_HEAP_HOLE = 1"

definition isDeadObject :: "uword \<Rightarrow> bool" where
  "isDeadObject header \<longleftrightarrow> J9_GC_OBJ_HEAP_HOLE = header AND (J9_GC_OBJ_HEAP_HOLE OR OMR_FORWARDED_TAG)"

definition isSingleSlotDeadObject :: "uword \<Rightarrow> bool" where
  "isSingleSlotDeadObject header \<longleftrightarrow> J9_GC_SINGLE_SLOT_HOLE = header AND J9_GC_OBJ_HEAP_HOLE_MASK"

definition getSizeInBytesDeadObject :: "mem \<Rightarrow> addr \<Rightarrow> nat" where
  "getSizeInBytesDeadObject m objectPtr = (if isSingleSlotDeadObject (m objectPtr) then 8 else getSize m objectPtr)"

section \<open>Atomic changes\<close>

text \<open>
  The four operations are one loop: read the header, decide, and return or try to exchange the header and start
  over when that fails.  What an operation decides on the value it has read is to return a result, or to store
  a value, and the result when the exchange succeeds.
\<close>

datatype decision = Return bool | Exchange uword bool

datatype flags_op = SetObjectFlags uword uword  \<comment> \<open>\<open>bitsToClear\<close>, \<open>bitsToSet\<close>\<close>
  | SwitchReferencedStateFrom uword uword       \<comment> \<open>\<open>fromState\<close>, \<open>toState\<close>\<close>
  | SwitchReferencedState uword                 \<comment> \<open>\<open>toState\<close>\<close>
  | SetRememberedState uword                    \<comment> \<open>\<open>toState\<close>\<close>

definition rememberedMask :: "nat \<Rightarrow> uword" where
  "rememberedMask flagsShift = push_bit flagsShift OMR_OBJECT_METADATA_AGE_MASK"

definition atomicSetObjectFlags :: "nat \<Rightarrow> uword \<Rightarrow> uword \<Rightarrow> uword \<Rightarrow> decision" where
  "atomicSetObjectFlags flagsShift bitsToClear bitsToSet oldFlags =
     (let newFlags = (oldFlags AND NOT (push_bit flagsShift bitsToClear)) OR push_bit flagsShift bitsToSet
      in if newFlags = oldFlags then Return False else Exchange newFlags True)"

definition atomicSwitchReferencedStateFrom :: "nat \<Rightarrow> uword \<Rightarrow> uword \<Rightarrow> uword \<Rightarrow> decision" where
  "atomicSwitchReferencedStateFrom flagsShift fromState toState oldFlags =
     (if oldFlags AND rememberedMask flagsShift = push_bit flagsShift fromState
      then Exchange ((oldFlags AND NOT (rememberedMask flagsShift)) OR push_bit flagsShift toState) True
      else Return False)"

definition atomicSwitchReferencedState :: "nat \<Rightarrow> uword \<Rightarrow> uword \<Rightarrow> decision" where
  "atomicSwitchReferencedState flagsShift toState oldFlags =
     (let newFlags = (oldFlags AND NOT (rememberedMask flagsShift)) OR push_bit flagsShift toState
      in if newFlags = oldFlags then Return False
         else Exchange newFlags (0 = oldFlags AND rememberedMask flagsShift))"

definition atomicSetRememberedState :: "nat \<Rightarrow> uword \<Rightarrow> uword \<Rightarrow> decision" where
  "atomicSetRememberedState flagsShift toState oldFlags =
     (if 0 \<noteq> oldFlags AND rememberedMask flagsShift then Return False
      else Exchange ((oldFlags AND NOT (rememberedMask flagsShift)) OR push_bit flagsShift toState) True)"

fun decide :: "nat \<Rightarrow> flags_op \<Rightarrow> uword \<Rightarrow> decision" where
  "decide sh (SetObjectFlags bitsToClear bitsToSet) = atomicSetObjectFlags sh bitsToClear bitsToSet"
| "decide sh (SwitchReferencedStateFrom fromState toState) = atomicSwitchReferencedStateFrom sh fromState toState"
| "decide sh (SwitchReferencedState toState) = atomicSwitchReferencedState sh toState"
| "decide sh (SetRememberedState toState) = atomicSetRememberedState sh toState"

text \<open>A thread is about to read the header, has read it and is about to exchange it, or has returned.\<close>

datatype flags_pc = Reading | Exchanging uword | Returned bool

inductive flags_step :: "nat \<Rightarrow> flags_op list \<Rightarrow> uword \<times> flags_pc list \<Rightarrow> uword \<times> flags_pc list \<Rightarrow> bool" for sh ops where
  read_return: "t < length pcs \<Longrightarrow> pcs ! t = Reading \<Longrightarrow> decide sh (ops ! t) h = Return r \<Longrightarrow>
    flags_step sh ops (h, pcs) (h, pcs[t := Returned r])"
| read_exchange: "t < length pcs \<Longrightarrow> pcs ! t = Reading \<Longrightarrow> decide sh (ops ! t) h = Exchange h' r \<Longrightarrow>
    flags_step sh ops (h, pcs) (h, pcs[t := Exchanging h])"
| exchange: "t < length pcs \<Longrightarrow> pcs ! t = Exchanging h \<Longrightarrow> decide sh (ops ! t) h = Exchange h' r \<Longrightarrow>
    flags_step sh ops (h, pcs) (h', pcs[t := Returned r])"
| exchange_fails: "t < length pcs \<Longrightarrow> pcs ! t = Exchanging oldFlags \<Longrightarrow> oldFlags \<noteq> h \<Longrightarrow>
    flags_step sh ops (h, pcs) (h, pcs[t := Reading])"

inductive flags_run :: "nat \<Rightarrow> flags_op list \<Rightarrow> uword \<Rightarrow> uword \<times> flags_pc list \<Rightarrow> bool" for sh ops h0 where
  start: "flags_run sh ops h0 (h0, replicate (length ops) Reading)"
| step: "flags_run sh ops h0 s \<Longrightarrow> flags_step sh ops s s' \<Longrightarrow> flags_run sh ops h0 s'"

text \<open>The specification: the operation in one piece, and a sequence of threads one after the other.\<close>

definition apply_op :: "nat \<Rightarrow> flags_op \<Rightarrow> uword \<Rightarrow> bool \<times> uword" where
  "apply_op sh f h = (case decide sh f h of Return r \<Rightarrow> (r, h) | Exchange h' r \<Rightarrow> (r, h'))"

fun apply_ops :: "nat \<Rightarrow> flags_op list \<Rightarrow> uword \<Rightarrow> bool list \<times> uword" where
  "apply_ops sh [] h = ([], h)"
| "apply_ops sh (f # fs) h = (let (r, h) = apply_op sh f h; (rs, h) = apply_ops sh fs h in (r # rs, h))"

definition returned :: "flags_pc list \<Rightarrow> nat set" where
  "returned pcs = {t. t < length pcs \<and> (\<exists>r. pcs ! t = Returned r)}"

fun result :: "flags_pc \<Rightarrow> bool" where
  "result (Returned r) = r"
| "result _ = False"

definition linearized :: "nat \<Rightarrow> flags_op list \<Rightarrow> uword \<Rightarrow> uword \<Rightarrow> flags_pc list \<Rightarrow> nat list \<Rightarrow> bool" where
  "linearized sh ops h0 h pcs ts \<longleftrightarrow> distinct ts \<and> set ts = returned pcs
     \<and> apply_ops sh (map ((!) ops) ts) h0 = (map (\<lambda>t. result (pcs ! t)) ts, h)"

lemma apply_ops_append:
  "apply_ops sh (fs @ gs) h = (let (rs, h) = apply_ops sh fs h; (rs', h) = apply_ops sh gs h in (rs @ rs', h))"
  by (induction fs arbitrary: h) (auto split: prod.splits)

lemma results_update: "t \<notin> set ts \<Longrightarrow> map (\<lambda>u. result (pcs[t := pc] ! u)) ts = map (\<lambda>u. result (pcs ! u)) ts"
  by (induction ts) auto

lemma linearized_moves:
  assumes "linearized sh ops h0 h pcs ts" "t < length pcs" "t \<notin> returned pcs" "\<And>r. pc \<noteq> Returned r"
  shows "linearized sh ops h0 h (pcs[t := pc]) ts"
proof -
  have "returned (pcs[t := pc]) = returned pcs" using assms(2-4) by (auto simp: returned_def nth_list_update)
  moreover have "map (\<lambda>u. result (pcs[t := pc] ! u)) ts = map (\<lambda>u. result (pcs ! u)) ts"
    using assms(1,3) by (intro results_update) (simp add: linearized_def)
  ultimately show ?thesis using assms(1) by (simp add: linearized_def)
qed

lemma linearized_returns:
  assumes "linearized sh ops h0 h pcs ts" "t < length pcs" "t \<notin> returned pcs" "apply_op sh (ops ! t) h = (r, h')"
  shows "linearized sh ops h0 h' (pcs[t := Returned r]) (ts @ [t])"
proof -
  have "returned (pcs[t := Returned r]) = insert t (returned pcs)" using assms(2) by (auto simp: returned_def nth_list_update)
  moreover have "map (\<lambda>u. result (pcs[t := Returned r] ! u)) ts = map (\<lambda>u. result (pcs ! u)) ts"
    using assms(1,3) by (intro results_update) (simp add: linearized_def)
  ultimately show ?thesis using assms by (auto simp: linearized_def apply_ops_append)
qed

lemma flags_run_linearized:
  assumes "flags_run sh ops h0 s"
  shows "length (snd s) = length ops \<and> (\<exists>ts. linearized sh ops h0 (fst s) (snd s) ts)"
  using assms
proof induction
  case start
  have "linearized sh ops h0 h0 (replicate (length ops) Reading) []" by (simp add: linearized_def returned_def)
  then show ?case by auto
next
  case (step s s')
  then obtain ts where l: "length (snd s) = length ops" "linearized sh ops h0 (fst s) (snd s) ts" by blast
  from step.hyps(2) show ?case
  proof cases
    case (read_return t pcs h r)
    have "linearized sh ops h0 h (pcs[t := Returned r]) (ts @ [t])"
      by (rule linearized_returns [where h = h]) (use l read_return in \<open>simp_all add: returned_def apply_op_def\<close>)
    then show ?thesis using l read_return by auto
  next
    case (read_exchange t pcs h h' r)
    have "linearized sh ops h0 h (pcs[t := Exchanging h]) ts"
      by (rule linearized_moves) (use l read_exchange in \<open>simp_all add: returned_def\<close>)
    then show ?thesis using l read_exchange by auto
  next
    case (exchange t pcs h h' r)
    have "linearized sh ops h0 h' (pcs[t := Returned r]) (ts @ [t])"
      by (rule linearized_returns [where h = h]) (use l exchange in \<open>simp_all add: returned_def apply_op_def\<close>)
    then show ?thesis using l exchange by auto
  next
    case (exchange_fails t pcs oldFlags h)
    have "linearized sh ops h0 h (pcs[t := Reading]) ts"
      by (rule linearized_moves) (use l exchange_fails in \<open>simp_all add: returned_def\<close>)
    then show ?thesis using l exchange_fails by auto
  qed
qed


lemma sample_flags_run:
  "flags_run 0 [SetRememberedState 0x10, SetObjectFlags 0xF0 0x20] 0 (0x20, [Returned True, Returned True])"
proof -
  let ?ops = "[SetRememberedState 0x10, SetObjectFlags 0xF0 0x20]"
  note e = atomicSetRememberedState_def atomicSetObjectFlags_def rememberedMask_def OMR_OBJECT_METADATA_AGE_MASK_def
  have 0: "flags_run 0 ?ops 0 (0, [Reading, Reading])" using flags_run.start [of 0 ?ops 0] by (simp add: numeral_2_eq_2)
  have 1: "flags_run 0 ?ops 0 (0, [Exchanging 0, Reading])"
    using flags_run.step [OF 0 flags_step.read_exchange [where t = 0 and h' = "0x10" and r = True]] by (simp add: e)
  have 2: "flags_run 0 ?ops 0 (0, [Exchanging 0, Exchanging 0])"
    using flags_run.step [OF 1 flags_step.read_exchange [where t = 1 and h' = "0x20" and r = True]] by (simp add: e)
  have 3: "flags_run 0 ?ops 0 (0x10, [Returned True, Exchanging 0])"
    using flags_run.step [OF 2 flags_step.exchange [where t = 0 and h' = "0x10" and r = True]] by (simp add: e)
  have 4: "flags_run 0 ?ops 0 (0x10, [Returned True, Reading])"
    using flags_run.step [OF 3 flags_step.exchange_fails [where t = 1 and oldFlags = 0]] by simp
  have 5: "flags_run 0 ?ops 0 (0x10, [Returned True, Exchanging 0x10])"
    using flags_run.step [OF 4 flags_step.read_exchange [where t = 1 and h' = "0x20" and r = True]] by (simp add: e)
  show ?thesis
    using flags_run.step [OF 5 flags_step.exchange [where t = 1 and h' = "0x20" and r = True]] by (simp add: e)
qed


section \<open>Remembering an object once\<close>

text \<open>A state to switch to: some of the remembered bits, and those only, for flags that lie within the header.\<close>

definition remembered_state :: "nat \<Rightarrow> uword \<Rightarrow> bool" where
  "remembered_state flagsShift toState \<longleftrightarrow> flagsShift \<le> 56 \<and> toState \<noteq> 0 \<and> toState AND OMR_OBJECT_METADATA_AGE_MASK = toState"

lemma remembered_state_bits:
  assumes "remembered_state sh toState"
  shows "((h AND NOT (rememberedMask sh)) OR push_bit sh toState) AND rememberedMask sh = push_bit sh toState" "push_bit sh toState \<noteq> 0"
proof -
  have "push_bit sh toState AND rememberedMask sh = push_bit sh toState"
    using assms by (simp add: remembered_state_def rememberedMask_def flip: push_bit_and)
  then show "((h AND NOT (rememberedMask sh)) OR push_bit sh toState) AND rememberedMask sh = push_bit sh toState"
    by (simp add: bit.conj_disj_distrib2 and.assoc)
  obtain i where i: "bit toState i" using assms by (auto simp: remembered_state_def bit_eq_iff)
  then have "bit (toState AND OMR_OBJECT_METADATA_AGE_MASK) i" using assms by (simp add: remembered_state_def)
  then have "bit OMR_OBJECT_METADATA_AGE_MASK i" by (simp add: bit_and_iff)
  moreover have m: "OMR_OBJECT_METADATA_AGE_MASK = push_bit 4 (mask 4)" by (simp add: OMR_OBJECT_METADATA_AGE_MASK_def mask_eq_decr_exp)
  ultimately have "i < 8" unfolding m by (simp only: bit_push_bit_iff bit_mask_iff) auto
  then have "bit (push_bit sh toState) (sh + i)" using i assms by (simp add: bit_push_bit_iff remembered_state_def)
  then show "push_bit sh toState \<noteq> 0" by (metis bit_0_eq bot_apply bot_bool_def)
qed

lemma remembered_false:
  assumes "h AND rememberedMask sh \<noteq> 0"
  shows "apply_ops sh (map SetRememberedState xs) h = (replicate (length xs) False, h)"
  using assms by (induction xs) (simp_all add: apply_op_def atomicSetRememberedState_def)

lemma remembered_first:
  assumes "h AND rememberedMask sh = 0" "remembered_state sh x"
  shows "apply_ops sh (map SetRememberedState (x # xs)) h
    = (True # replicate (length xs) False, (h AND NOT (rememberedMask sh)) OR push_bit sh x)"
  using remembered_false [of "(h AND NOT (rememberedMask sh)) OR push_bit sh x" sh xs] remembered_state_bits(1) [OF assms(2), of h] remembered_state_bits(2) [OF assms(2)] assms(1)
  by (simp add: apply_op_def atomicSetRememberedState_def)

text \<open>
  C39: An object is remembered once.  When threads race to set the remembered state of an object that has none,
  and all of them have returned, exactly one of them has been told that it did, and the state is the one that
  thread asked for; the bits of the header outside the remembered state are as before.
\<close>

theorem remembered_once:
  assumes "h0 AND rememberedMask flagsShift = 0" "list_all (remembered_state flagsShift) toStates" "toStates \<noteq> []"
    and "flags_run flagsShift (map SetRememberedState toStates) h0 (h, pcs)" "list_all (\<lambda>pc. \<exists>r. pc = Returned r) pcs"
  shows "\<exists>t < length toStates. pcs ! t = Returned True \<and> (\<forall>u < length toStates. u \<noteq> t \<longrightarrow> pcs ! u = Returned False)
    \<and> h = (h0 AND NOT (rememberedMask flagsShift)) OR push_bit flagsShift (toStates ! t)"
proof -
  let ?n = "length toStates"
  have run: "length pcs = ?n \<and> (\<exists>ts. linearized flagsShift (map SetRememberedState toStates) h0 h pcs ts)"
    using flags_run_linearized [OF assms(4)] by simp
  then obtain ts where lin: "linearized flagsShift (map SetRememberedState toStates) h0 h pcs ts" by (elim conjE exE)
  have n: "length pcs = ?n" using run by (rule conjunct1)
  note l = lin [unfolded linearized_def, THEN conjunct1] lin [unfolded linearized_def, THEN conjunct2, THEN conjunct1]
    lin [unfolded linearized_def, THEN conjunct2, THEN conjunct2]
  have ret: "\<exists>r. pcs ! u = Returned r" if "u < ?n" for u using assms(5) that n by (simp add: list_all_length)
  have all: "returned pcs = {..<?n}" unfolding returned_def n
    by (rule set_eqI, unfold mem_Collect_eq lessThan_iff) (rule iffI, erule conjunct1, rule conjI, assumption, erule ret)
  have set_ts: "set ts = {..<?n}" using l(2) all by (rule trans)
  have "0 \<in> set ts" unfolding set_ts using assms(3) by simp
  then obtain t us where ts: "ts = t # us" by (cases ts) auto
  have t: "t < ?n" and us: "set us = {..<?n} - {t}" using l(1) set_ts unfolding ts by auto
  have e: "map ((!) (map SetRememberedState toStates)) ts = map SetRememberedState (toStates ! t # map ((!) toStates) us)"
  proof -
    have "map ((!) (map SetRememberedState toStates)) ts = map (\<lambda>u. SetRememberedState (toStates ! u)) ts"
      by (rule map_cong [OF refl]) (use set_ts in simp)
    then show ?thesis by (simp add: ts o_def)
  qed
  have st: "remembered_state flagsShift (toStates ! t)" using assms(2) t by (simp add: list_all_length)
  have "(map (\<lambda>t. result (pcs ! t)) ts, h) = (True # replicate (length us) False,
      (h0 AND NOT (rememberedMask flagsShift)) OR push_bit flagsShift (toStates ! t))"
    using trans [OF l(3) [unfolded e, symmetric] remembered_first [OF assms(1) st, of "map ((!) toStates) us"]] by simp
  then have r: "result (pcs ! t)" "map (\<lambda>t. result (pcs ! t)) us = replicate (length us) False"
    and h: "h = (h0 AND NOT (rememberedMask flagsShift)) OR push_bit flagsShift (toStates ! t)" using ts by auto
  have f: "\<not> result (pcs ! u)" if "u \<in> set us" for u
  proof
    assume "result (pcs ! u)"
    then have "True \<in> set (map (\<lambda>t. result (pcs ! t)) us)" using that by force
    then show False unfolding r(2) by simp
  qed
  have w: "pcs ! t = Returned True" using ret [OF t] r(1) by auto
  have o: "pcs ! u = Returned False" if "u < ?n" "u \<noteq> t" for u
  proof -
    have "u \<in> set us" unfolding us using that by simp
    from f [OF this] ret [OF that(1)] show ?thesis by (elim exE) simp
  qed
  show ?thesis by (rule exI [of _ t], intro conjI allI impI) (rule t, rule w, erule o, assumption, rule h)
qed

lemma sample_remembered_run: "flags_run 0 (map SetRememberedState [0x10, 0x20]) 3 (0x23, [Returned False, Returned True])"
proof -
  let ?ops = "map SetRememberedState [0x10, 0x20]"
  note e = atomicSetRememberedState_def rememberedMask_def OMR_OBJECT_METADATA_AGE_MASK_def
  have 0: "flags_run 0 ?ops 3 (3, [Reading, Reading])" using flags_run.start [of 0 ?ops 3] by (simp add: numeral_2_eq_2)
  have 1: "flags_run 0 ?ops 3 (3, [Exchanging 3, Reading])"
    using flags_run.step [OF 0 flags_step.read_exchange [where t = 0 and h' = "0x13" and r = True]] by (simp add: e)
  have 2: "flags_run 0 ?ops 3 (3, [Exchanging 3, Exchanging 3])"
    using flags_run.step [OF 1 flags_step.read_exchange [where t = 1 and h' = "0x23" and r = True]] by (simp add: e)
  have 3: "flags_run 0 ?ops 3 (0x23, [Exchanging 3, Returned True])"
    using flags_run.step [OF 2 flags_step.exchange [where t = 1 and h' = "0x23" and r = True]] by (simp add: e)
  have 4: "flags_run 0 ?ops 3 (0x23, [Reading, Returned True])"
    using flags_run.step [OF 3 flags_step.exchange_fails [where t = 0 and oldFlags = 3]] by simp
  show ?thesis
    using flags_run.step [OF 4 flags_step.read_return [where t = 0 and r = False]] by (simp add: e)
qed

theorem remembered_once_witness:
  "\<exists>t < length [0x10 :: uword, 0x20]. [Returned False, Returned True] ! t = Returned True
    \<and> (\<forall>u < length [0x10 :: uword, 0x20]. u \<noteq> t \<longrightarrow> [Returned False, Returned True] ! u = Returned False)
    \<and> (0x23 :: uword) = (3 AND NOT (rememberedMask 0)) OR push_bit 0 ([0x10, 0x20] ! t)"
  by (rule remembered_once [OF _ _ _ sample_remembered_run])
    (auto simp: rememberedMask_def remembered_state_def OMR_OBJECT_METADATA_AGE_MASK_def)

end
