(* ===== verification/Copy_Protocol.thy ===== *)
theory Copy_Protocol
  imports Object_Model
begin

text \<open>
  The copying of a large object by several threads of the concurrent scavenger
  (gc/structs/ForwardedHeader.cpp, \<open>copyOrWaitWinner\<close> and \<open>copyOrWaitOutline\<close>, called from
  \<open>MM_Scavenger::copy\<close> in gc/base/standard/Scavenger.cpp).  The thread that has won the forwarding of
  the object and the threads that found it forwarded share the header word of the destination, which
  holds the bytes left and the number of threads that help.  They win sections of the object by
  compare-and-exchange, copy them, and wait until the last section is there; the winner then restores
  the header.

  A step is one access of one thread to the shared header (a read, an exchange or a store) or the copy of
  one section.  A thread is the point of its code it has reached with the local variables that are live
  there.
\<close>

section \<open>Threads\<close>

datatype winner = W_copy uword uword  \<comment> \<open>about to copy a section: \<open>remainingSizeToCopy\<close>, \<open>sizeToCopy\<close>\<close>
  | W_read        \<comment> \<open>about to read the slot\<close>
  | W_win uword   \<comment> \<open>about to try to win a section, having read this value\<close>
  | W_commence    \<comment> \<open>\<open>copyOrWaitWinner\<close> has returned\<close>
  | W_age         \<comment> \<open>the flags are restored; about to set the age\<close>
  | W_commit      \<comment> \<open>about to store the header\<close>
  | W_unhint      \<comment> \<open>about to clear the hint in the source\<close>
  | W_done        \<comment> \<open>returned\<close>

datatype loser = L_enter          \<comment> \<open>about to read the forwarding slot of the source\<close>
  | L_read bool      \<comment> \<open>about to read the slot; \<open>participatingInCopy\<close>\<close>
  | L_leave uword                 \<comment> \<open>about to take itself off the count, having read this value\<close>
  | L_win uword bool              \<comment> \<open>about to try to win a section\<close>
  | L_copy uword uword            \<comment> \<open>about to copy a section\<close>
  | L_done                        \<comment> \<open>returned\<close>

record copying =
  source :: uword
  slot :: uword
  body :: "nat \<Rightarrow> 8 word"
  winner :: winner
  losers :: "loser list"

text \<open>
  \<open>fixupForwardedObject\<close> of the object model on the header word, for flags in the low byte, where the progress
  information leaves them free.
\<close>

definition setAge :: "uword \<Rightarrow> uword \<Rightarrow> uword" where
  "setAge objectAge = fixupForwardedObject_age 0 objectAge"

lemma setAge_eq: "setAge objectAge v = (v AND NOT OMR_OBJECT_METADATA_AGE_MASK) OR push_bit 4 objectAge"
  by (simp add: setAge_def fixupForwardedObject_age_def setObjectFlags_def)

section \<open>Steps\<close>

text \<open>One iteration of the inner loop of \<open>copyOrWaitWinner\<close> up to the exchange: the thread after the read.\<close>

definition winner_read :: "uword \<Rightarrow> winner" where
  "winner_read oldValue =
     (let remainingSizeToCopy = progress_remaining oldValue; outstandingCopies = progress_outstanding oldValue
      in if remainingSizeToCopy = 0 then if outstandingCopies = 0 then W_commence else W_read
         else W_win oldValue)"

definition winner_step :: "(nat \<Rightarrow> 8 word) \<Rightarrow> uword \<Rightarrow> uword \<Rightarrow> copying \<Rightarrow> copying" where
  "winner_step src preserved objectAge s = (case winner s of
       W_copy remaining sizeToCopy \<Rightarrow> s \<lparr> body := copySection src remaining sizeToCopy (body s), winner := W_read \<rparr>
     | W_read \<Rightarrow> s \<lparr> winner := winner_read (slot s) \<rparr>
     | W_win oldValue \<Rightarrow>
         (let (sizeToCopy, remaining, v) =
                winObjectSectionToCopy (slot s) oldValue (progress_remaining oldValue) (progress_outstanding oldValue)
          in s \<lparr> slot := v, winner := if sizeToCopy = 0 then W_read else W_copy remaining sizeToCopy \<rparr>)
     | W_commence \<Rightarrow> s \<lparr> slot := commenceFixup_slot preserved, winner := W_age \<rparr>
     | W_age \<Rightarrow> s \<lparr> slot := setAge objectAge (slot s), winner := W_commit \<rparr>
     | W_commit \<Rightarrow> s \<lparr> slot := commitFixup_slot preserved (slot s), winner := W_unhint \<rparr>
     | W_unhint \<Rightarrow> s \<lparr> source := source s AND NOT OMR_BEING_COPIED_HINT, winner := W_done \<rparr>
     | W_done \<Rightarrow> s)"

text \<open>The same for \<open>copyOrWaitOutline\<close>.\<close>

definition loser_read :: "bool \<Rightarrow> uword \<Rightarrow> loser" where
  "loser_read participatingInCopy oldValue =
     (if oldValue AND OMR_BEING_COPIED_TAG = 0 then L_done
      else let remainingSizeToCopy = progress_remaining oldValue; outstandingCopies = progress_outstanding oldValue
      in if remainingSizeToCopy = 0 then if participatingInCopy then L_leave oldValue else L_read False
         else if \<not> participatingInCopy \<and> \<not> outstandingCopies < MAX_OUTSTANDING_COPIES then L_read False
         else L_win oldValue participatingInCopy)"

text \<open>\<open>copyOrWait\<close>, on a header that has read the forwarding slot of the source.\<close>

definition loser_enter :: "uword \<Rightarrow> loser" where
  "loser_enter v = (if isBeingCopied \<lparr> fh_objectPtr = NULL, fh_preserved = v \<rparr> then L_read False else L_done)"

definition loser_step :: "(nat \<Rightarrow> 8 word) \<Rightarrow> nat \<Rightarrow> copying \<Rightarrow> copying" where
  "loser_step src i s = (case losers s ! i of
       L_enter \<Rightarrow> s \<lparr> losers := (losers s)[i := loser_enter (source s)] \<rparr>
     | L_read participating \<Rightarrow> s \<lparr> losers := (losers s)[i := loser_read participating (slot s)] \<rparr>
     | L_leave oldValue \<Rightarrow>
         (let newValue = push_bit OUTSTANDING_COPIES_SHIFT (progress_outstanding oldValue - 1) OR OMR_BEING_COPIED_TAG;
              (found, v) = lockCompareExchangeObjectHeader (slot s) oldValue newValue
          in s \<lparr> slot := v, losers := (losers s)[i := L_read (oldValue \<noteq> found)] \<rparr>)
     | L_win oldValue participating \<Rightarrow>
         (let outstandingCopies = (if participating then progress_outstanding oldValue else progress_outstanding oldValue + 1);
              (sizeToCopy, remaining, v) = winObjectSectionToCopy (slot s) oldValue (progress_remaining oldValue) outstandingCopies
          in s \<lparr> slot := v, losers := (losers s)[i := if sizeToCopy = 0 then L_read participating else L_copy remaining sizeToCopy] \<rparr>)
     | L_copy remaining sizeToCopy \<Rightarrow>
         s \<lparr> body := copySection src remaining sizeToCopy (body s), losers := (losers s)[i := L_read True] \<rparr>
     | L_done \<Rightarrow> s)"

text \<open>Thread 0 is the winner, thread \<open>i + 1\<close> the loser \<open>i\<close>.\<close>

definition copy_step :: "(nat \<Rightarrow> 8 word) \<Rightarrow> uword \<Rightarrow> uword \<Rightarrow> nat \<Rightarrow> copying \<Rightarrow> copying" where
  "copy_step src preserved objectAge t s =
     (case t of 0 \<Rightarrow> winner_step src preserved objectAge s
      | Suc i \<Rightarrow> if i < length (losers s) then loser_step src i s else s)"

text \<open>
  The start: the winner has called \<open>copySetup\<close>, has won the forwarding, and is about to copy the first
  section; \<open>n\<close> threads find the object forwarded.
\<close>

definition forwarding :: "addr \<Rightarrow> uword" where
  "forwarding destinationObjectPtr = of_nat destinationObjectPtr OR (OMR_FORWARDED_TAG OR OMR_BEING_COPIED_HINT)"

definition copy_start :: "addr \<Rightarrow> uword \<Rightarrow> (nat \<Rightarrow> 8 word) \<Rightarrow> nat \<Rightarrow> copying" where
  "copy_start destinationObjectPtr objectSize dst n =
     (let (sizeToCopy, remaining) = copySetup objectSize
      in \<lparr> source = forwarding destinationObjectPtr, slot = progress remaining 0, body = dst, winner = W_copy remaining sizeToCopy, losers = replicate n L_enter \<rparr>)"

definition copy_run :: "(nat \<Rightarrow> 8 word) \<Rightarrow> uword \<Rightarrow> uword \<Rightarrow> nat list \<Rightarrow> copying \<Rightarrow> copying" where
  "copy_run src preserved objectAge ts s = fold (copy_step src preserved objectAge) ts s"

section \<open>The invariant\<close>

definition participates :: "loser \<Rightarrow> bool" where
  "participates l = (case l of L_enter \<Rightarrow> False | L_read p \<Rightarrow> p | L_leave v \<Rightarrow> True | L_win v p \<Rightarrow> p | L_copy r n \<Rightarrow> True | L_done \<Rightarrow> False)"

definition outstanding :: "loser list \<Rightarrow> nat" where
  "outstanding ls = length (filter participates ls)"

definition copying_phase :: "winner \<Rightarrow> bool" where
  "copying_phase w = (case w of W_copy r n \<Rightarrow> True | W_read \<Rightarrow> True | W_win v \<Rightarrow> True | _ \<Rightarrow> False)"

text \<open>The sections that threads have won and not yet copied.\<close>

definition in_section :: "uword \<Rightarrow> uword \<Rightarrow> nat \<Rightarrow> bool" where
  "in_section r n i \<longleftrightarrow> unat r \<le> i \<and> i < unat r + unat n"

definition winner_pending :: "winner \<Rightarrow> nat \<Rightarrow> bool" where
  "winner_pending w i = (case w of W_copy r n \<Rightarrow> in_section r n i | _ \<Rightarrow> False)"

definition loser_pending :: "loser \<Rightarrow> nat \<Rightarrow> bool" where
  "loser_pending l i = (case l of L_copy r n \<Rightarrow> in_section r n i | _ \<Rightarrow> False)"

definition pending :: "copying \<Rightarrow> nat \<Rightarrow> bool" where
  "pending s i \<longleftrightarrow> winner_pending (winner s) i \<or> (\<exists>l \<in> set (losers s). loser_pending l i)"

text \<open>What is left of the object to win: nothing once the winner restores the header.\<close>

definition bytes_left :: "copying \<Rightarrow> uword" where
  "bytes_left s = (if copying_phase (winner s) then progress_remaining (slot s) else 0)"

definition slot_ok :: "uword \<Rightarrow> uword \<Rightarrow> copying \<Rightarrow> bool" where
  "slot_ok preserved objectAge s = (case winner s of
       W_commence \<Rightarrow> slot s = progress 0 0
     | W_age \<Rightarrow> slot s = commenceFixup_slot preserved
     | W_commit \<Rightarrow> slot s = setAge objectAge (commenceFixup_slot preserved)
     | W_unhint \<Rightarrow> slot s = setAge objectAge preserved
     | W_done \<Rightarrow> slot s = setAge objectAge preserved
     | _ \<Rightarrow> aligned_size (bytes_left s) \<and> slot s = progress (bytes_left s) (of_nat (outstanding (losers s))))"

definition winner_ok :: "nat \<Rightarrow> winner \<Rightarrow> bool" where
  "winner_ok bodySize w = (case w of W_copy r n \<Rightarrow> unat r + unat n \<le> bodySize | W_win v \<Rightarrow> progress_remaining v \<noteq> 0 | _ \<Rightarrow> True)"

definition loser_ok :: "nat \<Rightarrow> winner \<Rightarrow> loser \<Rightarrow> bool" where
  "loser_ok bodySize w l = (case l of L_copy r n \<Rightarrow> unat r + unat n \<le> bodySize
     | L_win v p \<Rightarrow> progress_remaining v \<noteq> 0 \<and> bit v 2 \<and> (\<not> p \<longrightarrow> progress_outstanding v < MAX_OUTSTANDING_COPIES)
     | L_leave v \<Rightarrow> progress_remaining v = 0
     | L_done \<Rightarrow> w = W_unhint \<or> w = W_done
     | _ \<Rightarrow> True)"

definition copied :: "(nat \<Rightarrow> 8 word) \<Rightarrow> copying \<Rightarrow> nat \<Rightarrow> bool" where
  "copied src s i \<longleftrightarrow> body s i = src i \<or> pending s i"

definition copy_inv :: "addr \<Rightarrow> (nat \<Rightarrow> 8 word) \<Rightarrow> (nat \<Rightarrow> 8 word) \<Rightarrow> nat \<Rightarrow> uword \<Rightarrow> uword \<Rightarrow> copying \<Rightarrow> bool" where
  "copy_inv destinationObjectPtr src dst bodySize preserved objectAge s \<longleftrightarrow>
     slot_ok preserved objectAge s \<and>
     (winner s \<noteq> W_done \<longrightarrow> source s = forwarding destinationObjectPtr) \<and>
     winner_ok bodySize (winner s) \<and> list_all (loser_ok bodySize (winner s)) (losers s) \<and>
     unat (bytes_left s) \<le> bodySize \<and>
     outstanding (losers s) \<le> unat MAX_OUTSTANDING_COPIES \<and>
     (\<not> copying_phase (winner s) \<longrightarrow> outstanding (losers s) = 0) \<and>
     (\<forall>i. unat (bytes_left s) \<le> i \<and> i < bodySize \<longrightarrow> copied src s i) \<and>
     (\<forall>i \<ge> bodySize. body s i = dst i)"

lemmas thread_simps = participates_def copying_phase_def winner_pending_def loser_pending_def winner_ok_def loser_ok_def

section \<open>Lemmas\<close>

lemma copy_invI:
  assumes "slot_ok p a s" "winner s \<noteq> W_done \<Longrightarrow> source s = forwarding d" "winner_ok bs (winner s)"
    "list_all (loser_ok bs (winner s)) (losers s)" "unat (bytes_left s) \<le> bs" "outstanding (losers s) \<le> 4"
    "\<not> copying_phase (winner s) \<Longrightarrow> outstanding (losers s) = 0"
    "\<And>i. unat (bytes_left s) \<le> i \<Longrightarrow> i < bs \<Longrightarrow> copied src s i" "\<And>i. bs \<le> i \<Longrightarrow> body s i = dst i"
  shows "copy_inv d src dst bs p a s"
  using assms by (simp add: copy_inv_def MAX_OUTSTANDING_COPIES_def)

lemma copy_invD:
  assumes "copy_inv d src dst bs p a s"
  shows "slot_ok p a s" "winner s \<noteq> W_done \<Longrightarrow> source s = forwarding d" "winner_ok bs (winner s)"
    "list_all (loser_ok bs (winner s)) (losers s)" "unat (bytes_left s) \<le> bs" "outstanding (losers s) \<le> 4"
    "\<not> copying_phase (winner s) \<Longrightarrow> outstanding (losers s) = 0"
    "unat (bytes_left s) \<le> i \<Longrightarrow> i < bs \<Longrightarrow> copied src s i" "bs \<le> i \<Longrightarrow> body s i = dst i"
  using assms by (simp_all add: copy_inv_def MAX_OUTSTANDING_COPIES_def)

lemma copying_phaseD: "copying_phase w \<Longrightarrow> w \<noteq> W_done \<and> w \<noteq> W_unhint"
  by (auto simp: copying_phase_def)

lemma outstanding_update:
  assumes "i < length ls"
  shows "outstanding (ls[i := l]) + (if participates (ls ! i) then 1 else 0) = outstanding ls + (if participates l then 1 else 0)"
  using assms
proof (induction ls arbitrary: i)
  case (Cons k ls)
  then show ?case by (cases i) (auto simp: outstanding_def)
qed simp

lemma outstanding_0: "outstanding ls = 0 \<longleftrightarrow> (\<forall>l \<in> set ls. \<not> participates l)"
  by (auto simp: outstanding_def filter_empty_conv)

lemma outstanding_pos: "i < length ls \<Longrightarrow> participates (ls ! i) \<Longrightarrow> 0 < outstanding ls"
  using outstanding_0 [of ls] by (auto intro: Nat.gr0I)

lemma bex_update:
  assumes "\<exists>l \<in> set ls. P l" "P (ls ! i) \<Longrightarrow> P l'" "i < length ls"
  shows "\<exists>l \<in> set (ls[i := l']). P l"
proof -
  from assms(1) obtain j where j: "j < length ls" "P (ls ! j)" by (auto simp: in_set_conv_nth)
  then have "P (ls[i := l'] ! j)" using assms(2,3) by (cases "i = j") auto
  then show ?thesis using j(1) by (metis length_list_update nth_mem)
qed

lemma list_all_update: "list_all P ls \<Longrightarrow> P l \<Longrightarrow> list_all P (ls[i := l])"
  by (auto simp: list_all_iff dest: set_update_subset_insert [THEN subsetD])

lemma losers_ok_winner:
  assumes "list_all (loser_ok bs w) ls" "(w \<noteq> W_unhint \<and> w \<noteq> W_done) \<or> w' = W_unhint \<or> w' = W_done"
  shows "list_all (loser_ok bs w') ls"
proof -
  have "loser_ok bs w l \<Longrightarrow> loser_ok bs w' l" for l using assms(2) by (cases l) (auto simp: loser_ok_def)
  then show ?thesis using assms(1) by (auto simp: list_all_iff)
qed

lemma setAge_restores:
  assumes "\<not> bit preserved 2" "objectAge < 16"
  shows "commitFixup_slot preserved (setAge objectAge (commenceFixup_slot preserved)) = setAge objectAge preserved"
proof -
  have m: "OMR_OBJECT_METADATA_AGE_MASK = push_bit 4 (mask 4)" by (simp add: OMR_OBJECT_METADATA_AGE_MASK_def mask_eq_decr_exp)
  show ?thesis
    by (rule bit_word_eqI)
      (use assms(1) small_bits [OF assms(2)] in \<open>fastforce simp: setAge_eq commitFixup_slot_def commenceFixup_slot_def m bit_or_iff bit_and_iff
        bit_not_iff bit_progress_mask bit_tag bit_push_bit_iff bit_mask_iff\<close>)
qed

lemma setAge_bits:
  assumes "objectAge < 16"
  shows "bit (setAge objectAge v) 2 \<longleftrightarrow> bit v 2"
    "progress_remaining (setAge objectAge v) = progress_remaining v"
    "progress_outstanding (setAge objectAge v) = progress_outstanding v"
proof -
  have m: "OMR_OBJECT_METADATA_AGE_MASK = push_bit 4 (mask 4)" by (simp add: OMR_OBJECT_METADATA_AGE_MASK_def mask_eq_decr_exp)
  note b = setAge_eq m bit_or_iff bit_and_iff bit_not_iff bit_push_bit_iff bit_mask_iff
  note n = small_bits [OF assms]
  show "bit (setAge objectAge v) 2 \<longleftrightarrow> bit v 2" by (simp add: b)
  show "progress_remaining (setAge objectAge v) = progress_remaining v"
    by (rule bit_word_eqI) (use n in \<open>fastforce simp: b progress_remaining_def REMAINING_SIZE_MASK_def mask12\<close>)
  show "progress_outstanding (setAge objectAge v) = progress_outstanding v"
    by (rule bit_word_eqI) (use n in \<open>fastforce simp: b progress_outstanding_def mask12 bit_drop_bit_eq\<close>)
qed

lemma tag_and: "v AND OMR_BEING_COPIED_TAG = 0 \<longleftrightarrow> \<not> bit v 2"
proof
  assume "v AND OMR_BEING_COPIED_TAG = 0"
  then have "\<not> bit (v AND OMR_BEING_COPIED_TAG) 2" by simp
  then show "\<not> bit v 2" by (simp add: bit_and_iff bit_tag)
next
  assume "\<not> bit v 2"
  then show "v AND OMR_BEING_COPIED_TAG = 0" by (intro bit_word_eqI) (auto simp: bit_and_iff bit_tag)
qed

lemma win_section:
  assumes "winObjectSectionToCopy v oldValue r n = (sizeToCopy, remaining, v')" "aligned_size r" "r \<noteq> 0"
  shows "v \<noteq> oldValue \<Longrightarrow> sizeToCopy = 0 \<and> v' = v"
    "v = oldValue \<Longrightarrow> sizeToCopy \<noteq> 0 \<and> v' = progress remaining n \<and> aligned_size remaining
       \<and> unat remaining + unat sizeToCopy = unat r"
proof -
  show "sizeToCopy = 0 \<and> v' = v" if "v \<noteq> oldValue"
    using that assms(1) by (auto simp: winObjectSectionToCopy_def lockCompareExchangeObjectHeader_def Let_def)
  assume "v = oldValue"
  then have e: "sizeToCopy = section_size r" "remaining = r - section_size r" "v' = progress remaining n"
    using assms(1) by (auto simp: winObjectSectionToCopy_def lockCompareExchangeObjectHeader_def Let_def)
  then show "sizeToCopy \<noteq> 0 \<and> v' = progress remaining n \<and> aligned_size remaining \<and> unat remaining + unat sizeToCopy = unat r"
    using section_sizes [OF assms(2)] assms(3) by (auto simp: unat_sub word_le_nat_alt)
qed

lemma forwarding_hint:
  assumes "8 dvd destinationObjectPtr"
  shows "isBeingCopied \<lparr> fh_objectPtr = q, fh_preserved = forwarding destinationObjectPtr \<rparr>"
proof -
  have "(of_nat destinationObjectPtr :: uword) AND mask 3 = of_nat (take_bit 3 destinationObjectPtr)"
    by (simp only: take_bit_eq_mask [symmetric] take_bit_of_nat)
  moreover have "take_bit 3 destinationObjectPtr = 0" using assms by (simp add: take_bit_eq_mod mod_eq_0_iff_dvd)
  ultimately have "(of_nat destinationObjectPtr :: uword) AND 7 = 0" by (simp add: mask_eq_decr_exp)
  then have "forwarding destinationObjectPtr AND 7 = 6"
    by (simp add: forwarding_def forwarded_bits bit.conj_disj_distrib2)
  then show ?thesis by (simp add: isBeingCopied_def forwarded_bits)
qed

text \<open>The header while the object is copied.\<close>

lemma inv_slot:
  assumes "copy_inv d src dst bs p a s" "copying_phase (winner s)"
  shows "aligned_size (bytes_left s)" "slot s = progress (bytes_left s) (of_nat (outstanding (losers s)))"
    "progress_remaining (slot s) = bytes_left s" "progress_outstanding (slot s) = of_nat (outstanding (losers s))"
    "unat (progress_outstanding (slot s)) = outstanding (losers s)" "bit (slot s) 2" "outstanding (losers s) \<le> 4"
proof -
  show 1: "aligned_size (bytes_left s)" "slot s = progress (bytes_left s) (of_nat (outstanding (losers s)))"
    using assms by (auto simp: copy_inv_def slot_ok_def copying_phase_def split: winner.splits)
  show 2: "outstanding (losers s) \<le> 4" using assms(1) by (simp add: copy_inv_def MAX_OUTSTANDING_COPIES_def)
  then have u: "unat (of_nat (outstanding (losers s)) :: uword) = outstanding (losers s)" by (simp add: unat_of_nat)
  then have "(of_nat (outstanding (losers s)) :: uword) < 16" using 2 by (simp add: word_less_nat_alt)
  note d = progress_decode [OF 1(1) this, folded 1(2)]
  show "progress_remaining (slot s) = bytes_left s" "progress_outstanding (slot s) = of_nat (outstanding (losers s))" "bit (slot s) 2"
    using d by auto
  then show "unat (progress_outstanding (slot s)) = outstanding (losers s)" using u by simp
qed

text \<open>The header after that: nothing is left in it, and the tag goes with the last store.\<close>

lemma inv_fixup:
  assumes "copy_inv d src dst bs p a s" "\<not> copying_phase (winner s)" "\<not> bit p 2" "a < 16"
  shows "bit (slot s) 2 \<Longrightarrow> progress_remaining (slot s) = 0" "outstanding (losers s) = 0"
    "bit (slot s) 2 \<longleftrightarrow> winner s \<noteq> W_unhint \<and> winner s \<noteq> W_done" "bytes_left s = 0"
proof -
  have z: "progress_remaining (progress 0 0) = 0" "bit (progress 0 0) 2"
    using progress_decode [of 0 0] by (auto simp: aligned_size_def)
  show "outstanding (losers s) = 0" "bytes_left s = 0" using assms(1,2) by (auto simp: copy_inv_def bytes_left_def)
  have "slot_ok p a s" using assms(1) by (simp add: copy_inv_def)
  then show "bit (slot s) 2 \<Longrightarrow> progress_remaining (slot s) = 0"
    "bit (slot s) 2 \<longleftrightarrow> winner s \<noteq> W_unhint \<and> winner s \<noteq> W_done"
    using assms(2-4) z by (auto simp: slot_ok_def copying_phase_def setAge_bits commence_progress split: winner.splits)
qed

text \<open>A thread that only moves on in its code.\<close>

lemma loser_moves:
  assumes inv: "copy_inv d src dst bs p a s" and i: "i < length (losers s)"
    and l: "participates l = participates (losers s ! i)" "\<And>j. \<not> loser_pending (losers s ! i) j" "loser_ok bs (winner s) l"
  shows "copy_inv d src dst bs p a (s \<lparr> losers := (losers s)[i := l] \<rparr>)"
proof -
  let ?s = "s \<lparr> losers := (losers s)[i := l] \<rparr>"
  have o: "outstanding (losers ?s) = outstanding (losers s)" using outstanding_update [OF i, of l] l(1) by simp
  have b: "bytes_left ?s = bytes_left s" by (simp add: bytes_left_def)
  have c: "copied src ?s j" if "copied src s j" for j
    using that bex_update [OF _ _ i, of "\<lambda>k. loser_pending k j" l] l(2) by (auto simp: copied_def pending_def)
  have "slot_ok p a ?s" using inv o b by (auto simp: copy_inv_def slot_ok_def split: winner.splits)
  then show ?thesis
    using inv o b c list_all_update [where P = "loser_ok bs (winner s)", OF _ l(3)] unfolding copy_inv_def by simp
qed

text \<open>A thread that has won a section takes it over from the header.\<close>

lemma winner_wins:
  assumes inv: "copy_inv d src dst bs p a s" and w: "copying_phase (winner s)" "\<And>j. \<not> winner_pending (winner s) j"
    and v: "aligned_size remaining" "v = progress remaining (progress_outstanding (slot s))"
      "unat remaining + unat sizeToCopy = unat (bytes_left s)"
  shows "copy_inv d src dst bs p a (s \<lparr> slot := v, winner := W_copy remaining sizeToCopy \<rparr>)"
proof -
  let ?s = "s \<lparr> slot := v, winner := W_copy remaining sizeToCopy \<rparr>"
  note sl = inv_slot [OF inv w(1)]
  have o16: "progress_outstanding (slot s) < 16" using sl(5,7) by (simp add: word_less_nat_alt)
  note d = progress_decode [OF v(1) o16, folded v(2)]
  have b: "bytes_left ?s = remaining" using d(1) by (simp add: bytes_left_def copying_phase_def)
  note D = copy_invD [OF inv]
  show ?thesis
  proof (rule copy_invI)
    show "slot_ok p a ?s" using v(1,2) sl(4) b by (simp add: slot_ok_def)
    show "source ?s = forwarding d" using D(2) copying_phaseD [OF w(1)] by simp
    show "list_all (loser_ok bs (winner ?s)) (losers ?s)"
      by (rule losers_ok_winner [where w = "winner s"]) (use D(4) copying_phaseD [OF w(1)] in simp_all)
    show "winner_ok bs (winner ?s)" using D(5) v(3) by (simp add: winner_ok_def)
    show "unat (bytes_left ?s) \<le> bs" using D(5) v(3) b by simp
    show "outstanding (losers ?s) \<le> 4" using D(6) by simp
    show "outstanding (losers ?s) = 0" if "\<not> copying_phase (winner ?s)" using that by (simp add: copying_phase_def)
    show "body ?s j = dst j" if "bs \<le> j" for j using D(9) [OF that] by simp
  next
    fix j assume "unat (bytes_left ?s) \<le> j" "j < bs"
    then have j: "unat remaining \<le> j" "j < bs" using b by auto
    show "copied src ?s j"
    proof (cases "unat (bytes_left s) \<le> j")
      case True
      from D(8) [OF this j(2)] show ?thesis using w(2) [of j] by (auto simp: copied_def pending_def)
    next
      case False
      then show ?thesis using j v(3) by (simp add: copied_def pending_def winner_pending_def in_section_def)
    qed
  qed
qed

lemma loser_wins:
  assumes inv: "copy_inv d src dst bs p a s" and w: "copying_phase (winner s)" and i: "i < length (losers s)"
    and l: "losers s ! i = L_win oldValue part" "n = (if part then progress_outstanding (slot s) else progress_outstanding (slot s) + 1)"
      "\<not> part \<Longrightarrow> progress_outstanding (slot s) < MAX_OUTSTANDING_COPIES"
    and v: "aligned_size remaining" "v = progress remaining n" "unat remaining + unat sizeToCopy = unat (bytes_left s)"
  shows "copy_inv d src dst bs p a (s \<lparr> slot := v, losers := (losers s)[i := L_copy remaining sizeToCopy] \<rparr>)"
proof -
  let ?s = "s \<lparr> slot := v, losers := (losers s)[i := L_copy remaining sizeToCopy] \<rparr>"
  note sl = inv_slot [OF inv w]
  have o: "outstanding (losers ?s) = outstanding (losers s) + (if part then 0 else 1)"
    using outstanding_update [OF i, of "L_copy remaining sizeToCopy"] l(1) by (auto simp: participates_def split: if_splits)
  have o4: "outstanding (losers ?s) \<le> 4" using o sl(5,7) l(3) by (auto simp: MAX_OUTSTANDING_COPIES_def word_less_nat_alt)
  have n: "n = of_nat (outstanding (losers ?s))" using l(2) o sl(4) by simp
  have "unat (of_nat (outstanding (losers ?s)) :: uword) = outstanding (losers ?s)" using o4 by (simp add: unat_of_nat)
  then have "n < 16" using o4 n by (simp add: word_less_nat_alt)
  note d = progress_decode [OF v(1) this, folded v(2)]
  have b: "bytes_left ?s = remaining" using d(1) w by (simp add: bytes_left_def)
  note D = copy_invD [OF inv]
  show ?thesis
  proof (rule copy_invI)
    show "slot_ok p a ?s" using v(1,2) b w n by (auto simp: slot_ok_def copying_phase_def split: winner.splits)
    show "source ?s = forwarding d" using D(2) copying_phaseD [OF w] by simp
    have "loser_ok bs (winner s) (L_copy remaining sizeToCopy)" using D(5) v(3) by (simp add: loser_ok_def)
    then show "list_all (loser_ok bs (winner ?s)) (losers ?s)" using list_all_update [OF D(4)] by simp
    show "winner_ok bs (winner ?s)" using D(3) by simp
    show "unat (bytes_left ?s) \<le> bs" using D(5) v(3) b by simp
    show "outstanding (losers ?s) \<le> 4" using o4 .
    show "outstanding (losers ?s) = 0" if "\<not> copying_phase (winner ?s)" using that w by simp
    show "body ?s j = dst j" if "bs \<le> j" for j using D(9) [OF that] by simp
  next
    fix j assume "unat (bytes_left ?s) \<le> j" "j < bs"
    then have j: "unat remaining \<le> j" "j < bs" using b by auto
    show "copied src ?s j"
    proof (cases "unat (bytes_left s) \<le> j")
      case True
      from D(8) [OF this j(2)] show ?thesis
        using bex_update [OF _ _ i, of "\<lambda>k. loser_pending k j"] l(1) by (auto simp: copied_def pending_def loser_pending_def)
    next
      case False
      then have "loser_pending (L_copy remaining sizeToCopy) j" using j v(3) by (simp add: loser_pending_def in_section_def)
      moreover have "L_copy remaining sizeToCopy \<in> set (losers ?s)" using i by (simp add: set_update_memI)
      ultimately show ?thesis unfolding copied_def pending_def by blast
    qed
  qed
qed

text \<open>Copying a section: the bytes that were pending are there.\<close>

lemma copySection_keeps: "b i = src i \<Longrightarrow> copySection src r n b i = src i"
  by (simp add: copySection_def)

lemma copySection_section: "in_section r n i \<Longrightarrow> copySection src r n b i = src i"
  by (simp add: copySection_def in_section_def)

lemma copySection_frame: "unat r + unat n \<le> bs \<Longrightarrow> bs \<le> i \<Longrightarrow> copySection src r n b i = b i"
  by (simp add: copySection_def)

lemma winner_copies:
  assumes inv: "copy_inv d src dst bs p a s" and w: "winner s = W_copy r n"
  shows "copy_inv d src dst bs p a (s \<lparr> body := copySection src r n (body s), winner := W_read \<rparr>)"
proof -
  let ?s = "s \<lparr> body := copySection src r n (body s), winner := W_read \<rparr>"
  note D = copy_invD [OF inv]
  have b: "bytes_left ?s = bytes_left s" using w by (simp add: bytes_left_def copying_phase_def)
  show ?thesis
  proof (rule copy_invI)
    show "slot_ok p a ?s" using D(1) b w by (simp add: slot_ok_def)
    show "source ?s = forwarding d" using D(2) w by simp
    show "list_all (loser_ok bs (winner ?s)) (losers ?s)" using losers_ok_winner [OF D(4)] w by simp
    show "winner_ok bs (winner ?s)" by (simp add: winner_ok_def)
    show "unat (bytes_left ?s) \<le> bs" using D(5) b by simp
    show "outstanding (losers ?s) \<le> 4" using D(6) by simp
    show "outstanding (losers ?s) = 0" if "\<not> copying_phase (winner ?s)" using that by (simp add: copying_phase_def)
    show "body ?s j = dst j" if "bs \<le> j" for j
      using D(3) D(9) [OF that] copySection_frame [OF _ that] w by (simp add: winner_ok_def)
    show "copied src ?s j" if "unat (bytes_left ?s) \<le> j" "j < bs" for j
      using D(8) [of j] that b w copySection_keeps copySection_section by (auto simp: copied_def pending_def winner_pending_def)
  qed
qed

lemma loser_copies:
  assumes inv: "copy_inv d src dst bs p a s" and i: "i < length (losers s)" and l: "losers s ! i = L_copy r n"
  shows "copy_inv d src dst bs p a (s \<lparr> body := copySection src r n (body s), losers := (losers s)[i := L_read True] \<rparr>)"
proof -
  let ?s = "s \<lparr> body := copySection src r n (body s), losers := (losers s)[i := L_read True] \<rparr>"
  note D = copy_invD [OF inv]
  have b: "bytes_left ?s = bytes_left s" by (simp add: bytes_left_def)
  have o: "outstanding (losers ?s) = outstanding (losers s)"
    using outstanding_update [OF i, of "L_read True"] l by (simp add: participates_def)
  have ok: "loser_ok bs (winner s) (L_copy r n)" using D(4) i l by (metis list_all_length)
  show ?thesis
  proof (rule copy_invI)
    show "slot_ok p a ?s" using D(1) b o by (simp add: slot_ok_def split: winner.splits)
    show "source ?s = forwarding d" if "winner ?s \<noteq> W_done" using D(2) that by simp
    have "loser_ok bs (winner s) (L_read True)" by (simp add: loser_ok_def)
    then show "list_all (loser_ok bs (winner ?s)) (losers ?s)" using list_all_update [OF D(4)] by simp
    show "winner_ok bs (winner ?s)" using D(3) by simp
    show "unat (bytes_left ?s) \<le> bs" using D(5) b by simp
    show "outstanding (losers ?s) \<le> 4" using D(6) o by simp
    show "outstanding (losers ?s) = 0" if "\<not> copying_phase (winner ?s)" using D(7) that o by simp
    show "body ?s j = dst j" if "bs \<le> j" for j
      using ok D(9) [OF that] copySection_frame [OF _ that] by (simp add: loser_ok_def)
  next
    fix j assume j: "unat (bytes_left ?s) \<le> j" "j < bs"
    show "copied src ?s j"
    proof (cases "in_section r n j \<or> body s j = src j")
      case True
      then have "body ?s j = src j" using copySection_keeps copySection_section by auto
      then show ?thesis by (simp add: copied_def)
    next
      case False
      then have "loser_pending (losers s ! i) j \<Longrightarrow> loser_pending (L_read True) j" using l by (simp add: loser_pending_def)
      from bex_update [where P = "\<lambda>k. loser_pending k j", OF _ this i] show ?thesis
        using D(8) [of j] j b False by (auto simp: copied_def pending_def)
    qed
  qed
qed

text \<open>A helper takes itself off the count.\<close>

lemma loser_leaves:
  assumes inv: "copy_inv d src dst bs p a s" and i: "i < length (losers s)" and l: "losers s ! i = L_leave (slot s)"
    and r: "progress_remaining (slot s) = 0" and w: "copying_phase (winner s)"
  shows "copy_inv d src dst bs p a (s \<lparr> slot := push_bit OUTSTANDING_COPIES_SHIFT (progress_outstanding (slot s) - 1) OR OMR_BEING_COPIED_TAG,
      losers := (losers s)[i := L_read False] \<rparr>)" (is "copy_inv d src dst bs p a ?s")
proof -
  note D = copy_invD [OF inv]
  note sl = inv_slot [OF inv w]
  have pos: "0 < outstanding (losers s)" using outstanding_pos [OF i] l by (simp add: participates_def)
  have o: "outstanding (losers ?s) = outstanding (losers s) - 1"
    using outstanding_update [OF i, of "L_read False"] l by (simp add: participates_def)
  have v: "slot ?s = progress 0 (of_nat (outstanding (losers ?s)))"
    using sl(4) pos o by (simp add: progress_def)
  have u: "unat (of_nat (outstanding (losers ?s)) :: uword) = outstanding (losers ?s)" using o D(6) by (simp add: unat_of_nat)
  have "(of_nat (outstanding (losers ?s)) :: uword) < 16" using u o D(6) by (simp add: word_less_nat_alt)
  then have b: "bytes_left ?s = 0" using progress_decode(1) [of 0] v w by (simp add: bytes_left_def aligned_size_def)
  have b0: "bytes_left s = 0" using r sl(3) by simp
  show ?thesis
  proof (rule copy_invI)
    have "aligned_size 0" by (simp add: aligned_size_def)
    then show "slot_ok p a ?s" using v b w by (auto simp: slot_ok_def copying_phase_def split: winner.splits)
    show "source ?s = forwarding d" using D(2) copying_phaseD [OF w] by simp
    have "loser_ok bs (winner s) (L_read False)" by (simp add: loser_ok_def)
    then show "list_all (loser_ok bs (winner ?s)) (losers ?s)" using list_all_update [OF D(4)] by simp
    show "winner_ok bs (winner ?s)" using D(3) by simp
    show "unat (bytes_left ?s) \<le> bs" using b by simp
    show "outstanding (losers ?s) \<le> 4" using D(6) o by simp
    show "outstanding (losers ?s) = 0" if "\<not> copying_phase (winner ?s)" using that w by simp
    show "body ?s j = dst j" if "bs \<le> j" for j using D(9) [OF that] by simp
  next
    fix j assume "unat (bytes_left ?s) \<le> j" "j < bs"
    then have "copied src s j" using D(8) [of j] b0 by simp
    moreover have "loser_pending (losers s ! i) j \<Longrightarrow> loser_pending (L_read False) j" using l by (simp add: loser_pending_def)
    note bex_update [where P = "\<lambda>k. loser_pending k j", OF _ this i]
    ultimately show "copied src ?s j" by (auto simp: copied_def pending_def)
  qed
qed

text \<open>The winner moves on, storing to a header.\<close>

lemma winner_moves:
  assumes inv: "copy_inv d src dst bs p a s" and np: "\<And>j. \<not> winner_pending (winner s) j"
    and "slot_ok p a (s \<lparr> source := x, slot := v, winner := w \<rparr>)" 
    and b: "bytes_left (s \<lparr> source := x, slot := v, winner := w \<rparr>) = bytes_left s"
    and "w \<noteq> W_done \<Longrightarrow> x = source s" "winner s \<noteq> W_done" "winner_ok bs w" "\<not> copying_phase w \<Longrightarrow> outstanding (losers s) = 0"
    and u: "winner s = W_unhint \<Longrightarrow> w = W_unhint \<or> w = W_done"
  shows "copy_inv d src dst bs p a (s \<lparr> source := x, slot := v, winner := w \<rparr>)" (is "copy_inv _ _ _ _ _ _ ?s")
proof -
  note D = copy_invD [OF inv]
  show ?thesis
  proof (rule copy_invI)
    show "list_all (loser_ok bs (winner ?s)) (losers ?s)"
      by (rule losers_ok_winner [where w = "winner s"]) (use D(4) u assms(6) in auto)
    show "source ?s = forwarding d" if "winner ?s \<noteq> W_done" using D(2) assms(5,6) that by simp
    show "unat (bytes_left ?s) \<le> bs" using D(5) b by simp
    show "body ?s j = dst j" if "bs \<le> j" for j using D(9) [OF that] by simp
    show "copied src ?s j" if "unat (bytes_left ?s) \<le> j" "j < bs" for j
      using D(8) [of j] that b np [of j] by (auto simp: copied_def pending_def)
  qed (use assms D(6) in simp_all)
qed

lemmas fixup_simps = winner_pending_def slot_ok_def bytes_left_def copying_phase_def winner_ok_def

lemma winner_step_inv:
  assumes inv: "copy_inv d src dst bs p a s" and p: "\<not> bit p 2" "a < 16"
  shows "copy_inv d src dst bs p a (winner_step src p a s)"
proof (cases "winner s")
  case (W_copy r n)
  then show ?thesis using winner_copies [OF inv] by (simp add: winner_step_def)
next
  case W_read
  then have w: "copying_phase (winner s)" by (simp add: copying_phase_def)
  note sl = inv_slot [OF inv w]
  consider (work) "progress_remaining (slot s) \<noteq> 0" | (wait) "progress_remaining (slot s) = 0" "progress_outstanding (slot s) \<noteq> 0"
    | (finished) "progress_remaining (slot s) = 0" "progress_outstanding (slot s) = 0" by blast
  then show ?thesis
  proof cases
    case work
    have "copy_inv d src dst bs p a (s \<lparr> source := source s, slot := slot s, winner := W_win (slot s) \<rparr>)"
      by (rule winner_moves [OF inv]) (use copy_invD(1) [OF inv] W_read work in \<open>simp_all add: fixup_simps\<close>)
    then show ?thesis using W_read work by (simp add: winner_step_def winner_read_def)
  next
    case wait
    have "s \<lparr> winner := winner s \<rparr> = s" by simp
    moreover have "winner_step src p a s = s \<lparr> winner := winner s \<rparr>"
      using wait W_read by (simp add: winner_step_def winner_read_def)
    ultimately show ?thesis using inv by (simp only:)
  next
    case finished
    then have f: "bytes_left s = 0" "outstanding (losers s) = 0" using sl(3,5) by auto
    then have "slot s = progress 0 0" using sl(2) by simp
    then have "copy_inv d src dst bs p a (s \<lparr> source := source s, slot := slot s, winner := W_commence \<rparr>)"
      by (intro winner_moves [OF inv]) (use W_read finished f(2) in \<open>simp_all add: fixup_simps\<close>)
    then show ?thesis using W_read finished by (simp add: winner_step_def winner_read_def)
  qed
next
  case (W_win v)
  then have w: "copying_phase (winner s)" by (simp add: copying_phase_def)
  note sl = inv_slot [OF inv w]
  obtain sizeToCopy remaining v' where win: "winObjectSectionToCopy (slot s) v (progress_remaining v) (progress_outstanding v)
      = (sizeToCopy, remaining, v')" by (metis prod_cases3)
  have nz: "progress_remaining v \<noteq> 0" using copy_invD(3) [OF inv] W_win by (simp add: winner_ok_def)
  note ws = win_section [OF win progress_remaining_aligned nz]
  show ?thesis
  proof (cases "slot s = v")
    case True
    from ws(2) [OF this] have f: "sizeToCopy \<noteq> 0" "v' = progress remaining (progress_outstanding (slot s))" "aligned_size remaining"
      "unat remaining + unat sizeToCopy = unat (bytes_left s)" using True sl(3) by auto
    have "copy_inv d src dst bs p a (s \<lparr> slot := v', winner := W_copy remaining sizeToCopy \<rparr>)"
      by (rule winner_wins [OF inv w _ f(3,2,4)]) (simp add: W_win winner_pending_def)
    then show ?thesis using W_win win f(1) by (simp add: winner_step_def)
  next
    case False
    have "copy_inv d src dst bs p a (s \<lparr> source := source s, slot := slot s, winner := W_read \<rparr>)"
      by (rule winner_moves [OF inv]) (use copy_invD(1) [OF inv] W_win in
        \<open>simp_all add: winner_pending_def slot_ok_def bytes_left_def copying_phase_def winner_ok_def\<close>)
    moreover have "winner_step src p a s = s \<lparr> source := source s, slot := slot s, winner := W_read \<rparr>"
      using ws(1) [OF False] W_win win by (simp add: winner_step_def)
    ultimately show ?thesis by simp
  qed
next
  case W_commence
  have "copy_inv d src dst bs p a (s \<lparr> source := source s, slot := commenceFixup_slot p, winner := W_age \<rparr>)"
    by (rule winner_moves [OF inv]) (use copy_invD(1,7) [OF inv] W_commence in \<open>simp_all add: fixup_simps\<close>)
  then show ?thesis using W_commence by (simp add: winner_step_def)
next
  case W_age
  have "copy_inv d src dst bs p a (s \<lparr> source := source s, slot := setAge a (slot s), winner := W_commit \<rparr>)"
    by (rule winner_moves [OF inv]) (use copy_invD(1,7) [OF inv] W_age in \<open>simp_all add: fixup_simps\<close>)
  then show ?thesis using W_age by (simp add: winner_step_def)
next
  case W_commit
  have "copy_inv d src dst bs p a (s \<lparr> source := source s, slot := commitFixup_slot p (slot s), winner := W_unhint \<rparr>)"
    by (rule winner_moves [OF inv]) (use copy_invD(1,7) [OF inv] W_commit setAge_restores [OF p] in \<open>simp_all add: fixup_simps\<close>)
  then show ?thesis using W_commit by (simp add: winner_step_def)
next
  case W_unhint
  have "copy_inv d src dst bs p a (s \<lparr> source := source s AND NOT OMR_BEING_COPIED_HINT, slot := slot s, winner := W_done \<rparr>)"
    by (rule winner_moves [OF inv]) (use copy_invD(1,7) [OF inv] W_unhint in \<open>simp_all add: fixup_simps\<close>)
  then show ?thesis using W_unhint by (simp add: winner_step_def)
next
  case W_done
  then show ?thesis using inv by (simp add: winner_step_def)
qed

lemma loser_step_inv:
  assumes inv: "copy_inv d src dst bs p a s" and p: "\<not> bit p 2" "a < 16" and d: "8 dvd d" and i: "i < length (losers s)"
  shows "copy_inv d src dst bs p a (loser_step src i s)"
proof (cases "losers s ! i")
  case L_enter
  have "loser_ok bs (winner s) (loser_enter (source s))"
    using copy_invD(2) [OF inv] forwarding_hint [OF d, of NULL] by (cases "winner s = W_done") (auto simp: loser_enter_def loser_ok_def)
  then have "copy_inv d src dst bs p a (s \<lparr> losers := (losers s)[i := loser_enter (source s)] \<rparr>)"
    by (rule loser_moves [OF inv i, rotated 2]) (simp_all add: L_enter participates_def loser_enter_def loser_pending_def)
  then show ?thesis using L_enter by (simp add: loser_step_def)
next
  case (L_read part)
  have ph: "copying_phase (winner s)" if part
    using that outstanding_pos [OF i] L_read copy_invD(7) [OF inv] by (auto simp: participates_def)
  have tag: "winner s = W_unhint \<or> winner s = W_done" if "\<not> bit (slot s) 2"
    using that inv_slot(6) [OF inv] inv_fixup(3) [OF inv _ p] by blast
  have "loser_ok bs (winner s) (loser_read part (slot s))"
    using tag by (auto simp: loser_read_def loser_ok_def tag_and Let_def)
  moreover have "participates (loser_read part (slot s)) = part"
    using inv_slot(6) [OF inv ph] by (auto simp: loser_read_def participates_def tag_and Let_def)
  ultimately have "copy_inv d src dst bs p a (s \<lparr> losers := (losers s)[i := loser_read part (slot s)] \<rparr>)"
    by (intro loser_moves [OF inv i]) (simp_all add: L_read participates_def loser_pending_def)
  then show ?thesis using L_read by (simp add: loser_step_def)
next
  case (L_leave v)
  have w: "copying_phase (winner s)" using outstanding_pos [OF i] L_leave copy_invD(7) [OF inv] by (auto simp: participates_def)
  have ok: "loser_ok bs (winner s) (L_leave v)" using copy_invD(4) [OF inv] i L_leave by (metis list_all_length)
  show ?thesis
  proof (cases "slot s = v")
    case True
    have "copy_inv d src dst bs p a (s \<lparr> slot := push_bit OUTSTANDING_COPIES_SHIFT (progress_outstanding (slot s) - 1) OR OMR_BEING_COPIED_TAG,
      losers := (losers s)[i := L_read False] \<rparr>)"
      by (rule loser_leaves [OF inv i _ _ w]) (use ok L_leave True in \<open>simp_all add: loser_ok_def\<close>)
    then show ?thesis using L_leave True by (simp add: loser_step_def lockCompareExchangeObjectHeader_def)
  next
    case False
    have "copy_inv d src dst bs p a (s \<lparr> losers := (losers s)[i := L_read True] \<rparr>)"
      by (rule loser_moves [OF inv i]) (simp_all add: L_leave participates_def loser_pending_def loser_ok_def)
    then show ?thesis using L_leave False by (simp add: loser_step_def lockCompareExchangeObjectHeader_def)
  qed
next
  case (L_win v part)
  have ok: "loser_ok bs (winner s) (L_win v part)" using copy_invD(4) [OF inv] i L_win by (metis list_all_length)
  then have nz: "progress_remaining v \<noteq> 0" "bit v 2" by (simp_all add: loser_ok_def)
  let ?n = "if part then progress_outstanding v else progress_outstanding v + 1"
  obtain sizeToCopy remaining v' where win: "winObjectSectionToCopy (slot s) v (progress_remaining v) ?n
      = (sizeToCopy, remaining, v')" by (metis prod_cases3)
  note ws = win_section [OF win progress_remaining_aligned nz(1)]
  show ?thesis
  proof (cases "slot s = v")
    case True
    have w: "copying_phase (winner s)" using inv_fixup(1) [OF inv _ p] nz True by blast
    from ws(2) [OF True] have f: "sizeToCopy \<noteq> 0" "v' = progress remaining ?n" "aligned_size remaining"
      "unat remaining + unat sizeToCopy = unat (bytes_left s)" using True inv_slot(3) [OF inv w] by auto
    have "copy_inv d src dst bs p a (s \<lparr> slot := v', losers := (losers s)[i := L_copy remaining sizeToCopy] \<rparr>)"
      by (rule loser_wins [OF inv w i L_win _ _ f(3,2,4)]) (use ok True in \<open>simp_all add: loser_ok_def\<close>)
    then show ?thesis using L_win win f(1) by (simp add: loser_step_def)
  next
    case False
    have "copy_inv d src dst bs p a (s \<lparr> losers := (losers s)[i := L_read part] \<rparr>)"
      by (rule loser_moves [OF inv i]) (simp_all add: L_win participates_def loser_pending_def loser_ok_def)
    then show ?thesis using L_win win ws(1) [OF False] by (simp add: loser_step_def)
  qed
next
  case (L_copy r n)
  then show ?thesis using loser_copies [OF inv i] by (simp add: loser_step_def)
next
  case L_done
  then show ?thesis using inv by (simp add: loser_step_def)
qed

lemma copy_step_inv:
  assumes "copy_inv d src dst bs p a s" "\<not> bit p 2" "a < 16" "8 dvd d"
  shows "copy_inv d src dst bs p a (copy_step src p a t s)"
  using assms winner_step_inv [OF assms(1-3)] loser_step_inv [OF assms] by (simp add: copy_step_def split: nat.split)

lemma copy_start_inv:
  assumes "8 \<le> objectSize"
  shows "copy_inv d src dst (unat objectSize - 8) p a (copy_start d objectSize dst n)"
proof -
  obtain sizeToCopy remaining where e: "copySetup objectSize = (sizeToCopy, remaining)" by fastforce
  note c = copySetup_sizes [OF e assms]
  let ?s = "copy_start d objectSize dst n"
  have s: "?s = \<lparr> source = forwarding d, slot = progress remaining 0, body = dst, winner = W_copy remaining sizeToCopy,
      losers = replicate n L_enter \<rparr>" by (simp add: copy_start_def e)
  have b: "bytes_left ?s = remaining" using progress_decode(1) [OF c(1), of 0] by (simp add: s bytes_left_def copying_phase_def)
  have o: "outstanding (losers ?s) = 0" by (simp add: s outstanding_0 participates_def)
  show ?thesis
  proof (rule copy_invI)
    show "slot_ok p a ?s" using b c(1) o by (simp add: s slot_ok_def)
    show "copied src ?s i" if "unat (bytes_left ?s) \<le> i" "i < unat objectSize - 8" for i
      using that b c(2) by (simp add: s copied_def pending_def winner_pending_def in_section_def)
  qed (use b c(2) o in \<open>simp_all add: s winner_ok_def loser_ok_def copying_phase_def list_all_iff\<close>)
qed

lemma copy_run_inv:
  assumes "copy_inv d src dst bs p a s" "\<not> bit p 2" "a < 16" "8 dvd d"
  shows "copy_inv d src dst bs p a (copy_run src p a ts s)"
  using assms(1) unfolding copy_run_def
proof (induction ts arbitrary: s)
  case (Cons t ts)
  then show ?case using copy_step_inv [OF _ assms(2-4)] by simp
qed simp

end
