(* ===== verification/Copy_Progress.thy ===== *)
theory Copy_Progress
  imports Copy_Protocol
begin

text \<open>
  The threads that copy an object together finish.  A step leaves the state as it is (the thread
  waits) or makes a rank smaller: the bytes left to win, then the helpers on the count, then the steps
  of the winner's fixup, then the steps each thread has to its next exchange.  As long as a thread has not
  returned, some thread does not wait.
\<close>

section \<open>Fair schedules\<close>

text \<open>
  A system of threads in which every step waits or lowers a rank, and in which somebody does not wait as long as
  the system is not finished, finishes under every schedule that is fair to the threads \<open>0\<close> to \<open>n\<close>.
\<close>

locale fair_threads =
  fixes step :: "nat \<Rightarrow> 's \<Rightarrow> 's" and sound :: "'s \<Rightarrow> bool" and finished :: "'s \<Rightarrow> bool" and n :: nat
    and rank :: "'s \<Rightarrow> 'r" and order :: "('r \<times> 'r) set"
  assumes order_wf: "wf order"
    and step_keeps: "sound s \<Longrightarrow> sound (step t s)"
    and step_ranks: "sound s \<Longrightarrow> step t s = s \<or> (rank (step t s), rank s) \<in> order"
    and step_goes: "sound s \<Longrightarrow> \<not> finished s \<Longrightarrow> \<exists>t \<le> n. step t s \<noteq> s"
begin

lemma states_sound: "sound s \<Longrightarrow> sound (fold step (map \<sigma> [0..<k]) s)"
  by (induction k) (simp_all add: step_keeps)

lemma states_change:
  assumes fair: "\<And>t k. t \<le> n \<Longrightarrow> \<exists>m \<ge> k. \<sigma> m = t"
    and f: "\<And>i. f i = fold step (map \<sigma> [0..<i]) s" and s: "sound s" and "\<not> finished (f k)"
  shows "\<exists>j \<ge> k. f j = f k \<and> f (Suc j) \<noteq> f j"
proof (rule ccontr)
  assume no: "\<not> ?thesis"
  have same: "f (k + i) = f k" for i
  proof (induction i)
    case (Suc i)
    then show ?case using no by (metis add_Suc_right le_add1)
  qed simp
  obtain t where t: "t \<le> n" "step t (f k) \<noteq> f k" using step_goes [OF _ assms(4)] states_sound [OF s] f by metis
  obtain m where m: "k \<le> m" "\<sigma> m = t" using fair [OF t(1)] by blast
  have "f (Suc m) = step t (f m)" using m(2) by (simp add: f)
  moreover have "f m = f k" "f (Suc m) = f k" using same [of "m - k"] same [of "Suc m - k"] m(1) by simp_all
  ultimately show False using t(2) by simp
qed

lemma fair_states_finish:
  assumes s: "sound s" and fair: "\<And>t k. t \<le> n \<Longrightarrow> \<exists>m \<ge> k. \<sigma> m = t"
  shows "\<exists>m \<ge> k. finished (fold step (map \<sigma> [0..<m]) s)"
proof (induction "rank (fold step (map \<sigma> [0..<k]) s)" arbitrary: k rule: wf_induct_rule [OF order_wf])
  case (1 k)
  define f where "f i = fold step (map \<sigma> [0..<i]) s" for i
  show ?case
  proof (cases "finished (f k)")
    case False
    from states_change [OF fair f_def s this] obtain j where j: "k \<le> j" "f j = f k" "f (Suc j) \<noteq> f j" by blast
    have "sound (f j)" unfolding f_def by (rule states_sound [OF s])
    from step_ranks [OF this, of "\<sigma> j"] have "(rank (f (Suc j)), rank (f k)) \<in> order" using j by (simp add: f_def)
    from "1" [OF this [unfolded f_def]] show ?thesis using j(1) by (meson le_SucI le_trans)
  qed (auto simp: f_def)
qed

end

section \<open>The rank\<close>

definition winner_phase :: "winner \<Rightarrow> nat" where
  "winner_phase w = (case w of W_commence \<Rightarrow> 4 | W_age \<Rightarrow> 3 | W_commit \<Rightarrow> 2 | W_unhint \<Rightarrow> 1 | W_done \<Rightarrow> 0 | _ \<Rightarrow> 5)"

definition winner_local :: "uword \<Rightarrow> winner \<Rightarrow> nat" where
  "winner_local v w = (case w of W_copy r n \<Rightarrow> 3 | W_read \<Rightarrow> 2 | W_win oldValue \<Rightarrow> if oldValue = v then 1 else 3 | _ \<Rightarrow> 0)"

definition loser_local :: "uword \<Rightarrow> loser \<Rightarrow> nat" where
  "loser_local v l = (case l of L_enter \<Rightarrow> 3 | L_read p \<Rightarrow> 2 | L_leave oldValue \<Rightarrow> if oldValue = v then 1 else 3
     | L_win oldValue p \<Rightarrow> if oldValue = v then 1 else 3 | L_copy r n \<Rightarrow> 3 | L_done \<Rightarrow> 0)"

definition copy_rank :: "copying \<Rightarrow> nat \<times> nat \<times> nat \<times> nat" where
  "copy_rank s = (unat (bytes_left s), outstanding (losers s), winner_phase (winner s),
     winner_local (slot s) (winner s) + sum_list (map (loser_local (slot s)) (losers s)))"

definition rank_order :: "((nat \<times> nat \<times> nat \<times> nat) \<times> (nat \<times> nat \<times> nat \<times> nat)) set" where
  "rank_order = less_than <*lex*> less_than <*lex*> less_than <*lex*> less_than"

lemma wf_rank_order: "wf rank_order"
  by (simp add: rank_order_def wf_lex_prod)

lemma rank_orderI:
  assumes "a < a' \<or> a = a' \<and> (b < b' \<or> b = b' \<and> (c < c' \<or> c = c' \<and> d < d'))"
  shows "((a, b, c, d), (a', b', c', d')) \<in> rank_order"
  using assms by (auto simp: rank_order_def)

lemma sum_update:
  fixes f :: "'a \<Rightarrow> nat"
  assumes "i < length ls"
  shows "sum_list (map f (ls[i := l])) + f (ls ! i) = sum_list (map f ls) + f l"
  using assms
proof (induction ls arbitrary: i)
  case (Cons k ls)
  then show ?case by (cases i) (auto simp: algebra_simps)
qed simp

lemma rank_bytes: "unat (bytes_left s') < unat (bytes_left s) \<Longrightarrow> (copy_rank s', copy_rank s) \<in> rank_order"
  by (simp add: copy_rank_def rank_orderI)

lemma rank_loser:
  assumes "i < length (losers s)" "participates l = participates (losers s ! i)" "loser_local (slot s) l < loser_local (slot s) (losers s ! i)"
  shows "(copy_rank (s \<lparr> losers := (losers s)[i := l] \<rparr>), copy_rank s) \<in> rank_order"
  using outstanding_update [OF assms(1), of l] sum_update [OF assms(1), of "loser_local (slot s)" l] assms(2,3)
  by (auto simp: copy_rank_def bytes_left_def intro!: rank_orderI)

section \<open>A step waits or goes on\<close>

lemma winner_step_rank:
  assumes inv: "copy_inv d src dst bs p a s"
  shows "winner_step src p a s = s \<or> (copy_rank (winner_step src p a s), copy_rank s) \<in> rank_order"
proof (cases "winner s")
  case (W_copy r n)
  have "bytes_left (winner_step src p a s) = bytes_left s" using W_copy by (simp add: winner_step_def bytes_left_def copying_phase_def)
  then show ?thesis using W_copy by (auto simp: winner_step_def copy_rank_def winner_phase_def winner_local_def intro!: rank_orderI)
next
  case W_read
  note sl = inv_slot [OF inv]
  have "winner_read (slot s) = W_read \<or> winner_read (slot s) = W_win (slot s)
      \<or> (winner_read (slot s) = W_commence \<and> progress_remaining (slot s) = 0)"
    by (auto simp: winner_read_def Let_def)
  moreover have "s \<lparr> winner := winner s \<rparr> = s" by simp
  ultimately show ?thesis using W_read
    by (auto simp: winner_step_def copy_rank_def winner_phase_def winner_local_def bytes_left_def copying_phase_def intro!: rank_orderI)
next
  case (W_win v)
  then have w: "copying_phase (winner s)" by (simp add: copying_phase_def)
  obtain sizeToCopy remaining v' where win: "winObjectSectionToCopy (slot s) v (progress_remaining v) (progress_outstanding v)
      = (sizeToCopy, remaining, v')" by (metis prod_cases3)
  have nz: "progress_remaining v \<noteq> 0" using copy_invD(3) [OF inv] W_win by (simp add: winner_ok_def)
  note ws = win_section [OF win progress_remaining_aligned nz]
  show ?thesis
  proof (cases "slot s = v")
    case True
    note sl = inv_slot [OF inv w]
    from ws(2) [OF True] have f: "sizeToCopy \<noteq> 0" "v' = progress remaining (progress_outstanding v)" "aligned_size remaining"
      "unat remaining + unat sizeToCopy = unat (bytes_left s)" using True sl(3) by auto
    have "progress_outstanding v < 16" using sl(5,7) True by (simp add: word_less_nat_alt)
    then have "progress_remaining v' = remaining" using progress_decode(1) [OF f(3)] f(2) by simp
    then have "bytes_left (winner_step src p a s) = remaining"
      using W_win win f(1) by (simp add: winner_step_def bytes_left_def copying_phase_def)
    then have "unat (bytes_left (winner_step src p a s)) < unat (bytes_left s)" using f(1,4) by (simp add: unat_gt_0 flip: f(4))
    then show ?thesis by (simp add: rank_bytes)
  next
    case False
    then have "winner_step src p a s = s \<lparr> winner := W_read \<rparr>" using ws(1) [OF False] W_win win by (simp add: winner_step_def)
    then show ?thesis using W_win False
      by (auto simp: copy_rank_def winner_phase_def winner_local_def bytes_left_def copying_phase_def intro!: rank_orderI)
  qed
qed (simp_all add: winner_step_def copy_rank_def bytes_left_def copying_phase_def winner_phase_def rank_orderI)

lemma loser_step_rank:
  assumes inv: "copy_inv d src dst bs p a s" and p: "\<not> bit p 2" "a < 16" and i: "i < length (losers s)"
  shows "loser_step src i s = s \<or> (copy_rank (loser_step src i s), copy_rank s) \<in> rank_order"
proof (cases "losers s ! i")
  case L_enter
  have "loser_enter (source s) = L_read False \<or> loser_enter (source s) = L_done" by (simp add: loser_enter_def)
  then have "(copy_rank (s \<lparr> losers := (losers s)[i := loser_enter (source s)] \<rparr>), copy_rank s) \<in> rank_order"
    by (intro rank_loser [OF i]) (auto simp: L_enter participates_def loser_local_def)
  then show ?thesis using L_enter by (simp add: loser_step_def)
next
  case (L_read part)
  have "part \<Longrightarrow> copying_phase (winner s)"
    using outstanding_pos [OF i] L_read copy_invD(7) [OF inv] by (auto simp: participates_def)
  then have "part \<Longrightarrow> bit (slot s) 2" using inv_slot(6) [OF inv] by blast
  then have "loser_read part (slot s) = L_read part \<or>
      (participates (loser_read part (slot s)) = part \<and> loser_local (slot s) (loser_read part (slot s)) < 2)"
    by (auto simp: loser_read_def tag_and participates_def loser_local_def Let_def)
  then show ?thesis
  proof
    assume "loser_read part (slot s) = L_read part"
    then have "loser_step src i s = s \<lparr> losers := (losers s)[i := losers s ! i] \<rparr>" using L_read by (simp add: loser_step_def)
    then show ?thesis by simp
  next
    assume r: "participates (loser_read part (slot s)) = part \<and> loser_local (slot s) (loser_read part (slot s)) < 2"
    have "(copy_rank (s \<lparr> losers := (losers s)[i := loser_read part (slot s)] \<rparr>), copy_rank s) \<in> rank_order"
      by (rule rank_loser [OF i]) (use r in \<open>simp_all add: L_read participates_def loser_local_def\<close>)
    then show ?thesis using L_read by (simp add: loser_step_def)
  qed
next
  case (L_leave v)
  have w: "copying_phase (winner s)" using outstanding_pos [OF i] L_leave copy_invD(7) [OF inv] by (auto simp: participates_def)
  have ok: "loser_ok bs (winner s) (L_leave v)" using copy_invD(4) [OF inv] i L_leave by (metis list_all_length)
  show ?thesis
  proof (cases "slot s = v")
    case True
    let ?s = "s \<lparr> slot := push_bit OUTSTANDING_COPIES_SHIFT (progress_outstanding (slot s) - 1) OR OMR_BEING_COPIED_TAG,
      losers := (losers s)[i := L_read False] \<rparr>"
    note sl = inv_slot [OF inv w]
    have pos: "0 < outstanding (losers s)" using outstanding_pos [OF i] L_leave by (simp add: participates_def)
    then have n: "progress_outstanding (slot s) - 1 = of_nat (outstanding (losers s) - 1)" using sl(4) by simp
    have "unat (of_nat (outstanding (losers s) - 1) :: uword) = outstanding (losers s) - 1" using sl(7) by (simp add: unat_of_nat del: of_nat_diff)
    then have "progress_outstanding (slot s) - 1 < 16" unfolding n word_less_nat_alt using sl(7) by simp
    from progress_decode(1) [of 0, OF _ this] have "bytes_left ?s = 0" using w by (simp add: bytes_left_def progress_def aligned_size_def)
    moreover have "bytes_left s = 0" using ok True sl(3) by (simp add: loser_ok_def)
    moreover have "outstanding (losers ?s) < outstanding (losers s)"
      using outstanding_update [OF i, of "L_read False"] L_leave by (simp add: participates_def)
    ultimately have "(copy_rank ?s, copy_rank s) \<in> rank_order" by (simp add: copy_rank_def rank_orderI)
    then show ?thesis using L_leave True by (simp add: loser_step_def lockCompareExchangeObjectHeader_def)
  next
    case False
    have "(copy_rank (s \<lparr> losers := (losers s)[i := L_read True] \<rparr>), copy_rank s) \<in> rank_order"
      by (rule rank_loser [OF i]) (use False in \<open>simp_all add: L_leave participates_def loser_local_def\<close>)
    then show ?thesis using L_leave False by (simp add: loser_step_def lockCompareExchangeObjectHeader_def)
  qed
next
  case (L_win v part)
  have ok: "loser_ok bs (winner s) (L_win v part)" using copy_invD(4) [OF inv] i L_win by (metis list_all_length)
  then have nz: "progress_remaining v \<noteq> 0" "bit v 2" by (simp_all add: loser_ok_def)
  let ?n = "if part then progress_outstanding v else progress_outstanding v + 1"
  obtain sizeToCopy remaining v' where win: "winObjectSectionToCopy (slot s) v (progress_remaining v) ?n
      = (sizeToCopy, remaining, v')" by (metis prod_cases3)
  note ws = win_section [OF win progress_remaining_aligned nz(1)]
  show ?thesis
  proof (cases "slot s = v")
    case True
    have w: "copying_phase (winner s)" using inv_fixup(1) [OF inv _ p] nz True by blast
    note sl = inv_slot [OF inv w]
    from ws(2) [OF True] have f: "sizeToCopy \<noteq> 0" "v' = progress remaining ?n" "aligned_size remaining"
      "unat remaining + unat sizeToCopy = unat (bytes_left s)" using True sl(3) by auto
    have "progress_outstanding v \<le> 4" using sl(5,7) True by (simp add: word_le_nat_alt)
    then have "?n < 16" by (auto simp: word_less_nat_alt word_le_nat_alt unat_word_ariths)
    then have "progress_remaining v' = remaining" using progress_decode(1) [OF f(3)] f(2) by simp
    then have "bytes_left (loser_step src i s) = remaining" using L_win win f(1) w by (simp add: loser_step_def bytes_left_def)
    then have "unat (bytes_left (loser_step src i s)) < unat (bytes_left s)" using f(1) by (simp add: unat_gt_0 flip: f(4))
    then show ?thesis by (simp add: rank_bytes)
  next
    case False
    have "(copy_rank (s \<lparr> losers := (losers s)[i := L_read part] \<rparr>), copy_rank s) \<in> rank_order"
      by (rule rank_loser [OF i]) (use False in \<open>simp_all add: L_win participates_def loser_local_def\<close>)
    then show ?thesis using L_win win ws(1) [OF False] by (simp add: loser_step_def)
  qed
next
  case (L_copy r n)
  have e: "loser_step src i s = (s \<lparr> losers := (losers s)[i := L_read True] \<rparr>) \<lparr> body := copySection src r n (body s) \<rparr>"
    using L_copy by (simp add: loser_step_def)
  have "(copy_rank (s \<lparr> losers := (losers s)[i := L_read True] \<rparr>), copy_rank s) \<in> rank_order"
    by (rule rank_loser [OF i]) (simp_all add: L_copy participates_def loser_local_def)
  moreover have "copy_rank (loser_step src i s) = copy_rank (s \<lparr> losers := (losers s)[i := L_read True] \<rparr>)"
    by (simp add: e copy_rank_def bytes_left_def)
  ultimately show ?thesis by simp
next
  case L_done
  then show ?thesis by (simp add: loser_step_def)
qed

lemma copy_step_rank:
  assumes "copy_inv d src dst bs p a s" "\<not> bit p 2" "a < 16"
  shows "copy_step src p a t s = s \<or> (copy_rank (copy_step src p a t s), copy_rank s) \<in> rank_order"
  using winner_step_rank [OF assms(1)] loser_step_rank [OF assms] by (simp add: copy_step_def split: nat.split)

section \<open>Somebody goes on\<close>

definition all_done :: "copying \<Rightarrow> bool" where
  "all_done s \<longleftrightarrow> winner s = W_done \<and> list_all (\<lambda>l. l = L_done) (losers s)"

lemma loser_goes:
  assumes "i < length (losers s)" "losers (loser_step src i s) ! i \<noteq> losers s ! i"
  shows "copy_step src p a (Suc i) s \<noteq> s"
  using assms by (auto simp: copy_step_def)

lemma helper_goes:
  assumes inv: "copy_inv d src dst bs p a s" and w: "winner s = W_read" "progress_remaining (slot s) = 0"
    and i: "i < length (losers s)" "participates (losers s ! i)"
  shows "losers (loser_step src i s) ! i \<noteq> losers s ! i"
proof -
  have t: "bit (slot s) 2" using inv_slot(6) [OF inv] w by (simp add: copying_phase_def)
  show ?thesis using i w(2) t
    by (cases "losers s ! i")
      (auto simp: loser_step_def loser_read_def participates_def tag_and Let_def lockCompareExchangeObjectHeader_def split: prod.split)
qed

lemma last_goes:
  assumes inv: "copy_inv d src dst bs p a s" and p: "\<not> bit p 2" "a < 16"
    and w: "winner s = W_done" and i: "i < length (losers s)" "losers s ! i \<noteq> L_done"
  shows "losers (loser_step src i s) ! i \<noteq> losers s ! i"
proof -
  have "\<not> copying_phase (winner s)" by (simp add: w copying_phase_def)
  note f = inv_fixup [OF inv this p]
  have "\<not> participates (losers s ! i)" using f(2) i(1) by (auto simp: outstanding_0)
  then show ?thesis using i f(3) w
    by (cases "losers s ! i")
      (auto simp: loser_step_def loser_enter_def loser_read_def participates_def tag_and Let_def split: prod.split)
qed

lemma somebody_goes:
  assumes inv: "copy_inv d src dst bs p a s" and p: "\<not> bit p 2" "a < 16" and "\<not> all_done s"
  shows "\<exists>t \<le> length (losers s). copy_step src p a t s \<noteq> s"
proof -
  have goes: ?thesis if "winner (winner_step src p a s) \<noteq> winner s"
    using that by (auto simp: copy_step_def intro!: exI [of _ 0])
  show ?thesis
  proof (cases "winner s")
    case W_read
    then have w: "copying_phase (winner s)" by (simp add: copying_phase_def)
    show ?thesis
    proof (cases "winner_read (slot s) = W_read")
      case True
      then have z: "progress_remaining (slot s) = 0" "progress_outstanding (slot s) \<noteq> 0"
        by (auto simp: winner_read_def Let_def split: if_splits)
      then have "outstanding (losers s) \<noteq> 0" using inv_slot(5) [OF inv w] by (metis unat_eq_zero)
      then obtain i where i: "i < length (losers s)" "participates (losers s ! i)" by (auto simp: outstanding_0 in_set_conv_nth)
      from loser_goes [OF i(1) helper_goes [OF inv W_read z(1) i]] i(1) show ?thesis by (metis Suc_leI)
    next
      case False
      then show ?thesis using goes W_read by (simp add: winner_step_def)
    qed
  next
    case W_done
    then obtain i where i: "i < length (losers s)" "losers s ! i \<noteq> L_done" using assms(4) by (auto simp: all_done_def list_all_length)
    from loser_goes [OF i(1) last_goes [OF inv p W_done i]] i(1) show ?thesis by (metis Suc_leI)
  qed (use goes in \<open>auto simp: winner_step_def split: prod.split\<close>)
qed

section \<open>The protocol ends\<close>

lemma length_losers_step: "length (losers (copy_step src p a t s)) = length (losers s)"
  by (simp add: copy_step_def winner_step_def loser_step_def Let_def split: nat.split winner.split loser.split prod.split)

text \<open>The threads of a copy, with the conditions on the object in the invariant.\<close>

definition copy_sound :: "addr \<Rightarrow> (nat \<Rightarrow> 8 word) \<Rightarrow> (nat \<Rightarrow> 8 word) \<Rightarrow> nat \<Rightarrow> uword \<Rightarrow> uword \<Rightarrow> nat \<Rightarrow> copying \<Rightarrow> bool" where
  "copy_sound d src dst bs p a n s \<longleftrightarrow>
     \<not> bit p 2 \<and> a < 16 \<and> 8 dvd d \<and> length (losers s) = n \<and> copy_inv d src dst bs p a s"

interpretation copy: fair_threads "copy_step src p a" "copy_sound d src dst bs p a n" all_done n copy_rank rank_order
proof
  show "wf rank_order" by (rule wf_rank_order)
  fix s assume s: "copy_sound d src dst bs p a n s"
  then have c: "copy_inv d src dst bs p a s" "\<not> bit p 2" "a < 16" "8 dvd d" "length (losers s) = n" by (simp_all add: copy_sound_def)
  show "copy_sound d src dst bs p a n (copy_step src p a t s)" for t
    using c copy_step_inv [OF c(1-4)] by (simp add: copy_sound_def length_losers_step)
  show "copy_step src p a t s = s \<or> (copy_rank (copy_step src p a t s), copy_rank s) \<in> rank_order" for t
    by (rule copy_step_rank [OF c(1-3)])
  show "\<exists>t \<le> n. copy_step src p a t s \<noteq> s" if "\<not> all_done s" using somebody_goes [OF c(1-3) that] c(5) by simp
qed

end
