(* ===== verification/Copy_Properties.thy ===== *)
theory Copy_Properties
  imports Copy_Progress
begin

text \<open>
  What the scavenger's forwarding promises its callers: threads that race to forward an object agree on one
  destination; an object that is copied by several threads is complete, with its header restored, when any
  of them returns; all of them return.
\<close>

section \<open>Forwarding\<close>

text \<open>
  What a thread does with an object it has read the header of: forward it to a destination of its own, with or
  without the hint that it is being copied, or, when it has no memory for it, forward it to itself.
\<close>

datatype attempt = Strictly addr uword | Itself

definition forward :: "addr \<Rightarrow> uword \<Rightarrow> attempt \<Rightarrow> mem \<Rightarrow> addr \<times> mem" where
  "forward objectPtr preserved x m =
     (let fh = \<lparr> fh_objectPtr = objectPtr, fh_preserved = preserved \<rparr>
      in case x of Strictly destinationObjectPtr hint \<Rightarrow> setForwardedObjectInternal destinationObjectPtr (OMR_FORWARDED_TAG OR hint) fh m
         | Itself \<Rightarrow> setSelfForwardedObject fh m)"

fun forward_all :: "addr \<Rightarrow> uword \<Rightarrow> attempt list \<Rightarrow> mem \<Rightarrow> addr list \<times> mem" where
  "forward_all objectPtr preserved [] m = ([], m)"
| "forward_all objectPtr preserved (x # xs) m =
     (let (r, m) = forward objectPtr preserved x m; (rs, m) = forward_all objectPtr preserved xs m in (r # rs, m))"

definition can_be_destination :: "addr \<Rightarrow> uword \<Rightarrow> bool" where
  "can_be_destination d hint \<longleftrightarrow> 8 dvd d \<and> d < 2 ^ 64 \<and> (hint = 0 \<or> hint = OMR_BEING_COPIED_HINT)"

lemma and_not_disjoint:
  fixes x y :: uword
  assumes "x AND y = 0"
  shows "x AND NOT y = x"
proof -
  have "x = x AND (y OR NOT y)" by simp
  also have "\<dots> = (x AND y) OR (x AND NOT y)" by (rule bit.conj_disj_distrib)
  finally show ?thesis using assms by simp
qed

lemma aligned_low_bits:
  assumes "8 dvd d"
  shows "(of_nat d :: uword) AND 7 = 0"
proof -
  have "(of_nat d :: uword) AND mask 3 = of_nat (take_bit 3 d)" by (simp only: take_bit_eq_mask [symmetric] take_bit_of_nat)
  moreover have "take_bit 3 d = 0" using assms by (simp add: take_bit_eq_mod mod_eq_0_iff_dvd)
  ultimately show ?thesis by (simp add: mask_eq_decr_exp)
qed

lemma forwarded_object:
  assumes "can_be_destination d hint" and "fh_preserved fh = of_nat d OR (OMR_FORWARDED_TAG OR hint)"
  shows "getForwardedObject fh = d" "getNonStrictForwardedObject fh = d"
proof -
  let ?x = "of_nat d :: uword"
  have d: "8 dvd d" "d < 2 ^ 64" and h: "hint = 0 \<or> hint = 2"
    using assms(1) by (auto simp: can_be_destination_def forwarded_bits)
  note x7 = aligned_low_bits [OF d(1)]
  have sub: "?x AND y = (?x AND 7) AND y" if "7 AND y = y" for y using that by (simp add: and.assoc)
  have x: "?x AND 4 = 0" "?x AND 5 = 0" "?x AND 6 = 0" using sub [of 4] sub [of 5] sub [of 6] x7 by simp_all
  have v: "fh_preserved fh = ?x OR 4 \<or> fh_preserved fh = ?x OR 6" using assms(2) h by (auto simp: forwarded_bits)
  then have "fh_preserved fh AND 4 = 4" "fh_preserved fh AND 5 = 4" "fh_preserved fh AND NOT 6 = ?x"
    using x and_not_disjoint [OF x(3)] by (auto simp: bit.conj_disj_distrib2 simp del: bit.double_compl)
  then show "getForwardedObject fh = d" "getNonStrictForwardedObject fh = d"
    using d(2) by (simp_all add: getForwardedObject_def getNonStrictForwardedObject_def isStrictlyForwardedPointer_def forwarded_bits unat_of_nat)
qed

lemma self_forwarded_object:
  assumes "fh_preserved fh = v OR selfForwardedTag"
  shows "getForwardedObject fh = NULL" "getNonStrictForwardedObject fh = fh_objectPtr fh"
proof -
  have "fh_preserved fh AND 5 = 5" using assms by (simp add: forwarded_bits bit.conj_disj_distrib2 bit.disj_conj_distrib2)
  then show "getForwardedObject fh = NULL" "getNonStrictForwardedObject fh = fh_objectPtr fh"
    by (simp_all add: getForwardedObject_def getNonStrictForwardedObject_def isStrictlyForwardedPointer_def isSelfForwardedPointer_def forwarded_bits)
qed

text \<open>A header that has the tag is not changed by threads that read it before.\<close>

lemma forward_lost:
  assumes "bit v 2" "m q = v" "\<not> bit p 2"
  shows "forward q p x m = (case x of Strictly d hint \<Rightarrow> getForwardedObject \<lparr> fh_objectPtr = q, fh_preserved = v \<rparr>
    | Itself \<Rightarrow> getNonStrictForwardedObject \<lparr> fh_objectPtr = q, fh_preserved = v \<rparr>, m)"
proof -
  have "m q \<noteq> p" using assms by auto
  then show ?thesis using assms(2)
    by (auto simp: forward_def setForwardedObjectInternal_def setSelfForwardedObject_def lockCompareExchange_def newForwardedHeader_def Let_def
      split: attempt.split)
qed

lemma tagged: "bit (v OR (OMR_FORWARDED_TAG OR t)) 2" "bit (v OR selfForwardedTag) 2"
  using bit_tag [of 2] by (simp_all add: bit_or_iff OMR_BEING_COPIED_TAG_def selfForwardedTag_def)

lemma forward_all_lost:
  assumes "bit v 2" "m q = v" "\<not> bit p 2"
  shows "forward_all q p xs m = (map (\<lambda>x. case x of Strictly d hint \<Rightarrow> getForwardedObject \<lparr> fh_objectPtr = q, fh_preserved = v \<rparr>
    | Itself \<Rightarrow> getNonStrictForwardedObject \<lparr> fh_objectPtr = q, fh_preserved = v \<rparr>) xs, m)"
  by (induction xs) (simp_all add: forward_lost [where v = v and m = m and q = q, OF assms])

text \<open>
  C35: Threads that have all read the same header of an object, not yet forwarded, and each try to forward it,
  to a destination of their own or, for want of memory, to itself, agree.  If the first one forwards it to a
  destination, all of them get that destination, which the object's header then gives back, and no other
  header changes.
\<close>

theorem forwarding_agrees:
  assumes "m objectPtr = preserved" "\<not> bit preserved 2" "can_be_destination d hint"
  shows "\<exists>m'. forward_all objectPtr preserved (Strictly d hint # xs) m = (replicate (Suc (length xs)) d, m')
    \<and> getForwardedObject (newForwardedHeader objectPtr m') = d \<and> (\<forall>q. q \<noteq> objectPtr \<longrightarrow> m' q = m q)"
proof -
  let ?v = "of_nat d OR (OMR_FORWARDED_TAG OR hint)"
  let ?m = "m(objectPtr := ?v)"
  note g = forwarded_object [OF assms(3), of "\<lparr> fh_objectPtr = objectPtr, fh_preserved = ?v \<rparr>", simplified]
  have first: "forward objectPtr preserved (Strictly d hint) m = (d, ?m)"
    using assms(1) by (simp add: forward_def setForwardedObjectInternal_def lockCompareExchange_def)
  have "(\<lambda>x. case x of Strictly d' h \<Rightarrow> d | Itself \<Rightarrow> d) = (\<lambda>_. d)" by (auto split: attempt.split)
  then have "forward_all objectPtr preserved xs ?m = (replicate (length xs) d, ?m)"
    using forward_all_lost [where v = ?v and m = ?m and q = objectPtr and p = preserved and xs = xs] tagged(1) assms(2) g by (simp add: map_replicate_const)
  then show ?thesis using first g by (simp add: newForwardedHeader_def)
qed

theorem forwarding_agrees_witness:
  "\<exists>m'. forward_all 64 8 [Strictly 1024 0, Itself, Strictly 2048 OMR_BEING_COPIED_HINT] ((\<lambda>_. 0)(64 := 8)) = ([1024, 1024, 1024], m')
    \<and> getForwardedObject (newForwardedHeader 64 m') = 1024 \<and> (\<forall>q. q \<noteq> 64 \<longrightarrow> m' q = ((\<lambda>_. 0)(64 := 8)) q)"
proof -
  have "can_be_destination 1024 0" by (simp add: can_be_destination_def)
  then show ?thesis
    using forwarding_agrees [of "(\<lambda>_. 0)(64 := 8)" 64 8 1024 0 "[Itself, Strictly 2048 OMR_BEING_COPIED_HINT]"]
    by (simp add: numeral_3_eq_3)
qed

text \<open>
  C36: If the first thread forwards the object to itself, the others that have no memory for it get the object
  too, those that have reserved a copy get none, and \<open>restoreSelfForwardedPointer\<close> gives the object its
  header back.
\<close>

theorem self_forwarding_agrees:
  assumes "m objectPtr = preserved" "\<not> bit preserved 2" "\<not> bit preserved 0"
  shows "\<exists>m'. forward_all objectPtr preserved (Itself # xs) m
      = (objectPtr # map (\<lambda>x. if x = Itself then objectPtr else NULL) xs, m')
    \<and> restoreSelfForwardedPointer (newForwardedHeader objectPtr m') m' = m"
proof -
  let ?v = "preserved OR selfForwardedTag"
  let ?m = "m(objectPtr := ?v)"
  note g = self_forwarded_object [of "\<lparr> fh_objectPtr = objectPtr, fh_preserved = ?v \<rparr>" preserved, simplified]
  have first: "forward objectPtr preserved Itself m = (objectPtr, ?m)"
    using assms(1) by (simp add: forward_def setSelfForwardedObject_def lockCompareExchange_def)
  have "(\<lambda>x. case x of Strictly d' h \<Rightarrow> NULL | Itself \<Rightarrow> objectPtr) = (\<lambda>x. if x = Itself then objectPtr else NULL)"
    by (auto split: attempt.split)
  then have "forward_all objectPtr preserved xs ?m = (map (\<lambda>x. if x = Itself then objectPtr else NULL) xs, ?m)"
    using forward_all_lost [where v = ?v and m = ?m and q = objectPtr and p = preserved and xs = xs] tagged(2) assms(2) g by simp
  moreover have "?v AND NOT selfForwardedTag = preserved"
  proof (rule bit_word_eqI)
    fix i
    have t: "bit selfForwardedTag i \<longleftrightarrow> i = 0 \<or> i = 2"
      using bit_tag [of i] by (simp add: selfForwardedTag_def OMR_BEING_COPIED_TAG_def OMR_SELF_FORWARDED_TAG_def J9_GC_MULTI_SLOT_HOLE_def bit_or_iff bit_1_iff) auto
    show "bit (?v AND NOT selfForwardedTag) i \<longleftrightarrow> bit preserved i" if "i < LENGTH(64)"
      using that assms(2,3) t by (auto simp: bit_and_iff bit_or_iff bit_not_iff)
  qed
  then have "restoreSelfForwardedPointer (newForwardedHeader objectPtr ?m) ?m = m"
    using assms(1) by (auto simp: restoreSelfForwardedPointer_def newForwardedHeader_def)
  ultimately show ?thesis using first by simp
qed

theorem self_forwarding_agrees_witness:
  "\<exists>m'. forward_all 64 8 [Itself, Strictly 1024 0, Itself] ((\<lambda>_. 0)(64 := 8)) = ([64, NULL, 64], m')
    \<and> restoreSelfForwardedPointer (newForwardedHeader 64 m') m' = (\<lambda>_. 0)(64 := 8)"
  using self_forwarding_agrees [of "(\<lambda>_. 0)(64 := 8)" 64 8 "[Strictly 1024 0, Itself]"] by simp

section \<open>The header of a copy in progress\<close>

text \<open>
  C37: The progress information of a copy survives its encoding in the header word: the bytes left, a multiple
  of 4096, and the number of helpers, up to 15, are read back, and the header is tagged as being copied.
\<close>

theorem progress_roundtrip:
  assumes "4096 dvd unat remaining" "outstandingCopies < 16"
  shows "progress_remaining (progress remaining outstandingCopies) = remaining
    \<and> progress_outstanding (progress remaining outstandingCopies) = outstandingCopies
    \<and> progress remaining outstandingCopies AND OMR_BEING_COPIED_TAG \<noteq> 0"
  using progress_decode [OF _ assms(2)] assms(1) by (simp add: aligned_size_dvd tag_and)

theorem progress_roundtrip_witness:
  "progress_remaining (progress 0x21000 3) = 0x21000 \<and> progress_outstanding (progress 0x21000 3) = 3
    \<and> progress 0x21000 3 AND OMR_BEING_COPIED_TAG \<noteq> 0"
  by (rule progress_roundtrip) simp_all

section \<open>Copying together\<close>

lemma complete_outside:
  assumes "copy_inv d src dst bs p a s" "\<not> copying_phase (winner s)" "i < bs"
  shows "body s i = src i"
proof -
  have "\<not> loser_pending l i" if "l \<in> set (losers s)" for l
    using copy_invD(7) [OF assms(1,2)] that by (cases l) (auto simp: outstanding_0 participates_def loser_pending_def)
  moreover have "\<not> winner_pending (winner s) i" using assms(2) by (cases "winner s") (auto simp: winner_pending_def copying_phase_def)
  ultimately show ?thesis
    using copy_invD(8) [OF assms(1), of i] assms(2,3) by (auto simp: copied_def pending_def bytes_left_def)
qed

text \<open>
  C5: A large object that several threads copy is complete when one of them returns.  Whatever the order of
  their steps, once the thread that won the forwarding or any thread that found the object forwarded has
  returned, every byte after the header equals the original's, the header is the original's with the new age,
  and no byte after the object has been written.
\<close>

theorem returned_copy_complete:
  assumes "8 \<le> objectSize" "\<not> bit preserved 2" "objectAge < 16" "8 dvd destinationObjectPtr"
    and "s = copy_run src preserved objectAge ts (copy_start destinationObjectPtr objectSize dst n)"
    and "winner s = W_done \<or> L_done \<in> set (losers s)"
  shows "slot s = setAge objectAge preserved \<and> (\<forall>i < unat objectSize - 8. body s i = src i)
    \<and> (\<forall>i \<ge> unat objectSize - 8. body s i = dst i)"
proof -
  have inv: "copy_inv destinationObjectPtr src dst (unat objectSize - 8) preserved objectAge s"
    unfolding assms(5) by (rule copy_run_inv [OF copy_start_inv [OF assms(1)] assms(2-4)])
  have w: "winner s = W_unhint \<or> winner s = W_done"
    using assms(6) copy_invD(4) [OF inv] by (auto simp: list_all_iff loser_ok_def)
  then have "slot s = setAge objectAge preserved" using copy_invD(1) [OF inv] by (auto simp: slot_ok_def)
  moreover have "\<not> copying_phase (winner s)" using w by (auto simp: copying_phase_def)
  ultimately show ?thesis using complete_outside [OF inv] copy_invD(9) [OF inv] by blast
qed

text \<open>
  An object of 300008 bytes, copied by the winner and one of two helpers: the winner copies the first section,
  the helper wins the second and the winner the third, and the helper returns.
\<close>

lemmas copy_eval = copy_run_def copy_step_def winner_step_def loser_step_def copy_start_def winner_read_def loser_read_def loser_enter_def
  copySetup_def winObjectSectionToCopy_def lockCompareExchangeObjectHeader_def section_size_def SIZE_OF_SECTION_TO_COPY_def minIncrement_def
  REMAINING_SIZE_MASK_def SIZE_ALIGNMENT_def progress_def progress_remaining_def progress_outstanding_def forwarding_def isBeingCopied_def
  commenceFixup_slot_def commitFixup_slot_def setAge_eq OMR_OBJECT_METADATA_AGE_MASK_def COPY_PROGRESS_INFO_MASK_def OUTSTANDING_COPIES_MASK_def
  MAX_OUTSTANDING_COPIES_def forwarded_bits

definition sample_schedule :: "nat list" where
  "sample_schedule = [0, 1, 1, 1, 0, 0, 1, 1, 0, 0, 1, 1, 0, 0, 0, 0, 1]"

definition sample_copy :: "nat list \<Rightarrow> copying" where
  "sample_copy ts = copy_run of_nat 0x1238 5 ts (copy_start 4096 300008 (\<lambda>_. 0) 2)"

lemma sample_helper_returns: "L_done \<in> set (losers (sample_copy sample_schedule))"
proof -
  have "L_done \<in> set (losers (copy_run src 0x1238 5 sample_schedule (copy_start 4096 300008 dst 2)))" for src dst
    by (simp add: copy_eval sample_schedule_def) (simp add: numeral_2_eq_2)
  then show ?thesis by (simp only: sample_copy_def)
qed

theorem returned_copy_complete_witness:
  "slot (sample_copy sample_schedule) = 0x1258 \<and> body (sample_copy sample_schedule) 299999 = of_nat 299999
    \<and> body (sample_copy sample_schedule) 300000 = 0"
proof -
  let ?s = "sample_copy sample_schedule"
  have r: "slot ?s = setAge 5 0x1238 \<and> (\<forall>i < unat (300008 :: uword) - 8. body ?s i = of_nat i)
    \<and> (\<forall>i \<ge> unat (300008 :: uword) - 8. body ?s i = 0)"
    by (rule returned_copy_complete [OF _ _ _ _ sample_copy_def disjI2 [OF sample_helper_returns]]) simp_all
  have "slot ?s = 0x1258" using conjunct1 [OF r] by (simp add: setAge_eq OMR_OBJECT_METADATA_AGE_MASK_def)
  moreover have "body ?s 299999 = of_nat 299999" using spec [OF conjunct1 [OF conjunct2 [OF r]], of 299999] by simp
  moreover have "body ?s 300000 = 0" using spec [OF conjunct2 [OF conjunct2 [OF r]], of 300000] by simp
  ultimately show ?thesis by (intro conjI)
qed

text \<open>
  C34: While the object is copied, its header is the encoding of what is left and of the number of threads that
  help, which never exceeds \<open>MAX_OUTSTANDING_COPIES\<close>; every byte from there on is copied or in the section of a
  thread that has won it and not yet copied it.
\<close>

theorem copy_progress_invariant:
  assumes "8 \<le> objectSize" "\<not> bit preserved 2" "objectAge < 16" "8 dvd destinationObjectPtr"
    and "s = copy_run src preserved objectAge ts (copy_start destinationObjectPtr objectSize dst n)"
    and "copying_phase (winner s)"
  shows "unat (progress_outstanding (slot s)) = outstanding (losers s) \<and> outstanding (losers s) \<le> unat MAX_OUTSTANDING_COPIES
    \<and> 4096 dvd unat (progress_remaining (slot s)) \<and> slot s AND OMR_BEING_COPIED_TAG \<noteq> 0
    \<and> (\<forall>i. unat (progress_remaining (slot s)) \<le> i \<and> i < unat objectSize - 8 \<longrightarrow> body s i = src i \<or> pending s i)"
proof -
  have inv: "copy_inv destinationObjectPtr src dst (unat objectSize - 8) preserved objectAge s"
    unfolding assms(5) by (rule copy_run_inv [OF copy_start_inv [OF assms(1)] assms(2-4)])
  note sl = inv_slot [OF inv assms(6)]
  have "bytes_left s = progress_remaining (slot s)" using sl(3) by simp
  then show ?thesis using sl copy_invD(8) [OF inv] by (auto simp: MAX_OUTSTANDING_COPIES_def aligned_size_dvd tag_and copied_def)
qed

lemma sample_copying: "copying_phase (winner (sample_copy (take 4 sample_schedule)))"
  "slot (sample_copy (take 4 sample_schedule)) = 0x9104"
  by (simp_all add: copy_eval copying_phase_def sample_copy_def sample_schedule_def)

theorem copy_progress_invariant_witness:
  "outstanding (losers (sample_copy (take 4 sample_schedule))) = 1
    \<and> (body (sample_copy (take 4 sample_schedule)) 36864 = of_nat 36864 \<or> pending (sample_copy (take 4 sample_schedule)) 36864)"
proof -
  let ?s = "sample_copy (take 4 sample_schedule)"
  have r: "unat (progress_outstanding (slot ?s)) = outstanding (losers ?s) \<and> outstanding (losers ?s) \<le> unat MAX_OUTSTANDING_COPIES
    \<and> 4096 dvd unat (progress_remaining (slot ?s)) \<and> slot ?s AND OMR_BEING_COPIED_TAG \<noteq> 0
    \<and> (\<forall>i. unat (progress_remaining (slot ?s)) \<le> i \<and> i < unat (300008 :: uword) - 8 \<longrightarrow> body ?s i = of_nat i \<or> pending ?s i)"
    by (rule copy_progress_invariant [OF _ _ _ _ sample_copy_def sample_copying(1)]) simp_all
  have v: "unat (progress_outstanding (slot ?s)) = 1" "unat (progress_remaining (slot ?s)) = 36864"
    by (simp_all add: sample_copying(2) progress_remaining_def progress_outstanding_def REMAINING_SIZE_MASK_def SIZE_ALIGNMENT_def)
  have "body ?s 36864 = of_nat 36864 \<or> pending ?s 36864"
    using spec [OF conjunct2 [OF conjunct2 [OF conjunct2 [OF conjunct2 [OF r]]]], of 36864] v(2) by simp
  then show ?thesis using conjunct1 [OF r] v(1) by (intro conjI) (simp, assumption)
qed

text \<open>
  C33: All threads return.  In every schedule in which each of the threads is scheduled again and again, there
  comes a point where the winner and all the threads that found the object forwarded have returned; so nobody
  waits for ever for the copy of another.
\<close>

theorem copy_terminates:
  assumes "8 \<le> objectSize" "\<not> bit preserved 2" "objectAge < 16" "8 dvd destinationObjectPtr"
    and "\<And>t k. t \<le> n \<Longrightarrow> \<exists>m \<ge> k. \<sigma> m = t"
  shows "\<exists>k. all_done (copy_run src preserved objectAge (map \<sigma> [0..<k]) (copy_start destinationObjectPtr objectSize dst n))"
proof -
  let ?s = "copy_start destinationObjectPtr objectSize dst n"
  have n: "length (losers ?s) = n" by (simp add: copy_start_def split: prod.split)
  have "copy_sound destinationObjectPtr src dst (unat objectSize - 8) preserved objectAge n ?s"
    using copy_start_inv [OF assms(1)] assms(2-4) n by (simp add: copy_sound_def)
  from copy.fair_states_finish [OF this assms(5)] show ?thesis unfolding copy_run_def by blast
qed

theorem copy_terminates_witness:
  "\<exists>k. all_done (copy_run (\<lambda>i. of_nat i) 3 5 (map (\<lambda>k. k mod 3) [0..<k]) (copy_start 4096 300008 (\<lambda>_. 0) 2))"
proof (rule copy_terminates)
  fix t k :: nat assume "t \<le> 2"
  then show "\<exists>m \<ge> k. m mod 3 = t" by (intro exI [of _ "3 * k + t"]) simp
qed simp_all

end
