(* ===== verification/Spec2Isabelle.thy ===== *)
theory Spec2Isabelle
  imports Pool_Contract Ranking Atomic_Mark Stack_Contract Sweep_Properties Sublist_Properties Puddle_Race Copy_Properties
begin

text \<open>
  A verification development of the Eclipse OMR garbage collector (src/gc), the part of the
  repository that manages the heap of a language runtime: free memory and its allocation, the
  mark map, the distribution of tracing work, the sweep, the remembered set, and the forwarding and
  copying of objects.

  \<^bold>\<open>The program and its parts.\<close>
  Mutator threads allocate from \<^emph>\<open>memory pools\<close>: lists of free entries whose headers lie in the
  free memory itself.  A global collection \<^emph>\<open>marks\<close> the live objects in a bit map, the threads
  sharing the objects still to be scanned through \<^emph>\<open>work packets\<close>, and then \<^emph>\<open>sweeps\<close>: it rebuilds
  the pools' lists from the unmarked gaps.  A \<^emph>\<open>scavenge\<close> copies the live objects out of the new space;
  it starts from the old objects that refer to new ones, which a \<^emph>\<open>remembered set\<close> holds, and leaves
  in each copied object a \<^emph>\<open>forwarding\<close> to its copy.  The development follows this order:

  \<^item> \<open>GC_Prelude\<close>: machine types, wrapping \<open>uintptr_t\<close> arithmetic (\<open>uadd\<close>, \<open>usub\<close>, \<open>umul\<close>),
    assertions and dereferences as \<open>option\<close> values, shared lemmas.
  \<^item> \<open>GC_Math\<close> (gc/base/Math.hpp, Bits.hpp): rounding, logarithm, bit counts, with the
    population count and the zero counts proved equal to their definitions on bits.
  \<^item> \<open>Ranking\<close> (util/omrutil/ranking.c, spacesaving.c): the rank table and the Space-Saving
    summary of allocation sizes, with its heavy-hitter guarantee.
  \<^item> \<open>Alloc_Stats\<close> (gc/stats/LargeObjectAllocateStats.cpp): the profile of free entry sizes; the
    contract \<open>entry_counter\<close> says that the total follows the free list.
  \<^item> \<open>Free_Header\<close> and \<open>Free_List\<close> (gc/base/HeapLinkedFreeHeader.hpp): headers in memory, the
    contract \<open>next_field\<close> for both header shapes, lists of entries as a heap structure.
  \<^item> \<open>Pool_Base\<close>, \<open>Pool_Hints\<close>, \<open>Pool\<close> (gc/base/MemoryPool.cpp,
    MemoryPoolAddressOrderedListBase.cpp, MemoryPoolAddressOrderedList.cpp): the address-ordered
    pool, one definition per member function.  \<open>Pool_Alloc\<close> proves the allocation functions
    correct, \<open>Pool_Contract\<close> states the contract of an allocator (\<open>pool_inv\<close> is its invariant)
    and draws the consequences for any sequence of requests.
  \<^item> \<open>Heap_Map\<close> (gc/base/HeapMap.hpp, HeapMap.cpp, HeapMapIterator.cpp, HeapMapWordIterator.hpp):
    the mark bits as a set of addresses (contract \<open>mark_set\<close>) and the iterators over them;
    \<open>Atomic_Mark\<close>: \<open>atomicSetBit\<close> under every interleaving of threads, as a step relation.
  \<^item> \<open>Packet\<close>, \<open>Packet_List\<close> (gc/base/Packet.hpp, PacketList.cpp): packets of work and the doubly
    linked lists they are kept in, refined to lists of lists.
  \<^item> \<open>Overflow\<close> (gc/base/WorkPacketOverflow.cpp, standard/OverflowStandard.cpp): the contract of an
    overflow handler (\<open>overflow_handler\<close>) and the standard handler, which stores objects as
    double marks.
  \<^item> \<open>Work_Packets\<close> (gc/base/WorkPackets.cpp): the shared pool of packets; \<open>Packet_Set\<close>,
    \<open>Work_Pool\<close>, \<open>Work_Output\<close>, \<open>Work_Conserve\<close>, \<open>Work_Init\<close>, \<open>Work_Drain\<close> hold its invariant and
    the correctness of its operations.
  \<^item> \<open>Work_Stack\<close> (gc/base/WorkStack.cpp): a thread's view of the pool; \<open>Stack_Correct\<close> and
    \<open>Stack_Pop\<close> prove its operations, \<open>Stack_Contract\<close> the conservation of work.
  \<^item> \<open>Sweep\<close> (gc/base/ParallelSweepChunk.hpp, standard/ParallelSweepScheme.cpp): the sweep of one
    chunk of the heap, which finds the free ranges between marked objects.  \<open>Mark_Scan\<close>,
    \<open>Stats_Merge\<close>, \<open>Sweep_Sample\<close>, \<open>Sweep_Chunk\<close>, \<open>Sweep_Scan\<close> and \<open>Sweep_Result\<close> prove that a swept chunk
    has its leading and trailing range and a list of its inner gaps.
  \<^item> \<open>Sweep_Connect\<close> (gc/base/SweepPoolManagerAddressOrderedListBase.cpp,
    standard/ParallelSweepScheme.cpp, standard/SweepHeapSectioningSegmented.cpp): the division of
    the heap into chunks, the parallel work units and the connection of the swept chunks to the
    free list of the pool.  \<open>Connect_List\<close>, \<open>Connect_Step\<close>, \<open>Connect_Chunk\<close> and \<open>Connect_All\<close> prove the
    connection, \<open>Sweep_Workers\<close> the sharing of the chunks among threads, \<open>Sweep_Heap\<close> and
    \<open>Sweep_Gaps\<close> the whole sweep; \<open>Sweep_Properties\<close> states what it guarantees, up to the
    allocations that follow.
  \<^item> \<open>Sublist_Pool\<close> (gc/structs/SublistPool.cpp, SublistPuddle.cpp, SublistFragment.cpp and the
    iterators; the pruning walk of standard/Scavenger.cpp): the remembered set, a list of puddles of
    slots in memory, filled through the threads' fragments.  \<open>Sublist_Heap\<close> holds its invariant,
    \<open>Sublist_Alloc\<close>, \<open>Sublist_Fragment\<close> and \<open>Sublist_Add\<close> allocation and adding, \<open>Sublist_Compact\<close>
    compaction, \<open>Sublist_Process\<close> the hand-out of puddles, \<open>Sublist_Prune\<close> pruning,
    \<open>Sublist_Element\<close> single elements; \<open>Sublist_Properties\<close> defines the reachable pools and states what
    holds of them; \<open>Puddle_Race\<close>: the contended allocation as a step relation.
  \<^item> \<open>Forwarded\<close> (gc/structs/ForwardedHeader.hpp, ForwardedHeader.cpp): the header words through which
    threads agree on the copy of an object, and the encoding of a copy's progress in one word.
    \<open>Object_Model\<close> (gc/base/ObjectModelBase.hpp): flags, age and remembered state of a header, with the
    atomic operations on them shown linearizable.
  \<^item> \<open>Copy_Protocol\<close>: the threads that copy one large object together, as a step function with the
    reads, exchanges, stores and copies of each thread as single steps, and its invariant;
    \<open>Copy_Progress\<close>: the contract \<open>fair_threads\<close> of threads that finish under fair schedules, and its
    interpretation, since every step waits or makes a rank smaller and somebody never waits;
    \<open>Copy_Properties\<close>: agreement on the destination, completeness of the copy, termination.

  \<^bold>\<open>Reading the model.\<close>
  Operations keep the names of the code where HOL allows it; a prefix is added where a name is
  taken (\<open>pool_\<close>, \<open>pl_\<close>, \<open>wp_\<close>, \<open>ws_\<close>, \<open>sp_\<close>).  State is passed explicitly as the record of the class.
  \<open>None\<close> is an abort: a failed \<open>Assert_MM_true\<close>, a dereference of \<open>NULL\<close>, or a loop that does not
  return; so a theorem that concludes \<open>Some\<close> includes that the code returns.  Loops that may not
  end are \<open>partial_function (option)\<close>.  Only \<open>allocate_initial\<close> (\<open>Work_Packets\<close>) uses fuel: 26
  rounds are enough because a pool refuses to hold more than 25 blocks.

  \<^bold>\<open>Configuration.\<close>
  The 64-bit build with the default options of the build files: \<open>OMR_GC_THREAD_LOCAL_HEAP\<close>,
  \<open>OMR_GC_LARGE_OBJECT_AREA\<close> and \<open>OMR_GC_ALLOCATION_TAX\<close> are on; \<open>OMR_GC_VLHGC\<close>,
  \<open>OMR_GC_SEGREGATED_HEAP\<close> and \<open>OMR_GC_CONCURRENT_SWEEP\<close> are off.  Code outside the repository's
  sources or behind the client's glue is a parameter: object sizes, the forge (the collector's
  own allocator: the blocks its next calls return), the initialisation of monitors, commit and
  decommit of memory, and the logarithm of the size classes.  The sweep is that of one region that
  is backed by one pool.  The forwarding of objects is that of the build with
  \<open>OMR_GC_CONCURRENT_SCAVENGER\<close> and without compressed headers, where the flags are in the low byte of
  the header; an access to a header is atomic and seen by all threads at once, as the code's barriers
  are to ensure.

  \<^bold>\<open>Not modelled.\<close>
  The compiler, JitBuilder, the port, thread and trace libraries and the tools are separate
  programs of the repository.  Of the collector: memory subspaces and physical arenas (operating
  system memory), the concurrent collector and its card table, the scavenger's copy caches, its scan
  order and its back-out, the compaction of the heap, the table of heap regions and a sweep across several of them, verbose output, the floating point averages of the
  statistics, and locks, which make the modelled operations atomic.
\<close>

end
